(* ===== verification/Prelude.thy ===== *)
theory Prelude
  imports "HOL-Library.Word" "HOL-Library.Monad_Syntax" "HOL-Library.Code_Target_Nat"
begin

text \<open>
  Shared vocabulary of the development.  Byte buffers are lists of 8-bit words; a bit stream
  is stored in a buffer least significant bit first, exactly as every file under src/src
  indexes it: bit \<open>i\<close> of a buffer is bit \<open>i mod 8\<close> of byte \<open>i div 8\<close>.

  The code reads such a bit with \<open>(buf[i / 8] >> (i % 8)) & 1\<close> and sets it with
  \<open>buf[i / 8] |= 1 << (i % 8)\<close>.  Almost all data movement (instruction registers, boundary
  registers, SPI payloads, IDCODEs) is a counted loop over these two statements, so the prelude
  gives the loop once (\<open>or_bits\<close>, \<open>word_of_bits\<close>) with its characterisation, and the component
  theories instantiate it.

  Undefined behaviour of C++ (a dereference outside an object) is the value \<open>None\<close> of the
  operation that would run into it; each component proves where it cannot happen.
\<close>

unbundle bit_operations_syntax

named_theorems buf_simps \<open>reading back what the buffer loops wrote\<close>

type_synonym byte = "8 word"
type_synonym u16 = "16 word"
type_synonym u32 = "32 word"
type_synonym u64 = "64 word"

section \<open>Reading and setting single bits\<close>

definition bytes_for :: "nat \<Rightarrow> nat" where
  "bytes_for n = (n + 7) div 8"

definition buf_bit :: "byte list \<Rightarrow> nat \<Rightarrow> bool" where
  "buf_bit buf i \<longleftrightarrow> i div 8 < length buf \<and> bit (buf ! (i div 8)) (i mod 8)"

definition buf_or_bit :: "byte list \<Rightarrow> nat \<Rightarrow> byte list" where
  "buf_or_bit buf i = buf[i div 8 := (buf ! (i div 8)) OR push_bit (i mod 8) 1]"

definition or_bits :: "(nat \<Rightarrow> bool) \<Rightarrow> nat \<Rightarrow> nat \<Rightarrow> byte list \<Rightarrow> byte list" where
  "or_bits P off n buf =
     fold (\<lambda>b acc. if P b then buf_or_bit acc (off + b) else acc) [0..<n] buf"

definition word_of_bits :: "(nat \<Rightarrow> bool) \<Rightarrow> nat \<Rightarrow> 'a::len word" where
  "word_of_bits P n = fold (\<lambda>b acc. if P b then acc OR push_bit b 1 else acc) [0..<n] 0"

definition buf_bits :: "byte list \<Rightarrow> nat \<Rightarrow> bool list" where
  "buf_bits buf n = map (buf_bit buf) [0..<n]"

lemma bytes_for_bound: "i < n \<Longrightarrow> i div 8 < bytes_for n"
  by (simp add: bytes_for_def)

lemma bytes_for_split: "bytes_for n = n div 8 + (if 0 < n mod 8 then 1 else 0)"
proof -
  have "(8 * q + r + 7) div 8 = q + (if 0 < r then 1 else 0)" if "r < 8" for q r :: nat
    by (rule div_nat_eqI) (use that in auto)
  from this [of "n mod 8" "n div 8"] show ?thesis by (simp add: bytes_for_def)
qed

lemma mod8_zero: "n mod 8 = 0 \<Longrightarrow> 8 * (n div 8) = (n::nat)"
  by presburger

lemma bytes_for_le: "n \<le> 8 * m \<Longrightarrow> bytes_for n \<le> m"
  by (simp add: bytes_for_def)

lemma bytes_for_mono: "m \<le> n \<Longrightarrow> bytes_for m \<le> bytes_for n"
  by (simp add: bytes_for_def div_le_mono)

lemma bytes_for_ge: "n \<le> 8 * bytes_for n"
  by (simp add: bytes_for_def)

lemma bytes_for_mult [simp]: "bytes_for (8 * n) = n" "bytes_for (n * 8) = n"
  by (simp_all add: bytes_for_def)

lemma bit_one_shift [simp]: "bit (2 ^ n :: 'a::len word) m \<longleftrightarrow> m = n \<and> n < LENGTH('a)"
  by (auto simp: bit_exp_iff)

lemma length_buf_or_bit [simp]: "length (buf_or_bit buf i) = length buf"
  by (simp add: buf_or_bit_def)

lemma div_mod_8_eq_iff: "(i div 8 = j div 8 \<and> i mod 8 = j mod 8) \<longleftrightarrow> i = (j::nat)"
  by (metis div_mult_mod_eq)

lemma buf_bit_or_bit [buf_simps]:
  "buf_bit (buf_or_bit buf j) i \<longleftrightarrow> buf_bit buf i \<or> (i = j \<and> j div 8 < length buf)"
proof (cases "j div 8 = i div 8")
  case True
  then have "i = j \<longleftrightarrow> i mod 8 = j mod 8"
    using div_mod_8_eq_iff [of i j] by simp
  with True show ?thesis
    by (auto simp: buf_bit_def buf_or_bit_def bit_or_iff nth_list_update)
next
  case False
  then show ?thesis by (auto simp: buf_bit_def buf_or_bit_def nth_list_update)
qed

lemma length_or_bits [simp]: "length (or_bits P off n buf) = length buf"
  unfolding or_bits_def by (induction n) auto

lemma or_bits_Suc:
  "or_bits P off (Suc n) buf =
     (if P n then buf_or_bit (or_bits P off n buf) (off + n) else or_bits P off n buf)"
  by (simp add: or_bits_def)

lemma or_bits_0 [simp]: "or_bits P off 0 buf = buf"
  by (simp add: or_bits_def)

text \<open>The one fact about the copy loops: the written window, and nothing else, is or-ed in.\<close>

lemma buf_bit_or_bits [buf_simps]:
  "buf_bit (or_bits P off n buf) i \<longleftrightarrow>
     buf_bit buf i \<or> (off \<le> i \<and> i < off + n \<and> i div 8 < length buf \<and> P (i - off))"
proof (induction n)
  case 0
  then show ?case by auto
next
  case (Suc n)
  show ?case
  proof (cases "i = off + n")
    case True
    with Suc show ?thesis by (auto simp: or_bits_Suc buf_bit_or_bit)
  next
    case False
    with Suc show ?thesis by (auto simp: or_bits_Suc buf_bit_or_bit)
  qed
qed

lemma buf_bit_replicate_0 [simp]: "\<not> buf_bit (replicate n 0) i"
  by (simp add: buf_bit_def)

lemma word_of_bits_Suc:
  "word_of_bits P (Suc n) =
     (if P n then word_of_bits P n OR push_bit n 1 else (word_of_bits P n :: 'a::len word))"
  by (simp add: word_of_bits_def)

lemma bit_word_of_bits [buf_simps]:
  "bit (word_of_bits P n :: 'a::len word) i \<longleftrightarrow> i < n \<and> i < LENGTH('a) \<and> P i"
proof (induction n)
  case 0
  then show ?case by (simp add: word_of_bits_def)
next
  case (Suc n)
  then show ?case by (auto simp: word_of_bits_Suc bit_or_iff less_Suc_eq)
qed

lemma length_buf_bits [simp]: "length (buf_bits buf n) = n"
  by (simp add: buf_bits_def)

lemma nth_buf_bits [simp]: "i < n \<Longrightarrow> buf_bits buf n ! i = buf_bit buf i"
  by (simp add: buf_bits_def)

lemma buf_bits_cong:
  "(\<And>i. i < n \<Longrightarrow> buf_bit a i = buf_bit b i) \<Longrightarrow> buf_bits a n = buf_bits b n"
  by (simp add: buf_bits_def)

lemma buf_bits_add:
  "buf_bits buf (m + n) = buf_bits buf m @ map (\<lambda>i. buf_bit buf (m + i)) [0..<n]"
proof (rule nth_equalityI)
  show "length (buf_bits buf (m + n)) = length (buf_bits buf m @ map (\<lambda>i. buf_bit buf (m + i)) [0..<n])"
    by simp
next
  fix i assume "i < length (buf_bits buf (m + n))"
  then show "buf_bits buf (m + n) ! i
      = (buf_bits buf m @ map (\<lambda>i. buf_bit buf (m + i)) [0..<n]) ! i"
    by (cases "i < m") (simp_all add: nth_append less_diff_conv2)
qed

text \<open>The two word extensionality facts the component proofs use.\<close>

lemma word_eq_bitsI:
  "(\<And>i. i < LENGTH('a) \<Longrightarrow> bit a i = bit b i) \<Longrightarrow> a = (b :: 'a::len word)"
  by (rule bit_word_eqI) simp

lemma buf_eqI:
  assumes "length a = length b" and "\<And>i. i < 8 * length a \<Longrightarrow> buf_bit a i = buf_bit b i"
  shows "a = b"
proof (rule nth_equalityI)
  fix k assume k: "k < length a"
  show "a ! k = b ! k"
  proof (rule word_eq_bitsI)
    fix i assume "i < LENGTH(8)"
    then have "(8 * k + i) div 8 = k" "(8 * k + i) mod 8 = i" "8 * k + i < 8 * length a"
      using k by auto
    with assms(2) [of "8 * k + i"] k assms(1)
    show "bit (a ! k) i = bit (b ! k) i" by (simp add: buf_bit_def)
  qed
qed (rule assms(1))

text \<open>The bits of a byte in the other order, most significant first.\<close>

definition msb_bits :: "byte \<Rightarrow> bool list" where
  "msb_bits b = map (bit b) [7, 6, 5, 4, 3, 2, 1, 0]"

lemma length_msb_bits [simp]: "length (msb_bits b) = 8"
  by (simp add: msb_bits_def)

text \<open>A run of steps that repeating does not change can skip repeated inputs.\<close>

lemma fold_remdups_adj:
  assumes "\<And>x s. f x (f x s) = f x s"
  shows "fold f (remdups_adj xs) s = fold f xs s"
  by (induction xs arbitrary: s rule: remdups_adj.induct) (simp_all add: assms)

section \<open>Text the code prints\<close>

definition hex_digit :: "nat \<Rightarrow> char" where
  "hex_digit n = (''0123456789ABCDEF'' ! (n mod 16))"

fun hex_pad :: "nat \<Rightarrow> nat \<Rightarrow> string" where
  "hex_pad 0 n = []"
| "hex_pad (Suc k) n = hex_pad k (n div 16) @ [hex_digit n]"

fun dec_digits :: "nat \<Rightarrow> string" where
  "dec_digits n = (if n < 10 then [char_of (48 + n)]
                   else dec_digits (n div 10) @ [char_of (48 + n mod 10)])"

declare dec_digits.simps [simp del]

definition to_string :: "int \<Rightarrow> string" where
  "to_string i = (if i < 0 then ''-'' @ dec_digits (nat (- i)) else dec_digits (nat i))"

text \<open>\<open>%0*X\<close>: at least \<open>w\<close> digits, more when the value needs them.\<close>

function hex_len :: "nat \<Rightarrow> nat" where
  "hex_len n = (if n < 16 then 1 else Suc (hex_len (n div 16)))"
  by pat_completeness auto
termination by (relation "measure id") auto

declare hex_len.simps [simp del]

definition hex_fmt :: "nat \<Rightarrow> nat \<Rightarrow> string" where
  "hex_fmt w n = hex_pad (max w (hex_len n)) n"

lemma length_hex_pad [simp]: "length (hex_pad k n) = k"
  by (induction k arbitrary: n) auto

end
