(* ===== verification/Bsdl_Model.thy ===== *)
theory Bsdl_Model
  imports Prelude
begin

text \<open>
  src/src/bsdl/bsdl_model.{h,cpp}: the description of a device that the BSDL parser produces and
  the boundary-scan code reads.  Cells are indexed by their position in the boundary register; the
  names \<open>bc_\<close>, \<open>pi_\<close>, \<open>id_\<close>, \<open>bd_\<close> mark the fields of \<open>BoundaryCell\<close>, \<open>PinInfo\<close>, \<open>IdCode\<close> and
  \<open>BSDLDevice\<close>.  A pointer to a cell that may be null is an \<open>option\<close>.  Lengths are never negative in
  the code (the parser reads them from digits), so they are natural numbers.

  The lemmas characterise the searches and \<open>crossReference\<close>: the last cell of a kind wins.
\<close>

unbundle bit_operations_syntax

section \<open>Cells and pins\<close>

datatype cell_function =
    Cf_INPUT | Cf_OUTPUT2 | Cf_OUTPUT3 | Cf_CONTROL | Cf_BIDIR | Cf_CLOCK | Cf_INTERNAL

datatype disable_result =
    Dr_NONE | Dr_PULL0 | Dr_PULL1 | Dr_HIGHZ | Dr_KEEPER | Dr_UNKNOWN

record boundary_cell =
  bc_position :: int
  bc_cell_type :: string
  bc_pin_name :: string
  bc_function :: cell_function
  bc_safe_value :: int
  bc_disabled_by :: int
  bc_disable_value :: int
  bc_disable_result :: disable_result

definition default_cell :: boundary_cell where
  "default_cell =
     \<lparr>bc_position = -1, bc_cell_type = [], bc_pin_name = [], bc_function = Cf_INPUT, bc_safe_value = -1,
      bc_disabled_by = -1, bc_disable_value = -1, bc_disable_result = Dr_NONE\<rparr>"

definition has_pin :: "boundary_cell \<Rightarrow> bool" where
  "has_pin c \<longleftrightarrow> bc_pin_name c \<noteq> ''*'' \<and> bc_pin_name c \<noteq> []"

definition is_input :: "boundary_cell \<Rightarrow> bool" where
  "is_input c \<longleftrightarrow> bc_function c = Cf_INPUT \<or> bc_function c = Cf_BIDIR \<or> bc_function c = Cf_CLOCK"

definition is_output :: "boundary_cell \<Rightarrow> bool" where
  "is_output c \<longleftrightarrow> bc_function c = Cf_OUTPUT2 \<or> bc_function c = Cf_OUTPUT3 \<or> bc_function c = Cf_BIDIR"

definition is_control :: "boundary_cell \<Rightarrow> bool" where
  "is_control c \<longleftrightarrow> bc_function c = Cf_CONTROL"

datatype pin_direction = Pd_IN | Pd_OUT | Pd_INOUT | Pd_BUFFER | Pd_LINKAGE

record pin_info =
  pi_name :: string
  pi_direction :: pin_direction
  pi_physical_pin :: int
  pi_input_cell :: int
  pi_output_cell :: int
  pi_control_cell :: int

record id_code =
  id_raw :: u32
  id_version :: u32
  id_part_number :: u32
  id_manufacturer :: u32

definition id_matches :: "id_code \<Rightarrow> u32 \<Rightarrow> bool" where
  "id_matches i other_raw \<longleftrightarrow> (id_raw i AND 0x0FFFFFFF) = (other_raw AND 0x0FFFFFFF)"

section \<open>The device\<close>

record bsdl_device =
  bd_entity_name :: string
  bd_package_name :: string
  bd_instruction_length :: nat
  bd_instructions :: "string \<rightharpoonup> u32"
  bd_boundary_length :: nat
  bd_cells :: "boundary_cell list"
  bd_pins :: "string \<rightharpoonup> pin_info"
  bd_package_pin_map :: "string \<rightharpoonup> string"
  bd_idcode :: id_code

definition default_device :: bsdl_device where
  "default_device =
     \<lparr>bd_entity_name = [], bd_package_name = [], bd_instruction_length = 0, bd_instructions = Map.empty,
      bd_boundary_length = 0, bd_cells = [], bd_pins = Map.empty, bd_package_pin_map = Map.empty,
      bd_idcode = \<lparr>id_raw = 0, id_version = 0, id_part_number = 0, id_manufacturer = 0\<rparr>\<rparr>"

definition get_instruction :: "bsdl_device \<Rightarrow> string \<Rightarrow> u32 option" where
  "get_instruction d name = bd_instructions d name"

definition sample_opcode :: "bsdl_device \<Rightarrow> u32 option" where
  "sample_opcode d =
     (case get_instruction d ''SAMPLE'' of
        None \<Rightarrow> get_instruction d ''SAMPLE/PRELOAD''
      | Some op \<Rightarrow> Some op)"

definition extest_opcode :: "bsdl_device \<Rightarrow> u32 option" where
  "extest_opcode d = get_instruction d ''EXTEST''"

definition idcode_opcode :: "bsdl_device \<Rightarrow> u32 option" where
  "idcode_opcode d = get_instruction d ''IDCODE''"

definition bypass_opcode :: "bsdl_device \<Rightarrow> u32 option" where
  "bypass_opcode d = get_instruction d ''BYPASS''"

definition get_cell_at :: "bsdl_device \<Rightarrow> int \<Rightarrow> boundary_cell option" where
  "get_cell_at d position =
     (if 0 \<le> position \<and> position < int (length (bd_cells d)) then Some (bd_cells d ! nat position) else None)"

definition get_input_cells :: "bsdl_device \<Rightarrow> boundary_cell list" where
  "get_input_cells d = filter (\<lambda>c. is_input c \<and> has_pin c) (bd_cells d)"

definition get_output_cells :: "bsdl_device \<Rightarrow> boundary_cell list" where
  "get_output_cells d = filter (\<lambda>c. is_output c \<and> has_pin c) (bd_cells d)"

definition get_input_cell_for_pin :: "bsdl_device \<Rightarrow> string \<Rightarrow> boundary_cell option" where
  "get_input_cell_for_pin d pin = List.find (\<lambda>c. bc_pin_name c = pin \<and> is_input c) (bd_cells d)"

definition get_output_cell_for_pin :: "bsdl_device \<Rightarrow> string \<Rightarrow> boundary_cell option" where
  "get_output_cell_for_pin d pin = List.find (\<lambda>c. bc_pin_name c = pin \<and> is_output c) (bd_cells d)"

definition get_control_cell_for :: "bsdl_device \<Rightarrow> boundary_cell \<Rightarrow> boundary_cell option" where
  "get_control_cell_for d out =
     (if 0 \<le> bc_disabled_by out then get_cell_at d (bc_disabled_by out) else None)"

text \<open>A boundary description in which every pin's cell lies inside the register.\<close>

definition cells_ok :: "bsdl_device \<Rightarrow> bool" where
  "cells_ok d \<longleftrightarrow>
     (\<forall>c \<in> set (bd_cells d). has_pin c \<longrightarrow> 0 \<le> bc_position c \<and> bc_position c < int (bd_boundary_length d))"

section \<open>Linking cells to pins\<close>

definition link_cell :: "boundary_cell \<Rightarrow> pin_info \<Rightarrow> pin_info" where
  "link_cell c p0 =
     (let p1 = (if is_input c then p0\<lparr>pi_input_cell := bc_position c\<rparr> else p0);
          p2 = (if is_output c then p1\<lparr>pi_output_cell := bc_position c\<rparr> else p1)
      in if is_control c then p2\<lparr>pi_control_cell := bc_position c\<rparr> else p2)"

definition cross_ref_step :: "boundary_cell \<Rightarrow> (string \<rightharpoonup> pin_info) \<Rightarrow> (string \<rightharpoonup> pin_info)" where
  "cross_ref_step c pins =
     (if \<not> has_pin c then pins
      else case pins (bc_pin_name c) of
        None \<Rightarrow> pins
      | Some p \<Rightarrow> pins(bc_pin_name c \<mapsto> link_cell c p))"

definition cross_reference :: "bsdl_device \<Rightarrow> bsdl_device" where
  "cross_reference d = d\<lparr>bd_pins := fold cross_ref_step (bd_cells d) (bd_pins d)\<rparr>"

text \<open>The last cell of the list that satisfies \<open>Q\<close>, or the old value.\<close>

definition last_position :: "(boundary_cell \<Rightarrow> bool) \<Rightarrow> boundary_cell list \<Rightarrow> int \<Rightarrow> int" where
  "last_position Q cs old = (if filter Q cs = [] then old else bc_position (last (filter Q cs)))"

lemma last_position_simps [simp]:
  "last_position Q [] old = old"
  "last_position Q (cs @ [c]) old = (if Q c then bc_position c else last_position Q cs old)"
  by (simp_all add: last_position_def)

lemma link_cell_simps [simp]:
  "pi_input_cell (link_cell c p) = (if is_input c then bc_position c else pi_input_cell p)"
  "pi_output_cell (link_cell c p) = (if is_output c then bc_position c else pi_output_cell p)"
  "pi_control_cell (link_cell c p) = (if is_control c then bc_position c else pi_control_cell p)"
  "pi_name (link_cell c p) = pi_name p" "pi_direction (link_cell c p) = pi_direction p"
  "pi_physical_pin (link_cell c p) = pi_physical_pin p"
  by (simp_all add: link_cell_def Let_def)

lemma cross_ref_fold:
  "fold cross_ref_step cs pins name =
     map_option (\<lambda>p. p\<lparr>
       pi_input_cell := last_position (\<lambda>c. has_pin c \<and> bc_pin_name c = name \<and> is_input c) cs (pi_input_cell p),
       pi_output_cell := last_position (\<lambda>c. has_pin c \<and> bc_pin_name c = name \<and> is_output c) cs (pi_output_cell p),
       pi_control_cell := last_position (\<lambda>c. has_pin c \<and> bc_pin_name c = name \<and> is_control c) cs (pi_control_cell p)\<rparr>)
     (pins name)"
proof (induction cs rule: rev_induct)
  case Nil
  then show ?case by (cases "pins name") simp_all
next
  case (snoc c cs)
  let ?m = "fold cross_ref_step cs pins"
  have "cross_ref_step c ?m name = (if has_pin c \<and> bc_pin_name c = name then map_option (link_cell c) (?m name) else ?m name)"
    by (auto simp: cross_ref_step_def split: option.splits)
  with snoc show ?case
    by (cases "pins name") (auto intro!: pin_info.equality simp: has_pin_def)
qed

section \<open>Properties\<close>

text \<open>\<open>crossReference\<close> keeps the set of pins and each pin's name, direction and physical pin, and
  sets its input, output and control cell to the last cell of that kind which names the pin.\<close>

theorem cross_reference_links:
  "bd_pins (cross_reference d) name =
     map_option (\<lambda>p. p\<lparr>
       pi_input_cell := last_position (\<lambda>c. has_pin c \<and> bc_pin_name c = name \<and> is_input c) (bd_cells d) (pi_input_cell p),
       pi_output_cell := last_position (\<lambda>c. has_pin c \<and> bc_pin_name c = name \<and> is_output c) (bd_cells d) (pi_output_cell p),
       pi_control_cell := last_position (\<lambda>c. has_pin c \<and> bc_pin_name c = name \<and> is_control c) (bd_cells d) (pi_control_cell p)\<rparr>)
     (bd_pins d name)"
  by (simp add: cross_reference_def cross_ref_fold)

lemma find_Some_iff2:
  "List.find P xs = Some x \<Longrightarrow> P x \<and> x \<in> set xs"
  by (metis find_Some_iff nth_mem)

end
