(* ===== verification/Mpsse.thy ===== *)
theory Mpsse
  imports Prelude
begin

text \<open>
  src/src/ftdi/mpsse.h and mpsse.cpp: the command buffer that turns JTAG clocking requests
  into FTDI MPSSE command bytes.  \<open>mpsse_buf\<close> is the class \<open>MpsseCommandBuffer\<close>; one definition
  per method.  A \<open>const uint8_t*\<close> argument is the list of the bytes that may be read through it;
  a method that would read past them returns \<open>None\<close>.

  The meaning of the bytes on the wire is the theory \<open>Mpsse_Stream\<close>.
\<close>

section \<open>Command bytes\<close>

definition MPSSE_WRITE_BITS_NEG_LSB :: byte where "MPSSE_WRITE_BITS_NEG_LSB = 0x1B"
definition MPSSE_READ_BITS_POS_LSB :: byte where "MPSSE_READ_BITS_POS_LSB = 0x2A"
definition MPSSE_RDWR_BITS_LSB :: byte where "MPSSE_RDWR_BITS_LSB = 0x3B"
definition MPSSE_WRITE_NEG_LSB :: byte where "MPSSE_WRITE_NEG_LSB = 0x19"
definition MPSSE_READ_POS_LSB :: byte where "MPSSE_READ_POS_LSB = 0x28"
definition MPSSE_RDWR_LSB :: byte where "MPSSE_RDWR_LSB = 0x39"
definition MPSSE_TMS_OUT :: byte where "MPSSE_TMS_OUT = 0x4B"
definition MPSSE_TMS_RDWR :: byte where "MPSSE_TMS_RDWR = 0x6B"
definition SET_BITS_LOW :: byte where "SET_BITS_LOW = 0x80"
definition GET_BITS_LOW :: byte where "GET_BITS_LOW = 0x81"
definition LOOPBACK_END :: byte where "LOOPBACK_END = 0x85"
definition TCK_DIVISOR :: byte where "TCK_DIVISOR = 0x86"
definition SEND_IMMEDIATE :: byte where "SEND_IMMEDIATE = 0x87"
definition DIS_DIV_5 :: byte where "DIS_DIV_5 = 0x8A"
definition EN_DIV_5 :: byte where "EN_DIV_5 = 0x8B"
definition EN_3_PHASE :: byte where "EN_3_PHASE = 0x8C"
definition DIS_3_PHASE :: byte where "DIS_3_PHASE = 0x8D"
definition BAD_COMMAND :: byte where "BAD_COMMAND = 0xAB"

lemmas mpsse_opcodes =
  MPSSE_WRITE_BITS_NEG_LSB_def MPSSE_READ_BITS_POS_LSB_def MPSSE_RDWR_BITS_LSB_def
  MPSSE_WRITE_NEG_LSB_def MPSSE_READ_POS_LSB_def MPSSE_RDWR_LSB_def MPSSE_TMS_OUT_def
  MPSSE_TMS_RDWR_def SET_BITS_LOW_def GET_BITS_LOW_def LOOPBACK_END_def TCK_DIVISOR_def
  SEND_IMMEDIATE_def DIS_DIV_5_def EN_DIV_5_def EN_3_PHASE_def DIS_3_PHASE_def BAD_COMMAND_def

section \<open>The command buffer\<close>

record mpsse_buf =
  cmd_buffer :: "byte list"
  expected_read_bytes :: nat

definition mpsse_empty :: mpsse_buf where
  "mpsse_empty = \<lparr>cmd_buffer = [], expected_read_bytes = 0\<rparr>"

definition mpsse_clear :: "mpsse_buf \<Rightarrow> mpsse_buf" where
  "mpsse_clear b = b\<lparr>cmd_buffer := [], expected_read_bytes := 0\<rparr>"

definition append_byte :: "byte \<Rightarrow> mpsse_buf \<Rightarrow> mpsse_buf" where
  "append_byte x b = b\<lparr>cmd_buffer := cmd_buffer b @ [x]\<rparr>"

definition append_bytes :: "byte list \<Rightarrow> mpsse_buf \<Rightarrow> mpsse_buf" where
  "append_bytes xs b = b\<lparr>cmd_buffer := cmd_buffer b @ xs\<rparr>"

definition expect :: "nat \<Rightarrow> mpsse_buf \<Rightarrow> mpsse_buf" where
  "expect n b = b\<lparr>expected_read_bytes := expected_read_bytes b + n\<rparr>"

definition clock_tms :: "byte \<Rightarrow> int \<Rightarrow> bool \<Rightarrow> bool \<Rightarrow> mpsse_buf \<Rightarrow> mpsse_buf" where
  "clock_tms tms_bits bit_count tdi_value read_tdo b =
     (if bit_count < 1 \<or> 7 < bit_count then b
      else
        let cmd = (if read_tdo then MPSSE_TMS_RDWR else MPSSE_TMS_OUT);
            b1 = append_byte (word_of_int (bit_count - 1)) (append_byte cmd b);
            data_byte = (tms_bits AND 0x7F) OR (if tdi_value then 0x80 else 0x00);
            b2 = append_byte data_byte b1
        in if read_tdo then expect 1 b2 else b2)"

text \<open>The two length bytes of a byte-mode command hold \<open>chunk - 1\<close> as a \<open>uint16_t\<close>.\<close>

definition append_len :: "nat \<Rightarrow> mpsse_buf \<Rightarrow> mpsse_buf" where
  "append_len chunk b =
     (let len = (of_nat (chunk - 1) :: u16)
      in append_byte (ucast (drop_bit 8 len AND 0xFF)) (append_byte (ucast (len AND 0xFF)) b))"

definition chunk_of :: "nat \<Rightarrow> nat" where
  "chunk_of full_bytes = (if full_bytes > 65536 then 65536 else full_bytes)"

function shift_out_chunks :: "byte list \<Rightarrow> nat \<Rightarrow> nat \<Rightarrow> mpsse_buf \<Rightarrow> mpsse_buf" where
  "shift_out_chunks data offset full_bytes b =
     (if full_bytes > 0 then
        let chunk = chunk_of full_bytes;
            b1 = append_len chunk (append_byte MPSSE_WRITE_NEG_LSB b);
            b2 = append_bytes (take chunk (drop offset data)) b1
        in shift_out_chunks data (offset + chunk) (full_bytes - chunk) b2
      else b)"
  by pat_completeness auto
termination
  by (relation "measure (\<lambda>(_, _, full, _). full)") (auto simp: chunk_of_def)

definition shift_out :: "byte list \<Rightarrow> int \<Rightarrow> mpsse_buf \<Rightarrow> mpsse_buf option" where
  "shift_out data bit_count b =
     (if bit_count \<le> 0 then Some b
      else
        let full_bytes = nat bit_count div 8;
            remaining_bits = nat bit_count mod 8
        in if length data < full_bytes + (if remaining_bits > 0 then 1 else 0) then None
           else
             let b1 = shift_out_chunks data 0 full_bytes b
             in Some (if remaining_bits > 0
                then append_byte (data ! (nat bit_count div 8))
                       (append_byte (of_nat (remaining_bits - 1))
                          (append_byte MPSSE_WRITE_BITS_NEG_LSB b1))
                else b1))"

function shift_in_chunks :: "nat \<Rightarrow> mpsse_buf \<Rightarrow> mpsse_buf" where
  "shift_in_chunks full_bytes b =
     (if full_bytes > 0 then
        let chunk = chunk_of full_bytes;
            b1 = append_len chunk (append_byte MPSSE_READ_POS_LSB b)
        in shift_in_chunks (full_bytes - chunk) (expect chunk b1)
      else b)"
  by pat_completeness auto
termination
  by (relation "measure fst") (auto simp: chunk_of_def)

definition shift_in :: "int \<Rightarrow> mpsse_buf \<Rightarrow> mpsse_buf" where
  "shift_in bit_count b =
     (if bit_count \<le> 0 then b
      else
        let full_bytes = nat bit_count div 8;
            remaining_bits = nat bit_count mod 8;
            b1 = shift_in_chunks full_bytes b
        in if remaining_bits > 0
           then expect 1 (append_byte (of_nat (remaining_bits - 1))
                            (append_byte MPSSE_READ_BITS_POS_LSB b1))
           else b1)"

function shift_in_out_chunks :: "byte list \<Rightarrow> nat \<Rightarrow> nat \<Rightarrow> mpsse_buf \<Rightarrow> mpsse_buf" where
  "shift_in_out_chunks tdi_data offset full_bytes b =
     (if full_bytes > 0 then
        let chunk = chunk_of full_bytes;
            b1 = append_len chunk (append_byte MPSSE_RDWR_LSB b);
            b2 = append_bytes (take chunk (drop offset tdi_data)) b1
        in shift_in_out_chunks tdi_data (offset + chunk) (full_bytes - chunk) (expect chunk b2)
      else b)"
  by pat_completeness auto
termination
  by (relation "measure (\<lambda>(_, _, full, _). full)") (auto simp: chunk_of_def)

definition shift_in_out :: "byte list \<Rightarrow> int \<Rightarrow> mpsse_buf \<Rightarrow> mpsse_buf option" where
  "shift_in_out tdi_data bit_count b =
     (if bit_count \<le> 0 then Some b
      else
        let full_bytes = nat bit_count div 8;
            remaining_bits = nat bit_count mod 8
        in if length tdi_data < full_bytes + (if remaining_bits > 0 then 1 else 0) then None
           else
             let b1 = shift_in_out_chunks tdi_data 0 full_bytes b
             in Some (if remaining_bits > 0
                then expect 1 (append_byte (tdi_data ! (nat bit_count div 8))
                       (append_byte (of_nat (remaining_bits - 1))
                          (append_byte MPSSE_RDWR_BITS_LSB b1)))
                else b1))"

definition set_low_bits :: "byte \<Rightarrow> byte \<Rightarrow> mpsse_buf \<Rightarrow> mpsse_buf" where
  "set_low_bits v direction b =
     append_byte direction (append_byte v (append_byte SET_BITS_LOW b))"

definition get_low_bits :: "mpsse_buf \<Rightarrow> mpsse_buf" where
  "get_low_bits b = expect 1 (append_byte GET_BITS_LOW b)"

definition set_clock_divisor :: "u16 \<Rightarrow> mpsse_buf \<Rightarrow> mpsse_buf" where
  "set_clock_divisor divisor b =
     append_byte (ucast (drop_bit 8 divisor AND 0xFF))
       (append_byte (ucast (divisor AND 0xFF)) (append_byte TCK_DIVISOR b))"

definition disable_clock_divide5 :: "mpsse_buf \<Rightarrow> mpsse_buf" where
  "disable_clock_divide5 b = append_byte DIS_DIV_5 b"

definition enable_clock_divide5 :: "mpsse_buf \<Rightarrow> mpsse_buf" where
  "enable_clock_divide5 b = append_byte EN_DIV_5 b"

definition enable_3_phase_clocking :: "mpsse_buf \<Rightarrow> mpsse_buf" where
  "enable_3_phase_clocking b = append_byte EN_3_PHASE b"

definition disable_3_phase_clocking :: "mpsse_buf \<Rightarrow> mpsse_buf" where
  "disable_3_phase_clocking b = append_byte DIS_3_PHASE b"

definition disable_loopback :: "mpsse_buf \<Rightarrow> mpsse_buf" where
  "disable_loopback b = append_byte LOOPBACK_END b"

definition send_immediate :: "mpsse_buf \<Rightarrow> mpsse_buf" where
  "send_immediate b = append_byte SEND_IMMEDIATE b"

declare shift_out_chunks.simps [simp del] shift_in_chunks.simps [simp del]
  shift_in_out_chunks.simps [simp del]

end
