(* ===== verification/Mpsse_Stream.thy ===== *)
theory Mpsse_Stream
  imports Mpsse
begin

text \<open>
  The reader of an MPSSE command stream, as the opcode comments of src/src/ftdi/mpsse.h (lines
  8-61) document it: \<open>mpsse_parse\<close> splits the bytes into commands, \<open>stream_pulses\<close> lists the TCK
  pulses they cause (TMS level, TDI level, TDO captured or not) and \<open>stream_reply\<close> the bytes that
  come back for the captured TDO levels.  Data commands hold the TMS line at the level the last
  TMS command left it.

  The lemmas show that each method of the command buffer appends exactly the encoding of the
  commands it is meant to issue (\<open>append_cmds\<close>), that the stream parses back to those commands,
  and that the number of reply bytes the buffer accounts for is the number really sent.
\<close>

unbundle bit_operations_syntax

datatype mcmd =
    Tms_Cmd nat byte bool
  | Bytes_Cmd "byte list" bool
  | Bits_Cmd nat byte bool
  | Flush_Cmd

datatype pulse = Pulse (p_tms: bool) (p_tdi: bool) (p_read: bool)

section \<open>Encoding and parsing\<close>

fun cmd_wf :: "mcmd \<Rightarrow> bool" where
  "cmd_wf (Tms_Cmd n d r) \<longleftrightarrow> 1 \<le> n \<and> n \<le> 7"
| "cmd_wf (Bytes_Cmd xs r) \<longleftrightarrow> 1 \<le> length xs \<and> length xs \<le> 65536"
| "cmd_wf (Bits_Cmd n d r) \<longleftrightarrow> 1 \<le> n \<and> n \<le> 8"
| "cmd_wf Flush_Cmd \<longleftrightarrow> True"

definition len_lo :: "nat \<Rightarrow> byte" where
  "len_lo chunk = ucast ((of_nat (chunk - 1) :: u16) AND 0xFF)"

definition len_hi :: "nat \<Rightarrow> byte" where
  "len_hi chunk = ucast (drop_bit 8 (of_nat (chunk - 1) :: u16) AND 0xFF)"

fun cmd_enc :: "mcmd \<Rightarrow> byte list" where
  "cmd_enc (Tms_Cmd n d r) = [if r then MPSSE_TMS_RDWR else MPSSE_TMS_OUT, of_nat (n - 1), d]"
| "cmd_enc (Bytes_Cmd xs r) =
     (if r then MPSSE_RDWR_LSB else MPSSE_WRITE_NEG_LSB) # len_lo (length xs) # len_hi (length xs) # xs"
| "cmd_enc (Bits_Cmd n d r) =
     [if r then MPSSE_RDWR_BITS_LSB else MPSSE_WRITE_BITS_NEG_LSB, of_nat (n - 1), d]"
| "cmd_enc Flush_Cmd = [SEND_IMMEDIATE]"

fun mpsse_take :: "byte \<Rightarrow> byte list \<Rightarrow> (mcmd \<times> byte list) option" where
  "mpsse_take op rest =
     (if op = SEND_IMMEDIATE then Some (Flush_Cmd, rest)
      else case rest of
        a # d # rest' \<Rightarrow>
          if op = MPSSE_TMS_OUT \<or> op = MPSSE_TMS_RDWR then
            if unat a < 7 then Some (Tms_Cmd (Suc (unat a)) d (op = MPSSE_TMS_RDWR), rest') else None
          else if op = MPSSE_WRITE_BITS_NEG_LSB \<or> op = MPSSE_RDWR_BITS_LSB then
            if unat a < 8 then Some (Bits_Cmd (Suc (unat a)) d (op = MPSSE_RDWR_BITS_LSB), rest') else None
          else if op = MPSSE_WRITE_NEG_LSB \<or> op = MPSSE_RDWR_LSB then
            let n = unat a + 256 * unat d + 1
            in if n \<le> length rest' then Some (Bytes_Cmd (take n rest') (op = MPSSE_RDWR_LSB), drop n rest')
               else None
          else None
      | _ \<Rightarrow> None)"

lemma mpsse_take_shrinks: "mpsse_take op rest = Some (c, rest') \<Longrightarrow> length rest' \<le> length rest"
  by (auto simp: Let_def split: if_splits list.splits)

declare mpsse_take.simps [simp del]

function mpsse_parse :: "byte list \<Rightarrow> mcmd list option" where
  "mpsse_parse [] = Some []"
| "mpsse_parse (op # rest) =
     (case mpsse_take op rest of
        None \<Rightarrow> None
      | Some (c, rest') \<Rightarrow> map_option ((#) c) (mpsse_parse rest'))"
  by pat_completeness auto
termination
  by (relation "measure length") (auto dest: mpsse_take_shrinks)

lemma unat_and_FF: "unat ((w :: u16) AND 0xFF) = unat w mod 256"
proof -
  have "w AND 0xFF = take_bit 8 w" by (simp only: take_bit_eq_mask mask_eq_exp_minus_1) simp
  then show ?thesis by (simp only: unsigned_take_bit_eq) (simp add: take_bit_eq_mod)
qed

lemma unat_byte_of_nat: "k < 256 \<Longrightarrow> unat (of_nat k :: byte) = k"
  by (simp add: unsigned_of_nat take_bit_eq_mod)

lemma len_bytes:
  assumes "1 \<le> n" and "n \<le> 65536"
  shows "unat (len_lo n) + 256 * unat (len_hi n) + 1 = n"
proof -
  define m where "m = n - 1"
  have m: "m < 65536" "n = m + 1" using assms by (auto simp: m_def)
  then have u: "unat (of_nat m :: u16) = m" by (simp add: unsigned_of_nat take_bit_eq_mod)
  have lo: "unat (len_lo n) = m mod 256"
    unfolding len_lo_def m_def [symmetric] unsigned_ucast_eq unat_and_FF u
    by (simp add: take_bit_eq_mod)
  have "unat (drop_bit 8 (of_nat m :: u16)) = m div 256"
    by (simp only: unsigned_drop_bit_eq u) (simp add: drop_bit_eq_div m take_bit_eq_mod)
  then have hi: "unat (len_hi n) = m div 256"
    unfolding len_hi_def m_def [symmetric] unsigned_ucast_eq unat_and_FF
    using m by (simp add: take_bit_eq_mod)
  show ?thesis using lo hi m by simp
qed

lemma mpsse_parse_enc:
  assumes "cmd_wf c"
  shows "mpsse_parse (cmd_enc c @ rest) = map_option ((#) c) (mpsse_parse rest)"
proof (cases c)
  case (Tms_Cmd n d r)
  then obtain m where m: "n = Suc m" "m < 7" using assms by (cases n) auto
  then have "unat (of_nat m :: byte) = m" by (simp add: unat_byte_of_nat)
  with Tms_Cmd m show ?thesis by (auto simp: mpsse_take.simps mpsse_opcodes)
next
  case (Bytes_Cmd xs r)
  with assms len_bytes [of "length xs"]
  have "unat (len_lo (length xs)) + 256 * unat (len_hi (length xs)) + 1 = length xs" by simp
  with Bytes_Cmd show ?thesis by (auto simp: mpsse_take.simps mpsse_opcodes Let_def)
next
  case (Bits_Cmd n d r)
  then obtain m where m: "n = Suc m" "m < 8" using assms by (cases n) auto
  then have "unat (of_nat m :: byte) = m" by (simp add: unat_byte_of_nat)
  with Bits_Cmd m show ?thesis by (auto simp: mpsse_take.simps mpsse_opcodes)
qed (simp add: mpsse_take.simps)

definition encode_cmds :: "mcmd list \<Rightarrow> byte list" where
  "encode_cmds cs = concat (map cmd_enc cs)"

lemma mpsse_parse_encode: "list_all cmd_wf cs \<Longrightarrow> mpsse_parse (encode_cmds cs) = Some cs"
  by (induction cs) (simp_all add: encode_cmds_def mpsse_parse_enc)

section \<open>Pulses and replies\<close>

fun cmd_pulses :: "bool \<Rightarrow> mcmd \<Rightarrow> pulse list" where
  "cmd_pulses lvl (Tms_Cmd n d r) = map (\<lambda>i. Pulse (bit d i) (bit d 7) r) [0..<n]"
| "cmd_pulses lvl (Bytes_Cmd xs r) = map (\<lambda>i. Pulse lvl (buf_bit xs i) r) [0..<8 * length xs]"
| "cmd_pulses lvl (Bits_Cmd n d r) = map (\<lambda>i. Pulse lvl (bit d i) r) [0..<n]"
| "cmd_pulses lvl Flush_Cmd = []"

fun cmd_level :: "bool \<Rightarrow> mcmd \<Rightarrow> bool" where
  "cmd_level lvl (Tms_Cmd n d r) = (if n = 0 then lvl else bit d (n - 1))"
| "cmd_level lvl _ = lvl"

fun stream_pulses :: "bool \<Rightarrow> mcmd list \<Rightarrow> pulse list" where
  "stream_pulses lvl [] = []"
| "stream_pulses lvl (c # cs) = cmd_pulses lvl c @ stream_pulses (cmd_level lvl c) cs"

fun stream_level :: "bool \<Rightarrow> mcmd list \<Rightarrow> bool" where
  "stream_level lvl [] = lvl"
| "stream_level lvl (c # cs) = stream_level (cmd_level lvl c) cs"

fun reply_len :: "mcmd \<Rightarrow> nat" where
  "reply_len (Tms_Cmd n d r) = (if r then 1 else 0)"
| "reply_len (Bytes_Cmd xs r) = (if r then length xs else 0)"
| "reply_len (Bits_Cmd n d r) = (if r then 1 else 0)"
| "reply_len Flush_Cmd = 0"

fun read_count :: "mcmd \<Rightarrow> nat" where
  "read_count (Tms_Cmd n d r) = (if r then n else 0)"
| "read_count (Bytes_Cmd xs r) = (if r then 8 * length xs else 0)"
| "read_count (Bits_Cmd n d r) = (if r then n else 0)"
| "read_count Flush_Cmd = 0"

text \<open>Bit-mode replies are shifted in from bit 7, so \<open>n\<close> bits end up left-aligned.\<close>

definition left_aligned :: "bool list \<Rightarrow> byte" where
  "left_aligned bs = word_of_bits (\<lambda>i. 8 - length bs \<le> i \<and> bs ! (i - (8 - length bs))) 8"

definition pack_bytes :: "nat \<Rightarrow> bool list \<Rightarrow> byte list" where
  "pack_bytes n bs = map (\<lambda>k. word_of_bits (\<lambda>i. bs ! (8 * k + i)) 8) [0..<n]"

fun cmd_reply :: "mcmd \<Rightarrow> bool list \<Rightarrow> byte list" where
  "cmd_reply (Tms_Cmd n d r) bs = (if r then [left_aligned (take n bs)] else [])"
| "cmd_reply (Bytes_Cmd xs r) bs = (if r then pack_bytes (length xs) bs else [])"
| "cmd_reply (Bits_Cmd n d r) bs = (if r then [left_aligned (take n bs)] else [])"
| "cmd_reply Flush_Cmd bs = []"

fun stream_reply :: "mcmd list \<Rightarrow> bool list \<Rightarrow> byte list" where
  "stream_reply [] bs = []"
| "stream_reply (c # cs) bs = cmd_reply c bs @ stream_reply cs (drop (read_count c) bs)"

lemma length_cmd_reply [simp]: "length (cmd_reply c bs) = reply_len c"
  by (cases c) (auto simp: pack_bytes_def)

lemma length_stream_reply [simp]: "length (stream_reply cs bs) = sum_list (map reply_len cs)"
  by (induction cs arbitrary: bs) auto

lemma stream_pulses_append:
  "stream_pulses lvl (cs @ ds) = stream_pulses lvl cs @ stream_pulses (stream_level lvl cs) ds"
  by (induction cs arbitrary: lvl) auto

lemma stream_level_append: "stream_level lvl (cs @ ds) = stream_level (stream_level lvl cs) ds"
  by (induction cs arbitrary: lvl) auto

lemma stream_reply_append:
  "stream_reply (cs @ ds) bs =
     stream_reply cs bs @ stream_reply ds (drop (sum_list (map read_count cs)) bs)"
  by (induction cs arbitrary: bs) (auto simp: add.commute)

lemma read_count_pulses: "length (filter p_read (cmd_pulses lvl c)) = read_count c"
  by (cases c) (auto simp: filter_map comp_def)

section \<open>What each method of the buffer appends\<close>

definition append_cmds :: "mcmd list \<Rightarrow> mpsse_buf \<Rightarrow> mpsse_buf" where
  "append_cmds cs b =
     b\<lparr>cmd_buffer := cmd_buffer b @ encode_cmds cs,
       expected_read_bytes := expected_read_bytes b + sum_list (map reply_len cs)\<rparr>"

lemma append_cmds_append: "append_cmds (cs @ ds) b = append_cmds ds (append_cmds cs b)"
  by (simp add: append_cmds_def encode_cmds_def)

lemma append_cmds_Cons: "append_cmds (c # cs) b = append_cmds cs (append_cmds [c] b)"
  using append_cmds_append [of "[c]" cs b] by simp

lemma append_cmds_Nil [simp]: "append_cmds [] b = b"
  by (simp add: append_cmds_def encode_cmds_def)

lemma append_cmds_empty:
  "cmd_buffer (append_cmds cs mpsse_empty) = encode_cmds cs"
  "expected_read_bytes (append_cmds cs mpsse_empty) = sum_list (map reply_len cs)"
  by (simp_all add: append_cmds_def mpsse_empty_def)

definition tms_byte :: "byte \<Rightarrow> bool \<Rightarrow> byte" where
  "tms_byte tms_bits tdi = (tms_bits AND 0x7F) OR (if tdi then 0x80 else 0x00)"

lemma bit_7F: "bit (0x7F :: byte) i \<longleftrightarrow> i < 7"
proof -
  have "(0x7F :: byte) = mask 7" by (simp add: mask_eq_exp_minus_1)
  then show ?thesis by (simp only: bit_mask_iff) auto
qed

lemma bit_80: "bit (0x80 :: byte) i \<longleftrightarrow> i = 7"
proof -
  have "(0x80 :: byte) = 2 ^ 7" by simp
  then show ?thesis by (simp only: bit_one_shift) simp
qed

lemma bit_tms_byte:
  "bit (tms_byte w tdi) i \<longleftrightarrow> (i < 7 \<and> bit w i) \<or> (i = 7 \<and> tdi)"
proof -
  have "i < 8" if "bit w i" using that bit_imp_le_length by fastforce
  then show ?thesis by (cases tdi) (auto simp: tms_byte_def bit_or_iff bit_and_iff bit_7F bit_80
        simp del: bit_numeral_word_iff)
qed

lemma clock_tms_cmds:
  assumes "1 \<le> n" and "n \<le> 7"
  shows "clock_tms w (int n) tdi r b = append_cmds [Tms_Cmd n (tms_byte w tdi) r] b"
proof -
  have "(word_of_int (int n - 1) :: byte) = of_nat (n - 1)"
    using assms by (simp add: of_nat_diff)
  with assms show ?thesis
    by (simp add: clock_tms_def append_cmds_def encode_cmds_def tms_byte_def append_byte_def expect_def)
qed

lemma send_immediate_cmds: "send_immediate b = append_cmds [Flush_Cmd] b"
  by (simp add: send_immediate_def append_byte_def append_cmds_def encode_cmds_def)

function chunk_cmds :: "bool \<Rightarrow> byte list \<Rightarrow> nat \<Rightarrow> nat \<Rightarrow> mcmd list" where
  "chunk_cmds r data off full =
     (if full > 0 then
        Bytes_Cmd (take (chunk_of full) (drop off data)) r
          # chunk_cmds r data (off + chunk_of full) (full - chunk_of full)
      else [])"
  by pat_completeness auto
termination
  by (relation "measure (\<lambda>(_, _, _, full). full)") (auto simp: chunk_of_def)

declare chunk_cmds.simps [simp del]

definition shift_cmds :: "bool \<Rightarrow> byte list \<Rightarrow> nat \<Rightarrow> mcmd list" where
  "shift_cmds r data n =
     chunk_cmds r data 0 (n div 8) @ (if n mod 8 > 0 then [Bits_Cmd (n mod 8) (data ! (n div 8)) r] else [])"

lemma chunk_of_bounds: "0 < full \<Longrightarrow> 1 \<le> chunk_of full \<and> chunk_of full \<le> full \<and> chunk_of full \<le> 65536"
  by (auto simp: chunk_of_def)

lemma chunk_length:
  "off + full \<le> length data \<Longrightarrow> 0 < full \<Longrightarrow> length (take (chunk_of full) (drop off data)) = chunk_of full"
  using chunk_of_bounds [of full] by (auto simp: min_def)

lemma shift_out_chunks_cmds:
  "off + full \<le> length data \<Longrightarrow>
     shift_out_chunks data off full b = append_cmds (chunk_cmds False data off full) b"
proof (induction data off full b rule: shift_out_chunks.induct)
  case (1 data off full b)
  show ?case
  proof (cases "full > 0")
    case True
    note len = chunk_length [OF "1.prems" True]
    have le: "off + chunk_of full + (full - chunk_of full) \<le> length data"
      using "1.prems" chunk_of_bounds [OF True] by simp
    have "append_bytes (take (chunk_of full) (drop off data))
            (append_len (chunk_of full) (append_byte MPSSE_WRITE_NEG_LSB b))
        = append_cmds [Bytes_Cmd (take (chunk_of full) (drop off data)) False] b"
      using len by (simp add: append_cmds_def encode_cmds_def append_bytes_def append_len_def
          append_byte_def len_lo_def len_hi_def Let_def)
    note step = this
    show ?thesis
      unfolding shift_out_chunks.simps [of data off full b] chunk_cmds.simps [of False data off full]
      using True "1.IH" [OF True refl refl refl le] 
      by (simp only: Let_def if_True step append_cmds_Cons [symmetric])
  next
    case False
    then show ?thesis by (simp add: shift_out_chunks.simps chunk_cmds.simps)
  qed
qed

lemma shift_in_out_chunks_cmds:
  "off + full \<le> length data \<Longrightarrow>
     shift_in_out_chunks data off full b = append_cmds (chunk_cmds True data off full) b"
proof (induction data off full b rule: shift_in_out_chunks.induct)
  case (1 data off full b)
  show ?case
  proof (cases "full > 0")
    case True
    note len = chunk_length [OF "1.prems" True]
    have le: "off + chunk_of full + (full - chunk_of full) \<le> length data"
      using "1.prems" chunk_of_bounds [OF True] by simp
    have "expect (chunk_of full) (append_bytes (take (chunk_of full) (drop off data))
            (append_len (chunk_of full) (append_byte MPSSE_RDWR_LSB b)))
        = append_cmds [Bytes_Cmd (take (chunk_of full) (drop off data)) True] b"
      using len by (simp add: append_cmds_def encode_cmds_def append_bytes_def append_len_def
          append_byte_def len_lo_def len_hi_def Let_def expect_def)
    note step = this
    show ?thesis
      unfolding shift_in_out_chunks.simps [of data off full b] chunk_cmds.simps [of True data off full]
      using True "1.IH" [OF True refl refl refl le] 
      by (simp only: Let_def if_True step append_cmds_Cons [symmetric])
  next
    case False
    then show ?thesis by (simp add: shift_in_out_chunks.simps chunk_cmds.simps)
  qed
qed

lemma shift_out_cmds:
  assumes "bytes_for n \<le> length data"
  shows "shift_out data (int n) b = Some (append_cmds (shift_cmds False data n) b)"
proof -
  have full: "0 + n div 8 \<le> length data" and enough: "n div 8 + (if 0 < n mod 8 then 1 else 0) \<le> length data"
    using assms by (auto simp: bytes_for_split split: if_splits)
  note chunks = shift_out_chunks_cmds [OF full]
  show ?thesis
  proof (cases "n = 0")
    case True
    then show ?thesis by (simp add: shift_out_def shift_cmds_def chunk_cmds.simps)
  next
    case False
    with enough chunks show ?thesis
      by (auto simp: shift_out_def shift_cmds_def Let_def append_cmds_append)
        (simp add: append_cmds_def encode_cmds_def append_byte_def)
  qed
qed

lemma shift_in_out_cmds:
  assumes "bytes_for n \<le> length data"
  shows "shift_in_out data (int n) b = Some (append_cmds (shift_cmds True data n) b)"
proof -
  have full: "0 + n div 8 \<le> length data" and enough: "n div 8 + (if 0 < n mod 8 then 1 else 0) \<le> length data"
    using assms by (auto simp: bytes_for_split split: if_splits)
  note chunks = shift_in_out_chunks_cmds [OF full]
  show ?thesis
  proof (cases "n = 0")
    case True
    then show ?thesis by (simp add: shift_in_out_def shift_cmds_def chunk_cmds.simps)
  next
    case False
    with enough chunks show ?thesis
      by (auto simp: shift_in_out_def shift_cmds_def Let_def append_cmds_append)
        (simp add: append_cmds_def encode_cmds_def append_byte_def expect_def)
  qed
qed

lemma chunk_cmds_wf: "off + full \<le> length data \<Longrightarrow> list_all cmd_wf (chunk_cmds r data off full)"
proof (induction r data off full rule: chunk_cmds.induct)
  case (1 r data off full)
  show ?case
  proof (cases "full > 0")
    case True
    have "off + chunk_of full + (full - chunk_of full) \<le> length data"
      using "1.prems" chunk_of_bounds [OF True] by simp
    with "1.IH" True chunk_length [OF "1.prems" True] chunk_of_bounds [OF True] show ?thesis
      by (subst chunk_cmds.simps) auto
  qed (simp add: chunk_cmds.simps)
qed

lemma shift_cmds_wf: "bytes_for n \<le> length data \<Longrightarrow> list_all cmd_wf (shift_cmds r data n)"
  using chunk_cmds_wf [of 0 "n div 8" data r]
  by (auto simp: shift_cmds_def bytes_for_def)

lemma buf_bit_take_drop:
  "i < 8 * m \<Longrightarrow> buf_bit (take m (drop off data)) i = buf_bit data (8 * off + i)"
  by (auto simp: buf_bit_def less_mult_imp_div_less)

lemma map_upt_shift: "map f [a..<a + n] = map (\<lambda>i. f (a + i)) [0..<n]"
  by (rule nth_equalityI) auto

lemma chunk_cmds_level [simp]: "stream_level lvl (chunk_cmds r data off full) = lvl"
  by (induction r data off full rule: chunk_cmds.induct) (subst chunk_cmds.simps, auto)

lemma chunk_cmds_pulses:
  "off + full \<le> length data \<Longrightarrow>
     stream_pulses lvl (chunk_cmds r data off full)
       = map (\<lambda>i. Pulse lvl (buf_bit data (8 * off + i)) r) [0..<8 * full]"
proof (induction r data off full rule: chunk_cmds.induct)
  case (1 r data off full)
  show ?case
  proof (cases "full > 0")
    case True
    let ?c = "chunk_of full"
    note c = chunk_of_bounds [OF True]
    have le: "off + ?c + (full - ?c) \<le> length data" using "1.prems" c by simp
    have "8 * full = 8 * ?c + 8 * (full - ?c)" using c by arith
    then have split: "[0..<8 * full] = [0..<8 * ?c] @ [8 * ?c..<8 * ?c + 8 * (full - ?c)]"
      using upt_add_eq_append [of 0 "8 * ?c" "8 * (full - ?c)"] by simp
    have "stream_pulses lvl (chunk_cmds r data (off + ?c) (full - ?c))
        = map (\<lambda>i. Pulse lvl (buf_bit data (8 * off + i)) r) [8 * ?c..<8 * ?c + 8 * (full - ?c)]"
      using "1.IH" [OF True le] by (simp add: map_upt_shift algebra_simps)
    moreover have "cmd_pulses lvl (Bytes_Cmd (take ?c (drop off data)) r)
        = map (\<lambda>i. Pulse lvl (buf_bit data (8 * off + i)) r) [0..<8 * ?c]"
      using chunk_length [OF "1.prems" True] by (simp add: buf_bit_take_drop)
    ultimately show ?thesis
      using True by (simp only: chunk_cmds.simps [of r data off full] if_True stream_pulses.simps
          cmd_level.simps split map_append)
  qed (simp add: chunk_cmds.simps)
qed

lemma shift_cmds_pulses:
  assumes "bytes_for n \<le> length data"
  shows "stream_pulses lvl (shift_cmds r data n) = map (\<lambda>i. Pulse lvl (buf_bit data i) r) [0..<n]"
proof -
  have full: "0 + n div 8 \<le> length data" using assms by (simp add: bytes_for_def)
  have tail: "n div 8 < length data" if "0 < n mod 8" using assms that by (simp add: bytes_for_split)
  have "map f [0..<8 * q + m] = map f [0..<8 * q] @ map (\<lambda>i. f (8 * q + i)) [0..<m]"
    for f :: "nat \<Rightarrow> pulse" and q m
    using upt_add_eq_append [of 0 "8 * q" m] by (simp add: map_upt_shift [of f "8 * q"])
  from this [of "\<lambda>i. Pulse lvl (buf_bit data i) r" "n div 8" "n mod 8"]
  have "map (\<lambda>i. Pulse lvl (buf_bit data i) r) [0..<n]
      = map (\<lambda>i. Pulse lvl (buf_bit data i) r) [0..<8 * (n div 8)]
        @ map (\<lambda>i. Pulse lvl (buf_bit data (8 * (n div 8) + i)) r) [0..<n mod 8]"
    unfolding mult_div_mod_eq .
  moreover have "map (\<lambda>i. Pulse lvl (buf_bit data (8 * (n div 8) + i)) r) [0..<n mod 8]
      = map (\<lambda>i. Pulse lvl (bit (data ! (n div 8)) i) r) [0..<n mod 8]"
    using tail by (auto simp: buf_bit_def)
  ultimately show ?thesis
    by (simp add: shift_cmds_def stream_pulses_append chunk_cmds_pulses [OF full])
qed

lemma shift_cmds_level [simp]: "stream_level lvl (shift_cmds r data n) = lvl"
  by (simp add: shift_cmds_def stream_level_append)

lemma chunk_cmds_counts:
  "off + full \<le> length data \<Longrightarrow>
     sum_list (map reply_len (chunk_cmds r data off full)) = (if r then full else 0) \<and>
     sum_list (map read_count (chunk_cmds r data off full)) = (if r then 8 * full else 0)"
proof (induction r data off full rule: chunk_cmds.induct)
  case (1 r data off full)
  show ?case
  proof (cases "full > 0")
    case True
    note c = chunk_of_bounds [OF True]
    have le: "off + chunk_of full + (full - chunk_of full) \<le> length data" using "1.prems" c by simp
    from "1.IH" [OF True le] c chunk_length [OF "1.prems" True] show ?thesis
      by (subst (1 2) chunk_cmds.simps) auto
  qed (simp add: chunk_cmds.simps)
qed

lemma shift_cmds_counts:
  assumes "bytes_for n \<le> length data"
  shows "sum_list (map reply_len (shift_cmds r data n)) = (if r then bytes_for n else 0)"
    and "sum_list (map read_count (shift_cmds r data n)) = (if r then n else 0)"
proof -
  have "0 + n div 8 \<le> length data" using assms by (simp add: bytes_for_def)
  note counts = chunk_cmds_counts [OF this, of r]
  show "sum_list (map reply_len (shift_cmds r data n)) = (if r then bytes_for n else 0)"
    using counts by (simp add: shift_cmds_def bytes_for_split)
  show "sum_list (map read_count (shift_cmds r data n)) = (if r then n else 0)"
    using counts by (simp add: shift_cmds_def mod8_zero)
qed

lemma pack_bytes_add:
  assumes "8 * m \<le> length bs"
  shows "pack_bytes (m + n) bs = pack_bytes m bs @ pack_bytes n (drop (8 * m) bs)"
proof -
  have "map (\<lambda>k. word_of_bits (\<lambda>i. bs ! (8 * k + i)) 8) [m..<m + n]
      = (map (\<lambda>k. word_of_bits (\<lambda>i. drop (8 * m) bs ! (8 * k + i)) 8) [0..<n] :: byte list)"
    using assms by (simp add: map_upt_shift algebra_simps)
  then show ?thesis 
    using upt_add_eq_append [of 0 m n] by (simp add: pack_bytes_def)
qed

lemma chunk_cmds_reply:
  "off + full \<le> length data \<Longrightarrow> 8 * full \<le> length bs \<Longrightarrow>
     stream_reply (chunk_cmds True data off full) bs = pack_bytes full bs"
proof (induction True data off full arbitrary: bs rule: chunk_cmds.induct)
  case (1 data off full)
  show ?case
  proof (cases "full > 0")
    case True
    let ?c = "chunk_of full"
    note c = chunk_of_bounds [OF True]
    have le: "off + ?c + (full - ?c) \<le> length data" using "1.prems" c by simp
    have "stream_reply (chunk_cmds True data (off + ?c) (full - ?c)) (drop (8 * ?c) bs)
        = pack_bytes (full - ?c) (drop (8 * ?c) bs)"
      using "1.prems" c by (intro "1.hyps" [OF True le]) simp
    moreover have "pack_bytes full bs = pack_bytes ?c bs @ pack_bytes (full - ?c) (drop (8 * ?c) bs)"
      using pack_bytes_add [of ?c bs "full - ?c"] c "1.prems" by simp
    ultimately show ?thesis
      using True chunk_length [OF "1.prems"(1) True] by (subst chunk_cmds.simps) simp
  qed (simp add: chunk_cmds.simps pack_bytes_def)
qed

lemma shift_cmds_reply_bytes:
  assumes "k \<le> length data" and "8 * k \<le> length bs"
  shows "stream_reply (shift_cmds True data (8 * k)) bs = pack_bytes k bs"
  using assms chunk_cmds_reply [of 0 k data bs] by (simp add: shift_cmds_def)

lemma shift_cmds_reply_bits:
  assumes "0 < n" and "n < 8"
  shows "stream_reply (shift_cmds True data n) bs = [left_aligned (take n bs)]"
  using assms by (simp add: shift_cmds_def chunk_cmds.simps)

end
