(* ===== verification/Tap_Fsm.thy ===== *)
theory Tap_Fsm
  imports Mpsse_Stream
begin

text \<open>
  The IEEE 1149.1 TAP state machine of src/src/jtag/tap_controller.{h,cpp}: the states, the
  transition table \<open>kTapTransitions\<close>, the state names and \<open>computeTmsPath\<close>, the breadth-first search
  for a TMS sequence between two states with its bound of 7 TCK pulses (one MPSSE TMS command).

  The lemmas show that a returned path is a path and a shortest one, and find the only three
  pairs of states for which no path of at most 7 pulses exists, so that the search ends in its
  fallback of five ones, which leads to Test-Logic-Reset and not to the requested state.
  The enumerator \<open>NUM_STATES\<close> is a count, no operation yields it, and it has no constructor here.
\<close>

unbundle bit_operations_syntax

section \<open>States and transitions\<close>

datatype tap_state =
    TEST_LOGIC_RESET | RUN_TEST_IDLE | SELECT_DR_SCAN | CAPTURE_DR | SHIFT_DR | EXIT1_DR
  | PAUSE_DR | EXIT2_DR | UPDATE_DR | SELECT_IR_SCAN | CAPTURE_IR | SHIFT_IR | EXIT1_IR
  | PAUSE_IR | EXIT2_IR | UPDATE_IR

instantiation tap_state :: enum
begin

definition enum_tap_state :: "tap_state list" where
  "enum_tap_state =
     [TEST_LOGIC_RESET, RUN_TEST_IDLE, SELECT_DR_SCAN, CAPTURE_DR, SHIFT_DR, EXIT1_DR,
      PAUSE_DR, EXIT2_DR, UPDATE_DR, SELECT_IR_SCAN, CAPTURE_IR, SHIFT_IR, EXIT1_IR,
      PAUSE_IR, EXIT2_IR, UPDATE_IR]"

definition enum_all_tap_state :: "(tap_state \<Rightarrow> bool) \<Rightarrow> bool" where
  "enum_all_tap_state P = list_all P enum_class.enum"

definition enum_ex_tap_state :: "(tap_state \<Rightarrow> bool) \<Rightarrow> bool" where
  "enum_ex_tap_state P = list_ex P enum_class.enum"

instance
proof
  show univ: "(UNIV :: tap_state set) = set enum_class.enum"
    unfolding enum_tap_state_def by (auto intro: tap_state.exhaust)
  show "distinct (enum_class.enum :: tap_state list)"
    unfolding enum_tap_state_def by simp
  show "enum_class.enum_all P = Ball UNIV P" for P :: "tap_state \<Rightarrow> bool"
    unfolding enum_all_tap_state_def univ by (simp add: list_all_iff)
  show "enum_class.enum_ex P = Bex UNIV P" for P :: "tap_state \<Rightarrow> bool"
    unfolding enum_ex_tap_state_def univ by (simp add: list_ex_iff)
qed

end

fun next_state :: "tap_state \<Rightarrow> bool \<Rightarrow> tap_state" where
  "next_state TEST_LOGIC_RESET tms = (if tms then TEST_LOGIC_RESET else RUN_TEST_IDLE)"
| "next_state RUN_TEST_IDLE tms = (if tms then SELECT_DR_SCAN else RUN_TEST_IDLE)"
| "next_state SELECT_DR_SCAN tms = (if tms then SELECT_IR_SCAN else CAPTURE_DR)"
| "next_state CAPTURE_DR tms = (if tms then EXIT1_DR else SHIFT_DR)"
| "next_state SHIFT_DR tms = (if tms then EXIT1_DR else SHIFT_DR)"
| "next_state EXIT1_DR tms = (if tms then UPDATE_DR else PAUSE_DR)"
| "next_state PAUSE_DR tms = (if tms then EXIT2_DR else PAUSE_DR)"
| "next_state EXIT2_DR tms = (if tms then UPDATE_DR else SHIFT_DR)"
| "next_state UPDATE_DR tms = (if tms then SELECT_DR_SCAN else RUN_TEST_IDLE)"
| "next_state SELECT_IR_SCAN tms = (if tms then TEST_LOGIC_RESET else CAPTURE_IR)"
| "next_state CAPTURE_IR tms = (if tms then EXIT1_IR else SHIFT_IR)"
| "next_state SHIFT_IR tms = (if tms then EXIT1_IR else SHIFT_IR)"
| "next_state EXIT1_IR tms = (if tms then UPDATE_IR else PAUSE_IR)"
| "next_state PAUSE_IR tms = (if tms then EXIT2_IR else PAUSE_IR)"
| "next_state EXIT2_IR tms = (if tms then UPDATE_IR else SHIFT_IR)"
| "next_state UPDATE_IR tms = (if tms then SELECT_DR_SCAN else RUN_TEST_IDLE)"

fun tap_state_name :: "tap_state \<Rightarrow> string" where
  "tap_state_name TEST_LOGIC_RESET = ''TEST-LOGIC-RESET''"
| "tap_state_name RUN_TEST_IDLE = ''RUN-TEST/IDLE''"
| "tap_state_name SELECT_DR_SCAN = ''SELECT-DR-SCAN''"
| "tap_state_name CAPTURE_DR = ''CAPTURE-DR''"
| "tap_state_name SHIFT_DR = ''SHIFT-DR''"
| "tap_state_name EXIT1_DR = ''EXIT1-DR''"
| "tap_state_name PAUSE_DR = ''PAUSE-DR''"
| "tap_state_name EXIT2_DR = ''EXIT2-DR''"
| "tap_state_name UPDATE_DR = ''UPDATE-DR''"
| "tap_state_name SELECT_IR_SCAN = ''SELECT-IR-SCAN''"
| "tap_state_name CAPTURE_IR = ''CAPTURE-IR''"
| "tap_state_name SHIFT_IR = ''SHIFT-IR''"
| "tap_state_name EXIT1_IR = ''EXIT1-IR''"
| "tap_state_name PAUSE_IR = ''PAUSE-IR''"
| "tap_state_name EXIT2_IR = ''EXIT2-IR''"
| "tap_state_name UPDATE_IR = ''UPDATE-IR''"

definition run_tms :: "tap_state \<Rightarrow> bool list \<Rightarrow> tap_state" where
  "run_tms s bs = fold (\<lambda>b t. next_state t b) bs s"

lemma run_tms_simps [simp]:
  "run_tms s [] = s"
  "run_tms s (b # bs) = run_tms (next_state s b) bs"
  "run_tms s (bs @ cs) = run_tms (run_tms s bs) cs"
  by (simp_all add: run_tms_def)

text \<open>Five ones reach Test-Logic-Reset from everywhere: the basis of \<open>reset\<close>.\<close>

lemma five_ones_reset: "run_tms s [True, True, True, True, True] = TEST_LOGIC_RESET"
  by (cases s) simp_all

lemma idle_stays: "run_tms RUN_TEST_IDLE (replicate n False) = RUN_TEST_IDLE"
  by (induction n) simp_all

text \<open>A shift state is only ever entered by a pulse with TMS low.\<close>

lemma next_state_shift_low:
  "next_state s b = SHIFT_DR \<Longrightarrow> \<not> b" "next_state s b = SHIFT_IR \<Longrightarrow> \<not> b"
  by (cases s; cases b; simp)+

section \<open>computeTmsPath\<close>

type_synonym path_entry = "tap_state \<times> byte \<times> nat"

definition bfs_edge ::
  "tap_state \<Rightarrow> path_entry \<Rightarrow> bool \<Rightarrow> path_entry list \<times> tap_state list
     \<Rightarrow> byte \<times> nat + path_entry list \<times> tap_state list" where
  "bfs_edge to cur tms_val qv =
     (case cur of (cur_state, cur_tms, cur_length) \<Rightarrow> case qv of (queue, visited) \<Rightarrow>
        let nxt = next_state cur_state tms_val;
            new_tms = cur_tms OR push_bit cur_length (if tms_val then 1 else 0);
            new_len = cur_length + 1
        in if nxt = to then Inl (new_tms, new_len)
           else if nxt \<notin> set visited \<and> new_len < 7
             then Inr (queue @ [(nxt, new_tms, new_len)], nxt # visited)
           else Inr (queue, visited))"

lemma bfs_edge_measure:
  assumes "bfs_edge to cur b (q, v) = Inr (q', v')"
  shows "2 * card (UNIV - set v') + length q' \<le> 2 * card (UNIV - set v) + length q"
proof (cases "v' = v")
  case True
  with assms show ?thesis by (auto simp: bfs_edge_def Let_def split: prod.splits if_splits)
next
  case False
  with assms obtain n where n: "n \<notin> set v" "v' = n # v" "length q' = Suc (length q)"
    by (auto simp: bfs_edge_def Let_def split: prod.splits if_splits)
  then have "card (UNIV - set v') < card (UNIV - set v)"
    by (intro psubset_card_mono) auto
  with n show ?thesis by linarith
qed

function bfs_loop :: "tap_state \<Rightarrow> path_entry list \<Rightarrow> tap_state list \<Rightarrow> byte \<times> nat" where
  "bfs_loop to [] visited = (0x1F, 5)"
| "bfs_loop to (cur # queue) visited =
     (case bfs_edge to cur False (queue, visited) of
        Inl r \<Rightarrow> r
      | Inr qv1 \<Rightarrow>
          (case bfs_edge to cur True qv1 of
             Inl r \<Rightarrow> r
           | Inr (queue2, visited2) \<Rightarrow> bfs_loop to queue2 visited2))"
  by pat_completeness auto
termination
proof (relation "measure (\<lambda>(to, q, v). 2 * card (UNIV - set v) + length q)")
  fix to cur :: _ and queue :: "path_entry list" and visited qv1 qv2 queue2 visited2
  assume 1: "bfs_edge to cur False (queue, visited) = Inr qv1"
    and 2: "bfs_edge to cur True qv1 = Inr qv2" "(queue2, visited2) = qv2"
  obtain q1 v1 where qv1: "qv1 = (q1, v1)" by (cases qv1)
  note 2 = 2(1) [folded 2(2)] 2(2) [symmetric]
  from bfs_edge_measure [OF 1 [unfolded qv1]] bfs_edge_measure [of to cur True q1 v1 queue2 visited2] 2 qv1
  show "((to, queue2, visited2), (to, cur # queue, visited))
      \<in> measure (\<lambda>(to, q, v). 2 * card (UNIV - set v) + length q)"
    by simp
qed auto

definition compute_tms_path :: "tap_state \<Rightarrow> tap_state \<Rightarrow> byte \<times> nat" where
  "compute_tms_path src dst =
     (if src = dst then (0, 0) else bfs_loop dst [(src, 0, 0)] [src])"

definition path_bits :: "byte \<Rightarrow> nat \<Rightarrow> bool list" where
  "path_bits w n = map (bit w) [0..<n]"


section \<open>Correctness of the path search\<close>

text \<open>The states reachable in exactly \<open>k\<close> pulses, to judge the length of a path.\<close>

fun tms_reach :: "nat \<Rightarrow> tap_state \<Rightarrow> tap_state list" where
  "tms_reach 0 s = [s]"
| "tms_reach (Suc k) s =
     remdups (concat (map (\<lambda>u. [next_state u False, next_state u True]) (tms_reach k s)))"

lemma run_tms_in_reach: "run_tms s bs \<in> set (tms_reach (length bs) s)"
proof (induction bs rule: rev_induct)
  case (snoc b bs)
  then show ?case by (cases b) (auto intro!: bexI)
qed simp

text \<open>The pairs whose distance is 8, one more than a single TMS command can clock.\<close>

definition too_far :: "tap_state \<Rightarrow> tap_state \<Rightarrow> bool" where
  "too_far src dst \<longleftrightarrow> src \<in> {CAPTURE_DR, SHIFT_DR, PAUSE_DR} \<and> dst = EXIT2_IR"

definition path_ok :: "tap_state \<Rightarrow> tap_state \<Rightarrow> bool" where
  "path_ok src dst \<longleftrightarrow>
     (case compute_tms_path src dst of (w, n) \<Rightarrow>
        n \<le> 7
        \<and> (if too_far src dst then (w, n) = (0x1F, 5) \<and> run_tms src (path_bits w n) = TEST_LOGIC_RESET
           else (src = dst \<or> 0 < n) \<and> run_tms src (path_bits w n) = dst)
        \<and> list_all (\<lambda>k. dst \<notin> set (tms_reach k src)) [0..<(if too_far src dst then 8 else n)])"

lemma path_ok_rows:
  "list_all (\<lambda>f. list_all (path_ok f) enum_class.enum) [TEST_LOGIC_RESET, RUN_TEST_IDLE, SELECT_DR_SCAN, CAPTURE_DR]"
  "list_all (\<lambda>f. list_all (path_ok f) enum_class.enum) [SHIFT_DR, EXIT1_DR, PAUSE_DR, EXIT2_DR]"
  "list_all (\<lambda>f. list_all (path_ok f) enum_class.enum) [UPDATE_DR, SELECT_IR_SCAN, CAPTURE_IR, SHIFT_IR]"
  "list_all (\<lambda>f. list_all (path_ok f) enum_class.enum) [EXIT1_IR, PAUSE_IR, EXIT2_IR, UPDATE_IR]"
  by code_simp+

lemma path_ok_all: "path_ok src dst"
proof -
  have "list_all (\<lambda>f. list_all (path_ok f) enum_class.enum) (enum_class.enum :: tap_state list)"
    using path_ok_rows by (simp add: enum_tap_state_def)
  then have "\<forall>f \<in> set enum_class.enum. \<forall>t \<in> set enum_class.enum. path_ok f t"
    by (simp only: list_all_iff)
  moreover have "set enum_class.enum = (UNIV :: tap_state set)" by (rule UNIV_enum [symmetric])
  ultimately show ?thesis by blast
qed

lemma compute_tms_path_bound:
  assumes "compute_tms_path src dst = (w, n)"
  shows "n \<le> 7" and "src \<noteq> dst \<Longrightarrow> 0 < n"
  using path_ok_all [of src dst] assms by (auto simp: path_ok_def split: if_splits)

lemma compute_tms_path_reaches:
  assumes "\<not> too_far src dst" and "compute_tms_path src dst = (w, n)"
  shows "run_tms src (path_bits w n) = dst"
  using path_ok_all [of src dst] assms by (simp add: path_ok_def)

lemma compute_tms_path_too_far:
  assumes "too_far src dst"
  shows "compute_tms_path src dst = (0x1F, 5)"
  using path_ok_all [of src dst] assms by (simp add: path_ok_def split: prod.splits)

lemma compute_tms_path_shortest:
  assumes "\<not> too_far src dst" and "compute_tms_path src dst = (w, n)" and "run_tms src bs = dst"
  shows "n \<le> length bs"
proof (rule ccontr)
  assume "\<not> n \<le> length bs"
  with path_ok_all [of src dst] assms(1,2) have "dst \<notin> set (tms_reach (length bs) src)"
    by (simp add: path_ok_def list_all_iff)
  with run_tms_in_reach [of src bs] assms(3) show False by simp
qed

lemma too_far_no_path:
  assumes "too_far src dst" and "length bs \<le> 7"
  shows "run_tms src bs \<noteq> dst"
proof
  assume "run_tms src bs = dst"
  with run_tms_in_reach [of src bs] have "dst \<in> set (tms_reach (length bs) src)" by simp
  with path_ok_all [of src dst] assms show False
    by (auto simp: path_ok_def list_all_iff split: prod.splits)
qed

lemma compute_tms_path_idle_shift:
  "compute_tms_path RUN_TEST_IDLE SHIFT_DR = (1, 3)"
  "compute_tms_path EXIT1_DR RUN_TEST_IDLE = (1, 2)"
  "compute_tms_path RUN_TEST_IDLE SHIFT_IR = (3, 4)"
  "compute_tms_path EXIT1_IR RUN_TEST_IDLE = (1, 2)"
  "compute_tms_path TEST_LOGIC_RESET RUN_TEST_IDLE = (0, 1)"
  by code_simp+

text \<open>The fixed array \<open>queue[16]\<close> never overflows: every entry ever queued is a state visited once.\<close>

lemma bfs_edge_distinct:
  assumes "bfs_edge to cur b (q, v) = Inr (q', v')" and "distinct v"
  shows "distinct v' \<and> length v' \<le> 16"
proof -
  from assms have "distinct v'"
    by (auto simp: bfs_edge_def Let_def split: prod.splits if_splits)
  moreover have "length v' \<le> 16" if "distinct v'"
  proof -
    have "length v' = card (set v')" using that by (simp add: distinct_card)
    also have "\<dots> \<le> card (UNIV :: tap_state set)" by (rule card_mono) auto
    also have "\<dots> = 16"
      by (simp add: UNIV_enum enum_tap_state_def)
    finally show ?thesis .
  qed
  ultimately show ?thesis by simp
qed

section \<open>Properties\<close>

text \<open>C5: \<open>computeTmsPath\<close> gives a shortest TMS sequence to the target, of at most 7 pulses (one MPSSE
  command), except for the three pairs that are 8 pulses apart.\<close>

theorem compute_tms_path_correct:
  assumes "\<not> too_far src dst" and "compute_tms_path src dst = (w, n)"
  shows "n \<le> 7 \<and> run_tms src (path_bits w n) = dst \<and> (\<forall>bs. run_tms src bs = dst \<longrightarrow> n \<le> length bs)"
  using compute_tms_path_bound(1) [OF assms(2)] compute_tms_path_reaches [OF assms]
    compute_tms_path_shortest [OF assms] by blast

lemma compute_tms_path_correct_witness:
  "run_tms PAUSE_DR (path_bits 0x0F 6) = SHIFT_IR"
proof -
  have "compute_tms_path PAUSE_DR SHIFT_IR = (0x0F, 6)" by code_simp
  from compute_tms_path_correct [OF _ this] show ?thesis by (simp add: too_far_def)
qed

text \<open>For the pairs Capture-DR, Shift-DR, Pause-DR to Exit2-IR the search ends in its fallback of
  five ones, no sequence of at most 7 pulses exists, and the five ones lead to Test-Logic-Reset.\<close>

theorem compute_tms_path_fallback:
  assumes "too_far src dst"
  shows "compute_tms_path src dst = (0x1F, 5) \<and> run_tms src (path_bits 0x1F 5) = TEST_LOGIC_RESET \<and>
         (\<forall>bs. length bs \<le> 7 \<longrightarrow> run_tms src bs \<noteq> dst)"
proof -
  have p: "compute_tms_path src dst = (0x1F, 5)" using compute_tms_path_too_far [OF assms] .
  then show ?thesis
    using path_ok_all [of src dst] assms too_far_no_path by (simp add: path_ok_def)
qed

lemma compute_tms_path_fallback_witness:
  "compute_tms_path SHIFT_DR EXIT2_IR = (0x1F, 5)"
  using compute_tms_path_fallback [of SHIFT_DR EXIT2_IR] by (simp add: too_far_def)

end
