(* ===== verification/Tap_Controller.thy ===== *)
theory Tap_Controller
  imports Tap_Fsm
begin

text \<open>
  \<open>TapController\<close> (src/src/jtag/tap_controller.{h,cpp}): the controller's own idea of the TAP
  state, and the operations that clock the TAP through the probe.

  The probe (\<open>FtdiDevice\<close>) is the record \<open>link\<close>: the operation \<open>transfer\<close>, which sends a command
  buffer and collects the reply, and the error text.  Its state \<open>'d\<close> is whatever the adapter and
  the target behind it hold.  A \<open>const uint8_t*\<close> that may be null is an \<open>option\<close>; an operation that
  would read outside the memory it was given is \<open>None\<close>.  The other results are pairs of the returned
  \<open>bool\<close> and the new state, with the output vector between them where there is one.
\<close>

unbundle bit_operations_syntax

section \<open>The probe\<close>

record 'd link =
  lk_transfer :: "'d \<Rightarrow> mpsse_buf \<Rightarrow> bool \<times> byte list \<times> 'd"
  lk_error :: "'d \<Rightarrow> string"

definition lk_write :: "'d link \<Rightarrow> 'd \<Rightarrow> mpsse_buf \<Rightarrow> bool \<times> 'd" where
  "lk_write L d cmd = (case lk_transfer L d cmd of (ok, _, d') \<Rightarrow> (ok, d'))"

record 'd tap =
  tap_st :: tap_state
  tap_error :: string
  tap_dev :: 'd

definition tap_init :: "'d \<Rightarrow> 'd tap" where
  "tap_init d = \<lparr>tap_st = TEST_LOGIC_RESET, tap_error = [], tap_dev = d\<rparr>"

text \<open>\<open>write\<close> and, when it fails, the copy of the probe's error text.\<close>

definition tap_write :: "'d link \<Rightarrow> mpsse_buf \<Rightarrow> 'd tap \<Rightarrow> bool \<times> 'd tap" where
  "tap_write L cmd t =
     (case lk_write L (tap_dev t) cmd of (ok, d) \<Rightarrow>
        if ok then (True, t\<lparr>tap_dev := d\<rparr>)
        else (False, t\<lparr>tap_dev := d, tap_error := lk_error L d\<rparr>))"

section \<open>State changes\<close>

definition tap_reset :: "'d link \<Rightarrow> 'd tap \<Rightarrow> bool \<times> 'd tap" where
  "tap_reset L t =
     (let cmd = clock_tms 0x00 1 False False (clock_tms 0x1F 5 False False mpsse_empty)
      in case tap_write L cmd t of (ok, t1) \<Rightarrow>
           if \<not> ok then (False, t1) else (True, t1\<lparr>tap_st := RUN_TEST_IDLE\<rparr>))"

definition tap_goto :: "'d link \<Rightarrow> tap_state \<Rightarrow> 'd tap \<Rightarrow> bool \<times> 'd tap" where
  "tap_goto L target t =
     (if tap_st t = target then (True, t)
      else case compute_tms_path (tap_st t) target of (tms_bits, path_len) \<Rightarrow>
        if path_len = 0 then (True, t)
        else
          let cmd = clock_tms tms_bits (int path_len) False False mpsse_empty
          in case tap_write L cmd t of (ok, t1) \<Rightarrow>
               if \<not> ok then (False, t1) else (True, t1\<lparr>tap_st := target\<rparr>))"

function clk_idle_loop :: "'d link \<Rightarrow> nat \<Rightarrow> 'd tap \<Rightarrow> bool \<times> 'd tap" where
  "clk_idle_loop L cycles t =
     (if cycles > 0 then
        let n = (if cycles > 7 then 7 else cycles);
            cmd = clock_tms 0x00 (int n) False False mpsse_empty
        in case tap_write L cmd t of (ok, t1) \<Rightarrow>
             if \<not> ok then (False, t1) else clk_idle_loop L (cycles - n) t1
      else (True, t))"
  by pat_completeness auto
termination
  by (relation "measure (\<lambda>(_, n, _). n)") auto

declare clk_idle_loop.simps [simp del]

definition tap_clk_idle :: "'d link \<Rightarrow> int \<Rightarrow> 'd tap \<Rightarrow> bool \<times> 'd tap" where
  "tap_clk_idle L cycles t =
     (case tap_goto L RUN_TEST_IDLE t of (ok, t1) \<Rightarrow>
        if \<not> ok then (False, t1)
        else if cycles \<le> 0 then (True, t1)
        else clk_idle_loop L (nat cycles) t1)"

section \<open>Shifting\<close>

definition ptr_bytes :: "byte list option \<Rightarrow> byte list" where
  "ptr_bytes p = (case p of None \<Rightarrow> [] | Some xs \<Rightarrow> xs)"

definition mem_at :: "byte list \<Rightarrow> nat \<Rightarrow> byte option" where
  "mem_at xs i = (if i < length xs then Some (xs ! i) else None)"

definition resize_bytes :: "nat \<Rightarrow> byte list \<Rightarrow> byte list" where
  "resize_bytes n xs = take n xs @ replicate (n - length xs) 0"

lemma buf_bit_resize_grow: "length buf \<le> n \<Longrightarrow> buf_bit (resize_bytes n buf) i = buf_bit buf i"
  by (auto simp: buf_bit_def resize_bytes_def nth_append)

text \<open>
  The command of one scan: all bits but the last in data commands, the last one with TMS high.
  \<open>doShift\<close> builds it once, \<open>shiftDRRepeat\<close> once per scan.
\<close>

definition scan_cmd :: "byte list option \<Rightarrow> nat \<Rightarrow> bool \<Rightarrow> mpsse_buf \<Rightarrow> mpsse_buf option" where
  "scan_cmd tdi bit_count read_back cmd =
     (let bulk_bits = bit_count - 1;
          bulk_bytes = bulk_bits div 8;
          bulk_remaining = bulk_bits mod 8
      in do {
        cmd1 \<leftarrow> (if bulk_bytes > 0 then
                   (if read_back then shift_in_out (ptr_bytes tdi) (int (bulk_bytes * 8)) cmd
                    else shift_out (ptr_bytes tdi) (int (bulk_bytes * 8)) cmd)
                 else Some cmd);
        cmd2 \<leftarrow> (if bulk_remaining > 0 then do {
                   partial \<leftarrow> (case tdi of None \<Rightarrow> Some 0 | Some xs \<Rightarrow> mem_at xs bulk_bytes);
                   (if read_back then shift_in_out [partial] (int bulk_remaining) cmd1
                    else shift_out [partial] (int bulk_remaining) cmd1)
                 } else Some cmd1);
        last_tdi \<leftarrow> (case tdi of None \<Rightarrow> Some False
                     | Some xs \<Rightarrow> map_option (\<lambda>w. bit w ((bit_count - 1) mod 8))
                                    (mem_at xs ((bit_count - 1) div 8)));
        Some (clock_tms 0x01 1 last_tdi read_back cmd2)
      })"

definition unpack_scan :: "nat \<Rightarrow> byte list \<Rightarrow> byte list \<Rightarrow> byte list" where
  "unpack_scan bit_count raw tdo =
     (let bulk_bytes = (bit_count - 1) div 8;
          bulk_remaining = (bit_count - 1) mod 8;
          (tdo1, idx1) =
            (if bulk_bytes > 0 \<and> bulk_bytes \<le> length raw
             then (take bulk_bytes raw @ drop bulk_bytes tdo, bulk_bytes) else (tdo, 0));
          (tdo2, idx2) =
            (if bulk_remaining > 0 \<and> idx1 < length raw
             then (or_bits (\<lambda>i. bit (drop_bit (8 - bulk_remaining) (raw ! idx1)) i)
                     (8 * bulk_bytes) bulk_remaining tdo1, idx1 + 1)
             else (tdo1, idx1))
      in if idx2 < length raw \<and> bit (raw ! idx2) 7 then buf_or_bit tdo2 (bit_count - 1) else tdo2)"

definition do_shift ::
  "'d link \<Rightarrow> byte list option \<Rightarrow> byte list \<Rightarrow> int \<Rightarrow> bool \<Rightarrow> 'd tap
     \<Rightarrow> (bool \<times> byte list \<times> 'd tap) option" where
  "do_shift L tdi tdo bit_count read_back t =
     (if bit_count \<le> 0 then Some (True, tdo, t)
      else do {
        cmd0 \<leftarrow> scan_cmd tdi (nat bit_count) read_back mpsse_empty;
        let cmd = send_immediate cmd0;
        if read_back then
          (case lk_transfer L (tap_dev t) cmd of (ok, raw, d) \<Rightarrow>
             if \<not> ok then Some (False, tdo, t\<lparr>tap_dev := d, tap_error := lk_error L d\<rparr>)
             else Some (True, unpack_scan (nat bit_count) raw
                                (resize_bytes (bytes_for (nat bit_count)) tdo),
                        t\<lparr>tap_dev := d\<rparr>))
        else (case tap_write L cmd t of (ok, t1) \<Rightarrow> Some (ok, tdo, t1))
      })"

definition shift_ir :: "'d link \<Rightarrow> byte list option \<Rightarrow> int \<Rightarrow> 'd tap \<Rightarrow> (bool \<times> 'd tap) option" where
  "shift_ir L ir_data ir_bits t =
     (if ir_bits \<le> 0 then Some (False, t)
      else case tap_goto L SHIFT_IR t of (ok, t1) \<Rightarrow>
        if \<not> ok then Some (False, t1)
        else do {
          (ok2, _, t2) \<leftarrow> do_shift L ir_data [] ir_bits False t1;
          if \<not> ok2 then Some (False, t2)
          else Some (tap_goto L RUN_TEST_IDLE (t2\<lparr>tap_st := EXIT1_IR\<rparr>))
        })"

definition shift_dr ::
  "'d link \<Rightarrow> byte list option \<Rightarrow> byte list \<Rightarrow> int \<Rightarrow> 'd tap
     \<Rightarrow> (bool \<times> byte list \<times> 'd tap) option" where
  "shift_dr L tdi tdo dr_bits t =
     (if dr_bits \<le> 0 then Some (False, tdo, t)
      else case tap_goto L SHIFT_DR t of (ok, t1) \<Rightarrow>
        if \<not> ok then Some (False, tdo, t1)
        else do {
          (ok2, tdo2, t2) \<leftarrow> do_shift L tdi tdo dr_bits True t1;
          if \<not> ok2 then Some (False, tdo2, t2)
          else (case tap_goto L RUN_TEST_IDLE (t2\<lparr>tap_st := EXIT1_DR\<rparr>) of
                  (ok3, t3) \<Rightarrow> Some (ok3, tdo2, t3))
        })"

definition shift_dr_write :: "'d link \<Rightarrow> byte list option \<Rightarrow> int \<Rightarrow> 'd tap \<Rightarrow> (bool \<times> 'd tap) option" where
  "shift_dr_write L tdi dr_bits t =
     (if dr_bits \<le> 0 then Some (False, t)
      else case tap_goto L SHIFT_DR t of (ok, t1) \<Rightarrow>
        if \<not> ok then Some (False, t1)
        else do {
          (ok2, _, t2) \<leftarrow> do_shift L tdi [] dr_bits False t1;
          if \<not> ok2 then Some (False, t2)
          else Some (tap_goto L RUN_TEST_IDLE (t2\<lparr>tap_st := EXIT1_DR\<rparr>))
        })"

definition read_dr ::
  "'d link \<Rightarrow> byte list \<Rightarrow> int \<Rightarrow> 'd tap \<Rightarrow> (bool \<times> byte list \<times> 'd tap) option" where
  "read_dr L tdo dr_bits t =
     (let zeros = replicate (bytes_for (nat dr_bits)) 0
      in shift_dr L (Some zeros) tdo dr_bits t)"

section \<open>Repeated scans in one transfer\<close>

fun repeat_cmds ::
  "byte list option \<Rightarrow> nat \<Rightarrow> byte \<times> nat \<Rightarrow> byte \<times> nat \<Rightarrow> nat \<Rightarrow> mpsse_buf \<Rightarrow> mpsse_buf option" where
  "repeat_cmds tdi dr_bits to_shift to_idle 0 cmd = Some cmd"
| "repeat_cmds tdi dr_bits to_shift to_idle (Suc n) cmd = do {
     cmd1 \<leftarrow> scan_cmd tdi dr_bits True
               (clock_tms (fst to_shift) (int (snd to_shift)) False False cmd);
     repeat_cmds tdi dr_bits to_shift to_idle n
       (clock_tms (fst to_idle) (int (snd to_idle)) False False cmd1)
   }"

definition unpack_one ::
  "nat \<Rightarrow> nat \<Rightarrow> byte list \<Rightarrow> nat \<Rightarrow> byte list
     \<Rightarrow> string \<times> byte list + nat \<times> byte list" where
  "unpack_one dr_bits out raw idx flat =
     (let bulk_bytes = (dr_bits - 1) div 8;
          bulk_remaining = (dr_bits - 1) mod 8
      in if bulk_bytes > 0 \<and> idx + bulk_bytes > length raw
         then Inl (''shiftDRRepeat: TDO underrun (bulk)'', flat)
         else
           let (flat1, idx1) =
                 (if bulk_bytes > 0
                  then (take out flat @ take bulk_bytes (drop idx raw) @ drop (out + bulk_bytes) flat,
                        idx + bulk_bytes)
                  else (flat, idx))
           in if bulk_remaining > 0 \<and> idx1 \<ge> length raw
              then Inl (''shiftDRRepeat: TDO underrun (partial)'', flat1)
              else
                let (flat2, idx2) =
                      (if bulk_remaining > 0
                       then (or_bits (\<lambda>b. bit (drop_bit (8 - bulk_remaining) (raw ! idx1)) b)
                               (8 * (out + bulk_bytes)) bulk_remaining flat1, idx1 + 1)
                       else (flat1, idx1))
                in if idx2 \<ge> length raw
                   then Inl (''shiftDRRepeat: TDO underrun (last)'', flat2)
                   else Inr (idx2 + 1,
                          if bit (raw ! idx2) 7 then buf_or_bit flat2 (8 * out + (dr_bits - 1))
                          else flat2))"

fun unpack_many ::
  "nat \<Rightarrow> nat \<Rightarrow> nat \<Rightarrow> byte list \<Rightarrow> nat \<Rightarrow> byte list
     \<Rightarrow> string \<times> byte list + byte list" where
  "unpack_many dr_bits 0 out raw idx flat = Inr flat"
| "unpack_many dr_bits (Suc n) out raw idx flat =
     (case unpack_one dr_bits out raw idx flat of
        Inl e \<Rightarrow> Inl e
      | Inr (idx', flat') \<Rightarrow> unpack_many dr_bits n (out + bytes_for dr_bits) raw idx' flat')"

definition kChunk :: nat where "kChunk = 512"

function repeat_chunks ::
  "'d link \<Rightarrow> nat \<Rightarrow> nat \<Rightarrow> byte list option \<Rightarrow> nat \<Rightarrow> byte list \<Rightarrow> 'd tap
     \<Rightarrow> (bool \<times> byte list \<times> 'd tap) option" where
  "repeat_chunks L count dr_bits tdi start flat t =
     (if start < count then
        let n = min kChunk (count - start)
        in case repeat_cmds tdi dr_bits (compute_tms_path RUN_TEST_IDLE SHIFT_DR)
                  (compute_tms_path EXIT1_DR RUN_TEST_IDLE) n mpsse_empty of
             None \<Rightarrow> None
           | Some cmd0 \<Rightarrow>
               (case lk_transfer L (tap_dev t) (send_immediate cmd0) of (ok, raw, d) \<Rightarrow>
                  if \<not> ok then Some (False, flat, t\<lparr>tap_dev := d, tap_error := lk_error L d\<rparr>)
                  else case unpack_many dr_bits n (start * bytes_for dr_bits) raw 0 flat of
                    Inl (e, flat') \<Rightarrow> Some (False, flat', t\<lparr>tap_dev := d, tap_error := e\<rparr>)
                  | Inr flat' \<Rightarrow>
                      repeat_chunks L count dr_bits tdi (start + kChunk) flat' (t\<lparr>tap_dev := d\<rparr>))
      else Some (True, flat, t\<lparr>tap_st := RUN_TEST_IDLE\<rparr>))"
  by pat_completeness auto
termination
  by (relation "measure (\<lambda>(_, count, _, _, start, _, _). count - start)") (auto simp: kChunk_def)

declare repeat_chunks.simps [simp del]

definition shift_dr_repeat ::
  "'d link \<Rightarrow> int \<Rightarrow> int \<Rightarrow> byte list option \<Rightarrow> byte list \<Rightarrow> 'd tap
     \<Rightarrow> (bool \<times> byte list \<times> 'd tap) option" where
  "shift_dr_repeat L count dr_bits tdi flat_tdo t =
     (if count \<le> 0 \<or> dr_bits \<le> 0 then Some (True, [], t)
      else
        let flat = replicate (nat count * bytes_for (nat dr_bits)) 0
        in repeat_chunks L (nat count) (nat dr_bits) tdi 0 flat t)"

end
