(* ===== verification/Tap_Wire.thy ===== *)
theory Tap_Wire
  imports Tap_Controller
begin

text \<open>
  What the controller does on the wire.  \<open>scan_cmds\<close> is the command list one scan issues; its
  pulses are \<open>n\<close> TCK cycles carrying the TDI bits least significant first with TMS high on the
  last one only, and its reply unpacks to the captured TDO levels.

  The physical TAP behind the probe is observed by a function \<open>phys\<close> giving its state and the
  level of the TMS line.  \<open>drives_tap\<close> says that a successful transfer clocks the TAP through
  the pulses of the stream that was sent; \<open>replies_tdo\<close> says that the reply of a successful
  transfer encodes the TDO levels at the read pulses.  Both state what an MPSSE probe does.
\<close>

unbundle bit_operations_syntax

definition scan_cmds :: "byte list \<Rightarrow> nat \<Rightarrow> bool \<Rightarrow> mcmd list" where
  "scan_cmds xs n rb =
     (let bb = (n - 1) div 8; br = (n - 1) mod 8
      in shift_cmds rb xs (8 * bb)
         @ shift_cmds rb [if bb < length xs then xs ! bb else 0] br
         @ [Tms_Cmd 1 (tms_byte 1 (buf_bit xs (n - 1))) rb])"

definition readable :: "byte list option \<Rightarrow> nat \<Rightarrow> bool" where
  "readable tdi n \<longleftrightarrow> (case tdi of None \<Rightarrow> (n - 1) div 8 = 0 | Some xs \<Rightarrow> bytes_for n \<le> length xs)"

lemma bytes_for_pos: "0 < n \<Longrightarrow> bytes_for n = Suc ((n - 1) div 8)"
proof (cases n)
  case (Suc m)
  have "(m + 8) div 8 = Suc (m div 8)" by simp
  with Suc show ?thesis by (simp add: bytes_for_def)
qed simp

lemma bytes_for_mod8: "bytes_for (m mod 8) \<le> Suc 0"
  using mod_less_divisor [of 8 m] by (simp add: bytes_for_def less_Suc_eq_le div_le_mono)

lemma bytes_for_small [simp]: "0 < n \<Longrightarrow> n < 8 \<Longrightarrow> bytes_for n = 1"
  by (simp add: bytes_for_pos)

lemma bytes_for_0 [simp]: "bytes_for 0 = 0"
  by (simp add: bytes_for_def)

lemma shift_cmds_0 [simp]: "shift_cmds r xs 0 = []"
  by (simp add: shift_cmds_def chunk_cmds.simps)

lemma scan_cmd_cmds:
  assumes "0 < n" and "readable tdi n"
  shows "scan_cmd tdi n rb cmd = Some (append_cmds (scan_cmds (ptr_bytes tdi) n rb) cmd)"
proof -
  define bb br where "bb = (n - 1) div 8" and "br = (n - 1) mod 8"
  define xs where "xs = ptr_bytes tdi"
  have br: "br < 8" by (simp add: br_def)
  have bb: "bb \<le> length xs" "tdi \<noteq> None \<Longrightarrow> bb < length xs"
    using assms by (auto simp: readable_def bb_def xs_def ptr_bytes_def bytes_for_pos split: option.splits)
  define p where "p = (if bb < length xs then xs ! bb else 0)"
  have bulk: "(if bb > 0 then
                 (if rb then shift_in_out xs (int (bb * 8)) cmd else shift_out xs (int (bb * 8)) cmd)
               else Some cmd) = Some (append_cmds (shift_cmds rb xs (8 * bb)) cmd)" for cmd
    using shift_in_out_cmds [of "bb * 8" xs cmd] shift_out_cmds [of "bb * 8" xs cmd] bb(1)
    by (cases "bb = 0") (auto simp: mult.commute)
  have part: "(case tdi of None \<Rightarrow> Some 0 | Some xs \<Rightarrow> mem_at xs bb) = Some p"
    using bb(2) by (cases tdi) (auto simp: p_def xs_def ptr_bytes_def mem_at_def)
  have bits: "(if br > 0 then
                 (if rb then shift_in_out [p] (int br) cmd else shift_out [p] (int br) cmd)
               else Some cmd) = Some (append_cmds (shift_cmds rb [p] br) cmd)" for cmd
    using shift_in_out_cmds [of br "[p]" cmd] shift_out_cmds [of br "[p]" cmd] br
    by (cases "br = 0") auto
  have last: "(case tdi of None \<Rightarrow> Some False
                | Some xs \<Rightarrow> map_option (\<lambda>w. bit w br) (mem_at xs bb)) = Some (buf_bit xs (n - 1))"
    using bb(2) by (cases tdi) (auto simp: xs_def ptr_bytes_def mem_at_def buf_bit_def bb_def br_def)
  have tms: "clock_tms 1 1 l rb cmd = append_cmds [Tms_Cmd 1 (tms_byte 1 l) rb] cmd" for l cmd
    using clock_tms_cmds [of 1 1 l rb cmd] by simp
  show ?thesis
    unfolding scan_cmd_def scan_cmds_def Let_def bb_def [symmetric] br_def [symmetric] xs_def [symmetric]
      p_def [symmetric]
    using part bits bulk last tms by (cases "br = 0") (simp_all add: append_cmds_append)
qed

lemma scan_cmds_wf: "0 < n \<Longrightarrow> readable tdi n \<Longrightarrow> list_all cmd_wf (scan_cmds (ptr_bytes tdi) n rb)"
  using bytes_for_mod8 [of "n - 1"]
  by (auto simp: scan_cmds_def Let_def readable_def ptr_bytes_def bytes_for_pos
      intro!: shift_cmds_wf split: option.splits)

text \<open>The pulses of one scan.\<close>

lemma scan_cmds_pulses:
  assumes "0 < n" and "readable tdi n"
  shows "stream_pulses False (scan_cmds (ptr_bytes tdi) n rb) =
           map (\<lambda>i. Pulse (i = n - 1) (buf_bit (ptr_bytes tdi) i) rb) [0..<n]"
proof -
  define bb br xs where "bb = (n - 1) div 8" and "br = (n - 1) mod 8" and "xs = ptr_bytes tdi"
  have n: "n - 1 = 8 * bb + br" by (simp add: bb_def br_def)
  have bb: "bb \<le> length xs" and part: "bb < length xs \<or> xs = [] \<and> bb = 0"
    using assms by (auto simp: readable_def bb_def xs_def ptr_bytes_def bytes_for_pos split: option.splits)
  have 1: "stream_pulses False (shift_cmds rb xs (8 * bb)) = map (\<lambda>i. Pulse False (buf_bit xs i) rb) [0..<8 * bb]"
    using bb by (simp add: shift_cmds_pulses)
  have 2: "stream_pulses False (shift_cmds rb [if bb < length xs then xs ! bb else 0] br)
      = map (\<lambda>i. Pulse False (buf_bit xs i) rb) [8 * bb..<8 * bb + br]"
  proof -
    have "br < 8" by (simp add: br_def)
    then have "buf_bit [if bb < length xs then xs ! bb else 0] i = buf_bit xs (8 * bb + i)" if "i < br" for i
      using part that by (auto simp: buf_bit_def)
    moreover have "bytes_for br \<le> 1" using \<open>br < 8\<close> by (cases "br = 0") auto
    ultimately show ?thesis
      by (simp add: shift_cmds_pulses map_upt_shift [of _ "8 * bb" br])
  qed
  have "[0..<n] = [0..<8 * bb] @ [8 * bb..<8 * bb + br] @ [n - 1]"
    using upt_add_eq_append [of 0 "8 * bb" br] n assms(1) by (cases n) simp_all
  then have "map (\<lambda>i. Pulse (i = n - 1) (buf_bit xs i) rb) [0..<n]
      = map (\<lambda>i. Pulse False (buf_bit xs i) rb) [0..<8 * bb]
        @ map (\<lambda>i. Pulse False (buf_bit xs i) rb) [8 * bb..<8 * bb + br]
        @ [Pulse True (buf_bit xs (n - 1)) rb]"
    using n by simp
  moreover have "bit (tms_byte 1 l) 0" "bit (tms_byte 1 l) 7 = l" for l
    by (simp_all add: bit_tms_byte)
  ultimately show ?thesis
    unfolding scan_cmds_def Let_def bb_def [symmetric] br_def [symmetric] xs_def [symmetric]
    by (simp add: stream_pulses_append stream_level_append 1 2)
qed

section \<open>Unpacking the reply of a scan\<close>

definition scan_reply :: "nat \<Rightarrow> bool list \<Rightarrow> byte list" where
  "scan_reply n bs =
     (let bb = (n - 1) div 8; br = (n - 1) mod 8
      in pack_bytes bb bs
         @ (if 0 < br then [left_aligned (take br (drop (8 * bb) bs))] else [])
         @ [left_aligned [bs ! (n - 1)]])"

definition scan_raw :: "nat \<Rightarrow> nat" where
  "scan_raw n = (n - 1) div 8 + (if 0 < (n - 1) mod 8 then 1 else 0) + 1"

lemma length_pack_bytes [simp]: "length (pack_bytes k bs) = k"
  by (simp add: pack_bytes_def)

lemma length_scan_reply [simp]: "length (scan_reply n bs) = scan_raw n"
  by (simp add: scan_reply_def scan_raw_def Let_def)

lemma scan_cmds_reply_len:
  assumes "0 < n" and "readable tdi n"
  shows "sum_list (map reply_len (scan_cmds (ptr_bytes tdi) n rb)) = (if rb then scan_raw n else 0)"
    and "sum_list (map read_count (scan_cmds (ptr_bytes tdi) n rb)) = (if rb then n else 0)"
proof -
  have bb: "(n - 1) div 8 \<le> length (ptr_bytes tdi)"
    using assms by (auto simp: readable_def ptr_bytes_def bytes_for_pos split: option.splits)
  have "bytes_for (8 * ((n - 1) div 8)) \<le> length (ptr_bytes tdi)"
    and "bytes_for ((n - 1) mod 8) \<le> length [w]" for w :: byte
    using bb bytes_for_mod8 [of "n - 1"] by simp_all
  note counts = shift_cmds_counts [OF this(1), of rb] shift_cmds_counts [OF this(2), of rb]
  show "sum_list (map reply_len (scan_cmds (ptr_bytes tdi) n rb)) = (if rb then scan_raw n else 0)"
    using counts by (simp add: scan_cmds_def scan_raw_def Let_def bytes_for_split)
  have "8 * ((n - 1) div 8) + (n - 1) mod 8 + 1 = n" using assms(1) by simp
  then show "sum_list (map read_count (scan_cmds (ptr_bytes tdi) n rb)) = (if rb then n else 0)"
    using counts by (simp add: scan_cmds_def Let_def)
qed

lemma scan_cmds_reply:
  assumes "0 < n" and "readable tdi n" and "n \<le> length bs"
  shows "stream_reply (scan_cmds (ptr_bytes tdi) n True) bs = scan_reply n bs"
proof -
  define bb br where "bb = (n - 1) div 8" and "br = (n - 1) mod 8"
  have n: "n - 1 = 8 * bb + br" by (simp add: bb_def br_def)
  have br: "br < 8" by (simp add: br_def)
  have bb: "bb \<le> length (ptr_bytes tdi)" and len: "8 * bb \<le> length bs" "n - 1 < length bs"
    using assms n by (auto simp: readable_def bb_def ptr_bytes_def bytes_for_pos split: option.splits)
  have 1: "stream_reply (shift_cmds True (ptr_bytes tdi) (8 * bb)) bs = pack_bytes bb bs"
    using bb len by (intro shift_cmds_reply_bytes)
  have 2: "stream_reply (shift_cmds True [w] br) cs = (if 0 < br then [left_aligned (take br cs)] else [])"
    for w cs
    using br by (cases "br = 0") (auto simp: shift_cmds_reply_bits)
  have c1: "sum_list (map read_count (shift_cmds True (ptr_bytes tdi) (8 * bb))) = 8 * bb"
    using shift_cmds_counts(2) [of "8 * bb" "ptr_bytes tdi" True] bb by simp
  have c2: "sum_list (map read_count (shift_cmds True [w] br)) = br" for w
    using shift_cmds_counts(2) [of br "[w]" True] bytes_for_mod8 [of "n - 1"] by (simp add: br_def)
  have 3: "take 1 (drop (br + 8 * bb) bs) = [bs ! (n - 1)]"
    using len(2) n by (simp add: take_Suc_conv_app_nth add.commute hd_drop_conv_nth take_Suc)
  show ?thesis
    unfolding scan_cmds_def scan_reply_def Let_def bb_def [symmetric] br_def [symmetric]
    using 3 by (simp add: stream_reply_append 1 2 c1 c2 add.commute)
qed

lemma bit_left_aligned:
  "bit (left_aligned bs) i \<longleftrightarrow> i < 8 \<and> 8 - length bs \<le> i \<and> bs ! (i - (8 - length bs))"
  by (auto simp: left_aligned_def bit_word_of_bits)

lemma buf_bit_pack_bytes: "buf_bit (pack_bytes k bs) i \<longleftrightarrow> i < 8 * k \<and> bs ! i"
  by (auto simp: buf_bit_def pack_bytes_def bit_word_of_bits less_mult_imp_div_less)

lemma buf_bit_splice:
  assumes "off + length m \<le> length a"
  shows "buf_bit (take off a @ m @ drop (off + length m) a) i =
           (if 8 * off \<le> i \<and> i < 8 * (off + length m) then buf_bit m (i - 8 * off) else buf_bit a i)"
proof -
  consider "i < 8 * off" | "8 * off \<le> i" "i < 8 * (off + length m)" | "8 * (off + length m) \<le> i"
    by linarith
  then show ?thesis
  proof cases
    case 1
    then have "i div 8 < off" by simp
    with 1 assms show ?thesis by (simp add: buf_bit_def nth_append)
  next
    case 2
    then have "off \<le> i div 8" "i div 8 - off < length m" by auto
    moreover have "(i - 8 * off) div 8 = i div 8 - off" "(i - 8 * off) mod 8 = i mod 8"
      using 2(1) by (auto simp: div_diff le_mod_geq elim!: mod_nat_eqI dest: le_Suc_ex)
    moreover from calculation have "i div 8 < length a" using assms by linarith
    ultimately show ?thesis using 2 assms by (simp add: buf_bit_def nth_append)
  next
    case 3
    then have "off + length m \<le> i div 8" by auto
    with 3 assms show ?thesis by (auto simp: buf_bit_def nth_append)
  qed
qed

lemma unpack_one_correct:
  assumes n: "0 < n" and bs: "n \<le> length bs"
    and raw: "idx + scan_raw n \<le> length raw" "take (scan_raw n) (drop idx raw) = scan_reply n bs"
    and out: "out + bytes_for n \<le> length flat"
  shows "\<exists>flat'. unpack_one n out raw idx flat = Inr (idx + scan_raw n, flat') \<and>
           length flat' = length flat \<and>
           (\<forall>i. buf_bit flat' i \<longleftrightarrow>
              (if 8 * out \<le> i \<and> i < 8 * out + n
               then bs ! (i - 8 * out) \<or> (8 * (out + (n - 1) div 8) \<le> i \<and> buf_bit flat i)
               else buf_bit flat i))"
proof -
  define bb br where "bb = (n - 1) div 8" and "br = (n - 1) mod 8"
  have n1: "n - 1 = 8 * bb + br" and br: "br < 8" by (simp_all add: bb_def br_def)
  have at: "raw ! (idx + k) = scan_reply n bs ! k" if "k < scan_raw n" for k
    using that raw by (metis add_leD1 nth_drop nth_take)
  have sr: "scan_raw n = bb + (if 0 < br then 1 else 0) + 1"
    by (simp add: scan_raw_def bb_def br_def)
  have bulk: "take bb (drop idx raw) = pack_bytes bb bs"
  proof -
    have "take bb (drop idx raw) = take bb (take (scan_raw n) (drop idx raw))"
      by (simp add: sr)
    then show ?thesis by (simp add: raw(2) scan_reply_def Let_def bb_def)
  qed
  have reply: "scan_reply n bs = pack_bytes bb bs
      @ (if 0 < br then [left_aligned (take br (drop (8 * bb) bs))] else []) @ [left_aligned [bs ! (n - 1)]]"
    by (simp only: scan_reply_def Let_def bb_def br_def)
  have part: "raw ! (idx + bb) = left_aligned (take br (drop (8 * bb) bs))" if "0 < br"
    using at [of bb] that
    by (simp add: sr reply nth_append)
  have lst: "raw ! (idx + scan_raw n - 1) = left_aligned [bs ! (n - 1)]"
    using at [of "scan_raw n - 1"]
    by (simp add: sr reply nth_append)
  have room: "out + bb < length flat" using out n by (simp add: bytes_for_pos bb_def)
  define flat1 where "flat1 = (if bb > 0 then take out flat @ take bb (drop idx raw) @ drop (out + bb) flat else flat)"
  have len1: "length flat1 = length flat"
    using room by (simp add: flat1_def bulk)
  have b1: "buf_bit flat1 i = (if 8 * out \<le> i \<and> i < 8 * (out + bb) then bs ! (i - 8 * out) else buf_bit flat i)" for i
    using buf_bit_splice [of out "pack_bytes bb bs" flat i] room
    by (auto simp: flat1_def bulk buf_bit_pack_bytes)
  define flat2 where "flat2 = (if br > 0 then or_bits (\<lambda>b. bit (drop_bit (8 - br) (raw ! (idx + bb))) b)
                               (8 * (out + bb)) br flat1 else flat1)"
  have b2: "buf_bit flat2 i \<longleftrightarrow> buf_bit flat1 i
        \<or> (8 * (out + bb) \<le> i \<and> i < 8 * (out + bb) + br \<and> bs ! (i - 8 * out))" for i
  proof (cases "8 * (out + bb) \<le> i \<and> i < 8 * (out + bb) + br")
    case True
    then have div: "i div 8 < length flat1" using room br len1 by auto
    define j where "j = i - 8 * (out + bb)"
    have j: "j < br" "i = 8 * (out + bb) + j" "i - 8 * out = 8 * bb + j"
      using True by (auto simp: j_def)
    have len: "length (take br (drop (8 * bb) bs)) = br" using bs n1 n by simp
    have "take br (drop (8 * bb) bs) ! j = bs ! (8 * bb + j)"
      using j(1) bs n1 n by simp
    then have "bit (drop_bit (8 - br) (left_aligned (take br (drop (8 * bb) bs)))) j \<longleftrightarrow> bs ! (8 * bb + j)"
      using j(1) br by (auto simp: bit_drop_bit_eq bit_left_aligned len simp del: length_take)
    then show ?thesis
      using True div part j by (simp add: flat2_def buf_bit_or_bits j_def [symmetric])
  next
    case False
    then show ?thesis by (auto simp: flat2_def buf_bit_or_bits)
  qed
  define flat3 where "flat3 = (if bit (raw ! (idx + scan_raw n - 1)) 7 then buf_or_bit flat2 (8 * out + (n - 1)) else flat2)"
  have b3: "buf_bit flat3 i \<longleftrightarrow> buf_bit flat2 i \<or> (i = 8 * out + (n - 1) \<and> bs ! (n - 1))" for i
  proof -
    have "(8 * out + (n - 1)) div 8 < length flat2"
      using room br len1 n1 by (auto simp: flat2_def)
    moreover have "bit (raw ! (idx + scan_raw n - 1)) 7 \<longleftrightarrow> bs ! (n - 1)"
      unfolding lst by (simp add: bit_left_aligned)
    ultimately show ?thesis unfolding flat3_def by (auto simp: buf_bit_or_bit)
  qed
  have "unpack_one n out raw idx flat = Inr (idx + scan_raw n, flat3)"
    using raw(1) unfolding unpack_one_def Let_def bb_def [symmetric] br_def [symmetric]
    by (cases "br = 0") (auto simp: sr flat3_def flat2_def flat1_def)
  moreover have "length flat3 = length flat" using len1 by (simp add: flat3_def flat2_def)
  moreover have "buf_bit flat3 i \<longleftrightarrow>
              (if 8 * out \<le> i \<and> i < 8 * out + n
               then bs ! (i - 8 * out) \<or> (8 * (out + bb) \<le> i \<and> buf_bit flat i)
               else buf_bit flat i)" for i
  proof -
    have "8 * out + n \<le> i" if "\<not> i < 8 * (out + bb) + br" "i \<noteq> 8 * out + (n - 1)"
    proof -
      have "i \<noteq> 8 * (out + bb) + br" using that(2) n1 by simp
      then have "8 * (out + bb) + br < i" using that(1) by linarith
      moreover have "n = Suc (8 * bb + br)" using n1 n by simp
      ultimately show ?thesis by simp
    qed
    then consider "i < 8 * out" | "\<not> i < 8 * out" "i < 8 * (out + bb)"
      | "\<not> i < 8 * (out + bb)" "i < 8 * (out + bb) + br" | "i = 8 * out + (n - 1)" | "8 * out + n \<le> i"
      by blast
    then show ?thesis
    proof cases
      case 1
      then have "\<not> 8 * out \<le> i" "\<not> 8 * (out + bb) \<le> i" "i \<noteq> 8 * out + (n - 1)"
        using n1 n unfolding distrib_left by linarith+
      then show ?thesis unfolding b3 b2 b1 by (simp only: simp_thms if_False)
    next
      case 2
      then have "8 * out \<le> i" "i < 8 * out + n" "\<not> 8 * (out + bb) \<le> i" "i \<noteq> 8 * out + (n - 1)"
        using n1 n unfolding distrib_left by linarith+
      with 2 show ?thesis unfolding b3 b2 b1 by (simp only: simp_thms if_True)
    next
      case 3
      then have "8 * out \<le> i" "i < 8 * out + n" "8 * (out + bb) \<le> i" "i \<noteq> 8 * out + (n - 1)"
        using n1 n unfolding distrib_left by linarith+
      with 3 show ?thesis unfolding b3 b2 b1 by (auto simp only: simp_thms if_True if_False)
    next
      case 4
      then have "8 * out \<le> i" "i < 8 * out + n" "\<not> i < 8 * (out + bb)" "8 * (out + bb) \<le> i"
        "\<not> i < 8 * (out + bb) + br" "i - 8 * out = n - 1"
        using n1 n unfolding distrib_left by linarith+
      with 4 show ?thesis unfolding b3 b2 b1 by (auto simp only: simp_thms if_True if_False)
    next
      case 5
      then have "\<not> i < 8 * out + n" "\<not> i < 8 * (out + bb)" "\<not> i < 8 * (out + bb) + br"
        "i \<noteq> 8 * out + (n - 1)"
        using n1 n unfolding distrib_left by linarith+
      then show ?thesis unfolding b3 b2 b1 by (simp only: simp_thms if_False)
    qed
  qed
  ultimately show ?thesis by (auto simp: bb_def)
qed

lemma unpack_scan_one:
  assumes "scan_raw n \<le> length raw" and "unpack_one n 0 raw 0 tdo = Inr (k, u)"
  shows "unpack_scan n raw tdo = u"
proof -
  define bb br where "bb = (n - 1) div 8" and "br = (n - 1) mod 8"
  have len: "bb + (if 0 < br then 1 else 0) + 1 \<le> length raw"
    using assms(1) by (simp add: scan_raw_def bb_def br_def)
  note unfold = unpack_one_def unpack_scan_def Let_def bb_def [symmetric] br_def [symmetric]
  show ?thesis
  proof (cases "br = 0")
    case True
    then have "bb < length raw" using len by simp
    with True assms(2) show ?thesis unfolding unfold by (auto split: if_splits)
  next
    case False
    then have "Suc bb < length raw" using len by simp
    with False assms(2) show ?thesis unfolding unfold by (auto split: if_splits)
  qed
qed

lemma unpack_scan_correct:
  assumes "0 < n" and "n \<le> length bs" and "length tdo = bytes_for n"
  shows "length (unpack_scan n (scan_reply n bs) tdo) = bytes_for n"
    and "buf_bit (unpack_scan n (scan_reply n bs) tdo) i \<longleftrightarrow>
           (if i < n then bs ! i \<or> (8 * ((n - 1) div 8) \<le> i \<and> buf_bit tdo i) else buf_bit tdo i)"
proof -
  from unpack_one_correct [of n bs 0 "scan_reply n bs" 0 tdo] assms
  obtain u where u: "unpack_one n 0 (scan_reply n bs) 0 tdo = Inr (scan_raw n, u)" "length u = length tdo"
    "\<forall>i. buf_bit u i \<longleftrightarrow> (if i < n then bs ! i \<or> (8 * ((n - 1) div 8) \<le> i \<and> buf_bit tdo i) else buf_bit tdo i)"
    by auto
  have "scan_raw n \<le> length (scan_reply n bs)"
    using assms by (simp add: length_scan_reply)
  from unpack_scan_one [OF this u(1)] u(2,3) assms(3)
  show "length (unpack_scan n (scan_reply n bs) tdo) = bytes_for n"
    and "buf_bit (unpack_scan n (scan_reply n bs) tdo) i \<longleftrightarrow>
           (if i < n then bs ! i \<or> (8 * ((n - 1) div 8) \<le> i \<and> buf_bit tdo i) else buf_bit tdo i)"
    by auto
qed

section \<open>The controller and the physical TAP\<close>

definition phys_step :: "tap_state \<times> bool \<Rightarrow> mpsse_buf \<Rightarrow> tap_state \<times> bool" where
  "phys_step p cmd =
     (case mpsse_parse (cmd_buffer cmd) of
        None \<Rightarrow> p
      | Some cs \<Rightarrow> (run_tms (fst p) (map p_tms (stream_pulses (snd p) cs)), stream_level (snd p) cs))"

definition drives_tap :: "'d link \<Rightarrow> ('d \<Rightarrow> tap_state \<times> bool) \<Rightarrow> bool" where
  "drives_tap L phys \<longleftrightarrow>
     (\<forall>d cmd raw d'. lk_transfer L d cmd = (True, raw, d') \<longrightarrow> phys d' = phys_step (phys d) cmd)"

definition replies_tdo :: "'d link \<Rightarrow> ('d \<Rightarrow> nat \<Rightarrow> bool) \<Rightarrow> bool" where
  "replies_tdo L tdo \<longleftrightarrow>
     (\<forall>d cmd cs raw d'. lk_transfer L d cmd = (True, raw, d') \<longrightarrow> mpsse_parse (cmd_buffer cmd) = Some cs
        \<longrightarrow> raw = stream_reply cs (map (tdo d) [0..<sum_list (map read_count cs)]))"

definition in_sync :: "('d \<Rightarrow> tap_state \<times> bool) \<Rightarrow> 'd tap \<Rightarrow> bool" where
  "in_sync phys t \<longleftrightarrow>
     fst (phys (tap_dev t)) = tap_st t \<and>
     (tap_st t = SHIFT_DR \<or> tap_st t = SHIFT_IR \<longrightarrow> \<not> snd (phys (tap_dev t)))"

lemma phys_step_cmds:
  "list_all cmd_wf cs \<Longrightarrow>
     phys_step p (append_cmds cs mpsse_empty) =
       (run_tms (fst p) (map p_tms (stream_pulses (snd p) cs)), stream_level (snd p) cs)"
  by (simp add: phys_step_def append_cmds_empty mpsse_parse_encode)

lemma tms_cmd_tms:
  assumes "n \<le> 7"
  shows "map p_tms (cmd_pulses lvl (Tms_Cmd n (tms_byte w tdi) r)) = path_bits w n"
  using assms by (auto simp: path_bits_def bit_tms_byte)

lemma phys_step_tms:
  assumes "1 \<le> n" and "n \<le> 7"
  shows "phys_step p (clock_tms w (int n) False False mpsse_empty) =
           (run_tms (fst p) (path_bits w n), bit w (n - 1))"
  using assms
  by (auto simp: clock_tms_cmds phys_step_cmds tms_cmd_tms bit_tms_byte simp del: cmd_pulses.simps)

lemma tap_write_ok:
  assumes "tap_write L cmd t = (True, t')" and "drives_tap L phys"
  shows "tap_st t' = tap_st t" "phys (tap_dev t') = phys_step (phys (tap_dev t)) cmd"
  using assms
  by (auto simp: tap_write_def lk_write_def drives_tap_def split: prod.splits if_splits)

lemma path_bits_Suc: "path_bits w (Suc n) = path_bits w n @ [bit w n]"
  by (simp add: path_bits_def)

text \<open>A pulse sequence that ends in a shift state ends with TMS low.\<close>

lemma path_into_shift:
  assumes "run_tms s (path_bits w n) = u" and "0 < n" and "u = SHIFT_DR \<or> u = SHIFT_IR"
  shows "\<not> bit w (n - 1)"
  using assms next_state_shift_low by (cases n) (auto simp: path_bits_Suc)

lemma tap_goto_phys:
  assumes "tap_goto L target t = (True, t')" and "drives_tap L phys" and "tap_st t \<noteq> target"
    and "compute_tms_path (tap_st t) target = (w, n)"
  shows "tap_st t' = target"
    and "phys (tap_dev t') = (run_tms (fst (phys (tap_dev t))) (path_bits w n), bit w (n - 1))"
proof -
  have n: "1 \<le> n" "n \<le> 7" using compute_tms_path_bound assms(3,4) by (auto simp: Suc_le_eq)
  obtain t1 where t1: "tap_write L (clock_tms w (int n) False False mpsse_empty) t = (True, t1)"
    and t': "t' = t1\<lparr>tap_st := target\<rparr>"
    using assms(1,3,4) n by (auto simp: tap_goto_def Let_def split: prod.splits if_splits)
  from t' show "tap_st t' = target" by simp
  from tap_write_ok(2) [OF t1 assms(2)] t'
  show "phys (tap_dev t') = (run_tms (fst (phys (tap_dev t))) (path_bits w n), bit w (n - 1))"
    by (simp add: phys_step_tms [OF n])
qed

lemma tap_goto_st: "tap_goto L target t = (True, t') \<Longrightarrow> tap_st t' = target"
  using compute_tms_path_bound(2) [of "tap_st t" target]
  by (auto simp: tap_goto_def Let_def split: prod.splits if_splits)

lemma tap_goto_sync:
  assumes "tap_goto L target t = (True, t')" and "drives_tap L phys" and "in_sync phys t"
    and "\<not> too_far (tap_st t) target"
  shows "in_sync phys t'"
proof (cases "tap_st t = target")
  case True
  with assms show ?thesis by (simp add: tap_goto_def)
next
  case False
  obtain w n where wn: "compute_tms_path (tap_st t) target = (w, n)" by fastforce
  have run: "run_tms (tap_st t) (path_bits w n) = target"
    using compute_tms_path_reaches [OF assms(4) wn] .
  have "0 < n" using compute_tms_path_bound(2) [OF wn False] .
  with path_into_shift [OF run] tap_goto_phys [OF assms(1,2) False wn] assms(3) run
  show ?thesis by (auto simp: in_sync_def)
qed

lemma tap_goto_too_far_desync:
  assumes "tap_goto L target t = (True, t')" and "drives_tap L phys" and "in_sync phys t"
    and "too_far (tap_st t) target"
  shows "tap_st t' = EXIT2_IR" and "fst (phys (tap_dev t')) = TEST_LOGIC_RESET"
proof -
  have ne: "tap_st t \<noteq> target" using assms(4) by (auto simp: too_far_def)
  have wn: "compute_tms_path (tap_st t) target = (0x1F, 5)"
    using assms(4) by (rule compute_tms_path_too_far)
  from assms(4) have "run_tms (tap_st t) (path_bits 0x1F 5) = TEST_LOGIC_RESET"
    using path_ok_all [of "tap_st t" target] wn by (simp add: path_ok_def)
  with tap_goto_phys [OF assms(1,2) ne wn] assms(3,4)
  show "tap_st t' = EXIT2_IR" "fst (phys (tap_dev t')) = TEST_LOGIC_RESET"
    by (auto simp: in_sync_def too_far_def)
qed

lemma not_too_far [simp]:
  "\<not> too_far s RUN_TEST_IDLE" "\<not> too_far s SHIFT_DR" "\<not> too_far s SHIFT_IR"
  by (simp_all add: too_far_def)

end
