(* ===== verification/Tap_Ops.thy ===== *)
theory Tap_Ops
  imports Tap_Wire
begin

text \<open>
  The operations of \<open>TapController\<close> on the wire: after every successful operation the software
  state is the state of the physical TAP, a scan clocks exactly the bits it was given and returns
  exactly the TDO levels, and \<open>shiftDRRepeat\<close> is the same as that many separate scans.

  \<open>sim_link\<close> is a probe with a bare TAP behind it; it shows that the hypotheses \<open>drives_tap\<close> and
  \<open>replies_tdo\<close> hold together, and the concrete instances of the properties run on it.
\<close>

unbundle bit_operations_syntax

section \<open>A simulated probe\<close>

record sim =
  sim_phys :: "tap_state \<times> bool"
  sim_tdo :: "bool list"

definition sim_level :: "sim \<Rightarrow> nat \<Rightarrow> bool" where
  "sim_level s i = (i < length (sim_tdo s) \<and> sim_tdo s ! i)"

definition sim_transfer :: "sim \<Rightarrow> mpsse_buf \<Rightarrow> bool \<times> byte list \<times> sim" where
  "sim_transfer s cmd =
     (case mpsse_parse (cmd_buffer cmd) of
        None \<Rightarrow> (False, [], s)
      | Some cs \<Rightarrow> (True, stream_reply cs (map (sim_level s) [0..<sum_list (map read_count cs)]),
                    s\<lparr>sim_phys := phys_step (sim_phys s) cmd\<rparr>))"

definition sim_link :: "sim link" where
  "sim_link = \<lparr>lk_transfer = sim_transfer, lk_error = (\<lambda>_. ''bad command'')\<rparr>"

lemma sim_link_drives: "drives_tap sim_link sim_phys"
  by (auto simp: drives_tap_def sim_link_def sim_transfer_def split: option.splits)

lemma sim_link_replies: "replies_tdo sim_link sim_level"
  by (auto simp: replies_tdo_def sim_link_def sim_transfer_def split: option.splits)

section \<open>One scan\<close>

lemma scan_cmds_level:
  assumes "0 < n" and "readable tdi n"
  shows "stream_level False (scan_cmds (ptr_bytes tdi) n rb)"
  by (simp add: scan_cmds_def Let_def stream_level_append bit_tms_byte)

lemma scan_tms: "0 < n \<Longrightarrow> map (\<lambda>i. i = n - 1) [0..<n] = replicate (n - 1) False @ [True]"
  by (cases n) (auto intro!: nth_equalityI simp: nth_append less_Suc_eq)

lemma run_shift_low [simp]:
  "run_tms SHIFT_DR (replicate k False) = SHIFT_DR" "run_tms SHIFT_IR (replicate k False) = SHIFT_IR"
  by (induction k) simp_all

definition exit1_of :: "tap_state \<Rightarrow> tap_state" where
  "exit1_of s = (if s = SHIFT_IR then EXIT1_IR else EXIT1_DR)"

lemma scan_phys:
  assumes "0 < n" and "readable tdi n" and "s = SHIFT_DR \<or> s = SHIFT_IR"
  shows "phys_step (s, False) (send_immediate (append_cmds (scan_cmds (ptr_bytes tdi) n rb) mpsse_empty))
           = (exit1_of s, True)"
proof -
  let ?cs = "scan_cmds (ptr_bytes tdi) n rb"
  have "send_immediate (append_cmds ?cs mpsse_empty) = append_cmds (?cs @ [Flush_Cmd]) mpsse_empty"
    by (simp add: send_immediate_cmds append_cmds_append)
  moreover have "list_all cmd_wf (?cs @ [Flush_Cmd])" using scan_cmds_wf [OF assms(1,2)] by simp
  moreover have "map p_tms (stream_pulses False (?cs @ [Flush_Cmd])) = replicate (n - 1) False @ [True]"
    using scan_tms [OF assms(1)] by (simp add: stream_pulses_append scan_cmds_pulses [OF assms(1,2)] comp_def)
  moreover have "stream_level False (?cs @ [Flush_Cmd])"
    by (simp add: stream_level_append scan_cmds_level [OF assms(1,2)])
  ultimately show ?thesis using assms(3) by (auto simp: phys_step_cmds exit1_of_def)
qed

lemma replies_tdoD:
  "replies_tdo L lvl \<Longrightarrow> lk_transfer L d cmd = (True, raw, d') \<Longrightarrow> mpsse_parse (cmd_buffer cmd) = Some cs
     \<Longrightarrow> raw = stream_reply cs (map (lvl d) [0..<sum_list (map read_count cs)])"
  unfolding replies_tdo_def by blast

text \<open>What the TDO pointer of \<open>doShift\<close> holds after a scan whose TDO levels were \<open>tdo d\<close>.\<close>

lemma do_shift_ok:
  assumes "do_shift L tdi tdo (int n) rb t = Some (True, u, t')"
    and "drives_tap L phys" and "in_sync phys t" and "tap_st t = SHIFT_DR \<or> tap_st t = SHIFT_IR"
    and "0 < n" and "readable tdi n"
  shows "tap_st t' = tap_st t" and "fst (phys (tap_dev t')) = exit1_of (tap_st t)"
    and "rb \<Longrightarrow> replies_tdo L lvl \<Longrightarrow>
           u = unpack_scan n (scan_reply n (map (lvl (tap_dev t)) [0..<n])) (resize_bytes (bytes_for n) tdo)"
proof -
  let ?cs = "scan_cmds (ptr_bytes tdi) n rb"
  let ?cmd = "send_immediate (append_cmds ?cs mpsse_empty)"
  have phys: "phys (tap_dev t) = (tap_st t, False)"
    using assms(3,4) by (auto simp: in_sync_def prod_eq_iff)
  note step = scan_phys [OF assms(5,6,4), of rb, folded phys]
  have cmd: "scan_cmd tdi n rb mpsse_empty = Some (append_cmds ?cs mpsse_empty)"
    using assms(5,6) by (rule scan_cmd_cmds)
  have both: "tap_st t' = tap_st t \<and> fst (phys (tap_dev t')) = exit1_of (tap_st t)"
  proof (cases rb)
    case True
    with assms(1,2,5) cmd step show ?thesis
      by (auto simp: do_shift_def drives_tap_def split: prod.splits if_splits)
  next
    case False
    with assms(1,5) cmd have "tap_write L ?cmd t = (True, t')"
      by (auto simp: do_shift_def split: prod.splits)
    from tap_write_ok [OF this assms(2)] step show ?thesis by simp
  qed
  then show "tap_st t' = tap_st t" "fst (phys (tap_dev t')) = exit1_of (tap_st t)" by simp_all
  show "u = unpack_scan n (scan_reply n (map (lvl (tap_dev t)) [0..<n])) (resize_bytes (bytes_for n) tdo)"
    if rb and r: "replies_tdo L lvl"
  proof -
    obtain raw d where raw: "lk_transfer L (tap_dev t) ?cmd = (True, raw, d)"
      and u: "u = unpack_scan n raw (resize_bytes (bytes_for n) tdo)"
      using assms(1,5) cmd \<open>rb\<close> by (auto simp: do_shift_def split: prod.splits if_splits)
    have parse: "mpsse_parse (cmd_buffer ?cmd) = Some (?cs @ [Flush_Cmd])"
      using scan_cmds_wf [OF assms(5,6), of rb]
      by (simp add: send_immediate_cmds append_cmds_append [symmetric] append_cmds_empty mpsse_parse_encode)
    have "sum_list (map read_count (?cs @ [Flush_Cmd])) = n"
      using scan_cmds_reply_len [OF assms(5,6)] \<open>rb\<close> by simp
    with replies_tdoD [OF r raw parse]
    have "raw = stream_reply (?cs @ [Flush_Cmd]) (map (lvl (tap_dev t)) [0..<n])" by (simp only:)
    also have "\<dots> = scan_reply n (map (lvl (tap_dev t)) [0..<n])"
      using scan_cmds_reply [OF assms(5,6), of "map (lvl (tap_dev t)) [0..<n]"] \<open>rb\<close>
      by (simp add: stream_reply_append)
    finally show ?thesis using u by simp
  qed
qed

text \<open>After the shift the software state is set to Exit1 and the controller goes to idle.\<close>

lemma scan_then_idle:
  assumes "do_shift L tdi tdo (int n) rb t = Some (True, u, t2)"
    and "drives_tap L phys" and "in_sync phys t" and "tap_st t = SHIFT_DR \<or> tap_st t = SHIFT_IR"
    and "0 < n" and "readable tdi n"
    and "tap_goto L RUN_TEST_IDLE (t2\<lparr>tap_st := exit1_of (tap_st t)\<rparr>) = (True, t')"
  shows "tap_st t' = RUN_TEST_IDLE" and "in_sync phys t'"
proof -
  from tap_goto_st [OF assms(7)] show "tap_st t' = RUN_TEST_IDLE" .
  have "in_sync phys (t2\<lparr>tap_st := exit1_of (tap_st t)\<rparr>)"
    using do_shift_ok(2) [OF assms(1-6)] by (simp add: in_sync_def exit1_of_def)
  from tap_goto_sync [OF assms(7,2) this] show "in_sync phys t'" by simp
qed

lemma exit1_not_too_far [simp]: "exit1_of s \<noteq> SHIFT_DR" "exit1_of s \<noteq> SHIFT_IR"
  by (simp_all add: exit1_of_def)

section \<open>Register scans\<close>

lemma tap_reset_ok:
  assumes "tap_reset L t = (True, t')" and "drives_tap L phys"
  shows "tap_st t' = RUN_TEST_IDLE" and "fst (phys (tap_dev t')) = RUN_TEST_IDLE"
proof -
  let ?cs = "[Tms_Cmd 5 (tms_byte 0x1F False) False, Tms_Cmd 1 (tms_byte 0 False) False]"
  have cmd: "clock_tms 0x00 1 False False (clock_tms 0x1F 5 False False mpsse_empty) = append_cmds ?cs mpsse_empty"
    using clock_tms_cmds [of 5 "0x1F" False False mpsse_empty]
      clock_tms_cmds [of 1 0 False False "append_cmds [Tms_Cmd 5 (tms_byte 0x1F False) False] mpsse_empty"]
    by (simp add: append_cmds_append [symmetric])
  have pulses: "map p_tms (stream_pulses lvl ?cs) = [True, True, True, True, True, False]" for lvl
    by (simp add: bit_tms_byte upt_rec)
  have "fst (phys_step p (append_cmds ?cs mpsse_empty)) = RUN_TEST_IDLE" for p
    using five_ones_reset [of "fst p"] pulses [of "snd p"] by (subst phys_step_cmds) simp_all
  note phys = this
  obtain t1 where t1: "tap_write L (append_cmds ?cs mpsse_empty) t = (True, t1)"
    and t': "t' = t1\<lparr>tap_st := RUN_TEST_IDLE\<rparr>"
    using assms(1) cmd by (auto simp: tap_reset_def Let_def split: prod.splits if_splits)
  from t' show "tap_st t' = RUN_TEST_IDLE" by simp
  from tap_write_ok(2) [OF t1 assms(2)] t' phys show "fst (phys (tap_dev t')) = RUN_TEST_IDLE" by simp
qed

lemma shift_ir_ok:
  assumes "shift_ir L ir (int n) t = Some (True, t')" and "drives_tap L phys" and "in_sync phys t"
    and "readable ir n"
  shows "tap_st t' = RUN_TEST_IDLE" and "in_sync phys t'"
proof -
  obtain t1 u t2 where n: "0 < n" and t1: "tap_goto L SHIFT_IR t = (True, t1)"
    and t2: "do_shift L ir [] (int n) False t1 = Some (True, u, t2)"
    and t': "tap_goto L RUN_TEST_IDLE (t2\<lparr>tap_st := EXIT1_IR\<rparr>) = (True, t')"
    using assms(1) by (auto simp: shift_ir_def split: prod.splits if_splits bind_splits)
  have st: "tap_st t1 = SHIFT_IR" "in_sync phys t1"
    using tap_goto_st [OF t1] tap_goto_sync [OF t1 assms(2,3)] by simp_all
  show "tap_st t' = RUN_TEST_IDLE" "in_sync phys t'"
    using scan_then_idle [OF t2 assms(2) st(2) _ n assms(4), of t'] st(1) t' by (simp_all add: exit1_of_def)
qed

lemma shift_dr_ok:
  assumes "shift_dr L tdi tdo (int n) t = Some (True, u, t')" and "drives_tap L phys" and "in_sync phys t"
    and "readable tdi n"
  shows "tap_st t' = RUN_TEST_IDLE" and "in_sync phys t'"
    and "replies_tdo L lvl \<Longrightarrow> \<exists>d. fst (phys d) = SHIFT_DR \<and>
           u = unpack_scan n (scan_reply n (map (lvl d) [0..<n])) (resize_bytes (bytes_for n) tdo)"
proof -
  obtain t1 t2 where n: "0 < n" and t1: "tap_goto L SHIFT_DR t = (True, t1)"
    and t2: "do_shift L tdi tdo (int n) True t1 = Some (True, u, t2)"
    and t': "tap_goto L RUN_TEST_IDLE (t2\<lparr>tap_st := EXIT1_DR\<rparr>) = (True, t')"
    using assms(1) by (auto simp: shift_dr_def split: prod.splits if_splits bind_splits)
  have st: "tap_st t1 = SHIFT_DR" "in_sync phys t1"
    using tap_goto_st [OF t1] tap_goto_sync [OF t1 assms(2,3)] by simp_all
  show "tap_st t' = RUN_TEST_IDLE" "in_sync phys t'"
    using scan_then_idle [OF t2 assms(2) st(2) _ n assms(4), of t'] st(1) t' by (simp_all add: exit1_of_def)
  show "\<exists>d. fst (phys d) = SHIFT_DR \<and>
           u = unpack_scan n (scan_reply n (map (lvl d) [0..<n])) (resize_bytes (bytes_for n) tdo)"
    if "replies_tdo L lvl"
    using do_shift_ok(3) [OF t2 assms(2) st(2) _ n assms(4) _ that] st
    by (auto simp: in_sync_def)
qed

lemma shift_dr_tdo:
  assumes "shift_dr L tdi [] (int n) t = Some (True, u, t')"
    and "drives_tap L phys" and "replies_tdo L lvl" and "in_sync phys t" and "readable tdi n"
  shows "length u = bytes_for n \<and> (\<exists>d. fst (phys d) = SHIFT_DR \<and> (\<forall>i. buf_bit u i \<longleftrightarrow> i < n \<and> lvl d i))"
proof -
  have n: "0 < n" using assms(1) by (simp add: shift_dr_def split: if_splits)
  from shift_dr_ok(3) [OF assms(1,2,4,5,3)] obtain d where d: "fst (phys d) = SHIFT_DR"
    and u: "u = unpack_scan n (scan_reply n (map (lvl d) [0..<n])) (replicate (bytes_for n) 0)"
    by (auto simp: resize_bytes_def)
  have "length u = bytes_for n" "\<And>i. buf_bit u i \<longleftrightarrow> i < n \<and> lvl d i"
    using unpack_scan_correct [OF n, of "map (lvl d) [0..<n]" "replicate (bytes_for n) 0"] u
    by auto
  with d show ?thesis by blast
qed

lemma shift_dr_write_ok:
  assumes "shift_dr_write L tdi (int n) t = Some (True, t')" and "drives_tap L phys" and "in_sync phys t"
    and "readable tdi n"
  shows "tap_st t' = RUN_TEST_IDLE" and "in_sync phys t'"
proof -
  obtain t1 u t2 where n: "0 < n" and t1: "tap_goto L SHIFT_DR t = (True, t1)"
    and t2: "do_shift L tdi [] (int n) False t1 = Some (True, u, t2)"
    and t': "tap_goto L RUN_TEST_IDLE (t2\<lparr>tap_st := EXIT1_DR\<rparr>) = (True, t')"
    using assms(1) by (auto simp: shift_dr_write_def split: prod.splits if_splits bind_splits)
  have st: "tap_st t1 = SHIFT_DR" "in_sync phys t1"
    using tap_goto_st [OF t1] tap_goto_sync [OF t1 assms(2,3)] by simp_all
  show "tap_st t' = RUN_TEST_IDLE" "in_sync phys t'"
    using scan_then_idle [OF t2 assms(2) st(2) _ n assms(4), of t'] st(1) t' by (simp_all add: exit1_of_def)
qed

lemma path_bits_0: "path_bits 0 k = replicate k False"
  by (rule nth_equalityI) (simp_all add: path_bits_def)

lemma clk_idle_loop_ok:
  "clk_idle_loop L n t = (True, t') \<Longrightarrow> drives_tap L phys \<Longrightarrow> in_sync phys t \<Longrightarrow> tap_st t = RUN_TEST_IDLE
     \<Longrightarrow> tap_st t' = RUN_TEST_IDLE \<and> in_sync phys t'"
proof (induction L n t rule: clk_idle_loop.induct)
  case (1 L n t)
  show ?case
  proof (cases "n > 0")
    case True
    let ?k = "if n > 7 then 7 else n"
    have k: "1 \<le> ?k" "?k \<le> 7" using True by auto
    obtain t1 where t1: "tap_write L (clock_tms 0 (int ?k) False False mpsse_empty) t = (True, t1)"
      and rest: "clk_idle_loop L (n - ?k) t1 = (True, t')"
      using "1.prems"(1) True by (subst (asm) clk_idle_loop.simps) (auto simp: Let_def split: prod.splits if_splits)
    note path_bits_0 [of ?k]
    with tap_write_ok [OF t1 "1.prems"(2)] phys_step_tms [OF k, of "phys (tap_dev t)" 0] "1.prems"(3,4)
      idle_stays [of ?k]
    have "tap_st t1 = RUN_TEST_IDLE" "in_sync phys t1" by (auto simp: in_sync_def)
    from "1.IH" [OF True refl refl t1 [symmetric] _ rest "1.prems"(2) this(2,1)] show ?thesis by simp
  next
    case False
    with "1.prems" show ?thesis by (subst (asm) clk_idle_loop.simps) simp
  qed
qed

lemma tap_clk_idle_ok:
  assumes "tap_clk_idle L cycles t = (True, t')" and "drives_tap L phys" and "in_sync phys t"
  shows "tap_st t' = RUN_TEST_IDLE" and "in_sync phys t'"
proof -
  obtain t1 where t1: "tap_goto L RUN_TEST_IDLE t = (True, t1)"
    and rest: "t' = t1 \<or> clk_idle_loop L (nat cycles) t1 = (True, t')"
    using assms(1) by (auto simp: tap_clk_idle_def split: prod.splits if_splits)
  have "tap_st t1 = RUN_TEST_IDLE" "in_sync phys t1"
    using tap_goto_st [OF t1] tap_goto_sync [OF t1 assms(2,3)] by simp_all
  with rest clk_idle_loop_ok assms(2) show "tap_st t' = RUN_TEST_IDLE" "in_sync phys t'" by blast+
qed

section \<open>Repeated scans\<close>

definition round_cmds :: "byte list \<Rightarrow> nat \<Rightarrow> mcmd list" where
  "round_cmds xs n =
     Tms_Cmd 3 (tms_byte 1 False) False # scan_cmds xs n True @ [Tms_Cmd 2 (tms_byte 1 False) False]"

definition rounds :: "nat \<Rightarrow> byte list \<Rightarrow> nat \<Rightarrow> mcmd list" where
  "rounds k xs n = concat (replicate k (round_cmds xs n))"

lemma rounds_simps [simp]: "rounds 0 xs n = []" "rounds (Suc k) xs n = round_cmds xs n @ rounds k xs n"
  by (simp_all add: rounds_def)

lemma repeat_cmds_cmds:
  assumes "0 < n" and "readable tdi n"
  shows "repeat_cmds tdi n (1, 3) (1, 2) k cmd = Some (append_cmds (rounds k (ptr_bytes tdi) n) cmd)"
proof (induction k arbitrary: cmd)
  case (Suc k)
  have 3: "clock_tms 1 3 False False cmd = append_cmds [Tms_Cmd 3 (tms_byte 1 False) False] cmd"
    and 2: "clock_tms 1 2 False False cmd = append_cmds [Tms_Cmd 2 (tms_byte 1 False) False] cmd" for cmd
    using clock_tms_cmds [of 3 1 False False cmd] clock_tms_cmds [of 2 1 False False cmd] by simp_all
  show ?case
    by (simp add: Suc scan_cmd_cmds [OF assms] 3 2 round_cmds_def append_cmds_append [symmetric])
qed simp

lemma round_wf: "0 < n \<Longrightarrow> readable tdi n \<Longrightarrow> list_all cmd_wf (rounds k (ptr_bytes tdi) n)"
  by (induction k) (auto simp: round_cmds_def intro: scan_cmds_wf)

lemma round_counts:
  assumes "0 < n" and "readable tdi n"
  shows "sum_list (map read_count (rounds k (ptr_bytes tdi) n)) = k * n"
    and "sum_list (map reply_len (rounds k (ptr_bytes tdi) n)) = k * scan_raw n"
  using scan_cmds_reply_len [OF assms, of True] by (induction k) (auto simp: round_cmds_def)

lemma round_reply:
  assumes "0 < n" and "readable tdi n" and "n \<le> length bs"
  shows "stream_reply (rounds (Suc k) (ptr_bytes tdi) n) bs =
           scan_reply n bs @ stream_reply (rounds k (ptr_bytes tdi) n) (drop n bs)"
  using scan_cmds_reply_len [OF assms(1,2), of True] scan_cmds_reply [OF assms]
  by (simp add: round_cmds_def stream_reply_append)

lemma round_tms:
  assumes "0 < n" and "readable tdi n"
  shows "map p_tms (stream_pulses lvl (round_cmds (ptr_bytes tdi) n))
           = [True, False, False] @ replicate (n - 1) False @ [True, True, False]"
  using scan_tms [OF assms(1)]
  by (simp add: round_cmds_def stream_pulses_append scan_cmds_pulses [OF assms] comp_def bit_tms_byte upt_rec
        scan_cmds_level [OF assms])

lemma rounds_idle:
  assumes "0 < n" and "readable tdi n"
  shows "run_tms RUN_TEST_IDLE (map p_tms (stream_pulses lvl (rounds k (ptr_bytes tdi) n))) = RUN_TEST_IDLE"
proof (induction k arbitrary: lvl)
  case (Suc k)
  have "run_tms RUN_TEST_IDLE ([True, False, False] @ replicate (n - 1) False @ [True, True, False]) = RUN_TEST_IDLE"
    by simp
  with Suc show ?case by (simp only: rounds_simps stream_pulses_append map_append run_tms_simps round_tms [OF assms])
qed simp

lemma unpack_many_correct:
  assumes n: "0 < n" and tdi: "readable tdi n"
  shows "k * n \<le> length bs \<Longrightarrow> idx + k * scan_raw n \<le> length raw \<Longrightarrow>
    take (k * scan_raw n) (drop idx raw) = stream_reply (rounds k (ptr_bytes tdi) n) bs \<Longrightarrow>
    out + k * bytes_for n \<le> length flat \<Longrightarrow> (\<forall>i \<ge> 8 * out. \<not> buf_bit flat i) \<Longrightarrow>
    \<exists>flat'. unpack_many n k out raw idx flat = Inr flat' \<and> length flat' = length flat \<and>
      (\<forall>i < 8 * out. buf_bit flat' i = buf_bit flat i) \<and>
      (\<forall>i \<ge> 8 * (out + k * bytes_for n). \<not> buf_bit flat' i) \<and>
      (\<forall>j < k. \<forall>i < n. buf_bit flat' (8 * (out + j * bytes_for n) + i) = bs ! (j * n + i))"
proof (induction k arbitrary: bs idx out flat)
  case 0
  then show ?case by simp
next
  case (Suc k)
  let ?r = "scan_raw n" and ?B = "bytes_for n"
  have nbs: "n \<le> length bs" using Suc.prems(1) by simp
  have split: "take ?r (drop idx raw) @ take (k * ?r) (drop (idx + ?r) raw)
      = scan_reply n bs @ stream_reply (rounds k (ptr_bytes tdi) n) (drop n bs)"
    using Suc.prems(3) round_reply [OF n tdi nbs, of k] by (simp add: take_add add.commute)
  then have first: "take ?r (drop idx raw) = scan_reply n bs"
    and rest: "take (k * ?r) (drop (idx + ?r) raw) = stream_reply (rounds k (ptr_bytes tdi) n) (drop n bs)"
    using Suc.prems(2) by (simp_all add: append_eq_append_conv)
  obtain flat1 where one: "unpack_one n out raw idx flat = Inr (idx + ?r, flat1)"
    and len1: "length flat1 = length flat"
    and b1: "\<And>i. buf_bit flat1 i \<longleftrightarrow> (if 8 * out \<le> i \<and> i < 8 * out + n
               then bs ! (i - 8 * out) \<or> (8 * (out + (n - 1) div 8) \<le> i \<and> buf_bit flat i) else buf_bit flat i)"
    using unpack_one_correct [OF n nbs _ first, of out flat] Suc.prems(2,4) by auto
  have zero: "\<forall>i \<ge> 8 * (out + ?B). \<not> buf_bit flat1 i"
    using bytes_for_ge [of n] Suc.prems(5) by (auto simp: b1)
  have p1: "k * n \<le> length (drop n bs)" using Suc.prems(1) by simp
  have p2: "idx + ?r + k * ?r \<le> length raw" and p4: "out + ?B + k * ?B \<le> length flat1"
    using Suc.prems(2,4) len1 by simp_all
  obtain flat' where many: "unpack_many n k (out + ?B) raw (idx + ?r) flat1 = Inr flat'"
    and len': "length flat' = length flat1"
    and low: "\<forall>i < 8 * (out + ?B). buf_bit flat' i = buf_bit flat1 i"
    and high: "\<forall>i \<ge> 8 * (out + ?B + k * ?B). \<not> buf_bit flat' i"
    and mid: "\<forall>j < k. \<forall>i < n. buf_bit flat' (8 * (out + ?B + j * ?B) + i) = drop n bs ! (j * n + i)"
    using Suc.IH [OF p1 p2 rest p4 zero] by blast
  have "buf_bit flat' (8 * (out + j * ?B) + i) = bs ! (j * n + i)" if "j < Suc k" "i < n" for j i
  proof (cases j)
    case 0
    have "8 * out + i < 8 * (out + ?B)" using that(2) bytes_for_ge [of n] by simp
    with 0 low b1 that(2) Suc.prems(5) show ?thesis by simp
  next
    case (Suc m)
    with mid that nbs show ?thesis by (simp add: algebra_simps)
  qed
  moreover have "\<forall>i < 8 * out. buf_bit flat' i = buf_bit flat i" using low b1 by simp
  ultimately show ?case using one many len' len1 high by (simp add: algebra_simps)
qed

text \<open>The device state each chunk of 512 scans meets.\<close>

lemma repeat_chunks_ok:
  assumes n: "0 < n" and tdi: "readable tdi n" and dr: "drives_tap L phys" and re: "replies_tdo L lvl"
  shows "repeat_chunks L count n tdi (c * kChunk) flat t = Some (True, u, t') \<Longrightarrow>
    fst (phys (tap_dev t)) = RUN_TEST_IDLE \<Longrightarrow> length flat = count * bytes_for n \<Longrightarrow>
    (\<forall>i \<ge> 8 * (c * kChunk * bytes_for n). \<not> buf_bit flat i) \<Longrightarrow>
    tap_st t' = RUN_TEST_IDLE \<and> fst (phys (tap_dev t')) = RUN_TEST_IDLE \<and> length u = length flat \<and>
    (\<forall>i < 8 * (c * kChunk * bytes_for n). buf_bit u i = buf_bit flat i) \<and>
    (\<exists>ds. \<forall>j. c * kChunk \<le> j \<longrightarrow> j < count \<longrightarrow> (\<forall>i < n.
        buf_bit u (8 * (j * bytes_for n) + i) = lvl (ds (j div kChunk)) (j mod kChunk * n + i)))"
proof (induction "count - c * kChunk" arbitrary: c flat t rule: less_induct)
  case less
  let ?B = "bytes_for n" and ?o = "c * kChunk"
  show ?case
  proof (cases "?o < count")
    case False
    with less.prems show ?thesis by (subst (asm) repeat_chunks.simps) auto
  next
    case True
    define k where "k = min kChunk (count - ?o)"
    have k: "k \<le> kChunk" "?o + k \<le> count" and kpos: "0 < kChunk" using True by (auto simp: k_def kChunk_def)
    let ?rs = "rounds k (ptr_bytes tdi) n"
    let ?cmd = "send_immediate (append_cmds ?rs mpsse_empty)"
    have cmd: "repeat_cmds tdi n (compute_tms_path RUN_TEST_IDLE SHIFT_DR)
        (compute_tms_path EXIT1_DR RUN_TEST_IDLE) k mpsse_empty = Some (append_cmds ?rs mpsse_empty)"
      by (simp add: compute_tms_path_idle_shift repeat_cmds_cmds [OF n tdi])
    obtain raw d flat' where tr: "lk_transfer L (tap_dev t) ?cmd = (True, raw, d)"
      and un: "unpack_many n k (?o * ?B) raw 0 flat = Inr flat'"
      and rest: "repeat_chunks L count n tdi (Suc c * kChunk) flat' (t\<lparr>tap_dev := d\<rparr>) = Some (True, u, t')"
      using less.prems(1) True cmd unfolding k_def
      by (subst (asm) repeat_chunks.simps)
        (auto simp: Let_def add.commute split: prod.splits if_splits sum.splits)
    have cmds: "?cmd = append_cmds (?rs @ [Flush_Cmd]) mpsse_empty"
      by (simp add: send_immediate_cmds append_cmds_append)
    have wf: "list_all cmd_wf (?rs @ [Flush_Cmd])" using round_wf [OF n tdi] by simp
    have parse: "mpsse_parse (cmd_buffer ?cmd) = Some (?rs @ [Flush_Cmd])"
      unfolding cmds append_cmds_empty using wf by (rule mpsse_parse_encode)
    have "phys d = phys_step (phys (tap_dev t)) ?cmd" using dr tr by (simp add: drives_tap_def)
    then have phys: "fst (phys d) = RUN_TEST_IDLE"
      unfolding cmds phys_step_cmds [OF wf] using rounds_idle [OF n tdi] less.prems(2)
      by (simp add: stream_pulses_append)
    define bs where "bs = map (lvl (tap_dev t)) [0..<k * n]"
    have raw: "raw = stream_reply ?rs bs"
      using replies_tdoD [OF re tr parse] round_counts(1) [OF n tdi, of k]
      by (simp add: bs_def stream_reply_append)
    have lraw: "length raw = k * scan_raw n" by (simp add: raw round_counts [OF n tdi])
    have fit: "?o * ?B + k * ?B \<le> length flat"
      using mult_le_mono1 [OF k(2), of ?B] less.prems(3) by (simp add: algebra_simps)
    obtain flat2 where un2: "unpack_many n k (?o * ?B) raw 0 flat = Inr flat2" and len: "length flat2 = length flat"
      and low: "\<forall>i < 8 * (?o * ?B). buf_bit flat2 i = buf_bit flat i"
      and high: "\<forall>i \<ge> 8 * (?o * ?B + k * ?B). \<not> buf_bit flat2 i"
      and mid: "\<forall>j < k. \<forall>i < n. buf_bit flat2 (8 * (?o * ?B + j * ?B) + i) = bs ! (j * n + i)"
      using unpack_many_correct [OF n tdi, of k bs 0 raw "?o * ?B" flat] lraw raw less.prems(4) fit
      by (auto simp: bs_def)
    have [simp]: "flat2 = flat'" using un un2 by simp
    have zero: "\<forall>i \<ge> 8 * (Suc c * kChunk * ?B). \<not> buf_bit flat' i"
    proof (intro allI impI)
      fix i assume "8 * (Suc c * kChunk * ?B) \<le> i"
      moreover have "k * ?B \<le> kChunk * ?B" using k(1) by (rule mult_le_mono1)
      ultimately have "8 * (?o * ?B + k * ?B) \<le> i"
        unfolding mult_Suc add_mult_distrib distrib_left by linarith
      with high show "\<not> buf_bit flat' i" by simp
    qed
    have smaller: "count - Suc c * kChunk < count - ?o" using True kpos by simp
    have phys': "fst (phys (tap_dev (t\<lparr>tap_dev := d\<rparr>))) = RUN_TEST_IDLE" using phys by simp
    from less.hyps [OF smaller rest phys' _ zero] len less.prems(3)
    obtain ds where st: "tap_st t' = RUN_TEST_IDLE" "fst (phys (tap_dev t')) = RUN_TEST_IDLE" "length u = length flat'"
      and old: "\<forall>i < 8 * (Suc c * kChunk * ?B). buf_bit u i = buf_bit flat' i"
      and later: "\<forall>j. Suc c * kChunk \<le> j \<longrightarrow> j < count \<longrightarrow> (\<forall>i < n.
        buf_bit u (8 * (j * ?B) + i) = lvl (ds (j div kChunk)) (j mod kChunk * n + i))"
      by auto
    have each: "buf_bit u (8 * (j * ?B) + i) = lvl ((ds(c := tap_dev t)) (j div kChunk)) (j mod kChunk * n + i)"
      if j: "?o \<le> j" "j < count" and i: "i < n" for j i
    proof (cases "Suc c * kChunk \<le> j")
      case True
      then have "c < j div kChunk" using kpos by (simp add: less_eq_div_iff_mult_less_eq Suc_le_eq [symmetric])
      with later True j i show ?thesis by simp
    next
      case False
      define m where "m = j - ?o"
      have m: "j = ?o + m" "m < kChunk" "m < k" using False j by (auto simp: m_def k_def)
      then have jd: "j div kChunk = c" "j mod kChunk = m" by simp_all
      have "j * ?B + ?B \<le> Suc c * kChunk * ?B"
        using mult_le_mono1 [of "Suc j" "Suc c * kChunk" ?B] False by simp
      then have "8 * (j * ?B) + i < 8 * (Suc c * kChunk * ?B)" using i bytes_for_ge [of n] by linarith
      then have "buf_bit u (8 * (j * ?B) + i) = buf_bit flat' (8 * (?o * ?B + m * ?B) + i)"
        using old m(1) by (simp add: algebra_simps)
      also have "\<dots> = bs ! (m * n + i)" using mid m(3) i by simp
      also have "m * n + i < k * n" using mult_le_mono1 [of "Suc m" k n] m(3) i by simp
      then have "bs ! (m * n + i) = lvl (tap_dev t) (m * n + i)" by (simp add: bs_def)
      finally show ?thesis using jd by simp
    qed
    have "\<forall>i < 8 * (?o * ?B). buf_bit u i = buf_bit flat i"
      using old low by (simp add: algebra_simps)
    moreover have "\<exists>ds. \<forall>j. ?o \<le> j \<longrightarrow> j < count \<longrightarrow> (\<forall>i < n.
        buf_bit u (8 * (j * ?B) + i) = lvl (ds (j div kChunk)) (j mod kChunk * n + i))"
      using each by (intro exI [of _ "ds(c := tap_dev t)"]) blast
    ultimately show ?thesis using st len by simp
  qed
qed

lemma shift_dr_repeat_ok:
  assumes "shift_dr_repeat L (int count) (int n) tdi flat t = Some (True, u, t')"
    and "0 < count" and "0 < n" and "readable tdi n" and "drives_tap L phys" and "replies_tdo L lvl"
    and "in_sync phys t" and "tap_st t = RUN_TEST_IDLE"
  shows "tap_st t' = RUN_TEST_IDLE" and "in_sync phys t'" and "length u = count * bytes_for n"
    and "\<exists>ds. \<forall>j < count. \<forall>i < n.
        buf_bit u (8 * (j * bytes_for n) + i) = lvl (ds (j div kChunk)) (j mod kChunk * n + i)"
proof -
  have run: "repeat_chunks L count n tdi (0 * kChunk) (replicate (count * bytes_for n) 0) t = Some (True, u, t')"
    using assms(1-3) by (simp add: shift_dr_repeat_def)
  have idle: "fst (phys (tap_dev t)) = RUN_TEST_IDLE" using assms(7,8) by (simp add: in_sync_def)
  note all = repeat_chunks_ok [OF assms(3-6) run idle]
  show "tap_st t' = RUN_TEST_IDLE" "length u = count * bytes_for n" using all by simp_all
  show "in_sync phys t'" using all by (simp add: in_sync_def)
  show "\<exists>ds. \<forall>j < count. \<forall>i < n.
        buf_bit u (8 * (j * bytes_for n) + i) = lvl (ds (j div kChunk)) (j mod kChunk * n + i)"
    using all by simp
qed

section \<open>With a working probe every operation succeeds\<close>

definition always_ok :: "'d link \<Rightarrow> bool" where
  "always_ok L \<longleftrightarrow> (\<forall>d cmd. mpsse_parse (cmd_buffer cmd) \<noteq> None \<longrightarrow> fst (lk_transfer L d cmd))"

lemma sim_link_always_ok: "always_ok sim_link"
  by (auto simp: always_ok_def sim_link_def sim_transfer_def)

lemma transfer_succeeds:
  assumes "always_ok L" and "list_all cmd_wf cs"
  shows "\<exists>raw d'. lk_transfer L d (append_cmds cs mpsse_empty) = (True, raw, d')"
proof -
  have "mpsse_parse (cmd_buffer (append_cmds cs mpsse_empty)) \<noteq> None"
    using assms(2) by (simp add: append_cmds_empty mpsse_parse_encode)
  then have "fst (lk_transfer L d (append_cmds cs mpsse_empty))" using assms(1) by (simp add: always_ok_def)
  then show ?thesis by (cases "lk_transfer L d (append_cmds cs mpsse_empty)") auto
qed

lemma tap_write_succeeds:
  assumes "always_ok L" and "list_all cmd_wf cs"
  shows "\<exists>d'. tap_write L (append_cmds cs mpsse_empty) t = (True, t\<lparr>tap_dev := d'\<rparr>)"
  using transfer_succeeds [OF assms, of "tap_dev t"] by (auto simp: tap_write_def lk_write_def)

lemma tms_write_succeeds:
  assumes "always_ok L" and "1 \<le> n" and "n \<le> 7"
  shows "\<exists>d'. tap_write L (clock_tms w (int n) False False mpsse_empty) t = (True, t\<lparr>tap_dev := d'\<rparr>)"
  using tap_write_succeeds [OF assms(1), of "[Tms_Cmd n (tms_byte w False) False]"] assms(2,3)
  by (simp add: clock_tms_cmds)

lemma tap_goto_succeeds:
  assumes "always_ok L"
  shows "\<exists>t'. tap_goto L target t = (True, t')"
proof (cases "tap_st t = target")
  case False
  obtain w n where wn: "compute_tms_path (tap_st t) target = (w, n)" by fastforce
  have "1 \<le> n" "n \<le> 7" using compute_tms_path_bound [OF wn] False by (auto simp: Suc_le_eq)
  from tms_write_succeeds [OF assms this, of w t] wn False show ?thesis by (auto simp: tap_goto_def Let_def)
qed (simp add: tap_goto_def)

lemma tap_reset_succeeds:
  assumes "always_ok L"
  shows "\<exists>t'. tap_reset L t = (True, t')"
proof -
  let ?cs = "[Tms_Cmd 5 (tms_byte 0x1F False) False, Tms_Cmd 1 (tms_byte 0 False) False]"
  have "clock_tms 0x00 1 False False (clock_tms 0x1F 5 False False mpsse_empty) = append_cmds ?cs mpsse_empty"
    using clock_tms_cmds [of 5 "0x1F" False False mpsse_empty]
      clock_tms_cmds [of 1 0 False False "append_cmds [Tms_Cmd 5 (tms_byte 0x1F False) False] mpsse_empty"]
    by (simp add: append_cmds_append [symmetric])
  with tap_write_succeeds [OF assms, of ?cs t] show ?thesis by (auto simp: tap_reset_def Let_def)
qed

lemma clk_idle_loop_succeeds:
  assumes "always_ok L"
  shows "\<exists>t'. clk_idle_loop L n t = (True, t')"
proof (induction n arbitrary: t rule: less_induct)
  case (less n)
  show ?case
  proof (cases "n > 0")
    case True
    let ?k = "if n > 7 then 7 else n"
    have k: "1 \<le> ?k" "?k \<le> 7" "n - ?k < n" using True by auto
    from tms_write_succeeds [OF assms k(1,2), of 0 t] less [OF k(3)] True show ?thesis
      by (subst clk_idle_loop.simps) (auto simp: Let_def)
  qed (simp add: clk_idle_loop.simps)
qed

lemma tap_clk_idle_succeeds:
  assumes "always_ok L"
  shows "\<exists>t'. tap_clk_idle L cycles t = (True, t')"
proof -
  obtain t1 where "tap_goto L RUN_TEST_IDLE t = (True, t1)" using tap_goto_succeeds [OF assms] by blast
  with clk_idle_loop_succeeds [OF assms, of "nat cycles" t1] show ?thesis by (auto simp: tap_clk_idle_def)
qed

lemma do_shift_succeeds:
  assumes "always_ok L" and "0 < n" and "readable tdi n"
  shows "\<exists>u t'. do_shift L tdi tdo (int n) rb t = Some (True, u, t')"
proof -
  let ?cs = "scan_cmds (ptr_bytes tdi) n rb"
  have wf: "list_all cmd_wf (?cs @ [Flush_Cmd])" using scan_cmds_wf [OF assms(2,3)] by simp
  have cmd: "scan_cmd tdi n rb mpsse_empty = Some (append_cmds ?cs mpsse_empty)"
    using assms(2,3) by (rule scan_cmd_cmds)
  have "send_immediate (append_cmds ?cs mpsse_empty) = append_cmds (?cs @ [Flush_Cmd]) mpsse_empty"
    by (simp add: send_immediate_cmds append_cmds_append)
  with transfer_succeeds [OF assms(1) wf, of "tap_dev t"] tap_write_succeeds [OF assms(1) wf, of t] cmd assms(2)
  show ?thesis by (cases rb) (auto simp: do_shift_def)
qed

lemma shift_ir_succeeds:
  assumes "always_ok L" and "0 < n" and "readable ir n"
  shows "\<exists>t'. shift_ir L ir (int n) t = Some (True, t')"
proof -
  obtain t1 where t1: "tap_goto L SHIFT_IR t = (True, t1)" using tap_goto_succeeds [OF assms(1)] by blast
  obtain u t2 where t2: "do_shift L ir [] (int n) False t1 = Some (True, u, t2)"
    using do_shift_succeeds [OF assms] by blast
  from t1 t2 tap_goto_succeeds [OF assms(1), of RUN_TEST_IDLE "t2\<lparr>tap_st := EXIT1_IR\<rparr>"] assms(2)
  show ?thesis by (auto simp: shift_ir_def)
qed

lemma shift_dr_succeeds:
  assumes "always_ok L" and "0 < n" and "readable tdi n"
  shows "\<exists>u t'. shift_dr L tdi tdo (int n) t = Some (True, u, t')"
    and "\<exists>t'. shift_dr_write L tdi (int n) t = Some (True, t')"
proof -
  obtain t1 where t1: "tap_goto L SHIFT_DR t = (True, t1)" using tap_goto_succeeds [OF assms(1)] by blast
  obtain u t2 v t3 where t2: "do_shift L tdi tdo (int n) True t1 = Some (True, u, t2)"
    and t3: "do_shift L tdi [] (int n) False t1 = Some (True, v, t3)"
    using do_shift_succeeds [OF assms] by meson
  from t1 t2 t3 tap_goto_succeeds [OF assms(1), of RUN_TEST_IDLE "t2\<lparr>tap_st := EXIT1_DR\<rparr>"]
    tap_goto_succeeds [OF assms(1), of RUN_TEST_IDLE "t3\<lparr>tap_st := EXIT1_DR\<rparr>"] assms(2)
  show "\<exists>u t'. shift_dr L tdi tdo (int n) t = Some (True, u, t')"
    and "\<exists>t'. shift_dr_write L tdi (int n) t = Some (True, t')"
    by (auto simp: shift_dr_def shift_dr_write_def)
qed

section \<open>Properties\<close>

text \<open>No operation of the controller fails on its own: with a probe that carries out every
  well-formed command, \<open>shiftIR\<close>, both \<open>shiftDR\<close>, \<open>gotoState\<close>, \<open>reset\<close> and \<open>clkIdle\<close> return success from
  any state, for any number of bits, when the TDI buffer is long enough.\<close>

theorem controller_succeeds:
  assumes "always_ok L" and "0 < n" and "readable xs n"
  shows "(\<exists>t'. shift_ir L xs (int n) t = Some (True, t')) \<and>
         (\<exists>u t'. shift_dr L xs tdo (int n) t = Some (True, u, t')) \<and>
         (\<exists>t'. shift_dr_write L xs (int n) t = Some (True, t')) \<and>
         (\<exists>t'. tap_goto L s t = (True, t')) \<and> (\<exists>t'. tap_reset L t = (True, t')) \<and>
         (\<exists>t'. tap_clk_idle L k t = (True, t'))"
  by (intro conjI shift_ir_succeeds shift_dr_succeeds tap_goto_succeeds tap_reset_succeeds
      tap_clk_idle_succeeds assms)

lemma controller_succeeds_witness:
  "\<exists>u t'. shift_dr sim_link (Some [1, 2, 3]) [] (int 24) (tap_init \<lparr>sim_phys = (SHIFT_IR, True), sim_tdo = []\<rparr>)
     = Some (True, u, t')"
  using controller_succeeds [OF sim_link_always_ok, of 24 "Some [1, 2, 3]"] by (simp add: readable_def bytes_for_def)

text \<open>A TAP that is idle, behind the simulated probe, for the concrete instances.\<close>

definition idle_tap :: "bool list \<Rightarrow> sim tap" where
  "idle_tap tdo =
     \<lparr>tap_st = RUN_TEST_IDLE, tap_error = [],
      tap_dev = \<lparr>sim_phys = (RUN_TEST_IDLE, False), sim_tdo = tdo\<rparr>\<rparr>"

lemma idle_tap_sync: "in_sync sim_phys (idle_tap tdo)" "tap_st (idle_tap tdo) = RUN_TEST_IDLE"
  by (simp_all add: in_sync_def idle_tap_def)

text \<open>C1: \<open>shiftDR\<close> into an empty vector: when it succeeds, the TAP is really in Run-Test/Idle and the
  software state agrees; the vector has one bit per scanned bit, and bit \<open>i\<close> of it is the TDO level
  of the \<open>i\<close>-th shift cycle, taken while the TAP was in Shift-DR; the padding bits are 0.\<close>

theorem shift_dr_returns_tdo:
  assumes "shift_dr L tdi [] (int n) t = Some (True, u, t')"
    and "drives_tap L phys" and "replies_tdo L lvl" and "in_sync phys t" and "readable tdi n"
  shows "tap_st t' = RUN_TEST_IDLE \<and> in_sync phys t' \<and> length u = bytes_for n \<and>
         (\<exists>d. fst (phys d) = SHIFT_DR \<and> (\<forall>i. buf_bit u i \<longleftrightarrow> i < n \<and> lvl d i))"
  using shift_dr_ok(1,2) [OF assms(1,2,4,5)] shift_dr_tdo [OF assms] by blast

lemma shift_dr_run:
  "shift_dr sim_link (Some [0xA5, 0x01]) [] (int 10) (idle_tap [True, False, True, True, False, False, True, False, True, True])
     = Some (True, [0x4D, 0x03], idle_tap [True, False, True, True, False, False, True, False, True, True])"
  by code_simp

lemma shift_dr_returns_tdo_witness:
  "\<exists>d. fst (sim_phys d) = SHIFT_DR \<and> (\<forall>i. buf_bit [0x4D, 0x03] i \<longleftrightarrow> i < 10 \<and> sim_level d i)"
  using shift_dr_returns_tdo [OF shift_dr_run sim_link_drives sim_link_replies idle_tap_sync(1)]
  by (simp add: readable_def bytes_for_def)

text \<open>\<open>shiftIR\<close> and the write-only \<open>shiftDR\<close> never leave the software state and the physical TAP
  apart: after a success both are in Run-Test/Idle.\<close>

theorem shifts_keep_sync:
  assumes "drives_tap L phys" and "in_sync phys t" and "readable xs n"
    and "shift_ir L xs (int n) t = Some (True, t') \<or> shift_dr_write L xs (int n) t = Some (True, t')"
  shows "tap_st t' = RUN_TEST_IDLE \<and> fst (phys (tap_dev t')) = RUN_TEST_IDLE \<and> in_sync phys t'"
proof -
  have "tap_st t' = RUN_TEST_IDLE \<and> in_sync phys t'"
    using assms(4)
  proof
    assume "shift_ir L xs (int n) t = Some (True, t')"
    from shift_ir_ok [OF this assms(1-3)] show ?thesis by simp
  next
    assume "shift_dr_write L xs (int n) t = Some (True, t')"
    from shift_dr_write_ok [OF this assms(1-3)] show ?thesis by simp
  qed
  then show ?thesis by (simp add: in_sync_def)
qed

lemma shift_ir_run: "shift_ir sim_link (Some [0x09]) (int 6) (idle_tap []) = Some (True, idle_tap [])"
  by code_simp

lemma shifts_keep_sync_witness: "in_sync sim_phys (idle_tap [])"
  using shifts_keep_sync [OF sim_link_drives idle_tap_sync(1), of "Some [0x09]" 6 "[]" "idle_tap []"]
    shift_ir_run
  by (simp add: readable_def bytes_for_def)

text \<open>\<open>reset\<close> brings the TAP and the software state to Run-Test/Idle from whatever states the
  two were in before: it is how the controller gets back in step.\<close>

theorem reset_resynchronises:
  assumes "tap_reset L t = (True, t')" and "drives_tap L phys"
  shows "tap_st t' = RUN_TEST_IDLE \<and> in_sync phys t'"
  using tap_reset_ok [OF assms] by (simp add: in_sync_def)

lemma reset_run:
  "tap_reset sim_link \<lparr>tap_st = PAUSE_IR, tap_error = [], tap_dev = \<lparr>sim_phys = (CAPTURE_DR, True), sim_tdo = []\<rparr>\<rparr>
     = (True, idle_tap [])"
  by code_simp

lemma reset_resynchronises_witness: "tap_st (idle_tap []) = RUN_TEST_IDLE \<and> in_sync sim_phys (idle_tap [])"
  by (rule reset_resynchronises [OF reset_run sim_link_drives])

text \<open>C6: \<open>gotoState\<close> reaches its target, in software and in the TAP, for every pair of states except
  Capture-DR, Shift-DR and Pause-DR to Exit2-IR.  For these three it also reports success, with the
  software state set to Exit2-IR, but the TAP is in Test-Logic-Reset.\<close>

theorem goto_state_outcome:
  assumes "tap_goto L target t = (True, t')" and "drives_tap L phys" and "in_sync phys t"
  shows "tap_st t' = target \<and>
         fst (phys (tap_dev t')) = (if too_far (tap_st t) target then TEST_LOGIC_RESET else target)"
proof (cases "too_far (tap_st t) target")
  case True
  with tap_goto_too_far_desync [OF assms True] show ?thesis by (simp add: too_far_def)
next
  case False
  with tap_goto_st [OF assms(1)] tap_goto_sync [OF assms False] show ?thesis by (simp add: in_sync_def)
qed

lemma goto_run:
  "tap_goto sim_link EXIT2_IR \<lparr>tap_st = SHIFT_DR, tap_error = [], tap_dev = \<lparr>sim_phys = (SHIFT_DR, False), sim_tdo = []\<rparr>\<rparr>
     = (True, \<lparr>tap_st = EXIT2_IR, tap_error = [], tap_dev = \<lparr>sim_phys = (TEST_LOGIC_RESET, True), sim_tdo = []\<rparr>\<rparr>)"
  by code_simp

lemma goto_state_outcome_witness:
  "fst (sim_phys \<lparr>sim_phys = (TEST_LOGIC_RESET, True), sim_tdo = []\<rparr>) = TEST_LOGIC_RESET"
  using goto_state_outcome [OF goto_run sim_link_drives] by (simp add: in_sync_def too_far_def)


lemma repeat_run:
  "shift_dr_repeat sim_link (int 2) (int 3) (Some [0]) [] (idle_tap [True, False, False, False, True])
     = Some (True, [1, 2], idle_tap [True, False, False, False, True])"
  by code_simp


text \<open>The output vector of \<open>shiftDR\<close> is not cleared: one that already has the right size keeps its old
  bits in the last, partial byte, or-ed with the new ones.\<close>

lemma shift_dr_keeps_old_bits:
  "shift_dr sim_link (Some [0]) [0xFF] (int 4) (idle_tap []) = Some (True, [0xFF], idle_tap [])"
  by code_simp

end
