(* ===== verification/Ftdi.thy ===== *)
theory Ftdi
  imports Tap_Ops
begin

text \<open>
  \<open>FtdiDevice\<close> (src/src/ftdi/ftdi_device.cpp, the libftdi back end): opening, MPSSE set-up and the
  \<open>transfer\<close> every TAP operation goes through.  libftdi itself is not under src; its calls are the
  record \<open>ftdi_lib\<close>, over an abstract state of the adapter.  A read returns the count and the bytes
  it stored.  libftdi documents that a count is negative or at most the size that was passed;
  \<open>lib_ok\<close> says so, and a larger count is undefined behaviour of the caller (\<open>None\<close>).

  The locale \<open>probe_link\<close> is the contract \<open>TapController\<close> relies on: a successful transfer returns
  exactly the number of bytes the command buffer accounts for.  Under it \<open>shiftDRRepeat\<close> never
  runs short of TDO bytes.  \<open>FtdiDevice::transfer\<close> provides it for every library that is \<open>lib_ok\<close>
  or not, because a short read ends in the failure "Read timeout".
\<close>

section \<open>The library and the device\<close>

record 'h ftdi_lib =
  fl_set_interface :: "'h \<Rightarrow> nat \<Rightarrow> int \<times> 'h"
  fl_usb_open :: "'h \<Rightarrow> u16 \<Rightarrow> u16 \<Rightarrow> string \<Rightarrow> int \<times> 'h"
  fl_usb_close :: "'h \<Rightarrow> 'h"
  fl_set_bitmode :: "'h \<Rightarrow> byte \<Rightarrow> byte \<Rightarrow> int \<times> 'h"
  fl_set_latency :: "'h \<Rightarrow> nat \<Rightarrow> int \<times> 'h"
  fl_flush :: "'h \<Rightarrow> int \<times> 'h"
  fl_write :: "'h \<Rightarrow> byte list \<Rightarrow> int \<times> 'h"
  fl_read :: "'h \<Rightarrow> nat \<Rightarrow> int \<times> byte list \<times> 'h"
  fl_error :: "'h \<Rightarrow> string"

record 'h ftdi =
  fd_ctx :: 'h
  fd_open :: bool
  fd_error :: string

definition lib_ok :: "'h ftdi_lib \<Rightarrow> bool" where
  "lib_ok P \<longleftrightarrow>
     (\<forall>h xs. fst (fl_write P h xs) \<le> int (length xs)) \<and>
     (\<forall>h k n ys h'. fl_read P h k = (n, ys, h') \<longrightarrow> n \<le> int k \<and> (0 \<le> n \<longrightarrow> length ys = nat n))"

definition BITMODE_MPSSE :: byte where "BITMODE_MPSSE = 2"

definition ftdi_close :: "'h ftdi_lib \<Rightarrow> 'h ftdi \<Rightarrow> 'h ftdi" where
  "ftdi_close P d =
     (if \<not> fd_open d then d
      else d\<lparr>fd_ctx := fl_usb_close P (snd (fl_set_bitmode P (fd_ctx d) 0 0)), fd_open := False\<rparr>)"

definition ftdi_open ::
  "'h ftdi_lib \<Rightarrow> u16 \<Rightarrow> u16 \<Rightarrow> string \<Rightarrow> nat \<Rightarrow> 'h ftdi \<Rightarrow> bool \<times> 'h ftdi" where
  "ftdi_open P vendor_id product_id serial iface d0 =
     (let d = ftdi_close P d0
      in case fl_set_interface P (fd_ctx d) iface of (r, h1) \<Rightarrow>
        if r < 0 then (False, d\<lparr>fd_ctx := h1, fd_error := ''Failed to set interface: '' @ fl_error P h1\<rparr>)
        else case fl_usb_open P h1 vendor_id product_id serial of (r2, h2) \<Rightarrow>
          if r2 < 0 then (False, d\<lparr>fd_ctx := h2, fd_error := ''Failed to open device: '' @ fl_error P h2\<rparr>)
          else (True, d\<lparr>fd_ctx := h2, fd_open := True\<rparr>))"

definition purge_buffers :: "'h ftdi_lib \<Rightarrow> 'h ftdi \<Rightarrow> bool \<times> 'h ftdi" where
  "purge_buffers P d =
     (case fl_flush P (fd_ctx d) of (r, h) \<Rightarrow>
        if r < 0 then (False, d\<lparr>fd_ctx := h, fd_error := ''Purge failed: '' @ fl_error P h\<rparr>)
        else (True, d\<lparr>fd_ctx := h\<rparr>))"

section \<open>Transfers\<close>

datatype 'a read_result = Read_Done 'a | Read_Error 'a | Read_Overrun

text \<open>The write loop: until all bytes are taken, an error, or a write of nothing.\<close>

function write_loop :: "'h ftdi_lib \<Rightarrow> 'h \<Rightarrow> byte list \<Rightarrow> (string option \<times> 'h) option" where
  "write_loop P h xs =
     (if xs = [] then Some (None, h)
      else case fl_write P h xs of (n, h1) \<Rightarrow>
        if n < 0 then Some (Some (''Write failed: '' @ fl_error P h1), h1)
        else if n = 0 then Some (Some ''Write stalled'', h1)
        else if int (length xs) < n then None
        else write_loop P h1 (drop (nat n) xs))"
  by pat_completeness auto
termination
  by (relation "measure (\<lambda>(_, _, xs). length xs)") (auto simp: length_greater_0_conv)

declare write_loop.simps [simp del]

text \<open>The read loop: at most \<open>retries\<close> reads; the result is the prefix of the buffer that was filled.\<close>

fun read_loop ::
  "'h ftdi_lib \<Rightarrow> nat \<Rightarrow> nat \<Rightarrow> byte list \<Rightarrow> 'h \<Rightarrow> (byte list \<times> 'h) read_result" where
  "read_loop P 0 expected acc h = Read_Done (acc, h)"
| "read_loop P (Suc retries) expected acc h =
     (if length acc < expected then
        (case fl_read P h (expected - length acc) of (n, ys, h1) \<Rightarrow>
           if n < 0 then Read_Error (acc, h1)
           else if int (expected - length acc) < n \<or> length ys \<noteq> nat n then Read_Overrun
           else read_loop P retries expected (acc @ ys) h1)
      else Read_Done (acc, h))"

definition read_timeout_msg :: "nat \<Rightarrow> nat \<Rightarrow> string" where
  "read_timeout_msg got expected =
     ''Read timeout: got '' @ dec_digits got @ '' of '' @ dec_digits expected @ '' bytes''"

definition fill_buf :: "nat \<Rightarrow> byte list \<Rightarrow> byte list" where
  "fill_buf n xs = xs @ replicate (n - length xs) 0"

definition ftdi_transfer ::
  "'h ftdi_lib \<Rightarrow> 'h ftdi \<Rightarrow> mpsse_buf \<Rightarrow> (bool \<times> byte list \<times> 'h ftdi) option" where
  "ftdi_transfer P d cmd_buf =
     (if \<not> fd_open d then Some (False, [], d\<lparr>fd_error := ''Device not open''\<rparr>)
      else if cmd_buffer cmd_buf = [] then Some (True, [], d)
      else case write_loop P (fd_ctx d) (cmd_buffer cmd_buf) of
        None \<Rightarrow> None
      | Some (Some e, h1) \<Rightarrow> Some (False, [], d\<lparr>fd_ctx := h1, fd_error := e\<rparr>)
      | Some (None, h1) \<Rightarrow>
          let expected = expected_read_bytes cmd_buf in
          if expected = 0 then Some (True, [], d\<lparr>fd_ctx := h1\<rparr>)
          else (case read_loop P 200 expected [] h1 of
              Read_Overrun \<Rightarrow> None
            | Read_Error (acc, h2) \<Rightarrow>
                Some (False, fill_buf expected acc,
                      d\<lparr>fd_ctx := h2, fd_error := ''Read failed: '' @ fl_error P h2\<rparr>)
            | Read_Done (acc, h2) \<Rightarrow>
                if length acc < expected
                then Some (False, fill_buf expected acc,
                       d\<lparr>fd_ctx := h2, fd_error := read_timeout_msg (length acc) expected\<rparr>)
                else Some (True, acc, d\<lparr>fd_ctx := h2\<rparr>)))"

definition ftdi_write :: "'h ftdi_lib \<Rightarrow> 'h ftdi \<Rightarrow> mpsse_buf \<Rightarrow> (bool \<times> 'h ftdi) option" where
  "ftdi_write P d cmd_buf = map_option (\<lambda>(ok, _, d'). (ok, d')) (ftdi_transfer P d cmd_buf)"

section \<open>Initialising the MPSSE engine\<close>

definition sync_mpsse :: "'h ftdi_lib \<Rightarrow> 'h ftdi \<Rightarrow> (bool \<times> 'h ftdi) option" where
  "sync_mpsse P d =
     (case fl_write P (fd_ctx d) [BAD_COMMAND] of (n, h1) \<Rightarrow>
        if n < 0 then Some (False, d\<lparr>fd_ctx := h1, fd_error := ''MPSSE sync: write failed''\<rparr>)
        else (case read_loop P 50 2 [] h1 of
            Read_Overrun \<Rightarrow> None
          | Read_Error (acc, h2) \<Rightarrow> Some (False, d\<lparr>fd_ctx := h2, fd_error := ''MPSSE sync: read failed''\<rparr>)
          | Read_Done (acc, h2) \<Rightarrow>
              if length acc < 2 \<or> acc ! 0 \<noteq> 0xFA
              then Some (False, d\<lparr>fd_ctx := h2, fd_error := ''MPSSE sync failed''\<rparr>)
              else Some (True, d\<lparr>fd_ctx := h2\<rparr>)))"

text \<open>TCK = 60 MHz / ((1 + divisor) * 2), for a requested frequency.\<close>

definition clock_divisor :: "u32 \<Rightarrow> u16" where
  "clock_divisor clock_freq_hz =
     (if 0 < clock_freq_hz \<and> clock_freq_hz < 30000000
      then let raw = (30000000 div clock_freq_hz) - 1
           in if 0xFFFF < raw then 0xFFFF else ucast raw
      else 0)"

definition init_cmd :: "u32 \<Rightarrow> mpsse_buf" where
  "init_cmd clock_freq_hz =
     set_low_bits 0x88 0x8B
       (set_clock_divisor (clock_divisor clock_freq_hz)
         (disable_loopback (disable_3_phase_clocking (disable_clock_divide5 mpsse_empty))))"

definition init_mpsse :: "'h ftdi_lib \<Rightarrow> u32 \<Rightarrow> 'h ftdi \<Rightarrow> (bool \<times> 'h ftdi) option" where
  "init_mpsse P clock_freq_hz d =
     (if \<not> fd_open d then Some (False, d\<lparr>fd_error := ''Device not open''\<rparr>)
      else case fl_set_bitmode P (fd_ctx d) 0 0 of (r1, h1) \<Rightarrow>
        if r1 < 0 then Some (False, d\<lparr>fd_ctx := h1, fd_error := ''Reset bitmode failed: '' @ fl_error P h1\<rparr>)
        else case fl_set_latency P h1 2 of (r2, h2) \<Rightarrow>
        if r2 < 0 then Some (False, d\<lparr>fd_ctx := h2, fd_error := ''Set latency failed: '' @ fl_error P h2\<rparr>)
        else case purge_buffers P (d\<lparr>fd_ctx := h2\<rparr>) of (ok3, d3) \<Rightarrow>
        if \<not> ok3 then Some (False, d3)
        else case fl_set_bitmode P (fd_ctx d3) 0 BITMODE_MPSSE of (r4, h4) \<Rightarrow>
        if r4 < 0 then Some (False, d3\<lparr>fd_ctx := h4, fd_error := ''Enable MPSSE failed: '' @ fl_error P h4\<rparr>)
        else case purge_buffers P (d3\<lparr>fd_ctx := h4\<rparr>) of (ok5, d5) \<Rightarrow>
        if \<not> ok5 then Some (False, d5)
        else (case sync_mpsse P d5 of
            None \<Rightarrow> None
          | Some (ok6, d6) \<Rightarrow>
              if \<not> ok6 then Some (False, d6) else ftdi_write P d6 (init_cmd clock_freq_hz)))"

section \<open>What a transfer guarantees\<close>

lemma read_loop_length:
  "read_loop P r n acc h = Read_Done (acc', h') \<Longrightarrow> length acc \<le> n \<Longrightarrow> length acc' \<le> n"
proof (induction r arbitrary: acc h)
  case (Suc r)
  then show ?case by (auto split: if_splits prod.splits)
qed simp

lemma read_loop_no_overrun:
  assumes "lib_ok P"
  shows "read_loop P r n acc h \<noteq> Read_Overrun"
proof (induction r arbitrary: acc h)
  case (Suc r)
  obtain k ys h1 where rd: "fl_read P h (n - length acc) = (k, ys, h1)" by (cases "fl_read P h (n - length acc)")
  with assms have "k \<le> int (n - length acc)" "0 \<le> k \<longrightarrow> length ys = nat k"
    unfolding lib_ok_def by blast+
  with Suc rd show ?case by auto
qed simp

text \<open>\<open>delivered\<close> is what the adapter has accepted so far; \<open>lib_log\<close> says writes append to it.\<close>

definition lib_log :: "'h ftdi_lib \<Rightarrow> ('h \<Rightarrow> byte list) \<Rightarrow> bool" where
  "lib_log P delivered \<longleftrightarrow>
     (\<forall>h xs n h'. fl_write P h xs = (n, h') \<longrightarrow> delivered h' = delivered h @ take (nat n) xs) \<and>
     (\<forall>h k n ys h'. fl_read P h k = (n, ys, h') \<longrightarrow> delivered h' = delivered h)"

lemma write_loop_cases:
  assumes "lib_ok P"
  shows "\<exists>r h'. write_loop P h xs = Some (r, h') \<and>
           (lib_log P delivered \<longrightarrow> r = None \<longrightarrow> delivered h' = delivered h @ xs)"
proof (induction "length xs" arbitrary: h xs rule: less_induct)
  case less
  obtain n h1 where wr: "fl_write P h xs = (n, h1)" by fastforce
  have n: "n \<le> int (length xs)" using assms wr unfolding lib_ok_def by (metis fst_conv)
  consider "xs = []" | "xs \<noteq> []" "n \<le> 0" | "xs \<noteq> []" "0 < n" by linarith
  then show ?case
  proof cases
    case 3
    then have "length (drop (nat n) xs) < length xs" by simp
    from less [OF this, of h1] obtain r h' where IH: "write_loop P h1 (drop (nat n) xs) = Some (r, h')"
      "lib_log P delivered \<longrightarrow> r = None \<longrightarrow> delivered h' = delivered h1 @ drop (nat n) xs" by auto
    have "delivered h1 = delivered h @ take (nat n) xs" if "lib_log P delivered"
      using that wr unfolding lib_log_def by blast
    with IH 3 n wr show ?thesis by (subst (1) write_loop.simps) auto
  qed (subst (1) write_loop.simps, use wr in auto)+
qed

lemma read_loop_log:
  assumes "lib_log P delivered"
  shows "read_loop P r n acc h = Read_Done (acc', h') \<Longrightarrow> delivered h' = delivered h"
proof (induction r arbitrary: acc h)
  case (Suc r)
  have "delivered h1 = delivered h" if "fl_read P h k = (m, ys, h1)" for k m ys h1
    using assms that unfolding lib_log_def by blast
  with Suc show ?case by (auto split: if_splits prod.splits)
qed simp

lemma ftdi_transfer_defined: "lib_ok P \<Longrightarrow> ftdi_transfer P d cmd \<noteq> None"
  using write_loop_cases [of P "fd_ctx d" "cmd_buffer cmd"] read_loop_no_overrun [of P 200]
  by (auto simp: ftdi_transfer_def Let_def split: read_result.splits option.splits)

lemma ftdi_transfer_length:
  assumes "ftdi_transfer P d cmd = Some (True, raw, d')" and "cmd_buffer cmd \<noteq> []"
  shows "length raw = expected_read_bytes cmd"
  using assms read_loop_length [of P 200 "expected_read_bytes cmd" "[]"]
  by (fastforce simp: ftdi_transfer_def Let_def split: option.splits if_splits read_result.splits prod.splits)

lemma ftdi_transfer_delivers:
  assumes "ftdi_transfer P d cmd = Some (True, raw, d')" and "lib_ok P" and "lib_log P delivered"
  shows "delivered (fd_ctx d') = delivered (fd_ctx d) @ cmd_buffer cmd"
proof -
  from write_loop_cases [OF assms(2), of "fd_ctx d" "cmd_buffer cmd" delivered] assms(3)
  obtain r h1 where w: "write_loop P (fd_ctx d) (cmd_buffer cmd) = Some (r, h1)"
    "r = None \<longrightarrow> delivered h1 = delivered (fd_ctx d) @ cmd_buffer cmd" by auto
  with assms(1) read_loop_log [OF assms(3), of 200 "expected_read_bytes cmd" "[]" h1] show ?thesis
    by (auto simp: ftdi_transfer_def Let_def split: option.splits if_splits read_result.splits prod.splits)
qed

section \<open>The contract of the TAP controller\<close>

locale probe_link =
  fixes L :: "'d link"
  assumes reply_length:
    "lk_transfer L d cmd = (True, raw, d') \<Longrightarrow> cmd_buffer cmd \<noteq> [] \<Longrightarrow> length raw = expected_read_bytes cmd"
begin

lemma unpack_many_fits:
  "0 < n \<Longrightarrow> idx + k * scan_raw n \<le> length raw \<Longrightarrow> \<exists>flat'. unpack_many n k out raw idx flat = Inr flat'"
proof (induction k arbitrary: out idx flat)
  case (Suc k)
  have "\<exists>flat1. unpack_one n out raw idx flat = Inr (idx + scan_raw n, flat1)"
  proof -
    have "idx + scan_raw n \<le> length raw" using Suc.prems by simp
    then show ?thesis
      by (cases "(n - 1) mod 8 = 0") (auto simp: unpack_one_def scan_raw_def Let_def)
  qed
  with Suc show ?case by fastforce
qed simp

lemma repeat_fails_with_link:
  "repeat_chunks L count n tdi start flat t = Some (False, u, t') \<Longrightarrow> 0 < n \<Longrightarrow> readable tdi n
     \<Longrightarrow> tap_error t' = lk_error L (tap_dev t')"
proof (induction "count - start" arbitrary: start flat t rule: less_induct)
  case less
  note n = less.prems(2) and tdi = less.prems(3)
  define k where "k = min kChunk (count - start)"
  let ?rs = "rounds k (ptr_bytes tdi) n"
  let ?cmd = "send_immediate (append_cmds ?rs mpsse_empty)"
  show ?case
  proof (cases "start < count")
    case True
    have cmd: "repeat_cmds tdi n (compute_tms_path RUN_TEST_IDLE SHIFT_DR)
        (compute_tms_path EXIT1_DR RUN_TEST_IDLE) k mpsse_empty = Some (append_cmds ?rs mpsse_empty)"
      by (simp add: compute_tms_path_idle_shift repeat_cmds_cmds [OF n tdi])
    obtain ok raw d where tr: "lk_transfer L (tap_dev t) ?cmd = (ok, raw, d)"
      by (cases "lk_transfer L (tap_dev t) ?cmd")
    show ?thesis
    proof (cases ok)
      case False
      with less.prems(1) True cmd tr show ?thesis
        by (subst (asm) repeat_chunks.simps) (auto simp: Let_def k_def [symmetric])
    next
      case ok: True
      have "cmd_buffer ?cmd \<noteq> []" by (simp add: send_immediate_def append_byte_def)
      with reply_length [of "tap_dev t" ?cmd raw d] tr ok have "length raw = expected_read_bytes ?cmd" by simp
      also have "\<dots> = k * scan_raw n"
        by (simp add: send_immediate_def append_byte_def append_cmds_empty round_counts [OF n tdi])
      finally obtain flat' where un: "unpack_many n k (start * bytes_for n) raw 0 flat = Inr flat'"
        using unpack_many_fits [OF n, of 0 k raw] by auto
      have "repeat_chunks L count n tdi (start + kChunk) flat' (t\<lparr>tap_dev := d\<rparr>) = Some (False, u, t')"
        using less.prems(1) True cmd tr ok un
        by (subst (asm) repeat_chunks.simps) (simp add: Let_def k_def [symmetric])
      moreover have "count - (start + kChunk) < count - start" using True by (simp add: kChunk_def)
      ultimately show ?thesis using less.hyps n tdi by blast
    qed
  next
    case False
    with less.prems(1) show ?thesis by (subst (asm) repeat_chunks.simps) simp
  qed
qed

end

text \<open>\<open>FtdiDevice::transfer\<close> as the probe of a TAP controller.\<close>

definition ftdi_link :: "'h ftdi_lib \<Rightarrow> 'h ftdi link" where
  "ftdi_link P =
     \<lparr>lk_transfer = (\<lambda>d cmd. case ftdi_transfer P d cmd of None \<Rightarrow> (False, [], d) | Some r \<Rightarrow> r),
      lk_error = fd_error\<rparr>"

interpretation ftdi: probe_link "ftdi_link P" for P :: "'h ftdi_lib"
  by unfold_locales (auto simp: ftdi_link_def split: option.splits intro: ftdi_transfer_length)

section \<open>Properties\<close>


text \<open>A library that takes at most 3 bytes per write and answers reads with zeros.\<close>

definition toy_lib :: "byte list ftdi_lib" where
  "toy_lib =
     \<lparr>fl_set_interface = (\<lambda>h _. (0, h)), fl_usb_open = (\<lambda>h _ _ _. (0, h)), fl_usb_close = id,
      fl_set_bitmode = (\<lambda>h _ _. (0, h)), fl_set_latency = (\<lambda>h _. (0, h)), fl_flush = (\<lambda>h. (0, h)),
      fl_write = (\<lambda>h xs. (int (min 3 (length xs)), h @ take 3 xs)),
      fl_read = (\<lambda>h k. (int k, replicate k 0, h)), fl_error = (\<lambda>_. [])\<rparr>"

lemma toy_lib_ok: "lib_ok toy_lib" "lib_log toy_lib id"
  by (auto simp: lib_ok_def lib_log_def toy_lib_def min_def)


text \<open>With the probe's contract, \<open>shiftDRRepeat\<close> over an FTDI device fails only when a transfer
  fails: none of its three underrun errors can occur.\<close>

theorem repeat_never_underruns:
  assumes "shift_dr_repeat (ftdi_link P) count (int n) tdi flat t = Some (False, u, t')"
    and "readable tdi n"
  shows "tap_error t' = fd_error (tap_dev t')"
proof -
  have n: "0 < n" "0 < count" using assms(1) by (auto simp: shift_dr_repeat_def split: if_splits)
  with assms(1) have "repeat_chunks (ftdi_link P) (nat count) n tdi 0 (replicate (nat count * bytes_for n) 0) t
      = Some (False, u, t')"
    by (simp add: shift_dr_repeat_def)
  from ftdi.repeat_fails_with_link [OF this n(1) assms(2)] show ?thesis by (simp add: ftdi_link_def)
qed

lemma repeat_closed_run:
  "shift_dr_repeat (ftdi_link toy_lib) 2 (int 4) (Some [0]) []
     \<lparr>tap_st = RUN_TEST_IDLE, tap_error = [], tap_dev = \<lparr>fd_ctx = [], fd_open = False, fd_error = []\<rparr>\<rparr>
   = Some (False, [0, 0], \<lparr>tap_st = RUN_TEST_IDLE, tap_error = ''Device not open'',
       tap_dev = \<lparr>fd_ctx = [], fd_open = False, fd_error = ''Device not open''\<rparr>\<rparr>)"
  by code_simp

lemma repeat_never_underruns_witness:
  "\<exists>u t'. shift_dr_repeat (ftdi_link toy_lib) 2 (int 4) (Some [0]) []
     \<lparr>tap_st = RUN_TEST_IDLE, tap_error = [], tap_dev = \<lparr>fd_ctx = [], fd_open = False, fd_error = []\<rparr>\<rparr>
     = Some (False, u, t') \<and> tap_error t' = fd_error (tap_dev t')"
  using repeat_closed_run repeat_never_underruns [OF repeat_closed_run] by (simp add: readable_def)

text \<open>The clock divisor is the largest one whose TCK, 30 MHz / (1 + divisor), is not below the
  requested frequency, clamped to 16 bits: TCK is never slower than asked for, but may be faster.\<close>

theorem clock_divisor_bounds:
  assumes "0 < f" and "f \<le> 30000000"
  shows "(1 + unat (clock_divisor f)) * unat f \<le> 30000000 \<and>
         (30000000 < (2 + unat (clock_divisor f)) * unat f \<or> unat (clock_divisor f) = 65535)"
proof (cases "f = 30000000")
  case True
  then show ?thesis by (simp add: clock_divisor_def)
next
  case False
  define q where "q = 30000000 div unat f"
  have f: "0 < unat f" "unat f < 30000000"
  proof -
    show "0 < unat f" using assms(1) by (simp add: word_less_nat_alt)
    have "f < 30000000" using assms(2) False by (rule order_neq_le_trans [rotated])
    then show "unat f < 30000000" by (simp add: word_less_nat_alt)
  qed
  have q1: "q * unat f \<le> 30000000" unfolding q_def by (rule div_times_less_eq_dividend)
  have q2: "30000000 < (q + 1) * unat f"
    using dividend_less_div_times [OF f(1), of 30000000] unfolding q_def distrib_right by linarith
  have q3: "1 \<le> q" using q2 f(2) by (cases q) auto
  note q = q1 q2 q3
  have raw: "unat ((30000000 :: u32) div f - 1) = q - 1"
  proof -
    have "unat ((30000000 :: u32) div f) = q" by (simp add: unat_div q_def)
    moreover from this have "(1 :: u32) \<le> 30000000 div f" using q3 by (simp add: word_le_nat_alt)
    ultimately show ?thesis by (simp add: unat_sub)
  qed
  have lt: "f < 30000000" using f(2) by (simp add: word_less_nat_alt)
  show ?thesis
  proof (cases "0xFFFF < (30000000 :: u32) div f - 1")
    case True
    then have "65535 < q - 1" using raw by (simp add: word_less_nat_alt)
    then have "65536 * unat f \<le> q * unat f" by (intro mult_le_mono1) simp
    with q1 have "65536 * unat f \<le> 30000000" by linarith
    moreover have "unat (clock_divisor f) = 65535"
      using True assms(1) lt by (simp add: clock_divisor_def Let_def)
    ultimately show ?thesis by simp
  next
    case False
    then have le: "q - 1 \<le> 65535" using raw by (simp add: word_less_nat_alt)
    then have "unat (clock_divisor f) = q - 1"
      using False assms(1) lt raw by (simp add: clock_divisor_def Let_def unsigned_ucast_eq take_bit_eq_mod)
    with q show ?thesis by (simp add: algebra_simps)
  qed
qed

lemma clock_divisor_bounds_witness: "(1 + unat (clock_divisor 7000000)) * 7000000 \<le> 30000000"
  using clock_divisor_bounds [of 7000000] by simp

end
