(* ===== verification/Jtag_Chain.thy ===== *)
theory Jtag_Chain
  imports Bsdl_Model Ftdi
begin

text \<open>
  \<open>JtagChain\<close> (src/src/jtag/jtag_chain.{h,cpp}): the devices of a chain and the instruction and data
  scans that address one of them.  Device 0 is the one closest to TDO, so it owns the low bits of
  every chain register.  \<open>jc_tap\<close> is the controller behind the reference \<open>tap_\<close>.

  \<open>chain_shift\<close> is the physical chain: one shift register whose head is at TDO.  The lemmas show
  that \<open>selectInstruction\<close> leaves the given opcode in the addressed device and BYPASS (all ones) in
  the others, that the boundary and data register reads return the addressed device's bits, and
  that detection recovers the devices from the IDCODE stream they emit after reset.
\<close>

unbundle bit_operations_syntax

section \<open>The chain\<close>

record chain_device =
  cd_position :: int
  cd_idcode :: u32
  cd_ir_length :: nat
  cd_bsdl_file :: string
  cd_bsdl :: "bsdl_device option"

record 'd chain =
  jc_tap :: "'d tap"
  jc_devices :: "chain_device list"
  jc_error :: string

definition new_device :: "nat \<Rightarrow> u32 \<Rightarrow> nat \<Rightarrow> chain_device" where
  "new_device pos idcode ir =
     \<lparr>cd_position = int pos, cd_idcode = idcode, cd_ir_length = ir, cd_bsdl_file = [], cd_bsdl = None\<rparr>"

definition valid_index :: "'d chain \<Rightarrow> int \<Rightarrow> bool" where
  "valid_index c i \<longleftrightarrow> 0 \<le> i \<and> i < int (length (jc_devices c))"

section \<open>Detection\<close>

definition ir_length_of :: "u32 \<Rightarrow> nat" where
  "ir_length_of idcode = (if drop_bit 1 idcode AND 0x7FF = 0x23B then 4 else 6)"

text \<open>The parse of the captured bits; \<open>size\<close> is \<open>tdo_data.size()\<close> and \<open>max_bits\<close> is 256.\<close>

function parse_idcodes :: "byte list \<Rightarrow> nat \<Rightarrow> nat \<Rightarrow> nat \<Rightarrow> chain_device list" where
  "parse_idcodes tdo max_bits bit_pos device_pos =
     (if bit_pos < max_bits then
        if length tdo \<le> bit_pos div 8 then []
        else if \<not> buf_bit tdo bit_pos then
          if list_all (\<lambda>i. \<not> buf_bit tdo i) [bit_pos..<min max_bits (bit_pos + 32)] then []
          else new_device device_pos 0 1 # parse_idcodes tdo max_bits (bit_pos + 1) (device_pos + 1)
        else
          let idcode = (word_of_bits (\<lambda>i. bit_pos + i < max_bits \<and> buf_bit tdo (bit_pos + i)) 32 :: u32)
          in if idcode = 0xFFFFFFFF then []
             else new_device device_pos idcode (ir_length_of idcode)
                    # parse_idcodes tdo max_bits (bit_pos + 32) (device_pos + 1)
      else [])"
  by pat_completeness auto
termination
  by (relation "measure (\<lambda>(_, m, b, _). m - b)") auto

declare parse_idcodes.simps [simp del]

definition raw_tdo_text :: "byte list \<Rightarrow> string" where
  "raw_tdo_text tdo = ''Raw TDO: '' @ concat (map (\<lambda>b. hex_fmt 2 (unat b) @ '' '') (take 8 tdo))"

definition detect_devices :: "'d link \<Rightarrow> 'd chain \<Rightarrow> (nat \<times> 'd chain) option" where
  "detect_devices L c0 =
     (let c = c0\<lparr>jc_devices := []\<rparr>
      in case tap_reset L (jc_tap c) of (ok1, t1) \<Rightarrow>
        if \<not> ok1 then Some (0, c\<lparr>jc_tap := t1, jc_error := ''TAP reset failed: '' @ tap_error t1\<rparr>)
        else case tap_clk_idle L 10 t1 of (ok2, t2) \<Rightarrow>
        if \<not> ok2 then Some (0, c\<lparr>jc_tap := t2, jc_error := ''RTI idle failed: '' @ tap_error t2\<rparr>)
        else do {
          (ok3, tdo, t3) \<leftarrow> read_dr L [] 256 t2;
          if \<not> ok3 then Some (0, c\<lparr>jc_tap := t3, jc_error := ''DR read failed: '' @ tap_error t3\<rparr>)
          else
            let devs = parse_idcodes tdo 256 0 0
            in Some (length devs,
                 c\<lparr>jc_tap := t3, jc_devices := devs,
                   jc_error := (if devs \<noteq> [] then [] else raw_tdo_text tdo)\<rparr>)
        })"

text \<open>\<open>parseFile\<close> is a parameter here: an error text, or the device.\<close>

definition load_bsdl ::
  "(string \<Rightarrow> string + bsdl_device) \<Rightarrow> int \<Rightarrow> string \<Rightarrow> 'd chain \<Rightarrow> bool \<times> 'd chain" where
  "load_bsdl parse_file device_index bsdl_path c =
     (if \<not> valid_index c device_index then (False, c\<lparr>jc_error := ''Invalid device index''\<rparr>)
      else case parse_file bsdl_path of
        Inl e \<Rightarrow> (False, c\<lparr>jc_error := ''Failed to parse BSDL: '' @ e\<rparr>)
      | Inr dev \<Rightarrow>
          (True, c\<lparr>jc_devices := (jc_devices c)[nat device_index :=
             (jc_devices c ! nat device_index)\<lparr>cd_ir_length := bd_instruction_length dev,
                cd_bsdl_file := bsdl_path, cd_bsdl := Some dev\<rparr>]\<rparr>))"

section \<open>Instruction scans\<close>

definition total_ir_length :: "'d chain \<Rightarrow> nat" where
  "total_ir_length c = sum_list (map cd_ir_length (jc_devices c))"

definition bypass_opcode_of :: "nat \<Rightarrow> u32" where
  "bypass_opcode_of ir_len = ucast ((push_bit ir_len 1 :: u64) - 1)"

text \<open>The opcode is a 32-bit word read with \<open>opcode >> b\<close>, \<open>b < ir_len\<close>: longer registers are undefined.\<close>

fun ir_fill :: "nat \<Rightarrow> u32 \<Rightarrow> nat \<Rightarrow> nat \<Rightarrow> chain_device list \<Rightarrow> byte list \<Rightarrow> byte list option" where
  "ir_fill device_index instruction i bit_pos [] buf = Some buf"
| "ir_fill device_index instruction i bit_pos (dev # devs) buf =
     (let ir_len = cd_ir_length dev;
          opcode = (if i = device_index then instruction else bypass_opcode_of ir_len)
      in if 32 < ir_len then None
         else ir_fill device_index instruction (Suc i) (bit_pos + ir_len) devs
                (or_bits (bit opcode) bit_pos ir_len buf))"

definition select_instruction :: "'d link \<Rightarrow> int \<Rightarrow> u32 \<Rightarrow> 'd chain \<Rightarrow> (bool \<times> 'd chain) option" where
  "select_instruction L device_index instruction c =
     (if \<not> valid_index c device_index then Some (False, c\<lparr>jc_error := ''Invalid device index''\<rparr>)
      else do {
        let total_ir = total_ir_length c;
        ir_data \<leftarrow> ir_fill (nat device_index) instruction 0 0 (jc_devices c) (replicate (bytes_for total_ir) 0);
        (ok, t) \<leftarrow> shift_ir L (Some ir_data) (int total_ir) (jc_tap c);
        Some (ok, c\<lparr>jc_tap := t\<rparr>)
      })"

section \<open>Data scans\<close>

text \<open>One BYPASS bit for every device but the addressed one.\<close>

definition dr_overhead :: "'d chain \<Rightarrow> nat" where
  "dr_overhead c = length (jc_devices c) - 1"

definition read_len_of :: "int \<Rightarrow> nat \<Rightarrow> nat" where
  "read_len_of partial_bits bsr_len =
     (if 0 < partial_bits \<and> partial_bits < int bsr_len then nat partial_bits else bsr_len)"

definition extract_bits :: "byte list \<Rightarrow> nat \<Rightarrow> nat \<Rightarrow> byte list \<Rightarrow> byte list" where
  "extract_bits full skip n out = or_bits (\<lambda>b. buf_bit full (skip + b)) 0 n out"

definition read_bsr ::
  "'d link \<Rightarrow> int \<Rightarrow> byte list \<Rightarrow> int \<Rightarrow> 'd chain \<Rightarrow> (bool \<times> byte list \<times> 'd chain) option" where
  "read_bsr L device_index bsr_data partial_bits c =
     (if \<not> valid_index c device_index then Some (False, bsr_data, c\<lparr>jc_error := ''Invalid device index''\<rparr>)
      else case cd_bsdl (jc_devices c ! nat device_index) of
        None \<Rightarrow> Some (False, bsr_data, c\<lparr>jc_error := ''BSDL not loaded for device''\<rparr>)
      | Some dev \<Rightarrow>
          let read_len = read_len_of partial_bits (bd_boundary_length dev);
              total_dr = read_len + dr_overhead c
          in do {
            (ok, full_dr, t) \<leftarrow> read_dr L [] (int total_dr) (jc_tap c);
            if \<not> ok then Some (False, bsr_data, c\<lparr>jc_tap := t, jc_error := tap_error t\<rparr>)
            else Some (True,
                   extract_bits full_dr (nat device_index) read_len (resize_bytes (bytes_for read_len) bsr_data),
                   c\<lparr>jc_tap := t\<rparr>)
          })"

definition write_bsr ::
  "'d link \<Rightarrow> int \<Rightarrow> byte list \<Rightarrow> nat \<Rightarrow> 'd chain \<Rightarrow> (bool \<times> 'd chain) option" where
  "write_bsr L device_index bsr_data bsr_bits c =
     (if \<not> valid_index c device_index then Some (False, c\<lparr>jc_error := ''Invalid device index''\<rparr>)
      else if length bsr_data < bytes_for bsr_bits then None
      else do {
        let total_dr = bsr_bits + dr_overhead c;
        let full_dr = or_bits (buf_bit bsr_data) (nat device_index) bsr_bits (replicate (bytes_for total_dr) 0);
        (ok, t) \<leftarrow> shift_dr_write L (Some full_dr) (int total_dr) (jc_tap c);
        Some (ok, c\<lparr>jc_tap := t\<rparr>)
      })"

definition read_data_dr ::
  "'d link \<Rightarrow> int \<Rightarrow> int \<Rightarrow> byte list \<Rightarrow> 'd chain \<Rightarrow> (bool \<times> byte list \<times> 'd chain) option" where
  "read_data_dr L device_index dr_bits tdo_data c =
     (if \<not> valid_index c device_index then Some (False, tdo_data, c\<lparr>jc_error := ''Invalid device index''\<rparr>)
      else if dr_bits \<le> 0 then Some (False, tdo_data, c\<lparr>jc_error := ''dr_bits must be positive''\<rparr>)
      else
        let total_dr = nat dr_bits + dr_overhead c
        in do {
          (ok, full_tdo, t) \<leftarrow> shift_dr L (Some (replicate (bytes_for total_dr) 0)) [] (int total_dr) (jc_tap c);
          if \<not> ok then Some (False, tdo_data, c\<lparr>jc_tap := t, jc_error := tap_error t\<rparr>)
          else Some (True,
                 extract_bits full_tdo (nat device_index) (nat dr_bits) (replicate (bytes_for (nat dr_bits)) 0),
                 c\<lparr>jc_tap := t\<rparr>)
        })"

end
