(* ===== verification/Jtag_Chain_Props.thy ===== *)
theory Jtag_Chain_Props
  imports Jtag_Chain
begin

text \<open>
  What the chain scans of \<open>Jtag_Chain\<close> do to the registers of the devices.  The registers of all
  devices, selected by their instructions, form one shift register \<open>concat regs\<close> with device 0 at
  TDO; \<open>chain_shift\<close> clocks bits through it.
\<close>

unbundle bit_operations_syntax

section \<open>The chain as one shift register\<close>

fun chain_shift :: "bool list \<Rightarrow> bool list \<Rightarrow> bool list \<times> bool list" where
  "chain_shift reg [] = ([], reg)"
| "chain_shift reg (b # bs) =
     (case chain_shift (tl reg @ [b]) bs of (tdo, reg') \<Rightarrow> (hd reg # tdo, reg'))"

lemma chain_shift_eq:
  "reg \<noteq> [] \<Longrightarrow> chain_shift reg bs = (take (length bs) (reg @ bs), drop (length bs) (reg @ bs))"
proof (induction bs arbitrary: reg)
  case (Cons b bs)
  then obtain r rs where "reg = r # rs" by (cases reg) auto
  with Cons.IH [of "tl reg @ [b]"] show ?case by simp
qed simp

lemma chain_shift_full: "length bs = length reg \<Longrightarrow> chain_shift reg bs = (reg, bs)"
  by (cases "reg = []") (simp_all add: chain_shift_eq)

section \<open>Instruction scans\<close>

definition opcode_bits :: "nat \<Rightarrow> u32 \<Rightarrow> nat \<Rightarrow> chain_device \<Rightarrow> bool list" where
  "opcode_bits k instr i dev =
     (if i = k then map (bit instr) [0..<cd_ir_length dev] else replicate (cd_ir_length dev) True)"

fun ir_bits :: "nat \<Rightarrow> u32 \<Rightarrow> nat \<Rightarrow> chain_device list \<Rightarrow> bool list" where
  "ir_bits k instr i [] = []"
| "ir_bits k instr i (dev # devs) = opcode_bits k instr i dev @ ir_bits k instr (Suc i) devs"

lemma length_opcode_bits [simp]: "length (opcode_bits k instr i dev) = cd_ir_length dev"
  by (simp add: opcode_bits_def)

lemma length_ir_bits [simp]: "length (ir_bits k instr i devs) = sum_list (map cd_ir_length devs)"
  by (induction devs arbitrary: i) auto

lemma bit_bypass_opcode:
  assumes "n \<le> 32" and "b < n"
  shows "bit (bypass_opcode_of n) b"
proof -
  have "(push_bit n 1 :: u64) - 1 = mask n" by (simp add: mask_eq_exp_minus_1)
  with assms show ?thesis by (simp only: bypass_opcode_of_def bit_ucast_iff bit_mask_iff) simp
qed

lemma ir_fill_correct:
  "ir_fill k instr i pos devs buf = Some buf' \<Longrightarrow> pos + sum_list (map cd_ir_length devs) \<le> 8 * length buf \<Longrightarrow>
     length buf' = length buf \<and>
     (\<forall>x. buf_bit buf' x \<longleftrightarrow> buf_bit buf x \<or>
        (pos \<le> x \<and> x < pos + sum_list (map cd_ir_length devs) \<and> ir_bits k instr i devs ! (x - pos)))"
proof (induction devs arbitrary: i pos buf)
  case Nil
  then show ?case by auto
next
  case (Cons dev devs)
  define n where "n = cd_ir_length dev"
  define op where "op = (if i = k then instr else bypass_opcode_of n)"
  have n: "n \<le> 32" and rest: "ir_fill k instr (Suc i) (pos + n) devs (or_bits (bit op) pos n buf) = Some buf'"
    using Cons.prems(1) by (auto simp: Let_def n_def op_def split: if_splits)
  have len: "pos + n + sum_list (map cd_ir_length devs) \<le> 8 * length (or_bits (bit op) pos n buf)"
    using Cons.prems(2) by (simp add: n_def)
  note IH = Cons.IH [OF rest len]
  have op: "bit op j = opcode_bits k instr i dev ! j" if "j < n" for j
    using that n bit_bypass_opcode [OF n that] by (simp add: op_def opcode_bits_def n_def)
  have one: "buf_bit (or_bits (bit op) pos n buf) x \<longleftrightarrow>
      buf_bit buf x \<or> (pos \<le> x \<and> x < pos + n \<and> opcode_bits k instr i dev ! (x - pos))" for x
  proof -
    have "x div 8 < length buf" if "x < pos + n" using that len by simp
    moreover have "x - pos < n" if "pos \<le> x" "x < pos + n" using that by simp
    ultimately show ?thesis using op by (auto simp: buf_bit_or_bits)
  qed
  have nth: "ir_bits k instr i (dev # devs) ! (x - pos) =
      (if x < pos + n then opcode_bits k instr i dev ! (x - pos) else ir_bits k instr (Suc i) devs ! (x - (pos + n)))"
    if "pos \<le> x" for x
    using that by (auto simp: nth_append n_def)
  show ?case
  proof (intro conjI allI)
    show "length buf' = length buf" using IH by simp
    fix x
    have tot: "sum_list (map cd_ir_length (dev # devs)) = n + sum_list (map cd_ir_length devs)"
      by (simp add: n_def)
    consider "x < pos" | "pos \<le> x" "x < pos + n" | "pos + n \<le> x" by linarith
    then have "buf_bit buf' x \<longleftrightarrow> buf_bit buf x \<or>
        (pos \<le> x \<and> x < pos + (n + sum_list (map cd_ir_length devs)) \<and> ir_bits k instr i (dev # devs) ! (x - pos))"
    proof cases
      case 1
      then show ?thesis using IH one by auto
    next
      case 2
      then show ?thesis using IH one nth by auto
    next
      case 3
      then have "pos \<le> x" "\<not> x < pos + n" by auto
      then show ?thesis using IH one nth by (auto simp: add.assoc)
    qed
    then show "buf_bit buf' x \<longleftrightarrow> buf_bit buf x \<or>
        (pos \<le> x \<and> x < pos + sum_list (map cd_ir_length (dev # devs)) \<and> ir_bits k instr i (dev # devs) ! (x - pos))"
      by (simp only: tot)
  qed
qed

lemma select_instruction_data:
  assumes "select_instruction L k instr c = Some (ok, c')" and "valid_index c k"
  shows "\<exists>data. shift_ir L (Some data) (int (total_ir_length c)) (jc_tap c) = Some (ok, jc_tap c') \<and>
           length data = bytes_for (total_ir_length c) \<and> jc_devices c' = jc_devices c \<and>
           buf_bits data (total_ir_length c) = ir_bits (nat k) instr 0 (jc_devices c)"
proof -
  let ?n = "total_ir_length c"
  obtain data where d: "ir_fill (nat k) instr 0 0 (jc_devices c) (replicate (bytes_for ?n) 0) = Some data"
    and s: "shift_ir L (Some data) (int ?n) (jc_tap c) = Some (ok, jc_tap c')" and c: "jc_devices c' = jc_devices c"
    using assms by (auto simp: select_instruction_def Let_def split: bind_splits prod.splits)
  have fit: "0 + sum_list (map cd_ir_length (jc_devices c)) \<le> 8 * length (replicate (bytes_for ?n) (0 :: byte))"
    using bytes_for_ge [of ?n] by (simp add: total_ir_length_def)
  note fill = ir_fill_correct [OF d fit]
  have "buf_bits data ?n = ir_bits (nat k) instr 0 (jc_devices c)"
  proof (rule nth_equalityI)
    fix i assume "i < length (buf_bits data ?n)"
    then have "i < sum_list (map cd_ir_length (jc_devices c))" by (simp add: total_ir_length_def)
    with fill show "buf_bits data ?n ! i = ir_bits (nat k) instr 0 (jc_devices c) ! i"
      by (simp add: total_ir_length_def)
  qed (simp add: total_ir_length_def)
  with s fill c show ?thesis by auto
qed

section \<open>Data scans\<close>

lemma extract_bits_correct:
  assumes "n \<le> 8 * length out" and "\<And>i. \<not> buf_bit out i"
  shows "buf_bits (extract_bits full skip n out) n = map (\<lambda>b. buf_bit full (skip + b)) [0..<n]"
proof (rule nth_equalityI)
  fix i assume "i < length (buf_bits (extract_bits full skip n out) n)"
  then have "i < n" by simp
  moreover from this assms(1) have "i div 8 < length out" by simp
  ultimately show "buf_bits (extract_bits full skip n out) n ! i = map (\<lambda>b. buf_bit full (skip + b)) [0..<n] ! i"
    using assms(2) by (simp add: extract_bits_def buf_bit_or_bits)
qed simp

lemma concat_nth:
  "k < length xss \<Longrightarrow> b < length (xss ! k) \<Longrightarrow>
     concat xss ! (length (concat (take k xss)) + b) = xss ! k ! b"
proof (induction xss arbitrary: k)
  case (Cons xs xss)
  then show ?case by (cases k) (auto simp: nth_append)
qed simp

lemma concat_prefix_ones:
  "k < length xss \<Longrightarrow> (\<forall>j < k. length (xss ! j) = 1) \<Longrightarrow> length (concat (take k xss)) = k"
proof (induction xss arbitrary: k)
  case (Cons xs xss)
  show ?case
  proof (cases k)
    case (Suc m)
    then have "\<forall>j < m. length (xss ! j) = 1" "length xs = 1" using Cons.prems(2) by auto
    with Cons Suc show ?thesis by simp
  qed simp
qed simp

lemma length_concat_ones:
  assumes "k < length xss" and "\<forall>j < length xss. j \<noteq> k \<longrightarrow> length (xss ! j) = 1"
  shows "length (concat xss) = length (xss ! k) + (length xss - 1)"
proof -
  have ones: "length (concat ys) = length ys" if "\<forall>y \<in> set ys. length y = 1" for ys :: "'b list list"
    using that by (induction ys) auto
  have split: "xss = take k xss @ xss ! k # drop (Suc k) xss" using assms(1) by (rule id_take_nth_drop)
  have "\<forall>y \<in> set (take k xss). length y = 1"
    using assms by (auto simp: in_set_conv_nth)
  moreover have "\<forall>y \<in> set (drop (Suc k) xss). length y = 1"
    using assms by (auto simp: in_set_conv_nth)
  ultimately have "length (concat (take k xss @ xss ! k # drop (Suc k) xss)) = k + length (xss ! k) + (length xss - Suc k)"
    using ones [of "take k xss"] ones [of "drop (Suc k) xss"] assms(1)
    by (simp only: concat_append concat.simps length_append) simp
  with split assms(1) show ?thesis by simp
qed

lemma read_dr_tdo:
  assumes "read_dr L [] (int n) t = Some (True, u, t')"
    and "drives_tap L phys" and "replies_tdo L lvl" and "in_sync phys t"
  shows "length u = bytes_for n \<and> (\<exists>d. fst (phys d) = SHIFT_DR \<and> (\<forall>i. buf_bit u i \<longleftrightarrow> i < n \<and> lvl d i))"
    and "in_sync phys t'"
proof -
  let ?z = "Some (replicate (bytes_for n) (0 :: byte))"
  have s: "shift_dr L ?z [] (int n) t = Some (True, u, t')" using assms(1) by (simp add: read_dr_def)
  have r: "readable ?z n" by (simp add: readable_def)
  show "length u = bytes_for n \<and> (\<exists>d. fst (phys d) = SHIFT_DR \<and> (\<forall>i. buf_bit u i \<longleftrightarrow> i < n \<and> lvl d i))"
    by (rule shift_dr_tdo [OF s assms(2-4) r])
  show "in_sync phys t'" by (rule shift_dr_ok(2) [OF s assms(2,4) r])
qed

text \<open>\<open>shows_chain\<close>: in Shift-DR the TDO levels are the bits of the chain's registers, TDO end first.\<close>

definition shows_chain :: "('d \<Rightarrow> tap_state \<times> bool) \<Rightarrow> ('d \<Rightarrow> nat \<Rightarrow> bool) \<Rightarrow> bool list \<Rightarrow> bool" where
  "shows_chain phys lvl bs \<longleftrightarrow>
     (\<forall>d. fst (phys d) = SHIFT_DR \<longrightarrow> (\<forall>i < length bs. lvl d i = bs ! i))"

text \<open>The registers in the chain while device \<open>k\<close> shows its data register and the others BYPASS.\<close>

definition chain_regs :: "nat \<Rightarrow> nat \<Rightarrow> bool list list \<Rightarrow> bool" where
  "chain_regs n k regs \<longleftrightarrow> length regs = n \<and> k < n \<and> (\<forall>j < n. j \<noteq> k \<longrightarrow> length (regs ! j) = 1)"

lemma chain_regs_length:
  "chain_regs n k regs \<Longrightarrow> length (concat regs) = length (regs ! k) + (n - 1)"
  using length_concat_ones [of k regs] by (auto simp: chain_regs_def)

lemma chain_regs_nth:
  assumes "chain_regs n k regs" and "b < length (regs ! k)"
  shows "concat regs ! (k + b) = regs ! k ! b"
  using assms concat_nth [of k regs b] concat_prefix_ones [of k regs] by (auto simp: chain_regs_def)

lemma register_bits:
  assumes "\<forall>i. buf_bit full i \<longleftrightarrow> i < n + (ndev - 1) \<and> lvl d i" and "shows_chain phys lvl (concat regs)"
    and "fst (phys d) = SHIFT_DR" and "chain_regs ndev k regs" and "n \<le> length (regs ! k)"
  shows "map (\<lambda>b. buf_bit full (k + b)) [0..<n] = take n (regs ! k)"
proof (rule nth_equalityI)
  fix b assume "b < length (map (\<lambda>b. buf_bit full (k + b)) [0..<n])"
  then have b: "b < n" by simp
  have k: "k \<le> ndev - 1" using assms(4) by (auto simp: chain_regs_def)
  with b assms(5) have "k + b < length (concat regs)" "k + b < n + (ndev - 1)"
    unfolding chain_regs_length [OF assms(4)] by linarith+
  with assms(1-3) have "buf_bit full (k + b) = concat regs ! (k + b)" by (simp add: shows_chain_def)
  also have "\<dots> = regs ! k ! b" using chain_regs_nth [OF assms(4)] b assms(5) by simp
  finally show "map (\<lambda>b. buf_bit full (k + b)) [0..<n] ! b = take n (regs ! k) ! b" using b by simp
qed (use assms(5) in simp)

lemma extract_register:
  assumes "length full = bytes_for (n + (ndev - 1))" and "\<forall>i. buf_bit full i \<longleftrightarrow> i < n + (ndev - 1) \<and> lvl d i"
    and "shows_chain phys lvl (concat regs)" and "fst (phys d) = SHIFT_DR" and "chain_regs ndev k regs"
    and "n \<le> length (regs ! k)"
  shows "buf_bits (extract_bits full k n (replicate (bytes_for n) 0)) n = take n (regs ! k)"
  using extract_bits_correct [of n "replicate (bytes_for n) 0" full k] bytes_for_ge [of n]
    register_bits [OF assms(2-6)] by simp

lemma read_bsr_register:
  assumes "read_bsr L k [] partial c = Some (True, u, c')"
    and "drives_tap L phys" and "replies_tdo L lvl" and "in_sync phys (jc_tap c)"
    and "cd_bsdl (jc_devices c ! nat k) = Some dev"
    and "shows_chain phys lvl (concat regs)" and "chain_regs (length (jc_devices c)) (nat k) regs"
    and "length (regs ! nat k) = bd_boundary_length dev"
  shows "buf_bits u (read_len_of partial (bd_boundary_length dev))
           = take (read_len_of partial (bd_boundary_length dev)) (regs ! nat k)"
    and "length u = bytes_for (read_len_of partial (bd_boundary_length dev))"
    and "in_sync phys (jc_tap c')" and "jc_devices c' = jc_devices c"
proof -
  let ?n = "read_len_of partial (bd_boundary_length dev)"
  obtain full t where r: "read_dr L [] (int (?n + dr_overhead c)) (jc_tap c) = Some (True, full, t)"
    and u: "u = extract_bits full (nat k) ?n (replicate (bytes_for ?n) 0)" and c': "c' = c\<lparr>jc_tap := t\<rparr>"
    using assms(1,5)
    by (auto simp: read_bsr_def Let_def resize_bytes_def split: bind_splits prod.splits if_splits)
  from read_dr_tdo [OF r assms(2-4)] obtain d where full: "length full = bytes_for (?n + dr_overhead c)"
    "\<forall>i. buf_bit full i \<longleftrightarrow> i < ?n + dr_overhead c \<and> lvl d i" and d: "fst (phys d) = SHIFT_DR"
    and sync: "in_sync phys t" by auto
  have "?n \<le> length (regs ! nat k)" using assms(8) by (auto simp: read_len_of_def)
  from extract_register [OF full [unfolded dr_overhead_def] assms(6) d assms(7) this]
  show "buf_bits u ?n = take ?n (regs ! nat k)" unfolding u .
  show "length u = bytes_for ?n" by (simp add: u extract_bits_def)
  show "in_sync phys (jc_tap c')" "jc_devices c' = jc_devices c" using c' sync by simp_all
qed

text \<open>What \<open>writeBSR\<close> leaves in the registers.\<close>

lemma write_bsr_data:
  assumes "write_bsr L k bsr n c = Some (ok, c')" and "valid_index c k"
  shows "\<exists>data. shift_dr_write L (Some data) (int (n + dr_overhead c)) (jc_tap c) = Some (ok, jc_tap c') \<and>
           length data = bytes_for (n + dr_overhead c) \<and> jc_devices c' = jc_devices c \<and>
           buf_bits data (n + dr_overhead c) =
             replicate (nat k) False @ buf_bits bsr n @ replicate (length (jc_devices c) - 1 - nat k) False"
proof -
  let ?m = "n + dr_overhead c" and ?k = "nat k"
  let ?data = "or_bits (buf_bit bsr) ?k n (replicate (bytes_for ?m) 0)"
  have k: "?k \<le> dr_overhead c" using assms(2) by (auto simp: valid_index_def dr_overhead_def)
  have "buf_bits ?data ?m = replicate ?k False @ buf_bits bsr n @ replicate (dr_overhead c - ?k) False"
  proof (rule nth_equalityI)
    fix i assume "i < length (buf_bits ?data ?m)"
    then have i: "i < ?m" by simp
    then have "i div 8 < bytes_for ?m" by (rule bytes_for_bound)
    then have "buf_bits ?data ?m ! i \<longleftrightarrow> ?k \<le> i \<and> i < ?k + n \<and> buf_bit bsr (i - ?k)"
      using i by (simp add: buf_bit_or_bits)
    then show "buf_bits ?data ?m ! i = (replicate ?k False @ buf_bits bsr n @ replicate (dr_overhead c - ?k) False) ! i"
      using i k by (auto simp: nth_append)
  qed (use k in simp)
  then show ?thesis
    using assms by (auto simp: write_bsr_def Let_def dr_overhead_def split: bind_splits prod.splits if_splits)
qed

section \<open>Detection\<close>

text \<open>What the devices emit after reset: 32 IDCODE bits, or the single 0 of BYPASS.\<close>

definition id_reg :: "u32 option \<Rightarrow> bool list" where
  "id_reg d = (case d of None \<Rightarrow> [False] | Some w \<Rightarrow> map (bit w) [0..<32])"

definition id_stream :: "u32 option list \<Rightarrow> bool list" where
  "id_stream ids = concat (map id_reg ids)"

text \<open>IDCODEs are odd and not all ones; fewer than 32 zeros precede the next IDCODE.\<close>

fun ids_ok :: "u32 option list \<Rightarrow> bool" where
  "ids_ok [] \<longleftrightarrow> True"
| "ids_ok (Some w # ids) \<longleftrightarrow> bit w 0 \<and> w \<noteq> 0xFFFFFFFF \<and> ids_ok ids"
| "ids_ok (None # ids) \<longleftrightarrow> (\<exists>i < min 31 (length (id_stream ids)). id_stream ids ! i) \<and> ids_ok ids"

fun detected :: "nat \<Rightarrow> u32 option list \<Rightarrow> chain_device list" where
  "detected pos [] = []"
| "detected pos (Some w # ids) = new_device pos w (ir_length_of w) # detected (Suc pos) ids"
| "detected pos (None # ids) = new_device pos 0 1 # detected (Suc pos) ids"

lemma id_stream_simps [simp]:
  "id_stream [] = []" "id_stream (d # ids) = id_reg d @ id_stream ids"
  by (simp_all add: id_stream_def)

lemma id_reg_simps [simp]: "id_reg None = [False]" "id_reg (Some w) = map (bit w) [0..<32]"
  by (simp_all add: id_reg_def)

lemma parse_idcodes_correct:
  assumes "length tdo = 32"
  shows "ids_ok ids \<Longrightarrow> off + length (id_stream ids) \<le> 256 \<Longrightarrow>
    (\<forall>i. off \<le> i \<longrightarrow> i < 256 \<longrightarrow>
       (buf_bit tdo i \<longleftrightarrow> i < off + length (id_stream ids) \<and> id_stream ids ! (i - off))) \<Longrightarrow>
    parse_idcodes tdo 256 off pos = detected pos ids"
proof (induction ids arbitrary: off pos rule: ids_ok.induct)
  case 1
  show ?case
  proof (cases "off < 256")
    case True
    moreover have "\<not> buf_bit tdo i" if "off \<le> i" "i < 256" for i using "1.prems"(3) that by auto
    ultimately show ?thesis by (subst parse_idcodes.simps) (auto simp: list_all_iff)
  next
    case False
    then show ?thesis by (subst parse_idcodes.simps) simp
  qed
next
  case (2 w ids)
  have off: "off + 32 \<le> 256" "off + 32 + length (id_stream ids) \<le> 256" using "2.prems"(2) by simp_all
  have bits: "buf_bit tdo (off + i) \<longleftrightarrow> bit w i" if "i < 32" for i
    using "2.prems"(3) off that by (simp add: nth_append)
  have word: "(word_of_bits (\<lambda>i. off + i < 256 \<and> buf_bit tdo (off + i)) 32 :: u32) = w"
    by (rule word_eq_bitsI) (use bits off in \<open>simp add: bit_word_of_bits\<close>)
  have first: "buf_bit tdo off" using bits [of 0] "2.prems"(1) by simp
  have range: "off < 256" "\<not> length tdo \<le> off div 8" using off assms by auto
  have "\<forall>i. off + 32 \<le> i \<longrightarrow> i < 256 \<longrightarrow>
       (buf_bit tdo i \<longleftrightarrow> i < off + 32 + length (id_stream ids) \<and> id_stream ids ! (i - (off + 32)))"
    using "2.prems"(3) by (auto simp: nth_append)
  with "2.IH" off "2.prems"(1) have rest: "parse_idcodes tdo 256 (off + 32) (pos + 1) = detected (Suc pos) ids" by simp
  have "parse_idcodes tdo 256 off pos = new_device pos w (ir_length_of w) # parse_idcodes tdo 256 (off + 32) (pos + 1)"
    using range first "2.prems"(1) by (subst parse_idcodes.simps) (simp add: word Let_def)
  then show ?case by (simp only: rest detected.simps)
next
  case (3 ids)
  have off: "off + 1 + length (id_stream ids) \<le> 256" using "3.prems"(2) by simp
  have range: "off < 256" "\<not> length tdo \<le> off div 8" using off assms by auto
  have first: "\<not> buf_bit tdo off" using "3.prems"(3) off by simp
  obtain i where i: "i < 31" "i < length (id_stream ids)" "id_stream ids ! i" using "3.prems"(1) by auto
  then have "buf_bit tdo (off + 1 + i)" using "3.prems"(3) off by simp
  then have window: "\<not> list_all (\<lambda>i. \<not> buf_bit tdo i) [off..<min 256 (off + 32)]"
    using i off unfolding list_all_iff by (intro notI) (auto dest!: bspec [of _ _ "off + 1 + i"])
  have "\<forall>i. off + 1 \<le> i \<longrightarrow> i < 256 \<longrightarrow>
       (buf_bit tdo i \<longleftrightarrow> i < off + 1 + length (id_stream ids) \<and> id_stream ids ! (i - (off + 1)))"
    using "3.prems"(3) by (auto simp: nth_Cons split: nat.splits) (metis Suc_diff_Suc Suc_le_eq less_Suc_eq nat.inject)+
  with "3.IH" off "3.prems"(1) have rest: "parse_idcodes tdo 256 (off + 1) (pos + 1) = detected (Suc pos) ids" by simp
  have "parse_idcodes tdo 256 off pos = new_device pos 0 1 # parse_idcodes tdo 256 (off + 1) (pos + 1)"
    using range first window by (subst parse_idcodes.simps) simp
  then show ?case by (simp only: rest detected.simps)
qed

lemma detect_devices_correct:
  assumes "always_ok L" and "drives_tap L phys" and "replies_tdo L lvl"
    and "shows_chain phys lvl (id_stream ids @ replicate (256 - length (id_stream ids)) False)"
    and "ids_ok ids" and "length (id_stream ids) \<le> 256"
  shows "\<exists>c'. detect_devices L c = Some (length ids, c') \<and> jc_devices c' = detected 0 ids \<and>
           in_sync phys (jc_tap c') \<and> tap_st (jc_tap c') = RUN_TEST_IDLE"
proof -
  let ?bs = "id_stream ids @ replicate (256 - length (id_stream ids)) False"
  obtain t1 where t1: "tap_reset L (jc_tap c) = (True, t1)" using tap_reset_succeeds [OF assms(1)] by blast
  obtain t2 where t2: "tap_clk_idle L 10 t1 = (True, t2)" using tap_clk_idle_succeeds [OF assms(1)] by blast
  obtain tdo t3 where rd: "read_dr L [] (int 256) t2 = Some (True, tdo, t3)"
    using shift_dr_succeeds(1) [OF assms(1), of 256] by (force simp: read_dr_def readable_def)
  have "in_sync phys t1" using tap_reset_ok [OF t1 assms(2)] by (simp add: in_sync_def)
  from tap_clk_idle_ok(2) [OF t2 assms(2) this] have sync: "in_sync phys t2" .
  from read_dr_tdo [OF rd assms(2,3) sync] obtain d where tdo: "length tdo = 32"
    and bits: "\<forall>i. buf_bit tdo i \<longleftrightarrow> i < 256 \<and> lvl d i" and d: "fst (phys d) = SHIFT_DR"
    by (auto simp: bytes_for_def)
  have "\<forall>i < 256. lvl d i = ?bs ! i"
    using assms(4,6) d by (simp add: shows_chain_def)
  then have "\<forall>i. 0 \<le> i \<longrightarrow> i < 256 \<longrightarrow>
       (buf_bit tdo i \<longleftrightarrow> i < 0 + length (id_stream ids) \<and> id_stream ids ! (i - 0))"
    using bits assms(6) by (auto simp: nth_append)
  then have p: "parse_idcodes tdo 256 0 0 = detected 0 ids"
    using parse_idcodes_correct [OF tdo assms(5), of 0 0] assms(6) by simp
  have "length (detected k xs) = length xs" for k xs
    by (induction k xs rule: detected.induct) simp_all
  moreover have sd: "shift_dr L (Some (replicate (bytes_for 256) 0)) [] (int 256) t2 = Some (True, tdo, t3)"
    using rd by (simp add: read_dr_def)
  have "tap_st t3 = RUN_TEST_IDLE"
    using shift_dr_ok(1) [OF sd assms(2) sync] by (simp add: readable_def)
  ultimately show ?thesis
    using t1 t2 rd p read_dr_tdo(2) [OF rd assms(2,3) sync]
    by (auto simp: detect_devices_def Let_def)
qed

section \<open>Properties\<close>

text \<open>A probe whose chain shows the bits \<open>bs\<close>; its state is the state of the TAP.\<close>

definition chain_level :: "bool list \<Rightarrow> tap_state \<times> bool \<Rightarrow> nat \<Rightarrow> bool" where
  "chain_level bs d i = (i < length bs \<and> bs ! i)"

definition chain_link :: "bool list \<Rightarrow> (tap_state \<times> bool) link" where
  "chain_link bs =
     \<lparr>lk_transfer = (\<lambda>d cmd. case mpsse_parse (cmd_buffer cmd) of
        None \<Rightarrow> (False, [], d)
      | Some cs \<Rightarrow> (True, stream_reply cs (map (chain_level bs d) [0..<sum_list (map read_count cs)]),
                    phys_step d cmd)),
      lk_error = (\<lambda>_. ''bad command'')\<rparr>"

lemma chain_link_ok:
  "drives_tap (chain_link bs) id" "replies_tdo (chain_link bs) (chain_level bs)" "shows_chain id (chain_level bs) bs"
  by (auto simp: drives_tap_def replies_tdo_def shows_chain_def chain_link_def chain_level_def split: option.splits)

lemma chain_link_always_ok: "always_ok (chain_link bs)"
  by (auto simp: always_ok_def chain_link_def)

definition two_dev_chain :: "nat \<Rightarrow> (tap_state \<times> bool) chain" where
  "two_dev_chain n =
     \<lparr>jc_tap = \<lparr>tap_st = RUN_TEST_IDLE, tap_error = [], tap_dev = (RUN_TEST_IDLE, False)\<rparr>,
      jc_devices = [new_device 0 0x13722093 6,
        (new_device 1 0x4BA00477 4)\<lparr>cd_bsdl := Some (default_device\<lparr>bd_boundary_length := n\<rparr>)\<rparr>],
      jc_error = []\<rparr>"

lemma two_dev_chain_sync: "in_sync id (jc_tap (two_dev_chain n))"
  by (simp add: in_sync_def two_dev_chain_def)

text \<open>C4: \<open>selectInstruction\<close>, when it succeeds, has shifted as many bits as the instruction registers
  hold together; they leave the opcode, least significant bit first, in the register of the
  addressed device and all ones (BYPASS) in every other, whatever the registers held before.\<close>

theorem select_instruction_loads:
  assumes "select_instruction L k instr c = Some (True, c')" and "drives_tap L phys" and "in_sync phys (jc_tap c)"
  shows "in_sync phys (jc_tap c') \<and> jc_devices c' = jc_devices c \<and>
         (\<exists>data. shift_ir L (Some data) (int (total_ir_length c)) (jc_tap c) = Some (True, jc_tap c') \<and>
           (\<forall>regs. length regs = total_ir_length c \<longrightarrow>
              snd (chain_shift regs (buf_bits data (total_ir_length c))) =
                concat (map (\<lambda>i. opcode_bits (nat k) instr i (jc_devices c ! i)) [0..<length (jc_devices c)])))"
proof -
  have k: "valid_index c k" using assms(1) by (simp add: select_instruction_def split: if_splits)
  from select_instruction_data [OF assms(1) k] obtain data where
    d: "shift_ir L (Some data) (int (total_ir_length c)) (jc_tap c) = Some (True, jc_tap c')"
    "length data = bytes_for (total_ir_length c)" "jc_devices c' = jc_devices c"
    "buf_bits data (total_ir_length c) = ir_bits (nat k) instr 0 (jc_devices c)" by auto
  have "ir_bits k instr i devs = concat (map (\<lambda>j. opcode_bits k instr (i + j) (devs ! j)) [0..<length devs])"
    for k i and devs :: "chain_device list"
  proof (induction devs arbitrary: i)
    case (Cons dev devs)
    have "[0..<length (dev # devs)] = 0 # map Suc [0..<length devs]"
      unfolding map_Suc_upt by (simp add: upt_conv_Cons del: upt_Suc)
    with Cons show ?case by (simp add: comp_def del: upt_Suc)
  qed simp
  from this [of "nat k" 0 "jc_devices c"] d shift_ir_ok(2) [OF d(1) assms(2,3)] show ?thesis
    by (auto simp: chain_shift_full total_ir_length_def readable_def)
qed

lemma select_run:
  "map_option (\<lambda>(ok, c'). (ok, jc_tap c')) (select_instruction (chain_link []) 1 0xE (two_dev_chain 8))
     = Some (True, jc_tap (two_dev_chain 8))"
  by code_simp

lemma select_instruction_loads_witness:
  "\<exists>data. snd (chain_shift (replicate 10 False) (buf_bits data 10))
       = [True, True, True, True, True, True, False, True, True, True]"
proof -
  have n: "total_ir_length (two_dev_chain 8) = 10"
    by (simp add: total_ir_length_def two_dev_chain_def new_device_def)
  have b: "concat (map (\<lambda>i. opcode_bits (nat 1) 0xE i (jc_devices (two_dev_chain 8) ! i))
      [0..<length (jc_devices (two_dev_chain 8))])
      = [True, True, True, True, True, True, False, True, True, True]" by code_simp
  obtain c' where run: "select_instruction (chain_link []) 1 0xE (two_dev_chain 8) = Some (True, c')"
    using select_run by auto
  from select_instruction_loads [OF run chain_link_ok(1) two_dev_chain_sync] obtain data where
    "\<forall>regs. length regs = 10 \<longrightarrow> snd (chain_shift regs (buf_bits data 10)) =
       [True, True, True, True, True, True, False, True, True, True]"
    unfolding b n by blast
  then show ?thesis by (intro exI [of _ data]) simp
qed

text \<open>\<open>readBSR\<close> into an empty vector returns the first \<open>read_len\<close> cells of the addressed device's
  boundary register, whatever its position in the chain; a partial read is a prefix of a full one.\<close>

theorem read_bsr_returns_register:
  assumes "read_bsr L k [] partial c = Some (True, u, c')"
    and "drives_tap L phys" and "replies_tdo L lvl" and "in_sync phys (jc_tap c)"
    and "cd_bsdl (jc_devices c ! nat k) = Some dev"
    and "shows_chain phys lvl (concat regs)" and "chain_regs (length (jc_devices c)) (nat k) regs"
    and "length (regs ! nat k) = bd_boundary_length dev"
  shows "in_sync phys (jc_tap c') \<and> jc_devices c' = jc_devices c \<and>
         buf_bits u (read_len_of partial (bd_boundary_length dev))
           = take (read_len_of partial (bd_boundary_length dev)) (regs ! nat k)"
  using read_bsr_register [OF assms] by blast

lemma read_bsr_run:
  "map_option (\<lambda>(ok, u, _). (ok, u))
     (read_bsr (chain_link (concat [[False], [True, False, True, True, False, False, True, True]])) 1 [] 5 (two_dev_chain 8))
   = Some (True, [0x0D])"
  by code_simp

lemma read_bsr_returns_register_witness:
  "buf_bits [0x0D] 5 = [True, False, True, True, False]"
proof -
  have d: "cd_bsdl (jc_devices (two_dev_chain 8) ! nat 1) = Some (default_device\<lparr>bd_boundary_length := 8\<rparr>)"
    by (simp add: two_dev_chain_def)
  have r: "chain_regs (length (jc_devices (two_dev_chain 8))) (nat 1)
      [[False], [True, False, True, True, False, False, True, True]]"
    by (auto simp: chain_regs_def two_dev_chain_def less_Suc_eq numeral_2_eq_2)
  obtain c' where run: "read_bsr (chain_link (concat [[False], [True, False, True, True, False, False, True, True]]))
      1 [] 5 (two_dev_chain 8) = Some (True, [0x0D], c')"
    using read_bsr_run by auto
  from read_bsr_returns_register [OF run chain_link_ok(1,2) two_dev_chain_sync d chain_link_ok(3) r]
  show ?thesis by (simp add: read_len_of_def)
qed

text \<open>\<open>writeBSR\<close> leaves the given cells in the addressed device's register and a 0 in the BYPASS
  register of every other device.\<close>

theorem write_bsr_loads:
  assumes "write_bsr L k bsr n c = Some (True, c')" and "drives_tap L phys" and "in_sync phys (jc_tap c)"
  shows "in_sync phys (jc_tap c') \<and>
         (\<exists>data. shift_dr_write L (Some data) (int (n + dr_overhead c)) (jc_tap c) = Some (True, jc_tap c') \<and>
           (\<forall>regs. length regs = n + dr_overhead c \<longrightarrow>
              snd (chain_shift regs (buf_bits data (n + dr_overhead c))) =
                replicate (nat k) False @ buf_bits bsr n @ replicate (length (jc_devices c) - 1 - nat k) False))"
proof -
  have k: "valid_index c k" using assms(1) by (simp add: write_bsr_def split: if_splits)
  from write_bsr_data [OF assms(1) k] obtain data where
    d: "shift_dr_write L (Some data) (int (n + dr_overhead c)) (jc_tap c) = Some (True, jc_tap c')"
    "length data = bytes_for (n + dr_overhead c)"
    "buf_bits data (n + dr_overhead c) =
       replicate (nat k) False @ buf_bits bsr n @ replicate (length (jc_devices c) - 1 - nat k) False" by auto
  have "in_sync phys (jc_tap c')" using shift_dr_write_ok(2) [OF d(1) assms(2,3)] d(2) by (simp add: readable_def)
  moreover have "snd (chain_shift regs (buf_bits data (n + dr_overhead c))) = buf_bits data (n + dr_overhead c)"
    if "length regs = n + dr_overhead c" for regs
    using that by (simp add: chain_shift_full)
  ultimately show ?thesis using d by auto
qed

lemma write_bsr_run:
  "map_option fst (write_bsr (chain_link []) 1 [0xA5] 8 (two_dev_chain 8)) = Some True"
  by code_simp

lemma write_bsr_loads_witness:
  "\<exists>data. snd (chain_shift (replicate 9 True) (buf_bits data 9))
     = [False, True, False, True, False, False, True, False, True]"
proof -
  have n: "8 + dr_overhead (two_dev_chain 8) = 9" by (simp add: dr_overhead_def two_dev_chain_def)
  have b: "replicate (nat 1) False @ buf_bits [0xA5] 8 @ replicate (length (jc_devices (two_dev_chain 8)) - 1 - nat 1) False
      = [False, True, False, True, False, False, True, False, True]" by code_simp
  obtain c' where run: "write_bsr (chain_link []) 1 [0xA5] 8 (two_dev_chain 8) = Some (True, c')"
    using write_bsr_run by auto
  from write_bsr_loads [OF run chain_link_ok(1) two_dev_chain_sync] obtain data where
    "\<forall>regs. length regs = 9 \<longrightarrow> snd (chain_shift regs (buf_bits data 9)) =
       [False, True, False, True, False, False, True, False, True]"
    unfolding b n by blast
  then show ?thesis by (intro exI [of _ data]) simp
qed

text \<open>C2: detection recovers the chain: when the devices emit their IDCODEs (or the single 0 of BYPASS,
  with an IDCODE following within 31 bits) and zeros follow, \<open>detectDevices\<close> finds exactly these
  devices in this order, with the instruction length of each, and leaves the controller in step
  with the TAP in Run-Test/Idle.\<close>

theorem detect_devices_finds_chain:
  assumes "always_ok L" and "drives_tap L phys" and "replies_tdo L lvl"
    and "shows_chain phys lvl (id_stream ids @ replicate (256 - length (id_stream ids)) False)"
    and "ids_ok ids" and "length (id_stream ids) \<le> 256"
  shows "\<exists>c'. detect_devices L c = Some (length ids, c') \<and> jc_devices c' = detected 0 ids \<and>
           in_sync phys (jc_tap c') \<and> tap_st (jc_tap c') = RUN_TEST_IDLE"
  by (rule detect_devices_correct [OF assms])

lemma detect_devices_finds_chain_witness:
  "\<exists>c'. detect_devices (chain_link (id_stream [Some 0x13722093, None, Some 0x4BA00477] @ replicate 191 False))
         (two_dev_chain 8) = Some (3, c') \<and>
       jc_devices c' = [new_device 0 0x13722093 6, new_device 1 0 1, new_device 2 0x4BA00477 4]"
proof -
  let ?ids = "[Some 0x13722093, None, Some 0x4BA00477] :: u32 option list"
  have ids: "ids_ok ?ids" by code_simp
  have "ir_length_of 0x13722093 = 6" "ir_length_of 0x4BA00477 = 4" by code_simp+
  then have dev: "detected 0 ?ids = [new_device 0 0x13722093 6, new_device 1 0 1, new_device 2 0x4BA00477 4]"
    by (simp add: numeral_2_eq_2)
  let ?bs = "id_stream ?ids @ replicate 191 False"
  have l: "length (id_stream ?ids) = 65" "length ?ids = 3" by simp_all
  have sc: "shows_chain id (chain_level ?bs) (id_stream ?ids @ replicate (256 - length (id_stream ?ids)) False)"
    using chain_link_ok(3) [of ?bs] unfolding l by (simp del: id_stream_simps)
  have "\<exists>c'. detect_devices (chain_link ?bs) (two_dev_chain 8) = Some (length ?ids, c') \<and>
      jc_devices c' = detected 0 ?ids \<and> in_sync id (jc_tap c') \<and> tap_st (jc_tap c') = RUN_TEST_IDLE"
    by (rule detect_devices_finds_chain [OF chain_link_always_ok chain_link_ok(1,2) sc ids]) (simp only: l)
  then show ?thesis unfolding dev l by blast
qed

text \<open>A device without IDCODE at the TDI end is taken for the end of the chain: its single 0 is not
  told apart from the zeros that were shifted in.\<close>

lemma trailing_bypass_missed:
  "map cd_idcode (parse_idcodes [0x93, 0x20, 0x72, 0x13, 0, 0, 0, 0] 64 0 0) = [0x13722093]"
  by code_simp

end
