(* ===== verification/Tap_Total.thy ===== *)
theory Tap_Total
  imports Tap_Ops
begin

text \<open>
  What the scans of the controller return whatever the probe answers: they are defined for readable data, and
  the vectors they fill have the size that was asked for.
\<close>

lemma do_shift_defined:
  assumes "0 < n" and "readable tdi n"
  shows "\<exists>ok u t'. do_shift L tdi tdo (int n) rb t = Some (ok, u, t')"
proof -
  have "do_shift L tdi tdo (int n) rb t \<noteq> None"
    using scan_cmd_cmds [OF assms, of rb mpsse_empty] by (auto simp: do_shift_def Let_def split_beta)
  then show ?thesis by auto
qed

lemma shift_ir_defined:
  assumes "0 < n" and "readable tdi n"
  shows "\<exists>ok t'. shift_ir L tdi (int n) t = Some (ok, t')"
proof -
  obtain ok t1 where t1: "tap_goto L SHIFT_IR t = (ok, t1)" by (cases "tap_goto L SHIFT_IR t")
  obtain ok2 u t2 where t2: "do_shift L tdi [] (int n) False t1 = Some (ok2, u, t2)" using do_shift_defined [OF assms] by blast
  obtain ok3 t3 where "tap_goto L RUN_TEST_IDLE (t2\<lparr>tap_st := EXIT1_IR\<rparr>) = (ok3, t3)"
    by (cases "tap_goto L RUN_TEST_IDLE (t2\<lparr>tap_st := EXIT1_IR\<rparr>)")
  with t1 t2 assms(1) show ?thesis by (cases ok; cases ok2) (auto simp: shift_ir_def)
qed

lemma shift_dr_defined:
  assumes "0 < n" and "readable tdi n"
  shows "\<exists>ok u t'. shift_dr L tdi tdo (int n) t = Some (ok, u, t')"
proof -
  obtain ok t1 where t1: "tap_goto L SHIFT_DR t = (ok, t1)" by (cases "tap_goto L SHIFT_DR t")
  obtain ok2 u t2 where t2: "do_shift L tdi tdo (int n) True t1 = Some (ok2, u, t2)" using do_shift_defined [OF assms] by blast
  obtain ok3 t3 where "tap_goto L RUN_TEST_IDLE (t2\<lparr>tap_st := EXIT1_DR\<rparr>) = (ok3, t3)"
    by (cases "tap_goto L RUN_TEST_IDLE (t2\<lparr>tap_st := EXIT1_DR\<rparr>)")
  with t1 t2 assms(1) show ?thesis by (cases ok; cases ok2) (auto simp: shift_dr_def)
qed

section \<open>Sizes\<close>

lemma length_splice: "k \<le> length raw \<Longrightarrow> k \<le> length tdo \<Longrightarrow> length (take k raw @ drop k tdo) = length tdo"
  by simp

lemma length_unpack_scan:
  assumes "0 < n" and "length tdo = bytes_for n"
  shows "length (unpack_scan n raw tdo) = bytes_for n"
proof -
  let ?b = "(n - 1) div 8"
  have "?b \<le> length tdo" using assms by (simp add: bytes_for_pos)
  then have 1: "length (if 0 < ?b \<and> ?b \<le> length raw then take ?b raw @ drop ?b tdo else tdo) = length tdo"
    by (simp add: length_splice)
  have "length (unpack_scan n raw tdo) = length (if 0 < ?b \<and> ?b \<le> length raw then take ?b raw @ drop ?b tdo else tdo)"
    by (simp only: unpack_scan_def Let_def split_beta if_distrib [of length] if_distrib [of fst] fst_conv length_or_bits length_buf_or_bit if_cancel)
  with 1 assms(2) show ?thesis by simp
qed

lemma do_shift_length:
  assumes "do_shift L tdi [] (int n) True t = Some (True, u, t')" and "0 < n"
  shows "length u = bytes_for n"
proof -
  obtain raw where "u = unpack_scan n raw (resize_bytes (bytes_for n) [])"
    using assms by (auto simp: do_shift_def Let_def split: prod.splits if_splits bind_splits)
  with length_unpack_scan [OF assms(2), of "resize_bytes (bytes_for n) []" raw] show ?thesis by (simp add: resize_bytes_def)
qed

lemma shift_dr_length:
  assumes "shift_dr L tdi [] (int n) t = Some (True, u, t')"
  shows "length u = bytes_for n"
  using assms by (auto simp: shift_dr_def split: prod.splits if_splits bind_splits dest!: do_shift_length)

definition same_length :: "'e \<times> byte list + 'i \<times> byte list \<Rightarrow> byte list \<Rightarrow> bool" where
  "same_length r flat \<longleftrightarrow> (case r of Inl (e, f) \<Rightarrow> length f = length flat | Inr (i, f) \<Rightarrow> length f = length flat)"

lemma unpack_one_length:
  assumes "0 < n" and "out + bytes_for n \<le> length flat"
  shows "same_length (unpack_one n out raw idx flat) flat"
proof -
  define bb br where "bb = (n - 1) div 8" and "br = (n - 1) mod 8"
  define f1 i1 where "f1 = (if 0 < bb then take out flat @ take bb (drop idx raw) @ drop (out + bb) flat else flat)"
    and "i1 = (if 0 < bb then idx + bb else idx)"
  define f2 i2 where "f2 = (if 0 < br then or_bits (\<lambda>b. bit (drop_bit (8 - br) (raw ! i1)) b) (8 * (out + bb)) br f1 else f1)"
    and "i2 = (if 0 < br then i1 + 1 else i1)"
  have p: "(if 0 < bb then (take out flat @ take bb (drop idx raw) @ drop (out + bb) flat, idx + bb) else (flat, idx)) = (f1, i1)"
    "(if 0 < br then (or_bits (\<lambda>b. bit (drop_bit (8 - br) (raw ! i1)) b) (8 * (out + bb)) br f1, i1 + 1) else (f1, i1)) = (f2, i2)"
    by (simp_all add: f1_def i1_def f2_def i2_def)
  have u: "unpack_one n out raw idx flat =
      (if 0 < bb \<and> length raw < idx + bb then Inl (''shiftDRRepeat: TDO underrun (bulk)'', flat)
       else if 0 < br \<and> length raw \<le> i1 then Inl (''shiftDRRepeat: TDO underrun (partial)'', f1)
       else if length raw \<le> i2 then Inl (''shiftDRRepeat: TDO underrun (last)'', f2)
       else Inr (i2 + 1, if bit (raw ! i2) 7 then buf_or_bit f2 (8 * out + (n - 1)) else f2))"
    unfolding unpack_one_def Let_def bb_def [symmetric] br_def [symmetric] p split_conv by (rule refl)
  have "length f1 = length flat" if "\<not> (0 < bb \<and> length raw < idx + bb)"
  proof -
    have "out + bb \<le> length flat" using assms by (simp add: bytes_for_pos bb_def)
    with that show ?thesis by (auto simp: f1_def)
  qed
  moreover have "length f2 = length f1" by (simp add: f2_def)
  ultimately show ?thesis unfolding u same_length_def by simp
qed

lemma unpack_many_length:
  "0 < n \<Longrightarrow> out + k * bytes_for n \<le> length flat \<Longrightarrow>
     (case unpack_many n k out raw idx flat of Inl (e, f) \<Rightarrow> length f = length flat | Inr f \<Rightarrow> length f = length flat)"
proof (induction k arbitrary: out idx flat)
  case (Suc k)
  have one: "same_length (unpack_one n out raw idx flat) flat" using Suc.prems by (intro unpack_one_length) simp_all
  show ?case
  proof (cases "unpack_one n out raw idx flat")
    case (Inl e)
    with one show ?thesis by (cases e) (simp add: same_length_def)
  next
    case (Inr r)
    obtain i f where r: "r = (i, f)" by (cases r)
    then have "length f = length flat" using one Inr by (simp add: same_length_def)
    with Suc.IH [of "out + bytes_for n" f i] Suc.prems Inr r show ?thesis by (auto simp: add.assoc split: sum.splits)
  qed
qed simp

lemma repeat_chunks_defined:
  assumes "0 < n" and "readable tdi n"
  shows "length flat = count * bytes_for n \<Longrightarrow>
    \<exists>ok u t'. repeat_chunks L count n tdi start flat t = Some (ok, u, t') \<and> length u = count * bytes_for n"
proof (induction "count - start" arbitrary: start flat t rule: less_induct)
  case less
  show ?case
  proof (cases "start < count")
    case False
    with less.prems show ?thesis by (auto simp: repeat_chunks.simps [of L count])
  next
    case True
    define k where "k = min kChunk (count - start)"
    let ?rs = "append_cmds (rounds k (ptr_bytes tdi) n) mpsse_empty"
    have cmd: "repeat_cmds tdi n (compute_tms_path RUN_TEST_IDLE SHIFT_DR)
        (compute_tms_path EXIT1_DR RUN_TEST_IDLE) k mpsse_empty = Some ?rs"
      by (simp add: compute_tms_path_idle_shift repeat_cmds_cmds [OF assms])
    obtain ok raw d where tr: "lk_transfer L (tap_dev t) (send_immediate ?rs) = (ok, raw, d)"
      by (cases "lk_transfer L (tap_dev t) (send_immediate ?rs)")
    have "start + k \<le> count" using True by (simp add: k_def)
    then have "start * bytes_for n + k * bytes_for n \<le> length flat"
      using mult_le_mono1 [of "start + k" count "bytes_for n"] less.prems by (simp add: algebra_simps)
    note um = unpack_many_length [OF assms(1) this, of raw 0]
    have step: "repeat_chunks L count n tdi start flat t =
        (if \<not> ok then Some (False, flat, t\<lparr>tap_dev := d, tap_error := lk_error L d\<rparr>)
         else case unpack_many n k (start * bytes_for n) raw 0 flat of
           Inl (e, flat') \<Rightarrow> Some (False, flat', t\<lparr>tap_dev := d, tap_error := e\<rparr>)
         | Inr flat' \<Rightarrow> repeat_chunks L count n tdi (start + kChunk) flat' (t\<lparr>tap_dev := d\<rparr>))"
      using True cmd tr unfolding k_def by (subst repeat_chunks.simps) (simp add: Let_def)
    show ?thesis
    proof (cases "unpack_many n k (start * bytes_for n) raw 0 flat")
      case (Inl e)
      with um less.prems show ?thesis unfolding step by (cases e; cases ok) auto
    next
      case (Inr f)
      have "count - (start + kChunk) < count - start" using True by (simp add: kChunk_def)
      moreover have "length f = count * bytes_for n" using um Inr less.prems by simp
      ultimately obtain ok2 u t' where
        "repeat_chunks L count n tdi (start + kChunk) f (t\<lparr>tap_dev := d\<rparr>) = Some (ok2, u, t')" "length u = count * bytes_for n"
        using less.hyps by blast
      with Inr less.prems show ?thesis unfolding step by (cases ok) auto
    qed
  qed
qed

lemma shift_dr_repeat_defined:
  assumes "0 < n" and "readable tdi n"
  shows "\<exists>ok u t'. shift_dr_repeat L (int count) (int n) tdi flat t = Some (ok, u, t') \<and> (0 < count \<longrightarrow> length u = count * bytes_for n)"
  using repeat_chunks_defined [OF assms, of "replicate (count * bytes_for n) 0" count L 0 t] assms(1)
  by (cases "count = 0") (auto simp: shift_dr_repeat_def)

end
