(* ===== verification/Scanner.thy ===== *)
theory Scanner
  imports Jtag_Chain_Props Tap_Total
begin

text \<open>
  src/src/boundary_scan/scanner.{h,cpp}: decoding a boundary register snapshot into pin states, and
  \<open>Scanner\<close>, which samples a device.  A sample may be restricted to some pins (\<open>setDecodeFilter\<close>);
  then only the low bits up to the last cell of these pins are clocked out.

  The lemmas give the level each pin is decoded to (\<open>pin_level\<close>) and show that the shortened read
  reports the same levels as a full one for the selected pins.
\<close>

unbundle bit_operations_syntax

section \<open>Snapshots\<close>

datatype pin_state = Ps_LOW | Ps_HIGH | Ps_UNKNOWN

record scan_result =
  sr_raw_bsr :: "byte list"
  sr_pin_states :: "string \<rightharpoonup> pin_state"

definition sr_get_pin :: "scan_result \<Rightarrow> string \<Rightarrow> pin_state" where
  "sr_get_pin r name = (case sr_pin_states r name of Some s \<Rightarrow> s | None \<Rightarrow> Ps_UNKNOWN)"

definition raw_get_bit :: "byte list \<Rightarrow> int \<Rightarrow> bool" where
  "raw_get_bit raw position \<longleftrightarrow>
     (if position < 0 then False
      else if length raw \<le> nat position div 8 then False
      else bit (raw ! (nat position div 8)) (nat position mod 8))"

definition pin_state_of :: "bool \<Rightarrow> pin_state" where
  "pin_state_of b = (if b then Ps_HIGH else Ps_LOW)"

definition decode_inputs :: "byte list \<Rightarrow> boundary_cell list \<Rightarrow> (string \<rightharpoonup> pin_state) \<Rightarrow> (string \<rightharpoonup> pin_state)" where
  "decode_inputs raw cells m0 =
     fold (\<lambda>c m. if \<not> has_pin c then m
                 else if \<not> is_input c then m
                 else m(bc_pin_name c \<mapsto> pin_state_of (raw_get_bit raw (bc_position c)))) cells m0"

definition decode_outputs :: "byte list \<Rightarrow> boundary_cell list \<Rightarrow> (string \<rightharpoonup> pin_state) \<Rightarrow> (string \<rightharpoonup> pin_state)" where
  "decode_outputs raw cells m0 =
     fold (\<lambda>c m. if \<not> has_pin c then m
                 else if \<not> is_output c then m
                 else if m (bc_pin_name c) \<noteq> None then m
                 else m(bc_pin_name c \<mapsto> pin_state_of (raw_get_bit raw (bc_position c)))) cells m0"

definition decode_boundary_scan :: "bsdl_device \<Rightarrow> byte list \<Rightarrow> scan_result" where
  "decode_boundary_scan d raw =
     (if raw = [] then \<lparr>sr_raw_bsr = raw, sr_pin_states = Map.empty\<rparr>
      else \<lparr>sr_raw_bsr = raw,
            sr_pin_states = decode_outputs raw (bd_cells d) (decode_inputs raw (bd_cells d) Map.empty)\<rparr>)"

section \<open>The scanner\<close>

text \<open>\<open>decode_filter_\<close> is a set; only membership and emptiness matter.\<close>

record scanner =
  sc_index :: int
  sc_filter :: "string list"
  sc_error :: string

definition scanner_ready :: "scanner \<Rightarrow> 'd chain \<Rightarrow> bool" where
  "scanner_ready s c \<longleftrightarrow> valid_index c (sc_index s) \<and> cd_bsdl (jc_devices c ! nat (sc_index s)) \<noteq> None"

definition scanner_bsdl :: "scanner \<Rightarrow> 'd chain \<Rightarrow> bsdl_device option" where
  "scanner_bsdl s c = (if \<not> scanner_ready s c then None else cd_bsdl (jc_devices c ! nat (sc_index s)))"

definition read_id_code :: "'d link \<Rightarrow> scanner \<Rightarrow> 'd chain \<Rightarrow> (u32 option \<times> scanner \<times> 'd chain) option" where
  "read_id_code L s c =
     (case scanner_bsdl s c of
        None \<Rightarrow> Some (None, s\<lparr>sc_error := ''BSDL not loaded''\<rparr>, c)
      | Some dev \<Rightarrow>
          let opcode = (case idcode_opcode dev of None \<Rightarrow> 0x09 | Some op \<Rightarrow> op) in do {
            (ok, c1) \<leftarrow> select_instruction L (sc_index s) opcode c;
            if \<not> ok then Some (None, s\<lparr>sc_error := jc_error c1\<rparr>, c1)
            else do {
              let total_dr = 32 + dr_overhead c1;
              (ok2, dr_data, t) \<leftarrow> read_dr L [] (int total_dr) (jc_tap c1);
              let c2 = c1\<lparr>jc_tap := t\<rparr>;
              if \<not> ok2 then Some (None, s\<lparr>sc_error := ''Failed to read IDCODE DR''\<rparr>, c2)
              else Some (Some (word_of_bits (\<lambda>b. buf_bit dr_data (nat (sc_index s) + b)) 32), s, c2)
            }
          })"

definition verify_id_code :: "'d link \<Rightarrow> scanner \<Rightarrow> 'd chain \<Rightarrow> (bool \<times> scanner \<times> 'd chain) option" where
  "verify_id_code L s c =
     (case scanner_bsdl s c of
        None \<Rightarrow> Some (False, s, c)
      | Some dev \<Rightarrow> do {
          (r, s1, c1) \<leftarrow> read_id_code L s c;
          Some (case r of None \<Rightarrow> False | Some actual \<Rightarrow> id_matches (bd_idcode dev) actual, s1, c1)
        })"

definition set_decode_filter :: "string list \<Rightarrow> scanner \<Rightarrow> scanner" where
  "set_decode_filter names s = s\<lparr>sc_filter := remdups names\<rparr>"

definition max_position :: "string list \<Rightarrow> boundary_cell list \<Rightarrow> int" where
  "max_position flt cells =
     fold (\<lambda>c m. if \<not> has_pin c then m
                 else if bc_pin_name c \<notin> set flt then m
                 else if m < bc_position c then bc_position c else m) cells (-1)"

definition max_needed_bsr_bits :: "scanner \<Rightarrow> 'd chain \<Rightarrow> int" where
  "max_needed_bsr_bits s c =
     (if sc_filter s = [] then 0
      else case scanner_bsdl s c of
        None \<Rightarrow> 0
      | Some dev \<Rightarrow>
          let max_pos = max_position (sc_filter s) (bd_cells dev)
          in if 0 \<le> max_pos then max_pos + 1 else 0)"

definition empty_scan :: scan_result where
  "empty_scan = \<lparr>sr_raw_bsr = [], sr_pin_states = Map.empty\<rparr>"

definition filter_states :: "string list \<Rightarrow> (string \<rightharpoonup> pin_state) \<Rightarrow> (string \<rightharpoonup> pin_state)" where
  "filter_states flt m = (\<lambda>name. if name \<in> set flt then m name else None)"

definition scanner_sample ::
  "'d link \<Rightarrow> scanner \<Rightarrow> 'd chain \<Rightarrow> (scan_result \<times> scanner \<times> 'd chain) option" where
  "scanner_sample L s c =
     (case scanner_bsdl s c of
        None \<Rightarrow> Some (empty_scan, s\<lparr>sc_error := ''BSDL not loaded''\<rparr>, c)
      | Some dev \<Rightarrow>
          (case sample_opcode dev of
             None \<Rightarrow> Some (empty_scan, s\<lparr>sc_error := ''SAMPLE instruction not found in BSDL''\<rparr>, c)
           | Some op \<Rightarrow> do {
               (ok, c1) \<leftarrow> select_instruction L (sc_index s) op c;
               if \<not> ok then Some (empty_scan, s\<lparr>sc_error := jc_error c1\<rparr>, c1)
               else do {
                 let c2 = c1\<lparr>jc_tap := snd (tap_clk_idle L 2 (jc_tap c1))\<rparr>;
                 (ok2, raw, c3) \<leftarrow> read_bsr L (sc_index s) [] (max_needed_bsr_bits s c2) c2;
                 if \<not> ok2 then Some (empty_scan\<lparr>sr_raw_bsr := raw\<rparr>, s\<lparr>sc_error := jc_error c3\<rparr>, c3)
                 else
                   let scan = decode_boundary_scan dev raw
                   in Some (if sc_filter s \<noteq> []
                            then scan\<lparr>sr_pin_states := filter_states (sc_filter s) (sr_pin_states scan)\<rparr>
                            else scan, s, c3)
               }
             }))"

text \<open>The pins in first-seen order, those of the first list of cells before the others.\<close>

fun first_seen :: "string list \<Rightarrow> string list \<Rightarrow> string list" where
  "first_seen seen [] = []"
| "first_seen seen (n # ns) = (if n \<in> set seen then first_seen seen ns else n # first_seen (n # seen) ns)"

definition get_observable_pins :: "scanner \<Rightarrow> 'd chain \<Rightarrow> string list" where
  "get_observable_pins s c =
     (case scanner_bsdl s c of
        None \<Rightarrow> []
      | Some dev \<Rightarrow> first_seen [] (map bc_pin_name (filter (\<lambda>c. has_pin c \<and> is_input c) (bd_cells dev))
                                   @ map bc_pin_name (filter (\<lambda>c. has_pin c \<and> is_output c) (bd_cells dev))))"

definition get_drivable_pins :: "scanner \<Rightarrow> 'd chain \<Rightarrow> string list" where
  "get_drivable_pins s c =
     (case scanner_bsdl s c of
        None \<Rightarrow> []
      | Some dev \<Rightarrow> first_seen [] (map bc_pin_name (filter (\<lambda>c. has_pin c \<and> is_output c) (bd_cells dev))))"

section \<open>The decoded level of a pin\<close>

text \<open>The last input cell of the pin decides; without one, its first output cell.\<close>

definition deciding_cell :: "boundary_cell list \<Rightarrow> string \<Rightarrow> boundary_cell option" where
  "deciding_cell cells pin =
     (let ins = filter (\<lambda>c. has_pin c \<and> is_input c \<and> bc_pin_name c = pin) cells;
          outs = filter (\<lambda>c. has_pin c \<and> is_output c \<and> bc_pin_name c = pin) cells
      in if ins \<noteq> [] then Some (last ins) else if outs \<noteq> [] then Some (hd outs) else None)"

definition pin_level :: "(int \<Rightarrow> bool) \<Rightarrow> boundary_cell list \<Rightarrow> string \<Rightarrow> pin_state option" where
  "pin_level lvl cells pin = map_option (\<lambda>c. pin_state_of (lvl (bc_position c))) (deciding_cell cells pin)"

lemma decode_inputs_pin:
  "decode_inputs raw cells m pin =
     (let ins = filter (\<lambda>c. has_pin c \<and> is_input c \<and> bc_pin_name c = pin) cells
      in if ins \<noteq> [] then Some (pin_state_of (raw_get_bit raw (bc_position (last ins)))) else m pin)"
  by (induction cells rule: rev_induct) (auto simp: decode_inputs_def Let_def)

lemma decode_outputs_pin:
  "decode_outputs raw cells m pin =
     (case m pin of
        Some s \<Rightarrow> Some s
      | None \<Rightarrow> map_option (\<lambda>c. pin_state_of (raw_get_bit raw (bc_position c)))
          (List.find (\<lambda>c. has_pin c \<and> is_output c \<and> bc_pin_name c = pin) cells))"
  by (induction cells arbitrary: m) (auto simp: decode_outputs_def split: option.splits)

lemma find_filter: "List.find P xs = (if filter P xs = [] then None else Some (hd (filter P xs)))"
  by (induction xs) auto

lemma decode_pin:
  "raw \<noteq> [] \<Longrightarrow> sr_pin_states (decode_boundary_scan d raw) pin = pin_level (raw_get_bit raw) (bd_cells d) pin"
  by (simp add: decode_boundary_scan_def decode_outputs_pin decode_inputs_pin pin_level_def deciding_cell_def
      find_filter Let_def)

lemma raw_get_bit_nat: "0 \<le> p \<Longrightarrow> raw_get_bit raw p = buf_bit raw (nat p)"
  by (auto simp: raw_get_bit_def buf_bit_def)

section \<open>The shortened read\<close>

lemma deciding_cell_in:
  "deciding_cell cells pin = Some c \<Longrightarrow> c \<in> set cells \<and> has_pin c \<and> bc_pin_name c = pin"
proof -
  assume a: "deciding_cell cells pin = Some c"
  let ?ins = "filter (\<lambda>c. has_pin c \<and> is_input c \<and> bc_pin_name c = pin) cells"
  let ?outs = "filter (\<lambda>c. has_pin c \<and> is_output c \<and> bc_pin_name c = pin) cells"
  have "c \<in> set ?ins \<or> c \<in> set ?outs"
    using a last_in_set [of ?ins] hd_in_set [of ?outs]
    by (auto simp: deciding_cell_def Let_def split: if_splits)
  then show ?thesis by auto
qed

lemma max_position_ge:
  "(\<forall>c \<in> set cells. has_pin c \<longrightarrow> bc_pin_name c \<in> set flt \<longrightarrow> bc_position c \<le> max_position flt cells) \<and>
   -1 \<le> max_position flt cells"
  by (induction cells rule: rev_induct) (auto simp: max_position_def)

definition register_level :: "bool list \<Rightarrow> int \<Rightarrow> bool" where
  "register_level bs p \<longleftrightarrow> 0 \<le> p \<and> nat p < length bs \<and> bs ! nat p"

lemma pin_level_cong:
  "(\<And>c. deciding_cell cells pin = Some c \<Longrightarrow> f (bc_position c) = g (bc_position c))
     \<Longrightarrow> pin_level f cells pin = pin_level g cells pin"
  by (cases "deciding_cell cells pin") (auto simp: pin_level_def)

section \<open>Sampling succeeds\<close>

lemma ir_fill_defined:
  "\<forall>dev \<in> set devs. cd_ir_length dev \<le> 32 \<Longrightarrow> \<exists>buf'. ir_fill k instr i pos devs buf = Some buf'"
  by (induction devs arbitrary: i pos buf) (auto simp: Let_def)

lemma select_instruction_defined:
  assumes "\<forall>dev \<in> set (jc_devices c). cd_ir_length dev \<le> 32"
  shows "\<exists>ok c'. select_instruction L k op c = Some (ok, c') \<and> jc_devices c' = jc_devices c"
proof (cases "valid_index c k")
  case False
  then show ?thesis by (auto simp: select_instruction_def)
next
  case True
  let ?n = "total_ir_length c"
  obtain data where d: "ir_fill (nat k) op 0 0 (jc_devices c) (replicate (bytes_for ?n) 0) = Some data"
    using ir_fill_defined [OF assms] by blast
  have rd: "readable (Some data) ?n"
    using ir_fill_correct [OF d] bytes_for_ge [of ?n] by (simp add: readable_def total_ir_length_def)
  have "\<exists>ok t. shift_ir L (Some data) (int ?n) (jc_tap c) = Some (ok, t)"
  proof (cases "?n = 0")
    case True
    then show ?thesis by (auto simp: shift_ir_def)
  next
    case False
    then show ?thesis using shift_ir_defined [OF _ rd] by blast
  qed
  with True d show ?thesis by (auto simp: select_instruction_def)
qed

lemma select_instruction_succeeds:
  assumes "always_ok L" and "valid_index c k" and "\<forall>dev \<in> set (jc_devices c). cd_ir_length dev \<le> 32"
    and "0 < total_ir_length c"
  shows "\<exists>t. select_instruction L k instr c = Some (True, c\<lparr>jc_tap := t\<rparr>)"
proof -
  let ?n = "total_ir_length c"
  obtain data where d: "ir_fill (nat k) instr 0 0 (jc_devices c) (replicate (bytes_for ?n) 0) = Some data"
    using ir_fill_defined [OF assms(3)] by blast
  have "length data = bytes_for ?n"
    using ir_fill_correct [OF d] bytes_for_ge [of ?n] by (simp add: total_ir_length_def)
  then have "readable (Some data) ?n" by (simp add: readable_def)
  from shift_ir_succeeds [OF assms(1,4) this, of "jc_tap c"]
  obtain t where "shift_ir L (Some data) (int ?n) (jc_tap c) = Some (True, t)" by blast
  with d assms(2) show ?thesis by (auto simp: select_instruction_def Let_def)
qed

lemma select_instruction_sync:
  assumes "select_instruction L k instr c = Some (True, c')" and "drives_tap L phys" and "in_sync phys (jc_tap c)"
  shows "in_sync phys (jc_tap c')"
proof -
  have k: "valid_index c k" using assms(1) by (simp add: select_instruction_def split: if_splits)
  from select_instruction_data [OF assms(1) k] obtain data where
    d: "shift_ir L (Some data) (int (total_ir_length c)) (jc_tap c) = Some (True, jc_tap c')"
    "length data = bytes_for (total_ir_length c)" by auto
  from shift_ir_ok(2) [OF d(1) assms(2,3)] d(2) show ?thesis by (simp add: readable_def)
qed

lemma read_bsr_succeeds:
  assumes "always_ok L" and "valid_index c k" and "cd_bsdl (jc_devices c ! nat k) = Some dev"
    and "0 < bd_boundary_length dev"
  shows "\<exists>u c'. read_bsr L k bsr partial c = Some (True, u, c')"
proof -
  let ?m = "read_len_of partial (bd_boundary_length dev) + dr_overhead c"
  have pos: "0 < ?m" using assms(4) by (auto simp: read_len_of_def)
  have fit: "readable (Some (replicate (bytes_for ?m) 0)) ?m" by (simp add: readable_def)
  obtain u t' where rd: "read_dr L [] (int ?m) (jc_tap c) = Some (True, u, t')"
    using shift_dr_succeeds(1) [OF assms(1) pos fit, of "[]" "jc_tap c"]
    unfolding read_dr_def Let_def nat_int by blast
  show ?thesis unfolding read_bsr_def using assms(2,3) rd by (simp add: Let_def del: of_nat_add)
qed

text \<open>The level of a cell below the read length, from the bits that were read.\<close>

lemma short_read_level:
  assumes "buf_bits raw n = take n reg" and "length raw = bytes_for n" and "n \<le> length reg"
    and "0 \<le> p" and "nat p < n"
  shows "raw_get_bit raw p = register_level reg p"
proof -
  have "buf_bit raw (nat p) = buf_bits raw n ! nat p" using assms(5) by simp
  also have "\<dots> = reg ! nat p" using assms(1,5) by simp
  finally show ?thesis using assms by (simp add: raw_get_bit_nat register_level_def)
qed

lemma sample_reports:
  assumes "always_ok L" and "drives_tap L phys" and "replies_tdo L lvl" and "in_sync phys (jc_tap c)"
    and "scanner_bsdl s c = Some dev" and "sample_opcode dev = Some op"
    and "\<forall>d \<in> set (jc_devices c). cd_ir_length d \<le> 32" and "0 < total_ir_length c"
    and "cells_ok dev" and "0 < bd_boundary_length dev"
    and "shows_chain phys lvl (concat regs)" and "chain_regs (length (jc_devices c)) (nat (sc_index s)) regs"
    and "length (regs ! nat (sc_index s)) = bd_boundary_length dev"
  shows "\<exists>r c'. scanner_sample L s c = Some (r, s, c') \<and> in_sync phys (jc_tap c') \<and>
           jc_devices c' = jc_devices c \<and>
           (\<forall>pin. sr_pin_states r pin =
              (if sc_filter s = [] \<or> pin \<in> set (sc_filter s)
               then pin_level (register_level (regs ! nat (sc_index s))) (bd_cells dev) pin else None))"
proof -
  let ?k = "sc_index s" and ?reg = "regs ! nat (sc_index s)"
  have k: "valid_index c ?k" "cd_bsdl (jc_devices c ! nat ?k) = Some dev"
    using assms(5) by (auto simp: scanner_bsdl_def scanner_ready_def split: if_splits)
  obtain t1 where sel: "select_instruction L ?k op c = Some (True, c\<lparr>jc_tap := t1\<rparr>)"
    using select_instruction_succeeds [OF assms(1) k(1) assms(7,8)] by blast
  have sync1: "in_sync phys t1" using select_instruction_sync [OF sel assms(2,4)] by simp
  obtain t2 where idle: "tap_clk_idle L 2 t1 = (True, t2)" using tap_clk_idle_succeeds [OF assms(1)] by blast
  have sync2: "in_sync phys t2" by (rule tap_clk_idle_ok(2) [OF idle assms(2) sync1])
  let ?c2 = "c\<lparr>jc_tap := t2\<rparr>"
  have c2: "valid_index ?c2 ?k" "cd_bsdl (jc_devices ?c2 ! nat ?k) = Some dev" "scanner_bsdl s ?c2 = Some dev"
    using k assms(5) by (auto simp: valid_index_def scanner_bsdl_def scanner_ready_def)
  define P where "P = max_needed_bsr_bits s ?c2"
  define n where "n = read_len_of P (bd_boundary_length dev)"
  obtain raw c3 where rd: "read_bsr L ?k [] P ?c2 = Some (True, raw, c3)"
    using read_bsr_succeeds [OF assms(1) c2(1,2) assms(10)] by blast
  have sync2': "in_sync phys (jc_tap ?c2)" using sync2 by simp
  have regs: "chain_regs (length (jc_devices ?c2)) (nat ?k) regs" using assms(12) by simp
  note raw = read_bsr_register [OF rd assms(2,3) sync2' c2(2) assms(11) regs assms(13), folded n_def]
  have nlen: "n \<le> length ?reg" "0 < n" using assms(10,13) by (auto simp: n_def read_len_of_def)
  then have "raw \<noteq> []" using raw(2) bytes_for_ge [of n] by auto
  note dec = decode_pin [OF this, of dev]
  have level: "pin_level (raw_get_bit raw) (bd_cells dev) pin = pin_level (register_level ?reg) (bd_cells dev) pin"
    if sel_pin: "sc_filter s = [] \<or> pin \<in> set (sc_filter s)" for pin
  proof (rule pin_level_cong)
    fix cell assume "deciding_cell (bd_cells dev) pin = Some cell"
    from deciding_cell_in [OF this] have cell: "cell \<in> set (bd_cells dev)" "has_pin cell" "bc_pin_name cell = pin"
      by auto
    then have pos: "0 \<le> bc_position cell" "bc_position cell < int (bd_boundary_length dev)"
      using assms(9) by (auto simp: cells_ok_def)
    have "nat (bc_position cell) < n"
    proof (cases "sc_filter s = []")
      case True
      then have "P = 0" by (simp add: P_def max_needed_bsr_bits_def)
      then show ?thesis using pos by (simp add: n_def read_len_of_def)
    next
      case False
      with sel_pin cell max_position_ge [of "bd_cells dev" "sc_filter s"]
      have "bc_position cell \<le> max_position (sc_filter s) (bd_cells dev)" by blast
      with False pos c2(3) show ?thesis
        by (auto simp: n_def P_def read_len_of_def max_needed_bsr_bits_def Let_def)
    qed
    with short_read_level [OF raw(1,2) nlen(1) pos(1)]
    show "raw_get_bit raw (bc_position cell) = register_level ?reg (bc_position cell)" by simp
  qed
  have "scanner_sample L s c =
      Some (let scan = decode_boundary_scan dev raw
            in if sc_filter s \<noteq> [] then scan\<lparr>sr_pin_states := filter_states (sc_filter s) (sr_pin_states scan)\<rparr>
               else scan, s, c3)"
    using assms(5,6) sel idle rd by (simp add: scanner_sample_def Let_def P_def)
  moreover have "in_sync phys (jc_tap c3)" "jc_devices c3 = jc_devices c" using raw(3,4) by simp_all
  ultimately show ?thesis using dec level by (auto simp: Let_def filter_states_def)
qed

section \<open>Properties\<close>

text \<open>C3: a sample reports, for every selected pin (every pin without a filter), the level that the
  boundary register holds in the cell deciding that pin, and nothing for other pins; so the read
  that stops after the last needed cell loses nothing.  The TAP stays in step.\<close>

theorem sample_reports_pins:
  assumes "always_ok L" and "drives_tap L phys" and "replies_tdo L lvl" and "in_sync phys (jc_tap c)"
    and "scanner_bsdl s c = Some dev" and "sample_opcode dev = Some op"
    and "\<forall>d \<in> set (jc_devices c). cd_ir_length d \<le> 32" and "0 < total_ir_length c"
    and "cells_ok dev" and "0 < bd_boundary_length dev"
    and "shows_chain phys lvl (concat regs)" and "chain_regs (length (jc_devices c)) (nat (sc_index s)) regs"
    and "length (regs ! nat (sc_index s)) = bd_boundary_length dev"
  shows "\<exists>r c'. scanner_sample L s c = Some (r, s, c') \<and> in_sync phys (jc_tap c') \<and>
           jc_devices c' = jc_devices c \<and>
           (\<forall>pin. sr_pin_states r pin =
              (if sc_filter s = [] \<or> pin \<in> set (sc_filter s)
               then pin_level (register_level (regs ! nat (sc_index s))) (bd_cells dev) pin else None))"
  by (rule sample_reports [OF assms])

definition demo_cell :: "nat \<Rightarrow> string \<Rightarrow> cell_function \<Rightarrow> boundary_cell" where
  "demo_cell pos pin f = default_cell\<lparr>bc_position := int pos, bc_pin_name := pin, bc_function := f\<rparr>"

text \<open>A device with an input pin A, a pin B with an output and an input cell, and an output pin C.\<close>

definition demo_device :: bsdl_device where
  "demo_device = default_device\<lparr>bd_instruction_length := 6,
     bd_instructions := [''SAMPLE'' \<mapsto> 1, ''EXTEST'' \<mapsto> 0x26], bd_boundary_length := 5,
     bd_cells := [demo_cell 0 ''A'' Cf_INPUT, (demo_cell 1 ''B'' Cf_OUTPUT3)\<lparr>bc_disabled_by := 2, bc_disable_value := 1\<rparr>,
       demo_cell 2 ''*'' Cf_CONTROL, demo_cell 3 ''B'' Cf_INPUT, demo_cell 4 ''C'' Cf_OUTPUT2]\<rparr>"

definition demo_chain :: "(tap_state \<times> bool) chain" where
  "demo_chain =
     \<lparr>jc_tap = \<lparr>tap_st = RUN_TEST_IDLE, tap_error = [], tap_dev = (RUN_TEST_IDLE, False)\<rparr>,
      jc_devices = [(new_device 0 0x13722093 6)\<lparr>cd_bsdl := Some demo_device\<rparr>, new_device 1 0x4BA00477 4],
      jc_error = []\<rparr>"

lemma demo_cells_ok: "cells_ok demo_device"
  by (auto simp: cells_ok_def demo_device_def demo_cell_def)

lemma sample_reports_pins_witness:
  "\<exists>r c'. scanner_sample (chain_link [True, False, False, True, False, False])
       \<lparr>sc_index = 0, sc_filter = [''A''], sc_error = []\<rparr> demo_chain
       = Some (r, \<lparr>sc_index = 0, sc_filter = [''A''], sc_error = []\<rparr>, c') \<and>
     sr_pin_states r ''A'' = Some Ps_HIGH \<and> sr_pin_states r ''B'' = None"
proof -
  let ?regs = "[[True, False, False, True, False], [False]]"
  let ?s = "\<lparr>sc_index = 0, sc_filter = [''A''], sc_error = []\<rparr>"
  have sync: "in_sync id (jc_tap demo_chain)" by (simp add: in_sync_def demo_chain_def)
  have dev: "scanner_bsdl ?s demo_chain = Some demo_device"
    by (simp add: scanner_bsdl_def scanner_ready_def valid_index_def demo_chain_def)
  have op: "sample_opcode demo_device = Some 1"
    by (simp add: sample_opcode_def get_instruction_def demo_device_def)
  have ir: "\<forall>d \<in> set (jc_devices demo_chain). cd_ir_length d \<le> 32" "0 < total_ir_length demo_chain"
    by (simp_all add: demo_chain_def new_device_def total_ir_length_def)
  have len: "0 < bd_boundary_length demo_device" "length (?regs ! nat (sc_index ?s)) = bd_boundary_length demo_device"
    by (simp_all add: demo_device_def)
  have regs: "chain_regs (length (jc_devices demo_chain)) (nat (sc_index ?s)) ?regs"
    by (auto simp: chain_regs_def demo_chain_def less_Suc_eq)
  have sc: "shows_chain id (chain_level (concat ?regs)) (concat ?regs)" by (rule chain_link_ok(3))
  have lv: "pin_level (register_level [True, False, False, True, False]) (bd_cells demo_device) ''A'' = Some Ps_HIGH"
    by (simp add: pin_level_def deciding_cell_def demo_device_def demo_cell_def default_cell_def has_pin_def is_input_def
        register_level_def pin_state_of_def)
  from sample_reports_pins [OF chain_link_always_ok [of "concat ?regs"] chain_link_ok(1,2) sync dev op ir demo_cells_ok len(1) sc regs len(2)]
  show ?thesis using lv by auto
qed

end
