(* ===== verification/Pin_Driver.thy ===== *)
theory Pin_Driver
  imports Scanner
begin

text \<open>
  src/src/boundary_scan/pin_driver.{h,cpp}: the staged boundary register of a device, and
  \<open>PinDriver\<close>, which drives pins through EXTEST.

  The staged register is a byte vector written with \<open>setBit\<close> (which grows it) and read with
  \<open>getBit\<close>.  The locale \<open>bit_store\<close> states the two laws the staging code relies on and derives what a
  series of writes leaves behind; \<open>setBit\<close>/\<open>getBit\<close> are interpreted as one.  A failing operation of
  the staging functions leaves the vector alone, so its result is the error text or the new vector.
\<close>

unbundle bit_operations_syntax

section \<open>Bit stores\<close>

locale bit_store =
  fixes get :: "'b \<Rightarrow> int \<Rightarrow> bool" and put :: "'b \<Rightarrow> int \<Rightarrow> bool \<Rightarrow> 'b"
  assumes get_put: "get (put b p v) q = (if q = p \<and> 0 \<le> p then v else get b q)"
begin

lemma get_put_same: "0 \<le> p \<Longrightarrow> get (put b p v) p = v"
  by (simp add: get_put)

lemma get_put_other: "q \<noteq> p \<Longrightarrow> get (put b p v) q = get b q"
  by (simp add: get_put)

lemma get_put_negative: "p < 0 \<Longrightarrow> get (put b p v) q = get b q"
  by (simp add: get_put)

text \<open>A series of writes: the last write of a position counts.\<close>

lemma get_fold_other:
  "(\<forall>x \<in> set xs. pos x \<noteq> q) \<Longrightarrow> get (fold (\<lambda>x b. put b (pos x) (val x)) xs b) q = get b q"
  by (induction xs arbitrary: b) (simp_all add: get_put)

lemma get_fold:
  "x \<in> set xs \<Longrightarrow> 0 \<le> pos x \<Longrightarrow> (\<forall>y \<in> set xs. pos y = pos x \<longrightarrow> val y = val x)
     \<Longrightarrow> get (fold (\<lambda>x b. put b (pos x) (val x)) xs b) (pos x) = val x"
proof (induction xs rule: rev_induct)
  case (snoc y xs)
  show ?case
  proof (cases "pos y = pos x")
    case True
    moreover from this snoc.prems(3) have "val y = val x" by (auto dest!: bspec [of _ _ y])
    ultimately show ?thesis using snoc.prems(2) by (simp add: get_put)
  next
    case False
    then have "x \<in> set xs" using snoc.prems(1) by auto
    moreover have "\<forall>z \<in> set xs. pos z = pos x \<longrightarrow> val z = val x" using snoc.prems(3) by simp
    ultimately have "get (fold (\<lambda>x b. put b (pos x) (val x)) xs b) (pos x) = val x"
      using snoc.IH snoc.prems(2) by blast
    with False show ?thesis by (simp add: get_put)
  qed
qed simp

end

section \<open>The staged register\<close>

definition set_bit_at :: "byte list \<Rightarrow> int \<Rightarrow> bool \<Rightarrow> byte list" where
  "set_bit_at buf position v =
     (if position < 0 then buf
      else
        let byte_idx = nat position div 8; bit_idx = nat position mod 8;
            buf1 = (if length buf \<le> byte_idx then resize_bytes (byte_idx + 1) buf else buf)
        in if v then buf1[byte_idx := buf1 ! byte_idx OR push_bit bit_idx 1]
           else buf1[byte_idx := buf1 ! byte_idx AND NOT (push_bit bit_idx 1)])"

definition get_bit_at :: "byte list \<Rightarrow> int \<Rightarrow> bool" where
  "get_bit_at buf position \<longleftrightarrow>
     (if position < 0 then False
      else if length buf \<le> nat position div 8 then False
      else bit (buf ! (nat position div 8)) (nat position mod 8))"

lemma get_bit_at_nat: "0 \<le> p \<Longrightarrow> get_bit_at buf p = buf_bit buf (nat p)"
  by (auto simp: get_bit_at_def buf_bit_def)

lemma buf_bit_update:
  assumes "n div 8 < length buf"
  shows "buf_bit (buf[n div 8 := buf ! (n div 8) OR push_bit (n mod 8) 1]) i \<longleftrightarrow> i = n \<or> buf_bit buf i"
    and "buf_bit (buf[n div 8 := buf ! (n div 8) AND NOT (push_bit (n mod 8) 1)]) i \<longleftrightarrow> i \<noteq> n \<and> buf_bit buf i"
proof -
  show "buf_bit (buf[n div 8 := buf ! (n div 8) OR push_bit (n mod 8) 1]) i \<longleftrightarrow> i = n \<or> buf_bit buf i"
    using buf_bit_or_bit [of buf n i] assms by (auto simp: buf_or_bit_def)
  have "i mod 8 < 8" by simp
  then show "buf_bit (buf[n div 8 := buf ! (n div 8) AND NOT (push_bit (n mod 8) 1)]) i \<longleftrightarrow> i \<noteq> n \<and> buf_bit buf i"
    using assms div_mod_8_eq_iff [of i n]
    by (cases "i div 8 = n div 8") (auto simp: buf_bit_def bit_and_iff bit_not_iff)
qed

lemma set_bit_at_bit:
  assumes "0 \<le> p"
  shows "buf_bit (set_bit_at buf p v) i = (if i = nat p then v else buf_bit buf i)"
proof -
  define n where "n = nat p"
  define buf1 where "buf1 = (if length buf \<le> n div 8 then resize_bytes (n div 8 + 1) buf else buf)"
  have len: "n div 8 < length buf1" by (auto simp: buf1_def resize_bytes_def)
  have same: "buf_bit buf1 i = buf_bit buf i" for i by (simp add: buf1_def buf_bit_resize_grow)
  have "set_bit_at buf p v = (if v then buf1[n div 8 := buf1 ! (n div 8) OR push_bit (n mod 8) 1]
        else buf1[n div 8 := buf1 ! (n div 8) AND NOT (push_bit (n mod 8) 1)])"
    using assms by (simp add: set_bit_at_def Let_def n_def buf1_def)
  then show ?thesis
    using buf_bit_update [OF len, of i] same [of i] by (cases v; cases "i = n") (simp_all add: n_def)
qed

interpretation bsr: bit_store get_bit_at set_bit_at
proof
  fix b p v q
  show "get_bit_at (set_bit_at b p v) q = (if q = p \<and> 0 \<le> p then v else get_bit_at b q)"
  proof (cases "0 \<le> p \<and> 0 \<le> q")
    case True
    then show ?thesis by (simp add: get_bit_at_nat set_bit_at_bit eq_nat_nat_iff)
  next
    case False
    then show ?thesis
      by (cases "p < 0") (simp_all add: set_bit_at_def get_bit_at_def)
  qed
qed

section \<open>Staging\<close>

definition starts_with :: "string \<Rightarrow> string \<Rightarrow> bool" where
  "starts_with v prefix \<longleftrightarrow> take (length prefix) v = prefix"

definition ps_pin :: "string \<Rightarrow> bool" where
  "ps_pin pin_name \<longleftrightarrow> starts_with pin_name ''PS_DDR_'' \<or> starts_with pin_name ''PS_MIO''
     \<or> pin_name = ''PS_SRST_B'' \<or> pin_name = ''PS_POR_B''"

definition extest_block_text :: string where
  "extest_block_text = ''EXTEST drive is blocked for this device: its boundary register includes live PS/DDR/MIO pins, so entering EXTEST can freeze or reset the running Zynq processing system.''"

definition device_allows_live_extest :: "bsdl_device \<Rightarrow> bool \<times> string" where
  "device_allows_live_extest d =
     (if \<exists>pin_name \<in> dom (bd_pins d). ps_pin pin_name then (False, extest_block_text) else (True, []))"

definition stage_pin_output :: "byte list \<Rightarrow> bsdl_device \<Rightarrow> string \<Rightarrow> int \<Rightarrow> string + byte list" where
  "stage_pin_output bsr_data d pin_name v =
     (case get_output_cell_for_pin d pin_name of
        None \<Rightarrow> Inl (''Pin '' @ [CHR 0x27] @ pin_name @ [CHR 0x27] @ '' is not drivable (no output cell)'')
      | Some output_cell \<Rightarrow>
          let b1 = set_bit_at bsr_data (bc_position output_cell) (v \<noteq> 0)
          in Inr (case get_control_cell_for d output_cell of
                 None \<Rightarrow> b1
               | Some control_cell \<Rightarrow> set_bit_at b1 (bc_position control_cell) (bc_disable_value output_cell = 0)))"

definition stage_pin_high_z :: "byte list \<Rightarrow> bsdl_device \<Rightarrow> string \<Rightarrow> string + byte list" where
  "stage_pin_high_z bsr_data d pin_name =
     (case get_output_cell_for_pin d pin_name of
        None \<Rightarrow> Inl (''Pin '' @ [CHR 0x27] @ pin_name @ [CHR 0x27] @ '' is not drivable'')
      | Some output_cell \<Rightarrow>
          if bc_function output_cell \<noteq> Cf_OUTPUT3 \<and> bc_function output_cell \<noteq> Cf_BIDIR
          then Inl (''Pin '' @ [CHR 0x27] @ pin_name @ [CHR 0x27] @ '' does not support tri-state'')
          else case get_control_cell_for d output_cell of
            None \<Rightarrow> Inl (''Pin '' @ [CHR 0x27] @ pin_name @ [CHR 0x27] @ '' has no control cell for high-Z'')
          | Some control_cell \<Rightarrow>
              Inr (set_bit_at bsr_data (bc_position control_cell) (bc_disable_value output_cell \<noteq> 0)))"

definition get_staged_pin_value :: "byte list \<Rightarrow> bsdl_device \<Rightarrow> string \<Rightarrow> int" where
  "get_staged_pin_value bsr_data d pin_name =
     (case get_output_cell_for_pin d pin_name of
        None \<Rightarrow> -1
      | Some cell \<Rightarrow>
          (case get_control_cell_for d cell of
             None \<Rightarrow> (if get_bit_at bsr_data (bc_position cell) then 1 else 0)
           | Some control \<Rightarrow>
               if of_bool (get_bit_at bsr_data (bc_position control)) = bc_disable_value cell then -1
               else if get_bit_at bsr_data (bc_position cell) then 1 else 0))"

definition apply_bsr_snapshot :: "bsdl_device \<Rightarrow> byte list \<Rightarrow> byte list" where
  "apply_bsr_snapshot d raw_bsr =
     (let required_bytes = bytes_for (bd_boundary_length d);
          b1 = take required_bytes raw_bsr @ replicate (required_bytes - length raw_bsr) 0;
          extra_bits = required_bytes * 8 - bd_boundary_length d
      in if 0 < extra_bits \<and> b1 \<noteq> []
         then b1[length b1 - 1 := last b1 AND drop_bit extra_bits 0xFF] else b1)"

definition init_bsr_from_safe_values :: "bsdl_device \<Rightarrow> byte list" where
  "init_bsr_from_safe_values d =
     fold (\<lambda>c b. set_bit_at b (bc_position c) (bc_safe_value c = 1)) (bd_cells d)
       (replicate (bytes_for (bd_boundary_length d)) 0)"

section \<open>The driver\<close>

record pin_driver =
  pd_index :: int
  pd_bsr :: "byte list"
  pd_error :: string

definition pd_bsdl :: "pin_driver \<Rightarrow> 'd chain \<Rightarrow> bsdl_device option" where
  "pd_bsdl p c = (if valid_index c (pd_index p) then cd_bsdl (jc_devices c ! nat (pd_index p)) else None)"

definition pd_ready :: "pin_driver \<Rightarrow> 'd chain \<Rightarrow> bool" where
  "pd_ready p c \<longleftrightarrow> pd_bsdl p c \<noteq> None"

definition extest_allowed :: "pin_driver \<Rightarrow> 'd chain \<Rightarrow> bool" where
  "extest_allowed p c = (case pd_bsdl p c of None \<Rightarrow> False | Some dev \<Rightarrow> fst (device_allows_live_extest dev))"

definition extest_blocked_reason :: "pin_driver \<Rightarrow> 'd chain \<Rightarrow> string" where
  "extest_blocked_reason p c =
     (case pd_bsdl p c of None \<Rightarrow> ''Driver not ready'' | Some dev \<Rightarrow> snd (device_allows_live_extest dev))"

definition init_bsr_from_safe :: "'d chain \<Rightarrow> pin_driver \<Rightarrow> pin_driver" where
  "init_bsr_from_safe c p =
     (case pd_bsdl p c of None \<Rightarrow> p | Some dev \<Rightarrow> p\<lparr>pd_bsr := init_bsr_from_safe_values dev\<rparr>)"

definition load_snapshot :: "'d chain \<Rightarrow> byte list \<Rightarrow> pin_driver \<Rightarrow> pin_driver" where
  "load_snapshot c raw_bsr p =
     (case pd_bsdl p c of None \<Rightarrow> p | Some dev \<Rightarrow> p\<lparr>pd_bsr := apply_bsr_snapshot dev raw_bsr\<rparr>)"

definition capture_current_state ::
  "'d link \<Rightarrow> pin_driver \<Rightarrow> 'd chain \<Rightarrow> (bool \<times> pin_driver \<times> 'd chain) option" where
  "capture_current_state L p c =
     (case pd_bsdl p c of
        None \<Rightarrow> Some (False, p\<lparr>pd_error := ''Driver not ready''\<rparr>, c)
      | Some dev \<Rightarrow>
          (case sample_opcode dev of
             None \<Rightarrow> Some (False, p\<lparr>pd_error := ''SAMPLE instruction not found in BSDL''\<rparr>, c)
           | Some op \<Rightarrow> do {
               (ok, c1) \<leftarrow> select_instruction L (pd_index p) op c;
               if \<not> ok then Some (False, p\<lparr>pd_error := jc_error c1\<rparr>, c1)
               else do {
                 let c2 = c1\<lparr>jc_tap := snd (tap_clk_idle L 2 (jc_tap c1))\<rparr>;
                 (ok2, raw, c3) \<leftarrow> read_bsr L (pd_index p) [] 0 c2;
                 if \<not> ok2 then Some (False, p\<lparr>pd_error := jc_error c3\<rparr>, c3)
                 else Some (True, load_snapshot c3 raw p, c3)
               }
             }))"

definition pin_driver_new :: "'d link \<Rightarrow> int \<Rightarrow> 'd chain \<Rightarrow> (pin_driver \<times> 'd chain) option" where
  "pin_driver_new L index c =
     (let p = \<lparr>pd_index = index, pd_bsr = [], pd_error = []\<rparr>
      in if \<not> pd_ready p c then Some (p, c)
         else do {
           (ok, p1, c1) \<leftarrow> capture_current_state L p c;
           Some (if ok then p1 else init_bsr_from_safe c1 p1, c1)
         })"

text \<open>\<open>if (bsr_data_.empty() && !captureCurrentState()) initBsrFromSafe();\<close>\<close>

definition ensure_bsr :: "'d link \<Rightarrow> pin_driver \<Rightarrow> 'd chain \<Rightarrow> (pin_driver \<times> 'd chain) option" where
  "ensure_bsr L p c =
     (if pd_bsr p \<noteq> [] then Some (p, c)
      else do {
        (ok, p1, c1) \<leftarrow> capture_current_state L p c;
        Some (if ok then p1 else init_bsr_from_safe c1 p1, c1)
      })"

definition store_staged :: "string + byte list \<Rightarrow> pin_driver \<Rightarrow> bool \<times> pin_driver" where
  "store_staged r p = (case r of Inl e \<Rightarrow> (False, p\<lparr>pd_error := e\<rparr>) | Inr b \<Rightarrow> (True, p\<lparr>pd_bsr := b\<rparr>))"

definition set_pin ::
  "'d link \<Rightarrow> string \<Rightarrow> int \<Rightarrow> pin_driver \<Rightarrow> 'd chain \<Rightarrow> (bool \<times> pin_driver \<times> 'd chain) option" where
  "set_pin L pin_name v p c =
     (case pd_bsdl p c of
        None \<Rightarrow> Some (False, p\<lparr>pd_error := ''Driver not ready''\<rparr>, c)
      | Some dev \<Rightarrow>
          if \<not> extest_allowed p c then Some (False, p\<lparr>pd_error := extest_blocked_reason p c\<rparr>, c)
          else do {
            (p1, c1) \<leftarrow> ensure_bsr L p c;
            Some (case store_staged (stage_pin_output (pd_bsr p1) dev pin_name v) p1 of
                    (ok, p2) \<Rightarrow> (ok, p2, c1))
          })"

definition set_pin_high_z ::
  "'d link \<Rightarrow> string \<Rightarrow> pin_driver \<Rightarrow> 'd chain \<Rightarrow> (bool \<times> pin_driver \<times> 'd chain) option" where
  "set_pin_high_z L pin_name p c =
     (case pd_bsdl p c of
        None \<Rightarrow> Some (False, p\<lparr>pd_error := ''Driver not ready''\<rparr>, c)
      | Some dev \<Rightarrow>
          if \<not> extest_allowed p c then Some (False, p\<lparr>pd_error := extest_blocked_reason p c\<rparr>, c)
          else do {
            (p1, c1) \<leftarrow> ensure_bsr L p c;
            Some (case store_staged (stage_pin_high_z (pd_bsr p1) dev pin_name) p1 of
                    (ok, p2) \<Rightarrow> (ok, p2, c1))
          })"

definition apply_outputs ::
  "'d link \<Rightarrow> pin_driver \<Rightarrow> 'd chain \<Rightarrow> (bool \<times> pin_driver \<times> 'd chain) option" where
  "apply_outputs L p c =
     (case pd_bsdl p c of
        None \<Rightarrow> Some (False, p\<lparr>pd_error := ''Driver not ready''\<rparr>, c)
      | Some dev \<Rightarrow>
          if \<not> extest_allowed p c then Some (False, p\<lparr>pd_error := extest_blocked_reason p c\<rparr>, c)
          else do {
            (p1, c1) \<leftarrow> ensure_bsr L p c;
            case extest_opcode dev of
              None \<Rightarrow> Some (False, p1\<lparr>pd_error := ''EXTEST instruction not found in BSDL''\<rparr>, c1)
            | Some op \<Rightarrow> do {
                (ok, c2) \<leftarrow> select_instruction L (pd_index p) op c1;
                if \<not> ok then Some (False, p1\<lparr>pd_error := jc_error c2\<rparr>, c2)
                else do {
                  (ok2, c3) \<leftarrow> write_bsr L (pd_index p) (pd_bsr p1) (bd_boundary_length dev) c2;
                  if \<not> ok2 then Some (False, p1\<lparr>pd_error := jc_error c3\<rparr>, c3) else Some (True, p1, c3)
                }
              }
          })"

definition reset_to_safe :: "'d chain \<Rightarrow> pin_driver \<Rightarrow> pin_driver" where
  "reset_to_safe c p = init_bsr_from_safe c p"

definition get_pin_value :: "pin_driver \<Rightarrow> 'd chain \<Rightarrow> string \<Rightarrow> int" where
  "get_pin_value p c pin_name =
     (case pd_bsdl p c of None \<Rightarrow> -1 | Some dev \<Rightarrow> get_staged_pin_value (pd_bsr p) dev pin_name)"

section \<open>What staging changes\<close>

definition control_of :: "bsdl_device \<Rightarrow> string \<Rightarrow> boundary_cell option" where
  "control_of d pin = Option.bind (get_output_cell_for_pin d pin) (get_control_cell_for d)"

definition pin_positions :: "bsdl_device \<Rightarrow> string \<Rightarrow> int set" where
  "pin_positions d pin =
     bc_position ` (set_option (get_output_cell_for_pin d pin) \<union> set_option (control_of d pin))"

text \<open>The output cell and its control cell have positions, and different ones.\<close>

definition pin_cells_ok :: "bsdl_device \<Rightarrow> string \<Rightarrow> bool" where
  "pin_cells_ok d pin \<longleftrightarrow>
     (\<forall>oc \<in> set_option (get_output_cell_for_pin d pin). 0 \<le> bc_position oc \<and>
        (\<forall>cc \<in> set_option (get_control_cell_for d oc). 0 \<le> bc_position cc \<and> bc_position cc \<noteq> bc_position oc))"

lemma stage_output_frame:
  assumes "stage_pin_output b d pin v = Inr b'" and "q \<notin> pin_positions d pin"
  shows "get_bit_at b' q = get_bit_at b q"
  using assms
  by (auto simp: stage_pin_output_def pin_positions_def control_of_def Let_def bsr.get_put split: option.splits)

lemma stage_output_value:
  assumes "stage_pin_output b d pin v = Inr b'" and "pin_cells_ok d pin"
  shows "get_staged_pin_value b' d pin = (if v \<noteq> 0 then 1 else 0)"
proof -
  obtain oc where oc: "get_output_cell_for_pin d pin = Some oc"
    using assms(1) by (auto simp: stage_pin_output_def split: option.splits)
  show ?thesis
  proof (cases "get_control_cell_for d oc")
    case None
    with assms oc show ?thesis
      by (auto simp: stage_pin_output_def get_staged_pin_value_def pin_cells_ok_def bsr.get_put)
  next
    case (Some cc)
    have "0 \<le> bc_position oc" "0 \<le> bc_position cc" "bc_position cc \<noteq> bc_position oc"
      using assms(2) oc Some by (auto simp: pin_cells_ok_def)
    with assms(1) oc Some show ?thesis
      by (auto simp: stage_pin_output_def get_staged_pin_value_def bsr.get_put)
  qed
qed

lemma stage_high_z_frame:
  assumes "stage_pin_high_z b d pin = Inr b'" and "\<forall>cc \<in> set_option (control_of d pin). q \<noteq> bc_position cc"
  shows "get_bit_at b' q = get_bit_at b q"
  using assms
  by (auto simp: stage_pin_high_z_def control_of_def bsr.get_put split: option.splits if_splits)

lemma stage_high_z_value:
  assumes "stage_pin_high_z b d pin = Inr b'" and "pin_cells_ok d pin"
    and "\<forall>oc \<in> set_option (get_output_cell_for_pin d pin). bc_disable_value oc \<in> {0, 1}"
  shows "get_staged_pin_value b' d pin = -1"
proof -
  obtain oc cc where oc: "get_output_cell_for_pin d pin = Some oc" "get_control_cell_for d oc = Some cc"
    using assms(1) by (auto simp: stage_pin_high_z_def split: option.splits if_splits)
  moreover have "0 \<le> bc_position cc" "bc_disable_value oc = 0 \<or> bc_disable_value oc = 1"
    using assms(2,3) oc by (auto simp: pin_cells_ok_def)
  ultimately show ?thesis using assms(1)
    by (auto simp: stage_pin_high_z_def get_staged_pin_value_def bsr.get_put split: if_splits)
qed

lemma staged_value_cong:
  "(\<forall>q \<in> pin_positions d pin. get_bit_at b' q = get_bit_at b q)
     \<Longrightarrow> get_staged_pin_value b' d pin = get_staged_pin_value b d pin"
  by (auto simp: get_staged_pin_value_def pin_positions_def control_of_def split: option.splits)

section \<open>Snapshots\<close>

lemma bit_FF: "bit (drop_bit k (0xFF :: byte)) i \<longleftrightarrow> i + k < 8"
proof -
  have "(0xFF :: byte) = -1" by simp
  show ?thesis unfolding \<open>(0xFF :: byte) = -1\<close> by (auto simp: bit_mask_iff)
qed

lemma apply_snapshot_bits:
  "length (apply_bsr_snapshot d raw) = bytes_for (bd_boundary_length d)"
  "buf_bit (apply_bsr_snapshot d raw) i \<longleftrightarrow> i < bd_boundary_length d \<and> buf_bit raw i"
proof -
  define n m where "n = bd_boundary_length d" and "m = bytes_for n"
  define b1 where "b1 = take m raw @ replicate (m - length raw) 0"
  have len: "length b1 = m" by (simp add: b1_def)
  have bits: "buf_bit b1 i \<longleftrightarrow> i < 8 * m \<and> buf_bit raw i" for i
    by (auto simp: buf_bit_def b1_def nth_append less_mult_imp_div_less)
  have nm: "n \<le> 8 * m" "8 * m < n + 8" by (auto simp: m_def bytes_for_def)
  have eq: "apply_bsr_snapshot d raw = (if 0 < m * 8 - n \<and> b1 \<noteq> []
      then b1[m - 1 := last b1 AND drop_bit (m * 8 - n) 0xFF] else b1)"
    unfolding apply_bsr_snapshot_def Let_def n_def [symmetric] m_def [symmetric] b1_def [symmetric] len ..
  show "length (apply_bsr_snapshot d raw) = bytes_for (bd_boundary_length d)"
    using len by (simp add: eq m_def n_def)
  show "buf_bit (apply_bsr_snapshot d raw) i \<longleftrightarrow> i < bd_boundary_length d \<and> buf_bit raw i"
  proof (cases "0 < m * 8 - n \<and> b1 \<noteq> []")
    case True
    then have m: "0 < m" "last b1 = b1 ! (m - 1)" using len by (auto simp: last_conv_nth)
    have A: "buf_bit (b1[m - 1 := last b1 AND drop_bit (m * 8 - n) 0xFF]) i \<longleftrightarrow>
        buf_bit b1 i \<and> (i div 8 = m - 1 \<longrightarrow> i mod 8 + (m * 8 - n) < 8)"
      using m len by (auto simp: buf_bit_def nth_list_update bit_and_iff bit_FF)
    have B: "(i div 8 = m - 1 \<longrightarrow> i mod 8 + (m * 8 - n) < 8) \<longleftrightarrow> i < n" if "i < 8 * m"
    proof (cases "i div 8 = m - 1")
      case True
      obtain k where k: "m = Suc k" using m(1) by (cases m) auto
      define r where "r = i mod 8"
      have i: "i = 8 * k + r" using True k mult_div_mod_eq [of 8 i] by (simp add: r_def)
      have "r + (Suc k * 8 - n) < 8 \<longleftrightarrow> 8 * k + r < n" using nm unfolding k by auto
      moreover have "i mod 8 = r" by (simp only: r_def)
      ultimately show ?thesis using True k i by simp
    next
      case False
      obtain k where k: "m = Suc k" using m(1) by (cases m) auto
      have "i div 8 < Suc k" using that k by simp
      with False k have "i div 8 < k" by simp
      then have "i < 8 * k" by simp
      moreover have "8 * k < n" using nm(2) k by simp
      ultimately have "i < n" by linarith
      with False show ?thesis by blast
    qed
    have C: "\<not> i < n" if "\<not> i < 8 * m" using that nm(1) by linarith
    have "apply_bsr_snapshot d raw = b1[m - 1 := last b1 AND drop_bit (m * 8 - n) 0xFF]"
      unfolding eq using True by (rule if_P)
    then have D: "buf_bit (apply_bsr_snapshot d raw) i \<longleftrightarrow>
        buf_bit b1 i \<and> (i div 8 = m - 1 \<longrightarrow> i mod 8 + (m * 8 - n) < 8)"
      using A by (simp only:)
    show ?thesis
    proof (cases "i < 8 * m")
      case True
      from D [unfolded B [OF True] bits [of i]] True show ?thesis unfolding n_def [symmetric] by blast
    next
      case False
      with C have "\<not> i < n" by blast
      with D False show ?thesis unfolding n_def [symmetric] bits [of i] by blast
    qed
  next
    case False
    then have "n = 8 * m" using nm len by (cases "b1 = []") auto
    with False bits show ?thesis by (simp add: eq n_def [symmetric])
  qed
qed

section \<open>The guard and the scans\<close>

lemma ensure_bsr_staged: "pd_bsr p \<noteq> [] \<Longrightarrow> ensure_bsr L p c = Some (p, c)"
  by (simp add: ensure_bsr_def)

lemma apply_outputs_scans:
  assumes "apply_outputs L p c = Some (True, p', c')" and "pd_bsr p \<noteq> []"
  shows "\<exists>dev op c2. pd_bsdl p c = Some dev \<and> extest_opcode dev = Some op \<and> fst (device_allows_live_extest dev) \<and>
           select_instruction L (pd_index p) op c = Some (True, c2) \<and>
           write_bsr L (pd_index p) (pd_bsr p) (bd_boundary_length dev) c2 = Some (True, c') \<and> p' = p"
  using assms
  by (auto simp: apply_outputs_def ensure_bsr_def extest_allowed_def
      split: option.splits if_splits bind_splits prod.splits)

lemma capture_success:
  assumes "always_ok L" and "drives_tap L phys" and "replies_tdo L lvl" and "in_sync phys (jc_tap c)"
    and "pd_bsdl p c = Some dev" and "sample_opcode dev = Some op"
    and "\<forall>d \<in> set (jc_devices c). cd_ir_length d \<le> 32" and "0 < total_ir_length c"
    and "0 < bd_boundary_length dev" and "shows_chain phys lvl (concat regs)"
    and "chain_regs (length (jc_devices c)) (nat (pd_index p)) regs"
    and "length (regs ! nat (pd_index p)) = bd_boundary_length dev"
  shows "\<exists>p' c'. capture_current_state L p c = Some (True, p', c') \<and> in_sync phys (jc_tap c') \<and>
           length (pd_bsr p') = bytes_for (bd_boundary_length dev) \<and>
           buf_bits (pd_bsr p') (bd_boundary_length dev) = regs ! nat (pd_index p)"
proof -
  let ?k = "pd_index p" and ?n = "bd_boundary_length dev"
  have k: "valid_index c ?k" "cd_bsdl (jc_devices c ! nat ?k) = Some dev"
    using assms(5) by (auto simp: pd_bsdl_def split: if_splits)
  obtain t1 where sel: "select_instruction L ?k op c = Some (True, c\<lparr>jc_tap := t1\<rparr>)"
    using select_instruction_succeeds [OF assms(1) k(1) assms(7,8)] by blast
  have sync1: "in_sync phys t1" using select_instruction_sync [OF sel assms(2,4)] by simp
  obtain t2 where idle: "tap_clk_idle L 2 t1 = (True, t2)" using tap_clk_idle_succeeds [OF assms(1)] by blast
  have sync2: "in_sync phys (jc_tap (c\<lparr>jc_tap := t2\<rparr>))" using tap_clk_idle_ok(2) [OF idle assms(2) sync1] by simp
  have c2: "valid_index (c\<lparr>jc_tap := t2\<rparr>) ?k" "cd_bsdl (jc_devices (c\<lparr>jc_tap := t2\<rparr>) ! nat ?k) = Some dev"
    using k by (auto simp: valid_index_def)
  obtain raw c3 where rd: "read_bsr L ?k [] 0 (c\<lparr>jc_tap := t2\<rparr>) = Some (True, raw, c3)"
    using read_bsr_succeeds [OF assms(1) c2 assms(9)] by blast
  have regs: "chain_regs (length (jc_devices (c\<lparr>jc_tap := t2\<rparr>))) (nat ?k) regs" using assms(11) by simp
  have len: "read_len_of 0 ?n = ?n" by (simp add: read_len_of_def)
  note raw = read_bsr_register [OF rd assms(2,3) sync2 c2(2) assms(10) regs assms(12), unfolded len]
  have bsdl: "pd_bsdl p c3 = Some dev" using raw(4) assms(5) by (simp add: pd_bsdl_def valid_index_def split: if_splits)
  have "capture_current_state L p c = Some (True, load_snapshot c3 raw p, c3)"
    using assms(5,6) sel idle rd by (simp add: capture_current_state_def Let_def)
  moreover have "buf_bits (apply_bsr_snapshot dev raw) ?n = buf_bits raw ?n"
    by (rule buf_bits_cong) (simp add: apply_snapshot_bits)
  ultimately show ?thesis
    using raw bsdl assms(12) by (auto simp: load_snapshot_def apply_snapshot_bits)
qed

section \<open>Properties\<close>

text \<open>Staging an output value is read back: after \<open>stagePinOutput\<close> the pin's staged value is the one
  that was set, its driver is enabled, and no cell but the pin's output and control cell changed.\<close>

theorem stage_output_reads_back:
  assumes "stage_pin_output b d pin v = Inr b'" and "pin_cells_ok d pin"
  shows "get_staged_pin_value b' d pin = (if v \<noteq> 0 then 1 else 0) \<and>
         (\<forall>q. q \<notin> pin_positions d pin \<longrightarrow> get_bit_at b' q = get_bit_at b q)"
  using stage_output_value [OF assms] stage_output_frame [OF assms(1)] by blast

lemma demo_pin_B: "get_output_cell_for_pin demo_device ''B'' = Some (bd_cells demo_device ! 1)"
  by (simp add: get_output_cell_for_pin_def demo_device_def demo_cell_def default_cell_def is_output_def)

lemma demo_pin_B_ok: "pin_cells_ok demo_device ''B''"
  unfolding pin_cells_ok_def demo_pin_B
  by (simp add: get_control_cell_for_def get_cell_at_def demo_device_def demo_cell_def default_cell_def)

lemma demo_stage_B: "stage_pin_output [0x04] demo_device ''B'' 1 = Inr [0x02]"
  by (simp add: stage_pin_output_def demo_pin_B)
    (simp add: get_control_cell_for_def get_cell_at_def demo_device_def demo_cell_def default_cell_def set_bit_at_def)

lemma stage_output_reads_back_witness: "get_staged_pin_value [0x02] demo_device ''B'' = 1"
  using stage_output_reads_back [OF demo_stage_B demo_pin_B_ok] by simp

text \<open>A pin staged as high-Z reads back as not driven, and only its control cell changed; pins that
  do not use that control cell keep their staged value.\<close>

theorem stage_high_z_reads_back:
  assumes "stage_pin_high_z b d pin = Inr b'" and "pin_cells_ok d pin"
    and "\<forall>oc \<in> set_option (get_output_cell_for_pin d pin). bc_disable_value oc \<in> {0, 1}"
  shows "get_staged_pin_value b' d pin = -1 \<and>
         (\<forall>other. (\<forall>cc \<in> set_option (control_of d pin). bc_position cc \<notin> pin_positions d other) \<longrightarrow>
            get_staged_pin_value b' d other = get_staged_pin_value b d other)"
proof -
  have "get_staged_pin_value b' d other = get_staged_pin_value b d other"
    if "\<forall>cc \<in> set_option (control_of d pin). bc_position cc \<notin> pin_positions d other" for other
  proof (rule staged_value_cong, intro ballI)
    fix q assume "q \<in> pin_positions d other"
    with that have "\<forall>cc \<in> set_option (control_of d pin). q \<noteq> bc_position cc" by auto
    from stage_high_z_frame [OF assms(1) this] show "get_bit_at b' q = get_bit_at b q" .
  qed
  with stage_high_z_value [OF assms] show ?thesis by blast
qed

lemma demo_high_z_B: "stage_pin_high_z [0x02] demo_device ''B'' = Inr [0x06]"
  by (simp add: stage_pin_high_z_def demo_pin_B)
    (simp add: get_control_cell_for_def get_cell_at_def demo_device_def demo_cell_def default_cell_def set_bit_at_def)

lemma stage_high_z_reads_back_witness: "get_staged_pin_value [0x06] demo_device ''B'' = -1"
  using stage_high_z_reads_back [OF demo_high_z_B demo_pin_B_ok]
  by (simp add: demo_pin_B) (simp add: demo_device_def demo_cell_def default_cell_def)


definition ps_chain :: "(tap_state \<times> bool) chain" where
  "ps_chain = demo_chain\<lparr>jc_devices :=
     [(new_device 0 0x13722093 6)\<lparr>cd_bsdl := Some (demo_device\<lparr>bd_pins := [''PS_MIO0'' \<mapsto>
        \<lparr>pi_name = ''PS_MIO0'', pi_direction = Pd_INOUT, pi_physical_pin = -1, pi_input_cell = -1,
         pi_output_cell = -1, pi_control_cell = -1\<rparr>]\<rparr>)\<rparr>]\<rparr>"


text \<open>C8: a successful \<open>applyOutputs\<close> has put EXTEST into the device and then shifted exactly the staged
  register into its boundary register (0 into the BYPASS bits of the others), on a device that
  allows it; the TAP stays in step.\<close>

theorem apply_outputs_drives_staged:
  assumes "apply_outputs L p c = Some (True, p', c')" and "pd_bsr p \<noteq> []"
    and "drives_tap L phys" and "in_sync phys (jc_tap c)"
  shows "\<exists>dev op c2 data. pd_bsdl p c = Some dev \<and> extest_opcode dev = Some op \<and>
           fst (device_allows_live_extest dev) \<and> select_instruction L (pd_index p) op c = Some (True, c2) \<and>
           shift_dr_write L (Some data) (int (bd_boundary_length dev + dr_overhead c2)) (jc_tap c2) = Some (True, jc_tap c') \<and>
           buf_bits data (bd_boundary_length dev + dr_overhead c2) =
             replicate (nat (pd_index p)) False @ buf_bits (pd_bsr p) (bd_boundary_length dev)
             @ replicate (length (jc_devices c2) - 1 - nat (pd_index p)) False \<and>
           in_sync phys (jc_tap c')"
proof -
  from apply_outputs_scans [OF assms(1,2)] obtain dev op c2 where
    a: "pd_bsdl p c = Some dev" "extest_opcode dev = Some op" "fst (device_allows_live_extest dev)"
    "select_instruction L (pd_index p) op c = Some (True, c2)"
    "write_bsr L (pd_index p) (pd_bsr p) (bd_boundary_length dev) c2 = Some (True, c')" by blast
  have k: "valid_index c2 (pd_index p)" using a(5) by (simp add: write_bsr_def split: if_splits)
  from write_bsr_data [OF a(5) k] obtain data where
    d: "shift_dr_write L (Some data) (int (bd_boundary_length dev + dr_overhead c2)) (jc_tap c2) = Some (True, jc_tap c')"
    "length data = bytes_for (bd_boundary_length dev + dr_overhead c2)"
    "buf_bits data (bd_boundary_length dev + dr_overhead c2) =
       replicate (nat (pd_index p)) False @ buf_bits (pd_bsr p) (bd_boundary_length dev)
       @ replicate (length (jc_devices c2) - 1 - nat (pd_index p)) False" by auto
  have "in_sync phys (jc_tap c2)" by (rule select_instruction_sync [OF a(4) assms(3,4)])
  from shift_dr_write_ok(2) [OF d(1) assms(3) this] d(2) have "in_sync phys (jc_tap c')"
    by (simp add: readable_def)
  with a d show ?thesis by blast
qed

lemma apply_run:
  "\<exists>c'. apply_outputs (chain_link []) \<lparr>pd_index = 0, pd_bsr = [0x02], pd_error = []\<rparr> demo_chain
     = Some (True, \<lparr>pd_index = 0, pd_bsr = [0x02], pd_error = []\<rparr>, c')"
proof -
  let ?p = "\<lparr>pd_index = 0, pd_bsr = [0x02], pd_error = []\<rparr>"
  have dev: "pd_bsdl ?p demo_chain = Some demo_device" by (simp add: pd_bsdl_def valid_index_def demo_chain_def)
  have allow: "fst (device_allows_live_extest demo_device)"
    by (simp add: device_allows_live_extest_def demo_device_def default_device_def)
  have ex: "extest_opcode demo_device = Some 0x26" by (simp add: extest_opcode_def get_instruction_def demo_device_def)
  have v: "valid_index demo_chain 0" by (simp add: valid_index_def demo_chain_def)
  have ir: "\<forall>d \<in> set (jc_devices demo_chain). cd_ir_length d \<le> 32" "0 < total_ir_length demo_chain"
    by (simp_all add: demo_chain_def new_device_def total_ir_length_def)
  obtain t where sel: "select_instruction (chain_link []) 0 0x26 demo_chain = Some (True, demo_chain\<lparr>jc_tap := t\<rparr>)"
    using select_instruction_succeeds [OF chain_link_always_ok v ir] by blast
  have fit: "readable (Some (or_bits (buf_bit [0x02]) 0 5 (replicate (bytes_for 6) 0))) 6"
    by (simp add: readable_def)
  from shift_dr_succeeds(2) [OF chain_link_always_ok [of "[]"] _ fit, of t] obtain t' where
    "shift_dr_write (chain_link []) (Some (or_bits (buf_bit [0x02]) 0 5 (replicate (bytes_for 6) 0))) 6 t = Some (True, t')"
    by auto
  then have "write_bsr (chain_link []) 0 [0x02] 5 (demo_chain\<lparr>jc_tap := t\<rparr>) = Some (True, demo_chain\<lparr>jc_tap := t'\<rparr>)"
    by (simp add: write_bsr_def valid_index_def demo_chain_def dr_overhead_def)
  moreover have "bd_boundary_length demo_device = 5" by (simp add: demo_device_def)
  ultimately show ?thesis
    using dev allow ex sel by (simp add: apply_outputs_def extest_allowed_def ensure_bsr_def)
qed

lemma apply_outputs_drives_staged_witness:
  "\<exists>data. buf_bits data 6 = [False, True, False, False, False, False]"
proof -
  let ?p = "\<lparr>pd_index = 0, pd_bsr = [0x02], pd_error = []\<rparr>"
  have dev: "pd_bsdl ?p demo_chain = Some demo_device" by (simp add: pd_bsdl_def valid_index_def demo_chain_def)
  have sync: "in_sync id (jc_tap demo_chain)" by (simp add: in_sync_def demo_chain_def)
  obtain c' where run: "apply_outputs (chain_link []) ?p demo_chain = Some (True, ?p, c')" using apply_run by blast
  have b: "buf_bits [0x02] 5 = [False, True, False, False, False]" by code_simp
  have n: "bd_boundary_length demo_device = 5" by (simp add: demo_device_def)
  have len: "length (jc_devices c2) = 2" if "select_instruction (chain_link []) 0 op demo_chain = Some (True, c2)" for op c2
    using select_instruction_data [OF that] by (auto simp: valid_index_def demo_chain_def)
  from apply_outputs_drives_staged [OF run _ chain_link_ok(1) sync] dev obtain op c2 data where
    "select_instruction (chain_link []) 0 op demo_chain = Some (True, c2)"
    "buf_bits data (5 + dr_overhead c2) = replicate 0 False @ buf_bits [0x02] 5
       @ replicate (length (jc_devices c2) - 1 - 0) False" using n by auto
  with len b show ?thesis by (auto simp: dr_overhead_def)
qed

text \<open>\<open>captureCurrentState\<close> stages the device's live boundary register: with a working probe it
  succeeds and every staged cell is the cell the device showed.\<close>

theorem capture_stages_live_register:
  assumes "always_ok L" and "drives_tap L phys" and "replies_tdo L lvl" and "in_sync phys (jc_tap c)"
    and "pd_bsdl p c = Some dev" and "sample_opcode dev = Some op"
    and "\<forall>d \<in> set (jc_devices c). cd_ir_length d \<le> 32" and "0 < total_ir_length c"
    and "0 < bd_boundary_length dev" and "shows_chain phys lvl (concat regs)"
    and "chain_regs (length (jc_devices c)) (nat (pd_index p)) regs"
    and "length (regs ! nat (pd_index p)) = bd_boundary_length dev"
  shows "\<exists>p' c'. capture_current_state L p c = Some (True, p', c') \<and> in_sync phys (jc_tap c') \<and>
           length (pd_bsr p') = bytes_for (bd_boundary_length dev) \<and>
           buf_bits (pd_bsr p') (bd_boundary_length dev) = regs ! nat (pd_index p)"
  by (rule capture_success [OF assms])

lemma capture_stages_live_register_witness:
  "\<exists>p' c'. capture_current_state (chain_link [True, False, False, True, False, False])
       \<lparr>pd_index = 0, pd_bsr = [], pd_error = []\<rparr> demo_chain = Some (True, p', c') \<and>
     buf_bits (pd_bsr p') 5 = [True, False, False, True, False]"
proof -
  let ?regs = "[[True, False, False, True, False], [False]]"
  let ?p = "\<lparr>pd_index = 0, pd_bsr = [], pd_error = []\<rparr>"
  have sync: "in_sync id (jc_tap demo_chain)" by (simp add: in_sync_def demo_chain_def)
  have dev: "pd_bsdl ?p demo_chain = Some demo_device" by (simp add: pd_bsdl_def valid_index_def demo_chain_def)
  have op: "sample_opcode demo_device = Some 1" by (simp add: sample_opcode_def get_instruction_def demo_device_def)
  have ir: "\<forall>d \<in> set (jc_devices demo_chain). cd_ir_length d \<le> 32" "0 < total_ir_length demo_chain"
    by (simp_all add: demo_chain_def new_device_def total_ir_length_def)
  have len: "0 < bd_boundary_length demo_device" "length (?regs ! nat (pd_index ?p)) = bd_boundary_length demo_device"
    by (simp_all add: demo_device_def)
  have regs: "chain_regs (length (jc_devices demo_chain)) (nat (pd_index ?p)) ?regs"
    by (auto simp: chain_regs_def demo_chain_def less_Suc_eq)
  have sc: "shows_chain id (chain_level (concat ?regs)) (concat ?regs)" by (rule chain_link_ok(3))
  from capture_stages_live_register [OF chain_link_always_ok [of "concat ?regs"] chain_link_ok(1,2) sync dev op ir len(1) sc regs len(2)]
  show ?thesis by (auto simp: demo_device_def)
qed

end
