(* ===== verification/Cxx_Strings.thy ===== *)
theory Cxx_Strings
  imports Prelude
begin

text \<open>
  The string functions of the C++ standard library that the text front ends use, on byte strings in
  the "C" locale: character classes, \<open>std::toupper\<close>, \<open>std::getline\<close>, token extraction with
  \<open>operator>>\<close>, and \<open>std::stoi\<close> and its relatives, whose exceptions are the result \<open>None\<close>.
\<close>

section \<open>Characters\<close>

definition char_code :: "char \<Rightarrow> nat" where
  "char_code c = of_char c"

definition is_space :: "char \<Rightarrow> bool" where
  "is_space c \<longleftrightarrow> char_code c = 32 \<or> (9 \<le> char_code c \<and> char_code c \<le> 13)"

definition is_digit :: "char \<Rightarrow> bool" where
  "is_digit c \<longleftrightarrow> 48 \<le> char_code c \<and> char_code c \<le> 57"

definition is_lower :: "char \<Rightarrow> bool" where
  "is_lower c \<longleftrightarrow> 97 \<le> char_code c \<and> char_code c \<le> 122"

definition is_upper :: "char \<Rightarrow> bool" where
  "is_upper c \<longleftrightarrow> 65 \<le> char_code c \<and> char_code c \<le> 90"

definition is_alpha :: "char \<Rightarrow> bool" where
  "is_alpha c \<longleftrightarrow> is_lower c \<or> is_upper c"

definition is_alnum :: "char \<Rightarrow> bool" where
  "is_alnum c \<longleftrightarrow> is_alpha c \<or> is_digit c"

definition to_upper :: "char \<Rightarrow> char" where
  "to_upper c = (if is_lower c then char_of (char_code c - 32) else c)"

definition to_lower :: "char \<Rightarrow> char" where
  "to_lower c = (if is_upper c then char_of (char_code c + 32) else c)"

definition str_upper :: "string \<Rightarrow> string" where
  "str_upper = map to_upper"

definition newline :: char where
  "newline = CHR 0x0A"

section \<open>Lines and tokens\<close>

text \<open>\<open>std::getline\<close> until it fails: a final newline does not start another line.\<close>

fun split_lines :: "string \<Rightarrow> string list" where
  "split_lines [] = []"
| "split_lines (c # s) =
     (if c = newline then [] # split_lines s
      else case split_lines s of [] \<Rightarrow> [[c]] | l # ls \<Rightarrow> (c # l) # ls)"

text \<open>\<open>ss >> tok\<close> until it fails.\<close>

fun tokens :: "string \<Rightarrow> string \<Rightarrow> string list" where
  "tokens acc [] = (if acc = [] then [] else [acc])"
| "tokens acc (c # s) =
     (if is_space c then (if acc = [] then tokens [] s else acc # tokens [] s)
      else tokens (acc @ [c]) s)"

definition trim_str :: "string \<Rightarrow> string" where
  "trim_str s = rev (dropWhile is_space (rev (dropWhile is_space s)))"

definition before_char :: "char \<Rightarrow> string \<Rightarrow> string" where
  "before_char c s = takeWhile (\<lambda>x. x \<noteq> c) s"

definition after_char :: "char \<Rightarrow> string \<Rightarrow> string" where
  "after_char c s = drop 1 (dropWhile (\<lambda>x. x \<noteq> c) s)"

fun join_words :: "string list \<Rightarrow> string" where
  "join_words [] = []"
| "join_words [w] = w"
| "join_words (w # v # ws) = w @ '' '' @ join_words (v # ws)"

lemma split_lines_line: "newline \<notin> set l \<Longrightarrow> split_lines (l @ newline # s) = l # split_lines s"
  by (induction l) auto

lemma tokens_word:
  "list_all (\<lambda>c. \<not> is_space c) w \<Longrightarrow> tokens acc (w @ s) = tokens (acc @ w) s"
  by (induction w arbitrary: acc) simp_all

lemma space_is_space [simp]: "is_space CHR '' ''"
  by (simp add: is_space_def char_code_def)

lemma tokens_join_words:
  "list_all (\<lambda>w. w \<noteq> [] \<and> list_all (\<lambda>c. \<not> is_space c) w) ws \<Longrightarrow> tokens [] (join_words ws) = ws"
proof (induction ws rule: join_words.induct)
  case (2 w)
  then show ?case using tokens_word [of w "[]" "[]"] by simp
next
  case (3 w v ws)
  then show ?case using tokens_word [of w "[]" "'' '' @ join_words (v # ws)"] by simp
qed simp

lemma set_join_words: "set (join_words ws) \<subseteq> {CHR '' ''} \<union> \<Union> (set ` set ws)"
  by (induction ws rule: join_words.induct) auto

lemma join_words_not_Nil:
  "list_all (\<lambda>w. w \<noteq> [] \<and> list_all (\<lambda>c. \<not> is_space c) w) ws \<Longrightarrow> ws \<noteq> [] \<Longrightarrow> join_words ws \<noteq> []"
  by (cases ws rule: join_words.cases) auto

lemma join_words_ends:
  "list_all (\<lambda>w. w \<noteq> [] \<and> list_all (\<lambda>c. \<not> is_space c) w) ws \<Longrightarrow> ws \<noteq> [] \<Longrightarrow>
     \<not> is_space (hd (join_words ws)) \<and> \<not> is_space (last (join_words ws))"
proof (induction ws rule: join_words.induct)
  case (2 w)
  then show ?case by (auto simp: list_all_iff)
next
  case (3 w v ws)
  have "join_words (v # ws) \<noteq> []" using 3 by (intro join_words_not_Nil) auto
  with 3 show ?case by (auto simp: list_all_iff)
qed simp

lemma dropWhile_id: "s \<noteq> [] \<Longrightarrow> \<not> P (hd s) \<Longrightarrow> dropWhile P s = s"
  by (cases s) auto

lemma trim_str_id: "s \<noteq> [] \<Longrightarrow> \<not> is_space (hd s) \<Longrightarrow> \<not> is_space (last s) \<Longrightarrow> trim_str s = s"
  by (simp add: trim_str_def dropWhile_id hd_rev)

lemma trim_join_words:
  "list_all (\<lambda>w. w \<noteq> [] \<and> list_all (\<lambda>c. \<not> is_space c) w) ws \<Longrightarrow> ws \<noteq> [] \<Longrightarrow> trim_str (join_words ws) = join_words ws"
  using join_words_ends join_words_not_Nil by (intro trim_str_id) blast+

section \<open>Numbers\<close>

definition digit_val :: "char \<Rightarrow> nat" where
  "digit_val c = char_code c - 48"

definition dec_value :: "string \<Rightarrow> nat" where
  "dec_value s = foldl (\<lambda>n c. 10 * n + digit_val c) 0 s"

text \<open>\<open>std::stoi\<close>: white space, a sign, at least one digit, anything behind; an \<open>int\<close> or an exception.\<close>

definition stoi :: "string \<Rightarrow> int option" where
  "stoi s0 =
     (let s1 = dropWhile is_space s0;
          (neg, s2) = (case s1 of c # r \<Rightarrow> if c = CHR ''-'' then (True, r) else if c = CHR ''+'' then (False, r)
                                            else (False, s1) | [] \<Rightarrow> (False, []));
          ds = takeWhile is_digit s2;
          v = (if neg then - int (dec_value ds) else int (dec_value ds))
      in if ds = [] then None
         else if v < -2147483648 \<or> 2147483647 < v then None else Some v)"

lemma char_code_digit [simp]:
  "n < 10 \<Longrightarrow> char_code (char_of (48 + n)) = 48 + n"
  by (simp add: char_code_def of_char_of)

lemma dec_value_snoc: "dec_value (s @ [c]) = 10 * dec_value s + digit_val c"
  by (simp add: dec_value_def)

lemma dec_digits_correct:
  "dec_value (dec_digits n) = n \<and> list_all is_digit (dec_digits n) \<and> dec_digits n \<noteq> []"
proof (induction n rule: dec_digits.induct)
  case (1 n)
  show ?case
  proof (cases "n < 10")
    case True
    then show ?thesis
      by (subst (1 2 3) dec_digits.simps)
        (simp add: dec_value_def digit_val_def is_digit_def)
  next
    case False
    with 1 have IH: "dec_value (dec_digits (n div 10)) = n div 10" "list_all is_digit (dec_digits (n div 10))" by auto
    have "n mod 10 < 10" by simp
    with IH False show ?thesis
      by (subst (1 2 3) dec_digits.simps)
        (simp add: dec_value_snoc digit_val_def is_digit_def)
  qed
qed

lemma digit_not_space: "is_digit c \<Longrightarrow> \<not> is_space c"
  by (auto simp: is_digit_def is_space_def)

lemma digit_not_sign: "is_digit c \<Longrightarrow> c \<noteq> CHR ''-'' \<and> c \<noteq> CHR ''+''"
  by (auto simp: is_digit_def char_code_def)

lemma stoi_digits:
  assumes "list_all is_digit ds" and "ds \<noteq> []" and "int (dec_value ds) \<le> 2147483647"
    and "rest = [] \<or> \<not> is_digit (hd rest)"
  shows "stoi (ds @ rest) = Some (int (dec_value ds))"
proof -
  obtain c cs where ds: "ds = c # cs" using assms(2) by (cases ds) auto
  have tw: "takeWhile is_digit (ds @ rest) = ds"
    using assms(1,4) by (cases rest) (auto simp: takeWhile_append list_all_iff)
  have "dropWhile is_space (ds @ rest) = ds @ rest"
    using assms(1) ds digit_not_space by auto
  moreover have "c \<noteq> CHR ''-''" "c \<noteq> CHR ''+''" using assms(1) ds digit_not_sign by auto
  ultimately show ?thesis using tw assms(2,3) ds by (simp add: stoi_def)
qed

lemma stoi_dec_digits:
  "int n \<le> 2147483647 \<Longrightarrow> stoi (dec_digits n) = Some (int n)"
  using stoi_digits [of "dec_digits n" "[]"] dec_digits_correct [of n] by simp

end
