(* ===== verification/Interconnect.thy ===== *)
theory Interconnect
  imports Pin_Driver Cxx_Strings
begin

text \<open>
  src/src/boundary_scan/interconnect_test.{h,cpp}: the .ict net list, the interconnect test that
  drives 0 and 1 on each net's driver pin and samples its receivers, and its report.

  The scanners and drivers are vectors of pointers that may be null; all of them work on one chain.
  A negative device index, which \<open>std::stoi\<close> accepts, indexes a vector out of range: undefined.
\<close>

section \<open>Nets\<close>

record dev_pin =
  dp_device_index :: int
  dp_pin :: string

record net_def =
  nd_name :: string
  nd_driver :: dev_pin
  nd_receivers :: "dev_pin list"

record net_step =
  ns_driven :: int
  ns_observed :: "pin_state list"
  ns_pass :: bool

record net_result =
  nr_name :: string
  nr_steps :: "net_step list"
  nr_pass :: bool

record ict_result =
  ir_nets :: "net_result list"
  ir_pass_count :: nat
  ir_fail_count :: nat

section \<open>The net list file\<close>

definition quote :: "string \<Rightarrow> string" where
  "quote s = [CHR 0x27] @ s @ [CHR 0x27]"

definition parse_dev_pin :: "string \<Rightarrow> string + dev_pin" where
  "parse_dev_pin token =
     (if CHR '':'' \<notin> set token then Inl (''expected '' @ quote ''dev:pin'' @ '' but got '' @ quote token)
      else
        let idx_str = before_char CHR '':'' token;
            pin_str = after_char CHR '':'' token
        in if idx_str = [] \<or> pin_str = [] then Inl (''malformed '' @ quote ''dev:pin'' @ '' token '' @ quote token)
           else case stoi idx_str of
             None \<Rightarrow> Inl (''invalid device index '' @ quote idx_str)
           | Some i \<Rightarrow> Inr \<lparr>dp_device_index = i, dp_pin = str_upper pin_str\<rparr>)"

fun parse_receivers :: "string list \<Rightarrow> string + dev_pin list" where
  "parse_receivers [] = Inr []"
| "parse_receivers (t # ts) =
     (case parse_dev_pin t of
        Inl e \<Rightarrow> Inl e
      | Inr dp \<Rightarrow> (case parse_receivers ts of Inl e \<Rightarrow> Inl e | Inr dps \<Rightarrow> Inr (dp # dps)))"

definition line_error :: "nat \<Rightarrow> string \<Rightarrow> string" where
  "line_error line_no msg = ''line '' @ dec_digits line_no @ '': '' @ msg"

text \<open>One line after comment removal and trimming; \<open>None\<close> is a line to skip.\<close>

definition parse_net_line :: "nat \<Rightarrow> string \<Rightarrow> string + net_def option" where
  "parse_net_line line_no raw_line =
     (let line = trim_str (before_char CHR ''#'' raw_line)
      in if line = [] then Inr None
         else case tokens [] line of
           n # d # r # rs \<Rightarrow>
             (case parse_dev_pin d of
                Inl e \<Rightarrow> Inl (line_error line_no e)
              | Inr drv \<Rightarrow> (case parse_receivers (r # rs) of
                    Inl e \<Rightarrow> Inl (line_error line_no e)
                  | Inr rcv \<Rightarrow> Inr (Some \<lparr>nd_name = n, nd_driver = drv, nd_receivers = rcv\<rparr>)))
         | _ \<Rightarrow> Inl (line_error line_no ''need at least: name driver receiver''))"

fun parse_net_lines :: "nat \<Rightarrow> string list \<Rightarrow> string + net_def list" where
  "parse_net_lines line_no [] = Inr []"
| "parse_net_lines line_no (l # ls) =
     (case parse_net_line line_no l of
        Inl e \<Rightarrow> Inl e
      | Inr r \<Rightarrow> (case parse_net_lines (Suc line_no) ls of
            Inl e \<Rightarrow> Inl e
          | Inr nets \<Rightarrow> Inr (case r of None \<Rightarrow> nets | Some n \<Rightarrow> n # nets)))"

text \<open>The file's text, or \<open>None\<close> when it cannot be opened.\<close>

definition parse_ict_file :: "string \<Rightarrow> string option \<Rightarrow> string + net_def list" where
  "parse_ict_file path content =
     (case content of
        None \<Rightarrow> Inl (''cannot open file: '' @ path)
      | Some text \<Rightarrow> parse_net_lines 1 (split_lines text))"

section \<open>The test\<close>

record 'd ict_state =
  is_scanners :: "scanner option list"
  is_drivers :: "pin_driver option list"
  is_chain :: "'d chain"

text \<open>\<open>idx < size && v[idx] != nullptr\<close>: \<open>None\<close> when \<open>idx\<close> is negative.\<close>

definition vec_ptr :: "'a option list \<Rightarrow> int \<Rightarrow> 'a option option" where
  "vec_ptr xs i = (if int (length xs) \<le> i then Some None else if i < 0 then None else Some (xs ! nat i))"

definition drive_net :: "'d link \<Rightarrow> dev_pin \<Rightarrow> int \<Rightarrow> 'd ict_state \<Rightarrow> (bool \<times> 'd ict_state) option" where
  "drive_net L drv v st = do {
     ptr \<leftarrow> vec_ptr (is_drivers st) (dp_device_index drv);
     case ptr of
       None \<Rightarrow> Some (False, st)
     | Some pd \<Rightarrow>
         if \<not> extest_allowed pd (is_chain st) then Some (False, st)
         else do {
           (_, pd1, c1) \<leftarrow> set_pin L (dp_pin drv) v pd (is_chain st);
           (ok, pd2, c2) \<leftarrow> apply_outputs L pd1 c1;
           Some (ok, st\<lparr>is_drivers := (is_drivers st)[nat (dp_device_index drv) := Some pd2], is_chain := c2\<rparr>)
         }
   }"

fun sample_receivers ::
  "'d link \<Rightarrow> dev_pin list \<Rightarrow> (int \<rightharpoonup> scan_result) \<Rightarrow> 'd ict_state
     \<Rightarrow> ((int \<rightharpoonup> scan_result) \<times> 'd ict_state) option" where
  "sample_receivers L [] samples st = Some (samples, st)"
| "sample_receivers L (recv # rs) samples st =
     (if samples (dp_device_index recv) \<noteq> None then sample_receivers L rs samples st
      else do {
        ptr \<leftarrow> vec_ptr (is_scanners st) (dp_device_index recv);
        case ptr of
          None \<Rightarrow> sample_receivers L rs samples st
        | Some sc \<Rightarrow> do {
            (r, sc1, c1) \<leftarrow> scanner_sample L sc (is_chain st);
            sample_receivers L rs (samples(dp_device_index recv \<mapsto> r))
              (st\<lparr>is_scanners := (is_scanners st)[nat (dp_device_index recv) := Some sc1], is_chain := c1\<rparr>)
          }
      })"

definition observed_state :: "(int \<rightharpoonup> scan_result) \<Rightarrow> dev_pin \<Rightarrow> pin_state" where
  "observed_state samples recv =
     (case samples (dp_device_index recv) of None \<Rightarrow> Ps_UNKNOWN | Some r \<Rightarrow> sr_get_pin r (dp_pin recv))"

definition test_step :: "'d link \<Rightarrow> net_def \<Rightarrow> int \<Rightarrow> 'd ict_state \<Rightarrow> (net_step \<times> 'd ict_state) option" where
  "test_step L net v st = do {
     (drive_ok, st1) \<leftarrow> drive_net L (nd_driver net) v st;
     if \<not> drive_ok then
       Some (\<lparr>ns_driven = v, ns_observed = replicate (length (nd_receivers net)) Ps_UNKNOWN, ns_pass = False\<rparr>, st1)
     else do {
       (samples, st2) \<leftarrow> sample_receivers L (nd_receivers net) Map.empty st1;
       let expected = (if v = 0 then Ps_LOW else Ps_HIGH);
       let obs = map (observed_state samples) (nd_receivers net);
       Some (\<lparr>ns_driven = v, ns_observed = obs, ns_pass = list_all (\<lambda>s. s = expected) obs\<rparr>, st2)
     }
   }"

definition test_net :: "'d link \<Rightarrow> net_def \<Rightarrow> 'd ict_state \<Rightarrow> (net_result \<times> 'd ict_state) option" where
  "test_net L net st = do {
     (s0, st1) \<leftarrow> test_step L net 0 st;
     (s1, st2) \<leftarrow> test_step L net 1 st1;
     Some (\<lparr>nr_name = nd_name net, nr_steps = [s0, s1], nr_pass = ns_pass s0 \<and> ns_pass s1\<rparr>, st2)
   }"

fun run_nets :: "'d link \<Rightarrow> net_def list \<Rightarrow> ict_result \<Rightarrow> 'd ict_state \<Rightarrow> (ict_result \<times> 'd ict_state) option" where
  "run_nets L [] res st = Some (res, st)"
| "run_nets L (net # nets) res st = do {
     (nr, st1) \<leftarrow> test_net L net st;
     run_nets L nets
       (res\<lparr>ir_nets := ir_nets res @ [nr],
            ir_pass_count := ir_pass_count res + (if nr_pass nr then 1 else 0),
            ir_fail_count := ir_fail_count res + (if nr_pass nr then 0 else 1)\<rparr>) st1
   }"

definition run_interconnect_test :: "'d link \<Rightarrow> net_def list \<Rightarrow> 'd ict_state \<Rightarrow> (ict_result \<times> 'd ict_state) option" where
  "run_interconnect_test L nets st = run_nets L nets \<lparr>ir_nets = [], ir_pass_count = 0, ir_fail_count = 0\<rparr> st"

section \<open>The report\<close>

definition state_text :: "pin_state \<Rightarrow> string" where
  "state_text s = (case s of Ps_LOW \<Rightarrow> ''LOW'' | Ps_HIGH \<Rightarrow> ''HIGH'' | Ps_UNKNOWN \<Rightarrow> ''UNK'')"

fun observed_text :: "pin_state list \<Rightarrow> dev_pin list \<Rightarrow> string" where
  "observed_text (ob # obs) (r # rs) =
     dp_pin r @ ''='' @ state_text ob @ (if rs \<noteq> [] then '' '' else []) @ observed_text obs rs"
| "observed_text _ _ = []"

definition step_text :: "dev_pin list \<Rightarrow> net_step \<Rightarrow> string" where
  "step_text rs s =
     ''  drive='' @ to_string (ns_driven s) @ '' : '' @ observed_text (ns_observed s) rs
     @ (if ns_pass s then '' OK'' else '' FAIL'') @ [newline]"

definition net_text :: "net_result \<times> net_def \<Rightarrow> string" where
  "net_text p =
     (case p of (nr, nd) \<Rightarrow>
        (if nr_pass nr then ''[PASS] '' else ''[FAIL] '') @ nr_name nr @ [newline]
        @ concat (map (step_text (nd_receivers nd)) (nr_steps nr)))"

definition format_interconnect_report :: "ict_result \<Rightarrow> net_def list \<Rightarrow> string" where
  "format_interconnect_report res nets =
     ''=== Interconnect Test Report ==='' @ [newline]
     @ ''Total: '' @ dec_digits (length (ir_nets res)) @ ''  PASS: '' @ dec_digits (ir_pass_count res)
     @ ''  FAIL: '' @ dec_digits (ir_fail_count res) @ [newline, newline]
     @ concat (map net_text (zip (ir_nets res) nets))"

section \<open>What a result means\<close>

text \<open>A step is consistent when its verdict is that of its observations.\<close>

definition step_consistent :: "net_def \<Rightarrow> net_step \<Rightarrow> bool" where
  "step_consistent net s \<longleftrightarrow>
     length (ns_observed s) = length (nd_receivers net) \<and>
     (ns_pass s \<longrightarrow> (\<forall>x \<in> set (ns_observed s). x = (if ns_driven s = 0 then Ps_LOW else Ps_HIGH))) \<and>
     (\<not> ns_pass s \<longrightarrow> list_all (\<lambda>x. x = Ps_UNKNOWN) (ns_observed s)
        \<or> (\<exists>x \<in> set (ns_observed s). x \<noteq> (if ns_driven s = 0 then Ps_LOW else Ps_HIGH)))"

definition net_consistent :: "net_def \<Rightarrow> net_result \<Rightarrow> bool" where
  "net_consistent net nr \<longleftrightarrow>
     nr_name nr = nd_name net \<and> map ns_driven (nr_steps nr) = [0, 1] \<and>
     list_all (step_consistent net) (nr_steps nr) \<and> (nr_pass nr \<longleftrightarrow> list_all ns_pass (nr_steps nr))"

lemma test_step_consistent:
  "test_step L net v st = Some (s, st') \<Longrightarrow> step_consistent net s \<and> ns_driven s = v"
  by (auto simp: test_step_def step_consistent_def Let_def list_all_iff
      split: bind_splits prod.splits if_splits)

lemma test_net_consistent:
  "test_net L net st = Some (nr, st') \<Longrightarrow> net_consistent net nr"
  by (auto simp: test_net_def net_consistent_def dest!: test_step_consistent split: bind_splits prod.splits)

lemma run_nets_consistent:
  "run_nets L nets res st = Some (res', st') \<Longrightarrow>
     \<exists>rs. ir_nets res' = ir_nets res @ rs \<and> list_all2 net_consistent nets rs \<and>
       ir_pass_count res' = ir_pass_count res + length (filter nr_pass rs) \<and>
       ir_fail_count res' = ir_fail_count res + length (filter (\<lambda>r. \<not> nr_pass r) rs)"
proof (induction nets arbitrary: res st)
  case (Cons net nets)
  obtain nr st1 where t: "test_net L net st = Some (nr, st1)"
    and r: "run_nets L nets (res\<lparr>ir_nets := ir_nets res @ [nr],
            ir_pass_count := ir_pass_count res + (if nr_pass nr then 1 else 0),
            ir_fail_count := ir_fail_count res + (if nr_pass nr then 0 else 1)\<rparr>) st1 = Some (res', st')"
    using Cons.prems by (auto split: bind_splits)
  from Cons.IH [OF r] obtain rs where rs: "ir_nets res' = ir_nets res @ nr # rs" "list_all2 net_consistent nets rs"
    "ir_pass_count res' = ir_pass_count res + (if nr_pass nr then 1 else 0) + length (filter nr_pass rs)"
    "ir_fail_count res' = ir_fail_count res + (if nr_pass nr then 0 else 1) + length (filter (\<lambda>r. \<not> nr_pass r) rs)"
    by auto
  with test_net_consistent [OF t] show ?case by (intro exI [of _ "nr # rs"]) auto
qed simp

section \<open>Writing and reading a net list\<close>

definition dev_pin_text :: "dev_pin \<Rightarrow> string" where
  "dev_pin_text dp = dec_digits (nat (dp_device_index dp)) @ '':'' @ dp_pin dp"

definition net_words :: "net_def \<Rightarrow> string list" where
  "net_words n = nd_name n # dev_pin_text (nd_driver n) # map dev_pin_text (nd_receivers n)"

definition ict_text :: "net_def list \<Rightarrow> string" where
  "ict_text nets = concat (map (\<lambda>n. join_words (net_words n) @ [newline]) nets)"

definition plain_word :: "string \<Rightarrow> bool" where
  "plain_word w \<longleftrightarrow> w \<noteq> [] \<and> list_all (\<lambda>c. \<not> is_space c \<and> c \<noteq> CHR ''#'') w"

definition dev_pin_ok :: "dev_pin \<Rightarrow> bool" where
  "dev_pin_ok dp \<longleftrightarrow> 0 \<le> dp_device_index dp \<and> dp_device_index dp \<le> 2147483647 \<and>
     plain_word (dp_pin dp) \<and> str_upper (dp_pin dp) = dp_pin dp"

definition net_ok :: "net_def \<Rightarrow> bool" where
  "net_ok n \<longleftrightarrow> plain_word (nd_name n) \<and> dev_pin_ok (nd_driver n) \<and> nd_receivers n \<noteq> [] \<and>
     list_all dev_pin_ok (nd_receivers n)"

lemma digits_plain: "list_all (\<lambda>c. \<not> is_space c \<and> c \<noteq> CHR ''#'' \<and> c \<noteq> CHR '':'') (dec_digits n)"
  using dec_digits_correct [of n]
  by (auto simp: list_all_iff is_digit_def is_space_def char_code_def)

lemma parse_dev_pin_text:
  assumes "dev_pin_ok dp"
  shows "parse_dev_pin (dev_pin_text dp) = Inr dp"
proof -
  let ?ds = "dec_digits (nat (dp_device_index dp))"
  have nocolon: "\<forall>c \<in> set ?ds. c \<noteq> CHR '':''" using digits_plain by (auto simp: list_all_iff)
  have "before_char CHR '':'' (dev_pin_text dp) = ?ds"
    using nocolon by (simp add: before_char_def dev_pin_text_def takeWhile_append2 takeWhile_tail)
  moreover have "after_char CHR '':'' (dev_pin_text dp) = dp_pin dp"
    using nocolon by (simp add: after_char_def dev_pin_text_def dropWhile_append2)
  moreover have "CHR '':'' \<in> set (dev_pin_text dp)" by (simp add: dev_pin_text_def)
  moreover have "stoi ?ds = Some (dp_device_index dp)"
    using stoi_dec_digits [of "nat (dp_device_index dp)"] assms by (simp add: dev_pin_ok_def)
  moreover have "?ds \<noteq> []" using dec_digits_correct by blast
  ultimately show ?thesis using assms by (simp add: parse_dev_pin_def dev_pin_ok_def plain_word_def)
qed

lemma parse_receivers_text:
  "list_all dev_pin_ok rs \<Longrightarrow> parse_receivers (map dev_pin_text rs) = Inr rs"
  by (induction rs) (simp_all add: parse_dev_pin_text)

lemma dev_pin_text_plain: "dev_pin_ok dp \<Longrightarrow> plain_word (dev_pin_text dp)"
  using digits_plain by (auto simp: dev_pin_ok_def plain_word_def dev_pin_text_def is_space_def char_code_def list_all_iff)

lemma net_words_plain: "net_ok n \<Longrightarrow> list_all plain_word (net_words n)"
  by (auto simp: net_ok_def net_words_def list_all_iff intro: dev_pin_text_plain)

lemma plain_join:
  assumes "list_all plain_word ws" and "c \<in> set (join_words ws)"
  shows "c = CHR '' '' \<or> (\<not> is_space c \<and> c \<noteq> CHR ''#'')"
proof -
  from assms(2) set_join_words [of ws] consider "c = CHR '' ''" | w where "w \<in> set ws" "c \<in> set w" by blast
  then show ?thesis
  proof cases
    case 2
    with assms(1) have "plain_word w" by (simp add: list_all_iff)
    with 2 show ?thesis by (simp add: plain_word_def list_all_iff)
  qed simp
qed

lemma parse_net_line_text:
  assumes "net_ok n"
  shows "parse_net_line k (join_words (net_words n)) = Inr (Some n)"
proof -
  have words: "list_all (\<lambda>w. w \<noteq> [] \<and> list_all (\<lambda>c. \<not> is_space c) w) (net_words n)" "net_words n \<noteq> []"
    using net_words_plain [OF assms] by (auto simp: plain_word_def list_all_iff net_words_def)
  have "CHR ''#'' \<notin> set (join_words (net_words n))"
    using plain_join [OF net_words_plain [OF assms]] by fastforce
  then have bc: "before_char CHR ''#'' (join_words (net_words n)) = join_words (net_words n)"
    by (auto simp: before_char_def takeWhile_eq_all_conv)
  obtain r rs where r: "nd_receivers n = r # rs" using assms by (cases "nd_receivers n") (auto simp: net_ok_def)
  have dp: "parse_dev_pin (dev_pin_text (nd_driver n)) = Inr (nd_driver n)"
    "parse_receivers (dev_pin_text r # map dev_pin_text rs) = Inr (r # rs)"
    using assms r parse_receivers_text [of "r # rs"] by (simp_all add: net_ok_def parse_dev_pin_text)
  show ?thesis
    using bc trim_join_words [OF words] tokens_join_words [OF words(1)] join_words_not_Nil [OF words] dp r
    by (simp add: parse_net_line_def net_words_def)
qed

lemma parse_ict_text:
  assumes "list_all net_ok nets"
  shows "parse_ict_file path (Some (ict_text nets)) = Inr nets"
proof -
  have "parse_net_lines k (split_lines (ict_text nets)) = Inr nets" for k
    using assms
  proof (induction nets arbitrary: k)
    case (Cons n nets)
    have "newline \<notin> set (join_words (net_words n))"
      using plain_join [OF net_words_plain [of n], of newline] Cons.prems
      by (auto simp: newline_def is_space_def char_code_def)
    then have "split_lines (ict_text (n # nets)) = join_words (net_words n) # split_lines (ict_text nets)"
      by (simp add: ict_text_def split_lines_line)
    with Cons parse_net_line_text [of n k] show ?case by simp
  qed (simp add: ict_text_def)
  then show ?thesis by (simp add: parse_ict_file_def)
qed

section \<open>Properties\<close>



text \<open>Reading a net list back: the parser recovers every list of nets from its text, one net per
  line, for upper-case pin names and words free of white space and of the comment character.\<close>

theorem parse_ict_roundtrip:
  assumes "list_all net_ok nets"
  shows "parse_ict_file path (Some (ict_text nets)) = Inr nets"
  by (rule parse_ict_text [OF assms])

lemma parse_ict_roundtrip_witness:
  "parse_ict_file [] (Some (''CLK 0:IO_L1P 1:IO_L2N'' @ [newline]))
     = Inr [\<lparr>nd_name = ''CLK'', nd_driver = \<lparr>dp_device_index = 0, dp_pin = ''IO_L1P''\<rparr>,
             nd_receivers = [\<lparr>dp_device_index = 1, dp_pin = ''IO_L2N''\<rparr>]\<rparr>]"
proof -
  let ?n = "\<lparr>nd_name = ''CLK'', nd_driver = \<lparr>dp_device_index = 0, dp_pin = ''IO_L1P''\<rparr>,
             nd_receivers = [\<lparr>dp_device_index = 1, dp_pin = ''IO_L2N''\<rparr>]\<rparr>"
  have "list_all net_ok [?n]" by code_simp
  moreover have "ict_text [?n] = ''CLK 0:IO_L1P 1:IO_L2N'' @ [newline]" by code_simp
  ultimately show ?thesis using parse_ict_roundtrip [of "[?n]" "[]"] by simp
qed

end
