(* ===== verification/Trigger.thy ===== *)
theory Trigger
  imports Complex_Main Scanner
begin

text \<open>
  \<open>TriggerEngine\<close> (src/src/capture/trigger.{h,cpp}).  Each method holds the mutex for its whole body,
  so it is one atomic operation on the state.  The pre-trigger ratio, a \<open>float\<close> clamped to [0, 1], is
  a rational here.

  \<open>cond_holds\<close> is what the header says a condition means; \<open>evaluate\<close> fires exactly when all
  conditions hold at once.
\<close>

section \<open>Conditions\<close>

datatype trigger_edge = Te_RISING | Te_FALLING | Te_EITHER

datatype trigger_type = Tt_EDGE | Tt_LEVEL

datatype trigger_mode = Tm_FREE_RUN | Tm_SINGLE | Tm_NORMAL

record trigger_condition =
  tc_pin_name :: string
  tc_type :: trigger_type
  tc_edge :: trigger_edge
  tc_level :: pin_state

definition evaluate_edge :: "trigger_condition \<Rightarrow> scan_result \<Rightarrow> scan_result \<Rightarrow> bool" where
  "evaluate_edge cond prev cur =
     (let prev_state = sr_get_pin prev (tc_pin_name cond);
          cur_state = sr_get_pin cur (tc_pin_name cond)
      in if prev_state = Ps_UNKNOWN \<or> cur_state = Ps_UNKNOWN then False
         else
           let rising = (prev_state = Ps_LOW \<and> cur_state = Ps_HIGH);
               falling = (prev_state = Ps_HIGH \<and> cur_state = Ps_LOW)
           in case tc_edge cond of
                Te_RISING \<Rightarrow> rising
              | Te_FALLING \<Rightarrow> falling
              | Te_EITHER \<Rightarrow> rising \<or> falling)"

definition evaluate_level :: "trigger_condition \<Rightarrow> scan_result \<Rightarrow> bool" where
  "evaluate_level cond cur \<longleftrightarrow> sr_get_pin cur (tc_pin_name cond) = tc_level cond"

section \<open>The engine\<close>

record trigger_engine =
  te_mode :: trigger_mode
  te_conditions :: "trigger_condition list"
  te_triggered :: bool
  te_armed :: bool
  te_pre_ratio :: rat

definition trigger_new :: trigger_engine where
  "trigger_new = \<lparr>te_mode = Tm_FREE_RUN, te_conditions = [], te_triggered = False, te_armed = False,
     te_pre_ratio = 1 / 2\<rparr>"

definition set_mode :: "trigger_mode \<Rightarrow> trigger_engine \<Rightarrow> trigger_engine" where
  "set_mode m t = t\<lparr>te_mode := m\<rparr>"

definition set_conditions :: "trigger_condition list \<Rightarrow> trigger_engine \<Rightarrow> trigger_engine" where
  "set_conditions cs t = t\<lparr>te_conditions := cs\<rparr>"

definition clear_conditions :: "trigger_engine \<Rightarrow> trigger_engine" where
  "clear_conditions t = t\<lparr>te_conditions := [], te_triggered := False, te_armed := False\<rparr>"

definition trigger_arm :: "trigger_engine \<Rightarrow> trigger_engine" where
  "trigger_arm t = t\<lparr>te_triggered := False, te_armed := True\<rparr>"

definition has_triggered :: "trigger_engine \<Rightarrow> bool" where
  "has_triggered t = te_triggered t"

definition set_pre_trigger_ratio :: "rat \<Rightarrow> trigger_engine \<Rightarrow> trigger_engine" where
  "set_pre_trigger_ratio ratio t =
     (let r1 = (if ratio < 0 then 0 else ratio);
          r2 = (if 1 < r1 then 1 else r1)
      in t\<lparr>te_pre_ratio := r2\<rparr>)"

fun all_met :: "trigger_condition list \<Rightarrow> scan_result \<Rightarrow> scan_result \<Rightarrow> bool" where
  "all_met [] prev cur \<longleftrightarrow> True"
| "all_met (c # cs) prev cur \<longleftrightarrow>
     (if \<not> (case tc_type c of Tt_EDGE \<Rightarrow> evaluate_edge c prev cur | Tt_LEVEL \<Rightarrow> evaluate_level c cur)
      then False else all_met cs prev cur)"

definition trigger_evaluate :: "scan_result \<Rightarrow> scan_result \<Rightarrow> trigger_engine \<Rightarrow> bool \<times> trigger_engine" where
  "trigger_evaluate prev cur t =
     (if te_mode t = Tm_FREE_RUN then (True, t)
      else if \<not> te_armed t then (False, t)
      else if te_triggered t \<and> te_mode t = Tm_SINGLE then (False, t)
      else if te_conditions t = [] then (True, t)
      else if \<not> all_met (te_conditions t) prev cur then (False, t)
      else (True, t\<lparr>te_triggered := True\<rparr>))"

section \<open>What a condition means\<close>

definition pin_edge :: "trigger_edge \<Rightarrow> pin_state \<times> pin_state \<Rightarrow> bool" where
  "pin_edge e p =
     (case e of Te_RISING \<Rightarrow> p = (Ps_LOW, Ps_HIGH) | Te_FALLING \<Rightarrow> p = (Ps_HIGH, Ps_LOW)
      | Te_EITHER \<Rightarrow> p = (Ps_LOW, Ps_HIGH) \<or> p = (Ps_HIGH, Ps_LOW))"

definition cond_holds :: "scan_result \<Rightarrow> scan_result \<Rightarrow> trigger_condition \<Rightarrow> bool" where
  "cond_holds prev cur c \<longleftrightarrow>
     (case tc_type c of
        Tt_EDGE \<Rightarrow> pin_edge (tc_edge c) (sr_get_pin prev (tc_pin_name c), sr_get_pin cur (tc_pin_name c))
      | Tt_LEVEL \<Rightarrow> sr_get_pin cur (tc_pin_name c) = tc_level c)"

lemma evaluate_edge_iff:
  "evaluate_edge c prev cur \<longleftrightarrow>
     pin_edge (tc_edge c) (sr_get_pin prev (tc_pin_name c), sr_get_pin cur (tc_pin_name c))"
  by (cases "tc_edge c"; cases "sr_get_pin prev (tc_pin_name c)"; cases "sr_get_pin cur (tc_pin_name c)")
    (simp_all add: evaluate_edge_def pin_edge_def)

lemma all_met_iff: "all_met cs prev cur \<longleftrightarrow> (\<forall>c \<in> set cs. cond_holds prev cur c)"
  by (induction cs) (auto simp: cond_holds_def evaluate_edge_iff evaluate_level_def split: trigger_type.splits)

section \<open>Properties\<close>

text \<open>When a trigger is waited for (mode other than free-run, armed, and in single mode not fired
  yet) \<open>evaluate\<close> fires exactly if every condition holds at once for the last two samples, an edge
  never involving an unknown level; and the fired flag records it unless there is no condition.\<close>

theorem trigger_fires_iff:
  assumes "te_mode t \<noteq> Tm_FREE_RUN" and "te_armed t" and "\<not> te_triggered t"
  shows "(fst (trigger_evaluate prev cur t) \<longleftrightarrow> (\<forall>c \<in> set (te_conditions t). cond_holds prev cur c)) \<and>
         (has_triggered (snd (trigger_evaluate prev cur t)) \<longleftrightarrow>
            te_conditions t \<noteq> [] \<and> fst (trigger_evaluate prev cur t)) \<and>
         snd (trigger_evaluate prev cur t) =
           t\<lparr>te_triggered := has_triggered (snd (trigger_evaluate prev cur t))\<rparr>"
  using assms by (auto simp: trigger_evaluate_def all_met_iff has_triggered_def)

lemma trigger_fires_iff_witness:
  "fst (trigger_evaluate \<lparr>sr_raw_bsr = [], sr_pin_states = [''A'' \<mapsto> Ps_LOW]\<rparr>
          \<lparr>sr_raw_bsr = [], sr_pin_states = [''A'' \<mapsto> Ps_HIGH]\<rparr>
          (trigger_arm (set_mode Tm_NORMAL (set_conditions
             [\<lparr>tc_pin_name = ''A'', tc_type = Tt_EDGE, tc_edge = Te_RISING, tc_level = Ps_HIGH\<rparr>] trigger_new))))"
  by (subst trigger_fires_iff)
    (simp_all add: trigger_arm_def set_mode_def set_conditions_def trigger_new_def cond_holds_def pin_edge_def sr_get_pin_def)

end
