(* ===== verification/Capture.thy ===== *)
theory Capture
  imports Trigger
begin

text \<open>
  \<open>CaptureEngine\<close> (src/src/capture/capture_engine.{h,cpp}): the ring buffer of samples and the
  capture thread.  Each method that holds \<open>buffer_mutex_\<close> is one atomic operation, and the body of
  the thread's loop is cut at its one access to the buffer, so an iteration is one step that other
  calls do not split.  The scan result and the clock reading of an iteration are its inputs; the
  callback is the output of an iteration (\<open>None\<close> when it is not invoked).  Time and the measured
  sample rate are not modelled.

  The locale \<open>bounded_log\<close> is the contract of the ring: pushing appends, keeping the newest entries.
  \<open>cap_step\<close> is the interleaving of user calls and loop iterations.
\<close>

section \<open>The ring buffer\<close>

record sample_frame =
  sf_timestamp :: int
  sf_data :: scan_result
  sf_trigger_point :: bool

definition empty_frame :: sample_frame where
  "empty_frame = \<lparr>sf_timestamp = 0, sf_data = empty_scan, sf_trigger_point = False\<rparr>"

record 'a ring =
  rb_buffer :: "'a list"
  rb_write_pos :: nat
  rb_count :: nat
  rb_total :: nat

text \<open>\<open>buffer_.resize(buffer_depth_)\<close> and the three counters of \<open>start\<close>.\<close>

definition ring_start :: "'a \<Rightarrow> nat \<Rightarrow> 'a ring \<Rightarrow> 'a ring" where
  "ring_start z depth r =
     r\<lparr>rb_buffer := take depth (rb_buffer r) @ replicate (depth - length (rb_buffer r)) z,
       rb_write_pos := 0, rb_count := 0, rb_total := 0\<rparr>"

definition ring_clear :: "'a ring \<Rightarrow> 'a ring" where
  "ring_clear r = r\<lparr>rb_write_pos := 0, rb_count := 0, rb_total := 0\<rparr>"

definition ring_push :: "'a \<Rightarrow> 'a ring \<Rightarrow> 'a ring" where
  "ring_push x r =
     (let sz = length (rb_buffer r)
      in r\<lparr>rb_buffer := (rb_buffer r)[rb_write_pos r := x],
           rb_write_pos := (rb_write_pos r + 1) mod sz,
           rb_count := (if rb_count r < sz then rb_count r + 1 else rb_count r),
           rb_total := rb_total r + 1\<rparr>)"

definition get_samples :: "'a ring \<Rightarrow> 'a list" where
  "get_samples r =
     (let sz = length (rb_buffer r)
      in if rb_count r < sz then map (\<lambda>i. rb_buffer r ! i) [0..<rb_count r]
         else map (\<lambda>i. rb_buffer r ! ((rb_write_pos r + i) mod sz)) [0..<sz])"

definition get_new_samples :: "nat \<Rightarrow> 'a ring \<Rightarrow> 'a list \<times> nat" where
  "get_new_samples last_total r =
     (let current = rb_total r; sz = length (rb_buffer r)
      in if current \<le> last_total then ([], last_total)
         else
           let new_count = current - last_total
           in if sz < new_count
              then (map (\<lambda>i. rb_buffer r ! ((rb_write_pos r + i) mod sz)) [0..<sz], current)
              else (map (\<lambda>i. rb_buffer r ! ((last_total + i) mod sz)) [0..<new_count], current))"

definition get_latest_sample :: "'a \<Rightarrow> 'a ring \<Rightarrow> 'a" where
  "get_latest_sample z r =
     (if rb_count r = 0 then z
      else rb_buffer r ! (if rb_write_pos r = 0 then length (rb_buffer r) - 1 else rb_write_pos r - 1))"

section \<open>Bounded logs\<close>

definition newest :: "nat \<Rightarrow> 'a list \<Rightarrow> 'a list" where
  "newest n xs = drop (length xs - n) xs"

lemma length_newest [simp]: "length (newest n xs) = min n (length xs)"
  by (auto simp: newest_def)

lemma newest_snoc:
  assumes "0 < n"
  shows "newest n (newest n xs @ [x]) = newest n (xs @ [x])"
proof (cases "length xs \<le> n")
  case False
  then obtain k where "length xs = n + k" using le_Suc_ex [of n "length xs"] by auto
  with assms show ?thesis by (simp add: newest_def)
qed (simp add: newest_def)

lemma newest_all: "length xs \<le> n \<Longrightarrow> newest n xs = xs"
  by (simp add: newest_def)

locale bounded_log =
  fixes inv :: "'r \<Rightarrow> bool" and contents :: "'r \<Rightarrow> 'a list" and push :: "'a \<Rightarrow> 'r \<Rightarrow> 'r" and cap :: "'r \<Rightarrow> nat"
  assumes cap_pos: "inv r \<Longrightarrow> 0 < cap r"
    and contents_le: "inv r \<Longrightarrow> length (contents r) \<le> cap r"
    and push_inv: "inv r \<Longrightarrow> inv (push x r)"
    and push_cap: "inv r \<Longrightarrow> cap (push x r) = cap r"
    and push_contents: "inv r \<Longrightarrow> contents (push x r) = newest (cap r) (contents r @ [x])"
begin

lemma fold_inv: "inv r \<Longrightarrow> inv (fold push xs r) \<and> cap (fold push xs r) = cap r"
  by (induction xs arbitrary: r) (simp_all add: push_inv push_cap)

text \<open>After any sequence of pushes the log holds the newest entries of its whole history.\<close>

lemma contents_fold: "inv r \<Longrightarrow> contents (fold push xs r) = newest (cap r) (contents r @ xs)"
proof (induction xs rule: rev_induct)
  case Nil
  then show ?case by (simp add: newest_all contents_le)
next
  case (snoc x xs)
  then show ?case
    using fold_inv [of r xs] newest_snoc [of "cap r" "contents r @ xs" x]
    by (simp add: push_contents cap_pos)
qed

lemma push_last: "inv r \<Longrightarrow> contents (push x r) \<noteq> [] \<and> last (contents (push x r)) = x"
  using cap_pos [of r] by (cases "cap r") (auto simp: push_contents newest_def)

end

text \<open>The ring invariant, with the history the counters speak of.\<close>

definition ring_holds :: "'a ring \<Rightarrow> 'a list \<Rightarrow> bool" where
  "ring_holds r xs \<longleftrightarrow>
     rb_buffer r \<noteq> [] \<and> rb_total r = length xs \<and>
     rb_write_pos r = length xs mod length (rb_buffer r) \<and>
     rb_count r = min (length xs) (length (rb_buffer r)) \<and>
     (\<forall>i < length xs. length xs \<le> i + length (rb_buffer r) \<longrightarrow> rb_buffer r ! (i mod length (rb_buffer r)) = xs ! i)"

lemma ring_start_holds: "0 < depth \<Longrightarrow> ring_holds (ring_start z depth r) []"
  by (auto simp: ring_holds_def ring_start_def)

lemma ring_clear_holds: "rb_buffer r \<noteq> [] \<Longrightarrow> ring_holds (ring_clear r) []"
  by (simp add: ring_holds_def ring_clear_def)

lemma mod_neq_near:
  assumes "(i :: nat) < n" and "n < i + sz"
  shows "i mod sz \<noteq> n mod sz"
proof
  assume "i mod sz = n mod sz"
  then have "sz dvd n - i" using assms(1) by (metis mod_eq_dvd_iff_nat less_imp_le)
  moreover have "0 < n - i" "n - i < sz" using assms by auto
  ultimately show False by (simp add: nat_dvd_not_less)
qed

lemma ring_push_holds:
  assumes "ring_holds r xs"
  shows "ring_holds (ring_push x r) (xs @ [x])"
proof -
  let ?sz = "length (rb_buffer r)" and ?n = "length xs"
  have r: "0 < ?sz" "rb_total r = ?n" "rb_write_pos r = ?n mod ?sz" "rb_count r = min ?n ?sz"
    and buf: "\<And>i. i < ?n \<Longrightarrow> ?n \<le> i + ?sz \<Longrightarrow> rb_buffer r ! (i mod ?sz) = xs ! i"
    using assms by (auto simp: ring_holds_def)
  have "(rb_buffer r)[?n mod ?sz := x] ! (i mod ?sz) = (xs @ [x]) ! i"
    if "i < Suc ?n" "Suc ?n \<le> i + ?sz" for i
  proof (cases "i = ?n")
    case True
    then show ?thesis using r(1) by simp
  next
    case False
    then have "i mod ?sz \<noteq> ?n mod ?sz" using that by (intro mod_neq_near) auto
    with False that buf [of i] show ?thesis by (simp add: nth_append)
  qed
  with r show ?thesis
    by (auto simp: ring_holds_def ring_push_def Let_def mod_Suc_eq)
qed

lemma ring_holds_samples:
  assumes "ring_holds r xs"
  shows "get_samples r = newest (length (rb_buffer r)) xs"
proof -
  let ?sz = "length (rb_buffer r)" and ?n = "length xs"
  have r: "0 < ?sz" "rb_write_pos r = ?n mod ?sz" "rb_count r = min ?n ?sz"
    and buf: "\<And>i. i < ?n \<Longrightarrow> ?n \<le> i + ?sz \<Longrightarrow> rb_buffer r ! (i mod ?sz) = xs ! i"
    using assms by (auto simp: ring_holds_def)
  show ?thesis
  proof (cases "?n < ?sz")
    case True
    have "map ((!) (rb_buffer r)) [0..<?n] = xs"
    proof (rule nth_equalityI)
      fix i assume "i < length (map ((!) (rb_buffer r)) [0..<?n])"
      then have i: "i < ?n" by simp
      moreover from i True have "i mod ?sz = i" by simp
      ultimately show "map ((!) (rb_buffer r)) [0..<?n] ! i = xs ! i" using buf [of i] True by simp
    qed simp
    with True r show ?thesis by (simp add: get_samples_def newest_all)
  next
    case False
    have "rb_buffer r ! ((?n mod ?sz + i) mod ?sz) = xs ! (?n - ?sz + i)" if "i < ?sz" for i
    proof -
      have "(?n mod ?sz + i) mod ?sz = (?n + i) mod ?sz" by (simp add: mod_add_left_eq)
      also have "?n + i = (?n - ?sz + i) + ?sz" using False by simp
      also have "((?n - ?sz + i) + ?sz) mod ?sz = (?n - ?sz + i) mod ?sz" by (rule mod_add_self2)
      finally show ?thesis using buf [of "?n - ?sz + i"] that False by simp
    qed
    note slot = this
    have "\<not> rb_count r < ?sz" using r(3) False by simp
    then have "get_samples r = map (\<lambda>i. rb_buffer r ! ((rb_write_pos r + i) mod ?sz)) [0..<?sz]"
      by (simp only: get_samples_def Let_def if_False)
    also have "\<dots> = map (\<lambda>i. xs ! (?n - ?sz + i)) [0..<?sz]"
      using slot r(2) by (intro map_cong) auto
    also have "\<dots> = newest ?sz xs"
      using False by (intro nth_equalityI) (simp_all add: newest_def)
    finally show ?thesis .
  qed
qed

interpretation ring: bounded_log "\<lambda>r. \<exists>xs. ring_holds r xs" get_samples ring_push "\<lambda>r. length (rb_buffer r)"
proof
  fix r :: "'a ring" and x
  assume "\<exists>xs. ring_holds r xs"
  then obtain xs where r: "ring_holds r xs" by blast
  then show pos: "0 < length (rb_buffer r)" by (simp add: ring_holds_def)
  show "length (get_samples r) \<le> length (rb_buffer r)" using ring_holds_samples [OF r] by simp
  show "\<exists>xs. ring_holds (ring_push x r) xs" using ring_push_holds [OF r] by blast
  show len: "length (rb_buffer (ring_push x r)) = length (rb_buffer r)" by (simp add: ring_push_def Let_def)
  show "get_samples (ring_push x r) = newest (length (rb_buffer r)) (get_samples r @ [x])"
    using ring_holds_samples [OF r] ring_holds_samples [OF ring_push_holds [OF r], of x] newest_snoc [OF pos, of xs x]
    by (simp add: len)
qed

lemma get_new_samples_holds:
  assumes "ring_holds r xs"
  shows "get_new_samples last_total r =
           (if length xs \<le> last_total then ([], last_total)
            else (drop (max last_total (length xs - length (rb_buffer r))) xs, length xs))"
proof -
  let ?sz = "length (rb_buffer r)" and ?n = "length xs"
  have r: "rb_total r = ?n" "rb_count r = min ?n ?sz"
    and buf: "\<And>i. i < ?n \<Longrightarrow> ?n \<le> i + ?sz \<Longrightarrow> rb_buffer r ! (i mod ?sz) = xs ! i"
    using assms by (auto simp: ring_holds_def)
  consider "?n \<le> last_total" | "last_total < ?n" "?sz < ?n - last_total" | "last_total < ?n" "?n - last_total \<le> ?sz"
    by linarith
  then show ?thesis
  proof cases
    case 1
    then show ?thesis using r by (simp add: get_new_samples_def)
  next
    case 2
    then have "\<not> rb_count r < ?sz" using r(2) by simp
    then have "map (\<lambda>i. rb_buffer r ! ((rb_write_pos r + i) mod ?sz)) [0..<?sz] = get_samples r"
      by (simp only: get_samples_def Let_def if_False)
    also have "\<dots> = drop (?n - ?sz) xs" using ring_holds_samples [OF assms] by (simp add: newest_def)
    finally have all: "map (\<lambda>i. rb_buffer r ! ((rb_write_pos r + i) mod ?sz)) [0..<?sz] = drop (?n - ?sz) xs" .
    have "max last_total (?n - ?sz) = ?n - ?sz" using 2 by linarith
    with 2 all r show ?thesis by (simp add: get_new_samples_def Let_def)
  next
    case 3
    have m: "max last_total (?n - ?sz) = last_total" using 3 by linarith
    have "map (\<lambda>i. rb_buffer r ! ((last_total + i) mod ?sz)) [0..<?n - last_total] = drop last_total xs"
    proof (rule nth_equalityI)
      fix i assume "i < length (map (\<lambda>i. rb_buffer r ! ((last_total + i) mod ?sz)) [0..<?n - last_total])"
      then have i: "last_total + i < ?n" by simp
      with buf [of "last_total + i"] 3 
      show "map (\<lambda>i. rb_buffer r ! ((last_total + i) mod ?sz)) [0..<?n - last_total] ! i = drop last_total xs ! i"
        by simp
    qed simp
    with 3 m r show ?thesis by (simp add: get_new_samples_def Let_def)
  qed
qed

section \<open>The engine\<close>

datatype capture_state = Cs_STOPPED | Cs_RUNNING | Cs_WAITING_TRIGGER | Cs_TRIGGERED | Cs_COMPLETE

record capture_engine =
  ce_depth :: nat
  ce_interval :: u32
  ce_callback :: bool
  ce_trigger :: trigger_engine
  ce_ring :: "sample_frame ring"
  ce_trigger_index :: int
  ce_post :: nat
  ce_state :: capture_state
  ce_stop :: bool
  ce_thread :: bool
  ce_prev :: "scan_result option"
  ce_error :: string

definition capture_new :: capture_engine where
  "capture_new =
     \<lparr>ce_depth = 10000, ce_interval = 1000, ce_callback = False, ce_trigger = trigger_new,
      ce_ring = \<lparr>rb_buffer = [], rb_write_pos = 0, rb_count = 0, rb_total = 0\<rparr>,
      ce_trigger_index = -1, ce_post = 0, ce_state = Cs_STOPPED, ce_stop = False, ce_thread = False,
      ce_prev = None, ce_error = []\<rparr>"

definition set_buffer_depth :: "nat \<Rightarrow> capture_engine \<Rightarrow> capture_engine" where
  "set_buffer_depth depth e = (if ce_state e \<noteq> Cs_STOPPED then e else e\<lparr>ce_depth := max depth 100\<rparr>)"

definition set_sample_interval :: "u32 \<Rightarrow> capture_engine \<Rightarrow> capture_engine" where
  "set_sample_interval us e = e\<lparr>ce_interval := max us 100\<rparr>"

definition set_callback :: "bool \<Rightarrow> capture_engine \<Rightarrow> capture_engine" where
  "set_callback cb e = (if ce_state e \<noteq> Cs_STOPPED then e else e\<lparr>ce_callback := cb\<rparr>)"

definition capture_start :: "bool \<Rightarrow> capture_engine \<Rightarrow> bool \<times> capture_engine" where
  "capture_start ready e =
     (if ce_state e \<noteq> Cs_STOPPED then (False, e\<lparr>ce_error := ''Capture already running''\<rparr>)
      else if \<not> ready then (False, e\<lparr>ce_error := ''Scanner not ready''\<rparr>)
      else
        let e1 = e\<lparr>ce_ring := ring_start empty_frame (ce_depth e) (ce_ring e), ce_trigger_index := -1,
                   ce_trigger := trigger_arm (ce_trigger e), ce_stop := False\<rparr>;
            st = (if te_mode (ce_trigger e1) = Tm_FREE_RUN \<or> te_mode (ce_trigger e1) = Tm_SINGLE
                  then Cs_RUNNING else Cs_WAITING_TRIGGER)
        in (True, e1\<lparr>ce_state := st, ce_thread := True, ce_prev := None\<rparr>))"

definition capture_stop :: "capture_engine \<Rightarrow> capture_engine" where
  "capture_stop e =
     (if ce_state e = Cs_STOPPED then e
      else e\<lparr>ce_stop := True, ce_thread := False, ce_state := Cs_STOPPED\<rparr>)"

definition clear_samples :: "capture_engine \<Rightarrow> capture_engine" where
  "clear_samples e =
     (if ce_state e \<noteq> Cs_STOPPED then e
      else e\<lparr>ce_ring := ring_clear (ce_ring e), ce_trigger_index := -1, ce_post := 0\<rparr>)"

definition post_trigger_samples :: "capture_engine \<Rightarrow> nat" where
  "post_trigger_samples e = nat (floor (rat_of_nat (ce_depth e) * (1 - te_pre_ratio (ce_trigger e))))"

text \<open>The trigger part of an iteration: the engine, the frame and \<open>current_state\<close>.\<close>

definition capture_trigger ::
  "scan_result \<Rightarrow> sample_frame \<Rightarrow> capture_engine \<Rightarrow> capture_engine \<times> sample_frame \<times> capture_state" where
  "capture_trigger result frame e =
     (case (ce_state e, ce_prev e) of
        (Cs_WAITING_TRIGGER, Some prev) \<Rightarrow>
          (case trigger_evaluate prev result (ce_trigger e) of (fired, t) \<Rightarrow>
             let e1 = e\<lparr>ce_trigger := t\<rparr>
             in if fired
                then (e1\<lparr>ce_state := Cs_TRIGGERED, ce_post := post_trigger_samples e1\<rparr>,
                      frame\<lparr>sf_trigger_point := True\<rparr>, Cs_TRIGGERED)
                else (e1, frame, Cs_WAITING_TRIGGER))
      | (st, _) \<Rightarrow> (e, frame, st))"

text \<open>One iteration of \<open>captureLoop\<close>.\<close>

definition capture_iteration ::
  "scan_result \<Rightarrow> int \<Rightarrow> capture_engine \<Rightarrow> capture_engine \<times> (sample_frame \<times> capture_state) option" where
  "capture_iteration result now e =
     (case capture_trigger result \<lparr>sf_timestamp = now, sf_data = result, sf_trigger_point = False\<rparr> e of
        (e1, frame, current_state) \<Rightarrow>
          if current_state = Cs_TRIGGERED \<and> ce_post e1 = 0 \<and> te_mode (ce_trigger e1) = Tm_SINGLE
          then (e1\<lparr>ce_state := Cs_COMPLETE, ce_thread := False\<rparr>, None)
          else
            let e2 = (if current_state = Cs_TRIGGERED then
                        if ce_post e1 = 0
                        then e1\<lparr>ce_trigger := trigger_arm (ce_trigger e1), ce_state := Cs_WAITING_TRIGGER\<rparr>
                        else e1\<lparr>ce_post := ce_post e1 - 1\<rparr>
                      else e1);
                e3 = e2\<lparr>ce_ring := ring_push frame (ce_ring e2), ce_prev := Some result\<rparr>
            in if te_mode (ce_trigger e3) = Tm_SINGLE \<and> current_state = Cs_RUNNING
               then (e3\<lparr>ce_state := Cs_COMPLETE, ce_thread := False\<rparr>, None)
               else (e3, if ce_callback e3 then Some (frame, ce_state e3) else None))"

section \<open>Interleavings\<close>

inductive cap_step :: "capture_engine \<Rightarrow> capture_engine \<Rightarrow> bool" where
  Set_Depth: "cap_step e (set_buffer_depth d e)"
| Set_Interval: "cap_step e (set_sample_interval us e)"
| Set_Callback: "cap_step e (set_callback cb e)"
| Trigger_Mode: "cap_step e (e\<lparr>ce_trigger := set_mode m (ce_trigger e)\<rparr>)"
| Trigger_Conditions: "cap_step e (e\<lparr>ce_trigger := set_conditions cs (ce_trigger e)\<rparr>)"
| Trigger_Clear: "cap_step e (e\<lparr>ce_trigger := clear_conditions (ce_trigger e)\<rparr>)"
| Trigger_Ratio: "cap_step e (e\<lparr>ce_trigger := set_pre_trigger_ratio q (ce_trigger e)\<rparr>)"
| Start: "cap_step e (snd (capture_start ready e))"
| Stop: "cap_step e (capture_stop e)"
| Clear: "cap_step e (clear_samples e)"
| Iterate: "ce_thread e \<Longrightarrow> \<not> ce_stop e \<Longrightarrow> cap_step e (fst (capture_iteration result now e))"

inductive cap_reachable :: "capture_engine \<Rightarrow> bool" where
  Init: "cap_reachable capture_new"
| Step: "cap_reachable e \<Longrightarrow> cap_step e e' \<Longrightarrow> cap_reachable e'"

definition ratio_ok :: "trigger_engine \<Rightarrow> bool" where
  "ratio_ok t \<longleftrightarrow> 0 \<le> te_pre_ratio t \<and> te_pre_ratio t \<le> 1"

definition cap_ok :: "capture_engine \<Rightarrow> bool" where
  "cap_ok e \<longleftrightarrow>
     100 \<le> ce_depth e \<and> ratio_ok (ce_trigger e) \<and>
     (ce_thread e \<longleftrightarrow> ce_state e \<in> {Cs_RUNNING, Cs_WAITING_TRIGGER, Cs_TRIGGERED}) \<and>
     (ce_state e \<noteq> Cs_STOPPED \<longrightarrow> length (rb_buffer (ce_ring e)) = ce_depth e \<and> \<not> ce_stop e) \<and>
     (rb_buffer (ce_ring e) = [] \<and> rb_count (ce_ring e) = 0 \<and> rb_total (ce_ring e) = 0
        \<and> rb_write_pos (ce_ring e) = 0 \<or> (\<exists>xs. ring_holds (ce_ring e) xs)) \<and>
     (ce_state e = Cs_TRIGGERED \<longrightarrow> ce_post e \<le> ce_depth e)"

lemma post_trigger_le:
  assumes "ratio_ok (ce_trigger e)"
  shows "post_trigger_samples e \<le> ce_depth e"
proof -
  have "rat_of_nat (ce_depth e) * (1 - te_pre_ratio (ce_trigger e)) \<le> rat_of_nat (ce_depth e)"
    using assms by (intro mult_left_le) (auto simp: ratio_ok_def)
  then have "floor (rat_of_nat (ce_depth e) * (1 - te_pre_ratio (ce_trigger e))) \<le> floor (rat_of_nat (ce_depth e))"
    by (rule floor_mono)
  then show ?thesis by (simp add: post_trigger_samples_def nat_le_iff)
qed

lemma trigger_ops_ratio [simp]:
  "ratio_ok (set_mode m t) = ratio_ok t" "ratio_ok (set_conditions cs t) = ratio_ok t"
  "ratio_ok (clear_conditions t) = ratio_ok t" "ratio_ok (trigger_arm t) = ratio_ok t"
  "ratio_ok (set_pre_trigger_ratio q t)"
  by (auto simp: ratio_ok_def set_mode_def set_conditions_def clear_conditions_def trigger_arm_def
      set_pre_trigger_ratio_def Let_def)

lemma trigger_evaluate_ratio [simp]:
  "ratio_ok (snd (trigger_evaluate prev cur t)) = ratio_ok t"
  "te_mode (snd (trigger_evaluate prev cur t)) = te_mode t"
  by (auto simp: trigger_evaluate_def ratio_ok_def)

lemma length_ring_push [simp]: "length (rb_buffer (ring_push x r)) = length (rb_buffer r)"
  by (simp add: ring_push_def Let_def)

text \<open>The trigger part, by cases.\<close>

lemma capture_trigger_idle:
  "ce_state e \<noteq> Cs_WAITING_TRIGGER \<or> ce_prev e = None \<Longrightarrow> capture_trigger result frame e = (e, frame, ce_state e)"
  by (cases "ce_state e"; cases "ce_prev e") (simp_all add: capture_trigger_def)

lemma capture_trigger_waiting:
  assumes "ce_state e = Cs_WAITING_TRIGGER" and "ce_prev e = Some prev"
  shows "capture_trigger result frame e =
           (let t = snd (trigger_evaluate prev result (ce_trigger e)); e1 = e\<lparr>ce_trigger := t\<rparr>
            in if fst (trigger_evaluate prev result (ce_trigger e))
               then (e1\<lparr>ce_state := Cs_TRIGGERED, ce_post := post_trigger_samples e1\<rparr>,
                     frame\<lparr>sf_trigger_point := True\<rparr>, Cs_TRIGGERED)
               else (e1, frame, Cs_WAITING_TRIGGER))"
  using assms by (simp add: capture_trigger_def split_beta Let_def)

lemma capture_trigger_ok:
  assumes "cap_ok e" and "ce_thread e" and "capture_trigger result frame e = (e1, frame1, st)"
  shows "ce_state e1 = st" and "ce_ring e1 = ce_ring e" and "ce_depth e1 = ce_depth e" and "ce_thread e1"
    and "ce_stop e1 = ce_stop e" and "ratio_ok (ce_trigger e1)" and "ce_callback e1 = ce_callback e"
    and "st = Cs_TRIGGERED \<Longrightarrow> ce_post e1 \<le> ce_depth e1"
    and "st \<in> {Cs_RUNNING, Cs_WAITING_TRIGGER, Cs_TRIGGERED}"
proof -
  have ok: "ratio_ok (ce_trigger e)" "ce_state e \<in> {Cs_RUNNING, Cs_WAITING_TRIGGER, Cs_TRIGGERED}"
    "ce_state e = Cs_TRIGGERED \<longrightarrow> ce_post e \<le> ce_depth e"
    using assms(1,2) by (auto simp: cap_ok_def)
  have "ce_state e1 = st \<and> ce_ring e1 = ce_ring e \<and> ce_depth e1 = ce_depth e \<and> ce_thread e1 \<and>
     ce_stop e1 = ce_stop e \<and> ratio_ok (ce_trigger e1) \<and> ce_callback e1 = ce_callback e \<and>
     (st = Cs_TRIGGERED \<longrightarrow> ce_post e1 \<le> ce_depth e1) \<and> st \<in> {Cs_RUNNING, Cs_WAITING_TRIGGER, Cs_TRIGGERED}"
  proof (cases "ce_state e \<noteq> Cs_WAITING_TRIGGER \<or> ce_prev e = None")
    case True
    with assms(2,3) ok show ?thesis by (auto simp: capture_trigger_idle)
  next
    case False
    then obtain prev where prev: "ce_state e = Cs_WAITING_TRIGGER" "ce_prev e = Some prev" by auto
    let ?e1 = "e\<lparr>ce_trigger := snd (trigger_evaluate prev result (ce_trigger e))\<rparr>"
    have "ratio_ok (ce_trigger ?e1)" using ok(1) by simp
    from this post_trigger_le [OF this] show ?thesis
      using assms(2,3) prev
      by (cases "fst (trigger_evaluate prev result (ce_trigger e))")
         (auto simp: capture_trigger_waiting [OF prev] Let_def simp del: trigger_evaluate_ratio)
  qed
  then show "ce_state e1 = st" and "ce_ring e1 = ce_ring e" and "ce_depth e1 = ce_depth e" and "ce_thread e1"
    and "ce_stop e1 = ce_stop e" and "ratio_ok (ce_trigger e1)" and "ce_callback e1 = ce_callback e"
    and "st = Cs_TRIGGERED \<Longrightarrow> ce_post e1 \<le> ce_depth e1"
    and "st \<in> {Cs_RUNNING, Cs_WAITING_TRIGGER, Cs_TRIGGERED}"
    by blast+
qed

lemma capture_iteration_ok:
  assumes "cap_ok e" and "ce_thread e"
  shows "cap_ok (fst (capture_iteration result now e))"
proof -
  let ?frame = "\<lparr>sf_timestamp = now, sf_data = result, sf_trigger_point = False\<rparr>"
  obtain e1 frame st where t: "capture_trigger result ?frame e = (e1, frame, st)"
    by (cases "capture_trigger result ?frame e")
  note k = capture_trigger_ok [OF assms t]
  have run: "ce_state e \<noteq> Cs_STOPPED" using assms by (auto simp: cap_ok_def)
  then have len: "length (rb_buffer (ce_ring e)) = ce_depth e" "\<not> ce_stop e" "100 \<le> ce_depth e"
    using assms(1) by (auto simp: cap_ok_def)
  then obtain xs where "ring_holds (ce_ring e) xs" using assms(1) by (auto simp: cap_ok_def)
  then have push: "\<exists>ys. ring_holds (ring_push frame (ce_ring e)) ys" "\<exists>ys. ring_holds (ce_ring e) ys"
    using ring_push_holds [of "ce_ring e" xs frame] by auto
  let ?e2 = "if st = Cs_TRIGGERED then
               if ce_post e1 = 0 then e1\<lparr>ce_trigger := trigger_arm (ce_trigger e1), ce_state := Cs_WAITING_TRIGGER\<rparr>
               else e1\<lparr>ce_post := ce_post e1 - 1\<rparr>
             else e1"
  let ?e3 = "?e2\<lparr>ce_ring := ring_push frame (ce_ring ?e2), ce_prev := Some result\<rparr>"
  have e1: "ce_depth e1 = ce_depth e" "ce_ring e1 = ce_ring e" "\<not> ce_stop e1" "ce_thread e1" "ratio_ok (ce_trigger e1)"
    "ce_state e1 = st" "st = Cs_TRIGGERED \<longrightarrow> ce_post e1 \<le> ce_depth e"
    "st = Cs_RUNNING \<or> st = Cs_WAITING_TRIGGER \<or> st = Cs_TRIGGERED"
    using k len by auto
  have e2: "ce_depth ?e2 = ce_depth e" "ce_ring ?e2 = ce_ring e" "\<not> ce_stop ?e2" "ce_thread ?e2" "ratio_ok (ce_trigger ?e2)"
    "ce_state ?e2 = Cs_TRIGGERED \<longrightarrow> ce_post ?e2 \<le> ce_depth e"
    "ce_state ?e2 = Cs_RUNNING \<or> ce_state ?e2 = Cs_WAITING_TRIGGER \<or> ce_state ?e2 = Cs_TRIGGERED"
    using e1 by (auto split: if_splits)
  have ok3: "cap_ok ?e3" and ok3': "cap_ok (?e3\<lparr>ce_state := Cs_COMPLETE, ce_thread := False\<rparr>)"
    using e2 len push by (simp_all only: cap_ok_def) auto
  have ok1': "cap_ok (e1\<lparr>ce_state := Cs_COMPLETE, ce_thread := False\<rparr>)"
    using e1 len push by (simp only: cap_ok_def) auto
  define e3 where "e3 = ?e3"
  have "fst (capture_iteration result now e) \<in>
          {e1\<lparr>ce_state := Cs_COMPLETE, ce_thread := False\<rparr>, e3\<lparr>ce_state := Cs_COMPLETE, ce_thread := False\<rparr>, e3}"
    unfolding capture_iteration_def t prod.case Let_def e3_def [symmetric] by (auto simp only: split: if_splits) auto
  then show ?thesis using ok3 ok3' ok1' by (auto simp only: e3_def insert_iff empty_iff)
qed

lemma cap_step_ok:
  assumes "cap_step e e'" and "cap_ok e"
  shows "cap_ok e'"
  using assms
proof (induction rule: cap_step.induct)
  case (Start e ready)
  have "0 < ce_depth e" using Start by (auto simp: cap_ok_def)
  then have "ring_holds (ring_start empty_frame (ce_depth e) (ce_ring e)) []" by (rule ring_start_holds)
  moreover have "length (rb_buffer (ring_start empty_frame (ce_depth e) (ce_ring e))) = ce_depth e"
    by (simp add: ring_start_def)
  ultimately show ?case using Start by (auto simp: cap_ok_def capture_start_def Let_def)
next
  case (Clear e)
  then show ?case
    by (auto simp: cap_ok_def clear_samples_def intro: ring_clear_holds) (auto simp: ring_clear_def ring_holds_def)
next
  case (Iterate e result now)
  then show ?case by (intro capture_iteration_ok)
qed (auto simp: cap_ok_def set_buffer_depth_def set_sample_interval_def set_callback_def capture_stop_def)

lemma cap_new_ok: "cap_ok capture_new"
  by (simp add: cap_ok_def capture_new_def trigger_new_def ratio_ok_def)

lemma cap_reachable_ok: "cap_reachable e \<Longrightarrow> cap_ok e"
  by (induction rule: cap_reachable.induct) (blast intro: cap_new_ok cap_step_ok)+

section \<open>Running the thread\<close>

text \<open>A run of the loop over a list of scan results with their clock readings; it ends when the
  iteration leaves the loop.\<close>

fun capture_run :: "(scan_result \<times> int) list \<Rightarrow> capture_engine \<Rightarrow> capture_engine" where
  "capture_run [] e = e"
| "capture_run ((result, now) # inputs) e =
     (if ce_thread e \<and> \<not> ce_stop e then capture_run inputs (fst (capture_iteration result now e)) else e)"

definition plain_frame :: "scan_result \<times> int \<Rightarrow> sample_frame" where
  "plain_frame input = \<lparr>sf_timestamp = snd input, sf_data = fst input, sf_trigger_point = False\<rparr>"

lemma free_run_iteration:
  assumes "ce_state e = Cs_RUNNING" and "te_mode (ce_trigger e) \<noteq> Tm_SINGLE"
  shows "fst (capture_iteration result now e) =
           e\<lparr>ce_ring := ring_push (plain_frame (result, now)) (ce_ring e), ce_prev := Some result\<rparr>"
  using assms by (simp add: capture_iteration_def capture_trigger_idle plain_frame_def Let_def)

lemma free_run_ring:
  assumes "ce_state e = Cs_RUNNING" and "te_mode (ce_trigger e) \<noteq> Tm_SINGLE" and "ce_thread e" and "\<not> ce_stop e"
  shows "ce_ring (capture_run inputs e) = fold ring_push (map plain_frame inputs) (ce_ring e)"
  using assms
proof (induction inputs arbitrary: e)
  case (Cons input inputs)
  then show ?case by (cases input) (simp add: free_run_iteration)
qed simp

lemma fold_push_holds: "ring_holds r xs \<Longrightarrow> ring_holds (fold ring_push ys r) (xs @ ys)"
proof (induction ys arbitrary: r xs)
  case (Cons y ys)
  then show ?case using ring_push_holds [of r xs y] by fastforce
qed simp

lemma capture_start_free_run:
  assumes "capture_start ready e = (True, e0)" and "te_mode (ce_trigger e) = Tm_FREE_RUN"
  shows "ce_state e0 = Cs_RUNNING" and "te_mode (ce_trigger e0) \<noteq> Tm_SINGLE" and "ce_thread e0" and "\<not> ce_stop e0"
    and "ce_ring e0 = ring_start empty_frame (ce_depth e) (ce_ring e)"
  using assms by (auto simp: capture_start_def trigger_arm_def Let_def split: if_splits)

lemma triggered_iteration:
  assumes "ce_state e = Cs_TRIGGERED" and "te_mode (ce_trigger e) \<noteq> Tm_SINGLE"
  shows "fst (capture_iteration result now e) =
           (let e1 = (if ce_post e = 0
                      then e\<lparr>ce_trigger := trigger_arm (ce_trigger e), ce_state := Cs_WAITING_TRIGGER\<rparr>
                      else e\<lparr>ce_post := ce_post e - 1\<rparr>)
            in e1\<lparr>ce_ring := ring_push (plain_frame (result, now)) (ce_ring e), ce_prev := Some result\<rparr>)"
  using assms by (simp add: capture_iteration_def capture_trigger_idle plain_frame_def Let_def trigger_arm_def)

lemma triggered_run:
  assumes "ce_state e = Cs_TRIGGERED" and "te_mode (ce_trigger e) \<noteq> Tm_SINGLE" and "ce_thread e" and "\<not> ce_stop e"
    and "length inputs = Suc (ce_post e)"
  shows "ce_state (capture_run inputs e) = Cs_WAITING_TRIGGER \<and>
         ce_trigger (capture_run inputs e) = trigger_arm (ce_trigger e) \<and>
         ce_ring (capture_run inputs e) = fold ring_push (map plain_frame inputs) (ce_ring e)"
  using assms
proof (induction inputs arbitrary: e)
  case (Cons input inputs)
  obtain result now where input: "input = (result, now)" by (cases input)
  show ?case
  proof (cases "ce_post e")
    case 0
    then have "inputs = []" using Cons.prems by simp
    with 0 Cons.prems input show ?thesis by (simp add: triggered_iteration)
  next
    case (Suc k)
    let ?e1 = "e\<lparr>ce_post := k, ce_ring := ring_push (plain_frame input) (ce_ring e), ce_prev := Some result\<rparr>"
    have "fst (capture_iteration result now e) = ?e1"
      using Suc Cons.prems input by (simp add: triggered_iteration)
    moreover have "ce_state (capture_run inputs ?e1) = Cs_WAITING_TRIGGER \<and>
         ce_trigger (capture_run inputs ?e1) = trigger_arm (ce_trigger ?e1) \<and>
         ce_ring (capture_run inputs ?e1) = fold ring_push (map plain_frame inputs) (ce_ring ?e1)"
      using Suc Cons.prems by (intro Cons.IH) auto
    ultimately show ?thesis using Cons.prems input by simp
  qed
qed simp

section \<open>Properties\<close>

lemmas cap_facts = cap_ok_def ring_holds_def

text \<open>In every interleaving of configuration calls, start, stop, clear and loop iterations the
  thread runs exactly while the state is RUNNING, WAITING_TRIGGER or TRIGGERED, the buffer then has
  exactly the configured depth, the ring's counters stay inside it, the write position is the next
  slot of the history, and the post-trigger countdown never exceeds the depth.\<close>

theorem capture_invariant:
  assumes "cap_reachable e"
  shows "(ce_thread e \<longleftrightarrow> ce_state e \<in> {Cs_RUNNING, Cs_WAITING_TRIGGER, Cs_TRIGGERED}) \<and>
         (ce_state e \<noteq> Cs_STOPPED \<longrightarrow>
            length (rb_buffer (ce_ring e)) = ce_depth e \<and> 100 \<le> ce_depth e \<and> rb_write_pos (ce_ring e) < ce_depth e) \<and>
         rb_count (ce_ring e) = min (rb_total (ce_ring e)) (length (rb_buffer (ce_ring e))) \<and>
         (ce_state e = Cs_TRIGGERED \<longrightarrow> ce_post e \<le> ce_depth e)"
proof -
  have ok: "cap_ok e" using assms by (rule cap_reachable_ok)
  then consider "rb_buffer (ce_ring e) = []" "rb_count (ce_ring e) = 0" "rb_total (ce_ring e) = 0"
    | xs where "ring_holds (ce_ring e) xs" by (auto simp: cap_ok_def)
  then show ?thesis
  proof cases
    case 1
    with ok show ?thesis by (auto simp: cap_ok_def)
  next
    case 2
    with ok show ?thesis by (auto simp: cap_facts)
  qed
qed

definition demo_engine :: capture_engine where
  "demo_engine = snd (capture_start True (set_buffer_depth 100 capture_new))"

lemma demo_engine_reachable: "cap_reachable demo_engine"
  unfolding demo_engine_def by (rule cap_reachable.Step [OF cap_reachable.Step [OF cap_reachable.Init]]) (rule cap_step.intros)+

lemma capture_invariant_witness:
  "ce_thread demo_engine = (ce_state demo_engine \<in> {Cs_RUNNING, Cs_WAITING_TRIGGER, Cs_TRIGGERED})"
  using capture_invariant [OF demo_engine_reachable] by blast

text \<open>C27: after a successful \<open>start\<close> in free-run mode, whatever was in the buffer before and however many
  samples the thread takes, \<open>getSamples\<close> returns the newest \<open>depth\<close> of them in order, and a reader that
  polls \<open>getNewSamples\<close> with the total it last saw gets exactly the samples it has not seen, unless
  more than \<open>depth\<close> were taken since, when it gets the newest \<open>depth\<close>.\<close>

theorem free_run_returns_newest:
  assumes "capture_start ready e = (True, e0)" and "te_mode (ce_trigger e) = Tm_FREE_RUN"
    and "0 < ce_depth e" and "seen \<le> length inputs"
  shows "get_samples (ce_ring (capture_run inputs e0)) = newest (ce_depth e) (map plain_frame inputs) \<and>
         get_new_samples seen (ce_ring (capture_run inputs e0)) =
           (drop (max seen (length inputs - ce_depth e)) (map plain_frame inputs), length inputs)"
proof -
  note start = capture_start_free_run [OF assms(1,2)]
  have r: "ring_holds (ce_ring e0) []" using start(5) assms(3) ring_start_holds by simp
  have "length (rb_buffer (ce_ring e0)) = ce_depth e" by (simp add: start(5) ring_start_def)
  moreover have "length (rb_buffer (fold ring_push xs (ce_ring e0))) = length (rb_buffer (ce_ring e0))" for xs
    using ring.fold_inv [of "ce_ring e0" xs] r by blast
  ultimately show ?thesis
    using fold_push_holds [OF r, of "map plain_frame inputs"] ring.contents_fold [of "ce_ring e0" "map plain_frame inputs"]
      ring_holds_samples [OF r] r assms(4)
    by (auto simp: free_run_ring [OF start(1-4)] get_new_samples_holds newest_def)
qed

lemma free_run_returns_newest_witness:
  "get_samples (ce_ring (capture_run [(empty_scan, 7), (empty_scan, 8)] demo_engine)) =
     newest 100 (map plain_frame [(empty_scan, 7), (empty_scan, 8)])"
  using free_run_returns_newest [of True "set_buffer_depth 100 capture_new" demo_engine 0 "[(empty_scan, 7), (empty_scan, 8)]"]
  by (simp add: demo_engine_def capture_start_def set_buffer_depth_def capture_new_def trigger_new_def Let_def)

text \<open>Once triggered (outside SINGLE mode), the thread stores exactly the remaining post-trigger
  samples and one more, all unmarked, and the iteration after the countdown reaches 0 re-arms the
  trigger and goes back to WAITING_TRIGGER.\<close>

theorem triggered_capture_rearms:
  assumes "ce_state e = Cs_TRIGGERED" and "te_mode (ce_trigger e) \<noteq> Tm_SINGLE" and "ce_thread e" and "\<not> ce_stop e"
    and "length inputs = Suc (ce_post e)"
  shows "ce_state (capture_run inputs e) = Cs_WAITING_TRIGGER \<and>
         te_triggered (ce_trigger (capture_run inputs e)) = False \<and>
         ce_ring (capture_run inputs e) = fold ring_push (map plain_frame inputs) (ce_ring e)"
  using triggered_run [OF assms] by (simp add: trigger_arm_def)

lemma triggered_capture_rearms_witness:
  "ce_state (capture_run [(empty_scan, 1), (empty_scan, 2)] (demo_engine\<lparr>ce_state := Cs_TRIGGERED, ce_post := 1\<rparr>)) =
     Cs_WAITING_TRIGGER"
  using triggered_capture_rearms [of "demo_engine\<lparr>ce_state := Cs_TRIGGERED, ce_post := 1\<rparr>" "[(empty_scan, 1), (empty_scan, 2)]"]
  by (simp add: demo_engine_def capture_start_def set_buffer_depth_def capture_new_def trigger_new_def Let_def trigger_arm_def)

end
