(* ===== verification/Protocol.thy ===== *)
theory Protocol
  imports Capture
begin

text \<open>
  src/src/protocol/protocol.h: the frames all decoders produce, and how they read a captured sample.
  Times are exact rationals (the code uses \<open>double\<close>), in microseconds from the first sample; the
  clock readings of the samples are nanoseconds.
\<close>

datatype protocol_kind = Pk_UART | Pk_SPI | Pk_I2C

record decoded_frame =
  df_start_us :: rat
  df_end_us :: rat
  df_kind :: protocol_kind
  df_label :: string
  df_data :: string
  df_error :: bool

definition sample_pin_value :: "sample_frame \<Rightarrow> string \<Rightarrow> bool" where
  "sample_pin_value f pin \<longleftrightarrow> sr_get_pin (sf_data f) pin = Ps_HIGH"

definition sample_time_us :: "sample_frame \<Rightarrow> sample_frame \<Rightarrow> rat" where
  "sample_time_us f t0 = of_int (sf_timestamp f - sf_timestamp t0) / 1000"

text \<open>What a frame says, without its times.\<close>

definition frame_says :: "decoded_frame \<Rightarrow> string \<times> bool" where
  "frame_says f = (df_label f, df_error f)"

text \<open>Samples with given levels of some pins, one per microsecond, for the examples.\<close>

definition sample_of :: "int \<Rightarrow> (string \<times> bool) list \<Rightarrow> sample_frame" where
  "sample_of t pins =
     \<lparr>sf_timestamp = t, sf_data = \<lparr>sr_raw_bsr = [], sr_pin_states = map_of (map (\<lambda>(p, b). (p, pin_state_of b)) pins)\<rparr>,
      sf_trigger_point = False\<rparr>"

end
