(* ===== verification/I2c.thy ===== *)
theory I2c
  imports Protocol
begin

text \<open>
  src/src/protocol/i2c_decoder.{h,cpp}: \<open>decodeI2c\<close>.  The local variables of the function are the record
  \<open>i2c_run\<close>; the body of its loop is \<open>i2c_step\<close>, which reads the two lines and the time and hands them to
  \<open>i2c_edge\<close>.

  The lemmas show that the decoder does not depend on how long a level lasts (\<open>i2c_run_destutter\<close>), and
  the property that it decodes the waveform of any sequence of transfers, with repeated starts.
\<close>

section \<open>The decoder\<close>

record i2c_config =
  ic_scl_pin :: string
  ic_sda_pin :: string

datatype i2c_state = I2_IDLE | I2_ADDR | I2_ADDR_ACK | I2_DATA | I2_DATA_ACK

record i2c_run =
  iv_state :: i2c_state
  iv_prev_scl :: bool
  iv_prev_sda :: bool
  iv_bit_count :: nat
  iv_shift_reg :: byte
  iv_event_start :: rat
  iv_frames :: "decoded_frame list"

definition i2c_init :: i2c_run where
  "i2c_init = \<lparr>iv_state = I2_IDLE, iv_prev_scl = True, iv_prev_sda = True, iv_bit_count = 0,
               iv_shift_reg = 0, iv_event_start = 0, iv_frames = []\<rparr>"

definition i2c_emit :: "rat \<Rightarrow> rat \<Rightarrow> string \<Rightarrow> bool \<Rightarrow> i2c_run \<Rightarrow> i2c_run" where
  "i2c_emit s e label err r =
     r\<lparr>iv_frames := iv_frames r @ [\<lparr>df_start_us = s, df_end_us = e, df_kind = Pk_I2C, df_label = label,
                                    df_data = [], df_error = err\<rparr>]\<rparr>"

definition i2c_byte_label :: "i2c_state \<Rightarrow> byte \<Rightarrow> string" where
  "i2c_byte_label st b =
     (if st = I2_ADDR
      then ''ADDR 0x'' @ hex_fmt 2 (unat (drop_bit 1 b AND 0x7F)) @ '' '' @ (if b AND 1 \<noteq> 0 then ''R'' else ''W'')
      else ''DATA 0x'' @ hex_fmt 2 (unat b))"

text \<open>The \<open>switch\<close> on a rising clock.\<close>

definition i2c_clock :: "bool \<Rightarrow> rat \<Rightarrow> i2c_run \<Rightarrow> i2c_run" where
  "i2c_clock sda t r =
     (if iv_state r = I2_IDLE then r
      else if iv_state r = I2_ADDR \<or> iv_state r = I2_DATA then
        (let sh = push_bit 1 (iv_shift_reg r) OR (if sda then 1 else 0);
             n = iv_bit_count r + 1;
             r1 = r\<lparr>iv_shift_reg := sh, iv_bit_count := n\<rparr>
         in if n = 8
            then (i2c_emit (iv_event_start r) t (i2c_byte_label (iv_state r) sh) False r1)
                   \<lparr>iv_state := (if iv_state r = I2_ADDR then I2_ADDR_ACK else I2_DATA_ACK),
                    iv_bit_count := 0, iv_shift_reg := 0, iv_event_start := t\<rparr>
            else r1)
      else (i2c_emit (iv_event_start r) t (if sda then ''NAK'' else ''ACK'') sda r)
             \<lparr>iv_state := I2_DATA, iv_bit_count := 0, iv_shift_reg := 0, iv_event_start := t\<rparr>)"

definition i2c_edge :: "bool \<Rightarrow> bool \<Rightarrow> rat \<Rightarrow> i2c_run \<Rightarrow> i2c_run" where
  "i2c_edge scl sda t r =
     (let scl_rose = (\<not> iv_prev_scl r \<and> scl);
          changed_high = (iv_prev_scl r \<and> scl \<and> sda \<noteq> iv_prev_sda r)
      in if changed_high \<and> \<not> sda \<and> iv_prev_sda r
         then (i2c_emit t t ''START'' False r)
                \<lparr>iv_state := I2_ADDR, iv_bit_count := 0, iv_shift_reg := 0, iv_event_start := t,
                 iv_prev_scl := scl, iv_prev_sda := sda\<rparr>
         else if changed_high \<and> sda \<and> \<not> iv_prev_sda r
         then (i2c_emit t t ''STOP'' False r)\<lparr>iv_state := I2_IDLE, iv_prev_scl := scl, iv_prev_sda := sda\<rparr>
         else (if scl_rose then i2c_clock sda t r else r)\<lparr>iv_prev_scl := scl, iv_prev_sda := sda\<rparr>)"

definition i2c_step :: "i2c_config \<Rightarrow> sample_frame \<Rightarrow> sample_frame \<Rightarrow> i2c_run \<Rightarrow> i2c_run" where
  "i2c_step cfg t0 s r =
     i2c_edge (sample_pin_value s (ic_scl_pin cfg)) (sample_pin_value s (ic_sda_pin cfg)) (sample_time_us s t0) r"

definition decode_i2c :: "sample_frame list \<Rightarrow> i2c_config \<Rightarrow> decoded_frame list" where
  "decode_i2c samples cfg =
     (if samples = [] \<or> ic_scl_pin cfg = [] \<or> ic_sda_pin cfg = [] then []
      else iv_frames (fold (i2c_step cfg (hd samples)) (tl samples) i2c_init))"

section \<open>Times and repeated levels do not matter\<close>

text \<open>The run without its times.\<close>

definition i2c_view ::
  "i2c_run \<Rightarrow> i2c_state \<times> bool \<times> bool \<times> nat \<times> byte \<times> (string \<times> bool) list" where
  "i2c_view r = (iv_state r, iv_prev_scl r, iv_prev_sda r, iv_bit_count r, iv_shift_reg r,
                 map frame_says (iv_frames r))"

lemma i2c_edge_view:
  "i2c_view r = i2c_view r' \<Longrightarrow> i2c_view (i2c_edge scl sda t r) = i2c_view (i2c_edge scl sda t' r')"
  by (simp add: i2c_view_def i2c_edge_def i2c_clock_def i2c_emit_def Let_def frame_says_def)

type_synonym i2c_level = "bool \<times> bool"

definition i2c_levels :: "i2c_config \<Rightarrow> sample_frame \<Rightarrow> i2c_level" where
  "i2c_levels cfg s = (sample_pin_value s (ic_scl_pin cfg), sample_pin_value s (ic_sda_pin cfg))"

definition i2c_go :: "i2c_level \<Rightarrow> i2c_run \<Rightarrow> i2c_run" where
  "i2c_go l r = i2c_edge (fst l) (snd l) 0 r"

lemma i2c_steps_go:
  "i2c_view r = i2c_view r' \<Longrightarrow>
     i2c_view (fold (i2c_step cfg t0) ss r) = i2c_view (fold i2c_go (map (i2c_levels cfg) ss) r')"
proof (induction ss arbitrary: r r')
  case (Cons s ss)
  then show ?case
    using Cons.IH [OF i2c_edge_view [OF Cons.prems]] by (simp add: i2c_step_def i2c_go_def i2c_levels_def)
qed simp

lemma i2c_go_same: "i2c_go (iv_prev_scl r, iv_prev_sda r) r = r"
  by (simp add: i2c_go_def i2c_edge_def Let_def)

lemma i2c_go_prev: "iv_prev_scl (i2c_go l r) = fst l" "iv_prev_sda (i2c_go l r) = snd l"
  by (simp_all add: i2c_go_def i2c_edge_def i2c_clock_def i2c_emit_def Let_def)

lemma i2c_run_destutter:
  "fold i2c_go ls r = fold i2c_go (tl (remdups_adj ((iv_prev_scl r, iv_prev_sda r) # ls))) r"
proof (induction ls arbitrary: r)
  case (Cons l ls)
  show ?case
  proof (cases "l = (iv_prev_scl r, iv_prev_sda r)")
    case True
    then show ?thesis using Cons.IH [of r] by (simp add: i2c_go_same)
  next
    case False
    obtain rest where "remdups_adj (l # ls) = l # rest"
      by (metis list.exhaust_sel hd_remdups_adj list.sel(1) list.distinct(1) remdups_adj_Nil_iff)
    with False Cons.IH [of "i2c_go l r"] show ?thesis by (simp add: i2c_go_prev)
  qed
qed simp

section \<open>The waveform of a transfer\<close>

text \<open>A byte with the level of the acknowledge bit after it (\<open>True\<close> is NAK); a message is an address
  byte (7 address bits and the read bit) with its data bytes; a transfer is a message with further
  messages after repeated starts, and a STOP.\<close>

type_synonym i2c_byte = "byte \<times> bool"
type_synonym i2c_message = "i2c_byte \<times> i2c_byte list"
type_synonym i2c_transfer = "i2c_message \<times> i2c_message list"

definition bit_wave :: "bool \<Rightarrow> i2c_level list" where
  "bit_wave b = [(False, b), (True, b), (False, b)]"

definition byte_wave :: "i2c_byte \<Rightarrow> i2c_level list" where
  "byte_wave x = concat (map bit_wave (msb_bits (fst x) @ [snd x]))"

definition message_wave :: "i2c_message \<Rightarrow> i2c_level list" where
  "message_wave m = [(True, False), (False, False)] @ byte_wave (fst m) @ concat (map byte_wave (snd m))"

definition transfer_wave :: "i2c_transfer \<Rightarrow> i2c_level list" where
  "transfer_wave tr =
     message_wave (fst tr) @
     concat (map (\<lambda>m. [(False, True), (True, True)] @ message_wave m) (snd tr)) @
     [(False, False), (True, False), (True, True)]"

definition ack_says :: "bool \<Rightarrow> string \<times> bool" where
  "ack_says nak = (if nak then (''NAK'', True) else (''ACK'', False))"

definition byte_says :: "string \<Rightarrow> i2c_byte \<Rightarrow> (string \<times> bool) list" where
  "byte_says label x = [(label, False), ack_says (snd x)]"

definition addr_text :: "byte \<Rightarrow> string" where
  "addr_text b = ''ADDR 0x'' @ hex_fmt 2 (unat b div 2) @ (if odd (unat b) then '' R'' else '' W'')"

definition data_text :: "byte \<Rightarrow> string" where
  "data_text b = ''DATA 0x'' @ hex_fmt 2 (unat b)"

definition message_says :: "i2c_message \<Rightarrow> (string \<times> bool) list" where
  "message_says m =
     (''START'', False) # byte_says (addr_text (fst (fst m))) (fst m) @
     concat (map (\<lambda>x. byte_says (data_text (fst x)) x) (snd m))"

definition transfer_says :: "i2c_transfer \<Rightarrow> (string \<times> bool) list" where
  "transfer_says tr = message_says (fst tr) @ concat (map message_says (snd tr)) @ [(''STOP'', False)]"

section \<open>Decoding it\<close>

lemma addr_label: "i2c_byte_label I2_ADDR b = addr_text b"
proof -
  have m: "(0x7F :: byte) = mask 7" by code_simp
  have "unat (drop_bit 1 b AND 0x7F) = (unat b div 2) mod 128"
    unfolding m take_bit_eq_mask [symmetric] unsigned_take_bit_eq unat_drop_bit_eq
    by (simp add: take_bit_eq_mod drop_bit_eq_div)
  then have "unat (drop_bit 1 b AND 0x7F) = unat b div 2" using unsigned_less [where 'a = nat, of b] by simp
  moreover have "odd (unat b) \<longleftrightarrow> odd b"
    using bit_unsigned_iff [where 'a = nat, of b 0] by (simp add: bit_0)
  then have "b AND 1 \<noteq> 0 \<longleftrightarrow> odd (unat b)" by (simp add: and_one_eq mod_2_eq_odd)
  ultimately show ?thesis by (simp add: i2c_byte_label_def addr_text_def)
qed

lemma data_label: "i2c_byte_label I2_DATA b = data_text b"
  by (simp add: i2c_byte_label_def data_text_def)

lemma i2c_view_frames: "map frame_says (iv_frames r) = snd (snd (snd (snd (snd (i2c_view r)))))"
  by (simp add: i2c_view_def)

text \<open>Runs as a relation on views: from a view to the view after some levels.\<close>

definition i2c_leads ::
  "i2c_state \<times> bool \<times> bool \<times> nat \<times> byte \<times> (string \<times> bool) list \<Rightarrow> i2c_level list \<Rightarrow>
   i2c_state \<times> bool \<times> bool \<times> nat \<times> byte \<times> (string \<times> bool) list \<Rightarrow> bool" where
  "i2c_leads v ls v' \<longleftrightarrow> (\<forall>r. i2c_view r = v \<longrightarrow> i2c_view (fold i2c_go ls r) = v')"

lemma i2c_leads_append: "i2c_leads u as v \<Longrightarrow> i2c_leads v bs w \<Longrightarrow> i2c_leads u (as @ bs) w"
  by (simp add: i2c_leads_def)

lemmas i2c_eval = i2c_leads_def i2c_view_def i2c_go_def i2c_edge_def i2c_clock_def i2c_emit_def frame_says_def Let_def

lemma leads_bit:
  assumes "st = I2_ADDR \<or> st = I2_DATA" and "n < 7"
  shows "i2c_leads (st, False, x, n, sh, fs) (bit_wave b)
           (st, False, b, Suc n, push_bit 1 sh OR (if b then 1 else 0), fs)"
  using assms by (auto simp: i2c_eval bit_wave_def)

lemma leads_last_bit:
  assumes "st = I2_ADDR \<or> st = I2_DATA"
  shows "i2c_leads (st, False, x, 7, sh, fs) (bit_wave b)
           (if st = I2_ADDR then I2_ADDR_ACK else I2_DATA_ACK, False, b, 0, 0,
            fs @ [(i2c_byte_label st (push_bit 1 sh OR (if b then 1 else 0)), False)])"
  using assms by (auto simp: i2c_eval bit_wave_def)

lemma leads_ack:
  assumes "st = I2_ADDR_ACK \<or> st = I2_DATA_ACK"
  shows "i2c_leads (st, False, x, n, sh, fs) (bit_wave b) (I2_DATA, False, b, 0, 0, fs @ [ack_says b])"
  using assms by (auto simp: i2c_eval bit_wave_def ack_says_def)

definition shift_in_bit :: "bool \<Rightarrow> byte \<Rightarrow> byte" where
  "shift_in_bit b sh = push_bit 1 sh OR (if b then 1 else 0)"

lemma leads_bits:
  assumes "st = I2_ADDR \<or> st = I2_DATA" and "n + length bs \<le> 7"
  shows "\<exists>y. i2c_leads (st, False, x, n, sh, fs) (concat (map bit_wave bs))
             (st, False, y, n + length bs, fold shift_in_bit bs sh, fs)"
  using assms(2)
proof (induction bs arbitrary: x n sh)
  case Nil
  then show ?case by (auto simp: i2c_leads_def)
next
  case (Cons b bs)
  from Cons.IH [of "Suc n" b "shift_in_bit b sh"] Cons.prems
  obtain y where "i2c_leads (st, False, b, Suc n, shift_in_bit b sh, fs) (concat (map bit_wave bs))
      (st, False, y, Suc n + length bs, fold shift_in_bit bs (shift_in_bit b sh), fs)" by auto
  moreover have "i2c_leads (st, False, x, n, sh, fs) (bit_wave b) (st, False, b, Suc n, shift_in_bit b sh, fs)"
    using leads_bit [OF assms(1)] Cons.prems by (simp add: shift_in_bit_def)
  ultimately show ?case using i2c_leads_append by fastforce
qed

lemma bit_shift_in_bit: "bit (shift_in_bit b sh) i \<longleftrightarrow> i < 8 \<and> (if i = 0 then b else bit sh (i - 1))"
  unfolding shift_in_bit_def bit_or_iff bit_push_bit_iff
  by (cases "i = 0"; cases b) (auto simp: possible_bit_word bit_1_iff)

lemma shift_in_msb_bits: "fold shift_in_bit (msb_bits b) 0 = b"
proof (rule word_eq_bitsI)
  fix i assume "i < LENGTH(8)"
  then have "i \<in> {0, 1, 2, 3, 4, 5, 6, 7}" by auto
  then show "bit (fold shift_in_bit (msb_bits b) 0) i = bit b i"
    by (auto simp: msb_bits_def bit_shift_in_bit)
qed

lemma leads_byte:
  assumes "st = I2_ADDR \<or> st = I2_DATA"
  shows "i2c_leads (st, False, x, 0, 0, fs) (byte_wave w)
           (I2_DATA, False, snd w, 0, 0, fs @ byte_says (i2c_byte_label st (fst w)) w)"
proof -
  define bs where "bs = butlast (msb_bits (fst w))"
  have msb: "msb_bits (fst w) = bs @ [bit (fst w) 0]" "length bs = 7" by (simp_all add: msb_bits_def bs_def)
  obtain y where 1: "i2c_leads (st, False, x, 0, 0, fs) (concat (map bit_wave bs))
      (st, False, y, 7, fold shift_in_bit bs 0, fs)"
    using leads_bits [OF assms, of 0 bs x 0 fs] msb(2) by auto
  have "fold shift_in_bit (bs @ [bit (fst w) 0]) 0 = fst w" using shift_in_msb_bits [of "fst w"] msb(1) by simp
  then have "push_bit 1 (fold shift_in_bit bs 0) OR (if bit (fst w) 0 then 1 else 0) = fst w"
    by (simp add: shift_in_bit_def)
  then have 2: "i2c_leads (st, False, y, 7, fold shift_in_bit bs 0, fs) (bit_wave (bit (fst w) 0))
      (if st = I2_ADDR then I2_ADDR_ACK else I2_DATA_ACK, False, bit (fst w) 0, 0, 0,
       fs @ [(i2c_byte_label st (fst w), False)])"
    using leads_last_bit [OF assms, of y "fold shift_in_bit bs 0" fs "bit (fst w) 0"] by simp
  have 3: "i2c_leads (if st = I2_ADDR then I2_ADDR_ACK else I2_DATA_ACK, False, bit (fst w) 0, 0, 0,
       fs @ [(i2c_byte_label st (fst w), False)]) (bit_wave (snd w))
      (I2_DATA, False, snd w, 0, 0, (fs @ [(i2c_byte_label st (fst w), False)]) @ [ack_says (snd w)])"
    by (rule leads_ack) auto
  from i2c_leads_append [OF 1 i2c_leads_append [OF 2 3]] show ?thesis
    by (simp add: byte_wave_def msb byte_says_def)
qed

lemma leads_data:
  "\<exists>y. i2c_leads (I2_DATA, False, x, 0, 0, fs) (concat (map byte_wave ws))
         (I2_DATA, False, y, 0, 0, fs @ concat (map (\<lambda>w. byte_says (data_text (fst w)) w) ws))"
proof (induction ws arbitrary: x fs)
  case Nil
  then show ?case by (auto simp: i2c_leads_def)
next
  case (Cons w ws)
  from leads_byte [of I2_DATA x fs w] Cons.IH [of "snd w" "fs @ byte_says (data_text (fst w)) w"] show ?case
    by (fastforce simp: data_label intro: i2c_leads_append)
qed

text \<open>A START on an idle bus, or after a byte with the data line released.\<close>

lemma leads_start:
  "i2c_leads (st, True, True, n, sh, fs) [(True, False), (False, False)] (I2_ADDR, False, False, 0, 0, fs @ [(''START'', False)])"
  by (auto simp: i2c_eval)

lemma leads_release:
  "\<exists>n sh. i2c_leads (I2_DATA, False, x, 0, 0, fs) [(False, True), (True, True)] (I2_DATA, True, True, n, sh, fs)"
  by (auto simp: i2c_eval)

lemma leads_stop:
  "\<exists>n sh. i2c_leads (I2_DATA, False, x, 0, 0, fs) [(False, False), (True, False), (True, True)]
            (I2_IDLE, True, True, n, sh, fs @ [(''STOP'', False)])"
  by (auto simp: i2c_eval)

lemma leads_message:
  "\<exists>y. i2c_leads (st, True, True, n, sh, fs) (message_wave m) (I2_DATA, False, y, 0, 0, fs @ message_says m)"
proof -
  have 1: "i2c_leads (st, True, True, n, sh, fs) [(True, False), (False, False)]
      (I2_ADDR, False, False, 0, 0, fs @ [(''START'', False)])" by (rule leads_start)
  have 2: "i2c_leads (I2_ADDR, False, False, 0, 0, fs @ [(''START'', False)]) (byte_wave (fst m))
      (I2_DATA, False, snd (fst m), 0, 0, (fs @ [(''START'', False)]) @ byte_says (addr_text (fst (fst m))) (fst m))"
    using leads_byte [of I2_ADDR False "fs @ [(''START'', False)]" "fst m"] by (simp add: addr_label)
  obtain y where 3: "i2c_leads (I2_DATA, False, snd (fst m), 0, 0,
      (fs @ [(''START'', False)]) @ byte_says (addr_text (fst (fst m))) (fst m)) (concat (map byte_wave (snd m)))
      (I2_DATA, False, y, 0, 0, ((fs @ [(''START'', False)]) @ byte_says (addr_text (fst (fst m))) (fst m)) @
         concat (map (\<lambda>w. byte_says (data_text (fst w)) w) (snd m)))"
    using leads_data by blast
  from i2c_leads_append [OF 1 i2c_leads_append [OF 2 3]] show ?thesis
    by (auto simp: message_wave_def message_says_def)
qed

lemma leads_messages:
  "\<exists>y. i2c_leads (I2_DATA, False, x, 0, 0, fs) (concat (map (\<lambda>m. [(False, True), (True, True)] @ message_wave m) ms))
         (I2_DATA, False, y, 0, 0, fs @ concat (map message_says ms))"
proof (induction ms arbitrary: x fs)
  case Nil
  then show ?case by (auto simp: i2c_leads_def)
next
  case (Cons m ms)
  obtain n sh where 1: "i2c_leads (I2_DATA, False, x, 0, 0, fs) [(False, True), (True, True)] (I2_DATA, True, True, n, sh, fs)"
    using leads_release by blast
  obtain y where 2: "i2c_leads (I2_DATA, True, True, n, sh, fs) (message_wave m) (I2_DATA, False, y, 0, 0, fs @ message_says m)"
    using leads_message by blast
  obtain z where 3: "i2c_leads (I2_DATA, False, y, 0, 0, fs @ message_says m)
      (concat (map (\<lambda>m. [(False, True), (True, True)] @ message_wave m) ms))
      (I2_DATA, False, z, 0, 0, (fs @ message_says m) @ concat (map message_says ms))"
    using Cons.IH by blast
  from i2c_leads_append [OF 1 i2c_leads_append [OF 2 3]] show ?case by auto
qed

lemma leads_transfer:
  "\<exists>n' sh'. i2c_leads (st, True, True, n, sh, fs) (transfer_wave tr) (I2_IDLE, True, True, n', sh', fs @ transfer_says tr)"
proof -
  obtain y where 1: "i2c_leads (st, True, True, n, sh, fs) (message_wave (fst tr)) (I2_DATA, False, y, 0, 0, fs @ message_says (fst tr))"
    using leads_message by blast
  obtain z where 2: "i2c_leads (I2_DATA, False, y, 0, 0, fs @ message_says (fst tr))
      (concat (map (\<lambda>m. [(False, True), (True, True)] @ message_wave m) (snd tr)))
      (I2_DATA, False, z, 0, 0, (fs @ message_says (fst tr)) @ concat (map message_says (snd tr)))"
    using leads_messages by blast
  obtain n' sh' where 3: "i2c_leads (I2_DATA, False, z, 0, 0, (fs @ message_says (fst tr)) @ concat (map message_says (snd tr)))
      [(False, False), (True, False), (True, True)]
      (I2_IDLE, True, True, n', sh', ((fs @ message_says (fst tr)) @ concat (map message_says (snd tr))) @ [(''STOP'', False)])"
    using leads_stop by blast
  from i2c_leads_append [OF 1 i2c_leads_append [OF 2 3]] show ?thesis
    by (auto simp: transfer_wave_def transfer_says_def)
qed

lemma leads_transfers:
  "\<exists>st' n' sh'. i2c_leads (st, True, True, n, sh, fs) (concat (map transfer_wave trs))
     (st', True, True, n', sh', fs @ concat (map transfer_says trs))"
proof (induction trs arbitrary: st n sh fs)
  case Nil
  then show ?case by (auto simp: i2c_leads_def)
next
  case (Cons tr trs)
  obtain n' sh' where 1: "i2c_leads (st, True, True, n, sh, fs) (transfer_wave tr) (I2_IDLE, True, True, n', sh', fs @ transfer_says tr)"
    using leads_transfer by blast
  obtain st2 n2 sh2 where 2: "i2c_leads (I2_IDLE, True, True, n', sh', fs @ transfer_says tr) (concat (map transfer_wave trs))
      (st2, True, True, n2, sh2, (fs @ transfer_says tr) @ concat (map transfer_says trs))"
    using Cons.IH by blast
  from i2c_leads_append [OF 1 2] show ?case by auto
qed

section \<open>Properties\<close>

text \<open>C30: whatever the sampling times and however many samples each level lasts, a capture that starts on
  an idle bus and shows any sequence of I2C transfers (address and data bytes with ACK or NAK,
  repeated starts) is decoded to exactly the events of these transfers, in order, a NAK flagged as an
  error.\<close>

theorem i2c_decodes_transfers:
  assumes "ic_scl_pin cfg \<noteq> []" and "ic_sda_pin cfg \<noteq> []" and "samples \<noteq> []"
    and "remdups_adj (map (i2c_levels cfg) samples) = remdups_adj ((True, True) # concat (map transfer_wave trs))"
  shows "map frame_says (decode_i2c samples cfg) = concat (map transfer_says trs)"
proof -
  let ?wave = "concat (map transfer_wave trs)"
  obtain s ss where samples: "samples = s # ss" using assms(3) by (cases samples) auto
  have first: "i2c_levels cfg s = (True, True)"
    using arg_cong [OF assms(4), of hd] by (simp add: samples)
  have prev: "(iv_prev_scl i2c_init, iv_prev_sda i2c_init) = (True, True)" by (simp add: i2c_init_def)
  have "remdups_adj ((True, True) # map (i2c_levels cfg) ss) = remdups_adj ((True, True) # ?wave)"
    using assms(4) by (simp add: samples first)
  then have run: "fold i2c_go (map (i2c_levels cfg) ss) i2c_init = fold i2c_go ?wave i2c_init"
    using i2c_run_destutter [of "map (i2c_levels cfg) ss" i2c_init] i2c_run_destutter [of ?wave i2c_init]
    by (simp only: prev)
  have "i2c_view i2c_init = (I2_IDLE, True, True, 0, 0, [])" by (simp add: i2c_view_def i2c_init_def)
  with leads_transfers [of I2_IDLE 0 0 "[]" trs]
  have "map frame_says (iv_frames (fold i2c_go ?wave i2c_init)) = concat (map transfer_says trs)"
    unfolding i2c_leads_def by (auto simp: i2c_view_frames)
  with run assms(1,2) i2c_steps_go [of i2c_init i2c_init cfg s ss] show ?thesis
    by (simp add: decode_i2c_def samples i2c_view_frames)
qed

definition i2c_sample :: "int \<Rightarrow> i2c_level \<Rightarrow> sample_frame" where
  "i2c_sample t l = sample_of t [(''SCL'', fst l), (''SDA'', snd l)]"

definition demo_transfer :: i2c_transfer where
  "demo_transfer = (((0xA0, False), [(0x12, False)]), [((0xA1, False), [(0x3C, True)])])"

lemma i2c_sample_levels [simp]:
  "i2c_levels \<lparr>ic_scl_pin = ''SCL'', ic_sda_pin = ''SDA''\<rparr> (i2c_sample t l) = l"
  by (cases l) (simp add: i2c_levels_def i2c_sample_def sample_of_def sample_pin_value_def sr_get_pin_def pin_state_of_def)

lemma i2c_decodes_transfers_witness:
  "map frame_says (decode_i2c (map (i2c_sample 0) ((True, True) # transfer_wave demo_transfer))
     \<lparr>ic_scl_pin = ''SCL'', ic_sda_pin = ''SDA''\<rparr>) =
   [(''START'', False), (''ADDR 0x50 W'', False), (''ACK'', False), (''DATA 0x12'', False), (''ACK'', False),
    (''START'', False), (''ADDR 0x50 R'', False), (''ACK'', False), (''DATA 0x3C'', False), (''NAK'', True),
    (''STOP'', False)]"
proof -
  have "transfer_says demo_transfer =
     [(''START'', False), (''ADDR 0x50 W'', False), (''ACK'', False), (''DATA 0x12'', False), (''ACK'', False),
      (''START'', False), (''ADDR 0x50 R'', False), (''ACK'', False), (''DATA 0x3C'', False), (''NAK'', True),
      (''STOP'', False)]" by code_simp
  then show ?thesis
    using i2c_decodes_transfers [of "\<lparr>ic_scl_pin = ''SCL'', ic_sda_pin = ''SDA''\<rparr>"
        "map (i2c_sample 0) ((True, True) # transfer_wave demo_transfer)" "[demo_transfer]"]
    by (simp add: comp_def)
qed

text \<open>A capture that starts while the data line is low and the clock high gives a START event, although
  nothing changed: the decoder takes the lines to have been high before.\<close>

lemma i2c_false_start:
  "map frame_says (decode_i2c [i2c_sample 0 (True, False), i2c_sample 1 (True, False)]
     \<lparr>ic_scl_pin = ''SCL'', ic_sda_pin = ''SDA''\<rparr>) = [(''START'', False)]"
  by (simp add: decode_i2c_def i2c_step_def i2c_edge_def i2c_init_def i2c_emit_def frame_says_def i2c_sample_def
      sample_of_def sample_pin_value_def sr_get_pin_def pin_state_of_def Let_def)

end
