(* ===== verification/Spi.thy ===== *)
theory Spi
  imports Protocol
begin

text \<open>
  src/src/protocol/spi_decoder.{h,cpp}: \<open>decodeSpi\<close>.  The local variables of the function are the record
  \<open>spi_run\<close> and the body of its loop is \<open>spi_step\<close>, which reads the lines into \<open>spi_edge\<close>.

  \<open>1ULL << bit_count\<close> is defined in C++ only below 64; \<open>spi_bit_count_bound\<close> shows that the count stays
  below \<open>bits_per_word\<close>, so a configuration in the documented range 1..64 never leaves it.
\<close>

unbundle bit_operations_syntax

section \<open>The decoder\<close>

record spi_config =
  pc_clk_pin :: string
  pc_mosi_pin :: string
  pc_miso_pin :: string
  pc_cs_pin :: string
  pc_cpol :: bool
  pc_cpha :: bool
  pc_lsb_first :: bool
  pc_bits_per_word :: int

record spi_run =
  sv_in_transfer :: bool
  sv_mosi :: u64
  sv_miso :: u64
  sv_bit_count :: nat
  sv_frame_start :: rat
  sv_prev_clk :: bool
  sv_frames :: "decoded_frame list"

definition spi_init :: "spi_config \<Rightarrow> spi_run" where
  "spi_init cfg = \<lparr>sv_in_transfer = False, sv_mosi = 0, sv_miso = 0, sv_bit_count = 0, sv_frame_start = 0,
                    sv_prev_clk = pc_cpol cfg, sv_frames = []\<rparr>"

text \<open>\<open>(bits_per_word + 3) / 4\<close>, rounding towards 0, and \<open>%0*llX\<close> with that width (a negative width
  left-justifies).\<close>

definition hex_width :: "int \<Rightarrow> int" where
  "hex_width bits = (if 0 \<le> bits + 3 then (bits + 3) div 4 else - ((- (bits + 3)) div 4))"

definition hex_star :: "int \<Rightarrow> nat \<Rightarrow> string" where
  "hex_star w n =
     (if 0 \<le> w then hex_fmt (nat w) n
      else hex_fmt 1 n @ replicate (nat (- w) - length (hex_fmt 1 n)) CHR '' '')"

definition spi_label :: "spi_config \<Rightarrow> u64 \<Rightarrow> u64 \<Rightarrow> string" where
  "spi_label cfg mosi miso =
     take 63
       (let w = hex_width (pc_bits_per_word cfg)
        in if pc_mosi_pin cfg \<noteq> [] \<and> pc_miso_pin cfg \<noteq> []
           then ''MOSI:'' @ hex_star w (unat mosi) @ '' MISO:'' @ hex_star w (unat miso)
           else if pc_mosi_pin cfg \<noteq> [] then ''0x'' @ hex_star w (unat mosi)
           else ''0x'' @ hex_star w (unat miso))"

definition spi_frame :: "spi_config \<Rightarrow> rat \<Rightarrow> bool \<Rightarrow> spi_run \<Rightarrow> decoded_frame" where
  "spi_frame cfg e err r =
     \<lparr>df_start_us = sv_frame_start r, df_end_us = e, df_kind = Pk_SPI,
      df_label = spi_label cfg (sv_mosi r) (sv_miso r), df_data = [], df_error = err\<rparr>"

text \<open>Chip select not active: flush a partial word and reset.\<close>

definition spi_deselect :: "spi_config \<Rightarrow> rat \<Rightarrow> spi_run \<Rightarrow> spi_run" where
  "spi_deselect cfg t r =
     (let fs = (if sv_in_transfer r \<and> 0 < sv_bit_count r
                then sv_frames r @ [spi_frame cfg t (int (sv_bit_count r) \<noteq> pc_bits_per_word cfg) r]
                else sv_frames r)
      in r\<lparr>sv_frames := fs, sv_in_transfer := False, sv_bit_count := 0, sv_mosi := 0, sv_miso := 0,
           sv_prev_clk := pc_cpol cfg\<rparr>)"

definition spi_bit :: "bool \<Rightarrow> nat \<Rightarrow> bool \<Rightarrow> u64 \<Rightarrow> u64" where
  "spi_bit lsb_first count b w =
     (if lsb_first then (if b then w OR push_bit count 1 else w)
      else push_bit 1 w OR (if b then 1 else 0))"

text \<open>A sampling edge.\<close>

definition spi_shift :: "spi_config \<Rightarrow> bool \<Rightarrow> bool \<Rightarrow> rat \<Rightarrow> spi_run \<Rightarrow> spi_run" where
  "spi_shift cfg mosi miso t r =
     (let r1 = (if \<not> sv_in_transfer r
                then r\<lparr>sv_in_transfer := True, sv_frame_start := t, sv_mosi := 0, sv_miso := 0, sv_bit_count := 0\<rparr>
                else r);
          r2 = r1\<lparr>sv_mosi := spi_bit (pc_lsb_first cfg) (sv_bit_count r1) mosi (sv_mosi r1),
                  sv_miso := spi_bit (pc_lsb_first cfg) (sv_bit_count r1) miso (sv_miso r1),
                  sv_bit_count := sv_bit_count r1 + 1\<rparr>
      in if int (sv_bit_count r2) = pc_bits_per_word cfg
         then r2\<lparr>sv_frames := sv_frames r2 @ [spi_frame cfg t False r2],
                 sv_mosi := 0, sv_miso := 0, sv_bit_count := 0, sv_frame_start := t\<rparr>
         else r2)"

definition spi_edge :: "spi_config \<Rightarrow> bool \<Rightarrow> bool \<Rightarrow> bool \<Rightarrow> bool \<Rightarrow> rat \<Rightarrow> spi_run \<Rightarrow> spi_run" where
  "spi_edge cfg cs clk mosi miso t r =
     (if pc_cs_pin cfg \<noteq> [] \<and> cs then spi_deselect cfg t r
      else
        let idle = pc_cpol cfg;
            rose = (\<not> sv_prev_clk r \<and> clk);
            fell = (sv_prev_clk r \<and> \<not> clk);
            leading = (\<not> idle \<and> rose \<or> idle \<and> fell);
            trailing = (\<not> idle \<and> fell \<or> idle \<and> rose);
            r1 = r\<lparr>sv_prev_clk := clk\<rparr>
        in if \<not> (if \<not> pc_cpha cfg then leading else trailing) then r1
           else spi_shift cfg mosi miso t r1)"

definition line_level :: "string \<Rightarrow> sample_frame \<Rightarrow> bool" where
  "line_level pin s = (if pin = [] then False else sample_pin_value s pin)"

definition spi_step :: "spi_config \<Rightarrow> sample_frame \<Rightarrow> sample_frame \<Rightarrow> spi_run \<Rightarrow> spi_run" where
  "spi_step cfg t0 s r =
     spi_edge cfg (sample_pin_value s (pc_cs_pin cfg)) (sample_pin_value s (pc_clk_pin cfg))
       (line_level (pc_mosi_pin cfg) s) (line_level (pc_miso_pin cfg) s) (sample_time_us s t0) r"

definition decode_spi :: "sample_frame list \<Rightarrow> spi_config \<Rightarrow> decoded_frame list" where
  "decode_spi samples cfg =
     (if samples = [] \<or> pc_clk_pin cfg = [] then []
      else sv_frames (fold (spi_step cfg (hd samples)) (tl samples) (spi_init cfg)))"

lemma spi_bit_count_bound:
  assumes "0 < pc_bits_per_word cfg" and "int (sv_bit_count r) < pc_bits_per_word cfg"
  shows "int (sv_bit_count (fold (spi_step cfg t0) ss r)) < pc_bits_per_word cfg"
  using assms(2)
proof (induction ss arbitrary: r)
  case (Cons s ss)
  have "int (sv_bit_count (spi_step cfg t0 s r)) < pc_bits_per_word cfg"
    using assms(1) Cons.prems by (auto simp: spi_step_def spi_edge_def spi_deselect_def spi_shift_def Let_def)
  then show ?case using Cons.IH by simp
qed simp

section \<open>Times and repeated levels\<close>

text \<open>The levels of chip select, clock and the two data lines; the run without its times.\<close>

type_synonym spi_level = "bool \<times> bool \<times> bool \<times> bool"

definition spi_levels :: "spi_config \<Rightarrow> sample_frame \<Rightarrow> spi_level" where
  "spi_levels cfg s = (sample_pin_value s (pc_cs_pin cfg), sample_pin_value s (pc_clk_pin cfg),
                       line_level (pc_mosi_pin cfg) s, line_level (pc_miso_pin cfg) s)"

definition spi_go :: "spi_config \<Rightarrow> spi_level \<Rightarrow> spi_run \<Rightarrow> spi_run" where
  "spi_go cfg l r = (case l of (cs, clk, mosi, miso) \<Rightarrow> spi_edge cfg cs clk mosi miso 0 r)"

definition spi_view :: "spi_run \<Rightarrow> bool \<times> u64 \<times> u64 \<times> nat \<times> bool \<times> (string \<times> bool) list" where
  "spi_view r = (sv_in_transfer r, sv_mosi r, sv_miso r, sv_bit_count r, sv_prev_clk r, map frame_says (sv_frames r))"

lemma spi_prev_view: "spi_view r = spi_view r' \<Longrightarrow> spi_view (r\<lparr>sv_prev_clk := c\<rparr>) = spi_view (r'\<lparr>sv_prev_clk := c\<rparr>)"
  by (simp add: spi_view_def)

lemma spi_prev_clk_view: "spi_view r = spi_view r' \<Longrightarrow> sv_prev_clk r = sv_prev_clk r'"
  by (simp add: spi_view_def)

lemma spi_deselect_view: "spi_view r = spi_view r' \<Longrightarrow> spi_view (spi_deselect cfg t r) = spi_view (spi_deselect cfg t' r')"
  by (simp add: spi_view_def spi_deselect_def Let_def spi_frame_def frame_says_def)

lemma spi_shift_view:
  assumes "spi_view r = spi_view r'"
  shows "spi_view (spi_shift cfg mosi miso t r) = spi_view (spi_shift cfg mosi miso t' r')"
proof (cases "sv_in_transfer r")
  case True
  with assms show ?thesis by (simp add: spi_view_def spi_shift_def Let_def spi_frame_def frame_says_def)
next
  case False
  with assms show ?thesis by (simp add: spi_view_def spi_shift_def Let_def spi_frame_def frame_says_def)
qed

lemma spi_edge_view:
  "spi_view r = spi_view r' \<Longrightarrow>
     spi_view (spi_edge cfg cs clk mosi miso t r) = spi_view (spi_edge cfg cs clk mosi miso t' r')"
  unfolding spi_edge_def Let_def
  by (simp only: spi_deselect_view [of r r'] spi_shift_view [OF spi_prev_view, of r r'] spi_prev_view [of r r']
      spi_prev_clk_view [of r r'] split: if_split) simp

lemma spi_steps_go:
  "spi_view r = spi_view r' \<Longrightarrow>
     spi_view (fold (spi_step cfg t0) ss r) = spi_view (fold (spi_go cfg) (map (spi_levels cfg) ss) r')"
proof (induction ss arbitrary: r r')
  case (Cons s ss)
  then show ?case
    using Cons.IH [OF spi_edge_view [OF Cons.prems]] by (simp add: spi_step_def spi_go_def spi_levels_def)
qed simp

lemma spi_go_idem: "spi_go cfg l (spi_go cfg l r) = spi_go cfg l r"
proof -
  obtain cs clk mosi miso where l: "l = (cs, clk, mosi, miso)" by (cases l)
  show ?thesis
  proof (cases "pc_cs_pin cfg \<noteq> [] \<and> cs")
    case True
    then show ?thesis by (simp add: l spi_go_def spi_edge_def spi_deselect_def Let_def)
  next
    case False
    have "sv_prev_clk (spi_edge cfg cs clk mosi miso 0 r) = clk"
      unfolding spi_edge_def if_not_P [OF False] by (simp add: spi_shift_def Let_def)
    then have "spi_edge cfg cs clk mosi miso 0 (spi_edge cfg cs clk mosi miso 0 r)
        = (spi_edge cfg cs clk mosi miso 0 r)\<lparr>sv_prev_clk := sv_prev_clk (spi_edge cfg cs clk mosi miso 0 r)\<rparr>"
      unfolding spi_edge_def [of _ _ _ _ _ _ "spi_edge cfg cs clk mosi miso 0 r"] if_not_P [OF False]
      by (simp add: Let_def)
    then show ?thesis by (simp add: l spi_go_def)
  qed
qed

section \<open>Bursts\<close>

text \<open>The value of up to 64 bits in the order they were sent.\<close>

definition spi_value :: "bool \<Rightarrow> bool list \<Rightarrow> u64" where
  "spi_value lsb_first bs =
     word_of_bits (\<lambda>i. if lsb_first then bs ! i else bs ! (length bs - 1 - i)) (length bs)"

text \<open>What a burst of bits (each with its level on MOSI and MISO) is decoded to: full words, then a
  partial word flagged as an error.\<close>

definition word_says :: "spi_config \<Rightarrow> (bool \<times> bool) list \<Rightarrow> string" where
  "word_says cfg bs =
     spi_label cfg (spi_value (pc_lsb_first cfg) (map fst bs)) (spi_value (pc_lsb_first cfg) (map snd bs))"

function burst_says :: "spi_config \<Rightarrow> (bool \<times> bool) list \<Rightarrow> (string \<times> bool) list" where
  "burst_says cfg bs =
     (let n = nat (pc_bits_per_word cfg)
      in if bs = [] \<or> n = 0 then []
         else if length bs < n then [(word_says cfg bs, True)]
         else (word_says cfg (take n bs), False) # burst_says cfg (drop n bs))"
  by pat_completeness auto
termination by (relation "measure (length \<circ> snd)") auto

declare burst_says.simps [simp del]

text \<open>The levels of a burst in each clock mode; \<open>True\<close> is an inactive chip select.\<close>

definition cell_wave :: "spi_config \<Rightarrow> bool \<times> bool \<Rightarrow> spi_level list" where
  "cell_wave cfg b =
     (if pc_cpha cfg then [(False, \<not> pc_cpol cfg, fst b, snd b), (False, pc_cpol cfg, fst b, snd b)]
      else [(False, pc_cpol cfg, fst b, snd b), (False, \<not> pc_cpol cfg, fst b, snd b)])"

definition burst_wave :: "spi_config \<Rightarrow> (bool \<times> bool) list \<Rightarrow> spi_level list" where
  "burst_wave cfg bs =
     concat (map (cell_wave cfg) bs) @ [(False, pc_cpol cfg, False, False), (True, pc_cpol cfg, False, False)]"

lemma spi_value_snoc:
  assumes "length bs < 64"
  shows "spi_bit lsb (length bs) b (spi_value lsb bs) = spi_value lsb (bs @ [b])"
proof (rule word_eq_bitsI)
  fix i assume "i < LENGTH(64)"
  then have i: "i < 64" by simp
  show "bit (spi_bit lsb (length bs) b (spi_value lsb bs)) i = bit (spi_value lsb (bs @ [b])) i"
  proof (cases lsb)
    case True
    with i show ?thesis
      by (cases "i = length bs")
         (auto simp: spi_bit_def spi_value_def bit_or_iff bit_word_of_bits nth_append)
  next
    case False
    have "bit (push_bit 1 (spi_value False bs)) i = (0 < i \<and> bit (spi_value False bs) (i - 1))"
      using i by (auto simp only: bit_push_bit_iff possible_bit_word) auto
    then have "bit (push_bit 1 (spi_value False bs) OR (if b then 1 else 0)) i =
        (if i = 0 then b else bit (spi_value False bs) (i - 1))"
      unfolding bit_or_iff by (cases b) (auto simp: bit_1_iff)
    with False i show ?thesis
      by (cases i) (auto simp: spi_bit_def spi_value_def bit_word_of_bits nth_append)
  qed
qed

text \<open>The run in the middle of a burst: the bits of the current word so far.\<close>

definition spi_at :: "spi_config \<Rightarrow> bool \<Rightarrow> (bool \<times> bool) list \<Rightarrow> (string \<times> bool) list \<Rightarrow> spi_run \<Rightarrow> bool" where
  "spi_at cfg clk pre says r \<longleftrightarrow>
     sv_bit_count r = length pre \<and> sv_mosi r = spi_value (pc_lsb_first cfg) (map fst pre) \<and>
     sv_miso r = spi_value (pc_lsb_first cfg) (map snd pre) \<and> (pre \<noteq> [] \<longrightarrow> sv_in_transfer r) \<and>
     sv_prev_clk r = clk \<and> map frame_says (sv_frames r) = says"

lemma spi_value_Nil [simp]: "spi_value lsb [] = 0"
  by (simp add: spi_value_def word_of_bits_def)

lemma spi_at_prev: "spi_at cfg clk pre says r \<Longrightarrow> spi_at cfg clk' pre says (r\<lparr>sv_prev_clk := clk'\<rparr>)"
  by (simp add: spi_at_def)

lemma spi_shift_at:
  assumes r: "spi_at cfg clk pre says r" and len: "length pre < 64" and bpw: "int (length pre) < pc_bits_per_word cfg"
  shows "if int (length pre) + 1 = pc_bits_per_word cfg
         then spi_at cfg clk [] (says @ [(word_says cfg (pre @ [b]), False)]) (spi_shift cfg (fst b) (snd b) t r)
         else spi_at cfg clk (pre @ [b]) says (spi_shift cfg (fst b) (snd b) t r)"
proof -
  let ?r = "spi_shift cfg (fst b) (snd b) t r"
  have vm: "spi_bit (pc_lsb_first cfg) (length pre) (fst b) (spi_value (pc_lsb_first cfg) (map fst pre))
      = spi_value (pc_lsb_first cfg) (map fst (pre @ [b]))"
    using spi_value_snoc [of "map fst pre"] len by simp
  have vs: "spi_bit (pc_lsb_first cfg) (length pre) (snd b) (spi_value (pc_lsb_first cfg) (map snd pre))
      = spi_value (pc_lsb_first cfg) (map snd (pre @ [b]))"
    using spi_value_snoc [of "map snd pre"] len by simp
  have pre: "pre = []" if "\<not> sv_in_transfer r" using r that by (auto simp: spi_at_def)
  have r1: "sv_bit_count r = length pre" "sv_mosi r = spi_value (pc_lsb_first cfg) (map fst pre)"
    "sv_miso r = spi_value (pc_lsb_first cfg) (map snd pre)" "sv_prev_clk r = clk" "map frame_says (sv_frames r) = says"
    using r by (simp_all add: spi_at_def)
  have z: "spi_bit (pc_lsb_first cfg) 0 c 0 = spi_value (pc_lsb_first cfg) [c]" for c
    using spi_value_snoc [of "[]" "pc_lsb_first cfg" c] by simp
  show ?thesis
  proof (cases "int (length pre) + 1 = pc_bits_per_word cfg")
    case True
    then show ?thesis
      using r1 vm vs pre z
      by (cases "sv_in_transfer r")
         (simp_all add: spi_at_def spi_shift_def Let_def spi_frame_def frame_says_def word_says_def)
  next
    case False
    then show ?thesis
      using r1 vm vs pre z
      by (cases "sv_in_transfer r") (simp_all add: spi_at_def spi_shift_def Let_def)
  qed
qed

lemma spi_go_active:
  "spi_go cfg (False, clk, mosi, miso) r =
     (if clk \<noteq> sv_prev_clk r \<and> (clk \<noteq> pc_cpol cfg) = (\<not> pc_cpha cfg)
      then spi_shift cfg mosi miso 0 (r\<lparr>sv_prev_clk := clk\<rparr>) else r\<lparr>sv_prev_clk := clk\<rparr>)"
  by (auto simp: spi_go_def spi_edge_def Let_def)

lemma cell_at:
  assumes r: "spi_at cfg clk pre says r" and len: "length pre < 64" and bpw: "int (length pre) < pc_bits_per_word cfg"
    and clk: "pc_cpha cfg \<longrightarrow> clk = pc_cpol cfg"
  shows "if int (length pre) + 1 = pc_bits_per_word cfg
         then spi_at cfg (pc_cpol cfg = pc_cpha cfg) [] (says @ [(word_says cfg (pre @ [b]), False)])
                (fold (spi_go cfg) (cell_wave cfg b) r)
         else spi_at cfg (pc_cpol cfg = pc_cpha cfg) (pre @ [b]) says (fold (spi_go cfg) (cell_wave cfg b) r)"
proof -
  have prev: "sv_prev_clk r = clk" using r by (simp add: spi_at_def)
  obtain m s where b: "b = (m, s)" by (cases b)
  have "fold (spi_go cfg) (cell_wave cfg b) r =
      spi_shift cfg (fst b) (snd b) 0 (r\<lparr>sv_prev_clk := (pc_cpol cfg = pc_cpha cfg)\<rparr>)"
    using clk prev by (cases "pc_cpha cfg") (simp_all add: cell_wave_def spi_go_active b)
  with spi_shift_at [OF spi_at_prev [OF r] len bpw] show ?thesis by metis
qed

lemma burst_says_Nil: "burst_says cfg [] = []"
  by (subst burst_says.simps) (simp add: Let_def)

lemma deselect_at:
  assumes "spi_at cfg clk pre says r" and "int (length pre) < pc_bits_per_word cfg" and "pc_cs_pin cfg \<noteq> []"
  shows "spi_at cfg (pc_cpol cfg) [] (says @ burst_says cfg pre) (spi_go cfg (True, c, m, s) r)"
proof -
  have go: "spi_go cfg (True, c, m, s) r = spi_deselect cfg 0 r" using assms(3) by (simp add: spi_go_def spi_edge_def)
  have frames: "map frame_says (sv_frames (spi_deselect cfg 0 r)) = says @ burst_says cfg pre"
  proof (cases "pre = []")
    case True
    with assms(1) show ?thesis by (simp add: spi_at_def spi_deselect_def Let_def burst_says_Nil)
  next
    case False
    moreover have "length pre < nat (pc_bits_per_word cfg)" using assms(2) by linarith
    ultimately have "burst_says cfg pre = [(word_says cfg pre, True)]" by (subst burst_says.simps) (simp add: Let_def)
    with assms(1,2) False show ?thesis
      by (simp add: spi_at_def spi_deselect_def Let_def spi_frame_def frame_says_def word_says_def)
  qed
  show ?thesis unfolding go spi_at_def using frames by (simp add: spi_deselect_def Let_def)
qed

lemma burst_at:
  assumes "pc_cs_pin cfg \<noteq> []" and "pc_bits_per_word cfg \<le> 64"
  shows "spi_at cfg clk pre says r \<Longrightarrow> int (length pre) < pc_bits_per_word cfg \<Longrightarrow> (pc_cpha cfg \<longrightarrow> clk = pc_cpol cfg) \<Longrightarrow>
     spi_at cfg (pc_cpol cfg) [] (says @ burst_says cfg (pre @ bs)) (fold (spi_go cfg) (burst_wave cfg bs) r)"
proof (induction bs arbitrary: pre says r clk)
  case Nil
  let ?r = "spi_go cfg (False, pc_cpol cfg, False, False) r"
  have "sv_prev_clk r = clk" using Nil by (simp add: spi_at_def)
  then have "\<not> (pc_cpol cfg \<noteq> sv_prev_clk r \<and> (pc_cpol cfg \<noteq> pc_cpol cfg) = (\<not> pc_cpha cfg))"
    using Nil.prems(3) by (cases "pc_cpha cfg") simp_all
  then have "?r = r\<lparr>sv_prev_clk := pc_cpol cfg\<rparr>" unfolding spi_go_active by (rule if_not_P)
  then have "spi_at cfg (pc_cpol cfg) pre says ?r" using spi_at_prev [OF Nil.prems(1)] by simp
  from deselect_at [OF this Nil.prems(2) assms(1)] show ?case by (simp add: burst_wave_def)
next
  case (Cons b bs)
  let ?r = "fold (spi_go cfg) (cell_wave cfg b) r"
  have len: "length pre < 64" using Cons.prems(2) assms(2) by linarith
  note cell = cell_at [OF Cons.prems(1) len Cons.prems(2,3), of b]
  have wave: "fold (spi_go cfg) (burst_wave cfg (b # bs)) r = fold (spi_go cfg) (burst_wave cfg bs) ?r"
    by (simp add: burst_wave_def)
  have clk: "pc_cpha cfg \<longrightarrow> (pc_cpol cfg = pc_cpha cfg) = pc_cpol cfg" by simp
  show ?case
  proof (cases "int (length pre) + 1 = pc_bits_per_word cfg")
    case True
    then have n: "nat (pc_bits_per_word cfg) = Suc (length pre)" by linarith
    have "spi_at cfg (pc_cpol cfg) [] ((says @ [(word_says cfg (pre @ [b]), False)]) @ burst_says cfg ([] @ bs))
        (fold (spi_go cfg) (burst_wave cfg bs) ?r)"
      using cell True by (intro Cons.IH [OF _ _ clk]) auto
    moreover have "burst_says cfg (pre @ b # bs) = (word_says cfg (pre @ [b]), False) # burst_says cfg bs"
      by (subst burst_says.simps) (simp add: n)
    ultimately show ?thesis by (simp add: wave)
  next
    case False
    have "spi_at cfg (pc_cpol cfg) [] (says @ burst_says cfg ((pre @ [b]) @ bs)) (fold (spi_go cfg) (burst_wave cfg bs) ?r)"
      using cell False Cons.prems(2) by (intro Cons.IH [OF _ _ clk]) auto
    then show ?thesis by (simp add: wave)
  qed
qed

lemma bursts_at:
  assumes "pc_cs_pin cfg \<noteq> []" and "pc_bits_per_word cfg \<le> 64" and "0 < pc_bits_per_word cfg"
  shows "spi_at cfg (pc_cpol cfg) [] says r \<Longrightarrow>
     spi_at cfg (pc_cpol cfg) [] (says @ concat (map (burst_says cfg) bss)) (fold (spi_go cfg) (concat (map (burst_wave cfg) bss)) r)"
proof (induction bss arbitrary: says r)
  case (Cons bs bss)
  have "spi_at cfg (pc_cpol cfg) [] (says @ burst_says cfg ([] @ bs)) (fold (spi_go cfg) (burst_wave cfg bs) r)"
    using assms Cons.prems by (intro burst_at) auto
  from Cons.IH [OF this [simplified]] show ?case by simp
qed simp

section \<open>Properties\<close>

text \<open>C31: in each of the four clock modes and both bit orders, for words of 1 to 64 bits, a capture that
  starts with the bus idle and shows any sequence of chip-select bursts is decoded to exactly their
  words, whatever the sampling times and however many samples a level lasts; a burst that stops inside
  a word gives one more frame with the bits received, flagged as an error.\<close>

theorem spi_decodes_bursts:
  assumes "pc_clk_pin cfg \<noteq> []" and "pc_cs_pin cfg \<noteq> []" and "0 < pc_bits_per_word cfg" and "pc_bits_per_word cfg \<le> 64"
    and "samples \<noteq> []"
    and "remdups_adj (map (spi_levels cfg) samples) =
           remdups_adj ((True, pc_cpol cfg, False, False) # concat (map (burst_wave cfg) bursts))"
  shows "map frame_says (decode_spi samples cfg) = concat (map (burst_says cfg) bursts)"
proof -
  let ?idle = "(True, pc_cpol cfg, False, False)" and ?wave = "concat (map (burst_wave cfg) bursts)"
  obtain s ss where samples: "samples = s # ss" using assms(5) by (cases samples) auto
  have first: "spi_levels cfg s = ?idle" using arg_cong [OF assms(6), of hd] by (simp add: samples)
  have init: "spi_go cfg ?idle (spi_init cfg) = spi_init cfg"
    using assms(2) by (simp add: spi_go_def spi_edge_def spi_deselect_def spi_init_def Let_def)
  have run: "fold (spi_go cfg) xs (spi_init cfg) = fold (spi_go cfg) (remdups_adj (?idle # xs)) (spi_init cfg)" for xs
    by (simp only: fold_remdups_adj [OF spi_go_idem] fold_Cons comp_apply init)
  have "fold (spi_go cfg) (map (spi_levels cfg) ss) (spi_init cfg) = fold (spi_go cfg) ?wave (spi_init cfg)"
    using run [of "map (spi_levels cfg) ss"] run [of ?wave] assms(6) by (simp only: samples list.map first)
  moreover have "spi_at cfg (pc_cpol cfg) [] [] (spi_init cfg)" by (simp add: spi_at_def spi_init_def)
  from bursts_at [OF assms(2,4,3) this, of bursts]
  have "map frame_says (sv_frames (fold (spi_go cfg) ?wave (spi_init cfg))) = concat (map (burst_says cfg) bursts)"
    by (simp add: spi_at_def)
  ultimately have "map frame_says (sv_frames (fold (spi_step cfg s) ss (spi_init cfg))) = concat (map (burst_says cfg) bursts)"
    using spi_steps_go [of "spi_init cfg" "spi_init cfg" cfg s ss] by (simp add: spi_view_def)
  with assms(1) show ?thesis by (simp add: decode_spi_def samples)
qed

definition demo_spi :: spi_config where
  "demo_spi = \<lparr>pc_clk_pin = ''CLK'', pc_mosi_pin = ''MOSI'', pc_miso_pin = ''MISO'', pc_cs_pin = ''CS'',
     pc_cpol = True, pc_cpha = True, pc_lsb_first = False, pc_bits_per_word = 4\<rparr>"

definition spi_sample :: "spi_level \<Rightarrow> sample_frame" where
  "spi_sample l = (case l of (cs, clk, mosi, miso) \<Rightarrow>
     sample_of 0 [(''CS'', cs), (''CLK'', clk), (''MOSI'', mosi), (''MISO'', miso)])"

lemma spi_sample_levels [simp]: "spi_levels demo_spi (spi_sample l) = l"
  by (cases l)
     (simp add: spi_levels_def spi_sample_def sample_of_def demo_spi_def line_level_def sample_pin_value_def
       sr_get_pin_def pin_state_of_def)

lemma spi_decodes_bursts_witness:
  "map frame_says (decode_spi (map spi_sample ((True, True, False, False) #
       burst_wave demo_spi [(True, False), (False, False), (True, True), (False, True), (True, True)])) demo_spi) =
   [(''MOSI:A MISO:3'', False), (''MOSI:1 MISO:1'', True)]"
proof -
  let ?bs = "[(True, False), (False, False), (True, True), (False, True), (True, True)]"
  have "burst_says demo_spi ?bs = [(''MOSI:A MISO:3'', False), (''MOSI:1 MISO:1'', True)]" by code_simp
  then show ?thesis
    using spi_decodes_bursts [of demo_spi "map spi_sample ((True, True, False, False) # burst_wave demo_spi ?bs)" "[?bs]"]
    by (simp add: demo_spi_def comp_def spi_sample_levels [unfolded demo_spi_def])
qed

end
