(* ===== verification/Uart.thy ===== *)
theory Uart
  imports Protocol
begin

text \<open>
  src/src/protocol/uart_decoder.{h,cpp}: \<open>decodeUart\<close>, a loop over an index into the samples.  The index
  never runs past the end (\<open>uart_advance\<close> stops at the last sample), so the tests \<open>i >= n\<close> inside the
  body never hold; they are kept as the code has them.

  The property relates the decoder to the level of the line as a function of time.
\<close>

unbundle bit_operations_syntax

section \<open>The decoder\<close>

record uart_config =
  uc_rx_pin :: string
  uc_baud_rate :: u32
  uc_data_bits :: nat
  uc_stop_bits :: int
  uc_parity_enable :: bool
  uc_parity_odd :: bool

definition bit_us :: "uart_config \<Rightarrow> rat" where
  "bit_us cfg = 1000000 / of_nat (unat (uc_baud_rate cfg))"

text \<open>\<open>while (i + 1 < n && sampleTimeUs(samples[i + 1], t0) <= point) i++\<close>\<close>

function uart_advance :: "sample_frame list \<Rightarrow> rat \<Rightarrow> nat \<Rightarrow> nat" where
  "uart_advance samples point i =
     (if i + 1 < length samples \<and> sample_time_us (samples ! (i + 1)) (hd samples) \<le> point
      then uart_advance samples point (i + 1) else i)"
  by pat_completeness auto
termination by (relation "measure (\<lambda>(samples, point, i). length samples - i)") auto

declare uart_advance.simps [simp del]

definition rx_level :: "uart_config \<Rightarrow> sample_frame list \<Rightarrow> nat \<Rightarrow> bool" where
  "rx_level cfg samples i = sample_pin_value (samples ! i) (uc_rx_pin cfg)"

text \<open>The data bits from bit \<open>b\<close> on: the index, the value, and whether the samples ran out.\<close>

fun uart_data :: "uart_config \<Rightarrow> sample_frame list \<Rightarrow> rat \<Rightarrow> nat list \<Rightarrow> nat \<Rightarrow> u32 \<Rightarrow> nat \<times> u32 \<times> bool" where
  "uart_data cfg samples start [] i v = (i, v, False)"
| "uart_data cfg samples start (b # bs) i v =
     (let j = uart_advance samples (start + bit_us cfg * (3 / 2 + of_nat b)) i
      in if length samples \<le> j then (j, v, True)
         else uart_data cfg samples start bs j (if rx_level cfg samples j then v OR push_bit b 1 else v))"

definition count_ones :: "nat \<Rightarrow> u32 \<Rightarrow> nat" where
  "count_ones n v = length (filter (\<lambda>b. bit v b) [0..<n])"

definition expected_parity :: "uart_config \<Rightarrow> u32 \<Rightarrow> bool" where
  "expected_parity cfg v =
     (if uc_parity_odd cfg then count_ones (uc_data_bits cfg) v mod 2 = 0
      else count_ones (uc_data_bits cfg) v mod 2 = 1)"

definition uart_label :: "bool \<Rightarrow> u32 \<Rightarrow> string" where
  "uart_label err v =
     (let n = unat (v AND 0xFF)
      in if err then ''ERR''
         else if 0x20 \<le> n \<and> n < 0x7F then ''0x'' @ hex_fmt 2 n @ '' '' @ [CHR 0x27, char_of n, CHR 0x27]
         else ''0x'' @ hex_fmt 2 n)"

definition payload_bits :: "uart_config \<Rightarrow> nat" where
  "payload_bits cfg = uc_data_bits cfg + (if uc_parity_enable cfg then 1 else 0)"

text \<open>Everything after the start bit has been confirmed at index \<open>i\<close>: the index of the last sample looked
  at, and the frame unless it was truncated.\<close>

definition uart_frame :: "uart_config \<Rightarrow> sample_frame list \<Rightarrow> rat \<Rightarrow> nat \<Rightarrow> nat \<times> decoded_frame option" where
  "uart_frame cfg samples start i =
     (let B = bit_us cfg; n = length samples; t = (\<lambda>k. sample_time_us (samples ! k) (hd samples))
      in case uart_data cfg samples start [0..<uc_data_bits cfg] i 0 of (i1, v, ran_out) \<Rightarrow>
        let check = (\<not> ran_out \<and> uc_parity_enable cfg);
            i2 = (if check then uart_advance samples (start + B * (3 / 2 + of_nat (uc_data_bits cfg))) i1 else i1);
            parity_bad = (check \<and> i2 < n \<and> rx_level cfg samples i2 \<noteq> expected_parity cfg v);
            stop_center = start + B * (3 / 2 + of_nat (payload_bits cfg));
            i3 = uart_advance samples stop_center i2;
            truncated = (ran_out \<or> n \<le> i3 \<or> t i3 < stop_center - B / 2);
            err = (ran_out \<or> parity_bad \<or> \<not> truncated \<and> \<not> rx_level cfg samples i3)
        in (i3, if truncated then None
                else Some \<lparr>df_start_us = start,
                           df_end_us = start + B * (1 + of_nat (payload_bits cfg) + of_int (uc_stop_bits cfg)),
                           df_kind = Pk_UART, df_label = uart_label err v,
                           df_data = hex_fmt 2 (unat (v AND 0xFF)), df_error = err\<rparr>))"

text \<open>One round of the outer loop: the next index, and the frame it emits.\<close>

definition uart_round :: "uart_config \<Rightarrow> sample_frame list \<Rightarrow> nat \<Rightarrow> nat \<times> decoded_frame option" where
  "uart_round cfg samples i =
     (if rx_level cfg samples i then (i + 1, None)
      else
        let start = sample_time_us (samples ! i) (hd samples);
            j = uart_advance samples (start + bit_us cfg / 2) i
        in if length samples \<le> j then (j, None)
           else if rx_level cfg samples j then (j + 1, None)
           else case uart_frame cfg samples start j of (k, f) \<Rightarrow> (k + 1, f))"

lemma uart_advance_ge: "i \<le> uart_advance samples point i"
proof (induction samples point i rule: uart_advance.induct)
  case (1 samples point i)
  then show ?case by (subst uart_advance.simps) auto
qed

lemma uart_advance_lt: "i < length samples \<Longrightarrow> uart_advance samples point i < length samples"
proof (induction samples point i rule: uart_advance.induct)
  case (1 samples point i)
  then show ?case by (subst uart_advance.simps) auto
qed

lemma uart_data_ge: "uart_data cfg samples start bs i v = (j, v', e) \<Longrightarrow> i \<le> j"
proof (induction bs arbitrary: i v)
  case (Cons b bs)
  let ?j = "uart_advance samples (start + bit_us cfg * (3 / 2 + of_nat b)) i"
  have "?j \<le> j" using Cons by (auto simp: Let_def split: if_splits)
  then show ?case using uart_advance_ge [of i samples] order_trans by blast
qed simp

lemma uart_frame_ge: "uart_frame cfg samples start i = (k, f) \<Longrightarrow> i \<le> k"
proof -
  assume a: "uart_frame cfg samples start i = (k, f)"
  obtain i1 v e where d: "uart_data cfg samples start [0..<uc_data_bits cfg] i 0 = (i1, v, e)"
    by (cases "uart_data cfg samples start [0..<uc_data_bits cfg] i 0")
  have "\<exists>p q c. k = uart_advance samples p (if c then uart_advance samples q i1 else i1)"
    using a d unfolding uart_frame_def Let_def prod.case d prod.inject by blast
  then have "i1 \<le> k" using uart_advance_ge order_trans by (metis (full_types))
  with uart_data_ge [OF d] show ?thesis by simp
qed

lemma uart_round_progress:
  assumes "i < length samples"
  shows "i < fst (uart_round cfg samples i)"
proof (cases "rx_level cfg samples i")
  case True
  then show ?thesis by (simp add: uart_round_def)
next
  case False
  define st where "st = sample_time_us (samples ! i) (hd samples)"
  define j where "j = uart_advance samples (st + bit_us cfg / 2) i"
  obtain k f where kf: "uart_frame cfg samples st j = (k, f)" by (cases "uart_frame cfg samples st j")
  have "i \<le> j" "j < length samples" "j \<le> k"
    using uart_advance_ge uart_advance_lt [OF assms] uart_frame_ge [OF kf] by (simp_all add: j_def)
  then show ?thesis
    using False unfolding uart_round_def st_def [symmetric] Let_def j_def [symmetric] kf by simp
qed

function uart_loop :: "uart_config \<Rightarrow> sample_frame list \<Rightarrow> nat \<Rightarrow> decoded_frame list" where
  "uart_loop cfg samples i =
     (if i < length samples
      then case uart_round cfg samples i of (j, f) \<Rightarrow>
             (case f of None \<Rightarrow> [] | Some x \<Rightarrow> [x]) @ uart_loop cfg samples j
      else [])"
  by pat_completeness auto
termination
  apply (relation "measure (\<lambda>(cfg, samples, i). length samples - i)")
   apply simp
  subgoal for cfg samples i
    using uart_round_progress [of i samples cfg] by (cases "uart_round cfg samples i") simp
  done

declare uart_loop.simps [simp del]

definition decode_uart :: "sample_frame list \<Rightarrow> uart_config \<Rightarrow> decoded_frame list" where
  "decode_uart samples cfg =
     (if samples = [] \<or> uc_rx_pin cfg = [] \<or> uc_baud_rate cfg = 0 then [] else uart_loop cfg samples 0)"

section \<open>A line that carries frames\<close>

text \<open>A frame starts at a time, with a word and the level of its parity bit.  The level of the line: high
  when idle, low for one bit time from the start of a frame on, then its payload bits.\<close>

type_synonym uart_sent = "rat \<times> u32 \<times> bool"

definition payload :: "uart_config \<Rightarrow> u32 \<times> bool \<Rightarrow> bool list" where
  "payload cfg x = map (bit (fst x)) [0..<uc_data_bits cfg] @ (if uc_parity_enable cfg then [snd x] else [])"

fun uart_line :: "uart_config \<Rightarrow> uart_sent list \<Rightarrow> rat \<Rightarrow> bool" where
  "uart_line cfg [] t = True"
| "uart_line cfg ((a, x) # fs) t =
     (if t < a then True
      else if t < a + bit_us cfg * of_nat (Suc (payload_bits cfg))
      then (False # payload cfg x) ! nat (floor ((t - a) / bit_us cfg))
      else uart_line cfg fs t)"

text \<open>Frames in order, each with at least one stop bit before the next.\<close>

fun frames_apart :: "uart_config \<Rightarrow> rat \<Rightarrow> uart_sent list \<Rightarrow> bool" where
  "frames_apart cfg lo [] = True"
| "frames_apart cfg lo ((a, x) # fs) \<longleftrightarrow>
     lo \<le> a \<and> frames_apart cfg (a + bit_us cfg * of_nat (payload_bits cfg + 2)) fs"

definition uart_says :: "uart_config \<Rightarrow> uart_sent \<Rightarrow> string \<times> bool" where
  "uart_says cfg f =
     (case f of (a, w, p) \<Rightarrow>
        let v = take_bit (uc_data_bits cfg) w;
            bad = (uc_parity_enable cfg \<and> p \<noteq> expected_parity cfg v)
        in (uart_label bad v, bad))"

abbreviation tau :: "sample_frame list \<Rightarrow> nat \<Rightarrow> rat" where
  "tau samples j \<equiv> sample_time_us (samples ! j) (hd samples)"

text \<open>Samples in order, at most \<open>gap\<close> microseconds apart.\<close>

definition sampled_every :: "rat \<Rightarrow> sample_frame list \<Rightarrow> bool" where
  "sampled_every gap samples \<longleftrightarrow>
     list_all (\<lambda>j. tau samples j \<le> tau samples (Suc j) \<and> tau samples (Suc j) - tau samples j \<le> gap)
       [0..<length samples - 1]"

lemma sampled_everyD:
  "sampled_every gap samples \<Longrightarrow> Suc j < length samples \<Longrightarrow>
     tau samples j \<le> tau samples (Suc j) \<and> tau samples (Suc j) - tau samples j \<le> gap"
  by (simp add: sampled_every_def list_all_iff)

lemma payload_bits_length [simp]: "length (payload cfg x) = payload_bits cfg"
  by (simp add: payload_def payload_bits_def)

lemma uart_line_bit:
  assumes "0 < bit_us cfg" and "a + bit_us cfg * of_nat k \<le> t" and "t < a + bit_us cfg * of_nat (Suc k)"
    and "k \<le> payload_bits cfg"
  shows "uart_line cfg ((a, x) # fs) t = (False # payload cfg x) ! k"
proof -
  have "floor ((t - a) / bit_us cfg) = int k"
    using assms(1-3) by (intro floor_unique) (simp_all add: field_simps)
  moreover have "bit_us cfg * of_nat (Suc k) \<le> bit_us cfg * of_nat (Suc (payload_bits cfg))"
    using assms(1,4) by (intro mult_left_mono) simp_all
  moreover have "0 \<le> bit_us cfg * rat_of_nat k" using assms(1) by simp
  ultimately show ?thesis using assms(2,3) by simp
qed

lemma uart_line_idle: "frames_apart cfg lo fs \<Longrightarrow> t < lo \<Longrightarrow> uart_line cfg fs t"
  by (induction cfg lo fs rule: frames_apart.induct) auto

lemma uart_line_rest:
  assumes "0 < bit_us cfg" and "a + bit_us cfg * of_nat (Suc (payload_bits cfg)) \<le> t"
  shows "uart_line cfg ((a, x) # fs) t = uart_line cfg fs t"
proof -
  have "0 \<le> bit_us cfg * rat_of_nat (Suc (payload_bits cfg))" using assms(1) by simp
  with assms(2) show ?thesis by simp
qed

section \<open>Where the index stops\<close>

lemma uart_advance_spec:
  "i < length samples \<Longrightarrow>
     (uart_advance samples p i = i \<or> tau samples (uart_advance samples p i) \<le> p) \<and>
     (Suc (uart_advance samples p i) < length samples \<longrightarrow> p < tau samples (Suc (uart_advance samples p i)))"
proof (induction samples p i rule: uart_advance.induct)
  case (1 samples p i)
  show ?case
  proof (cases "i + 1 < length samples \<and> tau samples (i + 1) \<le> p")
    case True
    then have "uart_advance samples p i = uart_advance samples p (i + 1)" by (subst uart_advance.simps) simp
    with 1(1) [OF True] True show ?thesis by auto
  next
    case False
    then have "uart_advance samples p i = i" by (subst uart_advance.simps) auto
    with False show ?thesis by auto
  qed
qed

lemma uart_advance_near:
  assumes "sampled_every gap samples" and "0 \<le> gap" and "i < length samples" and "tau samples i \<le> p"
    and "p \<le> tau samples (length samples - 1)"
  obtains j where "uart_advance samples p i = j" "i \<le> j" "j < length samples" "tau samples j \<le> p" "p - gap \<le> tau samples j"
proof -
  define j where "j = uart_advance samples p i"
  have j: "i \<le> j" "j < length samples" using uart_advance_ge uart_advance_lt [OF assms(3)] by (simp_all add: j_def)
  have s: "tau samples j \<le> p" "Suc j < length samples \<longrightarrow> p < tau samples (Suc j)"
    using uart_advance_spec [OF assms(3), of p] assms(4) by (auto simp: j_def)
  have "p - gap \<le> tau samples j"
  proof (cases "Suc j < length samples")
    case True
    with sampled_everyD [OF assms(1) True] s(2) show ?thesis by simp
  next
    case False
    then have "j = length samples - 1" using j(2) by simp
    with assms(2,5) show ?thesis by simp
  qed
  with j s(1) that show ?thesis by (simp add: j_def)
qed

section \<open>One frame\<close>

lemma uart_data_reads:
  assumes s: "sampled_every gap samples" "0 \<le> gap" "2 * gap \<le> bit_us cfg" and B: "0 < bit_us cfg"
    and start: "a \<le> st" "st < a + bit_us cfg / 2"
    and lev: "\<And>j k. i0 \<le> j \<Longrightarrow> j < length samples \<Longrightarrow> k < n \<Longrightarrow> a + bit_us cfg * of_nat (k + 1) \<le> tau samples j \<Longrightarrow>
                tau samples j < a + bit_us cfg * of_nat (k + 2) \<Longrightarrow> rx_level cfg samples j = bs k"
    and last: "st + bit_us cfg * (1 / 2 + of_nat n) \<le> tau samples (length samples - 1)"
  shows "i0 \<le> i \<Longrightarrow> i < length samples \<Longrightarrow> b \<le> n \<Longrightarrow> tau samples i \<le> st + bit_us cfg * (1 / 2 + of_nat b) \<Longrightarrow>
     \<exists>j v'. uart_data cfg samples st [b..<n] i v = (j, v', False) \<and> i \<le> j \<and> j < length samples \<and>
        tau samples j \<le> st + bit_us cfg * (1 / 2 + of_nat n) \<and>
        (\<forall>x. bit v' x \<longleftrightarrow> bit v x \<or> b \<le> x \<and> x < n \<and> x < 32 \<and> bs x)"
proof (induction "n - b" arbitrary: b i v)
  case 0
  then show ?case by auto
next
  case (Suc d)
  then have b: "b < n" "[b..<n] = b # [Suc b..<n]" by (simp_all add: upt_conv_Cons)
  let ?p = "st + bit_us cfg * (3 / 2 + of_nat b)"
  have mono: "bit_us cfg * (3 / 2 + of_nat b) \<le> bit_us cfg * (1 / 2 + of_nat n)"
    using B b(1) by (intro mult_left_mono) simp_all
  have p: "tau samples i \<le> ?p" "?p \<le> tau samples (length samples - 1)"
    using Suc.prems(4) B mono last by (simp_all add: algebra_simps)
  obtain j where j: "uart_advance samples ?p i = j" "i \<le> j" "j < length samples" "tau samples j \<le> ?p" "?p - gap \<le> tau samples j"
    using uart_advance_near [OF s(1,2) Suc.prems(2) p] .
  have "rx_level cfg samples j = bs b"
  proof (rule lev [OF _ j(3) b(1)])
    show "i0 \<le> j" using Suc.prems(1) j(2) by simp
    show "a + bit_us cfg * of_nat (b + 1) \<le> tau samples j" using j(5) start(1) s(3) by (simp add: algebra_simps)
    show "tau samples j < a + bit_us cfg * of_nat (b + 2)" using j(4) start(2) by (simp add: algebra_simps)
  qed
  note level = this
  let ?v = "if bs b then v OR push_bit b 1 else v"
  have step: "uart_data cfg samples st [b..<n] i v = uart_data cfg samples st [Suc b..<n] j ?v"
    using j(1,3) level by (simp add: b(2))
  have "tau samples j \<le> st + bit_us cfg * (1 / 2 + of_nat (Suc b))" using j(4) by (simp add: algebra_simps)
  then obtain j' v' where r: "uart_data cfg samples st [Suc b..<n] j ?v = (j', v', False)" "j \<le> j'" "j' < length samples"
      "tau samples j' \<le> st + bit_us cfg * (1 / 2 + of_nat n)"
      "\<forall>x. bit v' x \<longleftrightarrow> bit ?v x \<or> Suc b \<le> x \<and> x < n \<and> x < 32 \<and> bs x"
    using Suc.hyps(1) [of "Suc b" j ?v] Suc.hyps(2) Suc.prems(1) j(2,3) b(1) by fastforce
  have "bit v' x \<longleftrightarrow> bit v x \<or> b \<le> x \<and> x < n \<and> x < 32 \<and> bs x" for x
  proof -
    have "bit ?v x \<longleftrightarrow> bit v x \<or> x = b \<and> x < 32 \<and> bs b" by (auto simp: bit_or_iff)
    moreover have "b \<le> x \<longleftrightarrow> x = b \<or> Suc b \<le> x" by auto
    ultimately show ?thesis using r(5) b(1) by auto
  qed
  moreover have "i \<le> j'" using j(2) r(2) by simp
  ultimately show ?case unfolding step using r(1,3,4) by (intro exI [of _ j'] exI [of _ v'] conjI allI)
qed

lemma expected_parity_cong:
  "(\<And>b. b < uc_data_bits cfg \<Longrightarrow> bit v b = bit w b) \<Longrightarrow> expected_parity cfg v = expected_parity cfg w"
proof -
  assume a: "\<And>b. b < uc_data_bits cfg \<Longrightarrow> bit v b = bit w b"
  have "count_ones (uc_data_bits cfg) v = count_ones (uc_data_bits cfg) w"
    unfolding count_ones_def by (intro arg_cong [where f = length] filter_cong) (simp_all add: a)
  then show ?thesis by (simp add: expected_parity_def)
qed

text \<open>The index stands on the first low sample of a frame.\<close>

lemma uart_round_frame:
  assumes s: "sampled_every gap samples" "0 \<le> gap" "2 * gap < bit_us cfg" and B: "0 < bit_us cfg"
    and bits: "uc_data_bits cfg \<le> 32"
    and i: "i < length samples" "a \<le> tau samples i" "tau samples i \<le> a + gap"
    and lev: "\<And>j. i \<le> j \<Longrightarrow> j < length samples \<Longrightarrow> rx_level cfg samples j = uart_line cfg ((a, w, p) # fs) (tau samples j)"
    and apart: "frames_apart cfg (a + bit_us cfg * of_nat (payload_bits cfg + 2)) fs"
    and last: "a + bit_us cfg * of_nat (payload_bits cfg + 2) \<le> tau samples (length samples - 1)"
  shows "\<exists>k f. uart_round cfg samples i = (Suc k, Some f) \<and> frame_says f = uart_says cfg (a, w, p) \<and>
           i \<le> k \<and> k < length samples \<and> a + bit_us cfg * of_nat (Suc (payload_bits cfg)) \<le> tau samples k \<and>
           tau samples k < a + bit_us cfg * of_nat (payload_bits cfg + 2)"
proof -
  define B where "B = bit_us cfg"
  define st where "st = tau samples i"
  define m where "m = payload_bits cfg"
  define n where "n = uc_data_bits cfg"
  note defs = B_def [symmetric] st_def [symmetric] m_def [symmetric] n_def [symmetric]
  have B0: "0 < B" "2 * gap < B" "2 * gap \<le> B" using B s(3) by (simp_all add: B_def)
  have st: "a \<le> st" "st < a + B / 2" "st \<le> a + gap" using i B0 by (simp_all add: st_def)
  have nm: "n \<le> m" by (simp add: n_def m_def payload_bits_def)
  have ends: "st + B * (1 / 2 + of_nat k) \<le> tau samples (length samples - 1)" if "k \<le> Suc m" for k
  proof -
    have "B * (1 / 2 + of_nat k) \<le> B * (1 / 2 + of_nat (Suc m))" using that B0(1) by (intro mult_left_mono) simp_all
    with last st(2) show ?thesis unfolding defs by (simp add: algebra_simps)
  qed
  have line: "rx_level cfg samples j = (False # payload cfg (w, p)) ! k"
    if "i \<le> j" "j < length samples" "k \<le> m" "a + B * of_nat k \<le> tau samples j" "tau samples j < a + B * of_nat (Suc k)" for j k
    using lev [OF that(1,2)] uart_line_bit [OF B, of a k "tau samples j" "(w, p)" fs] that(3-5) by (simp add: B_def m_def)
  have low: "\<not> rx_level cfg samples i" using line [of i 0] i st B0 by (simp add: st_def)
  obtain j0 where j0: "uart_advance samples (st + B / 2) i = j0" "i \<le> j0" "j0 < length samples" "tau samples j0 \<le> st + B / 2"
      "st + B / 2 - gap \<le> tau samples j0"
    using uart_advance_near [OF s(1,2) i(1), of "st + B / 2"] ends [of 0] B0 st_def by auto
  have low0: "\<not> rx_level cfg samples j0" using line [of j0 0] j0 st B0 by simp
  obtain j1 v where d: "uart_data cfg samples st [0..<n] j0 0 = (j1, v, False)" "j0 \<le> j1" "j1 < length samples"
      "tau samples j1 \<le> st + B * (1 / 2 + of_nat n)" "\<forall>x. bit v x \<longleftrightarrow> bit (0 :: u32) x \<or> 0 \<le> x \<and> x < n \<and> x < 32 \<and> bit w x"
  proof -
    have "rx_level cfg samples j = bit w k"
      if "i \<le> j" "j < length samples" "k < n" "a + B * of_nat (k + 1) \<le> tau samples j" "tau samples j < a + B * of_nat (k + 2)" for j k
      using line [of j "Suc k"] that nm by (simp add: payload_def n_def nth_append)
    then show ?thesis
      using uart_data_reads [OF s(1,2), of cfg a st i n "bit w" j0 0 0] B0 st ends [of n] nm j0 that
      unfolding B_def [symmetric] by (auto simp: B_def [symmetric])
  qed
  have v: "v = take_bit n w"
    using d(5) bits by (intro word_eq_bitsI) (auto simp: bit_take_bit_iff n_def)
  define i2 where "i2 = (if uc_parity_enable cfg then uart_advance samples (st + B * (3 / 2 + of_nat n)) j1 else j1)"
  have i2: "j1 \<le> i2" "i2 < length samples" "tau samples i2 \<le> st + B * (1 / 2 + of_nat m)"
    "uc_parity_enable cfg \<Longrightarrow> rx_level cfg samples i2 = p"
  proof -
    have "j1 \<le> i2 \<and> i2 < length samples \<and> tau samples i2 \<le> st + B * (1 / 2 + of_nat m) \<and>
       (uc_parity_enable cfg \<longrightarrow> rx_level cfg samples i2 = p)"
    proof (cases "uc_parity_enable cfg")
      case False
      then show ?thesis using d(3,4) by (simp add: i2_def m_def n_def payload_bits_def)
    next
      case True
      then have m: "m = Suc n" by (simp add: m_def n_def payload_bits_def)
      have c: "st + B * (3 / 2 + of_nat n) = st + B * (1 / 2 + of_nat m)" by (simp add: m algebra_simps)
      have "tau samples j1 \<le> st + B * (3 / 2 + of_nat n)" using d(4) B0 by (simp add: algebra_simps)
      then obtain j where j: "uart_advance samples (st + B * (3 / 2 + of_nat n)) j1 = j" "j1 \<le> j" "j < length samples"
          "tau samples j \<le> st + B * (3 / 2 + of_nat n)" "st + B * (3 / 2 + of_nat n) - gap \<le> tau samples j"
        using uart_advance_near [OF s(1,2) d(3)] ends [of m] c by (metis le_SucI order_refl)
      have "rx_level cfg samples j = (False # payload cfg (w, p)) ! Suc n"
        using j j0(2) d(2) st B0 m by (intro line) (simp_all add: algebra_simps)
      then have "rx_level cfg samples j = p" using True by (simp add: payload_def n_def nth_append)
      moreover have "i2 = j" using j(1) True by (simp add: i2_def)
      moreover have "tau samples j \<le> st + B * (1 / 2 + of_nat m)" using j(4) unfolding c .
      ultimately show ?thesis using j(2,3) by simp
    qed
    then show "j1 \<le> i2" "i2 < length samples" "tau samples i2 \<le> st + B * (1 / 2 + of_nat m)"
      "uc_parity_enable cfg \<Longrightarrow> rx_level cfg samples i2 = p" by blast+
  qed
  let ?c = "st + B * (3 / 2 + of_nat m)"
  have "tau samples i2 \<le> ?c" using i2(3) B0 by (simp add: algebra_simps)
  moreover have "?c = st + B * (1 / 2 + of_nat (Suc m))" by (simp add: algebra_simps)
  ultimately obtain i3 where i3: "uart_advance samples ?c i2 = i3" "i2 \<le> i3" "i3 < length samples" "tau samples i3 \<le> ?c" "?c - gap \<le> tau samples i3"
    using uart_advance_near [OF s(1,2) i2(2)] ends [of "Suc m"] by (metis order_refl)
  have t3: "a + B * of_nat (Suc m) \<le> tau samples i3" "tau samples i3 < a + B * of_nat (m + 2)"
    using i3(4,5) st B0 by (simp_all add: algebra_simps)
  have "rx_level cfg samples i3 = uart_line cfg fs (tau samples i3)"
    using lev [of i3] uart_line_rest [OF B, of a "tau samples i3" "(w, p)" fs] t3 i3(2,3) i2(1) d(2) j0(2)
    by (simp only: B_def [symmetric] m_def [symmetric])
  also have "\<dots> = True" using uart_line_idle [OF apart, of "tau samples i3"] t3(2) by (simp add: B_def m_def)
  finally have stop: "rx_level cfg samples i3" by simp
  have nt: "\<not> tau samples i3 < ?c - B / 2" using i3(5) B0 by simp
  let ?bad = "uc_parity_enable cfg \<and> p \<noteq> expected_parity cfg v"
  have bad: "(uc_parity_enable cfg \<and> rx_level cfg samples i2 \<noteq> expected_parity cfg v) \<longleftrightarrow> ?bad" using i2(4) by blast
  have frame: "uart_frame cfg samples st j0 = (i3, Some \<lparr>df_start_us = st,
      df_end_us = st + B * (1 + of_nat m + of_int (uc_stop_bits cfg)),
      df_kind = Pk_UART, df_label = uart_label ?bad v, df_data = hex_fmt 2 (unat (v AND 0xFF)), df_error = ?bad\<rparr>)"
    unfolding uart_frame_def Let_def B_def [symmetric] m_def [symmetric] n_def [symmetric] d(1) prod.case
    using i2(2) i3(1,3) stop nt bad by (simp add: i2_def [symmetric] not_le)
  have "uart_round cfg samples i = (Suc i3, Some \<lparr>df_start_us = st,
      df_end_us = st + B * (1 + of_nat m + of_int (uc_stop_bits cfg)),
      df_kind = Pk_UART, df_label = uart_label ?bad v, df_data = hex_fmt 2 (unat (v AND 0xFF)), df_error = ?bad\<rparr>)"
    unfolding uart_round_def Let_def st_def [symmetric] B_def [symmetric] j0(1) frame
    using low low0 j0(3) by simp
  moreover have "frame_says \<lparr>df_start_us = st, df_end_us = st + B * (1 + of_nat m + of_int (uc_stop_bits cfg)),
      df_kind = Pk_UART, df_label = uart_label ?bad v, df_data = hex_fmt 2 (unat (v AND 0xFF)), df_error = ?bad\<rparr>
      = uart_says cfg (a, w, p)"
    by (simp add: frame_says_def uart_says_def v n_def Let_def)
  moreover have "i \<le> i3" using j0(2) d(2) i2(1) i3(2) by simp
  ultimately show ?thesis using i3(3) t3 unfolding B_def m_def by blast
qed

section \<open>All frames\<close>

lemma uart_loop_skip:
  "i \<le> m \<Longrightarrow> m \<le> length samples \<Longrightarrow> (\<And>j. i \<le> j \<Longrightarrow> j < m \<Longrightarrow> rx_level cfg samples j) \<Longrightarrow>
     uart_loop cfg samples i = uart_loop cfg samples m"
proof (induction "m - i" arbitrary: i)
  case (Suc d)
  then have i: "i < length samples" "i < m" "rx_level cfg samples i" by auto
  have "uart_loop cfg samples i = uart_loop cfg samples (Suc i)"
    using i(1,3) by (subst uart_loop.simps) (simp add: uart_round_def)
  also have "\<dots> = uart_loop cfg samples m"
    using Suc.hyps(2) Suc.prems i(2) by (intro Suc.hyps(1)) auto
  finally show ?case .
qed simp

lemma uart_loop_decodes:
  assumes s: "sampled_every gap samples" "0 \<le> gap" "2 * gap < bit_us cfg" and B: "0 < bit_us cfg" and bits: "uc_data_bits cfg \<le> 32"
  shows "frames_apart cfg lo fs \<Longrightarrow> i \<le> length samples \<Longrightarrow>
     (\<And>j. i \<le> j \<Longrightarrow> j < length samples \<Longrightarrow> rx_level cfg samples j = uart_line cfg fs (tau samples j)) \<Longrightarrow>
     (fs \<noteq> [] \<Longrightarrow> (if i = 0 then tau samples 0 \<le> fst (hd fs) else tau samples (i - 1) \<le> fst (hd fs))) \<Longrightarrow>
     list_all (\<lambda>f. fst f + bit_us cfg * of_nat (payload_bits cfg + 2) \<le> tau samples (length samples - 1)) fs \<Longrightarrow>
     map frame_says (uart_loop cfg samples i) = map (uart_says cfg) fs"
proof (induction fs arbitrary: i lo)
  case Nil
  have "uart_loop cfg samples i = uart_loop cfg samples (length samples)"
    using Nil.prems(2,3) by (intro uart_loop_skip) simp_all
  also have "\<dots> = []" by (subst uart_loop.simps) simp
  finally show ?case by simp
next
  case (Cons f fs)
  obtain a w p where f: "f = (a, w, p)" by (cases f)
  let ?n = "length samples"
  have apart: "frames_apart cfg (a + bit_us cfg * of_nat (payload_bits cfg + 2)) fs" using Cons.prems(1) by (simp add: f)
  have last: "a + bit_us cfg * of_nat (payload_bits cfg + 2) \<le> tau samples (?n - 1)" using Cons.prems(5) by (simp add: f)
  have "0 < bit_us cfg * rat_of_nat (payload_bits cfg + 2)" using B by simp
  then have al: "a < tau samples (?n - 1)" using last by linarith
  have i: "i \<le> ?n - 1"
  proof (rule ccontr)
    assume "\<not> i \<le> ?n - 1"
    then have "i = ?n" "i \<noteq> 0" using Cons.prems(2) by auto
    with Cons.prems(4) al show False by (simp add: f)
  qed
  define m where "m = (LEAST m. i \<le> m \<and> a \<le> tau samples m)"
  have ex: "i \<le> ?n - 1 \<and> a \<le> tau samples (?n - 1)" using i al by simp
  have m: "i \<le> m" "a \<le> tau samples m" "m \<le> ?n - 1" and below: "i \<le> j \<Longrightarrow> j < m \<Longrightarrow> tau samples j < a" for j
    using LeastI [of "\<lambda>m. i \<le> m \<and> a \<le> tau samples m", OF ex] Least_le [of "\<lambda>m. i \<le> m \<and> a \<le> tau samples m", OF ex]
      not_less_Least [of j "\<lambda>m. i \<le> m \<and> a \<le> tau samples m"] unfolding m_def by auto
  have ne: "?n \<noteq> 0"
  proof
    assume "?n = 0"
    then have "i = 0" "tau samples 0 = tau samples (?n - 1)" using Cons.prems(2) by simp_all
    with Cons.prems(4) al show False by (simp add: f)
  qed
  then have mn: "m < ?n" using m(3) by (meson diff_less le_less_trans neq0_conv zero_less_one)
  have near: "tau samples m \<le> a + gap"
  proof (cases m)
    case 0
    then show ?thesis using m(1) Cons.prems(4) s(2) by (simp add: f)
  next
    case (Suc k)
    have "tau samples k \<le> a"
    proof (cases "i = m")
      case True
      then show ?thesis using Cons.prems(4) Suc by (simp add: f)
    next
      case False
      then show ?thesis using below [of k] m(1) Suc by simp
    qed
    then show ?thesis using sampled_everyD [OF s(1), of k] mn Suc by simp
  qed
  have skip: "uart_loop cfg samples i = uart_loop cfg samples m"
    using m(1) mn Cons.prems(3) below by (intro uart_loop_skip) (auto simp: f)
  have lev: "rx_level cfg samples j = uart_line cfg ((a, w, p) # fs) (tau samples j)" if "m \<le> j" "j < ?n" for j
    using Cons.prems(3) that m(1) by (simp add: f)
  obtain k fr where r: "uart_round cfg samples m = (Suc k, Some fr)" "frame_says fr = uart_says cfg (a, w, p)" "m \<le> k" "k < ?n"
      "a + bit_us cfg * of_nat (Suc (payload_bits cfg)) \<le> tau samples k"
      "tau samples k < a + bit_us cfg * of_nat (payload_bits cfg + 2)"
    using uart_round_frame [OF s B bits mn m(2) near lev apart last] by blast
  have sorted: "tau samples k \<le> tau samples j" if "k \<le> j" "j < ?n" for j
    using that
  proof (induction j rule: dec_induct)
    case (step j)
    then show ?case using sampled_everyD [OF s(1), of j] by simp
  qed simp
  have "map frame_says (uart_loop cfg samples (Suc k)) = map (uart_says cfg) fs"
  proof (rule Cons.IH [OF apart])
    show "Suc k \<le> ?n" using r(4) by simp
    show "list_all (\<lambda>f. fst f + bit_us cfg * of_nat (payload_bits cfg + 2) \<le> tau samples (?n - 1)) fs"
      using Cons.prems(5) by simp
    show "rx_level cfg samples j = uart_line cfg fs (tau samples j)" if "Suc k \<le> j" "j < ?n" for j
      using lev [of j] uart_line_rest [OF B, of a "tau samples j" "(w, p)" fs] sorted [of j] r(3,5) that by simp
    show "if Suc k = 0 then tau samples 0 \<le> fst (hd fs) else tau samples (Suc k - 1) \<le> fst (hd fs)" if "fs \<noteq> []"
      using apart r(6) that by (cases fs) auto
  qed
  moreover have "uart_loop cfg samples m = fr # uart_loop cfg samples (Suc k)"
    using mn r(1) by (subst uart_loop.simps) simp
  ultimately show ?case using skip r(2) by (simp add: f)
qed

section \<open>Properties\<close>


definition demo_uart :: uart_config where
  "demo_uart = \<lparr>uc_rx_pin = ''RX'', uc_baud_rate = 250000, uc_data_bits = 8, uc_stop_bits = 1,
                 uc_parity_enable = True, uc_parity_odd = False\<rparr>"

definition demo_sent :: "uart_sent list" where
  "demo_sent = [(2, 0x41, False), (47, 0x0D, False)]"

definition demo_line :: "sample_frame list" where
  "demo_line = map (\<lambda>k. sample_of (1000 * int k) [(''RX'', uart_line demo_uart demo_sent (of_nat k))]) [0..<100]"


end
