(* ===== verification/Pl_Config.thy ===== *)
theory Pl_Config
  imports Scanner
begin

text \<open>
  src/src/config/pl_config.{h,cpp}: configuring the programmable logic of a Zynq through its TAP.

  A file is \<open>None\<close> (cannot be opened) or its bytes.  The progress callback is the list of its calls.  The
  results of \<open>clkIdle\<close> are ignored by the code, so \<open>chain_idle\<close> only threads the state.  \<open>program\<close> is cut
  into loading and starting (\<open>pl_configure\<close>, steps 2 to 5) and the polling of the status register
  (\<open>pl_poll\<close>, \<open>pl_verdict\<close>, step 6).  Files are assumed below 256 MB, where \<open>int total_bits\<close> is exact.
\<close>

unbundle bit_operations_syntax

section \<open>Constants\<close>

definition CFG_OUT :: u32 where "CFG_OUT = 0x04"
definition CFG_IN :: u32 where "CFG_IN = 0x05"
definition JPROGRAM :: u32 where "JPROGRAM = 0x0B"
definition JSTART :: u32 where "JSTART = 0x0C"
definition PL_BYPASS :: u32 where "PL_BYPASS = 0x3F"
definition STAT_DONE :: nat where "STAT_DONE = 14"
definition STAT_RELEASE_DONE :: nat where "STAT_RELEASE_DONE = 13"
definition STAT_INIT_B :: nat where "STAT_INIT_B = 12"
definition STAT_INIT_COMPLETE :: nat where "STAT_INIT_COMPLETE = 11"
definition STAT_EOS :: nat where "STAT_EOS = 4"
definition STAT_CRC_ERROR :: nat where "STAT_CRC_ERROR = 0"
definition SYNC_WORD :: u32 where "SYNC_WORD = 0xAA995566"
definition PKT_NOOP :: u32 where "PKT_NOOP = 0x20000000"
definition READ_STAT :: u32 where "READ_STAT = 0x2800E001"

section \<open>Bitstreams\<close>

definition bit_reverse_byte :: "byte \<Rightarrow> byte" where
  "bit_reverse_byte b =
     (let b1 = drop_bit 4 (b AND 0xF0) OR push_bit 4 (b AND 0x0F);
          b2 = drop_bit 2 (b1 AND 0xCC) OR push_bit 2 (b1 AND 0x33)
      in drop_bit 1 (b2 AND 0xAA) OR push_bit 1 (b2 AND 0x55))"

definition sync_at :: "byte list \<Rightarrow> nat \<Rightarrow> bool" where
  "sync_at raw i \<longleftrightarrow> take 4 (drop i raw) = [0xAA, 0x99, 0x55, 0x66]"

text \<open>The scan for the sync word: the first offset \<open>i\<close> with \<open>i + 4 <= size\<close>; 0 when there is none.\<close>

definition sync_start :: "byte list \<Rightarrow> nat" where
  "sync_start raw = (case List.find (sync_at raw) [0..<length raw - 3] of Some i \<Rightarrow> i | None \<Rightarrow> 0)"

definition load_bitstream :: "byte list option \<Rightarrow> byte list option" where
  "load_bitstream file =
     (case file of None \<Rightarrow> None
      | Some raw \<Rightarrow> if raw = [] then None else Some (map bit_reverse_byte (drop (sync_start raw) raw)))"

section \<open>The status register\<close>

record pl_status =
  ps_done :: bool
  ps_release_done :: bool
  ps_init_b :: bool
  ps_init_complete :: bool
  ps_eos :: bool
  ps_crc_error :: bool
  ps_raw :: u32

definition decode_status :: "u32 \<Rightarrow> pl_status" where
  "decode_status raw =
     \<lparr>ps_done = bit raw STAT_DONE, ps_release_done = bit raw STAT_RELEASE_DONE, ps_init_b = bit raw STAT_INIT_B,
      ps_init_complete = bit raw STAT_INIT_COMPLETE, ps_eos = bit raw STAT_EOS, ps_crc_error = bit raw STAT_CRC_ERROR,
      ps_raw = raw\<rparr>"

definition stat_read_packet :: "byte list" where
  "stat_read_packet =
     concat (map (\<lambda>w. map (\<lambda>s. bit_reverse_byte (ucast (drop_bit s w AND 0xFF))) [24, 16, 8, 0])
       [PKT_NOOP, SYNC_WORD, PKT_NOOP, PKT_NOOP, READ_STAT, PKT_NOOP, PKT_NOOP, PKT_NOOP, PKT_NOOP])"

record pl_config =
  pg_index :: int
  pg_error :: string

definition chain_idle :: "'d link \<Rightarrow> int \<Rightarrow> 'd chain \<Rightarrow> 'd chain" where
  "chain_idle L n c = c\<lparr>jc_tap := snd (tap_clk_idle L n (jc_tap c))\<rparr>"

definition load_instruction :: "'d link \<Rightarrow> u32 \<Rightarrow> pl_config \<Rightarrow> 'd chain \<Rightarrow> (bool \<times> pl_config \<times> 'd chain) option" where
  "load_instruction L opcode p c =
     do {
       (ok, c1) \<leftarrow> select_instruction L (pg_index p) opcode c;
       if \<not> ok then Some (False, p\<lparr>pg_error := jc_error c1\<rparr>, c1) else Some (True, p, c1)
     }"

text \<open>The bits of one payload with a zero bit for every device but the target's.\<close>

definition bypass_count :: "pl_config \<Rightarrow> 'd chain \<Rightarrow> nat" where
  "bypass_count p c = length (filter (\<lambda>i. int i \<noteq> pg_index p) [0..<length (jc_devices c)])"

definition shift_payload :: "'d link \<Rightarrow> byte list \<Rightarrow> pl_config \<Rightarrow> 'd chain \<Rightarrow> (bool \<times> 'd chain) option" where
  "shift_payload L body p c =
     (let total_bits = 8 * length body + bypass_count p c
      in do {
        (ok, t) \<leftarrow> shift_dr_write L (Some (resize_bytes (bytes_for total_bits) body)) (int total_bits) (jc_tap c);
        Some (ok, c\<lparr>jc_tap := t\<rparr>)
      })"

definition read_pl_status ::
  "'d link \<Rightarrow> pl_config \<Rightarrow> 'd chain \<Rightarrow> (pl_status option \<times> pl_config \<times> 'd chain) option" where
  "read_pl_status L p c =
     do {
       (ok, p1, c1) \<leftarrow> load_instruction L CFG_IN p c;
       if \<not> ok then Some (None, p1, c1)
       else do {
         let c2 = chain_idle L 16 c1;
         (ok2, c3) \<leftarrow> shift_payload L stat_read_packet p1 c2;
         if \<not> ok2 then Some (None, p1\<lparr>pg_error := tap_error (jc_tap c3)\<rparr>, c3)
         else do {
           let c4 = chain_idle L 16 c3;
           (ok3, p2, c5) \<leftarrow> load_instruction L CFG_OUT p1 c4;
           if \<not> ok3 then Some (None, p2, c5)
           else do {
             let c6 = chain_idle L 16 c5;
             (ok4, raw_tdo, c7) \<leftarrow> read_data_dr L (pg_index p2) 32 [] c6;
             if \<not> ok4 then Some (None, p2\<lparr>pg_error := jc_error c7\<rparr>, c7)
             else Some (Some (decode_status (word_of_bits (buf_bit raw_tdo) (min 32 (8 * length raw_tdo)))), p2, c7)
           }
         }
       }
     }"

definition wait_init_b :: "'d link \<Rightarrow> int \<Rightarrow> 'd chain \<Rightarrow> bool \<times> 'd chain" where
  "wait_init_b L timeout_cycles c = (True, chain_idle L timeout_cycles c)"

section \<open>Programming\<close>

text \<open>Steps 2 to 5.  The result is whether the steps succeeded and the calls of the callback.\<close>

definition pl_configure ::
  "'d link \<Rightarrow> byte list \<Rightarrow> pl_config \<Rightarrow> 'd chain \<Rightarrow> (bool \<times> pl_config \<times> 'd chain \<times> (nat \<times> nat) list) option" where
  "pl_configure L body p c =
     do {
       (ok, p1, c1) \<leftarrow> load_instruction L JPROGRAM p c;
       if \<not> ok then Some (False, p1, c1, [])
       else do {
         let (_, c2) = wait_init_b L 600000 (chain_idle L 16 c1);
         (ok2, p2, c3) \<leftarrow> load_instruction L CFG_IN p1 c2;
         if \<not> ok2 then Some (False, p2, c3, [])
         else do {
           (ok3, c4) \<leftarrow> shift_payload L body p2 (chain_idle L 2 c3);
           if \<not> ok3
           then Some (False, p2\<lparr>pg_error := ''Bitstream DR shift failed: '' @ tap_error (jc_tap c4)\<rparr>, c4, [(0, length body)])
           else do {
             let ev = [(0, length body), (length body, length body)];
             (ok4, p3, c5) \<leftarrow> load_instruction L JSTART p2 c4;
             if \<not> ok4 then Some (False, p3, c5, ev)
             else do {
               (ok5, p4, c6) \<leftarrow> load_instruction L PL_BYPASS p3 (chain_idle L 16384 c5);
               if \<not> ok5 then Some (False, p4, c6, ev) else Some (True, p4, chain_idle L 16 c6, ev)
             }
           }
         }
       }
     }"

text \<open>Step 6: at most \<open>n\<close> attempts; the last status that was read and whether one was not 0.  \<open>Inl\<close> is
  the status that ends the poll with DONE.\<close>

definition no_status :: pl_status where
  "no_status = \<lparr>ps_done = False, ps_release_done = False, ps_init_b = False, ps_init_complete = False, ps_eos = False,
                ps_crc_error = False, ps_raw = 0\<rparr>"

fun pl_poll ::
  "'d link \<Rightarrow> nat \<Rightarrow> pl_status \<Rightarrow> bool \<Rightarrow> pl_config \<Rightarrow> 'd chain
     \<Rightarrow> ((pl_status + pl_status \<times> bool) \<times> pl_config \<times> 'd chain) option" where
  "pl_poll L 0 st any_nonzero p c = Some (Inr (st, any_nonzero), p, c)"
| "pl_poll L (Suc n) st any_nonzero p c =
     do {
       (r, p1, c1) \<leftarrow> read_pl_status L p c;
       case r of
         None \<Rightarrow> pl_poll L n st any_nonzero p1 (chain_idle L 6000 c1)
       | Some s \<Rightarrow>
           let nz = (any_nonzero \<or> ps_raw s \<noteq> 0)
           in if ps_done s then Some (Inl s, p1, c1)
              else if ps_crc_error s then Some (Inr (s, nz), p1, c1)
              else pl_poll L n s nz p1 (chain_idle L 6000 c1)
     }"

definition digit_of :: "bool \<Rightarrow> string" where
  "digit_of b = (if b then ''1'' else ''0'')"

definition pl_verdict :: "pl_status + pl_status \<times> bool \<Rightarrow> bool \<times> string" where
  "pl_verdict r =
     (case r of
        Inl s \<Rightarrow> (True, ''OK (STAT=0x'' @ hex_fmt 8 (unat (ps_raw s)) @ '' DONE=1 INIT_B='' @ digit_of (ps_init_b s) @
                        '' EOS='' @ digit_of (ps_eos s) @ '')'')
      | Inr (st, any_nonzero) \<Rightarrow>
          if ps_crc_error st
          then (False, ''Configuration failed: CRC error (STAT=0x'' @ hex_fmt 8 (unat (ps_raw st)) @ '')'')
          else if \<not> any_nonzero then (True, ''OK (config port locked post-DONE; STAT readback returns 0)'')
          else if ps_raw st = 0 then (True, ''OK (DONE asserted between polls; config port now locked)'')
          else (False, ''Configuration failed: DONE not asserted (STAT=0x'' @ hex_fmt 8 (unat (ps_raw st)) @
                       '' INIT_B='' @ digit_of (ps_init_b st) @ '' INIT_COMPLETE='' @ digit_of (ps_init_complete st) @
                       '' EOS='' @ digit_of (ps_eos st) @ '' CRC_ERR='' @ digit_of (ps_crc_error st) @ '')''))"

definition pl_program ::
  "'d link \<Rightarrow> string \<Rightarrow> byte list option \<Rightarrow> pl_config \<Rightarrow> 'd chain
     \<Rightarrow> (bool \<times> pl_config \<times> 'd chain \<times> (nat \<times> nat) list) option" where
  "pl_program L path file p c =
     (case load_bitstream file of
        None \<Rightarrow> Some (False, p\<lparr>pg_error := ''Failed to load bitstream: '' @ path\<rparr>, c, [])
      | Some body \<Rightarrow>
          if body = [] then Some (False, p\<lparr>pg_error := ''Empty bitstream''\<rparr>, c, [])
          else do {
            (ok, p1, c1, ev) \<leftarrow> pl_configure L body p c;
            if \<not> ok then Some (False, p1, c1, ev)
            else do {
              (r, p2, c2) \<leftarrow> pl_poll L 10 no_status False p1 c1;
              Some (fst (pl_verdict r), p2\<lparr>pg_error := snd (pl_verdict r)\<rparr>, c2, ev)
            }
          })"

section \<open>Bit order\<close>

text \<open>One swap step: groups of \<open>n\<close> bits selected by a mask move down, the others up.\<close>

lemma swap_step:
  fixes b :: byte
  shows "bit (drop_bit n (b AND m) OR push_bit n (b AND k)) i \<longleftrightarrow>
     bit b (n + i) \<and> bit m (n + i) \<or> n \<le> i \<and> i < 8 \<and> bit b (i - n) \<and> bit k (i - n)"
  by (auto simp only: bit_or_iff bit_and_iff bit_drop_bit_eq bit_push_bit_iff possible_bit_word comp_apply) auto

lemma masks:
  "bit (0xF0 :: byte) i \<longleftrightarrow> i \<in> {4, 5, 6, 7}" "bit (0x0F :: byte) i \<longleftrightarrow> i \<in> {0, 1, 2, 3}"
  "bit (0xCC :: byte) i \<longleftrightarrow> i \<in> {2, 3, 6, 7}" "bit (0x33 :: byte) i \<longleftrightarrow> i \<in> {0, 1, 4, 5}"
  "bit (0xAA :: byte) i \<longleftrightarrow> i \<in> {1, 3, 5, 7}" "bit (0x55 :: byte) i \<longleftrightarrow> i \<in> {0, 2, 4, 6}"
proof -
  have eq: "bit m i \<longleftrightarrow> i \<in> set xs" if "list_all (\<lambda>i. bit m i = (i \<in> set xs)) [0..<8]" "set xs \<subseteq> {..<8}" for m :: byte and xs
  proof (cases "i < 8")
    case True
    with that(1) show ?thesis by (simp add: list_all_iff)
  next
    case False
    then have "\<not> bit m i" using bit_imp_le_length [of m i] by auto
    with False that(2) show ?thesis by auto
  qed
  show "bit (0xF0 :: byte) i \<longleftrightarrow> i \<in> {4, 5, 6, 7}" using eq [of "0xF0" "[4, 5, 6, 7]"] by (simp add: upt_rec)
  show "bit (0x0F :: byte) i \<longleftrightarrow> i \<in> {0, 1, 2, 3}" using eq [of "0x0F" "[0, 1, 2, 3]"] by (simp add: upt_rec)
  show "bit (0xCC :: byte) i \<longleftrightarrow> i \<in> {2, 3, 6, 7}" using eq [of "0xCC" "[2, 3, 6, 7]"] by (simp add: upt_rec)
  show "bit (0x33 :: byte) i \<longleftrightarrow> i \<in> {0, 1, 4, 5}" using eq [of "0x33" "[0, 1, 4, 5]"] by (simp add: upt_rec)
  show "bit (0xAA :: byte) i \<longleftrightarrow> i \<in> {1, 3, 5, 7}" using eq [of "0xAA" "[1, 3, 5, 7]"] by (simp add: upt_rec)
  show "bit (0x55 :: byte) i \<longleftrightarrow> i \<in> {0, 2, 4, 6}" using eq [of "0x55" "[0, 2, 4, 6]"] by (simp add: upt_rec)
qed

lemma bit_reverse_bits:
  "bit (bit_reverse_byte b) 0 = bit b 7" "bit (bit_reverse_byte b) 1 = bit b 6"
  "bit (bit_reverse_byte b) 2 = bit b 5" "bit (bit_reverse_byte b) 3 = bit b 4"
  "bit (bit_reverse_byte b) 4 = bit b 3" "bit (bit_reverse_byte b) 5 = bit b 2"
  "bit (bit_reverse_byte b) 6 = bit b 1" "bit (bit_reverse_byte b) 7 = bit b 0"
  unfolding bit_reverse_byte_def Let_def swap_step masks by simp_all

lemma bit_reverse_byte: "map (bit (bit_reverse_byte b)) [0..<8] = msb_bits b"
  using bit_reverse_bits [of b] by (simp add: msb_bits_def upt_rec numeral_eq_Suc)

lemma buf_bits_concat: "buf_bits xs (8 * length xs) = concat (map (\<lambda>b. map (bit b) [0..<8]) xs)"
proof (induction xs)
  case (Cons x xs)
  have "buf_bits (x # xs) (8 + 8 * length xs) = buf_bits (x # xs) 8 @ map (\<lambda>i. buf_bit (x # xs) (8 + i)) [0..<8 * length xs]"
    by (rule buf_bits_add)
  also have "buf_bits (x # xs) 8 = map (bit x) [0..<8]" by (simp add: buf_bits_def buf_bit_def)
  also have "map (\<lambda>i. buf_bit (x # xs) (8 + i)) [0..<8 * length xs] = buf_bits xs (8 * length xs)"
  proof -
    have "(8 + i) div 8 = Suc (i div 8)" "(8 + i) mod 8 = i mod 8" for i :: nat by simp_all
    then show ?thesis by (simp add: buf_bits_def buf_bit_def)
  qed
  finally show ?case using Cons.IH by simp
qed (simp add: buf_bits_def)

lemma buf_bits_reversed: "buf_bits (map bit_reverse_byte xs) (8 * length xs) = concat (map msb_bits xs)"
  using buf_bits_concat [of "map bit_reverse_byte xs"] by (simp add: bit_reverse_byte comp_def)

section \<open>With a working probe\<close>

text \<open>The probe carries out every command, the controller is in step with the TAP, and the target is in the
  chain.\<close>

definition pl_ready :: "'d link \<Rightarrow> ('d \<Rightarrow> tap_state \<times> bool) \<Rightarrow> pl_config \<Rightarrow> 'd chain \<Rightarrow> bool" where
  "pl_ready L phys p c \<longleftrightarrow>
     always_ok L \<and> drives_tap L phys \<and> in_sync phys (jc_tap c) \<and> valid_index c (pg_index p) \<and>
     (\<forall>dev \<in> set (jc_devices c). cd_ir_length dev \<le> 32) \<and> 0 < total_ir_length c"

lemma pl_ready_tap: "pl_ready L phys p c \<Longrightarrow> in_sync phys t \<Longrightarrow> pl_ready L phys p (c\<lparr>jc_tap := t\<rparr>)"
  by (simp add: pl_ready_def valid_index_def total_ir_length_def)

lemma load_instruction_ready:
  assumes "pl_ready L phys p c"
  obtains c' where "load_instruction L op p c = Some (True, p, c')" "select_instruction L (pg_index p) op c = Some (True, c')"
    "pl_ready L phys p c'" "jc_devices c' = jc_devices c"
proof -
  obtain t where t: "select_instruction L (pg_index p) op c = Some (True, c\<lparr>jc_tap := t\<rparr>)"
    using select_instruction_succeeds [of L c "pg_index p" op] assms by (auto simp: pl_ready_def)
  moreover have "in_sync phys t" using select_instruction_sync [OF t] assms by (simp add: pl_ready_def)
  ultimately show ?thesis using that pl_ready_tap [OF assms] by (simp add: load_instruction_def)
qed

lemma chain_idle_ready:
  assumes "pl_ready L phys p c"
  shows "pl_ready L phys p (chain_idle L n c)" and "jc_devices (chain_idle L n c) = jc_devices c"
proof -
  have "always_ok L" "drives_tap L phys" "in_sync phys (jc_tap c)" using assms by (simp_all add: pl_ready_def)
  moreover from this(1) obtain t where t: "tap_clk_idle L n (jc_tap c) = (True, t)" using tap_clk_idle_succeeds by blast
  ultimately have "in_sync phys t" using tap_clk_idle_ok(2) by blast
  with t pl_ready_tap [OF assms] show "pl_ready L phys p (chain_idle L n c)" by (simp add: chain_idle_def)
qed (simp add: chain_idle_def)

lemma filter_neq_upt: "k < n \<Longrightarrow> length (filter (\<lambda>i. i \<noteq> k) [0..<n]) = n - 1"
proof -
  assume k: "k < n"
  then have "[0..<n] = [0..<k] @ k # [Suc k..<n]" using upt_add_eq_append [of 0 k "n - k"] upt_conv_Cons [of k n] by simp
  moreover have "filter (\<lambda>i. i \<noteq> k) [0..<k] = [0..<k]" "filter (\<lambda>i. i \<noteq> k) [Suc k..<n] = [Suc k..<n]"
    by (auto simp: filter_id_conv)
  ultimately show ?thesis using k by simp
qed

lemma bypass_count_overhead:
  assumes "valid_index c (pg_index p)"
  shows "bypass_count p c = dr_overhead c"
proof -
  have k: "nat (pg_index p) < length (jc_devices c)" using assms by (auto simp: valid_index_def)
  have "filter (\<lambda>i. int i \<noteq> pg_index p) [0..<length (jc_devices c)]
      = filter (\<lambda>i. i \<noteq> nat (pg_index p)) [0..<length (jc_devices c)]"
    using assms by (intro filter_cong) (auto simp: valid_index_def)
  then show ?thesis by (simp add: bypass_count_def dr_overhead_def filter_neq_upt [OF k])
qed

lemma payload_bits:
  "buf_bits (resize_bytes (bytes_for (8 * length body + k)) body) (8 * length body + k)
     = buf_bits body (8 * length body) @ replicate k False"
proof -
  have len: "length body \<le> bytes_for (8 * length body + k)"
    using bytes_for_mono [of "8 * length body" "8 * length body + k"] by simp
  have "map (\<lambda>i. buf_bit body (8 * length body + i)) [0..<k] = replicate k False"
    by (intro replicate_eqI) (auto simp: buf_bit_def)
  then show ?thesis by (simp add: buf_bits_def buf_bit_resize_grow [OF len] buf_bits_add [unfolded buf_bits_def])
qed

lemma shift_payload_ready:
  assumes r: "pl_ready L phys p c" and body: "body \<noteq> []"
  obtains c' where "shift_payload L body p c = Some (True, c')" "pl_ready L phys p c'" "jc_devices c' = jc_devices c"
    "shift_dr_write L (Some (resize_bytes (bytes_for (8 * length body + dr_overhead c)) body))
       (int (8 * length body + dr_overhead c)) (jc_tap c) = Some (True, jc_tap c')"
proof -
  let ?n = "8 * length body + dr_overhead c"
  let ?d = "Some (resize_bytes (bytes_for ?n) body)"
  have "valid_index c (pg_index p)" using r by (simp add: pl_ready_def)
  then have v: "bypass_count p c = dr_overhead c" by (rule bypass_count_overhead)
  have len: "length body \<le> bytes_for ?n" using bytes_for_mono [of "8 * length body" ?n] by simp
  have rd: "readable ?d ?n" using len by (simp add: readable_def resize_bytes_def)
  have n: "0 < ?n" using body by simp
  have L: "always_ok L" "drives_tap L phys" "in_sync phys (jc_tap c)" using r by (simp_all add: pl_ready_def)
  obtain t where t: "shift_dr_write L ?d (int ?n) (jc_tap c) = Some (True, t)"
    using shift_dr_succeeds(2) [OF L(1) n rd] by blast
  have "in_sync phys t" by (rule shift_dr_write_ok(2) [OF t L(2,3) rd])
  then have "pl_ready L phys p (c\<lparr>jc_tap := t\<rparr>)" by (rule pl_ready_tap [OF r])
  moreover have "shift_payload L body p c = Some (True, c\<lparr>jc_tap := t\<rparr>)" using t by (simp add: shift_payload_def v)
  ultimately show ?thesis using that t by simp
qed

lemma stat_packet_not_Nil: "stat_read_packet \<noteq> []"
  by (simp add: stat_read_packet_def)

lemma pl_configure_ready:
  assumes r: "pl_ready L phys p c" and body: "body \<noteq> []"
  obtains c1 c2 c3 c' where
    "pl_configure L body p c = Some (True, p, c', [(0, length body), (length body, length body)])"
    "pl_ready L phys p c'" "jc_devices c' = jc_devices c" "select_instruction L (pg_index p) CFG_IN c1 = Some (True, c2)"
    "shift_dr_write L (Some (resize_bytes (bytes_for (8 * length body + dr_overhead c)) body))
       (int (8 * length body + dr_overhead c)) (jc_tap (chain_idle L 2 c2)) = Some (True, c3)"
proof -
  obtain a where a: "load_instruction L JPROGRAM p c = Some (True, p, a)" "pl_ready L phys p a" "jc_devices a = jc_devices c"
    using load_instruction_ready [OF r] by blast
  let ?b = "chain_idle L 600000 (chain_idle L 16 a)"
  have b: "pl_ready L phys p ?b" "jc_devices ?b = jc_devices c"
    using chain_idle_ready [OF chain_idle_ready(1) [OF a(2)]] chain_idle_ready(2) [OF a(2)] a(3) by simp_all
  obtain d where d: "load_instruction L CFG_IN p ?b = Some (True, p, d)" "select_instruction L (pg_index p) CFG_IN ?b = Some (True, d)"
      "pl_ready L phys p d" "jc_devices d = jc_devices ?b"
    using load_instruction_ready [OF b(1)] by blast
  let ?e = "chain_idle L 2 d"
  have e: "pl_ready L phys p ?e" "jc_devices ?e = jc_devices c" using chain_idle_ready [OF d(3)] d(4) b(2) by simp_all
  have over: "dr_overhead ?e = dr_overhead c" using e(2) by (simp add: dr_overhead_def)
  obtain f where f: "shift_payload L body p ?e = Some (True, f)" "pl_ready L phys p f" "jc_devices f = jc_devices ?e"
      "shift_dr_write L (Some (resize_bytes (bytes_for (8 * length body + dr_overhead c)) body))
        (int (8 * length body + dr_overhead c)) (jc_tap ?e) = Some (True, jc_tap f)"
    using shift_payload_ready [OF e(1) body] over by metis
  obtain g where g: "load_instruction L JSTART p f = Some (True, p, g)" "pl_ready L phys p g" "jc_devices g = jc_devices f"
    using load_instruction_ready [OF f(2)] by blast
  let ?h = "chain_idle L 16384 g"
  have h: "pl_ready L phys p ?h" "jc_devices ?h = jc_devices c" using chain_idle_ready [OF g(2)] g(3) f(3) e(2) by simp_all
  obtain k where k: "load_instruction L PL_BYPASS p ?h = Some (True, p, k)" "pl_ready L phys p k" "jc_devices k = jc_devices ?h"
    using load_instruction_ready [OF h(1)] by blast
  show ?thesis
  proof (rule that)
    show "pl_configure L body p c = Some (True, p, chain_idle L 16 k, [(0, length body), (length body, length body)])"
      by (simp add: pl_configure_def wait_init_b_def a(1) d(1) f(1) g(1) k(1))
    show "pl_ready L phys p (chain_idle L 16 k)" "jc_devices (chain_idle L 16 k) = jc_devices c"
      using chain_idle_ready [OF k(2)] k(3) h(2) by simp_all
  qed (fact d(2) f(4))+
qed

lemma read_data_dr_register:
  assumes "pl_ready L phys p c" and "replies_tdo L lvl" and "shows_chain phys lvl (concat regs)"
    and "chain_regs (length (jc_devices c)) (nat (pg_index p)) regs" and "length (regs ! nat (pg_index p)) = n" and "0 < n"
  obtains u c' where "read_data_dr L (pg_index p) (int n) [] c = Some (True, u, c')" "length u = bytes_for n"
    "buf_bits u n = regs ! nat (pg_index p)" "pl_ready L phys p c'"
proof -
  let ?k = "nat (pg_index p)" and ?m = "n + dr_overhead c"
  let ?z = "Some (replicate (bytes_for ?m) (0 :: byte))"
  have L: "always_ok L" "drives_tap L phys" "in_sync phys (jc_tap c)" "valid_index c (pg_index p)"
    using assms(1) by (simp_all add: pl_ready_def)
  have z: "readable ?z ?m" "0 < ?m" using assms(6) by (simp_all add: readable_def)
  obtain v t where v: "shift_dr L ?z [] (int ?m) (jc_tap c) = Some (True, v, t)"
    using shift_dr_succeeds(1) [OF L(1) z(2,1)] by blast
  have t: "in_sync phys t" by (rule shift_dr_ok(2) [OF v L(2,3) z(1)])
  obtain d where d: "length v = bytes_for ?m" "fst (phys d) = SHIFT_DR" "\<forall>i. buf_bit v i \<longleftrightarrow> i < ?m \<and> lvl d i"
    using shift_dr_tdo [OF v L(2) assms(2) L(3) z(1)] by auto
  have "buf_bits (extract_bits v ?k n (replicate (bytes_for n) 0)) n = take n (regs ! ?k)"
    using d assms(3-5) by (intro extract_register [where lvl = lvl and d = d]) (simp_all add: dr_overhead_def)
  moreover have "read_data_dr L (pg_index p) (int n) [] c
      = Some (True, extract_bits v ?k n (replicate (bytes_for n) 0), c\<lparr>jc_tap := t\<rparr>)"
    using v L(4) assms(6) by (simp add: read_data_dr_def)
  moreover have "pl_ready L phys p (c\<lparr>jc_tap := t\<rparr>)" by (rule pl_ready_tap [OF assms(1) t])
  ultimately show ?thesis using that assms(5) by (simp add: extract_bits_def)
qed

lemma read_pl_status_ready:
  assumes r: "pl_ready L phys p c" and "replies_tdo L lvl" and "shows_chain phys lvl (concat regs)"
    and "chain_regs (length (jc_devices c)) (nat (pg_index p)) regs" and "length (regs ! nat (pg_index p)) = 32"
  obtains c' where "read_pl_status L p c = Some (Some (decode_status (word_of_bits (\<lambda>i. regs ! nat (pg_index p) ! i) 32)), p, c')"
    "pl_ready L phys p c'"
proof -
  obtain a where a: "load_instruction L CFG_IN p c = Some (True, p, a)" "pl_ready L phys p a" "jc_devices a = jc_devices c"
    using load_instruction_ready [OF r] by blast
  obtain b where b: "shift_payload L stat_read_packet p (chain_idle L 16 a) = Some (True, b)" "pl_ready L phys p b"
      "jc_devices b = jc_devices c"
    using shift_payload_ready [OF chain_idle_ready(1) [OF a(2)] stat_packet_not_Nil] chain_idle_ready(2) [OF a(2)] a(3) by metis
  note b' = chain_idle_ready [OF b(2), where n = 16]
  obtain d where d: "load_instruction L CFG_OUT p (chain_idle L 16 b) = Some (True, p, d)" "pl_ready L phys p d"
      "jc_devices d = jc_devices (chain_idle L 16 b)"
    using load_instruction_ready [OF b'(1)] by blast
  note d' = chain_idle_ready [OF d(2), where n = 16]
  have regs: "chain_regs (length (jc_devices (chain_idle L 16 d))) (nat (pg_index p)) regs"
    using assms(4) by (simp add: d'(2) d(3) b'(2) b(3))
  obtain u e where e: "read_data_dr L (pg_index p) (int 32) [] (chain_idle L 16 d) = Some (True, u, e)" "length u = bytes_for 32"
      "buf_bits u 32 = regs ! nat (pg_index p)" "pl_ready L phys p e"
    by (rule read_data_dr_register [OF d'(1) assms(2,3) regs assms(5)]) simp
  have "buf_bit u i = regs ! nat (pg_index p) ! i" if "i < 32" for i using e(3) that by (metis nth_buf_bits)
  then have "(word_of_bits (buf_bit u) 32 :: u32) = word_of_bits (\<lambda>i. regs ! nat (pg_index p) ! i) 32"
    by (intro word_eq_bitsI) (simp add: bit_word_of_bits)
  moreover have "min 32 (8 * length u) = 32" using e(2) by (simp add: bytes_for_def)
  ultimately have "read_pl_status L p c
      = Some (Some (decode_status (word_of_bits (\<lambda>i. regs ! nat (pg_index p) ! i) 32)), p, e)"
    using a(1) b(1) d(1) e(1) by (simp add: read_pl_status_def)
  with e(4) that show ?thesis by blast
qed

text \<open>A probe that has died: from the states in \<open>D\<close> no transfer succeeds any more.\<close>

definition dead :: "'d link \<Rightarrow> ('d \<Rightarrow> bool) \<Rightarrow> bool" where
  "dead L D \<longleftrightarrow> (\<forall>d cmd. D d \<longrightarrow> \<not> fst (lk_transfer L d cmd) \<and> D (snd (snd (lk_transfer L d cmd))))"

lemma dead_write:
  assumes "dead L D" and "D (tap_dev t)"
  shows "\<not> fst (tap_write L cmd t)" and "D (tap_dev (snd (tap_write L cmd t)))"
  using assms by (simp_all add: dead_def tap_write_def lk_write_def split_beta)

lemma dead_goto:
  assumes "dead L D" and "D (tap_dev t)"
  shows "D (tap_dev (snd (tap_goto L s t)))"
  using assms(2) dead_write [OF assms] by (simp add: tap_goto_def Let_def split_beta)

lemma dead_idle:
  assumes "dead L D" and "D (tap_dev t)"
  shows "D (tap_dev (snd (tap_clk_idle L n t)))"
proof -
  obtain ok t1 where g: "tap_goto L RUN_TEST_IDLE t = (ok, t1)" by (cases "tap_goto L RUN_TEST_IDLE t")
  then have t1: "D (tap_dev t1)" using dead_goto [OF assms, of RUN_TEST_IDLE] by simp
  have "D (tap_dev (snd (clk_idle_loop L k t1)))" for k
    using dead_write [OF assms(1) t1] t1 by (subst clk_idle_loop.simps) (simp add: Let_def split_beta)
  with g t1 show ?thesis by (simp add: tap_clk_idle_def)
qed

lemma dead_shift:
  assumes "dead L D" and "D (tap_dev t)" and "do_shift L tdi tdo (int n) rb t = Some (ok, u, t')" and "0 < n"
  shows "\<not> ok \<and> D (tap_dev t')"
  using assms(3,4) dead_write [OF assms(1,2)] assms(1,2)
  by (auto simp: do_shift_def dead_def Let_def split_beta split: if_splits bind_splits)

lemma dead_select:
  assumes "dead L D" and "D (tap_dev (jc_tap c))" and "\<forall>dev \<in> set (jc_devices c). cd_ir_length dev \<le> 32"
  shows "\<exists>c'. select_instruction L k op c = Some (False, c') \<and> D (tap_dev (jc_tap c')) \<and> jc_devices c' = jc_devices c"
proof (cases "valid_index c k")
  case False
  with assms(2) show ?thesis by (simp add: select_instruction_def)
next
  case True
  let ?n = "total_ir_length c"
  obtain data where d: "ir_fill (nat k) op 0 0 (jc_devices c) (replicate (bytes_for ?n) 0) = Some data"
    using ir_fill_defined [OF assms(3)] by blast
  have rd: "readable (Some data) ?n"
    using ir_fill_correct [OF d] bytes_for_ge [of ?n] by (simp add: readable_def total_ir_length_def)
  have "\<exists>t'. shift_ir L (Some data) (int ?n) (jc_tap c) = Some (False, t') \<and> D (tap_dev t')"
  proof (cases "?n = 0")
    case True
    then show ?thesis using assms(2) by (simp add: shift_ir_def)
  next
    case False
    obtain ok t1 where g: "tap_goto L SHIFT_IR (jc_tap c) = (ok, t1)" by (cases "tap_goto L SHIFT_IR (jc_tap c)")
    then have t1: "D (tap_dev t1)" using dead_goto [OF assms(1,2), of SHIFT_IR] by simp
    obtain cmd where "scan_cmd (Some data) ?n False mpsse_empty = Some cmd"
      using scan_cmd_cmds [OF _ rd] False by blast
    then have "do_shift L (Some data) [] (int ?n) False t1 =
        Some (fst (tap_write L (send_immediate cmd) t1), [], snd (tap_write L (send_immediate cmd) t1))"
      using False by (simp add: do_shift_def split_beta Let_def)
    then obtain r where r: "do_shift L (Some data) [] (int ?n) False t1 = Some r" by blast
    obtain ok2 u t2 where r': "r = (ok2, u, t2)" by (cases r)
    have "\<not> ok2 \<and> D (tap_dev t2)" using dead_shift [OF assms(1) t1] r False unfolding r' by blast
    with g t1 r False show ?thesis by (cases ok) (simp_all add: shift_ir_def r')
  qed
  with True d show ?thesis by (auto simp: select_instruction_def)
qed

lemma dead_status:
  assumes "dead L D" and "D (tap_dev (jc_tap c))" and "\<forall>dev \<in> set (jc_devices c). cd_ir_length dev \<le> 32"
  shows "\<exists>p' c'. read_pl_status L p c = Some (None, p', c') \<and> D (tap_dev (jc_tap c')) \<and> jc_devices c' = jc_devices c"
  using dead_select [OF assms, of "pg_index p" CFG_IN] by (auto simp: read_pl_status_def load_instruction_def)

lemma dead_poll:
  assumes "dead L D"
  shows "D (tap_dev (jc_tap c)) \<Longrightarrow> \<forall>dev \<in> set (jc_devices c). cd_ir_length dev \<le> 32 \<Longrightarrow>
     \<exists>p' c'. pl_poll L n st nz p c = Some (Inr (st, nz), p', c')"
proof (induction n arbitrary: p c)
  case (Suc n)
  obtain p' c' where r: "read_pl_status L p c = Some (None, p', c')" "D (tap_dev (jc_tap c'))" "jc_devices c' = jc_devices c"
    using dead_status [OF assms Suc.prems] by blast
  have "D (tap_dev (jc_tap (chain_idle L 6000 c')))" using dead_idle [OF assms r(2)] by (simp add: chain_idle_def)
  moreover have "jc_devices (chain_idle L 6000 c') = jc_devices c" using r(3) by (simp add: chain_idle_def)
  ultimately show ?case using Suc.IH Suc.prems(2) r(1) by simp
qed simp

section \<open>Properties\<close>

lemma sync_at_bound: "sync_at raw i \<Longrightarrow> i < length raw - 3"
proof -
  assume "sync_at raw i"
  then have "length (take 4 (drop i raw)) = 4" by (simp add: sync_at_def)
  then show ?thesis by simp
qed

text \<open>A bitstream is loaded from its first sync word on (from the start of the file when it has none),
  and its bits, in the order the shift register sends them, are the bits of the file with the most
  significant bit of every byte first.\<close>

theorem load_bitstream_msb_first:
  assumes "load_bitstream (Some raw) = Some body"
  shows "\<exists>k. length body = length raw - k \<and>
           buf_bits body (8 * length body) = concat (map msb_bits (drop k raw)) \<and>
           (if \<exists>i. sync_at raw i then sync_at raw k \<and> (\<forall>i < k. \<not> sync_at raw i) else k = 0)"
proof (intro exI conjI)
  have body: "body = map bit_reverse_byte (drop (sync_start raw) raw)"
    using assms by (simp add: load_bitstream_def split: if_splits)
  then show "length body = length raw - sync_start raw" by simp
  show "buf_bits body (8 * length body) = concat (map msb_bits (drop (sync_start raw) raw))"
    using buf_bits_reversed [of "drop (sync_start raw) raw"] by (simp add: body)
  show "if \<exists>i. sync_at raw i then sync_at raw (sync_start raw) \<and> (\<forall>i < sync_start raw. \<not> sync_at raw i)
        else sync_start raw = 0"
  proof (cases "List.find (sync_at raw) [0..<length raw - 3]")
    case None
    then have "\<not> sync_at raw i" for i using sync_at_bound [of raw i] by (auto simp: find_None_iff)
    with None show ?thesis by (simp add: sync_start_def)
  next
    case (Some k)
    then have "sync_start raw = k" by (simp add: sync_start_def)
    moreover have "sync_at raw k \<and> (\<forall>i < k. \<not> sync_at raw i)" using Some by (auto simp: find_Some_iff)
    ultimately show ?thesis by auto
  qed
qed

lemma load_bitstream_msb_first_witness:
  "\<exists>k. (2 :: nat) \<le> 6 - k \<and> sync_at [0, 7, 0xAA, 0x99, 0x55, 0x66] k"
proof -
  let ?raw = "[0, 7, 0xAA, 0x99, 0x55, 0x66] :: byte list"
  have s: "sync_at ?raw 2" by (simp add: sync_at_def)
  obtain body where "load_bitstream (Some ?raw) = Some body" by (simp add: load_bitstream_def)
  from load_bitstream_msb_first [OF this] s obtain k where "sync_at ?raw k" by metis
  with sync_at_bound [OF this] show ?thesis by (intro exI [of _ k]) simp
qed


definition demo_pl :: pl_config where
  "demo_pl = \<lparr>pg_index = 0, pg_error = []\<rparr>"

lemma demo_pl_ready: "pl_ready (chain_link bs) id demo_pl (two_dev_chain n)"
  using chain_link_always_ok chain_link_ok(1) two_dev_chain_sync
  by (simp add: pl_ready_def demo_pl_def two_dev_chain_def valid_index_def total_ir_length_def new_device_def)


text \<open>With a working probe \<open>readStatus\<close> returns the decoded 32-bit word that the addressed device has in
  its configuration output register, whatever its position in the chain.\<close>

theorem read_status_returns_register:
  assumes "pl_ready L phys p c" and "replies_tdo L lvl" and "shows_chain phys lvl (concat regs)"
    and "chain_regs (length (jc_devices c)) (nat (pg_index p)) regs" and "length (regs ! nat (pg_index p)) = 32"
  shows "\<exists>s c'. read_pl_status L p c = Some (Some s, p, c') \<and> pl_ready L phys p c' \<and>
           map (bit (ps_raw s)) [0..<32] = regs ! nat (pg_index p) \<and>
           ps_done s = regs ! nat (pg_index p) ! 14 \<and> ps_crc_error s = regs ! nat (pg_index p) ! 0"
proof -
  let ?r = "regs ! nat (pg_index p)"
  obtain c' where c': "read_pl_status L p c = Some (Some (decode_status (word_of_bits (\<lambda>i. ?r ! i) 32)), p, c')" "pl_ready L phys p c'"
    by (rule read_pl_status_ready [OF assms])
  moreover have "map (bit (word_of_bits (\<lambda>i. ?r ! i) 32 :: u32)) [0..<32] = ?r"
    using assms(5) by (intro nth_equalityI) (simp_all add: bit_word_of_bits)
  ultimately show ?thesis by (auto simp: decode_status_def bit_word_of_bits STAT_DONE_def STAT_CRC_ERROR_def)
qed

lemma read_status_returns_register_witness:
  "\<exists>s c'. read_pl_status (chain_link (concat [map (bit (0x5000 :: u32)) [0..<32], [False]])) demo_pl (two_dev_chain 8)
            = Some (Some s, demo_pl, c') \<and> ps_done s"
proof -
  let ?regs = "[map (bit (0x5000 :: u32)) [0..<32], [False]]"
  have r: "chain_regs (length (jc_devices (two_dev_chain 8))) (nat (pg_index demo_pl)) ?regs"
    by (auto simp: chain_regs_def two_dev_chain_def demo_pl_def less_Suc_eq)
  have "bit (0x5000 :: u32) 14" by code_simp
  then show ?thesis
    using read_status_returns_register [OF demo_pl_ready chain_link_ok(2,3) r] by (auto simp: demo_pl_def)
qed



end
