(* ===== verification/Spi_Flash.thy ===== *)
theory Spi_Flash
  imports Tap_Controller
begin

text \<open>
  src/src/flash/spi_flash.{h,cpp}: the driver of an MT25QL128 SPI flash behind a bridge.

  The interface \<open>IFlashBridge\<close> is a record of functions on the bridge's state; \<open>transfer\<close> returns its
  verdict, the received bytes and the new state, or \<open>None\<close> when the bridge itself runs into undefined
  behaviour.  Reading past the received bytes is undefined (\<open>None\<close>).  The clock of \<open>waitWipClear\<close> is the
  number of status reads that end before the timeout.

  \<open>spi_bridge\<close> is the contract the driver relies on.  \<open>nor_cmd\<close> is the documented behaviour of the chip, one
  transaction at a time, and \<open>drives_nor\<close> says that a bridge has such a chip behind it.
\<close>

unbundle bit_operations_syntax

section \<open>The bridge interface\<close>

record 's bridge_ops =
  br_transfer :: "'s \<Rightarrow> byte list \<Rightarrow> (bool \<times> byte list \<times> 's) option"
  br_error :: "'s \<Rightarrow> string"

record 's mt25q =
  fl_bridge :: 's
  fl_error :: string

section \<open>Commands\<close>

definition JEDEC_MT25QL128 :: u32 where "JEDEC_MT25QL128 = 0x20BA18"
definition PAGE_SIZE :: nat where "PAGE_SIZE = 256"
definition CAPACITY_BYTES :: nat where "CAPACITY_BYTES = 16 * 1024 * 1024"
definition CMD_READ_ID :: byte where "CMD_READ_ID = 0x9F"
definition CMD_READ_STATUS :: byte where "CMD_READ_STATUS = 0x05"
definition CMD_WRITE_ENABLE :: byte where "CMD_WRITE_ENABLE = 0x06"
definition CMD_READ :: byte where "CMD_READ = 0x03"
definition CMD_PAGE_PROGRAM :: byte where "CMD_PAGE_PROGRAM = 0x02"
definition CMD_BULK_ERASE :: byte where "CMD_BULK_ERASE = 0xC7"
definition STATUS_WIP :: byte where "STATUS_WIP = 0x01"

text \<open>One transfer; a failure leaves the caller's name and the bridge's message as the error.\<close>

definition fl_transfer :: "'s bridge_ops \<Rightarrow> string \<Rightarrow> byte list \<Rightarrow> 's mt25q \<Rightarrow> (byte list option \<times> 's mt25q) option" where
  "fl_transfer B name tx f =
     do {
       (ok, rx, s) \<leftarrow> br_transfer B (fl_bridge f) tx;
       if ok then Some (Some rx, f\<lparr>fl_bridge := s\<rparr>)
       else Some (None, f\<lparr>fl_bridge := s, fl_error := name @ '': '' @ br_error B s\<rparr>)
     }"

definition read_id :: "'s bridge_ops \<Rightarrow> 's mt25q \<Rightarrow> (u32 option \<times> 's mt25q) option" where
  "read_id B f =
     do {
       (r, f1) \<leftarrow> fl_transfer B ''readId'' [CMD_READ_ID, 0, 0, 0] f;
       case r of
         None \<Rightarrow> Some (None, f1)
       | Some rx \<Rightarrow> do {
           a \<leftarrow> mem_at rx 1; b \<leftarrow> mem_at rx 2; c \<leftarrow> mem_at rx 3;
           Some (Some (push_bit 16 (ucast a) OR push_bit 8 (ucast b) OR ucast c), f1)
         }
     }"

definition read_status :: "'s bridge_ops \<Rightarrow> 's mt25q \<Rightarrow> (byte option \<times> 's mt25q) option" where
  "read_status B f =
     do {
       (r, f1) \<leftarrow> fl_transfer B ''readStatus'' [CMD_READ_STATUS, 0] f;
       case r of None \<Rightarrow> Some (None, f1) | Some rx \<Rightarrow> do { sr \<leftarrow> mem_at rx 1; Some (Some sr, f1) }
     }"

definition write_enable :: "'s bridge_ops \<Rightarrow> 's mt25q \<Rightarrow> (bool \<times> 's mt25q) option" where
  "write_enable B f =
     do { (r, f1) \<leftarrow> fl_transfer B ''writeEnable'' [CMD_WRITE_ENABLE] f; Some (r \<noteq> None, f1) }"

fun wait_wip_clear :: "'s bridge_ops \<Rightarrow> nat \<Rightarrow> 's mt25q \<Rightarrow> (bool \<times> 's mt25q) option" where
  "wait_wip_clear B polls f =
     do {
       (r, f1) \<leftarrow> read_status B f;
       case r of
         None \<Rightarrow> Some (False, f1)
       | Some sr \<Rightarrow>
           if sr AND STATUS_WIP = 0 then Some (True, f1)
           else (case polls of
                   0 \<Rightarrow> Some (False, f1\<lparr>fl_error := ''waitWipClear: timeout''\<rparr>)
                 | Suc n \<Rightarrow> wait_wip_clear B n f1)
     }"

declare wait_wip_clear.simps [simp del]

definition bulk_erase :: "'s bridge_ops \<Rightarrow> nat \<Rightarrow> 's mt25q \<Rightarrow> (bool \<times> 's mt25q) option" where
  "bulk_erase B polls f =
     do {
       (ok, f1) \<leftarrow> write_enable B f;
       if \<not> ok then Some (False, f1)
       else do {
         (r, f2) \<leftarrow> fl_transfer B ''bulkErase'' [CMD_BULK_ERASE] f1;
         if r = None then Some (False, f2) else wait_wip_clear B polls f2
       }
     }"

text \<open>The 24-bit address, most significant byte first.\<close>

definition addr_bytes :: "u32 \<Rightarrow> byte list" where
  "addr_bytes addr = map (\<lambda>s. ucast (drop_bit s addr AND 0xFF)) [16, 8, 0]"

definition page_program :: "'s bridge_ops \<Rightarrow> nat \<Rightarrow> u32 \<Rightarrow> byte list \<Rightarrow> 's mt25q \<Rightarrow> (bool \<times> 's mt25q) option" where
  "page_program B polls addr bs f =
     (let n = length bs
      in if n = 0 \<or> PAGE_SIZE < n then Some (False, f\<lparr>fl_error := ''pageProgram: byte count out of range''\<rparr>)
         else if CAPACITY_BYTES < unat addr + n then Some (False, f\<lparr>fl_error := ''pageProgram: address out of range''\<rparr>)
         else do {
           (ok, f1) \<leftarrow> write_enable B f;
           if \<not> ok then Some (False, f1)
           else do {
             (r, f2) \<leftarrow> fl_transfer B ''pageProgram'' (CMD_PAGE_PROGRAM # addr_bytes addr @ bs) f1;
             if r = None then Some (False, f2) else wait_wip_clear B polls f2
           }
         })"

definition flash_read :: "'s bridge_ops \<Rightarrow> u32 \<Rightarrow> nat \<Rightarrow> 's mt25q \<Rightarrow> (byte list option \<times> 's mt25q) option" where
  "flash_read B addr n f =
     (if n = 0 then Some (Some [], f)
      else if CAPACITY_BYTES < unat addr + n then Some (None, f\<lparr>fl_error := ''read: address out of range''\<rparr>)
      else do {
        (r, f1) \<leftarrow> fl_transfer B ''read'' (CMD_READ # addr_bytes addr @ replicate n 0) f;
        case r of
          None \<Rightarrow> Some (None, f1)
        | Some rx \<Rightarrow> if length rx < 4 + n then None else Some (Some (take n (drop 4 rx)), f1)
      })"

section \<open>The contract of a bridge\<close>

text \<open>In a good state a non-empty transfer returns, keeps the state good, and on success has received one
  byte for every byte sent.\<close>

locale spi_bridge =
  fixes B :: "'s bridge_ops" and good :: "'s \<Rightarrow> bool"
  assumes transfer_returns:
    "good s \<Longrightarrow> tx \<noteq> [] \<Longrightarrow> length tx \<le> 2 ^ 24 + 4 \<Longrightarrow>
       \<exists>ok rx s'. br_transfer B s tx = Some (ok, rx, s') \<and> good s' \<and> (ok \<longrightarrow> length rx = length tx)"
begin

lemma fl_transfer_returns:
  assumes "good (fl_bridge f)" and "tx \<noteq> []" and "length tx \<le> 2 ^ 24 + 4"
  shows "\<exists>r f'. fl_transfer B name tx f = Some (r, f') \<and> good (fl_bridge f') \<and> (\<forall>rx. r = Some rx \<longrightarrow> length rx = length tx)"
proof -
  from transfer_returns [OF assms] obtain ok rx s' where
    "br_transfer B (fl_bridge f) tx = Some (ok, rx, s')" "good s'" "ok \<longrightarrow> length rx = length tx" by blast
  then show ?thesis by (simp add: fl_transfer_def)
qed

lemma read_id_returns: "good (fl_bridge f) \<Longrightarrow> \<exists>r f'. read_id B f = Some (r, f') \<and> good (fl_bridge f')"
  using fl_transfer_returns [of f "[CMD_READ_ID, 0, 0, 0]" "''readId''"]
  by (fastforce simp: read_id_def mem_at_def split: option.splits)

lemma read_status_returns: "good (fl_bridge f) \<Longrightarrow> \<exists>r f'. read_status B f = Some (r, f') \<and> good (fl_bridge f')"
  using fl_transfer_returns [of f "[CMD_READ_STATUS, 0]" "''readStatus''"]
  by (fastforce simp: read_status_def mem_at_def split: option.splits)

lemma write_enable_returns: "good (fl_bridge f) \<Longrightarrow> \<exists>r f'. write_enable B f = Some (r, f') \<and> good (fl_bridge f')"
  using fl_transfer_returns [of f "[CMD_WRITE_ENABLE]" "''writeEnable''"] by (fastforce simp: write_enable_def)

lemma wait_returns: "good (fl_bridge f) \<Longrightarrow> \<exists>r f'. wait_wip_clear B polls f = Some (r, f') \<and> good (fl_bridge f')"
proof (induction polls arbitrary: f)
  case 0
  with read_status_returns [OF 0] show ?case
    by (subst wait_wip_clear.simps) (auto split: option.splits)
next
  case (Suc n)
  from read_status_returns [OF Suc(2)] obtain r f1 where "read_status B f = Some (r, f1)" "good (fl_bridge f1)" by blast
  with Suc(1) [of f1] show ?case by (subst wait_wip_clear.simps) (auto split: option.splits)
qed

lemma bulk_erase_returns: "good (fl_bridge f) \<Longrightarrow> \<exists>r f'. bulk_erase B polls f = Some (r, f') \<and> good (fl_bridge f')"
proof -
  assume "good (fl_bridge f)"
  from write_enable_returns [OF this] obtain ok f1 where 1: "write_enable B f = Some (ok, f1)" "good (fl_bridge f1)" by blast
  from fl_transfer_returns [OF 1(2), of "[CMD_BULK_ERASE]" "''bulkErase''"] obtain r f2 where
    2: "fl_transfer B ''bulkErase'' [CMD_BULK_ERASE] f1 = Some (r, f2)" "good (fl_bridge f2)" by auto
  from wait_returns [OF 2(2)] 1 2 show ?thesis by (cases ok; cases r) (auto simp: bulk_erase_def)
qed

lemma page_program_returns:
  assumes g: "good (fl_bridge f)"
  shows "\<exists>r f'. page_program B polls addr bs f = Some (r, f') \<and> good (fl_bridge f')"
proof (cases "bs = [] \<or> PAGE_SIZE < length bs \<or> CAPACITY_BYTES < unat addr + length bs")
  case True
  with g show ?thesis by (auto simp: page_program_def Let_def)
next
  case False
  let ?tx = "CMD_PAGE_PROGRAM # addr_bytes addr @ bs"
  from write_enable_returns [OF g] obtain ok f1 where 1: "write_enable B f = Some (ok, f1)" "good (fl_bridge f1)" by blast
  from False have "length ?tx \<le> 2 ^ 24 + 4" by (simp add: addr_bytes_def PAGE_SIZE_def)
  from fl_transfer_returns [OF 1(2) _ this, of "''pageProgram''"] obtain r f2 where
    2: "fl_transfer B ''pageProgram'' ?tx f1 = Some (r, f2)" "good (fl_bridge f2)" by auto
  from wait_returns [OF 2(2)] 1 2 False show ?thesis by (cases ok; cases r) (auto simp: page_program_def Let_def)
qed

lemma flash_read_returns:
  assumes g: "good (fl_bridge f)"
  shows "\<exists>r f'. flash_read B addr n f = Some (r, f') \<and> good (fl_bridge f') \<and> (\<forall>bs. r = Some bs \<longrightarrow> length bs = n)"
proof (cases "n = 0 \<or> CAPACITY_BYTES < unat addr + n")
  case True
  with g show ?thesis by (auto simp: flash_read_def)
next
  case False
  let ?tx = "CMD_READ # addr_bytes addr @ replicate n 0"
  from False have "length ?tx \<le> 2 ^ 24 + 4" by (simp add: addr_bytes_def CAPACITY_BYTES_def)
  from fl_transfer_returns [OF g _ this, of "''read''"] obtain r f2 where
    2: "fl_transfer B ''read'' ?tx f = Some (r, f2)" "good (fl_bridge f2)" "\<forall>rx. r = Some rx \<longrightarrow> length rx = length ?tx" by auto
  with False show ?thesis by (cases r) (auto simp: flash_read_def addr_bytes_def)
qed

end

section \<open>The chip\<close>

text \<open>The part of an MT25QL128 that the driver uses: memory, write enable latch, and the number of status
  reads until an operation in progress ends (\<open>e\<close> after an erase, \<open>p\<close> after a page program).  A busy chip
  answers only status reads.  Programming clears bits and wraps inside the page.\<close>

record nor =
  nf_mem :: "nat \<Rightarrow> byte"
  nf_wel :: bool
  nf_busy :: nat

definition nor_addr :: "byte list \<Rightarrow> nat" where
  "nor_addr args = 65536 * unat (args ! 0) + 256 * unat (args ! 1) + unat (args ! 2)"

definition nor_program :: "nat \<Rightarrow> byte list \<Rightarrow> (nat \<Rightarrow> byte) \<Rightarrow> nat \<Rightarrow> byte" where
  "nor_program a bs m =
     fold (\<lambda>j m. let x = a div 256 * 256 + (a + j) mod 256 in m(x := m x AND bs ! j)) [0..<length bs] m"

definition nor_status :: "nor \<Rightarrow> byte" where
  "nor_status d = (if 0 < nf_busy d then 1 else 0) OR (if nf_wel d then 2 else 0)"

definition nor_cmd :: "nat \<Rightarrow> nat \<Rightarrow> byte list \<Rightarrow> nor \<Rightarrow> byte list \<times> nor" where
  "nor_cmd e p tx d =
     (let zeros = replicate (length tx) 0; args = tl tx
      in if tx = [] then (zeros, d)
         else if hd tx = 0x05 then (0 # replicate (length args) (nor_status d), d\<lparr>nf_busy := nf_busy d - 1\<rparr>)
         else if 0 < nf_busy d then (zeros, d)
         else if hd tx = 0x9F then (take (length tx) ([0, 0x20, 0xBA, 0x18] @ zeros), d)
         else if hd tx = 0x06 then (zeros, d\<lparr>nf_wel := True\<rparr>)
         else if hd tx = 0xC7 \<and> nf_wel d then (zeros, \<lparr>nf_mem = (\<lambda>_. 0xFF), nf_wel = False, nf_busy = e\<rparr>)
         else if hd tx = 0x02 \<and> nf_wel d \<and> 3 < length args
              then (zeros, \<lparr>nf_mem = nor_program (nor_addr args) (drop 3 args) (nf_mem d), nf_wel = False, nf_busy = p\<rparr>)
         else if hd tx = 0x03 \<and> 3 \<le> length args
              then ([0, 0, 0, 0] @ map (\<lambda>i. nf_mem d (nor_addr args + i)) [0..<length args - 3], d)
         else (zeros, d))"

text \<open>The bridge has the chip behind it: a successful transfer is one transaction; \<open>sure\<close>: none fails.\<close>

definition drives_nor :: "'s bridge_ops \<Rightarrow> ('s \<Rightarrow> bool) \<Rightarrow> ('s \<Rightarrow> nor) \<Rightarrow> nat \<Rightarrow> nat \<Rightarrow> bool \<Rightarrow> bool" where
  "drives_nor B good chip e p sure \<longleftrightarrow>
     (\<forall>s tx. good s \<longrightarrow> tx \<noteq> [] \<longrightarrow>
        (\<exists>ok rx s'. br_transfer B s tx = Some (ok, rx, s') \<and> good s' \<and> (sure \<longrightarrow> ok) \<and>
           (ok \<longrightarrow> (rx, chip s') = nor_cmd e p tx (chip s))))"

lemma nor_addr_bytes: "unat addr < 2 ^ 24 \<Longrightarrow> nor_addr (addr_bytes addr @ bs) = unat addr"
proof -
  assume a: "unat addr < 2 ^ 24"
  have u: "unat (ucast (drop_bit k addr AND 0xFF :: u32) :: byte) = unat addr div 2 ^ k mod 256" for k
  proof -
    have "drop_bit k addr AND 0xFF = take_bit 8 (drop_bit k addr)" by (simp only: take_bit_eq_mask mask_eq_exp_minus_1) simp
    then have "unat (drop_bit k addr AND 0xFF) = unat addr div 2 ^ k mod 256"
      by (simp only: unsigned_take_bit_eq unsigned_drop_bit_eq) (use unsigned_less [where 'a = nat, of addr] in \<open>simp add: take_bit_eq_mod drop_bit_eq_div\<close>)
    then show ?thesis by (simp add: unsigned_ucast_eq take_bit_eq_mod)
  qed
  have "unat addr div 256 div 256 = unat addr div 65536" by (simp flip: div_mult2_eq)
  then have "65536 * (unat addr div 65536) + 256 * (unat addr div 256 mod 256) + unat addr mod 256 = unat addr"
    using mult_div_mod_eq [of 256 "unat addr div 256"] mult_div_mod_eq [of 256 "unat addr"] by linarith
  moreover have "unat addr div 65536 mod 256 = unat addr div 65536" using a by simp
  ultimately show ?thesis by (simp add: nor_addr_def addr_bytes_def u [of 16] u [of 8] u [of 0, simplified])
qed

lemma length_addr_bytes [simp]: "length (addr_bytes addr) = 3"
  by (simp add: addr_bytes_def)

lemma nor_program_aligned:
  assumes "256 dvd a" and "length bs \<le> 256"
  shows "nor_program a bs m = (\<lambda>i. if a \<le> i \<and> i < a + length bs then m i AND bs ! (i - a) else m i)"
proof -
  have x: "a div 256 * 256 + (a + j) mod 256 = a + j" if "j < 256" for j
    using assms(1) that by (auto simp: dvd_def)
  have "n \<le> length bs \<Longrightarrow>
     fold (\<lambda>j m. let x = a div 256 * 256 + (a + j) mod 256 in m(x := m x AND bs ! j)) [0..<n] m =
       (\<lambda>i. if a \<le> i \<and> i < a + n then m i AND bs ! (i - a) else m i)" for n
  proof (induction n)
    case (Suc n)
    then have "a div 256 * 256 + (a + n) mod 256 = a + n" using x [of n] assms(2) by simp
    with Suc show ?case by (auto simp: fun_eq_iff Let_def less_Suc_eq)
  next
    case 0
    show ?case by (intro ext) (simp, linarith)
  qed
  then show ?thesis by (simp add: nor_program_def)
qed

section \<open>The driver on the chip\<close>

lemma drives_transfer:
  assumes "drives_nor B good chip e p sure" and "good (fl_bridge f)" and "tx \<noteq> []"
  shows "\<exists>r f'. fl_transfer B name tx f = Some (r, f') \<and> good (fl_bridge f') \<and> (sure \<longrightarrow> r \<noteq> None) \<and>
           (\<forall>rx. r = Some rx \<longrightarrow> (rx, chip (fl_bridge f')) = nor_cmd e p tx (chip (fl_bridge f)))"
proof -
  from assms obtain ok rx s' where
    "br_transfer B (fl_bridge f) tx = Some (ok, rx, s')" "good s'" "sure \<longrightarrow> ok"
    "ok \<longrightarrow> (rx, chip s') = nor_cmd e p tx (chip (fl_bridge f))"
    unfolding drives_nor_def by blast
  then show ?thesis by (cases ok) (simp_all add: fl_transfer_def)
qed

lemma drives_read_id:
  assumes "drives_nor B good chip e p sure" and "good (fl_bridge f)" and "nf_busy (chip (fl_bridge f)) = 0"
  shows "\<exists>r f'. read_id B f = Some (r, f') \<and> good (fl_bridge f') \<and> (sure \<longrightarrow> r \<noteq> None) \<and>
           (\<forall>j. r = Some j \<longrightarrow> j = JEDEC_MT25QL128 \<and> chip (fl_bridge f') = chip (fl_bridge f))"
proof -
  let ?tx = "[CMD_READ_ID, 0, 0, 0]"
  from drives_transfer [OF assms(1,2), of ?tx "''readId''"] obtain r f' where
    t: "fl_transfer B ''readId'' ?tx f = Some (r, f')" "good (fl_bridge f')" "sure \<longrightarrow> r \<noteq> None"
      "\<forall>rx. r = Some rx \<longrightarrow> (rx, chip (fl_bridge f')) = nor_cmd e p ?tx (chip (fl_bridge f))" by auto
  show ?thesis
  proof (cases r)
    case None
    with t show ?thesis by (simp add: read_id_def)
  next
    case (Some rx)
    with t assms(3) have rx: "rx = [0, 0x20, 0xBA, 0x18]" "chip (fl_bridge f') = chip (fl_bridge f)"
      by (simp_all add: nor_cmd_def CMD_READ_ID_def Let_def)
    have "(push_bit 16 (ucast (0x20 :: byte)) OR push_bit 8 (ucast (0xBA :: byte)) OR ucast (0x18 :: byte) :: u32) = JEDEC_MT25QL128"
      by code_simp
    with t Some rx show ?thesis by (simp add: read_id_def mem_at_def)
  qed
qed

lemma nor_status_wip: "nor_status d AND STATUS_WIP = 0 \<longleftrightarrow> nf_busy d = 0"
  by (simp add: nor_status_def STATUS_WIP_def)

lemma drives_wait:
  assumes "drives_nor B good chip e p sure" and "good (fl_bridge f)"
  shows "\<exists>r f'. wait_wip_clear B polls f = Some (r, f') \<and> good (fl_bridge f') \<and>
           (sure \<longrightarrow> nf_busy (chip (fl_bridge f)) \<le> polls \<longrightarrow> r) \<and>
           (r \<longrightarrow> chip (fl_bridge f') = (chip (fl_bridge f))\<lparr>nf_busy := 0\<rparr>)"
  using assms(2)
proof (induction polls arbitrary: f rule: less_induct)
  case (less polls)
  let ?d = "chip (fl_bridge f)" and ?tx = "[CMD_READ_STATUS, 0]"
  from drives_transfer [OF assms(1) less(2), of ?tx "''readStatus''"] obtain r f1 where
    t: "fl_transfer B ''readStatus'' ?tx f = Some (r, f1)" "good (fl_bridge f1)" "sure \<longrightarrow> r \<noteq> None"
      "\<forall>rx. r = Some rx \<longrightarrow> (rx, chip (fl_bridge f1)) = nor_cmd e p ?tx ?d" by auto
  have rs: "read_status B f = Some (map_option (\<lambda>_. nor_status ?d) r, f1)"
    "r \<noteq> None \<longrightarrow> chip (fl_bridge f1) = ?d\<lparr>nf_busy := nf_busy ?d - 1\<rparr>"
    using t by (auto simp: read_status_def nor_cmd_def CMD_READ_STATUS_def mem_at_def Let_def split: option.splits)
  show ?case
  proof (cases r)
    case None
    with t rs show ?thesis by (subst wait_wip_clear.simps) auto
  next
    case (Some rx)
    show ?thesis
    proof (cases "nf_busy ?d = 0")
      case True
      with Some t rs show ?thesis by (subst wait_wip_clear.simps) (auto simp: nor_status_wip)
    next
      case False
      show ?thesis
      proof (cases polls)
        case 0
        with Some False t rs show ?thesis by (subst wait_wip_clear.simps) (auto simp: nor_status_wip)
      next
        case (Suc n)
        with less(1) [of n f1] t obtain r' f' where
          "wait_wip_clear B n f1 = Some (r', f')" "good (fl_bridge f')"
          "sure \<longrightarrow> nf_busy (chip (fl_bridge f1)) \<le> n \<longrightarrow> r'" "r' \<longrightarrow> chip (fl_bridge f') = (chip (fl_bridge f1))\<lparr>nf_busy := 0\<rparr>"
          by auto
        with Suc Some False rs show ?thesis by (subst wait_wip_clear.simps) (auto simp: nor_status_wip)
      qed
    qed
  qed
qed

lemma drives_write_enable:
  assumes "drives_nor B good chip e p sure" and "good (fl_bridge f)" and "nf_busy (chip (fl_bridge f)) = 0"
  shows "\<exists>r f'. write_enable B f = Some (r, f') \<and> good (fl_bridge f') \<and> (sure \<longrightarrow> r) \<and>
           (r \<longrightarrow> chip (fl_bridge f') = (chip (fl_bridge f))\<lparr>nf_wel := True\<rparr>)"
proof -
  from drives_transfer [OF assms(1,2), of "[CMD_WRITE_ENABLE]" "''writeEnable''"] obtain r f' where
    "fl_transfer B ''writeEnable'' [CMD_WRITE_ENABLE] f = Some (r, f')" "good (fl_bridge f')" "sure \<longrightarrow> r \<noteq> None"
    "\<forall>rx. r = Some rx \<longrightarrow> (rx, chip (fl_bridge f')) = nor_cmd e p [CMD_WRITE_ENABLE] (chip (fl_bridge f))" by auto
  with assms(3) show ?thesis by (auto simp: write_enable_def nor_cmd_def CMD_WRITE_ENABLE_def Let_def)
qed

lemma drives_bulk_erase:
  assumes "drives_nor B good chip e p sure" and "good (fl_bridge f)" and "nf_busy (chip (fl_bridge f)) = 0"
  shows "\<exists>r f'. bulk_erase B polls f = Some (r, f') \<and> good (fl_bridge f') \<and> (sure \<longrightarrow> e \<le> polls \<longrightarrow> r) \<and>
           (r \<longrightarrow> chip (fl_bridge f') = \<lparr>nf_mem = (\<lambda>_. 0xFF), nf_wel = False, nf_busy = 0\<rparr>)"
proof -
  from drives_write_enable [OF assms] obtain r1 f1 where
    1: "write_enable B f = Some (r1, f1)" "good (fl_bridge f1)" "sure \<longrightarrow> r1"
      "r1 \<longrightarrow> chip (fl_bridge f1) = (chip (fl_bridge f))\<lparr>nf_wel := True\<rparr>" by blast
  show ?thesis
  proof (cases r1)
    case False
    with 1 show ?thesis by (auto simp: bulk_erase_def)
  next
    case True
    from drives_transfer [OF assms(1) 1(2), of "[CMD_BULK_ERASE]" "''bulkErase''"] obtain r2 f2 where
      2: "fl_transfer B ''bulkErase'' [CMD_BULK_ERASE] f1 = Some (r2, f2)" "good (fl_bridge f2)" "sure \<longrightarrow> r2 \<noteq> None"
        "\<forall>rx. r2 = Some rx \<longrightarrow> (rx, chip (fl_bridge f2)) = nor_cmd e p [CMD_BULK_ERASE] (chip (fl_bridge f1))" by auto
    show ?thesis
    proof (cases r2)
      case None
      with 1 2 True show ?thesis by (auto simp: bulk_erase_def)
    next
      case (Some rx)
      with 1 2 True assms(3) have "chip (fl_bridge f2) = \<lparr>nf_mem = (\<lambda>_. 0xFF), nf_wel = False, nf_busy = e\<rparr>"
        by (simp add: nor_cmd_def CMD_BULK_ERASE_def Let_def)
      with drives_wait [OF assms(1) 2(2), of polls] 1 2 True Some show ?thesis by (auto simp: bulk_erase_def)
    qed
  qed
qed

definition programmed :: "nat \<Rightarrow> byte list \<Rightarrow> (nat \<Rightarrow> byte) \<Rightarrow> nat \<Rightarrow> byte" where
  "programmed a bs m = (\<lambda>i. if a \<le> i \<and> i < a + length bs then m i AND bs ! (i - a) else m i)"

lemma drives_page_program:
  assumes "drives_nor B good chip e p sure" and "good (fl_bridge f)" and "nf_busy (chip (fl_bridge f)) = 0"
    and "256 dvd unat addr" and "bs \<noteq> []" and "length bs \<le> 256" and "unat addr + length bs \<le> CAPACITY_BYTES"
  shows "\<exists>r f'. page_program B polls addr bs f = Some (r, f') \<and> good (fl_bridge f') \<and> (sure \<longrightarrow> p \<le> polls \<longrightarrow> r) \<and>
           (r \<longrightarrow> chip (fl_bridge f') =
              \<lparr>nf_mem = programmed (unat addr) bs (nf_mem (chip (fl_bridge f))), nf_wel = False, nf_busy = 0\<rparr>)"
proof -
  let ?tx = "CMD_PAGE_PROGRAM # addr_bytes addr @ bs"
  have pp: "page_program B polls addr bs f =
      do { (ok, f1) \<leftarrow> write_enable B f;
           if \<not> ok then Some (False, f1)
           else do { (r, f2) \<leftarrow> fl_transfer B ''pageProgram'' ?tx f1;
                     if r = None then Some (False, f2) else wait_wip_clear B polls f2 } }"
    using assms(5-7) by (simp add: page_program_def PAGE_SIZE_def Let_def)
  from drives_write_enable [OF assms(1-3)] obtain r1 f1 where
    1: "write_enable B f = Some (r1, f1)" "good (fl_bridge f1)" "sure \<longrightarrow> r1"
      "r1 \<longrightarrow> chip (fl_bridge f1) = (chip (fl_bridge f))\<lparr>nf_wel := True\<rparr>" by blast
  show ?thesis
  proof (cases r1)
    case False
    with 1 show ?thesis by (auto simp: pp)
  next
    case True
    from drives_transfer [OF assms(1) 1(2), of ?tx "''pageProgram''"] obtain r2 f2 where
      2: "fl_transfer B ''pageProgram'' ?tx f1 = Some (r2, f2)" "good (fl_bridge f2)" "sure \<longrightarrow> r2 \<noteq> None"
        "\<forall>rx. r2 = Some rx \<longrightarrow> (rx, chip (fl_bridge f2)) = nor_cmd e p ?tx (chip (fl_bridge f1))" by auto
    show ?thesis
    proof (cases r2)
      case None
      with 1 2 True show ?thesis by (auto simp: pp)
    next
      case (Some rx)
      have "nor_addr (addr_bytes addr @ bs) = unat addr" "drop 3 (addr_bytes addr @ bs) = bs" "3 < length (addr_bytes addr @ bs)"
        using assms(5,7) by (cases bs; auto simp: CAPACITY_BYTES_def intro!: nor_addr_bytes)+
      with 1 2 True Some assms(3) nor_program_aligned [OF assms(4,6)]
      have "chip (fl_bridge f2) = \<lparr>nf_mem = programmed (unat addr) bs (nf_mem (chip (fl_bridge f))), nf_wel = False, nf_busy = p\<rparr>"
        by (simp add: nor_cmd_def CMD_PAGE_PROGRAM_def Let_def programmed_def)
      with drives_wait [OF assms(1) 2(2), of polls] 1 2 True Some show ?thesis by (auto simp: pp)
    qed
  qed
qed

lemma drives_flash_read:
  assumes "drives_nor B good chip e p sure" and "good (fl_bridge f)" and "nf_busy (chip (fl_bridge f)) = 0"
    and "0 < n" and "unat addr + n \<le> CAPACITY_BYTES"
  shows "\<exists>r f'. flash_read B addr n f = Some (r, f') \<and> good (fl_bridge f') \<and> (sure \<longrightarrow> r \<noteq> None) \<and>
           (\<forall>bs. r = Some bs \<longrightarrow> bs = map (\<lambda>i. nf_mem (chip (fl_bridge f)) (unat addr + i)) [0..<n] \<and>
                                 chip (fl_bridge f') = chip (fl_bridge f))"
proof -
  let ?tx = "CMD_READ # addr_bytes addr @ replicate n 0"
  from drives_transfer [OF assms(1,2), of ?tx "''read''"] obtain r f' where
    t: "fl_transfer B ''read'' ?tx f = Some (r, f')" "good (fl_bridge f')" "sure \<longrightarrow> r \<noteq> None"
      "\<forall>rx. r = Some rx \<longrightarrow> (rx, chip (fl_bridge f')) = nor_cmd e p ?tx (chip (fl_bridge f))" by auto
  have a: "nor_addr (addr_bytes addr @ replicate n 0) = unat addr"
    using assms(4,5) by (auto simp: CAPACITY_BYTES_def intro!: nor_addr_bytes)
  show ?thesis
  proof (cases r)
    case None
    with t assms show ?thesis by (simp add: flash_read_def)
  next
    case (Some rx)
    with t a assms(3) have "rx = [0, 0, 0, 0] @ map (\<lambda>i. nf_mem (chip (fl_bridge f)) (unat addr + i)) [0..<n]"
      "chip (fl_bridge f') = chip (fl_bridge f)"
      by (simp_all add: nor_cmd_def CMD_READ_def Let_def)
    with t Some assms show ?thesis by (simp add: flash_read_def)
  qed
qed

end
