(* ===== verification/Flash_Bridge.thy ===== *)
theory Flash_Bridge
  imports Pl_Config Spi_Flash
begin

text \<open>
  src/src/flash/flash_jtag_bridge.{h,cpp}: SPI transfers to a flash behind the USER1 data register of one
  device of the chain.  \<open>flash_bridge_ops\<close> is the class as an implementation of \<open>IFlashBridge\<close>; the
  interpretation shows that it keeps the contract of \<open>spi_bridge\<close>.
\<close>

unbundle bit_operations_syntax

definition USER1_IR :: u32 where
  "USER1_IR = 0x02"

definition reverse_byte :: "byte \<Rightarrow> byte" where
  "reverse_byte b =
     (let b1 = drop_bit 4 (b AND 0xF0) OR push_bit 4 (b AND 0x0F);
          b2 = drop_bit 2 (b1 AND 0xCC) OR push_bit 2 (b1 AND 0x33)
      in drop_bit 1 (b2 AND 0xAA) OR push_bit 1 (b2 AND 0x55))"

record 'd flash_bridge =
  fb_chain :: "'d chain"
  fb_index :: int
  fb_user1_selected :: bool
  fb_error :: string

definition new_flash_bridge :: "'d chain \<Rightarrow> int \<Rightarrow> 'd flash_bridge" where
  "new_flash_bridge c i = \<lparr>fb_chain = c, fb_index = i, fb_user1_selected = False, fb_error = []\<rparr>"

text \<open>The devices between the target and TDO, and between TDI and the target.\<close>

definition bypass_before :: "'d flash_bridge \<Rightarrow> nat" where
  "bypass_before b = length (filter (\<lambda>i. int i < fb_index b) [0..<length (jc_devices (fb_chain b))])"

definition bypass_after :: "'d flash_bridge \<Rightarrow> nat" where
  "bypass_after b = length (filter (\<lambda>i. fb_index b < int i) [0..<length (jc_devices (fb_chain b))])"

text \<open>USER1 is loaded once; the flag remembers it.\<close>

definition select_user1 :: "'d link \<Rightarrow> 'd flash_bridge \<Rightarrow> (bool \<times> 'd flash_bridge) option" where
  "select_user1 L b =
     (if fb_user1_selected b then Some (True, b)
      else do {
        (ok, c) \<leftarrow> select_instruction L (fb_index b) USER1_IR (fb_chain b);
        if \<not> ok then Some (False, b\<lparr>fb_chain := c, fb_error := ''USER1 load: '' @ jc_error c\<rparr>)
        else Some (True, b\<lparr>fb_chain := c, fb_user1_selected := True\<rparr>)
      })"

definition pack_tx :: "nat \<Rightarrow> nat \<Rightarrow> byte list \<Rightarrow> byte list" where
  "pack_tx before total_bits tx =
     or_bits (buf_bit (map reverse_byte tx)) before (8 * length tx) (replicate (bytes_for total_bits) 0)"

definition unpack_rx :: "nat \<Rightarrow> nat \<Rightarrow> byte list \<Rightarrow> byte list" where
  "unpack_rx before n tdo =
     map (\<lambda>i. reverse_byte (word_of_bits (\<lambda>b. buf_bit tdo (before + i * 8 + b)) 8)) [0..<n]"

definition bridge_transfer ::
  "'d link \<Rightarrow> 'd flash_bridge \<Rightarrow> byte list \<Rightarrow> (bool \<times> byte list \<times> 'd flash_bridge) option" where
  "bridge_transfer L b tx =
     (if tx = [] then Some (False, [], b\<lparr>fb_error := ''transfer: tx is empty''\<rparr>)
      else if \<not> valid_index (fb_chain b) (fb_index b)
      then Some (False, [], b\<lparr>fb_error := ''transfer: invalid device index''\<rparr>)
      else do {
        (ok, b1) \<leftarrow> select_user1 L b;
        if \<not> ok then Some (False, [], b1)
        else do {
          let before = bypass_before b1;
          let total_bits = before + 8 * length tx + bypass_after b1;
          (ok2, tdo, t) \<leftarrow> shift_dr L (Some (pack_tx before total_bits tx)) [] (int total_bits) (jc_tap (fb_chain b1));
          let b2 = b1\<lparr>fb_chain := (fb_chain b1)\<lparr>jc_tap := t\<rparr>\<rparr>;
          if \<not> ok2 then Some (False, [], b2\<lparr>fb_error := ''shiftDR: '' @ tap_error t\<rparr>)
          else Some (True, unpack_rx before (length tx) tdo, b2)
        }
      })"

definition flash_bridge_ops :: "'d link \<Rightarrow> 'd flash_bridge bridge_ops" where
  "flash_bridge_ops L = \<lparr>br_transfer = bridge_transfer L, br_error = fb_error\<rparr>"

section \<open>Bits\<close>

lemma reverse_byte_eq: "reverse_byte = bit_reverse_byte"
  by (simp add: fun_eq_iff reverse_byte_def bit_reverse_byte_def)

lemma filter_less_upt: "k \<le> n \<Longrightarrow> filter (\<lambda>i. i < k) [0..<n] = [0..<k]"
proof -
  assume "k \<le> n"
  then have "[0..<n] = [0..<k] @ [k..<n]" using upt_add_eq_append [of 0 k "n - k"] by simp
  then show ?thesis by (simp add: filter_id_conv filter_empty_conv)
qed

lemma filter_greater_upt: "k < n \<Longrightarrow> filter (\<lambda>i. k < i) [0..<n] = [Suc k..<n]"
proof -
  assume "k < n"
  then have "[0..<n] = [0..<Suc k] @ [Suc k..<n]" using upt_add_eq_append [of 0 "Suc k" "n - Suc k"] by simp
  then show ?thesis by (simp add: filter_id_conv filter_empty_conv)
qed

lemma bypass_counts:
  assumes "valid_index (fb_chain b) (fb_index b)"
  shows "bypass_before b = nat (fb_index b)" and "bypass_before b + bypass_after b = dr_overhead (fb_chain b)"
proof -
  let ?n = "length (jc_devices (fb_chain b))"
  obtain k where k: "fb_index b = int k" "k < ?n"
    using assms by (metis valid_index_def nonneg_int_cases of_nat_less_iff)
  then show 1: "bypass_before b = nat (fb_index b)" by (simp add: bypass_before_def filter_less_upt)
  have "bypass_after b = ?n - Suc k" using k by (simp add: bypass_after_def filter_greater_upt)
  with k 1 show "bypass_before b + bypass_after b = dr_overhead (fb_chain b)" by (simp add: dr_overhead_def)
qed

lemma pack_tx_bits:
  assumes "tot = before + 8 * length tx + after"
  shows "buf_bits (pack_tx before tot tx) tot = replicate before False @ concat (map msb_bits tx) @ replicate after False"
proof -
  let ?bs = "buf_bits (map reverse_byte tx) (8 * length tx)"
  have bs: "?bs = concat (map msb_bits tx)" by (simp add: reverse_byte_eq buf_bits_reversed)
  have "buf_bits (pack_tx before tot tx) tot = replicate before False @ ?bs @ replicate after False"
  proof (rule nth_equalityI)
    fix i assume "i < length (buf_bits (pack_tx before tot tx) tot)"
    then have i: "i < tot" by simp
    have "i < 8 * bytes_for tot" using i bytes_for_ge [of tot] by linarith
    then show "buf_bits (pack_tx before tot tx) tot ! i = (replicate before False @ ?bs @ replicate after False) ! i"
      using i assms by (auto simp: pack_tx_def buf_bit_or_bits buf_bit_replicate_0 nth_append)
  qed (simp add: assms)
  then show ?thesis by (simp only: bs)
qed

lemma msb_bits_reversed: "msb_bits (bit_reverse_byte w) = map (bit w) [0..<8]"
  using bit_reverse_bits [of w] by (simp add: msb_bits_def upt_rec numeral_eq_Suc)

lemma unpack_rx_bits:
  "concat (map msb_bits (unpack_rx before n tdo)) = map (\<lambda>i. buf_bit tdo (before + i)) [0..<8 * n]"
proof -
  let ?w = "\<lambda>i. word_of_bits (\<lambda>b. buf_bit tdo (before + i * 8 + b)) 8 :: byte"
  have "map msb_bits (unpack_rx before n tdo) = map (\<lambda>i. map (bit (?w i)) [0..<8]) [0..<n]"
    by (simp add: unpack_rx_def reverse_byte_eq comp_def msb_bits_reversed)
  also have "\<dots> = map (\<lambda>i. map (\<lambda>j. buf_bit tdo (before + (8 * i + j))) [0..<8]) [0..<n]"
    by (intro map_cong refl) (auto simp: bit_word_of_bits mult.commute add.assoc)
  finally have "concat (map msb_bits (unpack_rx before n tdo)) = concat (map (\<lambda>i. map (\<lambda>j. buf_bit tdo (before + (8 * i + j))) [0..<8]) [0..<n])"
    by simp
  also have "\<dots> = map (\<lambda>i. buf_bit tdo (before + i)) [0..<8 * n]"
  proof (induction n)
    case (Suc n)
    have "[0..<8 * Suc n] = [0..<8 * n] @ [8 * n..<8 * n + 8]"
      using upt_add_eq_append [of 0 "8 * n" 8] by (simp add: add.commute)
    moreover have "map (\<lambda>i. buf_bit tdo (before + i)) [8 * n..<8 * n + 8] = map (\<lambda>j. buf_bit tdo (before + (8 * n + j))) [0..<8]"
      by (intro nth_equalityI) (simp_all add: add.assoc)
    ultimately show ?case using Suc by (simp only: map_append concat_append upt_Suc_append le0) simp
  qed simp
  finally show ?thesis .
qed


section \<open>The contract\<close>

definition short_irs :: "'d flash_bridge \<Rightarrow> bool" where
  "short_irs b \<longleftrightarrow> (\<forall>dev \<in> set (jc_devices (fb_chain b)). cd_ir_length dev \<le> 32)"

lemma select_user1_defined:
  assumes "short_irs b"
  shows "\<exists>ok b'. select_user1 L b = Some (ok, b') \<and> short_irs b'"
  using assms select_instruction_defined [of "fb_chain b" L "fb_index b" USER1_IR]
  by (auto simp: select_user1_def short_irs_def)

lemma pack_tx_readable: "readable (Some (pack_tx before n tx)) n"
  by (simp add: readable_def pack_tx_def)

lemma bridge_transfer_defined:
  assumes "short_irs b"
  shows "\<exists>ok rx b'. bridge_transfer L b tx = Some (ok, rx, b') \<and> short_irs b' \<and> (ok \<longrightarrow> length rx = length tx)"
proof (cases "tx = [] \<or> \<not> valid_index (fb_chain b) (fb_index b)")
  case True
  with assms show ?thesis by (auto simp: bridge_transfer_def short_irs_def)
next
  case False
  obtain ok b1 where 1: "select_user1 L b = Some (ok, b1)" "short_irs b1" using select_user1_defined [OF assms] by blast
  let ?n = "bypass_before b1 + 8 * length tx + bypass_after b1"
  have n: "0 < ?n" using False by simp
  obtain ok2 u t where "shift_dr L (Some (pack_tx (bypass_before b1) ?n tx)) [] (int ?n) (jc_tap (fb_chain b1)) = Some (ok2, u, t)"
    using shift_dr_defined [OF n pack_tx_readable] by blast
  with 1 False show ?thesis
    by (cases ok; cases ok2) (auto simp: bridge_transfer_def Let_def short_irs_def unpack_rx_def)
qed

interpretation jtag_spi: spi_bridge "flash_bridge_ops L" short_irs for L :: "'d link"
proof unfold_locales
  fix b :: "'d flash_bridge" and tx
  assume "short_irs b"
  from bridge_transfer_defined [OF this, of L tx]
  show "\<exists>ok rx b'. br_transfer (flash_bridge_ops L) b tx = Some (ok, rx, b') \<and> short_irs b' \<and> (ok \<longrightarrow> length rx = length tx)"
    by (simp add: flash_bridge_ops_def)
qed

section \<open>Properties\<close>

text \<open>The bits that reach the target when \<open>k\<close> devices in BYPASS are in front of it.\<close>

definition delayed :: "nat \<Rightarrow> bool list \<Rightarrow> bool list" where
  "delayed k bs = take (length bs) (replicate k False @ bs)"

lemma delayed_padding: "delayed k (replicate a False @ bs @ replicate k False) = replicate (k + a) False @ bs"
proof -
  have "replicate k False @ replicate a False @ bs @ replicate k False = (replicate (k + a) False @ bs) @ replicate k False"
    by (simp add: replicate_add)
  then show ?thesis by (simp only: delayed_def) simp
qed

definition bridge_ready :: "'d link \<Rightarrow> ('d \<Rightarrow> tap_state \<times> bool) \<Rightarrow> 'd flash_bridge \<Rightarrow> bool" where
  "bridge_ready L phys b \<longleftrightarrow> pl_ready L phys \<lparr>pg_index = fb_index b, pg_error = []\<rparr> (fb_chain b)"

lemma select_user1_ready:
  assumes "bridge_ready L phys b"
  shows "\<exists>b1. select_user1 L b = Some (True, b1) \<and> bridge_ready L phys b1 \<and> fb_index b1 = fb_index b \<and>
           jc_devices (fb_chain b1) = jc_devices (fb_chain b)"
proof (cases "fb_user1_selected b")
  case True
  with assms show ?thesis by (simp add: select_user1_def)
next
  case False
  let ?p = "\<lparr>pg_index = fb_index b, pg_error = []\<rparr>"
  obtain c' where "select_instruction L (fb_index b) USER1_IR (fb_chain b) = Some (True, c')" "pl_ready L phys ?p c'"
    "jc_devices c' = jc_devices (fb_chain b)"
    using load_instruction_ready [OF assms [unfolded bridge_ready_def], of USER1_IR] by auto
  with False show ?thesis by (simp add: select_user1_def bridge_ready_def)
qed

text \<open>A transfer through a working probe succeeds; the target sees the bytes on MOSI most significant bit
  first, but one clock late for every other device in the chain, with zeros before; what is returned are the
  bits of MISO from the first clock on.  Only in a chain of one device do the two line up.\<close>

theorem bridge_transfer_bits:
  assumes "bridge_ready L phys b" and "replies_tdo L lvl" and "tx \<noteq> []"
    and "\<And>d i. fst (phys d) = SHIFT_DR \<Longrightarrow> nat (fb_index b) \<le> i \<Longrightarrow> lvl d i = miso (i - nat (fb_index b))"
  shows "\<exists>rx b' t tdi u t'. bridge_transfer L b tx = Some (True, rx, b') \<and> bridge_ready L phys b' \<and>
           shift_dr L (Some tdi) [] (int (8 * length tx + dr_overhead (fb_chain b))) t = Some (True, u, t') \<and>
           delayed (dr_overhead (fb_chain b) - nat (fb_index b)) (buf_bits tdi (8 * length tx + dr_overhead (fb_chain b)))
             = replicate (dr_overhead (fb_chain b)) False @ concat (map msb_bits tx) \<and>
           concat (map msb_bits rx) = map miso [0..<8 * length tx]"
proof -
  obtain b1 where b1: "select_user1 L b = Some (True, b1)" "bridge_ready L phys b1" "fb_index b1 = fb_index b"
    "jc_devices (fb_chain b1) = jc_devices (fb_chain b)"
    using select_user1_ready [OF assms(1)] by blast
  have v: "valid_index (fb_chain b) (fb_index b)" "valid_index (fb_chain b1) (fb_index b1)"
    using assms(1) b1(2) by (simp_all add: bridge_ready_def pl_ready_def)
  let ?o = "dr_overhead (fb_chain b)" and ?k = "nat (fb_index b)"
  have o: "dr_overhead (fb_chain b1) = ?o" using b1(4) by (simp add: dr_overhead_def)
  have before: "bypass_before b1 = ?k" and after: "?k + bypass_after b1 = ?o"
    using bypass_counts [OF v(2)] b1(3) o by simp_all
  let ?n = "8 * length tx + ?o"
  have n: "?k + 8 * length tx + bypass_after b1 = ?n" using after by simp
  let ?tdi = "pack_tx ?k ?n tx"
  have L: "always_ok L" "drives_tap L phys" "in_sync phys (jc_tap (fb_chain b1))"
    using b1(2) by (simp_all add: bridge_ready_def pl_ready_def)
  have n0: "0 < ?n" using assms(3) by simp
  obtain u t' where sh: "shift_dr L (Some ?tdi) [] (int ?n) (jc_tap (fb_chain b1)) = Some (True, u, t')"
    using shift_dr_succeeds(1) [OF L(1) n0 pack_tx_readable] by blast
  from shift_dr_tdo [OF sh L(2) assms(2) L(3) pack_tx_readable] obtain d where
    d: "fst (phys d) = SHIFT_DR" "\<And>i. buf_bit u i \<longleftrightarrow> i < ?n \<and> lvl d i" by blast
  let ?rx = "unpack_rx ?k (length tx) u" and ?b' = "b1\<lparr>fb_chain := (fb_chain b1)\<lparr>jc_tap := t'\<rparr>\<rparr>"
  have "bridge_transfer L b tx = Some (True, ?rx, ?b')"
    unfolding bridge_transfer_def Let_def using b1(1) v(1) assms(3)
    by (simp only: before n sh bind.bind_lunit if_True if_False simp_thms split_conv Option.bind.simps)
  moreover have "bridge_ready L phys ?b'"
    using pl_ready_tap [OF b1(2) [unfolded bridge_ready_def] shift_dr_ok(2) [OF sh L(2,3) pack_tx_readable]]
    by (simp add: bridge_ready_def)
  moreover have "delayed (?o - ?k) (buf_bits ?tdi ?n) = replicate ?o False @ concat (map msb_bits tx)"
  proof -
    have a: "?o - ?k = bypass_after b1" "bypass_after b1 + ?k = ?o" using after by simp_all
    have "?n = ?k + 8 * length tx + bypass_after b1" using after by simp
    from pack_tx_bits [OF this] show ?thesis by (simp only: a delayed_padding)
  qed
  moreover have "concat (map msb_bits ?rx) = map miso [0..<8 * length tx]"
    unfolding unpack_rx_bits using d after assms(4) by (intro map_cong refl) simp
  ultimately show ?thesis using sh by blast
qed

definition demo_bridge :: "(tap_state \<times> bool) flash_bridge" where
  "demo_bridge = new_flash_bridge (two_dev_chain 8) 0"

lemma bridge_transfer_bits_witness:
  "\<exists>rx b' tdi. bridge_transfer (chain_link [True, False, True]) demo_bridge [0x9F] = Some (True, rx, b') \<and>
     delayed 1 (buf_bits tdi 9) = False # msb_bits 0x9F \<and> concat (map msb_bits rx) = [True, False, True, False, False, False, False, False]"
proof -
  let ?bs = "[True, False, True]"
  have r: "bridge_ready (chain_link ?bs) id demo_bridge"
    using demo_pl_ready [of ?bs 8] by (simp add: bridge_ready_def demo_bridge_def new_flash_bridge_def demo_pl_def)
  have d: "dr_overhead (fb_chain demo_bridge) = 1" "fb_index demo_bridge = 0"
    by (simp_all add: demo_bridge_def new_flash_bridge_def dr_overhead_def two_dev_chain_def)
  have m: "map (\<lambda>i. i < 3 \<and> ?bs ! i) [0..<8] = [True, False, True, False, False, False, False, False]"
    by (simp add: upt_rec numeral_eq_Suc)
  have lvl_eq: "chain_level ?bs d i = (\<lambda>i. i < 3 \<and> ?bs ! i) (i - nat (fb_index demo_bridge))" for d i
    by (simp add: chain_level_def d(2) numeral_3_eq_3)
  obtain rx b' t tdi u t' where
    "bridge_transfer (chain_link ?bs) demo_bridge [0x9F] = Some (True, rx, b')"
    "delayed (1 - nat 0) (buf_bits tdi (8 * length [0x9F :: byte] + 1)) = replicate 1 False @ concat (map msb_bits [0x9F])"
    "concat (map msb_bits rx) = map (\<lambda>i. i < 3 \<and> ?bs ! i) [0..<8 * length [0x9F :: byte]]"
    using bridge_transfer_bits [OF r chain_link_ok(2) _ lvl_eq, of "[0x9F]", unfolded d] by blast
  with m show ?thesis by (intro exI [of _ rx] exI [of _ b'] exI [of _ tdi]) simp
qed

end
