(* ===== verification/Mcs_Parser.thy ===== *)
theory Mcs_Parser
  imports Cxx_Strings
begin

text \<open>
  src/src/flash/mcs_parser.cpp: reading an Intel HEX (.mcs) file into a flat image.

  A file is \<open>None\<close> (cannot be opened) or its characters.  The result is the error text or the image; the
  outer \<open>None\<close> is undefined behaviour: \<open>std::memcpy\<close> past the end of the vector.  The 32-bit address
  arithmetic wraps as in the code.
\<close>

unbundle bit_operations_syntax

section \<open>One record\<close>

definition mcs_hex_digit :: "char \<Rightarrow> nat option" where
  "mcs_hex_digit c =
     (let n = char_code c
      in if 48 \<le> n \<and> n \<le> 57 then Some (n - 48)
         else if 65 \<le> n \<and> n \<le> 70 then Some (n - 65 + 10)
         else if 97 \<le> n \<and> n \<le> 102 then Some (n - 97 + 10)
         else None)"

definition mcs_hex_byte :: "string \<Rightarrow> nat \<Rightarrow> byte option" where
  "mcs_hex_byte line pos =
     (if length line < pos + 2 then None
      else do {
        hi \<leftarrow> mcs_hex_digit (line ! pos);
        lo \<leftarrow> mcs_hex_digit (line ! (pos + 1));
        Some (of_nat (16 * hi + lo))
      })"

record mcs_record =
  mr_len :: byte
  mr_addr :: "16 word"
  mr_type :: byte
  mr_data :: "byte list"

text \<open>The data bytes from position \<open>pos\<close> on and the running checksum.\<close>

fun mcs_data_bytes :: "string \<Rightarrow> nat \<Rightarrow> nat \<Rightarrow> byte \<Rightarrow> (byte list \<times> byte) option" where
  "mcs_data_bytes line pos 0 cksum = Some ([], cksum)"
| "mcs_data_bytes line pos (Suc n) cksum = do {
     b \<leftarrow> mcs_hex_byte line pos;
     (bs, ck) \<leftarrow> mcs_data_bytes line (pos + 2) n (cksum + b);
     Some (b # bs, ck)
   }"

definition at_line :: "string \<Rightarrow> nat \<Rightarrow> string" where
  "at_line msg n = msg @ '' at line '' @ dec_digits n"

definition parse_mcs_record :: "string \<Rightarrow> nat \<Rightarrow> string + mcs_record" where
  "parse_mcs_record line line_num =
     (if length line < 11 \<or> line ! 0 \<noteq> CHR '':'' then Inl (at_line ''Invalid MCS record'' line_num)
      else case (mcs_hex_byte line 1, mcs_hex_byte line 3, mcs_hex_byte line 5, mcs_hex_byte line 7) of
        (Some len, Some addr_h, Some addr_l, Some type) \<Rightarrow>
          (let n = unat len
           in if length line < 1 + (4 + n + 1) * 2 then Inl (at_line ''MCS record too short'' line_num)
              else case mcs_data_bytes line 9 n (len + addr_h + addr_l + type) of
                None \<Rightarrow> Inl (at_line ''Bad data byte in MCS record'' line_num)
              | Some (bs, cksum) \<Rightarrow>
                  (case mcs_hex_byte line (9 + n * 2) of
                     None \<Rightarrow> Inl (at_line ''Missing checksum in MCS record'' line_num)
                   | Some ck \<Rightarrow>
                       if cksum + ck \<noteq> 0 then Inl (at_line ''Checksum mismatch in MCS record'' line_num)
                       else Inr \<lparr>mr_len = len, mr_addr = push_bit 8 (ucast addr_h) OR ucast addr_l, mr_type = type, mr_data = bs\<rparr>))
      | _ \<Rightarrow> Inl (at_line ''Bad hex digits in MCS record'' line_num))"

section \<open>The file\<close>

definition flash_capacity :: nat where
  "flash_capacity = 16 * 1024 * 1024"

definition word16_at :: "byte list \<Rightarrow> u32" where
  "word16_at bs = push_bit 8 (ucast (bs ! 0)) OR ucast (bs ! 1)"

text \<open>A data record at \<open>base\<close>: the vector grows with 0xFF, then the bytes are copied.\<close>

definition mcs_put :: "u32 \<Rightarrow> byte list \<Rightarrow> byte list \<Rightarrow> (string + byte list) option" where
  "mcs_put base bs out =
     (let end = base + of_nat (length bs)
      in if flash_capacity < unat end
         then Some (Inl (''MCS address 0x'' @ dec_digits (unat end) @ '' exceeds flash capacity''))
         else let out1 = out @ replicate (unat end - length out) 0xFF
              in if length out1 < unat base + length bs then None
                 else Some (Inr (take (unat base) out1 @ bs @ drop (unat base + length bs) out1)))"

definition strip_cr :: "string \<Rightarrow> string" where
  "strip_cr line = (if line \<noteq> [] \<and> last line = CHR 0x0D then butlast line else line)"

fun mcs_lines :: "string list \<Rightarrow> nat \<Rightarrow> u32 \<Rightarrow> byte list \<Rightarrow> (string + byte list) option" where
  "mcs_lines [] n upper out = Some (Inr out)"
| "mcs_lines (raw # ls) n upper out =
     (let line = strip_cr raw; n1 = Suc n
      in if line = [] \<or> line ! 0 \<noteq> CHR '':'' then mcs_lines ls n1 upper out
         else case parse_mcs_record line n1 of
           Inl e \<Rightarrow> Some (Inl e)
         | Inr r \<Rightarrow>
             if mr_type r = 1 then Some (Inr out)
             else if mr_type r = 4 then
               (if mr_len r \<noteq> 2 then Some (Inl (at_line ''Bad ELA record'' n1))
                else mcs_lines ls n1 (push_bit 16 (word16_at (mr_data r))) out)
             else if mr_type r = 2 then
               (if mr_len r \<noteq> 2 then Some (Inl (at_line ''Bad ESA record'' n1))
                else mcs_lines ls n1 (push_bit 4 (word16_at (mr_data r))) out)
             else if mr_type r = 0 then
               (case mcs_put (upper OR ucast (mr_addr r)) (mr_data r) out of
                  None \<Rightarrow> None
                | Some (Inl e) \<Rightarrow> Some (Inl e)
                | Some (Inr out1) \<Rightarrow> mcs_lines ls n1 upper out1)
             else mcs_lines ls n1 upper out)"

definition parse_mcs_to_image :: "string \<Rightarrow> string option \<Rightarrow> (string + byte list) option" where
  "parse_mcs_to_image path file =
     (case file of
        None \<Rightarrow> Some (Inl (''Cannot open MCS file: '' @ path))
      | Some text \<Rightarrow>
          (case mcs_lines (split_lines text) 0 0 [] of
             None \<Rightarrow> None
           | Some (Inl e) \<Rightarrow> Some (Inl e)
           | Some (Inr out) \<Rightarrow>
               if out = [] then Some (Inl (''No data records found in MCS file: '' @ path)) else Some (Inr out)))"

section \<open>Writing a file\<close>

definition hex_char :: "nat \<Rightarrow> char" where
  "hex_char n = char_of (if n < 10 then 48 + n else 55 + n)"

definition hex2 :: "byte \<Rightarrow> string" where
  "hex2 b = [hex_char (unat b div 16), hex_char (unat b mod 16)]"

text \<open>A record as a line: length, address, type, data and the checksum that makes the sum 0.\<close>

definition record_line :: "byte \<Rightarrow> byte \<Rightarrow> byte \<Rightarrow> byte list \<Rightarrow> string" where
  "record_line type addr_h addr_l bs =
     (let len = of_nat (length bs)
      in CHR '':'' # concat (map hex2 ([len, addr_h, addr_l, type] @ bs @ [- (len + addr_h + addr_l + type + sum_list bs)])))"

lemma hex_digit_char: "n < 16 \<Longrightarrow> mcs_hex_digit (hex_char n) = Some n"
  by (auto simp: mcs_hex_digit_def hex_char_def char_code_def of_char_of Let_def)

lemma length_hex2 [simp]: "length (hex2 b) = 2"
  by (simp add: hex2_def)

lemma length_hex_bytes [simp]: "length (concat (map hex2 bs)) = 2 * length bs"
  by (induction bs) auto

lemma hex_byte_at: "mcs_hex_byte (pre @ hex2 b @ suf) (length pre) = Some b"
proof -
  have b: "unat b < 256" using unsigned_less [where 'a = nat, of b] by simp
  then have "unat b div 16 < 16" by simp
  moreover have "(of_nat (16 * (unat b div 16) + unat b mod 16) :: byte) = b"
    by (simp only: mult_div_mod_eq) simp
  ultimately show ?thesis
    by (simp add: mcs_hex_byte_def hex2_def nth_append hex_digit_char del: of_nat_add of_nat_mult)
qed

lemma data_bytes_at:
  "mcs_data_bytes (pre @ concat (map hex2 bs) @ suf) (length pre) (length bs) ck = Some (bs, ck + sum_list bs)"
proof (induction bs arbitrary: pre ck)
  case (Cons b bs)
  have "mcs_hex_byte (pre @ hex2 b @ concat (map hex2 bs) @ suf) (length pre) = Some b" by (rule hex_byte_at)
  with Cons [of "pre @ hex2 b" "ck + b"] show ?case by (simp add: add.assoc)
qed simp

lemma record_line_parts:
  fixes len addr_h addr_l type ck :: byte and bs :: "byte list"
  defines "line \<equiv> CHR '':'' # concat (map hex2 ([len, addr_h, addr_l, type] @ bs @ [ck]))"
  shows "mcs_hex_byte line 1 = Some len" "mcs_hex_byte line 3 = Some addr_h" "mcs_hex_byte line 5 = Some addr_l"
    "mcs_hex_byte line 7 = Some type" "mcs_data_bytes line 9 (length bs) c = Some (bs, c + sum_list bs)"
    "mcs_hex_byte line (9 + length bs * 2) = Some ck" "length line = 11 + 2 * length bs"
proof -
  let ?c = "[CHR '':'']" and ?d = "concat (map hex2 bs)"
  have l: "line = ?c @ hex2 len @ hex2 addr_h @ hex2 addr_l @ hex2 type @ ?d @ hex2 ck" by (simp add: line_def)
  show "mcs_hex_byte line 1 = Some len" using hex_byte_at [of ?c len] by (simp add: l)
  show "mcs_hex_byte line 3 = Some addr_h" using hex_byte_at [of "?c @ hex2 len" addr_h] by (simp add: l)
  show "mcs_hex_byte line 5 = Some addr_l" using hex_byte_at [of "?c @ hex2 len @ hex2 addr_h" addr_l] by (simp add: l)
  show "mcs_hex_byte line 7 = Some type"
    using hex_byte_at [of "?c @ hex2 len @ hex2 addr_h @ hex2 addr_l" type] by (simp add: l)
  show "mcs_data_bytes line 9 (length bs) c = Some (bs, c + sum_list bs)"
    using data_bytes_at [of "?c @ hex2 len @ hex2 addr_h @ hex2 addr_l @ hex2 type" bs] by (simp add: l)
  have "9 + length bs * 2 = length (?c @ hex2 len @ hex2 addr_h @ hex2 addr_l @ hex2 type @ ?d)" by simp
  then show "mcs_hex_byte line (9 + length bs * 2) = Some ck"
    using hex_byte_at [of "?c @ hex2 len @ hex2 addr_h @ hex2 addr_l @ hex2 type @ ?d" ck "[]"] by (simp only: l append_assoc append_Nil2)
  show "length line = 11 + 2 * length bs" by (simp add: l)
qed

lemma parse_record_line:
  assumes "length bs < 256"
  shows "parse_mcs_record (record_line type addr_h addr_l bs) n =
     Inr \<lparr>mr_len = of_nat (length bs), mr_addr = push_bit 8 (ucast addr_h) OR ucast addr_l, mr_type = type, mr_data = bs\<rparr>"
proof -
  have u: "unat (of_nat (length bs) :: byte) = length bs" using assms by (simp add: unat_of_nat)
  have 0: "record_line type addr_h addr_l bs ! 0 = CHR '':''" by (simp add: record_line_def Let_def)
  note p = record_line_parts [of "of_nat (length bs)" addr_h addr_l type bs
     "- (of_nat (length bs) + addr_h + addr_l + type + sum_list bs)", folded record_line_def [unfolded Let_def]]
  show ?thesis unfolding parse_mcs_record_def using 0 p u by simp
qed

section \<open>The image of a file\<close>

text \<open>What a sequence of data and extended-linear-address records says about memory, by the Intel HEX
  format: a data record of upper address \<open>u\<close> puts its bytes at \<open>65536 u + addr\<close>.\<close>

datatype mcs_item = Mcs_data byte byte "byte list" | Mcs_ela byte byte

fun item_line :: "mcs_item \<Rightarrow> string" where
  "item_line (Mcs_data h l bs) = record_line 0 h l bs"
| "item_line (Mcs_ela h l) = record_line 4 0 0 [h, l]"

definition addr16 :: "byte \<Rightarrow> byte \<Rightarrow> nat" where
  "addr16 h l = 256 * unat h + unat l"

fun hex_memory :: "mcs_item list \<Rightarrow> nat \<Rightarrow> (nat \<rightharpoonup> byte) \<Rightarrow> (nat \<rightharpoonup> byte)" where
  "hex_memory [] u m = m"
| "hex_memory (Mcs_ela h l # rs) u m = hex_memory rs (addr16 h l) m"
| "hex_memory (Mcs_data h l bs # rs) u m =
     (let base = 65536 * u + addr16 h l
      in hex_memory rs u (\<lambda>i. if base \<le> i \<and> i < base + length bs then Some (bs ! (i - base)) else m i))"

fun items_fit :: "mcs_item list \<Rightarrow> nat \<Rightarrow> bool" where
  "items_fit [] u \<longleftrightarrow> True"
| "items_fit (Mcs_ela h l # rs) u \<longleftrightarrow> items_fit rs (addr16 h l)"
| "items_fit (Mcs_data h l bs # rs) u \<longleftrightarrow>
     bs \<noteq> [] \<and> length bs < 256 \<and> 65536 * u + addr16 h l + length bs \<le> flash_capacity \<and> items_fit rs u"

text \<open>An image holds a memory: its bytes, 0xFF where nothing was put, up to the last byte put.\<close>

definition image_holds :: "byte list \<Rightarrow> (nat \<rightharpoonup> byte) \<Rightarrow> bool" where
  "image_holds out m \<longleftrightarrow>
     (\<forall>i < length out. out ! i = (case m i of Some b \<Rightarrow> b | None \<Rightarrow> 0xFF)) \<and>
     (\<forall>i. m i \<noteq> None \<longrightarrow> i < length out) \<and> (out \<noteq> [] \<longrightarrow> m (length out - 1) \<noteq> None)"

definition mcs_text :: "bool \<Rightarrow> mcs_item list \<Rightarrow> string" where
  "mcs_text crlf items =
     concat (map (\<lambda>l. l @ (if crlf then [CHR 0x0D] else []) @ [newline]) (map item_line items @ [record_line 1 0 0 []]))"

lemma put_holds:
  assumes "image_holds out m" and "bs \<noteq> []" and "unat base + length bs \<le> flash_capacity"
  shows "\<exists>out'. mcs_put base bs out = Some (Inr out') \<and>
           image_holds out' (\<lambda>i. if unat base \<le> i \<and> i < unat base + length bs then Some (bs ! (i - unat base)) else m i)"
proof -
  let ?b = "unat base" and ?e = "unat base + length bs"
  let ?o1 = "out @ replicate (?e - length out) 0xFF"
  let ?o2 = "take ?b ?o1 @ bs @ drop ?e ?o1"
  have "unat (base + of_nat (length bs)) = ?e"
    using assms(3) by (simp add: unat_word_ariths unat_of_nat flash_capacity_def)
  then have put: "mcs_put base bs out = Some (Inr ?o2)" using assms(3) by (simp add: mcs_put_def Let_def)
  have len: "length ?o2 = max (length out) ?e" by simp
  have nth: "?o2 ! i = (if ?b \<le> i \<and> i < ?e then bs ! (i - ?b) else if i < length out then out ! i else 0xFF)"
    if "i < length ?o2" for i
    using that by (auto simp: nth_append min_def)
  have "image_holds ?o2 (\<lambda>i. if ?b \<le> i \<and> i < ?e then Some (bs ! (i - ?b)) else m i)"
    unfolding image_holds_def
  proof (intro conjI allI impI)
    fix i assume i: "i < length ?o2"
    have "m i = None" if "\<not> i < length out" using that assms(1) by (auto simp: image_holds_def)
    then show "?o2 ! i = (case if ?b \<le> i \<and> i < ?e then Some (bs ! (i - ?b)) else m i of Some b \<Rightarrow> b | None \<Rightarrow> 0xFF)"
      using assms(1) nth [OF i] by (auto simp: image_holds_def)
  next
    fix i assume "(if ?b \<le> i \<and> i < ?e then Some (bs ! (i - ?b)) else m i) \<noteq> None"
    then show "i < length ?o2" using assms(1) unfolding len by (auto simp: image_holds_def split: if_splits)
  next
    have "m (length out - 1) \<noteq> None" if "?e < length out"
      using that assms(1) by (auto simp: image_holds_def)
    moreover have "?b \<le> ?e - 1 \<and> ?e - 1 < ?e" using assms(2) by (cases bs) auto
    ultimately show "(if ?b \<le> length ?o2 - 1 \<and> length ?o2 - 1 < ?e then Some (bs ! (length ?o2 - 1 - ?b)) else m (length ?o2 - 1)) \<noteq> None"
      unfolding len by (auto simp: max_def image_holds_def)
  qed
  with put show ?thesis by blast
qed


lemma unat_addr16: "unat (push_bit 8 (ucast h :: 16 word) OR ucast (l :: byte)) = addr16 h l"
proof -
  have "push_bit 8 (ucast h :: 16 word) AND ucast l = 0"
    by (intro bit_word_eqI) (auto simp: bit_simps dest: bit_imp_le_length)
  then have "push_bit 8 (ucast h :: 16 word) OR ucast l = push_bit 8 (ucast h) + ucast l"
    by (simp add: disjunctive_add_eq_or)
  moreover have "unat h < 256" "unat l < 256" using unsigned_less [where 'a = nat, of h] unsigned_less [where 'a = nat, of l] by simp_all
  ultimately show ?thesis
    by (simp add: unat_word_ariths addr16_def push_bit_eq_mult unsigned_ucast_eq take_bit_nat_eq_self)
qed

lemma unat_upper: "unat (push_bit 16 (word16_at [h, l])) = 65536 * addr16 h l"
proof -
  have "push_bit 8 (ucast h :: u32) AND ucast l = 0"
    by (intro bit_word_eqI) (auto simp: bit_simps dest: bit_imp_le_length)
  then have "word16_at [h, l] = push_bit 8 (ucast h) + ucast l"
    by (simp add: word16_at_def disjunctive_add_eq_or)
  moreover have "unat h < 256" "unat l < 256" using unsigned_less [where 'a = nat, of h] unsigned_less [where 'a = nat, of l] by simp_all
  ultimately show ?thesis
    by (simp add: unat_word_ariths addr16_def push_bit_eq_mult unsigned_ucast_eq take_bit_nat_eq_self)
qed

lemma unat_base:
  assumes "unat upper = 65536 * u"
  shows "unat (upper OR ucast (a :: 16 word) :: u32) = 65536 * u + unat a"
proof -
  have "unat upper = push_bit 16 u" using assms by (simp add: push_bit_eq_mult)
  then have "\<not> bit (unat upper) i" if "i < 16" for i using that by (simp add: bit_push_bit_iff)
  then have "\<not> bit upper i" if "i < 16" for i using that by (simp add: bit_unsigned_iff)
  then have "upper AND ucast a = 0"
    by (intro bit_word_eqI) (auto simp: bit_simps dest: bit_imp_le_length)
  then have "upper OR ucast a = upper + ucast a" by (simp add: disjunctive_add_eq_or)
  moreover have "unat a < 65536" "unat upper < 2 ^ 32"
    using unsigned_less [where 'a = nat, of a] unsigned_less [where 'a = nat, of upper] by simp_all
  ultimately show ?thesis using assms by (simp add: unat_word_ariths unsigned_ucast_eq take_bit_nat_eq_self)
qed

lemma record_line_chars:
  "c \<in> set (record_line type h l bs) \<Longrightarrow> c \<noteq> newline \<and> c \<noteq> CHR 0x0D"
proof -
  have hex: "hex_char n \<noteq> newline \<and> hex_char n \<noteq> CHR 0x0D" if "n < 16" for n
  proof -
    have "char_code (hex_char n) \<ge> 48" using that by (auto simp: hex_char_def char_code_def of_char_of)
    then show ?thesis by (auto simp: newline_def char_code_def)
  qed
  have h2: "c \<noteq> newline \<and> c \<noteq> CHR 0x0D" if "c \<in> set (hex2 b)" for c b
  proof -
    have "unat b div 16 < 16" using unsigned_less [where 'a = nat, of b] by simp
    with that hex show ?thesis by (auto simp: hex2_def)
  qed
  assume "c \<in> set (record_line type h l bs)"
  then show ?thesis using h2 by (auto simp: record_line_def Let_def newline_def)
qed

lemma strip_record_line:
  "strip_cr (record_line type h l bs @ (if crlf then [CHR 0x0D] else [])) = record_line type h l bs"
proof -
  have "record_line type h l bs \<noteq> []" by (simp add: record_line_def Let_def)
  then have "last (record_line type h l bs) \<noteq> CHR 0x0D" using record_line_chars last_in_set by blast
  then show ?thesis by (simp add: strip_cr_def)
qed

lemma split_mcs_text:
  "split_lines (mcs_text crlf items) =
     map (\<lambda>l. l @ (if crlf then [CHR 0x0D] else [])) (map item_line items @ [record_line 1 0 0 []])"
proof -
  have gen: "split_lines (concat (map (\<lambda>l. l @ (if crlf then [CHR 0x0D] else []) @ [newline]) ls)) =
          map (\<lambda>l. l @ (if crlf then [CHR 0x0D] else [])) ls" if "\<forall>l \<in> set ls. newline \<notin> set l" for ls
    using that
  proof (induction ls)
    case (Cons l ls)
    have "newline \<notin> set (l @ (if crlf then [CHR 0x0D] else []))" using Cons(2) by (auto simp: newline_def)
    from split_lines_line [OF this] Cons show ?case by (auto simp: newline_def)
  qed simp
  have nl: "newline \<notin> set (record_line type h l bs)" for type h l bs using record_line_chars by blast
  moreover have "newline \<notin> set (item_line it)" for it by (cases it) (simp_all add: nl)
  ultimately have "\<forall>l \<in> set (map item_line items @ [record_line 1 0 0 []]). newline \<notin> set l" by auto
  from gen [OF this] show ?thesis unfolding mcs_text_def .
qed

lemma mcs_lines_record:
  assumes "length bs < 256"
  shows "mcs_lines ((record_line type h l bs @ (if crlf then [CHR 0x0D] else [])) # ls) n upper out =
     (if type = 1 then Some (Inr out)
      else if type = 4 then
        (if length bs \<noteq> 2 then Some (Inl (at_line ''Bad ELA record'' (Suc n)))
         else mcs_lines ls (Suc n) (push_bit 16 (word16_at bs)) out)
      else if type = 2 then
        (if length bs \<noteq> 2 then Some (Inl (at_line ''Bad ESA record'' (Suc n)))
         else mcs_lines ls (Suc n) (push_bit 4 (word16_at bs)) out)
      else if type = 0 then
        (case mcs_put (upper OR ucast (push_bit 8 (ucast h) OR ucast l :: 16 word)) bs out of
           None \<Rightarrow> None
         | Some (Inl e) \<Rightarrow> Some (Inl e)
         | Some (Inr out1) \<Rightarrow> mcs_lines ls (Suc n) upper out1)
      else mcs_lines ls (Suc n) upper out)"
proof -
  have "record_line type h l bs \<noteq> []" "record_line type h l bs ! 0 = CHR '':''" by (simp_all add: record_line_def Let_def)
  moreover have "(of_nat (length bs) :: byte) = 2 \<longleftrightarrow> length bs = 2"
    using assms by (simp add: word_unat_eq_iff unat_of_nat)
  ultimately show ?thesis by (simp add: strip_record_line parse_record_line [OF assms] Let_def)
qed

lemma mcs_lines_items:
  assumes "items_fit items u" and "image_holds out m" and "unat upper = 65536 * u"
  shows "\<exists>img. mcs_lines (map (\<lambda>l. l @ (if crlf then [CHR 0x0D] else [])) (map item_line items @ [record_line 1 0 0 []])) n upper out
                 = Some (Inr img) \<and> image_holds img (hex_memory items u m)"
  using assms
proof (induction items u m arbitrary: out upper n rule: hex_memory.induct)
  case (1 u m)
  then show ?case using mcs_lines_record [of "[]" 1 0 0 crlf "[]" n upper out] by simp
next
  case (2 h l rs u m)
  then show ?case using mcs_lines_record [of "[h, l]" 4 0 0] unat_upper [of h l] by simp
next
  case (3 h l bs rs u m)
  let ?a = "push_bit 8 (ucast h) OR ucast l :: 16 word"
  have b: "unat (upper OR ucast ?a :: u32) = 65536 * u + addr16 h l"
    using unat_base [OF 3(4), of ?a] by (simp add: unat_addr16)
  from 3(2) have fit: "bs \<noteq> []" "length bs < 256" "65536 * u + addr16 h l + length bs \<le> flash_capacity" "items_fit rs u" by auto
  from put_holds [OF 3(3) fit(1), of "upper OR ucast ?a", unfolded b, OF fit(3)] obtain out' where
    out': "mcs_put (upper OR ucast ?a) bs out = Some (Inr out')"
      "image_holds out' (\<lambda>i. if 65536 * u + addr16 h l \<le> i \<and> i < 65536 * u + addr16 h l + length bs
                              then Some (bs ! (i - (65536 * u + addr16 h l))) else m i)"
    by blast
  from 3(1) [OF refl fit(4) out'(2) 3(4), of "Suc n"] show ?case
    using mcs_lines_record [OF fit(2), of 0 h l crlf] out'(1) by (auto simp: Let_def)
qed

section \<open>Properties\<close>

text \<open>C37: a well-formed Intel HEX file made of data and extended-linear-address records that stay inside the
  flash, with either line ending, is read into exactly the image it describes: every byte is the last one
  written to its address, gaps are 0xFF and the image ends with the last byte written; a file that
  writes nothing is refused.\<close>

theorem parse_mcs_reads_image:
  assumes "items_fit items 0"
  shows "if hex_memory items 0 Map.empty = Map.empty
         then parse_mcs_to_image path (Some (mcs_text crlf items)) = Some (Inl (''No data records found in MCS file: '' @ path))
         else \<exists>img. parse_mcs_to_image path (Some (mcs_text crlf items)) = Some (Inr img) \<and>
                image_holds img (hex_memory items 0 Map.empty)"
proof -
  have "image_holds [] Map.empty" by (simp add: image_holds_def)
  from mcs_lines_items [OF assms this, of 0 crlf 0] obtain img where
    img: "mcs_lines (split_lines (mcs_text crlf items)) 0 0 [] = Some (Inr img)" "image_holds img (hex_memory items 0 Map.empty)"
    by (auto simp: split_mcs_text)
  moreover have "img = [] \<longleftrightarrow> hex_memory items 0 Map.empty = Map.empty"
    using img(2) by (auto simp: image_holds_def fun_eq_iff)
  ultimately show ?thesis by (simp add: parse_mcs_to_image_def)
qed

lemma parse_mcs_reads_image_witness:
  "\<exists>img. parse_mcs_to_image ''a.mcs'' (Some (mcs_text True [Mcs_ela 0 1, Mcs_data 0 2 [7, 8]])) = Some (Inr img) \<and> img ! 65539 = 8 \<and> img ! 0 = 0xFF"
proof -
  let ?items = "[Mcs_ela 0 1, Mcs_data 0 2 [7, 8]]"
  have fit: "items_fit ?items 0" by (simp add: addr16_def flash_capacity_def)
  have mem: "hex_memory ?items 0 Map.empty 65539 = Some 8" "hex_memory ?items 0 Map.empty 0 = None" by (simp_all add: addr16_def)
  then have "hex_memory ?items 0 Map.empty \<noteq> Map.empty" by (metis option.distinct(1))
  with parse_mcs_reads_image [OF fit, of "''a.mcs''" True] obtain img where
    img: "parse_mcs_to_image ''a.mcs'' (Some (mcs_text True ?items)) = Some (Inr img)" "image_holds img (hex_memory ?items 0 Map.empty)"
    by auto
  from img(2) have "i < length img" "img ! i = b" if "hex_memory ?items 0 Map.empty i = Some b" for i b
    using that by (auto simp: image_holds_def)
  with mem(1) have 8: "65539 < length img" "img ! 65539 = 8" by blast+
  moreover have "img ! 0 = 0xFF" using img(2) mem(2) 8(1) unfolding image_holds_def by fastforce
  ultimately show ?thesis using img(1) by blast
qed

text \<open>C38: a data record at the top of the 32-bit address space whose end wraps around is not refused: the
  capacity check sees the wrapped end and the copy goes past the vector, whatever the record holds.\<close>

theorem wrapping_record_overruns:
  assumes "bs \<noteq> []" and "length bs < 256" and "65536 \<le> addr16 h l + length bs"
  shows "mcs_lines (map item_line [Mcs_ela 0xFF 0xFF, Mcs_data h l bs]) n upper [] = None"
proof -
  let ?u = "push_bit 16 (word16_at [0xFF, 0xFF])" and ?a = "push_bit 8 (ucast h) OR ucast l :: 16 word"
  have b: "unat (?u OR ucast ?a :: u32) = 65536 * 65535 + addr16 h l"
    using unat_base [OF unat_upper, of "0xFF" "0xFF" ?a] by (simp add: unat_addr16) (simp add: addr16_def)
  have a: "addr16 h l < 65536" using unsigned_less [where 'a = nat, of ?a] by (simp add: unat_addr16)
  have "unat ((?u OR ucast ?a) + of_nat (length bs) :: u32) = addr16 h l + length bs - 65536"
    using assms(2,3) a by (simp add: unat_word_ariths b unat_of_nat mod_if)
  then have "mcs_put (?u OR ucast ?a) bs [] = None"
    using assms a b by (simp add: mcs_put_def Let_def flash_capacity_def)
  then show ?thesis
    using mcs_lines_record [of "[0xFF, 0xFF]" 4 0 0 False] mcs_lines_record [OF assms(2), of 0 h l False] by simp
qed

lemma wrapping_record_overruns_witness:
  "mcs_lines (map item_line [Mcs_ela 0xFF 0xFF, Mcs_data 0xFF 0xFF [1]]) 0 0 [] = None"
  by (rule wrapping_record_overruns) (simp_all add: addr16_def)

text \<open>A segment record (type 02) is combined with the offset by OR, where the format adds them: with the
  segment 0x0001 (address 16) the offset 0x0010 is read as address 16, not 32.\<close>

lemma segment_is_ored:
  "(push_bit 4 (word16_at [0, 1]) OR 0x10 :: u32) = 16" "(push_bit 4 (word16_at [0, 1]) + 0x10 :: u32) = 32"
  by code_simp+

end
