(* ===== verification/Flash_Programmer.thy ===== *)
theory Flash_Programmer
  imports Flash_Bridge Mcs_Parser
begin

text \<open>
  src/src/flash/flash_programmer.cpp: loading the bridge bitstream, checking the chip, erasing, programming
  and verifying.

  The contents of the two files are arguments.  The progress callback is the list of its calls.  The
  budgets are the status reads that end before the timeouts: \<open>erase_polls\<close> for the erase, \<open>page_polls off\<close>
  for the page at offset \<open>off\<close>.  The result is an error text or success; \<open>None\<close> is undefined behaviour.
  \<open>flash_session\<close> is steps (d) to (h), over any bridge; \<open>flash_program\<close> is the whole.
\<close>

datatype flash_phase = BRIDGE_LOAD | ERASE | PROGRAM | VERIFY

type_synonym flash_event = "flash_phase \<times> nat \<times> nat"

type_synonym 's flash_outcome = "((string + unit) \<times> 's \<times> flash_event list) option"

section \<open>The image file\<close>

definition load_bin_file :: "string \<Rightarrow> byte list option \<Rightarrow> string + byte list" where
  "load_bin_file path file =
     (case file of
        None \<Rightarrow> Inl (''Cannot open .bin file: '' @ path)
      | Some bs \<Rightarrow> if bs = [] then Inl (''Empty .bin file: '' @ path) else Inr bs)"

text \<open>From the last dot of the path on, in lower case.\<close>

definition file_ext :: "string \<Rightarrow> string option" where
  "file_ext path =
     (if CHR ''.'' \<notin> set path then None
      else Some (map to_lower (CHR ''.'' # rev (takeWhile (\<lambda>c. c \<noteq> CHR ''.'') (rev path)))))"

definition load_image_file :: "string \<Rightarrow> byte list option \<Rightarrow> (string + byte list) option" where
  "load_image_file path file =
     (if file_ext path = Some ''.mcs'' \<or> file_ext path = Some ''.hex''
      then parse_mcs_to_image path (map_option (map (\<lambda>b. char_of (unat b))) file)
      else Some (load_bin_file path file))"

section \<open>Programming and verifying\<close>

definition at_hex_text :: "string \<Rightarrow> nat \<Rightarrow> string \<Rightarrow> string" where
  "at_hex_text what off err = what @ '' at 0x'' @ dec_digits off @ '': '' @ err"

function program_pages ::
  "'s bridge_ops \<Rightarrow> (nat \<Rightarrow> nat) \<Rightarrow> byte list \<Rightarrow> nat \<Rightarrow> 's mt25q \<Rightarrow> 's mt25q flash_outcome" where
  "program_pages B page_polls img off f =
     (if off < length img then
        let n = min PAGE_SIZE (length img - off)
        in do {
          (ok, f1) \<leftarrow> page_program B (page_polls off) (of_nat off) (take n (drop off img)) f;
          if \<not> ok then Some (Inl (at_hex_text ''Page program failed'' off (fl_error f1)), f1, [])
          else do {
            (r, f2, ev) \<leftarrow> program_pages B page_polls img (off + PAGE_SIZE) f1;
            Some (r, f2, (PROGRAM, off + n, length img) # ev)
          }
        }
      else Some (Inr (), f, []))"
  by pat_completeness auto
termination
  by (relation "measure (\<lambda>(_, _, img, off, _). length img - off)") (auto simp: PAGE_SIZE_def)

definition VERIFY_CHUNK :: nat where "VERIFY_CHUNK = 4096"

definition mismatch_text :: "nat \<Rightarrow> byte \<Rightarrow> byte \<Rightarrow> string" where
  "mismatch_text pos wrote got =
     ''Verify mismatch at 0x'' @ hex_fmt 1 pos @ '': wrote 0x'' @ hex_fmt 2 (unat wrote) @ '', read 0x'' @ hex_fmt 2 (unat got)"

function verify_chunks :: "'s bridge_ops \<Rightarrow> byte list \<Rightarrow> nat \<Rightarrow> 's mt25q \<Rightarrow> 's mt25q flash_outcome" where
  "verify_chunks B img off f =
     (if off < length img then
        let n = min VERIFY_CHUNK (length img - off)
        in do {
          (rb, f1) \<leftarrow> flash_read B (of_nat off) n f;
          case rb of
            None \<Rightarrow> Some (Inl (at_hex_text ''Verify read failed'' off (fl_error f1)), f1, [])
          | Some bs \<Rightarrow>
              (case List.find (\<lambda>i. bs ! i \<noteq> img ! (off + i)) [0..<n] of
                 Some i \<Rightarrow> Some (Inl (mismatch_text (off + i) (img ! (off + i)) (bs ! i)), f1, [])
               | None \<Rightarrow> do {
                   (r, f2, ev) \<leftarrow> verify_chunks B img (off + VERIFY_CHUNK) f1;
                   Some (r, f2, (VERIFY, off + n, length img) # ev)
                 })
        }
      else Some (Inr (), f, []))"
  by pat_completeness auto
termination
  by (relation "measure (\<lambda>(_, img, off, _). length img - off)") (auto simp: VERIFY_CHUNK_def)

declare program_pages.simps [simp del] verify_chunks.simps [simp del]

text \<open>Steps (f) to (h) for an image.\<close>

definition write_image ::
  "'s bridge_ops \<Rightarrow> nat \<Rightarrow> (nat \<Rightarrow> nat) \<Rightarrow> byte list \<Rightarrow> 's mt25q \<Rightarrow> 's mt25q flash_outcome" where
  "write_image B erase_polls page_polls img f =
     (let total = length img
      in do {
        (ok, f1) \<leftarrow> bulk_erase B erase_polls f;
        if \<not> ok then Some (Inl (''Bulk erase failed: '' @ fl_error f1), f1, [(ERASE, 0, 0)])
        else do {
          (r, f2, ev) \<leftarrow> program_pages B page_polls img 0 f1;
          case r of
            Inl e \<Rightarrow> Some (Inl e, f2, [(ERASE, 0, 0), (PROGRAM, 0, total)] @ ev)
          | Inr _ \<Rightarrow> do {
              (r2, f3, ev2) \<leftarrow> verify_chunks B img 0 f2;
              Some (r2, f3, [(ERASE, 0, 0), (PROGRAM, 0, total)] @ ev @ (VERIFY, 0, total) # ev2)
            }
        }
      })"

definition flash_session ::
  "'s bridge_ops \<Rightarrow> nat \<Rightarrow> (nat \<Rightarrow> nat) \<Rightarrow> string \<Rightarrow> byte list option \<Rightarrow> 's mt25q \<Rightarrow> 's mt25q flash_outcome" where
  "flash_session B erase_polls page_polls path file f =
     do {
       (id, f1) \<leftarrow> read_id B f;
       case id of
         None \<Rightarrow> Some (Inl (''Flash ID read failed: '' @ fl_error f1), f1, [])
       | Some jedec \<Rightarrow>
           if jedec \<noteq> JEDEC_MT25QL128
           then Some (Inl (''Unsupported flash: JEDEC=0x'' @ hex_fmt 6 (unat jedec) @ '' (expected 0x'' @
                           hex_fmt 6 (unat JEDEC_MT25QL128) @ '')''), f1, [])
           else do {
             loaded \<leftarrow> load_image_file path file;
             case loaded of
               Inl e \<Rightarrow> Some (Inl e, f1, [])
             | Inr img \<Rightarrow>
                 if CAPACITY_BYTES < length img then Some (Inl ''Image exceeds flash capacity'', f1, [])
                 else write_image B erase_polls page_polls img f1
           }
     }"

definition flash_program ::
  "'d link \<Rightarrow> nat \<Rightarrow> (nat \<Rightarrow> nat) \<Rightarrow> int \<Rightarrow> string \<Rightarrow> byte list option \<Rightarrow> string \<Rightarrow> byte list option \<Rightarrow> 'd chain
     \<Rightarrow> 'd chain flash_outcome" where
  "flash_program L erase_polls page_polls pl_index bit_path bit_file path file c =
     do {
       (ok, p, c1, _) \<leftarrow> pl_program L bit_path bit_file \<lparr>pg_index = pl_index, pg_error = []\<rparr> c;
       if \<not> ok then Some (Inl (''Bridge bitstream load failed: '' @ pg_error p), c1, [(BRIDGE_LOAD, 0, 0)])
       else
         let (ok1, t1) = tap_reset L (jc_tap c1);
             (ok2, t2) = (if ok1 then tap_clk_idle L 16 t1 else (False, t1));
             c2 = c1\<lparr>jc_tap := t2\<rparr>
         in if \<not> ok2 then Some (Inl (''TAP reset after bridge load: '' @ tap_error t2), c2, [(BRIDGE_LOAD, 0, 0)])
            else do {
              (r, f, ev) \<leftarrow> flash_session (flash_bridge_ops L) erase_polls page_polls path file
                              \<lparr>fl_bridge = new_flash_bridge c2 pl_index, fl_error = []\<rparr>;
              Some (r, fb_chain (fl_bridge f), (BRIDGE_LOAD, 0, 0) # ev)
            }
     }"

section \<open>Every bridge that keeps the contract\<close>

context spi_bridge
begin

lemma program_pages_returns:
  "good (fl_bridge f) \<Longrightarrow> \<exists>r f' ev. program_pages B page_polls img off f = Some (r, f', ev) \<and> good (fl_bridge f')"
proof (induction "length img - off" arbitrary: off f rule: less_induct)
  case less
  let ?n = "min PAGE_SIZE (length img - off)"
  obtain ok f1 where 1: "page_program B (page_polls off) (of_nat off) (take ?n (drop off img)) f = Some (ok, f1)" "good (fl_bridge f1)"
    using page_program_returns [OF less(2)] by blast
  show ?case
  proof (cases "off < length img \<and> ok")
    case True
    then have "length img - (off + PAGE_SIZE) < length img - off" by (auto simp: PAGE_SIZE_def)
    from less(1) [OF this 1(2)] True 1 show ?thesis by (subst program_pages.simps) (auto simp: Let_def)
  next
    case False
    with 1 less(2) show ?thesis by (subst program_pages.simps) (auto simp: Let_def)
  qed
qed

lemma verify_chunks_returns:
  "good (fl_bridge f) \<Longrightarrow> \<exists>r f' ev. verify_chunks B img off f = Some (r, f', ev) \<and> good (fl_bridge f')"
proof (induction "length img - off" arbitrary: off f rule: less_induct)
  case less
  let ?n = "min VERIFY_CHUNK (length img - off)"
  obtain rb f1 where 1: "flash_read B (of_nat off) ?n f = Some (rb, f1)" "good (fl_bridge f1)"
    using flash_read_returns [OF less(2)] by blast
  show ?case
  proof (cases "off < length img \<and> rb \<noteq> None")
    case True
    then have "length img - (off + VERIFY_CHUNK) < length img - off" by (auto simp: VERIFY_CHUNK_def)
    from less(1) [OF this 1(2)] True 1 show ?thesis
      by (subst verify_chunks.simps) (auto simp: Let_def split: option.splits)
  next
    case False
    with 1 less(2) show ?thesis by (subst verify_chunks.simps) (auto simp: Let_def)
  qed
qed

lemma write_image_returns:
  assumes g: "good (fl_bridge f)"
  shows "\<exists>r f' ev. write_image B erase_polls page_polls img f = Some (r, f', ev) \<and> good (fl_bridge f')"
proof -
  obtain ok f1 where 1: "bulk_erase B erase_polls f = Some (ok, f1)" "good (fl_bridge f1)" using bulk_erase_returns [OF g] by blast
  obtain r f2 ev where 2: "program_pages B page_polls img 0 f1 = Some (r, f2, ev)" "good (fl_bridge f2)"
    using program_pages_returns [OF 1(2)] by blast
  obtain r2 f3 ev2 where 3: "verify_chunks B img 0 f2 = Some (r2, f3, ev2)" "good (fl_bridge f3)"
    using verify_chunks_returns [OF 2(2)] by blast
  show ?thesis using 1 2 3 by (cases ok; cases r) (simp_all add: write_image_def Let_def)
qed

lemma flash_session_returns:
  assumes g: "good (fl_bridge f)" and "load_image_file path file \<noteq> None"
  shows "\<exists>r f' ev. flash_session B erase_polls page_polls path file f = Some (r, f', ev) \<and> good (fl_bridge f')"
proof -
  obtain id f1 where 1: "read_id B f = Some (id, f1)" "good (fl_bridge f1)" using read_id_returns [OF g] by blast
  obtain loaded where 2: "load_image_file path file = Some loaded" using assms(2) by blast
  show ?thesis
  proof (cases "\<exists>img. id = Some JEDEC_MT25QL128 \<and> loaded = Inr img \<and> \<not> CAPACITY_BYTES < length img")
    case True
    with 1 2 write_image_returns [OF 1(2)] show ?thesis by (auto simp: flash_session_def)
  next
    case False
    with 1 2 show ?thesis by (cases id; cases loaded) (auto simp: flash_session_def)
  qed
qed

end

section \<open>Verification is sound\<close>

text \<open>What is assumed of the chip here: a READ that succeeds returns its memory and does not change it.  Nothing
  is assumed about what the other commands do to the memory.\<close>

definition reads_memory :: "'s bridge_ops \<Rightarrow> ('s \<Rightarrow> nat \<Rightarrow> byte) \<Rightarrow> bool" where
  "reads_memory B mem \<longleftrightarrow>
     (\<forall>s addr n rx s'. unat addr + n \<le> CAPACITY_BYTES \<longrightarrow>
        br_transfer B s (CMD_READ # addr_bytes addr @ replicate n 0) = Some (True, rx, s') \<longrightarrow>
        mem s' = mem s \<and> (\<forall>i < n. 4 + i < length rx \<longrightarrow> rx ! (4 + i) = mem s (unat addr + i)))"

lemma flash_read_memory:
  assumes "reads_memory B mem" and "flash_read B addr n f = Some (Some bs, f')" and "0 < n"
  shows "mem (fl_bridge f') = mem (fl_bridge f) \<and> (\<forall>i < n. bs ! i = mem (fl_bridge f) (unat addr + i))"
proof -
  have c: "unat addr + n \<le> CAPACITY_BYTES" using assms(2,3) by (simp add: flash_read_def split: if_splits)
  obtain rx s' where t: "br_transfer B (fl_bridge f) (CMD_READ # addr_bytes addr @ replicate n 0) = Some (True, rx, s')"
    "f' = f\<lparr>fl_bridge := s'\<rparr>" "4 + n \<le> length rx" "bs = take n (drop 4 rx)"
    using assms(2,3) c by (auto simp: flash_read_def fl_transfer_def split: if_splits bind_splits option.splits)
  from assms(1) c t(1) have "mem s' = mem (fl_bridge f) \<and> (\<forall>i < n. 4 + i < length rx \<longrightarrow> rx ! (4 + i) = mem (fl_bridge f) (unat addr + i))"
    unfolding reads_memory_def by blast
  with t(2-4) show ?thesis by simp
qed

lemma unat_offset: "n \<le> CAPACITY_BYTES \<Longrightarrow> unat (of_nat n :: u32) = n"
  by (simp add: CAPACITY_BYTES_def unat_of_nat)

lemma verify_chunks_memory:
  assumes "reads_memory B mem" and "length img \<le> CAPACITY_BYTES"
  shows "verify_chunks B img off f = Some (Inr u, f', ev) \<Longrightarrow>
     mem (fl_bridge f') = mem (fl_bridge f) \<and> (\<forall>i. off \<le> i \<longrightarrow> i < length img \<longrightarrow> mem (fl_bridge f) i = img ! i)"
proof (induction "length img - off" arbitrary: off f ev rule: less_induct)
  case less
  show ?case
  proof (cases "off < length img")
    case False
    with less(2) show ?thesis by (subst (asm) verify_chunks.simps) simp
  next
    case True
    define n where "n = min VERIFY_CHUNK (length img - off)"
    have n: "0 < n" using True by (simp add: n_def VERIFY_CHUNK_def)
    from less(2) True obtain bs f1 ev' where
      rd: "flash_read B (of_nat off) n f = Some (Some bs, f1)" and eq: "List.find (\<lambda>i. bs ! i \<noteq> img ! (off + i)) [0..<n] = None"
      and rest: "verify_chunks B img (off + VERIFY_CHUNK) f1 = Some (Inr u, f', ev')"
      by (subst (asm) verify_chunks.simps) (auto simp: Let_def n_def split: bind_splits option.splits)
    have "length img - (off + VERIFY_CHUNK) < length img - off" using True by (auto simp: VERIFY_CHUNK_def)
    from less(1) [OF this rest] have IH: "mem (fl_bridge f') = mem (fl_bridge f1)"
      "\<forall>i. off + VERIFY_CHUNK \<le> i \<longrightarrow> i < length img \<longrightarrow> mem (fl_bridge f1) i = img ! i" by auto
    have u: "unat (of_nat off :: u32) = off" using True assms(2) by (simp add: unat_offset)
    from flash_read_memory [OF assms(1) rd n] have m: "mem (fl_bridge f1) = mem (fl_bridge f)"
      "\<forall>i < n. bs ! i = mem (fl_bridge f) (off + i)" by (simp_all add: u)
    have same: "bs ! i = img ! (off + i)" if "i < n" for i using eq that by (auto simp: find_None_iff)
    have "mem (fl_bridge f) i = img ! i" if "off \<le> i" "i < length img" for i
    proof (cases "i < off + VERIFY_CHUNK")
      case True
      with that have "i - off < n" by (auto simp: n_def)
      with same [OF this] m(2) that(1) show ?thesis by simp
    next
      case False
      with IH(2) that m(1) show ?thesis by simp
    qed
    with IH(1) m(1) show ?thesis by simp
  qed
qed

section \<open>Programming a working chip\<close>

lemma and_erased: "(0xFF :: byte) AND b = b"
proof -
  have "(0xFF :: byte) = - 1" by simp
  then show ?thesis by (simp only: and.left_neutral)
qed

definition partly_written :: "byte list \<Rightarrow> nat \<Rightarrow> nor \<Rightarrow> bool" where
  "partly_written img off d \<longleftrightarrow>
     d = \<lparr>nf_mem = (\<lambda>i. if i < off \<and> i < length img then img ! i else 0xFF), nf_wel = False, nf_busy = 0\<rparr>"

lemma program_pages_chip:
  assumes "drives_nor B good chip e p sure" and "length img \<le> CAPACITY_BYTES"
  shows "good (fl_bridge f) \<Longrightarrow> 256 dvd off \<Longrightarrow> partly_written img off (chip (fl_bridge f)) \<Longrightarrow>
     \<exists>r f' ev. program_pages B page_polls img off f = Some (r, f', ev) \<and> good (fl_bridge f') \<and>
       (sure \<longrightarrow> (\<forall>a. p \<le> page_polls a) \<longrightarrow> r = Inr ()) \<and>
       (r = Inr () \<longrightarrow> partly_written img (length img) (chip (fl_bridge f')))"
proof (induction "length img - off" arbitrary: off f rule: less_induct)
  case less
  show ?case
  proof (cases "off < length img")
    case False
    then have "partly_written img (length img) (chip (fl_bridge f))" using less(4) by (auto simp: partly_written_def fun_eq_iff)
    with False less(2) show ?thesis by (subst program_pages.simps) simp
  next
    case True
    define n where "n = min PAGE_SIZE (length img - off)"
    let ?bs = "take n (drop off img)"
    have len: "length ?bs = n" "0 < n" "n \<le> 256" "off + n \<le> length img" using True by (auto simp: n_def PAGE_SIZE_def)
    have u: "unat (of_nat off :: u32) = off" using True assms(2) by (simp add: unat_offset)
    have busy: "nf_busy (chip (fl_bridge f)) = 0" using less(4) by (simp add: partly_written_def)
    obtain ok f1 where 1: "page_program B (page_polls off) (of_nat off) ?bs f = Some (ok, f1)" "good (fl_bridge f1)"
      "sure \<longrightarrow> p \<le> page_polls off \<longrightarrow> ok"
      "ok \<longrightarrow> chip (fl_bridge f1) = \<lparr>nf_mem = programmed off ?bs (nf_mem (chip (fl_bridge f))), nf_wel = False, nf_busy = 0\<rparr>"
      using drives_page_program [OF assms(1) less(2) busy, of "of_nat off" ?bs "page_polls off"] less(3) len assms(2) True
      by (auto simp: u)
    show ?thesis
    proof (cases ok)
      case False
      with True 1 show ?thesis by (subst program_pages.simps) (auto simp: Let_def n_def)
    next
      case ok: True
      have "programmed off ?bs (nf_mem (chip (fl_bridge f))) = (\<lambda>i. if i < off + n \<and> i < length img then img ! i else 0xFF)"
        using less(4) len by (auto simp: partly_written_def programmed_def fun_eq_iff and_erased)
      moreover have "(i < off + n \<and> i < length img) = (i < off + PAGE_SIZE \<and> i < length img)" for i
        by (auto simp: n_def PAGE_SIZE_def)
      ultimately have w: "partly_written img (off + PAGE_SIZE) (chip (fl_bridge f1))" using 1(4) ok by (simp add: partly_written_def)
      have "length img - (off + PAGE_SIZE) < length img - off" "256 dvd off + PAGE_SIZE"
        using True less(3) by (auto simp: PAGE_SIZE_def)
      from less(1) [OF this(1) 1(2) this(2) w] True ok 1 show ?thesis
        by (subst program_pages.simps) (auto simp: Let_def n_def)
    qed
  qed
qed

lemma verify_chunks_chip:
  assumes "drives_nor B good chip e p sure" and "length img \<le> CAPACITY_BYTES"
  shows "good (fl_bridge f) \<Longrightarrow> partly_written img (length img) (chip (fl_bridge f)) \<Longrightarrow>
     \<exists>r f' ev. verify_chunks B img off f = Some (r, f', ev) \<and> good (fl_bridge f') \<and> (sure \<longrightarrow> r = Inr ()) \<and>
       (r = Inr () \<longrightarrow> chip (fl_bridge f') = chip (fl_bridge f))"
proof (induction "length img - off" arbitrary: off f rule: less_induct)
  case less
  show ?case
  proof (cases "off < length img")
    case False
    with less(2) show ?thesis by (subst verify_chunks.simps) simp
  next
    case True
    define n where "n = min VERIFY_CHUNK (length img - off)"
    have n: "0 < n" "off + n \<le> length img" using True by (auto simp: n_def VERIFY_CHUNK_def)
    have u: "unat (of_nat off :: u32) = off" using True assms(2) by (simp add: unat_offset)
    have busy: "nf_busy (chip (fl_bridge f)) = 0" using less(3) by (simp add: partly_written_def)
    obtain rb f1 where 1: "flash_read B (of_nat off) n f = Some (rb, f1)" "good (fl_bridge f1)" "sure \<longrightarrow> rb \<noteq> None"
      "\<forall>bs. rb = Some bs \<longrightarrow> bs = map (\<lambda>i. nf_mem (chip (fl_bridge f)) (off + i)) [0..<n] \<and> chip (fl_bridge f1) = chip (fl_bridge f)"
      using drives_flash_read [OF assms(1) less(2) busy n(1), of "of_nat off"] n(2) assms(2) by (auto simp: u)
    show ?thesis
    proof (cases rb)
      case None
      with True 1 show ?thesis by (subst verify_chunks.simps) (auto simp: Let_def n_def)
    next
      case (Some bs)
      have "bs ! i = img ! (off + i)" if "i < n" for i
        using that 1(4) Some n(2) less(3) by (simp add: partly_written_def)
      then have ok: "List.find (\<lambda>i. bs ! i \<noteq> img ! (off + i)) [0..<n] = None" by (auto simp: find_None_iff)
      have "length img - (off + VERIFY_CHUNK) < length img - off" using True by (auto simp: VERIFY_CHUNK_def)
      from less(1) [OF this 1(2)] less(3) 1 True Some ok show ?thesis
        by (subst verify_chunks.simps) (auto simp: Let_def n_def)
    qed
  qed
qed

lemma write_image_chip:
  assumes "drives_nor B good chip e p sure" and "length img \<le> CAPACITY_BYTES" and "good (fl_bridge f)"
    and "nf_busy (chip (fl_bridge f)) = 0"
  shows "\<exists>r f' ev. write_image B erase_polls page_polls img f = Some (r, f', ev) \<and>
       (sure \<longrightarrow> e \<le> erase_polls \<longrightarrow> (\<forall>a. p \<le> page_polls a) \<longrightarrow> r = Inr ()) \<and>
       (r = Inr () \<longrightarrow> partly_written img (length img) (chip (fl_bridge f')))"
proof -
  obtain ok f1 where 1: "bulk_erase B erase_polls f = Some (ok, f1)" "good (fl_bridge f1)" "sure \<longrightarrow> e \<le> erase_polls \<longrightarrow> ok"
    "ok \<longrightarrow> chip (fl_bridge f1) = \<lparr>nf_mem = (\<lambda>_. 0xFF), nf_wel = False, nf_busy = 0\<rparr>"
    using drives_bulk_erase [OF assms(1,3,4)] by blast
  show ?thesis
  proof (cases ok)
    case False
    with 1 show ?thesis by (auto simp: write_image_def)
  next
    case True
    with 1(4) have w: "partly_written img 0 (chip (fl_bridge f1))" by (simp add: partly_written_def)
    obtain r f2 ev where 2: "program_pages B page_polls img 0 f1 = Some (r, f2, ev)" "good (fl_bridge f2)"
      "sure \<longrightarrow> (\<forall>a. p \<le> page_polls a) \<longrightarrow> r = Inr ()" "r = Inr () \<longrightarrow> partly_written img (length img) (chip (fl_bridge f2))"
      using program_pages_chip [OF assms(1,2) 1(2) dvd_0_right w, of page_polls] by blast
    show ?thesis
    proof (cases r)
      case (Inl err)
      with 1 2 True show ?thesis by (auto simp: write_image_def Let_def)
    next
      case (Inr x)
      with 2(4) have w2: "partly_written img (length img) (chip (fl_bridge f2))" by simp
      from verify_chunks_chip [OF assms(1,2) 2(2) w2, of 0] obtain r2 f3 ev2 where
        "verify_chunks B img 0 f2 = Some (r2, f3, ev2)" "sure \<longrightarrow> r2 = Inr ()" "r2 = Inr () \<longrightarrow> chip (fl_bridge f3) = chip (fl_bridge f2)"
        by blast
      with 1 2 True Inr w2 show ?thesis by (simp add: write_image_def Let_def)
    qed
  qed
qed

lemma flash_session_chip:
  assumes "drives_nor B good chip e p sure" and "good (fl_bridge f)" and "nf_busy (chip (fl_bridge f)) = 0"
    and "load_image_file path file = Some (Inr img)" and "length img \<le> CAPACITY_BYTES"
  shows "\<exists>r f' ev. flash_session B erase_polls page_polls path file f = Some (r, f', ev) \<and>
           (sure \<longrightarrow> e \<le> erase_polls \<longrightarrow> (\<forall>a. p \<le> page_polls a) \<longrightarrow> r = Inr ()) \<and>
           (r = Inr () \<longrightarrow> nf_mem (chip (fl_bridge f')) = (\<lambda>i. if i < length img then img ! i else 0xFF) \<and>
                           nf_busy (chip (fl_bridge f')) = 0 \<and> \<not> nf_wel (chip (fl_bridge f')))"
proof -
  obtain r f1 where 1: "read_id B f = Some (r, f1)" "good (fl_bridge f1)" "sure \<longrightarrow> r \<noteq> None"
    "\<forall>j. r = Some j \<longrightarrow> j = JEDEC_MT25QL128 \<and> chip (fl_bridge f1) = chip (fl_bridge f)"
    using drives_read_id [OF assms(1-3)] by blast
  show ?thesis
  proof (cases r)
    case None
    with 1 show ?thesis by (simp add: flash_session_def)
  next
    case (Some j)
    with 1 assms(3) have j: "j = JEDEC_MT25QL128" "nf_busy (chip (fl_bridge f1)) = 0" by simp_all
    have "flash_session B erase_polls page_polls path file f = write_image B erase_polls page_polls img f1"
      using 1(1) Some j(1) assms(4,5) by (simp add: flash_session_def)
    moreover obtain r' f' ev where "write_image B erase_polls page_polls img f1 = Some (r', f', ev)"
      "sure \<longrightarrow> e \<le> erase_polls \<longrightarrow> (\<forall>a. p \<le> page_polls a) \<longrightarrow> r' = Inr ()"
      "r' = Inr () \<longrightarrow> partly_written img (length img) (chip (fl_bridge f'))"
      using write_image_chip [OF assms(1,5) 1(2) j(2), of erase_polls page_polls] by blast
    ultimately show ?thesis by (simp add: partly_written_def)
  qed
qed

section \<open>Properties\<close>

text \<open>C35: if a flash session reports success, the memory of the chip holds the image from address 0 on: the
  verification is sound whatever the erase and program commands really did, as long as READ tells the truth.\<close>

theorem flash_success_is_verified:
  assumes "flash_session B erase_polls page_polls path file f = Some (Inr (), f', ev)" and "reads_memory B mem"
  shows "\<exists>img. load_image_file path file = Some (Inr img) \<and> length img \<le> CAPACITY_BYTES \<and>
           (\<forall>i < length img. mem (fl_bridge f') i = img ! i)"
proof -
  obtain img f1 where img: "load_image_file path file = Some (Inr img)" "length img \<le> CAPACITY_BYTES"
    "write_image B erase_polls page_polls img f1 = Some (Inr (), f', ev)"
    using assms(1) by (auto simp: flash_session_def split: bind_splits option.splits sum.splits if_splits)
  obtain f2 ev2 where "verify_chunks B img 0 f2 = Some (Inr (), f', ev2)"
    using img(3) by (auto simp: write_image_def Let_def split: bind_splits sum.splits if_splits)
  from verify_chunks_memory [OF assms(2) img(2) this] img(1,2) show ?thesis by auto
qed

text \<open>C36: with an idle chip behind the bridge and a loadable image, a session returns; if it succeeds the
  whole chip holds the image followed by 0xFF; and it does succeed when no transfer fails and the polls last as long as
  the chip is busy.\<close>

theorem flash_session_writes_image:
  assumes "drives_nor B good chip e p sure" and "good (fl_bridge f)" and "nf_busy (chip (fl_bridge f)) = 0"
    and "load_image_file path file = Some (Inr img)" and "length img \<le> CAPACITY_BYTES"
  shows "\<exists>r f' ev. flash_session B erase_polls page_polls path file f = Some (r, f', ev) \<and>
           (sure \<longrightarrow> e \<le> erase_polls \<longrightarrow> (\<forall>a. p \<le> page_polls a) \<longrightarrow> r = Inr ()) \<and>
           (r = Inr () \<longrightarrow> nf_mem (chip (fl_bridge f')) = (\<lambda>i. if i < length img then img ! i else 0xFF) \<and>
                           nf_busy (chip (fl_bridge f')) = 0 \<and> \<not> nf_wel (chip (fl_bridge f')))"
  by (rule flash_session_chip [OF assms])

text \<open>Through the JTAG bridge a session always returns, whatever the probe answers: the driver never reads
  past the bytes it received.\<close>

theorem flash_session_never_overruns:
  fixes L :: "'d link"
  assumes "short_irs (fl_bridge f)" and "load_image_file path file \<noteq> None"
  shows "flash_session (flash_bridge_ops L) erase_polls page_polls path file f \<noteq> None"
  using jtag_spi.flash_session_returns [OF assms, of L erase_polls page_polls] by auto

text \<open>A chip with nothing between it and the driver, and a two-byte image.\<close>

definition nor_bridge :: "nor bridge_ops" where
  "nor_bridge = \<lparr>br_transfer = (\<lambda>d tx. Some (True, nor_cmd 3 2 tx d)), br_error = (\<lambda>_. [])\<rparr>"

lemma nor_bridge_drives: "drives_nor nor_bridge (\<lambda>_. True) id 3 2 True"
  unfolding drives_nor_def
proof (intro allI impI exI conjI)
  fix s tx
  show "br_transfer nor_bridge s tx = Some (True, fst (nor_cmd 3 2 tx s), snd (nor_cmd 3 2 tx s))"
    by (simp add: nor_bridge_def)
qed simp_all

definition fresh_nor :: "nor mt25q" where
  "fresh_nor = \<lparr>fl_bridge = \<lparr>nf_mem = (\<lambda>_. 0), nf_wel = False, nf_busy = 0\<rparr>, fl_error = []\<rparr>"

lemma load_demo_image: "load_image_file ''a.bin'' (Some [1, 2]) = Some (Inr [1, 2])"
  by (simp add: load_image_file_def load_bin_file_def file_ext_def to_lower_def is_upper_def char_code_def)

lemma demo_chip: "nf_busy (id (fl_bridge fresh_nor)) = 0" "length [1, 2 :: byte] \<le> CAPACITY_BYTES"
  by (simp_all add: fresh_nor_def CAPACITY_BYTES_def)

lemma flash_session_writes_image_witness:
  "\<exists>f' ev. flash_session nor_bridge 3 (\<lambda>_. 2) ''a.bin'' (Some [1, 2]) fresh_nor = Some (Inr (), f', ev) \<and>
     nf_mem (fl_bridge f') 1 = 2 \<and> nf_mem (fl_bridge f') 2 = 0xFF"
proof -
  obtain f' ev where "flash_session nor_bridge 3 (\<lambda>_. 2) ''a.bin'' (Some [1, 2]) fresh_nor = Some (Inr (), f', ev)"
    "nf_mem (id (fl_bridge f')) = (\<lambda>i. if i < length [1, 2 :: byte] then [1, 2] ! i else 0xFF)"
    using flash_session_writes_image [OF nor_bridge_drives TrueI demo_chip(1) load_demo_image demo_chip(2), of 3 "\<lambda>_. 2"] by blast
  then show ?thesis by auto
qed

lemma demo_session:
  "\<exists>f' ev. flash_session nor_bridge 3 (\<lambda>_. 2) ''a.bin'' (Some [1, 2]) fresh_nor = Some (Inr (), f', ev)"
  using flash_session_chip [OF nor_bridge_drives TrueI demo_chip(1) load_demo_image demo_chip(2), of 3 "\<lambda>_. 2"] by blast

lemma nor_bridge_reads: "reads_memory nor_bridge (\<lambda>d. if nf_busy d = 0 then nf_mem d else (\<lambda>_. 0))"
  by (auto simp: reads_memory_def nor_bridge_def nor_cmd_def CMD_READ_def Let_def nor_addr_bytes CAPACITY_BYTES_def)

lemma flash_success_is_verified_witness:
  "\<exists>f' ev. flash_session nor_bridge 3 (\<lambda>_. 2) ''a.bin'' (Some [1, 2]) fresh_nor = Some (Inr (), f', ev) \<and>
     (if nf_busy (fl_bridge f') = 0 then nf_mem (fl_bridge f') else (\<lambda>_. 0)) 1 = 2"
proof -
  obtain f' ev where r: "flash_session nor_bridge 3 (\<lambda>_. 2) ''a.bin'' (Some [1, 2]) fresh_nor = Some (Inr (), f', ev)"
    using demo_session by blast
  from flash_success_is_verified [OF r nor_bridge_reads] load_demo_image show ?thesis using r by force
qed

lemma flash_session_never_overruns_witness:
  "flash_session (flash_bridge_ops (chain_link [])) 3 (\<lambda>_. 2) ''a.bin'' (Some [1, 2])
     \<lparr>fl_bridge = new_flash_bridge (two_dev_chain 8) 0, fl_error = []\<rparr> \<noteq> None"
  by (rule flash_session_never_overruns)
    (simp_all add: short_irs_def new_flash_bridge_def two_dev_chain_def new_device_def load_demo_image)

end
