(* ===== verification/Bsdl_Lexer.thy ===== *)
theory Bsdl_Lexer
  imports Cxx_Strings
begin

text \<open>
  src/src/bsdl/bsdl_lexer.{h,cpp}: the tokenizer for BSDL text.  The position in the source is the rest of it;
  \<open>lx_peeked\<close> is the cached token of \<open>peekToken\<close>.

  \<open>token_stream\<close> is the list of tokens before the end of the file.  The lemmas show that \<open>nextToken\<close> and
  \<open>peekToken\<close>, in any order, walk along that list, so that the parser can be modelled over it.
\<close>

section \<open>Tokens\<close>

datatype token_type =
    Tk_IDENTIFIER | Tk_STRING_LITERAL | Tk_INTEGER | Tk_BIT_STRING | Tk_LPAREN | Tk_RPAREN | Tk_COMMA
  | Tk_SEMICOLON | Tk_COLON | Tk_AMPERSAND | Tk_DOT | Tk_ASSIGN | Tk_END_OF_FILE | Tk_ERROR

record token =
  tk_type :: token_type
  tk_value :: string
  tk_line :: nat
  tk_column :: nat

record lexer =
  lx_rest :: string
  lx_line :: nat
  lx_column :: nat
  lx_peeked :: "token option"

definition new_lexer :: "string \<Rightarrow> lexer" where
  "new_lexer source = \<lparr>lx_rest = source, lx_line = 1, lx_column = 1, lx_peeked = None\<rparr>"

section \<open>Characters\<close>

text \<open>\<open>advance\<close> and \<open>peek\<close> are only used before the end.\<close>

definition lx_advance :: "lexer \<Rightarrow> lexer" where
  "lx_advance lx =
     (if lx_rest lx \<noteq> [] \<and> hd (lx_rest lx) = newline
      then lx\<lparr>lx_rest := tl (lx_rest lx), lx_line := lx_line lx + 1, lx_column := 1\<rparr>
      else lx\<lparr>lx_rest := tl (lx_rest lx), lx_column := lx_column lx + 1\<rparr>)"

lemma lx_advance_simps [simp]:
  "lx_rest (lx_advance lx) = tl (lx_rest lx)" "lx_peeked (lx_advance lx) = lx_peeked lx"
  by (simp_all add: lx_advance_def)

definition make_token :: "token_type \<Rightarrow> string \<Rightarrow> lexer \<Rightarrow> token" where
  "make_token ty value lx = \<lparr>tk_type = ty, tk_value = value, tk_line = lx_line lx, tk_column = lx_column lx\<rparr>"

text \<open>Characters are consumed while \<open>P\<close> holds.\<close>

function lx_while :: "(char \<Rightarrow> bool) \<Rightarrow> lexer \<Rightarrow> string \<times> lexer" where
  "lx_while P lx =
     (if lx_rest lx \<noteq> [] \<and> P (hd (lx_rest lx))
      then case lx_while P (lx_advance lx) of (v, l) \<Rightarrow> (hd (lx_rest lx) # v, l)
      else ([], lx))"
  by pat_completeness auto
termination
  by (relation "measure (\<lambda>(_, lx). length (lx_rest lx))") auto

declare lx_while.simps [simp del]

definition skip_comment :: "lexer \<Rightarrow> lexer" where
  "skip_comment lx = snd (lx_while (\<lambda>c. c \<noteq> newline) lx)"

definition is_blank :: "char \<Rightarrow> bool" where
  "is_blank c \<longleftrightarrow> c = CHR '' '' \<or> c = CHR 0x09 \<or> c = CHR 0x0D \<or> c = newline"

lemma lx_while_rest:
  "fst (lx_while P lx) = takeWhile P (lx_rest lx)" "lx_rest (snd (lx_while P lx)) = dropWhile P (lx_rest lx)"
  "lx_peeked (snd (lx_while P lx)) = lx_peeked lx"
proof (induction P lx rule: lx_while.induct)
  case (1 P lx)
  {
    case 1
    then show ?case using "1.IH"(1) by (cases "lx_rest lx") (simp_all add: lx_while.simps [of P lx] split_beta)
  next
    case 2
    then show ?case using "1.IH"(2) by (cases "lx_rest lx") (simp_all add: lx_while.simps [of P lx] split_beta)
  next
    case 3
    then show ?case using "1.IH"(3) by (cases "lx_rest lx") (simp_all add: lx_while.simps [of P lx] split_beta)
  }
qed

function skip_whitespace :: "lexer \<Rightarrow> lexer" where
  "skip_whitespace lx =
     (case lx_rest lx of
        [] \<Rightarrow> lx
      | c # r \<Rightarrow>
          if is_blank c then skip_whitespace (lx_advance lx)
          else if c = CHR ''-'' \<and> r \<noteq> [] \<and> hd r = CHR ''-'' then skip_whitespace (skip_comment lx)
          else lx)"
  by pat_completeness auto
termination
proof (relation "measure (\<lambda>lx. length (lx_rest lx))")
  fix lx :: lexer and c r
  assume r: "lx_rest lx = c # r" "\<not> is_blank c" "c = CHR ''-'' \<and> r \<noteq> [] \<and> hd r = CHR ''-''"
  then have "lx_rest (skip_comment lx) = dropWhile (\<lambda>c. c \<noteq> newline) r"
    by (simp add: skip_comment_def lx_while_rest newline_def)
  then show "(skip_comment lx, lx) \<in> measure (\<lambda>lx. length (lx_rest lx))"
    using r(1) length_dropWhile_le [of "\<lambda>c. c \<noteq> newline" r] by simp
qed auto

declare skip_whitespace.simps [simp del]

section \<open>Reading one token\<close>

definition is_ident_char :: "char \<Rightarrow> bool" where
  "is_ident_char c \<longleftrightarrow> is_alnum c \<or> c = CHR ''_''"

definition read_identifier :: "lexer \<Rightarrow> token \<times> lexer" where
  "read_identifier lx = (case lx_while is_ident_char lx of (v, l) \<Rightarrow> (make_token Tk_IDENTIFIER (str_upper v) lx, l))"

definition read_integer :: "lexer \<Rightarrow> token \<times> lexer" where
  "read_integer lx = (case lx_while is_digit lx of (v, l) \<Rightarrow> (make_token Tk_INTEGER v lx, l))"

text \<open>The part behind the opening quote; \<open>None\<close> when the literal is not terminated.\<close>

definition dquote :: char where
  "dquote = CHR 0x22"

function string_body :: "lexer \<Rightarrow> string option \<times> lexer" where
  "string_body lx =
     (if lx_rest lx = [] then (None, lx)
      else let c = hd (lx_rest lx); l1 = lx_advance lx
           in if c = dquote
              then (if lx_rest l1 \<noteq> [] \<and> hd (lx_rest l1) = dquote
                    then case string_body (lx_advance l1) of (v, l) \<Rightarrow> (map_option (Cons dquote) v, l)
                    else (Some [], l1))
              else case string_body l1 of (v, l) \<Rightarrow> (map_option (Cons c) v, l))"
  by pat_completeness auto
termination
  by (relation "measure (\<lambda>lx. length (lx_rest lx))") (auto simp: less_Suc_eq_le intro: le_trans)

declare string_body.simps [simp del]

definition read_string_literal :: "lexer \<Rightarrow> token \<times> lexer" where
  "read_string_literal lx =
     (case string_body (lx_advance lx) of
        (None, l) \<Rightarrow> (make_token Tk_ERROR ''Unterminated string literal'' lx, l)
      | (Some v, l) \<Rightarrow> (make_token Tk_STRING_LITERAL v lx, l))"

definition read_punctuation :: "lexer \<Rightarrow> token \<times> lexer" where
  "read_punctuation lx =
     (let c = hd (lx_rest lx); l = lx_advance lx;
          one = (\<lambda>ty. (make_token ty [c] l, l))
      in if c = CHR ''('' then one Tk_LPAREN
         else if c = CHR '')'' then one Tk_RPAREN
         else if c = CHR '','' then one Tk_COMMA
         else if c = CHR '';'' then one Tk_SEMICOLON
         else if c = CHR ''&'' then one Tk_AMPERSAND
         else if c = CHR ''.'' then one Tk_DOT
         else if c = CHR '':'' then
           (if lx_rest l \<noteq> [] \<and> hd (lx_rest l) = CHR ''=''
            then let l2 = lx_advance l in (make_token Tk_ASSIGN '':='' l2, l2)
            else one Tk_COLON)
         else if c = CHR ''*'' then one Tk_IDENTIFIER
         else (make_token Tk_ERROR (''Unexpected character: '' @ [c]) l, l))"

definition next_token :: "lexer \<Rightarrow> token \<times> lexer" where
  "next_token lx =
     (case lx_peeked lx of
        Some t \<Rightarrow> (t, lx\<lparr>lx_peeked := None\<rparr>)
      | None \<Rightarrow>
          let l = skip_whitespace lx
          in case lx_rest l of
               [] \<Rightarrow> (make_token Tk_END_OF_FILE [] l, l)
             | c # r \<Rightarrow>
                 if is_alpha c \<or> c = CHR ''_'' then read_identifier l
                 else if c = dquote then read_string_literal l
                 else if is_digit c then read_integer l
                 else read_punctuation l)"

definition peek_token :: "lexer \<Rightarrow> token \<times> lexer" where
  "peek_token lx =
     (case lx_peeked lx of
        Some t \<Rightarrow> (t, lx)
      | None \<Rightarrow> (case next_token lx of (t, l) \<Rightarrow> (t, l\<lparr>lx_peeked := Some t\<rparr>)))"

section \<open>Progress\<close>

lemma skip_whitespace_shrinks:
  "length (lx_rest (skip_whitespace lx)) \<le> length (lx_rest lx) \<and> lx_peeked (skip_whitespace lx) = lx_peeked lx"
proof (induction lx rule: skip_whitespace.induct)
  case (1 lx)
  have c: "length (lx_rest (skip_comment lx)) \<le> length (lx_rest lx)" "lx_peeked (skip_comment lx) = lx_peeked lx"
    by (simp_all add: skip_comment_def lx_while_rest length_dropWhile_le)
  show ?case
    using 1 c by (subst (1 2) skip_whitespace.simps) (auto split: list.splits)
qed

lemma string_body_shrinks:
  "length (lx_rest (snd (string_body lx))) \<le> length (lx_rest lx) \<and> lx_peeked (snd (string_body lx)) = lx_peeked lx"
proof (induction lx rule: string_body.induct)
  case (1 lx)
  show ?case
    using 1 by (subst (1 2) string_body.simps) (fastforce simp: Let_def split_beta)
qed

text \<open>A token that is not the end of the file consumes at least one character.\<close>

lemma read_token_shrinks:
  assumes "lx_rest l = c # r"
  shows "is_ident_char c \<Longrightarrow> length (lx_rest (snd (read_identifier l))) < length (lx_rest l) \<and> lx_peeked (snd (read_identifier l)) = lx_peeked l"
    and "length (lx_rest (snd (read_string_literal l))) < length (lx_rest l) \<and> lx_peeked (snd (read_string_literal l)) = lx_peeked l"
    and "is_digit c \<Longrightarrow> length (lx_rest (snd (read_integer l))) < length (lx_rest l) \<and> lx_peeked (snd (read_integer l)) = lx_peeked l"
    and "length (lx_rest (snd (read_punctuation l))) < length (lx_rest l) \<and> lx_peeked (snd (read_punctuation l)) = lx_peeked l"
proof -
  show "length (lx_rest (snd (read_identifier l))) < length (lx_rest l) \<and> lx_peeked (snd (read_identifier l)) = lx_peeked l" if "is_ident_char c"
    using assms that length_dropWhile_le [of is_ident_char r]
    by (simp add: read_identifier_def split_beta lx_while_rest)
  show "length (lx_rest (snd (read_integer l))) < length (lx_rest l) \<and> lx_peeked (snd (read_integer l)) = lx_peeked l" if "is_digit c"
    using assms that length_dropWhile_le [of is_digit r]
    by (simp add: read_integer_def split_beta lx_while_rest)
  show "length (lx_rest (snd (read_string_literal l))) < length (lx_rest l) \<and> lx_peeked (snd (read_string_literal l)) = lx_peeked l"
    using assms string_body_shrinks [of "lx_advance l"]
    by (auto simp: read_string_literal_def split: prod.splits option.splits)
  show "length (lx_rest (snd (read_punctuation l))) < length (lx_rest l) \<and> lx_peeked (snd (read_punctuation l)) = lx_peeked l"
    using assms by (auto simp: read_punctuation_def Let_def less_Suc_eq_le)
qed

lemma read_token_type:
  "tk_type (fst (read_identifier l)) = Tk_IDENTIFIER" "tk_type (fst (read_integer l)) = Tk_INTEGER"
  "tk_type (fst (read_string_literal l)) \<noteq> Tk_END_OF_FILE" "tk_type (fst (read_punctuation l)) \<noteq> Tk_END_OF_FILE"
  by (auto simp: read_identifier_def read_integer_def read_string_literal_def read_punctuation_def make_token_def Let_def
      split: prod.splits option.splits)

lemma next_token_fresh:
  assumes "lx_peeked lx = None" and "next_token lx = (t, l)"
  shows "lx_peeked l = None \<and>
     (if tk_type t = Tk_END_OF_FILE then lx_rest l = [] \<and> lx_rest (skip_whitespace lx) = []
      else length (lx_rest l) < length (lx_rest lx))"
proof (cases "lx_rest (skip_whitespace lx)")
  case Nil
  with assms skip_whitespace_shrinks [of lx] show ?thesis by (auto simp: next_token_def Let_def make_token_def)
next
  case (Cons c r)
  let ?k = "skip_whitespace lx"
  have k: "lx_peeked ?k = None" "length (lx_rest ?k) \<le> length (lx_rest lx)" using assms(1) skip_whitespace_shrinks [of lx] by simp_all
  have step: ?thesis if "next_token lx = f ?k" and "length (lx_rest (snd (f ?k))) < length (lx_rest ?k) \<and> lx_peeked (snd (f ?k)) = lx_peeked ?k"
    and "tk_type (fst (f ?k)) \<noteq> Tk_END_OF_FILE" for f
  proof -
    have "f ?k = (t, l)" using that(1) assms(2) by simp
    with that k show ?thesis by simp
  qed
  consider "is_alpha c \<or> c = CHR ''_''" | "\<not> (is_alpha c \<or> c = CHR ''_'')" "c = dquote"
    | "\<not> (is_alpha c \<or> c = CHR ''_'')" "c \<noteq> dquote" "is_digit c" | "\<not> (is_alpha c \<or> c = CHR ''_'')" "c \<noteq> dquote" "\<not> is_digit c"
    by blast
  then show ?thesis
  proof cases
    case 1
    then have "is_ident_char c" by (auto simp: is_ident_char_def is_alnum_def)
    from 1 read_token_shrinks(1) [OF Cons this] show ?thesis
      by (intro step [of read_identifier]) (simp_all add: next_token_def assms(1) Let_def Cons read_token_type)
  next
    case 2
    then show ?thesis using read_token_shrinks(2) [OF Cons]
      by (intro step [of read_string_literal]) (simp_all add: next_token_def assms(1) Let_def Cons read_token_type)
  next
    case 3
    then show ?thesis using read_token_shrinks(3) [OF Cons]
      by (intro step [of read_integer]) (simp_all add: next_token_def assms(1) Let_def Cons read_token_type)
  next
    case 4
    then show ?thesis using read_token_shrinks(4) [OF Cons]
      by (intro step [of read_punctuation]) (simp_all add: next_token_def assms(1) Let_def Cons read_token_type)
  qed
qed

section \<open>The token stream\<close>

definition lx_size :: "lexer \<Rightarrow> nat" where
  "lx_size lx = length (lx_rest lx) +
     (case lx_peeked lx of None \<Rightarrow> 0 | Some t \<Rightarrow> if tk_type t = Tk_END_OF_FILE then 0 else 1)"

lemma next_token_size:
  assumes "next_token lx = (t, l)" and "tk_type t \<noteq> Tk_END_OF_FILE"
  shows "lx_size l < lx_size lx"
proof (cases "lx_peeked lx")
  case None
  with next_token_fresh [OF None assms(1)] assms(2) show ?thesis by (simp add: lx_size_def)
next
  case (Some u)
  with assms show ?thesis by (auto simp: next_token_def lx_size_def)
qed

function token_stream :: "lexer \<Rightarrow> token list" where
  "token_stream lx =
     (case next_token lx of (t, l) \<Rightarrow> if tk_type t = Tk_END_OF_FILE then [] else t # token_stream l)"
  by pat_completeness auto
termination
  by (relation "measure lx_size") (auto intro: next_token_size [OF sym])

declare token_stream.simps [simp del]

text \<open>An end of file that was peeked is the end.\<close>

definition lexer_ok :: "lexer \<Rightarrow> bool" where
  "lexer_ok lx \<longleftrightarrow> (\<forall>t. lx_peeked lx = Some t \<longrightarrow> tk_type t = Tk_END_OF_FILE \<longrightarrow> lx_rest lx = [])"

lemma token_stream_end: "lx_rest lx = [] \<Longrightarrow> lx_peeked lx = None \<Longrightarrow> token_stream lx = []"
  by (subst token_stream.simps) (simp add: next_token_def skip_whitespace.simps make_token_def Let_def)

lemma next_token_stream:
  assumes "lexer_ok lx" and "next_token lx = (t, l)"
  shows "lexer_ok l \<and> (if tk_type t = Tk_END_OF_FILE then token_stream lx = [] \<and> token_stream l = []
                       else token_stream lx = t # token_stream l)"
proof (cases "lx_peeked lx")
  case None
  from next_token_fresh [OF None assms(2)] have p: "lx_peeked l = None" "tk_type t = Tk_END_OF_FILE \<Longrightarrow> lx_rest l = []"
    by (auto split: if_splits)
  moreover have "lexer_ok l" using p by (simp add: lexer_ok_def)
  ultimately show ?thesis using assms(2) token_stream_end [of l] by (auto simp: token_stream.simps [of lx])
next
  case (Some u)
  then have l: "t = u" "l = lx\<lparr>lx_peeked := None\<rparr>" using assms(2) by (auto simp: next_token_def)
  then have "tk_type t = Tk_END_OF_FILE \<Longrightarrow> token_stream l = []"
    using assms(1) Some by (intro token_stream_end) (auto simp: lexer_ok_def)
  then show ?thesis using assms(2) l by (auto simp: token_stream.simps [of lx] lexer_ok_def)
qed

lemma peek_token_stream:
  assumes "lexer_ok lx" and "peek_token lx = (t, l)"
  shows "lexer_ok l \<and> token_stream l = token_stream lx \<and>
     (if tk_type t = Tk_END_OF_FILE then token_stream lx = [] else token_stream lx \<noteq> [] \<and> hd (token_stream lx) = t)"
proof (cases "lx_peeked lx")
  case (Some u)
  then have l: "t = u" "l = lx" using assms(2) by (auto simp: peek_token_def)
  obtain v k where nt: "next_token lx = (v, k)" by (cases "next_token lx")
  with Some l have "v = t" by (simp add: next_token_def)
  with next_token_stream [OF assms(1) nt] l assms(1) show ?thesis by auto
next
  case None
  obtain v k where nt: "next_token lx = (v, k)" by (cases "next_token lx")
  with None assms(2) have l: "t = v" "l = k\<lparr>lx_peeked := Some t\<rparr>" by (auto simp: peek_token_def)
  from next_token_fresh [OF None nt] have k: "lx_peeked k = None" "tk_type v = Tk_END_OF_FILE \<Longrightarrow> lx_rest k = []"
    by (auto split: if_splits)
  have "k\<lparr>lx_peeked := None\<rparr> = k" using k(1) by simp
  then have "next_token l = (t, k)" using l by (simp add: next_token_def)
  moreover have "lexer_ok l" using l k by (auto simp: lexer_ok_def)
  ultimately show ?thesis using next_token_stream [OF assms(1) nt] next_token_stream [of l t k] l(1) by (auto split: if_splits)
qed

section \<open>Texts and their tokens\<close>

text \<open>What may stand between two tokens: blanks, and comments up to the end of a line.\<close>

datatype gap_piece = Blank char | Comment string

fun piece_text :: "gap_piece \<Rightarrow> string" where
  "piece_text (Blank c) = [c]"
| "piece_text (Comment s) = ''--'' @ s @ [newline]"

fun piece_ok :: "gap_piece \<Rightarrow> bool" where
  "piece_ok (Blank c) \<longleftrightarrow> is_blank c"
| "piece_ok (Comment s) \<longleftrightarrow> newline \<notin> set s"

definition gap_text :: "gap_piece list \<Rightarrow> string" where
  "gap_text ps = concat (map piece_text ps)"

datatype lexeme = L_ident string | L_string string | L_number string | L_symbol token_type | L_star

definition symbol_text :: "token_type \<Rightarrow> string" where
  "symbol_text ty =
     (case ty of Tk_LPAREN \<Rightarrow> ''('' | Tk_RPAREN \<Rightarrow> '')'' | Tk_COMMA \<Rightarrow> '','' | Tk_SEMICOLON \<Rightarrow> '';'' | Tk_COLON \<Rightarrow> '':''
      | Tk_AMPERSAND \<Rightarrow> ''&'' | Tk_DOT \<Rightarrow> ''.'' | Tk_ASSIGN \<Rightarrow> '':='' | _ \<Rightarrow> [])"

definition escape_quotes :: "string \<Rightarrow> string" where
  "escape_quotes s = concat (map (\<lambda>c. if c = dquote then [dquote, dquote] else [c]) s)"

fun lexeme_text :: "lexeme \<Rightarrow> string" where
  "lexeme_text (L_ident s) = s"
| "lexeme_text (L_string s) = dquote # escape_quotes s @ [dquote]"
| "lexeme_text (L_number s) = s"
| "lexeme_text (L_symbol ty) = symbol_text ty"
| "lexeme_text L_star = ''*''"

fun lexeme_ok :: "lexeme \<Rightarrow> bool" where
  "lexeme_ok (L_ident s) \<longleftrightarrow> s \<noteq> [] \<and> \<not> is_digit (hd s) \<and> list_all is_ident_char s"
| "lexeme_ok (L_string s) \<longleftrightarrow> True"
| "lexeme_ok (L_number s) \<longleftrightarrow> s \<noteq> [] \<and> list_all is_digit s"
| "lexeme_ok (L_symbol ty) \<longleftrightarrow> symbol_text ty \<noteq> []"
| "lexeme_ok L_star \<longleftrightarrow> True"

fun lexeme_token :: "lexeme \<Rightarrow> token_type \<times> string" where
  "lexeme_token (L_ident s) = (Tk_IDENTIFIER, str_upper s)"
| "lexeme_token (L_string s) = (Tk_STRING_LITERAL, s)"
| "lexeme_token (L_number s) = (Tk_INTEGER, s)"
| "lexeme_token (L_symbol ty) = (ty, symbol_text ty)"
| "lexeme_token L_star = (Tk_IDENTIFIER, ''*'')"

definition token_pair :: "token \<Rightarrow> token_type \<times> string" where
  "token_pair t = (tk_type t, tk_value t)"

lemma lexer_chars:
  "\<not> is_blank dquote" "dquote \<noteq> CHR ''-''" "\<not> is_alpha dquote" "dquote \<noteq> CHR ''_''" "\<not> is_ident_char CHR ''-''" "\<not> is_digit CHR ''-''"
  by (simp_all add: is_blank_def dquote_def newline_def is_alpha_def is_lower_def is_upper_def is_ident_char_def is_alnum_def
      is_digit_def char_code_def)

lemma blank_char: "is_blank c \<Longrightarrow> \<not> is_ident_char c \<and> \<not> is_digit c \<and> c \<noteq> dquote \<and> c \<noteq> CHR ''=''"
  by (auto simp: is_blank_def newline_def dquote_def is_ident_char_def is_alnum_def is_alpha_def is_lower_def is_upper_def
      is_digit_def char_code_def)

lemma ident_char: "is_ident_char c \<Longrightarrow> \<not> is_blank c \<and> c \<noteq> CHR ''-''"
  using blank_char lexer_chars(5) by blast

lemma digit_char: "is_digit c \<Longrightarrow> is_ident_char c \<and> \<not> is_alpha c \<and> c \<noteq> CHR ''_'' \<and> c \<noteq> dquote"
  by (auto simp: is_ident_char_def is_alnum_def is_digit_def is_alpha_def is_lower_def is_upper_def dquote_def char_code_def)

lemma skip_gap:
  assumes "list_all piece_ok ps" and "r = [] \<or> \<not> is_blank (hd r) \<and> hd r \<noteq> CHR ''-''"
  shows "lx_rest lx = gap_text ps @ r \<Longrightarrow> lx_rest (skip_whitespace lx) = r"
  using assms(1)
proof (induction ps arbitrary: lx)
  case Nil
  with assms(2) show ?case by (subst skip_whitespace.simps) (auto simp: gap_text_def split: list.splits)
next
  case (Cons p ps)
  show ?case
  proof (cases p)
    case (Blank c)
    with Cons have "lx_rest (lx_advance lx) = gap_text ps @ r" "is_blank c" "lx_rest lx = c # gap_text ps @ r"
      by (simp_all add: gap_text_def)
    with Cons show ?thesis by (subst skip_whitespace.simps) simp
  next
    case (Comment s)
    with Cons have l: "lx_rest lx = CHR ''-'' # CHR ''-'' # s @ newline # gap_text ps @ r" "newline \<notin> set s"
      by (simp_all add: gap_text_def)
    then have "lx_rest (skip_comment lx) = newline # gap_text ps @ r"
      by (simp add: skip_comment_def lx_while_rest newline_def) (auto simp: dropWhile_append newline_def)
    moreover from this have "lx_rest (lx_advance (skip_comment lx)) = gap_text ps @ r" by simp
    then have "lx_rest (skip_whitespace (lx_advance (skip_comment lx))) = r" using Cons by simp
    ultimately have "lx_rest (skip_whitespace (skip_comment lx)) = r"
      by (subst skip_whitespace.simps) (simp add: is_blank_def)
    moreover have "\<not> is_blank CHR ''-''" by (simp add: is_blank_def newline_def)
    ultimately show ?thesis using l by (subst skip_whitespace.simps) simp
  qed
qed

lemma string_body_text:
  "lx_rest lx = escape_quotes s @ dquote # r \<Longrightarrow> r = [] \<or> hd r \<noteq> dquote \<Longrightarrow>
     fst (string_body lx) = Some s \<and> lx_rest (snd (string_body lx)) = r"
proof (induction s arbitrary: lx)
  case Nil
  then show ?case by (subst (1 2) string_body.simps) (auto simp: escape_quotes_def Let_def)
next
  case (Cons c s)
  show ?case
  proof (cases "c = dquote")
    case True
    with Cons.prems have "lx_rest lx = dquote # dquote # escape_quotes s @ dquote # r" by (simp add: escape_quotes_def)
    with Cons.IH [of "lx_advance (lx_advance lx)"] Cons.prems(2) True show ?thesis
      by (subst (1 2) string_body.simps) (simp add: Let_def split_beta)
  next
    case False
    with Cons.prems have "lx_rest lx = c # escape_quotes s @ dquote # r" by (simp add: escape_quotes_def)
    with Cons.IH [of "lx_advance lx"] Cons.prems(2) False show ?thesis
      by (subst (1 2) string_body.simps) (simp add: Let_def split_beta)
  qed
qed

lemma takeWhile_text:
  assumes "list_all P s" and "r = [] \<or> \<not> P (hd r)"
  shows "takeWhile P (s @ r) = s \<and> dropWhile P (s @ r) = r"
  using assms by (induction s) (auto split: list.splits, (cases r; simp)+)

definition gap_start :: "string \<Rightarrow> bool" where
  "gap_start r \<longleftrightarrow> r = [] \<or> is_blank (hd r) \<or> hd r = CHR ''-''"

lemma next_lexeme:
  assumes "lexeme_ok x" and "lx_peeked lx = None" and "lx_rest (skip_whitespace lx) = lexeme_text x @ r" and "gap_start r"
  shows "\<exists>t l. next_token lx = (t, l) \<and> token_pair t = lexeme_token x \<and> lx_rest l = r \<and> lx_peeked l = None"
proof -
  let ?k = "skip_whitespace lx"
  have k: "lx_peeked ?k = None" using skip_whitespace_shrinks assms(2) by simp
  have r: "r = [] \<or> \<not> is_ident_char (hd r) \<and> \<not> is_digit (hd r) \<and> hd r \<noteq> dquote \<and> hd r \<noteq> CHR ''=''"
    using assms(4) blank_char lexer_chars by (fastforce simp: gap_start_def dquote_def)
  show ?thesis
  proof (cases x)
    case (L_ident s)
    with assms(1,3) obtain c cs where s: "s = c # cs" "is_ident_char c" "\<not> is_digit c" "list_all is_ident_char s" "lx_rest ?k = s @ r"
      by (cases s) auto
    then have "is_alpha c \<or> c = CHR ''_''" by (auto simp: is_ident_char_def is_alnum_def)
    then have "next_token lx = read_identifier ?k" using s assms(2) by (simp add: next_token_def Let_def)
    moreover have "takeWhile is_ident_char (lx_rest ?k) = s" "dropWhile is_ident_char (lx_rest ?k) = r"
      using takeWhile_text [OF s(4), of r] r by (auto simp only: s(5))
    ultimately show ?thesis using k L_ident
      by (simp add: read_identifier_def split_beta lx_while_rest token_pair_def make_token_def)
  next
    case (L_number s)
    with assms(1,3) obtain c cs where s: "s = c # cs" "is_digit c" "list_all is_digit s" "lx_rest ?k = s @ r"
      by (cases s) auto
    then have "next_token lx = read_integer ?k" using digit_char [OF s(2)] assms(2) by (simp add: next_token_def Let_def)
    moreover have "takeWhile is_digit (lx_rest ?k) = s" "dropWhile is_digit (lx_rest ?k) = r"
      using takeWhile_text [OF s(3), of r] r by (auto simp only: s(4))
    ultimately show ?thesis using k L_number
      by (simp add: read_integer_def split_beta lx_while_rest token_pair_def make_token_def)
  next
    case (L_string s)
    with assms(3) have q: "lx_rest ?k = dquote # escape_quotes s @ dquote # r" by simp
    then have n: "next_token lx = read_string_literal ?k" using assms(2) lexer_chars by (simp add: next_token_def Let_def)
    obtain v l where b: "string_body (lx_advance ?k) = (v, l)" by (cases "string_body (lx_advance ?k)")
    have "v = Some s" "lx_rest l = r" using string_body_text [of "lx_advance ?k" s r] q r b by auto
    moreover have "lx_peeked l = None" using string_body_shrinks [of "lx_advance ?k"] b k by simp
    ultimately show ?thesis using n b L_string
      by (simp add: read_string_literal_def token_pair_def make_token_def)
  next
    case (L_symbol ty)
    with assms(1,3) have "lx_rest ?k = symbol_text ty @ r" "symbol_text ty \<noteq> []" by auto
    then show ?thesis using L_symbol r k assms(2)
      by (cases ty) (auto simp: symbol_text_def next_token_def Let_def read_punctuation_def token_pair_def make_token_def
        is_alpha_def is_lower_def is_upper_def is_digit_def dquote_def char_code_def)
  next
    case L_star
    with assms(3) show ?thesis using k assms(2)
      by (auto simp: next_token_def Let_def read_punctuation_def token_pair_def make_token_def
        is_alpha_def is_lower_def is_upper_def is_digit_def dquote_def char_code_def)
  qed
qed

definition items_text :: "(gap_piece list \<times> lexeme) list \<Rightarrow> string" where
  "items_text items = concat (map (\<lambda>(ps, x). gap_text ps @ lexeme_text x) items)"

lemma lexeme_start:
  assumes "lexeme_ok x"
  shows "lexeme_text x \<noteq> [] \<and> \<not> is_blank (hd (lexeme_text x)) \<and> hd (lexeme_text x) \<noteq> CHR ''-''"
proof (cases x)
  case (L_ident s)
  with assms show ?thesis by (cases s) (simp_all add: ident_char)
next
  case (L_number s)
  with assms show ?thesis using digit_char ident_char by (cases s) auto
next
  case (L_symbol ty)
  with assms show ?thesis by (cases ty) (simp_all add: symbol_text_def is_blank_def newline_def)
qed (simp_all add: lexer_chars, simp_all add: is_blank_def newline_def)

lemma gap_start_gap: "list_all piece_ok ps \<Longrightarrow> ps \<noteq> [] \<Longrightarrow> gap_start (gap_text ps @ r)"
  by (cases ps; cases "hd ps") (auto simp: gap_text_def gap_start_def)

lemma token_stream_text:
  assumes "list_all piece_ok trail"
  shows "list_all (\<lambda>(ps, x). ps \<noteq> [] \<and> list_all piece_ok ps \<and> lexeme_ok x) items \<Longrightarrow> lx_peeked lx = None \<Longrightarrow>
     lx_rest lx = items_text items @ gap_text trail \<Longrightarrow> map token_pair (token_stream lx) = map (lexeme_token \<circ> snd) items"
proof (induction items arbitrary: lx)
  case Nil
  then have "lx_rest (skip_whitespace lx) = []" using skip_gap [OF assms, of "[]" lx] by (simp add: items_text_def)
  with Nil(2) show ?case by (subst token_stream.simps) (simp add: next_token_def make_token_def Let_def)
next
  case (Cons it items)
  obtain ps x where it: "it = (ps, x)" by (cases it)
  with Cons.prems have ok: "list_all piece_ok ps" "lexeme_ok x" and rest: "lx_rest lx = gap_text ps @ lexeme_text x @ items_text items @ gap_text trail"
    by (auto simp: items_text_def)
  let ?r = "items_text items @ gap_text trail"
  have "gap_start ?r"
  proof (cases items)
    case Nil
    then show ?thesis using assms gap_start_gap [of trail "[]"] by (cases "trail = []") (auto simp: items_text_def gap_start_def gap_text_def)
  next
    case (Cons it2 items2)
    with Cons.prems(1) show ?thesis
      using gap_start_gap [of "fst it2" "lexeme_text (snd it2) @ items_text items2 @ gap_text trail"]
      by (auto simp: items_text_def split_beta)
  qed
  moreover have "lx_rest (skip_whitespace lx) = lexeme_text x @ ?r"
    using lexeme_start [OF ok(2)] by (intro skip_gap [OF ok(1) _ rest]) (auto simp: hd_append)
  ultimately obtain t l where t: "next_token lx = (t, l)" "token_pair t = lexeme_token x" "lx_rest l = ?r" "lx_peeked l = None"
    using next_lexeme [OF ok(2) Cons.prems(2)] by blast
  have "tk_type t \<noteq> Tk_END_OF_FILE" using t(2) ok(2) by (cases x) (auto simp: token_pair_def symbol_text_def)
  then have "token_stream lx = t # token_stream l" using t(1) by (subst token_stream.simps) simp
  with Cons.IH [OF _ t(4,3)] Cons.prems(1) t(2) it show ?case by simp
qed

section \<open>Properties\<close>

text \<open>Reading a BSDL text: identifiers come out in upper case, strings without their quotes and with
  doubled quotes halved, numbers and symbols as written, with any white space and comments between the
  tokens.\<close>

theorem lexer_reads_text:
  assumes "list_all piece_ok trail" and "list_all (\<lambda>(ps, x). ps \<noteq> [] \<and> list_all piece_ok ps \<and> lexeme_ok x) items"
  shows "map token_pair (token_stream (new_lexer (items_text items @ gap_text trail))) = map (lexeme_token \<circ> snd) items"
  using token_stream_text [OF assms, of "new_lexer (items_text items @ gap_text trail)"] by (simp add: new_lexer_def)

lemma lexer_reads_text_witness:
  "map token_pair (token_stream (new_lexer (items_text
      [([Comment ''x''], L_ident ''PORT''), ([Blank newline], L_symbol Tk_ASSIGN), ([Blank newline], L_string [dquote])] @ gap_text [])))
     = [(Tk_IDENTIFIER, ''PORT''), (Tk_ASSIGN, '':=''), (Tk_STRING_LITERAL, [dquote])]"
  using lexer_reads_text [of "[]" "[([Comment ''x''], L_ident ''PORT''), ([Blank newline], L_symbol Tk_ASSIGN), ([Blank newline], L_string [dquote])]"]
  by (simp add: newline_def is_blank_def is_ident_char_def is_alnum_def is_alpha_def is_lower_def is_upper_def is_digit_def char_code_def
      symbol_text_def str_upper_def to_upper_def)

end
