(* ===== verification/Bsdl_Parser.thy ===== *)
theory Bsdl_Parser
  imports Bsdl_Lexer Bsdl_Model
begin

text \<open>
  src/src/bsdl/bsdl_parser.{h,cpp}: from BSDL text to a device description.

  The parser reads the list \<open>token_stream\<close>, whose end is the end of the file (\<open>next_token_stream\<close> and
  \<open>peek_token_stream\<close> say that this is what the calls of the lexer return).  A position in the text of an
  attribute is the rest of it.  \<open>None\<close> is an exception of \<open>std::stoi\<close> that nobody catches, or a shift of
  \<open>1u\<close> by 32 or more.  The error flag is not modelled: no call inside \<open>parse\<close> sets it.
\<close>

unbundle bit_operations_syntax

section \<open>Tokens\<close>

definition tok_type :: "token list \<Rightarrow> token_type" where
  "tok_type ts = (case ts of [] \<Rightarrow> Tk_END_OF_FILE | t # _ \<Rightarrow> tk_type t)"

definition tok_value :: "token list \<Rightarrow> string" where
  "tok_value ts = (case ts of [] \<Rightarrow> [] | t # _ \<Rightarrow> tk_value t)"

definition is_word :: "string \<Rightarrow> token \<Rightarrow> bool" where
  "is_word w t \<longleftrightarrow> tk_type t = Tk_IDENTIFIER \<and> tk_value t = w"

definition skip_to_semicolon :: "token list \<Rightarrow> token list" where
  "skip_to_semicolon ts = tl (dropWhile (\<lambda>t. tk_type t \<noteq> Tk_SEMICOLON) ts)"

text \<open>A string literal, or several joined by \<open>&\<close>; anything else gives the empty text.\<close>

fun concat_strings :: "token list \<Rightarrow> string \<times> token list" where
  "concat_strings [] = ([], [])"
| "concat_strings (t # ts) =
     (if tk_type t = Tk_STRING_LITERAL then case concat_strings ts of (s, r) \<Rightarrow> (tk_value t @ s, r)
      else if tk_type t = Tk_AMPERSAND then concat_strings ts
      else ([], t # ts))"

definition read_concatenated_string :: "token list \<Rightarrow> string \<times> token list" where
  "read_concatenated_string ts = (if tok_type ts = Tk_STRING_LITERAL then concat_strings ts else ([], ts))"

definition parse_entity :: "bsdl_device \<Rightarrow> token list \<Rightarrow> bsdl_device \<times> token list" where
  "parse_entity dev ts =
     (if tok_type ts = Tk_IDENTIFIER then dev\<lparr>bd_entity_name := tok_value ts\<rparr> else dev, skip_to_semicolon (tl ts))"

section \<open>Ports\<close>

text \<open>The index of a name, from behind the parenthesis to its end.\<close>

fun read_index :: "token list \<Rightarrow> string \<times> token list" where
  "read_index [] = ([], [])"
| "read_index (t # ts) =
     (if tk_type t = Tk_RPAREN then ([], ts) else case read_index ts of (s, r) \<Rightarrow> (tk_value t @ s, r))"

definition indexed_name :: "string \<Rightarrow> token list \<Rightarrow> string \<times> token list" where
  "indexed_name name ts =
     (if tok_type ts = Tk_LPAREN then case read_index (tl ts) of (idx, r) \<Rightarrow> (name @ ''('' @ idx @ '')'', r)
      else (name, ts))"

lemma read_index_length: "length (snd (read_index ts)) \<le> length ts"
  by (induction ts) (auto simp: split_beta)

lemma indexed_name_length: "length (snd (indexed_name name ts)) \<le> length ts"
  using read_index_length [of "tl ts"] by (cases ts) (auto simp: indexed_name_def split_beta)

text \<open>The further names of a comma-separated list.\<close>

function more_names :: "token list \<Rightarrow> string list \<times> token list" where
  "more_names ts =
     (if tok_type ts = Tk_COMMA then
        (if tok_type (tl ts) = Tk_IDENTIFIER
         then case indexed_name (tok_value (tl ts)) (tl (tl ts)) of (name, r) \<Rightarrow>
                case more_names r of (names, r2) \<Rightarrow> (name # names, r2)
         else more_names (tl (tl ts)))
      else ([], ts))"
  by pat_completeness auto
termination
proof (relation "measure length")
  fix ts name r
  assume c: "tok_type ts = Tk_COMMA" and i: "(name, r) = indexed_name (tok_value (tl ts)) (tl (tl ts))"
  have "length r \<le> length (tl (tl ts))" using indexed_name_length [of "tok_value (tl ts)" "tl (tl ts)"] by (simp flip: i)
  moreover have "ts \<noteq> []" using c by (auto simp: tok_type_def)
  ultimately show "(r, ts) \<in> measure length" by (cases ts) auto
next
  fix ts
  assume "tok_type ts = Tk_COMMA"
  then have "ts \<noteq> []" by (auto simp: tok_type_def)
  then show "(tl (tl ts), ts) \<in> measure length" by (cases ts) auto
qed auto

declare more_names.simps [simp del]

definition direction_of :: "token list \<Rightarrow> pin_direction" where
  "direction_of ts =
     (if tok_type ts \<noteq> Tk_IDENTIFIER then Pd_IN
      else if tok_value ts = ''OUT'' then Pd_OUT
      else if tok_value ts = ''INOUT'' then Pd_INOUT
      else if tok_value ts = ''BUFFER'' then Pd_BUFFER
      else if tok_value ts = ''LINKAGE'' then Pd_LINKAGE
      else Pd_IN)"

definition new_pin :: "string \<Rightarrow> pin_direction \<Rightarrow> pin_info" where
  "new_pin name dir =
     \<lparr>pi_name = name, pi_direction = dir, pi_physical_pin = -1, pi_input_cell = -1, pi_output_cell = -1, pi_control_cell = -1\<rparr>"

definition add_pins :: "string list \<Rightarrow> pin_direction \<Rightarrow> (string \<rightharpoonup> pin_info) \<Rightarrow> (string \<rightharpoonup> pin_info)" where
  "add_pins names dir pins = fold (\<lambda>n m. m(n \<mapsto> new_pin n dir)) names pins"

text \<open>The type of a port up to the semicolon, or to the parenthesis that closes the list (\<open>True\<close>).\<close>

fun skip_type :: "nat \<Rightarrow> token list \<Rightarrow> bool \<times> token list" where
  "skip_type depth [] = (False, [])"
| "skip_type depth (t # ts) =
     (if tk_type t = Tk_LPAREN then skip_type (Suc depth) ts
      else if tk_type t = Tk_RPAREN then (if 0 < depth then skip_type (depth - 1) ts else (True, ts))
      else if tk_type t = Tk_SEMICOLON \<and> depth = 0 then (False, ts)
      else skip_type depth ts)"

lemma more_names_length: "length (snd (more_names ts)) \<le> length ts"
proof (induction ts rule: more_names.induct)
  case (1 ts)
  show ?case
  proof (cases "tok_type ts = Tk_COMMA")
    case False
    then show ?thesis by (subst more_names.simps) simp
  next
    case True
    obtain name r where r: "indexed_name (tok_value (tl ts)) (tl (tl ts)) = (name, r)"
      by (cases "indexed_name (tok_value (tl ts)) (tl (tl ts))")
    have "length r \<le> length (tl (tl ts))" using indexed_name_length [of "tok_value (tl ts)" "tl (tl ts)"] by (simp add: r)
    with 1 True r show ?thesis by (subst more_names.simps) (fastforce simp: split_beta)
  qed
qed

lemma skip_type_length: "length (snd (skip_type depth ts)) \<le> length ts"
  by (induction depth ts rule: skip_type.induct) auto

function port_list :: "(string \<rightharpoonup> pin_info) \<Rightarrow> token list \<Rightarrow> (string \<rightharpoonup> pin_info) \<times> token list" where
  "port_list pins [] = (pins, [])"
| "port_list pins (t # ts) =
     (if tk_type t = Tk_RPAREN then (pins, ts)
      else if tk_type t \<noteq> Tk_IDENTIFIER then port_list pins ts
      else case indexed_name (tk_value t) ts of (name, r1) \<Rightarrow>
        case more_names r1 of (names, r2) \<Rightarrow>
        if tok_type r2 \<noteq> Tk_COLON then port_list pins (tl r2)
        else
          let dir = direction_of (tl r2);
              pins1 = add_pins (name # names) dir pins
          in case skip_type 0 (tl (tl r2)) of (closed, r3) \<Rightarrow>
               if closed then (pins1, r3) else port_list pins1 r3)"
  by pat_completeness auto
termination
proof (relation "measure (length \<circ> snd)")
  fix pins and t :: token and ts name r1 names r2
  assume "(name, r1) = indexed_name (tk_value t) ts" and "(names, r2) = more_names r1"
  then have "length r2 \<le> length ts"
    using indexed_name_length [of "tk_value t" ts] more_names_length [of r1] by (metis le_trans snd_conv)
  then show "((pins, tl r2), pins, t # ts) \<in> measure (length \<circ> snd)" by simp
  fix closed r3 dir pins1
  assume "(closed, r3) = skip_type 0 (tl (tl r2))"
  then have "length r3 \<le> length (tl (tl r2))" using skip_type_length [of 0 "tl (tl r2)"] by (metis snd_conv)
  with \<open>length r2 \<le> length ts\<close> show "((pins1, r3), pins, t # ts) \<in> measure (length \<circ> snd)" by simp
qed auto

declare port_list.simps [simp del]

definition parse_ports :: "bsdl_device \<Rightarrow> token list \<Rightarrow> bsdl_device \<times> token list" where
  "parse_ports dev ts =
     (if tok_type ts \<noteq> Tk_LPAREN then (dev, tl ts)
      else case port_list (bd_pins dev) (tl ts) of (pins, r) \<Rightarrow>
        (dev\<lparr>bd_pins := pins\<rparr>, if tok_type r = Tk_SEMICOLON then tl r else r))"

section \<open>The texts of attributes\<close>

lemma length_dropWhiles: "length (tl (dropWhile P s)) \<le> length s" "length (dropWhile P (dropWhile Q s)) \<le> length s"
  using length_dropWhile_le [of P s] length_dropWhile_le [of P "dropWhile Q s"] length_dropWhile_le [of Q s] by simp_all

definition MAX_BSR_BITS :: nat where
  "MAX_BSR_BITS = 65536"

definition is_gap :: "char \<Rightarrow> bool" where
  "is_gap c \<longleftrightarrow> is_blank c \<or> c = CHR '',''"

text \<open>\<open>opcode |= 1u << (size - 1 - i)\<close> for every 1; shifting by 32 or more is undefined.\<close>

definition opcode_of :: "string \<Rightarrow> u32 option" where
  "opcode_of bin =
     (let n = length bin
      in if list_ex (\<lambda>i. bin ! i = CHR ''1'' \<and> 32 \<le> n - 1 - i) [0..<n] then None
         else Some (word_of_bits (\<lambda>b. b < n \<and> bin ! (n - 1 - b) = CHR ''1'') 32))"

definition binary_digits :: "string \<Rightarrow> string" where
  "binary_digits s = filter (\<lambda>c. c = CHR ''0'' \<or> c = CHR ''1'') s"

lemma rest_shrinks: "dropWhile Q (dropWhile R (dropWhile S s)) \<noteq> [] \<Longrightarrow>
    length (tl (dropWhile P (tl (dropWhile Q (dropWhile R (dropWhile S s)))))) < length s"
proof -
  assume "dropWhile Q (dropWhile R (dropWhile S s)) \<noteq> []"
  then obtain c r where r: "dropWhile Q (dropWhile R (dropWhile S s)) = c # r" by (cases "dropWhile Q (dropWhile R (dropWhile S s))") auto
  have "length (c # r) \<le> length (dropWhile S s)" unfolding r [symmetric] by (rule length_dropWhiles)
  also have "\<dots> \<le> length s" by (rule length_dropWhile_le)
  finally show ?thesis using length_dropWhiles(1) [of P r] by (simp add: r)
qed

function parse_opcodes :: "(string \<rightharpoonup> u32) \<Rightarrow> string \<Rightarrow> (string \<rightharpoonup> u32) option" where
  "parse_opcodes m s =
     (let s1 = dropWhile is_gap s;
          in_name = (\<lambda>c. c \<noteq> CHR '' '' \<and> c \<noteq> CHR 0x09 \<and> c \<noteq> CHR ''('');
          name = str_upper (takeWhile in_name s1);
          s2 = dropWhile (\<lambda>c. c \<noteq> CHR ''('') (dropWhile in_name s1)
      in if s1 = [] \<or> name = [] \<or> s2 = [] then Some m
         else
           let bin = binary_digits (takeWhile (\<lambda>c. c \<noteq> CHR '')'') (tl s2));
               s3 = tl (dropWhile (\<lambda>c. c \<noteq> CHR '')'') (tl s2))
           in if bin = [] then parse_opcodes m s3
              else case opcode_of bin of None \<Rightarrow> None | Some op \<Rightarrow> parse_opcodes (m(name \<mapsto> op)) s3)"
  by pat_completeness auto
termination
proof (relation "measure (\<lambda>(_, s). length s)")
  fix m :: "string \<rightharpoonup> u32" and s s1 in_name name s2 s3 m'
  assume "s1 = dropWhile is_gap s" and "s2 = dropWhile (\<lambda>c. c \<noteq> CHR ''('') (dropWhile in_name s1)"
    and "\<not> (s1 = [] \<or> name = [] \<or> s2 = [])" and "s3 = tl (dropWhile (\<lambda>c. c \<noteq> CHR '')'') (tl s2))"
  then have "length s3 < length s" using rest_shrinks [of "\<lambda>c. c \<noteq> CHR ''(''" in_name is_gap s] by simp
  then show "((m, s3), m, s) \<in> measure (\<lambda>(_, s). length s)" "((m', s3), m, s) \<in> measure (\<lambda>(_, s). length s)" by simp_all
qed auto

section \<open>Boundary cells\<close>

definition parse_cell_function :: "string \<Rightarrow> cell_function" where
  "parse_cell_function name =
     (if name = ''INPUT'' then Cf_INPUT
      else if name = ''OUTPUT2'' then Cf_OUTPUT2
      else if name = ''OUTPUT3'' then Cf_OUTPUT3
      else if name = ''CONTROL'' then Cf_CONTROL
      else if name = ''BIDIR'' then Cf_BIDIR
      else if name = ''CLOCK'' then Cf_CLOCK
      else if name = ''INTERNAL'' then Cf_INTERNAL
      else Cf_INPUT)"

definition parse_disable_result :: "string \<Rightarrow> disable_result" where
  "parse_disable_result name =
     (if name = ''PULL0'' then Dr_PULL0
      else if name = ''PULL1'' then Dr_PULL1
      else if name = ''HIGHZ'' \<or> name = ''Z'' then Dr_HIGHZ
      else if name = ''KEEPER'' then Dr_KEEPER
      else Dr_NONE)"

definition resize_cells :: "nat \<Rightarrow> boundary_cell list \<Rightarrow> boundary_cell list" where
  "resize_cells n cs = take n cs @ replicate (n - length cs) default_cell"

text \<open>A field up to a comma, which is consumed, or a closing parenthesis, which is not.\<close>

definition read_field :: "string \<Rightarrow> string \<times> string" where
  "read_field s =
     (let in_field = (\<lambda>c. c \<noteq> CHR '','' \<and> c \<noteq> CHR '')'');
          r = dropWhile in_field s
      in (str_upper (filter (\<lambda>c. \<not> is_blank c) (takeWhile in_field s)),
          if r \<noteq> [] \<and> hd r = CHR '','' then tl r else r))"

definition optional_field :: "string \<Rightarrow> string \<times> string" where
  "optional_field s = (if s \<noteq> [] \<and> hd s \<noteq> CHR '')'' then read_field s else ([], s))"

definition bit_field :: "string \<Rightarrow> int" where
  "bit_field s = (if s = ''0'' then 0 else if s = ''1'' then 1 else -1)"

text \<open>The fields of a cell, and the text behind the closing parenthesis.\<close>

definition read_cell :: "int \<Rightarrow> string \<Rightarrow> boundary_cell \<times> string" where
  "read_cell cell_pos s0 =
     (let (cell_type, s1) = read_field s0;
          (pin_name, s2) = read_field s1;
          (function_str, s3) = read_field s2;
          (safe_str, s4) = read_field s3;
          (disabled_by, s5) = optional_field s4;
          (disable_val, s6) = optional_field s5;
          (disable_res, s7) = optional_field s6
      in (\<lparr>bc_position = cell_pos, bc_cell_type = cell_type, bc_pin_name = pin_name,
           bc_function = parse_cell_function function_str, bc_safe_value = bit_field safe_str,
           bc_disabled_by = (if disabled_by \<noteq> [] \<and> disabled_by \<noteq> ''X''
                             then case stoi disabled_by of None \<Rightarrow> -1 | Some v \<Rightarrow> v else -1),
           bc_disable_value = bit_field disable_val, bc_disable_result = parse_disable_result disable_res\<rparr>,
          tl (dropWhile (\<lambda>c. c \<noteq> CHR '')'') s7)))"

definition store_cell :: "int \<Rightarrow> boundary_cell \<Rightarrow> bsdl_device \<Rightarrow> bsdl_device" where
  "store_cell cell_pos cell dev =
     (let size = int (length (bd_cells dev))
      in if 0 \<le> cell_pos \<and> cell_pos < size then dev\<lparr>bd_cells := (bd_cells dev)[nat cell_pos := cell]\<rparr>
         else if size \<le> cell_pos \<and> cell_pos < int MAX_BSR_BITS
         then let cells = (resize_cells (nat cell_pos + 1) (bd_cells dev))[nat cell_pos := cell]
              in dev\<lparr>bd_cells := cells, bd_boundary_length := length cells\<rparr>
         else dev)"

lemma read_field_length: "length (snd (read_field s)) \<le> length s"
  using length_dropWhiles(1) [of "\<lambda>c. c \<noteq> CHR '','' \<and> c \<noteq> CHR '')''" s] length_dropWhile_le [of "\<lambda>c. c \<noteq> CHR '','' \<and> c \<noteq> CHR '')''" s]
  by (simp add: read_field_def Let_def)

lemma optional_field_length: "length (snd (optional_field s)) \<le> length s"
  by (simp add: optional_field_def read_field_length)

lemma read_cell_length: "length (snd (read_cell p s)) \<le> length s"
proof -
  have "length (tl (dropWhile P (snd (optional_field (snd (optional_field (snd (optional_field (snd (read_field (snd (read_field (snd (read_field (snd (read_field s)))))))))))))))) \<le> length s" for P
    by (meson read_field_length optional_field_length length_dropWhiles(1) le_trans)
  then show ?thesis by (simp add: read_cell_def split_beta Let_def)
qed

function parse_cells :: "bsdl_device \<Rightarrow> string \<Rightarrow> bsdl_device option" where
  "parse_cells dev s =
     (let s1 = dropWhile is_gap s;
          digits = takeWhile is_digit s1;
          s2 = dropWhile (\<lambda>c. c \<noteq> CHR ''('') (dropWhile is_digit s1)
      in if s1 = [] then Some dev
         else if digits = [] then parse_cells dev (tl s1)
         else case stoi digits of
           None \<Rightarrow> None
         | Some cell_pos \<Rightarrow>
             if s2 = [] then Some dev
             else case read_cell cell_pos (tl s2) of (cell, s3) \<Rightarrow> parse_cells (store_cell cell_pos cell dev) s3)"
  by pat_completeness auto
termination
proof (relation "measure (\<lambda>(_, s). length s)")
  fix dev :: bsdl_device and s s1 digits s2 cell_pos cell s3
  assume s1: "s1 = dropWhile is_gap s" and s2: "s2 = dropWhile (\<lambda>c. c \<noteq> CHR ''('') (dropWhile is_digit s1)" "s2 \<noteq> []"
    and c: "(cell, s3) = read_cell cell_pos (tl s2)"
  have "length s3 \<le> length (tl s2)" using read_cell_length [of cell_pos "tl s2"] by (metis c snd_conv)
  also have "\<dots> < length s2" using s2(2) by simp
  also have "\<dots> \<le> length s1" unfolding s2(1) by (rule length_dropWhiles)
  also have "\<dots> \<le> length s" unfolding s1 by (rule length_dropWhile_le)
  finally show "((store_cell cell_pos cell dev, s3), dev, s) \<in> measure (\<lambda>(_, s). length s)" by simp
next
  fix dev :: bsdl_device and s s1
  assume "s1 = dropWhile is_gap s" "s1 \<noteq> []"
  then have "length (tl s1) < length s1" "length s1 \<le> length s" using length_dropWhile_le [of is_gap s] by simp_all
  then show "((dev, tl s1), dev, s) \<in> measure (\<lambda>(_, s). length s)" by simp
qed auto

declare parse_opcodes.simps [simp del] parse_cells.simps [simp del]

section \<open>The IDCODE and the pin map\<close>

definition idcode_of :: "string \<Rightarrow> id_code" where
  "idcode_of bin =
     (let raw = foldl (\<lambda>r c. push_bit 1 r OR (if c = CHR ''1'' then 1 else 0)) (0 :: u32) bin
      in \<lparr>id_raw = raw, id_version = drop_bit 28 raw AND 0xF, id_part_number = drop_bit 12 raw AND 0xFFFF,
          id_manufacturer = drop_bit 1 raw AND 0x7FF\<rparr>)"

definition parse_idcode :: "bsdl_device \<Rightarrow> string \<Rightarrow> bsdl_device" where
  "parse_idcode dev content =
     (let bin = binary_digits content in if length bin = 32 then dev\<lparr>bd_idcode := idcode_of bin\<rparr> else dev)"

definition map_pin :: "string \<Rightarrow> string \<Rightarrow> bsdl_device \<Rightarrow> bsdl_device" where
  "map_pin pin_name num_str dev =
     (if pin_name = [] \<or> num_str = [] then dev
      else dev\<lparr>bd_package_pin_map := (bd_package_pin_map dev)(pin_name \<mapsto> str_upper num_str),
               bd_pins := (case (bd_pins dev pin_name, stoi num_str) of
                             (Some p, Some v) \<Rightarrow> (bd_pins dev)(pin_name \<mapsto> p\<lparr>pi_physical_pin := v\<rparr>)
                           | _ \<Rightarrow> bd_pins dev)\<rparr>)"

function parse_pin_map :: "bsdl_device \<Rightarrow> string \<Rightarrow> bsdl_device" where
  "parse_pin_map dev s =
     (let s1 = dropWhile is_gap s;
          in_name = (\<lambda>c. c \<noteq> CHR '':'' \<and> c \<noteq> CHR '' '' \<and> c \<noteq> CHR 0x09);
          pin_name = str_upper (takeWhile in_name s1);
          s2 = dropWhile (\<lambda>c. c \<noteq> CHR '':'') (dropWhile in_name s1)
      in if s1 = [] \<or> s2 = [] then dev
         else
           let s3 = dropWhile (\<lambda>c. c = CHR '' '' \<or> c = CHR 0x09) (tl s2)
           in if s3 \<noteq> [] \<and> hd s3 = CHR ''(''
              then parse_pin_map dev (tl (dropWhile (\<lambda>c. c \<noteq> CHR '')'') s3))
              else parse_pin_map (map_pin pin_name (takeWhile is_alnum s3) dev) (dropWhile is_alnum s3))"
  by pat_completeness auto
termination
proof (relation "measure (\<lambda>(_, s). length s)")
  fix dev dev' :: bsdl_device and s s1 in_name s2 s3
  assume s: "s1 = dropWhile is_gap s" "s2 = dropWhile (\<lambda>c. c \<noteq> CHR '':'') (dropWhile in_name s1)" "\<not> (s1 = [] \<or> s2 = [])"
    "s3 = dropWhile (\<lambda>c. c = CHR '' '' \<or> c = CHR 0x09) (tl s2)"
  have "length s3 \<le> length (tl s2)" unfolding s(4) by (rule length_dropWhile_le)
  also have "\<dots> < length s2" using s(3) by simp
  also have "\<dots> \<le> length s1" unfolding s(2) by (rule length_dropWhiles)
  also have "\<dots> \<le> length s" unfolding s(1) by (rule length_dropWhile_le)
  finally have "length s3 < length s" .
  then show "((dev, tl (dropWhile (\<lambda>c. c \<noteq> CHR '')'') s3)), dev, s) \<in> measure (\<lambda>(_, s). length s)"
    using length_dropWhiles(1) [of "\<lambda>c. c \<noteq> CHR '')''" s3] by simp
  show "((dev', dropWhile is_alnum s3), dev, s) \<in> measure (\<lambda>(_, s). length s)"
    using \<open>length s3 < length s\<close> length_dropWhile_le [of is_alnum s3] by simp
qed auto

declare parse_pin_map.simps [simp del]

section \<open>Attributes\<close>

definition parse_instruction_length :: "bsdl_device \<Rightarrow> token list \<Rightarrow> (bsdl_device \<times> token list) option" where
  "parse_instruction_length dev ts =
     (if tok_type ts = Tk_INTEGER
      then do { v \<leftarrow> stoi (tok_value ts); Some (dev\<lparr>bd_instruction_length := nat v\<rparr>, skip_to_semicolon (tl ts)) }
      else Some (dev, skip_to_semicolon (tl ts)))"

definition parse_boundary_length :: "bsdl_device \<Rightarrow> token list \<Rightarrow> bsdl_device \<times> token list" where
  "parse_boundary_length dev ts =
     (let len = (if tok_type ts = Tk_INTEGER then case stoi (tok_value ts) of None \<Rightarrow> 0 | Some v \<Rightarrow> v else 0)
      in (if 0 < len \<and> len \<le> int MAX_BSR_BITS
          then dev\<lparr>bd_boundary_length := nat len, bd_cells := resize_cells (nat len) (bd_cells dev)\<rparr> else dev,
          skip_to_semicolon (tl ts)))"

definition parse_boundary_register :: "bsdl_device \<Rightarrow> string \<Rightarrow> bsdl_device option" where
  "parse_boundary_register dev content =
     parse_cells (if bd_cells dev = [] \<and> 0 < bd_boundary_length dev
                  then dev\<lparr>bd_cells := replicate (bd_boundary_length dev) default_cell\<rparr> else dev) content"

text \<open>The attribute called \<open>name\<close>, from behind \<open>is\<close> on.\<close>

definition attribute_value :: "string \<Rightarrow> bsdl_device \<Rightarrow> token list \<Rightarrow> (bsdl_device \<times> token list) option" where
  "attribute_value name dev ts =
     (case read_concatenated_string ts of (content, r) \<Rightarrow>
        let rest = skip_to_semicolon r
        in if name = ''INSTRUCTION_LENGTH'' then parse_instruction_length dev ts
           else if name = ''INSTRUCTION_OPCODE''
           then do { m \<leftarrow> parse_opcodes (bd_instructions dev) content; Some (dev\<lparr>bd_instructions := m\<rparr>, rest) }
           else if name = ''BOUNDARY_LENGTH'' then Some (parse_boundary_length dev ts)
           else if name = ''BOUNDARY_REGISTER''
           then do { d \<leftarrow> parse_boundary_register dev content; Some (d, rest) }
           else if name = ''IDCODE_REGISTER'' then Some (parse_idcode dev content, rest)
           else if name = ''PIN_MAP'' \<or> name = ''PIN_MAP_STRING'' then Some (parse_pin_map dev content, rest)
           else Some (dev, skip_to_semicolon ts))"

definition parse_attribute :: "bsdl_device \<Rightarrow> token list \<Rightarrow> (bsdl_device \<times> token list) option" where
  "parse_attribute dev ts =
     (if tok_type ts \<noteq> Tk_IDENTIFIER then Some (dev, tl ts)
      else if tok_type (tl ts) = Tk_IDENTIFIER \<and> tok_value (tl ts) = ''OF''
      then (case dropWhile (\<lambda>t. \<not> is_word ''IS'' t) (tl (tl ts)) of
              [] \<Rightarrow> Some (dev, [])
            | t # r \<Rightarrow> attribute_value (tok_value ts) dev r)
      else Some (dev, skip_to_semicolon (tl (tl ts))))"

section \<open>The file\<close>

lemma skip_to_semicolon_length: "length (skip_to_semicolon ts) \<le> length ts"
  unfolding skip_to_semicolon_def by (rule length_dropWhiles)

lemma concat_strings_length: "length (snd (concat_strings ts)) \<le> length ts"
  by (induction ts) (auto simp: split_beta)

lemma read_concatenated_length: "length (snd (read_concatenated_string ts)) \<le> length ts"
  by (simp add: read_concatenated_string_def concat_strings_length)

lemma parse_entity_length: "length (snd (parse_entity dev ts)) \<le> length ts"
  using skip_to_semicolon_length [of "tl ts"] by (simp add: parse_entity_def)

lemma port_list_length: "length (snd (port_list pins ts)) \<le> length ts"
proof (induction pins ts rule: port_list.induct)
  case (2 pins t ts)
  obtain name r1 names r2 where r: "indexed_name (tk_value t) ts = (name, r1)" "more_names r1 = (names, r2)"
    by (metis surj_pair)
  then have r2: "length r2 \<le> length ts"
    using indexed_name_length [of "tk_value t" ts] more_names_length [of r1] by simp
  obtain closed r3 where s: "skip_type 0 (tl (tl r2)) = (closed, r3)" by (metis surj_pair)
  then have "length r3 \<le> length (tl (tl r2))" using skip_type_length [of 0 "tl (tl r2)"] by simp
  then have r3: "length r3 \<le> length ts" using r2 by simp
  consider "tk_type t = Tk_RPAREN" | "tk_type t \<noteq> Tk_RPAREN" "tk_type t \<noteq> Tk_IDENTIFIER"
    | "tk_type t = Tk_IDENTIFIER" "tok_type r2 \<noteq> Tk_COLON" | "tk_type t = Tk_IDENTIFIER" "tok_type r2 = Tk_COLON" by blast
  then show ?case
  proof cases
    case 1
    then show ?thesis by (simp add: port_list.simps)
  next
    case 2
    then show ?thesis using "2.IH"(1) by (simp add: port_list.simps)
  next
    case 3
    then have "length (snd (port_list pins (tl r2))) \<le> length (tl r2)" using "2.IH"(2) r by simp
    with 3 r r2 show ?thesis by (simp add: port_list.simps)
  next
    case 4
    then have "\<not> closed \<Longrightarrow> length (snd (port_list (add_pins (name # names) (direction_of (tl r2)) pins) r3)) \<le> length r3"
      using "2.IH"(3) r s by simp
    with 4 r s r3 show ?thesis by (cases closed) (auto simp: port_list.simps Let_def)
  qed
qed (simp add: port_list.simps)

lemma parse_ports_length: "length (snd (parse_ports dev ts)) \<le> length ts"
  using port_list_length [of "bd_pins dev" "tl ts"] by (auto simp: parse_ports_def split_beta)

lemma attribute_value_length:
  assumes "attribute_value name dev ts = Some (d, r)"
  shows "length r \<le> length ts"
proof -
  obtain content r0 where c: "read_concatenated_string ts = (content, r0)" by (metis surj_pair)
  have "length (skip_to_semicolon r0) \<le> length ts"
    using skip_to_semicolon_length [of r0] read_concatenated_length [of ts] by (simp add: c)
  moreover have "length (skip_to_semicolon (tl ts)) \<le> length ts" using skip_to_semicolon_length [of "tl ts"] by simp
  moreover have "r \<in> {skip_to_semicolon r0, skip_to_semicolon (tl ts), skip_to_semicolon ts}"
    using assms by (auto simp: attribute_value_def c Let_def parse_instruction_length_def parse_boundary_length_def
        split: if_splits bind_splits)
  ultimately show ?thesis using skip_to_semicolon_length [of ts] by auto
qed

lemma parse_attribute_length:
  assumes "parse_attribute dev ts = Some (d, r)"
  shows "length r \<le> length ts"
proof -
  have d: "length (dropWhile (\<lambda>t. \<not> is_word ''IS'' t) (tl (tl ts))) \<le> length (tl (tl ts))" by (rule length_dropWhile_le)
  have "length (skip_to_semicolon (tl (tl ts))) \<le> length ts" using skip_to_semicolon_length [of "tl (tl ts)"] by simp
  with assms d show ?thesis
    by (auto simp: parse_attribute_def split: if_splits list.splits dest!: attribute_value_length)
qed

function parse_tokens :: "bsdl_device \<Rightarrow> token list \<Rightarrow> bsdl_device option" where
  "parse_tokens dev [] = Some (cross_reference dev)"
| "parse_tokens dev (t # ts) =
     (if is_word ''ENTITY'' t then case parse_entity dev ts of (d, r) \<Rightarrow> parse_tokens d r
      else if is_word ''PORT'' t then case parse_ports dev ts of (d, r) \<Rightarrow> parse_tokens d r
      else if is_word ''ATTRIBUTE'' t
      then (case parse_attribute dev ts of None \<Rightarrow> None | Some (d, r) \<Rightarrow> parse_tokens d r)
      else parse_tokens dev ts)"
  by pat_completeness auto
termination
proof (relation "measure (length \<circ> snd)")
  fix dev :: bsdl_device and t :: token and ts d r
  show "(d, r) = parse_entity dev ts \<Longrightarrow> ((d, r), dev, t # ts) \<in> measure (length \<circ> snd)"
    using parse_entity_length [of dev ts] by (metis comp_apply in_measure length_Cons less_Suc_eq_le snd_conv)
  show "(d, r) = parse_ports dev ts \<Longrightarrow> ((d, r), dev, t # ts) \<in> measure (length \<circ> snd)"
    using parse_ports_length [of dev ts] by (metis comp_apply in_measure length_Cons less_Suc_eq_le snd_conv)
  show "parse_attribute dev ts = Some p \<Longrightarrow> (d, r) = p \<Longrightarrow> ((d, r), dev, t # ts) \<in> measure (length \<circ> snd)" for p
    using parse_attribute_length [of dev ts d r] by auto
qed auto

definition parse_string :: "string \<Rightarrow> bsdl_device option" where
  "parse_string source = parse_tokens default_device (token_stream (new_lexer source))"

text \<open>The error text, or the device.\<close>

definition parse_file :: "string \<Rightarrow> string option \<Rightarrow> (string + bsdl_device) option" where
  "parse_file filepath file =
     (case file of None \<Rightarrow> Some (Inl (''Cannot open file: '' @ filepath)) | Some text \<Rightarrow> map_option Inr (parse_string text))"

declare parse_tokens.simps [simp del]

section \<open>What every parsed device satisfies\<close>

definition positions_ok :: "boundary_cell list \<Rightarrow> bool" where
  "positions_ok cs \<longleftrightarrow> length cs \<le> MAX_BSR_BITS \<and> (\<forall>i < length cs. cs ! i = default_cell \<or> bc_position (cs ! i) = int i)"

definition register_ok :: "bsdl_device \<Rightarrow> bool" where
  "register_ok d \<longleftrightarrow> length (bd_cells d) = bd_boundary_length d \<and> positions_ok (bd_cells d)"

lemma length_resize_cells [simp]: "length (resize_cells n cs) = n"
  by (simp add: resize_cells_def)

lemma positions_resize: "positions_ok cs \<Longrightarrow> n \<le> MAX_BSR_BITS \<Longrightarrow> positions_ok (resize_cells n cs)"
  unfolding positions_ok_def by (auto simp: resize_cells_def nth_append)

lemma positions_store:
  "positions_ok cs \<Longrightarrow> bc_position c = int k \<Longrightarrow> positions_ok (cs[k := c])"
  unfolding positions_ok_def by (metis length_list_update nth_list_update_eq nth_list_update_neq)

lemma read_cell_position: "bc_position (fst (read_cell p s)) = p"
  by (simp add: read_cell_def split_beta Let_def)

lemma store_cell_ok:
  assumes "register_ok d" and "bc_position c = p"
  shows "register_ok (store_cell p c d)"
proof -
  consider "0 \<le> p \<and> p < int (length (bd_cells d))" | "int (length (bd_cells d)) \<le> p \<and> p < int MAX_BSR_BITS"
    | "\<not> (0 \<le> p \<and> p < int (length (bd_cells d)))" "\<not> (int (length (bd_cells d)) \<le> p \<and> p < int MAX_BSR_BITS)"
    by blast
  then show ?thesis
  proof cases
    case 1
    then have "positions_ok ((bd_cells d)[nat p := c])" using assms by (intro positions_store) (simp_all add: register_ok_def)
    with 1 assms(1) show ?thesis by (simp add: store_cell_def register_ok_def Let_def)
  next
    case 2
    then have "nat p + 1 \<le> MAX_BSR_BITS" by linarith
    then have "positions_ok ((resize_cells (nat p + 1) (bd_cells d))[nat p := c])"
      using assms 2 by (intro positions_store positions_resize) (simp_all add: register_ok_def)
    with 2 show ?thesis by (simp add: store_cell_def register_ok_def Let_def)
  next
    case 3
    then have "store_cell p c d = d" unfolding store_cell_def Let_def by (simp only: if_False)
    with assms(1) show ?thesis by simp
  qed
qed

text \<open>One round of the loop over the cells.\<close>

lemma parse_cells_step:
  fixes s
  defines "s1 \<equiv> dropWhile is_gap s"
  defines "digits \<equiv> takeWhile is_digit s1" and "s2 \<equiv> dropWhile (\<lambda>c. c \<noteq> CHR ''('') (dropWhile is_digit s1)"
  shows "s1 = [] \<Longrightarrow> parse_cells dev s = Some dev"
    and "s1 \<noteq> [] \<Longrightarrow> digits = [] \<Longrightarrow> parse_cells dev s = parse_cells dev (tl s1)"
    and "s1 \<noteq> [] \<Longrightarrow> digits \<noteq> [] \<Longrightarrow> stoi digits = None \<Longrightarrow> parse_cells dev s = None"
    and "s1 \<noteq> [] \<Longrightarrow> digits \<noteq> [] \<Longrightarrow> stoi digits = Some v \<Longrightarrow> s2 = [] \<Longrightarrow> parse_cells dev s = Some dev"
    and "s1 \<noteq> [] \<Longrightarrow> digits \<noteq> [] \<Longrightarrow> stoi digits = Some v \<Longrightarrow> s2 \<noteq> [] \<Longrightarrow>
       parse_cells dev s = parse_cells (store_cell v (fst (read_cell v (tl s2))) dev) (snd (read_cell v (tl s2)))"
  unfolding s1_def digits_def s2_def
  by (simp_all only: parse_cells.simps [of dev s] Let_def split_beta if_True if_False option.case simp_thms)

lemma parse_cells_ok: "parse_cells dev s = Some d \<Longrightarrow> register_ok dev \<Longrightarrow> register_ok d"
proof (induction "length s" arbitrary: dev s rule: less_induct)
  case less
  let ?s1 = "dropWhile is_gap s"
  let ?digits = "takeWhile is_digit ?s1" and ?s2 = "dropWhile (\<lambda>c. c \<noteq> CHR ''('') (dropWhile is_digit ?s1)"
  note step = parse_cells_step [of s]
  have len: "length ?s1 \<le> length s" by (rule length_dropWhile_le)
  show ?case
  proof (cases "?s1 = []")
    case True
    with step(1) less.prems show ?thesis by simp
  next
    case s1: False
    show ?thesis
    proof (cases "?digits = []")
      case True
      have "length (tl ?s1) < length s" using s1 len by (metis diff_less length_greater_0_conv length_tl less_le_trans less_one)
      moreover have "parse_cells dev (tl ?s1) = Some d" using step(2) [OF s1 True] less.prems(1) by simp
      ultimately show ?thesis using less.hyps less.prems(2) by blast
    next
      case dg: False
      then obtain v where v: "stoi ?digits = Some v" using step(3) [OF s1] less.prems(1) by (cases "stoi ?digits") auto
      show ?thesis
      proof (cases "?s2 = []")
        case True
        with step(4) [OF s1 dg v] less.prems show ?thesis by simp
      next
        case s2: False
        let ?r = "read_cell v (tl ?s2)"
        have "length (snd ?r) \<le> length (tl ?s2)" by (rule read_cell_length)
        also have "\<dots> < length ?s2" using s2 by simp
        also have "\<dots> \<le> length ?s1" by (rule length_dropWhiles)
        finally have "length (snd ?r) < length s" using len by simp
        moreover have "register_ok (store_cell v (fst ?r) dev)" by (rule store_cell_ok [OF less.prems(2) read_cell_position])
        moreover have "parse_cells (store_cell v (fst ?r) dev) (snd ?r) = Some d" using step(5) [OF s1 dg v s2] less.prems(1) by simp
        ultimately show ?thesis using less.hyps by blast
      qed
    qed
  qed
qed

lemma register_unchanged:
  "bd_cells d' = bd_cells d \<Longrightarrow> bd_boundary_length d' = bd_boundary_length d \<Longrightarrow> register_ok d' = register_ok d"
  by (simp add: register_ok_def)

lemma parse_pin_map_register: "bd_cells (parse_pin_map dev s) = bd_cells dev \<and> bd_boundary_length (parse_pin_map dev s) = bd_boundary_length dev"
proof (induction dev s rule: parse_pin_map.induct)
  case (1 dev s)
  show ?case
    using 1 by (subst (1 2) parse_pin_map.simps) (simp add: Let_def map_pin_def)
qed

lemma attribute_value_ok:
  assumes "attribute_value name dev ts = Some (d, r)" and "register_ok dev"
  shows "register_ok d"
proof -
  obtain content r0 where c: "read_concatenated_string ts = (content, r0)" by (metis surj_pair)
  have len: "register_ok (fst (parse_boundary_length dev ts))"
    using assms(2)
    by (auto simp: parse_boundary_length_def register_ok_def Let_def nat_le_iff intro!: positions_resize split: option.splits)
  have "register_ok d'" if "parse_boundary_register dev content = Some d'" for d'
  proof -
    have "register_ok (if bd_cells dev = [] \<and> 0 < bd_boundary_length dev
        then dev\<lparr>bd_cells := replicate (bd_boundary_length dev) default_cell\<rparr> else dev)"
      using assms(2) by (auto simp: register_ok_def)
    then show ?thesis using parse_cells_ok that by (simp add: parse_boundary_register_def)
  qed
  moreover have "register_ok (parse_pin_map dev content)" using assms(2) parse_pin_map_register [of dev content] register_unchanged by blast
  moreover have "register_ok (parse_idcode dev content)" using assms(2) by (simp add: parse_idcode_def register_ok_def Let_def)
  moreover have "register_ok d'" if "parse_instruction_length dev ts = Some (d', r')" for d' r'
    using that assms(2) by (auto simp: parse_instruction_length_def register_ok_def split: if_splits bind_splits)
  ultimately show ?thesis using assms len
    by (auto simp: attribute_value_def c Let_def register_ok_def split: if_splits bind_splits)
qed

lemma parse_tokens_ok: "parse_tokens dev ts = Some d \<Longrightarrow> register_ok dev \<Longrightarrow> register_ok d"
proof (induction dev ts rule: parse_tokens.induct)
  case (1 dev)
  then show ?case by (auto simp: parse_tokens.simps register_ok_def cross_reference_def)
next
  case (2 dev t ts)
  have e: "register_ok (fst (parse_entity dev ts))" "register_ok (fst (parse_ports dev ts))"
    using "2.prems"(2) by (simp_all add: parse_entity_def parse_ports_def register_ok_def split_beta)
  have a: "register_ok d'" if "parse_attribute dev ts = Some (d', r)" for d' r
    using that "2.prems"(2) attribute_value_ok by (auto simp: parse_attribute_def split: if_splits list.splits)
  consider "is_word ''ENTITY'' t" | "\<not> is_word ''ENTITY'' t" "is_word ''PORT'' t"
    | "\<not> is_word ''ENTITY'' t" "\<not> is_word ''PORT'' t" "is_word ''ATTRIBUTE'' t"
    | "\<not> is_word ''ENTITY'' t" "\<not> is_word ''PORT'' t" "\<not> is_word ''ATTRIBUTE'' t" by blast
  then show ?case
  proof cases
    case 1
    then show ?thesis using "2.IH"(1) [OF 1 prod.collapse] "2.prems"(1) e(1) by (simp add: parse_tokens.simps split_beta)
  next
    case 2
    then show ?thesis using "2.IH"(2) [OF 2 prod.collapse] "2.prems"(1) e(2) by (simp add: parse_tokens.simps split_beta)
  next
    case 3
    then obtain d' r where p: "parse_attribute dev ts = Some (d', r)"
      using "2.prems"(1) by (cases "parse_attribute dev ts") (auto simp: parse_tokens.simps)
    then show ?thesis using "2.IH"(3) [OF 3 p] "2.prems"(1) a [OF p] 3 by (simp add: parse_tokens.simps)
  next
    case 4
    then show ?thesis using "2.IH"(4) "2.prems" by (simp add: parse_tokens.simps)
  qed
qed

section \<open>Properties\<close>

text \<open>Whatever text it is given, a device that the parser returns has a boundary register of at most 65536 cells,
  as many as its boundary length says; the cell at an index has that index as its position or was never
  described; and so every cell that belongs to a pin lies inside the register.\<close>

theorem parsed_register_ok:
  assumes "parse_string source = Some d"
  shows "length (bd_cells d) = bd_boundary_length d \<and> bd_boundary_length d \<le> 65536 \<and>
         (\<forall>i < bd_boundary_length d. bd_cells d ! i = default_cell \<or> bc_position (bd_cells d ! i) = int i) \<and> cells_ok d"
proof -
  have "register_ok default_device" by (simp add: register_ok_def positions_ok_def default_device_def)
  then have r: "register_ok d" using parse_tokens_ok assms by (simp add: parse_string_def)
  have "0 \<le> bc_position c \<and> bc_position c < int (bd_boundary_length d)" if "c \<in> set (bd_cells d)" "has_pin c" for c
  proof -
    obtain i where "i < length (bd_cells d)" "c = bd_cells d ! i" using \<open>c \<in> set (bd_cells d)\<close> by (metis in_set_conv_nth)
    moreover have "c \<noteq> default_cell" using \<open>has_pin c\<close> by (auto simp: has_pin_def default_cell_def)
    ultimately show ?thesis using r by (auto simp: register_ok_def positions_ok_def)
  qed
  with r show ?thesis by (auto simp: register_ok_def positions_ok_def MAX_BSR_BITS_def cells_ok_def)
qed

definition demo_bsdl :: string where
  "demo_bsdl = ''attribute BOUNDARY_LENGTH of X : entity is 1; attribute BOUNDARY_REGISTER of X : entity is '' @
     [dquote] @ ''0 (BC_1, A, input, X)'' @ [dquote] @ '';''"

lemma parse_demo:
  "map_option (\<lambda>d. (bd_boundary_length d, map bc_pin_name (bd_cells d))) (parse_string demo_bsdl) = Some (1, [''A''])"
  by code_simp

lemma parsed_register_ok_witness:
  "\<exists>d. parse_string demo_bsdl = Some d \<and> bd_boundary_length d = 1 \<and> bc_position (bd_cells d ! 0) = 0"
proof -
  obtain d where d: "parse_string demo_bsdl = Some d" "bd_boundary_length d = 1" "map bc_pin_name (bd_cells d) = [''A'']"
    using parse_demo by (cases "parse_string demo_bsdl") auto
  then have "bd_cells d ! 0 \<noteq> default_cell" by (cases "bd_cells d") (auto simp: default_cell_def)
  with parsed_register_ok [OF d(1)] d show ?thesis by auto
qed

end
