(* ===== verification/Bsdl_Roundtrip.thy ===== *)
theory Bsdl_Roundtrip
  imports Bsdl_Parser
begin

text \<open>
  BSDL files and the devices they describe.  \<open>bsdl_lexemes\<close> writes a description in the form the vendors'
  files have; the lemmas follow the parser through the tokens and the texts of the attributes.
\<close>

section \<open>Descriptions\<close>

record cell_text =
  ct_type :: string
  ct_pin :: string
  ct_function :: cell_function
  ct_safe :: "bool option"
  ct_disable :: "(nat \<times> bool \<times> disable_result) option"

record bsdl_text =
  bt_entity :: string
  bt_ports :: "(string \<times> pin_direction) list"
  bt_ir_length :: nat
  bt_opcodes :: "(string \<times> bool list) list"
  bt_idcode :: "bool list"
  bt_cells :: "cell_text list"

definition bit_char :: "bool \<Rightarrow> char" where
  "bit_char b = (if b then CHR ''1'' else CHR ''0'')"

definition bits_text :: "bool list \<Rightarrow> string" where
  "bits_text bs = map bit_char bs"

text \<open>Bits in a text stand most significant first.\<close>

definition bits_word :: "bool list \<Rightarrow> u32" where
  "bits_word bs = word_of_bits (\<lambda>b. b < length bs \<and> rev bs ! b) 32"

definition opcode_text :: "string \<times> bool list \<Rightarrow> string" where
  "opcode_text e = fst e @ '' ('' @ bits_text (snd e) @ '')''"

fun comma_texts :: "string list \<Rightarrow> string list" where
  "comma_texts [] = []"
| "comma_texts [e] = [e]"
| "comma_texts (e # f # es) = (e @ '','') # comma_texts (f # es)"

text \<open>Names inside an attribute's text: upper case, without the characters that end them.\<close>

definition plain_name :: "string \<Rightarrow> bool" where
  "plain_name s \<longleftrightarrow> s \<noteq> [] \<and> list_all (\<lambda>c. (is_upper c \<or> is_digit c \<or> c = CHR ''_'')) s"

lemma plain_char: "is_upper c \<or> is_digit c \<or> c = CHR ''_'' \<Longrightarrow>
    \<not> is_blank c \<and> \<not> is_gap c \<and> c \<noteq> CHR ''('' \<and> c \<noteq> CHR '')'' \<and> c \<noteq> CHR '','' \<and> c \<noteq> CHR 0x09 \<and> c \<noteq> CHR '' '' \<and> to_upper c = c"
  by (auto simp: is_upper_def is_digit_def is_blank_def is_gap_def newline_def char_code_def to_upper_def is_lower_def)

lemma plain_upper: "plain_name s \<Longrightarrow> str_upper s = s"
proof -
  assume "plain_name s"
  then have "to_upper c = c" if "c \<in> set s" for c
    using that plain_char [of c] by (simp add: plain_name_def list_all_iff)
  then show "str_upper s = s" by (simp add: str_upper_def map_idI)
qed

section \<open>The opcode table\<close>

lemma opcode_of_bits:
  assumes "length bs \<le> 32"
  shows "opcode_of (bits_text bs) = Some (bits_word bs)"
proof -
  have "\<not> list_ex (\<lambda>i. bits_text bs ! i = CHR ''1'' \<and> 32 \<le> length (bits_text bs) - 1 - i) [0..<length (bits_text bs)]"
    using assms by (auto simp: list_ex_iff bits_text_def)
  moreover have "(word_of_bits (\<lambda>b. b < length (bits_text bs) \<and> bits_text bs ! (length (bits_text bs) - 1 - b) = CHR ''1'') 32 :: u32)
      = bits_word bs"
    by (intro word_eq_bitsI) (auto simp: bits_word_def bit_word_of_bits bits_text_def bit_char_def rev_nth split: if_splits)
  ultimately show ?thesis by (simp add: opcode_of_def Let_def)
qed

lemma bits_text_chars: "c \<in> set (bits_text bs) \<Longrightarrow> c = CHR ''0'' \<or> c = CHR ''1''"
  by (auto simp: bits_text_def bit_char_def)

lemma binary_digits_bits: "binary_digits (bits_text bs) = bits_text bs"
  unfolding binary_digits_def using bits_text_chars by (intro filter_True) blast

lemma parse_opcode_entry:
  assumes "plain_name name" and "bs \<noteq> []" and "length bs \<le> 32" and "list_all is_gap gap"
  shows "parse_opcodes m (gap @ opcode_text (name, bs) @ rest) = parse_opcodes (m(name \<mapsto> bits_word bs)) rest"
proof -
  let ?s = "gap @ opcode_text (name, bs) @ rest"
  have nm: "list_all (\<lambda>c. c \<noteq> CHR '' '' \<and> c \<noteq> CHR 0x09 \<and> c \<noteq> CHR ''('') name" "name \<noteq> []" "\<not> is_gap (hd name)"
    using assms(1) plain_char by (auto simp: plain_name_def list_all_iff)
  have s1: "dropWhile is_gap ?s = name @ '' ('' @ bits_text bs @ '')'' @ rest"
    using takeWhile_text [OF assms(4), of "opcode_text (name, bs) @ rest"] nm by (auto simp: opcode_text_def)
  have n: "takeWhile (\<lambda>c. c \<noteq> CHR '' '' \<and> c \<noteq> CHR 0x09 \<and> c \<noteq> CHR ''('') (name @ '' ('' @ bits_text bs @ '')'' @ rest) = name"
    "dropWhile (\<lambda>c. c \<noteq> CHR '' '' \<and> c \<noteq> CHR 0x09 \<and> c \<noteq> CHR ''('') (name @ '' ('' @ bits_text bs @ '')'' @ rest) = '' ('' @ bits_text bs @ '')'' @ rest"
    using takeWhile_text [OF nm(1), of "'' ('' @ bits_text bs @ '')'' @ rest"] by auto
  have b: "list_all (\<lambda>c. c \<noteq> CHR '')'') (bits_text bs)" using bits_text_chars by (fastforce simp: list_all_iff)
  have t: "takeWhile (\<lambda>c. c \<noteq> CHR '')'') (bits_text bs @ '')'' @ rest) = bits_text bs"
    "dropWhile (\<lambda>c. c \<noteq> CHR '')'') (bits_text bs @ '')'' @ rest) = '')'' @ rest"
    using takeWhile_text [OF b, of "'')'' @ rest"] by auto
  have "bits_text bs \<noteq> []" using assms(2) by (simp add: bits_text_def)
  then show ?thesis
    using nm(2) plain_upper [OF assms(1)] opcode_of_bits [OF assms(3)]
    by (subst parse_opcodes.simps) (simp add: s1 n [simplified] t [simplified] Let_def binary_digits_bits)
qed

definition add_opcode :: "string \<times> bool list \<Rightarrow> (string \<rightharpoonup> u32) \<Rightarrow> (string \<rightharpoonup> u32)" where
  "add_opcode e m = m(fst e \<mapsto> bits_word (snd e))"

lemma add_opcode_pair: "add_opcode (n, bs) m = m(n \<mapsto> bits_word bs)"
  by (simp add: add_opcode_def)

definition opcodes_ok :: "(string \<times> bool list) list \<Rightarrow> bool" where
  "opcodes_ok es \<longleftrightarrow> list_all (\<lambda>(n, bs). plain_name n \<and> bs \<noteq> [] \<and> length bs \<le> 32) es"

lemma parse_opcode_table:
  "opcodes_ok es \<Longrightarrow> list_all is_gap gap \<Longrightarrow>
     parse_opcodes m (gap @ concat (comma_texts (map opcode_text es))) = Some (fold add_opcode es m)"
proof (induction "map opcode_text es" arbitrary: es gap m rule: comma_texts.induct)
  case 1
  then have "dropWhile is_gap (gap @ []) = []" by (simp add: list_all_iff)
  with 1 show ?case by (subst parse_opcodes.simps) (simp add: Let_def)
next
  case (2 e)
  then obtain n bs where es: "es = [(n, bs)]" by (cases es) auto
  have "parse_opcodes (m(n \<mapsto> bits_word bs)) [] = Some (m(n \<mapsto> bits_word bs))" by (subst parse_opcodes.simps) (simp add: Let_def)
  with 2 es parse_opcode_entry [of n bs gap m "[]"] show ?case by (simp add: opcodes_ok_def add_opcode_pair fun_upd_def)
next
  case (3 e f fs)
  then obtain n bs es' where es: "es = (n, bs) # es'" "f # fs = map opcode_text es'" by (cases es) auto
  have g: "list_all is_gap '',''" by (simp add: is_gap_def)
  from 3(1) [OF es(2) _ g] 3 es have "parse_opcodes (m(n \<mapsto> bits_word bs)) ('','' @ concat (comma_texts (map opcode_text es'))) =
      Some (fold add_opcode es' (m(n \<mapsto> bits_word bs)))" by (simp add: opcodes_ok_def)
  moreover have "concat (comma_texts (map opcode_text es)) = opcode_text (n, bs) @ '','' @ concat (comma_texts (map opcode_text es'))"
  proof -
    obtain e2 es2 where "es' = e2 # es2" using es(2) by (cases es') auto
    then show ?thesis by (simp add: es(1))
  qed
  ultimately show ?case using parse_opcode_entry [of n bs gap m] 3 es by (simp add: opcodes_ok_def add_opcode_pair)
qed

section \<open>The boundary register\<close>

definition function_name :: "cell_function \<Rightarrow> string" where
  "function_name f =
     (case f of Cf_INPUT \<Rightarrow> ''INPUT'' | Cf_OUTPUT2 \<Rightarrow> ''OUTPUT2'' | Cf_OUTPUT3 \<Rightarrow> ''OUTPUT3'' | Cf_CONTROL \<Rightarrow> ''CONTROL''
      | Cf_BIDIR \<Rightarrow> ''BIDIR'' | Cf_CLOCK \<Rightarrow> ''CLOCK'' | Cf_INTERNAL \<Rightarrow> ''INTERNAL'')"

definition result_name :: "disable_result \<Rightarrow> string" where
  "result_name r =
     (case r of Dr_PULL0 \<Rightarrow> ''PULL0'' | Dr_PULL1 \<Rightarrow> ''PULL1'' | Dr_HIGHZ \<Rightarrow> ''Z'' | Dr_KEEPER \<Rightarrow> ''KEEPER'' | _ \<Rightarrow> ''X'')"

definition safe_name :: "bool option \<Rightarrow> string" where
  "safe_name s = (case s of None \<Rightarrow> ''X'' | Some b \<Rightarrow> [bit_char b])"

definition cell_fields :: "cell_text \<Rightarrow> string list" where
  "cell_fields c =
     [ct_type c, ct_pin c, function_name (ct_function c), safe_name (ct_safe c)] @
     (case ct_disable c of None \<Rightarrow> [] | Some (k, v, r) \<Rightarrow> [dec_digits k, [bit_char v], result_name r])"

fun fields_text :: "string list \<Rightarrow> string" where
  "fields_text [] = []"
| "fields_text [f] = f"
| "fields_text (f # g # fs) = f @ '', '' @ fields_text (g # fs)"

definition cell_entry :: "nat \<times> cell_text \<Rightarrow> string" where
  "cell_entry e = dec_digits (fst e) @ '' ('' @ fields_text (cell_fields (snd e)) @ '')''"

definition safe_value :: "bool option \<Rightarrow> int" where
  "safe_value s = (case s of None \<Rightarrow> -1 | Some b \<Rightarrow> of_bool b)"

definition cell_of :: "nat \<Rightarrow> cell_text \<Rightarrow> boundary_cell" where
  "cell_of i c =
     \<lparr>bc_position = int i, bc_cell_type = ct_type c, bc_pin_name = ct_pin c, bc_function = ct_function c,
      bc_safe_value = safe_value (ct_safe c),
      bc_disabled_by = (case ct_disable c of None \<Rightarrow> -1 | Some (k, v, r) \<Rightarrow> int k),
      bc_disable_value = (case ct_disable c of None \<Rightarrow> -1 | Some (k, v, r) \<Rightarrow> of_bool v),
      bc_disable_result = (case ct_disable c of None \<Rightarrow> Dr_NONE | Some (k, v, r) \<Rightarrow> r)\<rparr>"

definition field_ok :: "string \<Rightarrow> bool" where
  "field_ok f \<longleftrightarrow> list_all (\<lambda>c. c \<noteq> CHR '','' \<and> c \<noteq> CHR '')'' \<and> \<not> is_blank c \<and> to_upper c = c) f"

definition cell_text_ok :: "cell_text \<Rightarrow> bool" where
  "cell_text_ok c \<longleftrightarrow>
     field_ok (ct_type c) \<and> field_ok (ct_pin c) \<and>
     (case ct_disable c of None \<Rightarrow> True
      | Some (k, v, r) \<Rightarrow> k < 65536 \<and> r \<in> {Dr_PULL0, Dr_PULL1, Dr_HIGHZ, Dr_KEEPER})"

lemma blank_no_end: "is_blank c \<Longrightarrow> c \<noteq> CHR '','' \<and> c \<noteq> CHR '')''"
  by (auto simp: is_blank_def newline_def)

lemma read_field_text:
  assumes "field_ok f" and "list_all is_blank gap" and "rest = [] \<or> hd rest = CHR '','' \<or> hd rest = CHR '')''"
  shows "read_field (gap @ f @ rest) = (f, if rest \<noteq> [] \<and> hd rest = CHR '','' then tl rest else rest)"
proof -
  have p: "list_all (\<lambda>c. c \<noteq> CHR '','' \<and> c \<noteq> CHR '')'') (gap @ f)"
    using assms(1,2) blank_no_end by (auto simp: list_all_iff field_ok_def)
  have f: "filter (\<lambda>c. \<not> is_blank c) (gap @ f) = f"
  proof -
    have "filter (\<lambda>c. \<not> is_blank c) gap = []" using assms(2) by (simp add: list_all_iff filter_empty_conv)
    moreover have "filter (\<lambda>c. \<not> is_blank c) f = f" using assms(1) by (simp add: list_all_iff field_ok_def)
    ultimately show ?thesis by simp
  qed
  have "to_upper c = c" if "c \<in> set f" for c using assms(1) that by (simp add: field_ok_def list_all_iff)
  then have u: "str_upper f = f" by (simp add: str_upper_def map_idI)
  have "rest = [] \<or> \<not> (hd rest \<noteq> CHR '','' \<and> hd rest \<noteq> CHR '')'')" using assms(3) by blast
  from takeWhile_text [OF p this] have tw: "takeWhile (\<lambda>c. c \<noteq> CHR '','' \<and> c \<noteq> CHR '')'') (gap @ f @ rest) = gap @ f"
    "dropWhile (\<lambda>c. c \<noteq> CHR '','' \<and> c \<noteq> CHR '')'') (gap @ f @ rest) = rest" by simp_all
  show ?thesis unfolding read_field_def Let_def tw f u ..
qed

lemma read_field_comma: "field_ok f \<Longrightarrow> read_field ('' '' @ f @ '','' @ rest) = (f, rest)" "field_ok f \<Longrightarrow> read_field (f @ '','' @ rest) = (f, rest)"
  using read_field_text [of f "'' ''" "'','' @ rest"] read_field_text [of f "[]" "'','' @ rest"] by (simp_all add: is_blank_def)

lemma read_field_paren: "field_ok f \<Longrightarrow> read_field ('' '' @ f @ '')'' @ rest) = (f, '')'' @ rest)"
  using read_field_text [of f "'' ''" "'')'' @ rest"] by (simp add: is_blank_def)

lemma bit_char_field: "field_ok [bit_char b]" "bit_field [bit_char b] = of_bool b"
  by (simp_all add: field_ok_def bit_char_def bit_field_def is_blank_def newline_def to_upper_def is_lower_def char_code_def)

lemma bit_field_Nil: "bit_field [] = -1"
  by (simp add: bit_field_def)

lemma names_ok:
  "field_ok (function_name f)" "parse_cell_function (function_name f) = f"
  "field_ok (safe_name s)" "bit_field (safe_name s) = safe_value s"
  "field_ok (result_name r)" "r \<in> {Dr_PULL0, Dr_PULL1, Dr_HIGHZ, Dr_KEEPER} \<Longrightarrow> parse_disable_result (result_name r) = r"
proof -
  show "field_ok (function_name f)" "parse_cell_function (function_name f) = f"
    by (cases f; simp add: field_ok_def function_name_def parse_cell_function_def is_blank_def newline_def to_upper_def is_lower_def char_code_def)+
  show "field_ok (safe_name s)" "bit_field (safe_name s) = safe_value s"
    using bit_char_field by (cases s; simp add: safe_name_def safe_value_def; simp add: field_ok_def bit_field_def is_blank_def newline_def to_upper_def is_lower_def char_code_def)+
  show "field_ok (result_name r)" "r \<in> {Dr_PULL0, Dr_PULL1, Dr_HIGHZ, Dr_KEEPER} \<Longrightarrow> parse_disable_result (result_name r) = r"
    by (cases r; simp add: field_ok_def result_name_def parse_disable_result_def is_blank_def newline_def to_upper_def is_lower_def char_code_def)+
qed

lemma digits_field: "field_ok (dec_digits k)" "dec_digits k \<noteq> []" "dec_digits k \<noteq> ''X''"
proof -
  have d: "list_all is_digit (dec_digits k)" "dec_digits k \<noteq> []" using dec_digits_correct [of k] by auto
  have "c \<noteq> CHR '','' \<and> c \<noteq> CHR '')'' \<and> \<not> is_blank c \<and> to_upper c = c" if "is_digit c" for c
    using that plain_char [of c] by simp
  with d(1) show "field_ok (dec_digits k)" by (auto simp: field_ok_def list_all_iff)
  show "dec_digits k \<noteq> []" by (rule d(2))
  show "dec_digits k \<noteq> ''X''" using d(1) by (auto simp: is_digit_def char_code_def)
qed

lemma read_cell_text:
  assumes "cell_text_ok c"
  shows "read_cell (int i) (fields_text (cell_fields c) @ '')'' @ rest) = (cell_of i c, rest)"
proof -
  have ok: "field_ok (ct_type c)" "field_ok (ct_pin c)" using assms by (simp_all add: cell_text_ok_def)
  show ?thesis
  proof (cases "ct_disable c")
    case None
    show ?thesis
      using read_field_comma(2) [OF ok(1)] read_field_comma(1) [OF ok(2)] read_field_comma(1) [OF names_ok(1), of "ct_function c"]
        read_field_paren [OF names_ok(3), of "ct_safe c" rest]
      by (simp add: cell_fields_def None read_cell_def optional_field_def cell_of_def names_ok Let_def parse_disable_result_def bit_field_Nil)
  next
    case (Some x)
    obtain k v r where x: "x = (k, v, r)" by (cases x)
    with Some assms have k: "k < 65536" "r \<in> {Dr_PULL0, Dr_PULL1, Dr_HIGHZ, Dr_KEEPER}" by (auto simp: cell_text_ok_def)
    have "stoi (dec_digits k) = Some (int k)" using k(1) by (intro stoi_dec_digits) simp
    then show ?thesis
      using read_field_comma(2) [OF ok(1)] read_field_comma(1) [OF ok(2)] read_field_comma(1) [OF names_ok(1), of "ct_function c"]
        read_field_comma(1) [OF names_ok(3), of "ct_safe c"] read_field_comma(1) [OF digits_field(1), of k]
        read_field_comma(1) [OF bit_char_field(1), of v] read_field_paren [OF names_ok(5), of r rest] k(2)
      by (simp add: cell_fields_def Some x read_cell_def optional_field_def cell_of_def names_ok bit_char_field digits_field Let_def)
  qed
qed

lemma parse_cell_entry:
  assumes "cell_text_ok c" and "i < 65536" and "list_all is_gap gap"
  shows "parse_cells dev (gap @ cell_entry (i, c) @ rest) = parse_cells (store_cell (int i) (cell_of i c) dev) rest"
proof -
  let ?t = "fields_text (cell_fields c) @ '')'' @ rest"
  let ?s = "gap @ cell_entry (i, c) @ rest"
  have d: "list_all is_digit (dec_digits i)" "dec_digits i \<noteq> []" using dec_digits_correct [of i] by auto
  have h: "\<not> is_gap (hd (dec_digits i))" using d plain_char [of "hd (dec_digits i)"] by (cases "dec_digits i") auto
  have e: "?s = gap @ dec_digits i @ '' ('' @ ?t" by (simp add: cell_entry_def)
  have s1: "dropWhile is_gap ?s = dec_digits i @ '' ('' @ ?t"
    using takeWhile_text [OF assms(3), of "dec_digits i @ '' ('' @ ?t"] h d(2) unfolding e by (simp add: hd_append)
  have ns: "\<not> is_digit CHR '' ''" by (simp add: is_digit_def char_code_def)
  have dg: "takeWhile is_digit (dec_digits i @ '' ('' @ ?t) = dec_digits i"
    "dropWhile is_digit (dec_digits i @ '' ('' @ ?t) = '' ('' @ ?t"
    using takeWhile_text [OF d(1), of "'' ('' @ ?t"] ns by simp_all
  have p: "dropWhile (\<lambda>c. c \<noteq> CHR ''('') ('' ('' @ ?t) = ''('' @ ?t" by simp
  have v: "stoi (dec_digits i) = Some (int i)" using assms(2) by (intro stoi_dec_digits) simp
  note st = parse_cells_step(5) [of ?s "int i" dev, unfolded s1 dg p]
  have "parse_cells dev ?s = parse_cells (store_cell (int i) (fst (read_cell (int i) (tl (''('' @ ?t)))) dev) (snd (read_cell (int i) (tl (''('' @ ?t))))"
    by (rule st) (use d(2) v in simp_all)
  then show ?thesis by (simp add: read_cell_text [OF assms(1), simplified])
qed

lemma parse_cells_nil: "list_all is_gap gap \<Longrightarrow> parse_cells dev gap = Some dev"
proof -
  assume "list_all is_gap gap"
  then have "dropWhile is_gap gap = []" by (simp add: list_all_iff)
  then show ?thesis by (rule parse_cells_step(1))
qed

definition add_cell :: "nat \<times> cell_text \<Rightarrow> bsdl_device \<Rightarrow> bsdl_device" where
  "add_cell e dev = store_cell (int (fst e)) (cell_of (fst e) (snd e)) dev"

lemma parse_cell_table:
  "list_all (\<lambda>(i, c). cell_text_ok c \<and> i < 65536) es \<Longrightarrow> list_all is_gap gap \<Longrightarrow>
     parse_cells dev (gap @ concat (comma_texts (map cell_entry es))) = Some (fold add_cell es dev)"
proof (induction es arbitrary: gap dev)
  case Nil
  then show ?case using parse_cells_nil by simp
next
  case (Cons e es)
  obtain i c where e: "e = (i, c)" by (cases e)
  have g: "list_all is_gap '',''" by (simp add: is_gap_def)
  have 1: "parse_cells dev (gap @ cell_entry e @ rest) = parse_cells (add_cell e dev) rest" for rest
    using parse_cell_entry [of c i gap dev rest] Cons.prems by (simp add: e add_cell_def)
  show ?case
  proof (cases es)
    case Nil
    then show ?thesis using 1 [of "[]"] parse_cells_nil [of "[]"] by simp
  next
    case (Cons e2 es2)
    then have "concat (comma_texts (map cell_entry (e # es))) = cell_entry e @ '','' @ concat (comma_texts (map cell_entry es))" by simp
    then show ?thesis using 1 Cons.IH [OF _ g, of "add_cell e dev"] Cons.prems(1) by simp
  qed
qed

lemma fold_add_cells:
  "n + length cs \<le> length (bd_cells dev) \<Longrightarrow>
     fold add_cell (enumerate n cs) dev =
       dev\<lparr>bd_cells := take n (bd_cells dev) @ map (\<lambda>(i, c). cell_of i c) (enumerate n cs) @ drop (n + length cs) (bd_cells dev)\<rparr>"
proof (induction cs arbitrary: n dev)
  case Nil
  then show ?case by simp
next
  case (Cons c cs)
  let ?dev = "dev\<lparr>bd_cells := (bd_cells dev)[n := cell_of n c]\<rparr>"
  have "add_cell (n, c) dev = ?dev" using Cons.prems by (simp add: add_cell_def store_cell_def Let_def)
  moreover have "take (Suc n) ((bd_cells dev)[n := cell_of n c]) = take n (bd_cells dev) @ [cell_of n c]"
    using Cons.prems by (simp add: take_Suc_conv_app_nth)
  ultimately show ?case using Cons.IH [of "Suc n" ?dev] Cons.prems by simp
qed

text \<open>A pin name with an index ends its cell: the rest is read as another cell.  Here cell 0 loses its
  function, and the digit of \<open>OUTPUT3\<close> makes a cell 3 of what the file says about cell 1.\<close>

lemma indexed_pin_breaks_cells:
  "map_option (\<lambda>d. map (\<lambda>c. (bc_position c, bc_pin_name c)) (bd_cells d))
     (parse_cells default_device ''0 (BC_2, A(0), OUTPUT3, X), 1 (BC_1, B, INPUT, X)'')
   = Some [(0, ''A(0''), (-1, []), (-1, []), (3, ''B'')]"
  by code_simp

section \<open>The tokens of a description\<close>

type_synonym tok_pair = "token_type \<times> string"

definition word_tok :: "string \<Rightarrow> tok_pair" where
  "word_tok s = (Tk_IDENTIFIER, s)"

definition sym_tok :: "token_type \<Rightarrow> tok_pair" where
  "sym_tok ty = (ty, symbol_text ty)"

definition entity_tokens :: "string \<Rightarrow> tok_pair list" where
  "entity_tokens name =
     [word_tok ''ENTITY'', word_tok name, word_tok ''IS'', word_tok ''GENERIC'', sym_tok Tk_LPAREN, word_tok ''PHYSICAL_PIN_MAP'',
      sym_tok Tk_COLON, word_tok ''STRING'', sym_tok Tk_ASSIGN, (Tk_STRING_LITERAL, ''UNDEFINED''), sym_tok Tk_RPAREN, sym_tok Tk_SEMICOLON]"

definition direction_name :: "pin_direction \<Rightarrow> string" where
  "direction_name d =
     (case d of Pd_IN \<Rightarrow> ''IN'' | Pd_OUT \<Rightarrow> ''OUT'' | Pd_INOUT \<Rightarrow> ''INOUT'' | Pd_BUFFER \<Rightarrow> ''BUFFER'' | Pd_LINKAGE \<Rightarrow> ''LINKAGE'')"

fun ports_tokens :: "(string \<times> pin_direction) list \<Rightarrow> tok_pair list" where
  "ports_tokens [] = [sym_tok Tk_RPAREN, sym_tok Tk_SEMICOLON]"
| "ports_tokens ((n, d) # ps) =
     [word_tok n, sym_tok Tk_COLON, word_tok (direction_name d), word_tok ''BIT''] @
     (if ps = [] then [] else [sym_tok Tk_SEMICOLON]) @ ports_tokens ps"

definition port_tokens :: "(string \<times> pin_direction) list \<Rightarrow> tok_pair list" where
  "port_tokens ps = [word_tok ''PORT'', sym_tok Tk_LPAREN] @ ports_tokens ps"

fun strings_tokens :: "string list \<Rightarrow> tok_pair list" where
  "strings_tokens [] = [(Tk_STRING_LITERAL, [])]"
| "strings_tokens [s] = [(Tk_STRING_LITERAL, s)]"
| "strings_tokens (s # t # ss) = (Tk_STRING_LITERAL, s) # sym_tok Tk_AMPERSAND # strings_tokens (t # ss)"

definition attribute_tokens :: "string \<Rightarrow> string \<Rightarrow> tok_pair list \<Rightarrow> tok_pair list" where
  "attribute_tokens entity name value =
     [word_tok ''ATTRIBUTE'', word_tok name, word_tok ''OF'', word_tok entity, sym_tok Tk_COLON, word_tok ''ENTITY'', word_tok ''IS''] @
     value @ [sym_tok Tk_SEMICOLON]"

lemma tokens_Cons:
  "map token_pair ts = (ty, v) # P \<longleftrightarrow> (\<exists>t r. ts = t # r \<and> tk_type t = ty \<and> tk_value t = v \<and> map token_pair r = P)"
  by (auto simp: map_eq_Cons_conv token_pair_def)

lemmas token_simps = tokens_Cons word_tok_def sym_tok_def tok_type_def tok_value_def is_word_def

lemma entity_section:
  assumes "map token_pair ts = entity_tokens name @ P"
  shows "\<exists>r. map token_pair r = P \<and> parse_tokens dev ts = parse_tokens (dev\<lparr>bd_entity_name := name\<rparr>) r"
  using assms
  by (auto simp: entity_tokens_def token_simps parse_tokens.simps parse_entity_def skip_to_semicolon_def)

lemma direction_name: "tok_type (t # r) = Tk_IDENTIFIER \<Longrightarrow> tok_value (t # r) = direction_name d \<Longrightarrow> direction_of (t # r) = d"
  by (cases d) (simp_all add: direction_of_def direction_name_def)

definition add_port :: "string \<times> pin_direction \<Rightarrow> (string \<rightharpoonup> pin_info) \<Rightarrow> (string \<rightharpoonup> pin_info)" where
  "add_port p m = m(fst p \<mapsto> new_pin (fst p) (snd p))"

lemma port_list_tokens:
  "map token_pair ts = ports_tokens ps @ P \<Longrightarrow>
     \<exists>r. map token_pair r = sym_tok Tk_SEMICOLON # P \<and> port_list pins ts = (fold add_port ps pins, r)"
proof (induction ps arbitrary: ts pins)
  case Nil
  then show ?case by (auto simp: token_simps port_list.simps)
next
  case (Cons p ps)
  obtain n d where p: "p = (n, d)" by (cases p)
  let ?Q = "(if ps = [] then [] else [sym_tok Tk_SEMICOLON]) @ ports_tokens ps @ P"
  from Cons.prems obtain t1 t2 t3 t4 r where ts: "ts = t1 # t2 # t3 # t4 # r" "tk_type t1 = Tk_IDENTIFIER" "tk_value t1 = n"
    "tk_type t2 = Tk_COLON" "tk_type t3 = Tk_IDENTIFIER" "tk_value t3 = direction_name d" "tk_type t4 = Tk_IDENTIFIER"
    "map token_pair r = ?Q"
    by (auto simp: p token_simps)
  have dir: "direction_of (t3 # t4 # r) = d" using ts(5,6) by (intro direction_name) (simp_all add: tok_type_def tok_value_def)
  have names: "indexed_name n (t2 # t3 # t4 # r) = (n, t2 # t3 # t4 # r)" "more_names (t2 # t3 # t4 # r) = ([], t2 # t3 # t4 # r)"
    using ts(4) by (simp_all add: indexed_name_def more_names.simps tok_type_def)
  have ap: "add_port p pins = pins(n \<mapsto> new_pin n d)" by (simp add: p add_port_def)
  have step: "port_list pins ts = (case skip_type 0 (t4 # r) of (closed, r3) \<Rightarrow>
      if closed then (add_port p pins, r3) else port_list (add_port p pins) r3)"
    unfolding ap using ts(2-4) dir names by (simp add: ts(1) port_list.simps tok_type_def add_pins_def Let_def)
  show ?case
  proof (cases ps)
    case Nil
    then obtain t5 r5 where "r = t5 # r5" "tk_type t5 = Tk_RPAREN" "map token_pair r5 = sym_tok Tk_SEMICOLON # P"
      using ts(8) by (auto simp: token_simps)
    with step ts(7) Nil show ?thesis by simp
  next
    case (Cons p2 ps2)
    then obtain t5 r5 where r5: "r = t5 # r5" "tk_type t5 = Tk_SEMICOLON" "map token_pair r5 = ports_tokens ps @ P"
      using ts(8) by (auto simp: token_simps)
    with step ts(7) have "port_list pins ts = port_list (add_port p pins) r5" by simp
    with Cons.IH [OF r5(3), of "add_port p pins"] show ?thesis by simp
  qed
qed

lemma port_section:
  assumes "map token_pair ts = port_tokens ps @ P"
  shows "\<exists>r. map token_pair r = P \<and> parse_tokens dev ts = parse_tokens (dev\<lparr>bd_pins := fold add_port ps (bd_pins dev)\<rparr>) r"
proof -
  from assms obtain t1 t2 r where ts: "ts = t1 # t2 # r" "is_word ''PORT'' t1" "tk_type t2 = Tk_LPAREN" "map token_pair r = ports_tokens ps @ P"
    by (auto simp: port_tokens_def token_simps)
  obtain r2 where r2: "map token_pair r2 = sym_tok Tk_SEMICOLON # P"
    "port_list (bd_pins dev) r = (fold add_port ps (bd_pins dev), r2)"
    using port_list_tokens [OF ts(4), of "bd_pins dev"] by (elim exE conjE)
  from r2(1) obtain t3 r3 where r3: "r2 = t3 # r3" "tk_type t3 = Tk_SEMICOLON" "map token_pair r3 = P" by (auto simp: token_simps)
  have "parse_ports dev (t2 # r) = (dev\<lparr>bd_pins := fold add_port ps (bd_pins dev)\<rparr>, r3)"
    using ts(3) r2(2) r3 by (simp add: parse_ports_def tok_type_def)
  then show ?thesis using ts(1,2) r3(3) by (auto simp: parse_tokens.simps is_word_def)
qed

lemma concat_strings_tokens:
  "map token_pair ts = strings_tokens ss @ sym_tok Tk_SEMICOLON # P \<Longrightarrow>
     \<exists>r. map token_pair r = sym_tok Tk_SEMICOLON # P \<and> concat_strings ts = (concat ss, r)"
proof (induction ss arbitrary: ts rule: strings_tokens.induct)
  case (3 s t ss)
  from "3.prems" obtain t1 t2 r where ts: "ts = t1 # t2 # r" "tk_type t1 = Tk_STRING_LITERAL" "tk_value t1 = s" "tk_type t2 = Tk_AMPERSAND"
    "map token_pair r = strings_tokens (t # ss) @ sym_tok Tk_SEMICOLON # P"
    by (auto simp: token_simps)
  obtain r' where "map token_pair r' = sym_tok Tk_SEMICOLON # P" "concat_strings r = (concat (t # ss), r')"
    using "3.IH" [OF ts(5)] by (elim exE conjE)
  with ts show ?case by simp
qed (auto simp: token_simps)

lemma read_strings:
  assumes "map token_pair ts = strings_tokens ss @ sym_tok Tk_SEMICOLON # P"
  shows "\<exists>r. map token_pair (skip_to_semicolon r) = P \<and> read_concatenated_string ts = (concat ss, r)"
proof -
  obtain r where r: "map token_pair r = sym_tok Tk_SEMICOLON # P" "concat_strings ts = (concat ss, r)"
    using concat_strings_tokens [OF assms] by (elim exE conjE)
  moreover have "tok_type ts = Tk_STRING_LITERAL" using assms by (cases ss rule: strings_tokens.cases) (auto simp: token_simps)
  moreover have "map token_pair (skip_to_semicolon r) = P" using r(1) by (auto simp: token_simps skip_to_semicolon_def)
  ultimately show ?thesis by (auto simp: read_concatenated_string_def)
qed

lemma attribute_section:
  assumes "map token_pair ts = attribute_tokens ent name value @ P" and "ent \<noteq> ''IS''"
  shows "\<exists>r. map token_pair r = value @ sym_tok Tk_SEMICOLON # P \<and>
           parse_tokens dev ts = (case attribute_value name dev r of None \<Rightarrow> None | Some (d, r') \<Rightarrow> parse_tokens d r')"
proof -
  from assms(1) obtain t1 t2 t3 t4 t5 t6 t7 r where ts: "ts = t1 # t2 # t3 # t4 # t5 # t6 # t7 # r" "is_word ''ATTRIBUTE'' t1"
    "tk_type t2 = Tk_IDENTIFIER" "tk_value t2 = name" "is_word ''OF'' t3" "is_word ent t4" "tk_type t5 = Tk_COLON" "is_word ''ENTITY'' t6"
    "is_word ''IS'' t7" "map token_pair r = value @ sym_tok Tk_SEMICOLON # P"
    by (auto simp: attribute_tokens_def token_simps)
  have "parse_attribute dev (t2 # t3 # t4 # t5 # t6 # t7 # r) = attribute_value name dev r"
    using ts(2-9) assms(2) by (simp add: parse_attribute_def tok_type_def tok_value_def is_word_def)
  with ts(1,2,10) show ?thesis by (intro exI [of _ r]) (simp add: parse_tokens.simps is_word_def)
qed

section \<open>The IDCODE\<close>

lemma idcode_raw:
  "length bs \<le> 32 \<Longrightarrow>
     foldl (\<lambda>r c. push_bit 1 r OR (if c = CHR ''1'' then 1 else 0)) (0 :: u32) (bits_text bs) = bits_word bs"
proof (induction bs rule: rev_induct)
  case Nil
  show ?case by (intro word_eq_bitsI) (simp add: bits_text_def bits_word_def bit_word_of_bits)
next
  case (snoc b bs)
  have c: "(bit_char b = CHR ''1'') = b" by (simp add: bit_char_def)
  have "push_bit 1 (bits_word bs) OR (if b then 1 else 0) = bits_word (bs @ [b])"
  proof (rule word_eq_bitsI)
    fix i assume i: "i < LENGTH(32)"
    show "bit (push_bit 1 (bits_word bs) OR (if b then 1 else 0)) i = bit (bits_word (bs @ [b])) i"
    proof (cases i)
      case 0
      then show ?thesis unfolding bit_or_iff bit_push_bit_iff by (simp add: bits_word_def bit_word_of_bits)
    next
      case (Suc j)
      then show ?thesis using i
        unfolding bit_or_iff bit_push_bit_iff by (simp add: bits_word_def bit_word_of_bits bit_1_iff)
    qed
  qed
  with snoc c show ?case by (simp add: bits_text_def)
qed

definition idcode_word :: "u32 \<Rightarrow> id_code" where
  "idcode_word raw =
     \<lparr>id_raw = raw, id_version = drop_bit 28 raw AND 0xF, id_part_number = drop_bit 12 raw AND 0xFFFF,
      id_manufacturer = drop_bit 1 raw AND 0x7FF\<rparr>"

lemma parse_idcode_bits:
  "length bs = 32 \<Longrightarrow> parse_idcode dev (bits_text bs) = dev\<lparr>bd_idcode := idcode_word (bits_word bs)\<rparr>"
  using idcode_raw [of bs]
  by (simp add: parse_idcode_def binary_digits_bits idcode_of_def idcode_word_def Let_def) (simp add: bits_text_def)

section \<open>Whole files\<close>

definition bsdl_tokens :: "bsdl_text \<Rightarrow> tok_pair list" where
  "bsdl_tokens t =
     (let attr = attribute_tokens (bt_entity t)
      in entity_tokens (bt_entity t) @ port_tokens (bt_ports t) @
         attr ''INSTRUCTION_LENGTH'' [(Tk_INTEGER, dec_digits (bt_ir_length t))] @
         attr ''INSTRUCTION_OPCODE'' (strings_tokens (comma_texts (map opcode_text (bt_opcodes t)))) @
         attr ''IDCODE_REGISTER'' (strings_tokens [bits_text (bt_idcode t)]) @
         attr ''BOUNDARY_LENGTH'' [(Tk_INTEGER, dec_digits (length (bt_cells t)))] @
         attr ''BOUNDARY_REGISTER'' (strings_tokens (comma_texts (map cell_entry (enumerate 0 (bt_cells t))))) @
         [word_tok ''END'', word_tok (bt_entity t), sym_tok Tk_SEMICOLON])"

definition bsdl_text_ok :: "bsdl_text \<Rightarrow> bool" where
  "bsdl_text_ok t \<longleftrightarrow>
     bt_entity t \<notin> {''IS'', ''ENTITY'', ''PORT'', ''ATTRIBUTE''} \<and> bt_ir_length t \<le> 2147483647 \<and> opcodes_ok (bt_opcodes t) \<and>
     length (bt_idcode t) = 32 \<and> list_all cell_text_ok (bt_cells t) \<and> length (bt_cells t) \<le> 65536"

text \<open>The device that a description means.\<close>

definition device_of :: "bsdl_text \<Rightarrow> bsdl_device" where
  "device_of t = cross_reference
     \<lparr>bd_entity_name = bt_entity t, bd_package_name = [], bd_instruction_length = bt_ir_length t,
      bd_instructions = fold add_opcode (bt_opcodes t) Map.empty, bd_boundary_length = length (bt_cells t),
      bd_cells = map (\<lambda>(i, c). cell_of i c) (enumerate 0 (bt_cells t)), bd_pins = fold add_port (bt_ports t) Map.empty,
      bd_package_pin_map = Map.empty, bd_idcode = idcode_word (bits_word (bt_idcode t))\<rparr>"

lemma number_section:
  assumes "map token_pair r = [(Tk_INTEGER, dec_digits n)] @ sym_tok Tk_SEMICOLON # P" and "n \<le> 2147483647"
  shows "tok_type r = Tk_INTEGER \<and> stoi (tok_value r) = Some (int n) \<and> map token_pair (skip_to_semicolon (tl r)) = P"
  using assms stoi_dec_digits [of n] by (auto simp: token_simps skip_to_semicolon_def)

lemma attribute_names:
  "''INSTRUCTION_OPCODE'' \<noteq> ''INSTRUCTION_LENGTH''" "''IDCODE_REGISTER'' \<noteq> ''INSTRUCTION_LENGTH''"
  "''IDCODE_REGISTER'' \<noteq> ''INSTRUCTION_OPCODE''" "''IDCODE_REGISTER'' \<noteq> ''BOUNDARY_LENGTH''" "''IDCODE_REGISTER'' \<noteq> ''BOUNDARY_REGISTER''"
  "''BOUNDARY_LENGTH'' \<noteq> ''INSTRUCTION_LENGTH''" "''BOUNDARY_LENGTH'' \<noteq> ''INSTRUCTION_OPCODE''"
  "''BOUNDARY_REGISTER'' \<noteq> ''INSTRUCTION_LENGTH''" "''BOUNDARY_REGISTER'' \<noteq> ''INSTRUCTION_OPCODE''" "''BOUNDARY_REGISTER'' \<noteq> ''BOUNDARY_LENGTH''"
  by simp_all

lemma resize_empty: "resize_cells n [] = replicate n default_cell"
  by (simp add: resize_cells_def)

text \<open>One attribute after the other: what is left of the tokens, and the device from there on.\<close>

definition reads_to :: "bsdl_device \<Rightarrow> token list \<Rightarrow> bsdl_device \<Rightarrow> tok_pair list \<Rightarrow> bool" where
  "reads_to dev ts dev' P \<longleftrightarrow> (\<exists>r. map token_pair r = P \<and> parse_tokens dev ts = parse_tokens dev' r)"

lemma reads_then:
  assumes "reads_to dev ts dev' P" and "\<And>r. map token_pair r = P \<Longrightarrow> parse_tokens dev' r = X"
  shows "parse_tokens dev ts = X"
  using assms unfolding reads_to_def by auto

lemma reads_to_text_attribute:
  assumes "map token_pair ts = attribute_tokens ent name (strings_tokens ss) @ P" and "ent \<noteq> ''IS''"
    and "\<And>r r'. read_concatenated_string r = (concat ss, r') \<Longrightarrow> attribute_value name dev r = Some (dev', skip_to_semicolon r')"
  shows "reads_to dev ts dev' P"
proof -
  obtain r where r: "map token_pair r = strings_tokens ss @ sym_tok Tk_SEMICOLON # P"
    "parse_tokens dev ts = (case attribute_value name dev r of None \<Rightarrow> None | Some (d, r') \<Rightarrow> parse_tokens d r')"
    using attribute_section [OF assms(1,2), of dev] by (elim exE conjE)
  obtain r' where r': "map token_pair (skip_to_semicolon r') = P" "read_concatenated_string r = (concat ss, r')"
    using read_strings [OF r(1)] by (elim exE conjE)
  show ?thesis unfolding reads_to_def
    by (rule exI [of _ "skip_to_semicolon r'"]) (simp add: r'(1) r(2) assms(3) [OF r'(2)])
qed

lemma reads_to_number_attribute:
  assumes "map token_pair ts = attribute_tokens ent name [(Tk_INTEGER, dec_digits n)] @ P" and "ent \<noteq> ''IS''" and "n \<le> 2147483647"
    and "\<And>r. tok_type r = Tk_INTEGER \<Longrightarrow> stoi (tok_value r) = Some (int n) \<Longrightarrow>
           attribute_value name dev r = Some (dev', skip_to_semicolon (tl r))"
  shows "reads_to dev ts dev' P"
proof -
  obtain r where r: "map token_pair r = [(Tk_INTEGER, dec_digits n)] @ sym_tok Tk_SEMICOLON # P"
    "parse_tokens dev ts = (case attribute_value name dev r of None \<Rightarrow> None | Some (d, r') \<Rightarrow> parse_tokens d r')"
    using attribute_section [OF assms(1,2), of dev] by (elim exE conjE)
  from number_section [OF r(1) assms(3)] have n: "tok_type r = Tk_INTEGER" "stoi (tok_value r) = Some (int n)"
    "map token_pair (skip_to_semicolon (tl r)) = P" by simp_all
  show ?thesis unfolding reads_to_def
    by (rule exI [of _ "skip_to_semicolon (tl r)"]) (simp add: n(3) r(2) assms(4) [OF n(1,2)])
qed

lemma entity_reads: "map token_pair ts = entity_tokens name @ P \<Longrightarrow> reads_to dev ts (dev\<lparr>bd_entity_name := name\<rparr>) P"
  unfolding reads_to_def by (rule entity_section)

lemma port_reads: "map token_pair ts = port_tokens ps @ P \<Longrightarrow> reads_to dev ts (dev\<lparr>bd_pins := fold add_port ps (bd_pins dev)\<rparr>) P"
  unfolding reads_to_def by (rule port_section)

lemma ir_length_reads:
  assumes "map token_pair ts = attribute_tokens ent ''INSTRUCTION_LENGTH'' [(Tk_INTEGER, dec_digits n)] @ P"
    and "ent \<noteq> ''IS''" and "n \<le> 2147483647"
  shows "reads_to dev ts (dev\<lparr>bd_instruction_length := n\<rparr>) P"
  by (rule reads_to_number_attribute [OF assms])
    (simp add: attribute_value_def split_beta Let_def parse_instruction_length_def)

lemma opcode_reads:
  assumes "map token_pair ts = attribute_tokens ent ''INSTRUCTION_OPCODE'' (strings_tokens (comma_texts (map opcode_text es))) @ P"
    and "ent \<noteq> ''IS''" and "opcodes_ok es"
  shows "reads_to dev ts (dev\<lparr>bd_instructions := fold add_opcode es (bd_instructions dev)\<rparr>) P"
  using parse_opcode_table [OF assms(3), of "[]" "bd_instructions dev"]
  by (intro reads_to_text_attribute [OF assms(1,2)]) (simp add: attribute_value_def Let_def)

lemma idcode_reads:
  assumes "map token_pair ts = attribute_tokens ent ''IDCODE_REGISTER'' (strings_tokens [bits_text bs]) @ P"
    and "ent \<noteq> ''IS''" and "length bs = 32"
  shows "reads_to dev ts (dev\<lparr>bd_idcode := idcode_word (bits_word bs)\<rparr>) P"
  using parse_idcode_bits [OF assms(3), of dev]
  by (intro reads_to_text_attribute [OF assms(1,2)]) (simp add: attribute_value_def Let_def)

lemma boundary_length_reads:
  assumes "map token_pair ts = attribute_tokens ent ''BOUNDARY_LENGTH'' [(Tk_INTEGER, dec_digits n)] @ P"
    and "ent \<noteq> ''IS''" and "n \<le> 65536" and "bd_cells dev = []" and "bd_boundary_length dev = 0"
  shows "reads_to dev ts (dev\<lparr>bd_boundary_length := n, bd_cells := replicate n default_cell\<rparr>) P"
proof -
  have "dev\<lparr>bd_boundary_length := 0, bd_cells := []\<rparr> = dev" using assms(4,5) by (cases dev) simp
  then have "attribute_value ''BOUNDARY_LENGTH'' dev r =
      Some (dev\<lparr>bd_boundary_length := n, bd_cells := replicate n default_cell\<rparr>, skip_to_semicolon (tl r))"
    if "tok_type r = Tk_INTEGER" "stoi (tok_value r) = Some (int n)" for r
    using that assms(3,4) by (auto simp: attribute_value_def split_beta Let_def parse_boundary_length_def resize_empty MAX_BSR_BITS_def)
  moreover have "n \<le> 2147483647" using assms(3) by simp
  ultimately show ?thesis using reads_to_number_attribute [OF assms(1,2)] by blast
qed

lemma boundary_register_reads:
  assumes "map token_pair ts = attribute_tokens ent ''BOUNDARY_REGISTER'' (strings_tokens (comma_texts (map cell_entry (enumerate 0 cs)))) @ P"
    and "ent \<noteq> ''IS''" and "list_all cell_text_ok cs" and "length cs \<le> 65536" and "bd_cells dev = replicate (length cs) default_cell"
    and "bd_boundary_length dev = length cs"
  shows "reads_to dev ts (dev\<lparr>bd_cells := map (\<lambda>(i, c). cell_of i c) (enumerate 0 cs)\<rparr>) P"
proof -
  have es: "list_all (\<lambda>(i, c). cell_text_ok c \<and> i < 65536) (enumerate 0 cs)"
    using assms(3,4) by (auto simp: list_all_iff in_set_enumerate_eq)
  have "parse_cells dev (concat (comma_texts (map cell_entry (enumerate 0 cs)))) = Some (fold add_cell (enumerate 0 cs) dev)"
    using parse_cell_table [OF es, of "[]" dev] by simp
  also have "fold add_cell (enumerate 0 cs) dev = dev\<lparr>bd_cells := map (\<lambda>(i, c). cell_of i c) (enumerate 0 cs)\<rparr>"
    using fold_add_cells [of 0 cs dev] assms(5) by simp
  finally have c: "parse_cells dev (concat (comma_texts (map cell_entry (enumerate 0 cs)))) =
      Some (dev\<lparr>bd_cells := map (\<lambda>(i, c). cell_of i c) (enumerate 0 cs)\<rparr>)" .
  have "\<not> (bd_cells dev = [] \<and> 0 < bd_boundary_length dev)" using assms(5,6) by auto
  with c have "parse_boundary_register dev (concat (comma_texts (map cell_entry (enumerate 0 cs)))) =
      Some (dev\<lparr>bd_cells := map (\<lambda>(i, c). cell_of i c) (enumerate 0 cs)\<rparr>)"
    unfolding parse_boundary_register_def by (simp only: if_False)
  then show ?thesis
    by (intro reads_to_text_attribute [OF assms(1,2)]) (simp add: attribute_value_def Let_def)
qed

lemma end_of_file_reads:
  assumes "map token_pair ts = [word_tok ''END'', word_tok ent, sym_tok Tk_SEMICOLON]" and "ent \<notin> {''ENTITY'', ''PORT'', ''ATTRIBUTE''}"
  shows "parse_tokens dev ts = Some (cross_reference dev)"
  using assms by (auto simp: token_simps parse_tokens.simps)

lemma parse_tokens_description:
  assumes ok: "bsdl_text_ok t" and ts: "map token_pair ts = bsdl_tokens t"
  shows "parse_tokens default_device ts = Some (device_of t)"
proof -
  have e: "bt_entity t \<noteq> ''IS''" "bt_entity t \<notin> {''ENTITY'', ''PORT'', ''ATTRIBUTE''}" and ir: "bt_ir_length t \<le> 2147483647"
    and op: "opcodes_ok (bt_opcodes t)" and id: "length (bt_idcode t) = 32"
    and cs: "list_all cell_text_ok (bt_cells t)" "length (bt_cells t) \<le> 65536"
    using ok by (simp_all add: bsdl_text_ok_def)
  show ?thesis
    apply (rule reads_then [OF entity_reads [OF ts [unfolded bsdl_tokens_def Let_def]]])
    apply (rule reads_then [OF port_reads], assumption)
    apply (rule reads_then [OF ir_length_reads [OF _ e(1) ir]], assumption)
    apply (rule reads_then [OF opcode_reads [OF _ e(1) op]], assumption)
    apply (rule reads_then [OF idcode_reads [OF _ e(1) id]], assumption)
    apply (rule reads_then [OF boundary_length_reads [OF _ e(1) cs(2)]], assumption)
      apply (simp add: default_device_def)
     apply (simp add: default_device_def)
    apply (rule reads_then [OF boundary_register_reads [OF _ e(1) cs]], assumption)
      apply simp
     apply simp
    apply (simp add: end_of_file_reads [OF _ e(2)] device_of_def default_device_def)
    done
qed

section \<open>Properties\<close>


definition demo_text :: bsdl_text where
  "demo_text =
     \<lparr>bt_entity = ''CHIP'', bt_ports = [(''A'', Pd_INOUT), (''TCK'', Pd_IN)], bt_ir_length = 4,
      bt_opcodes = [(''EXTEST'', [False, False, False, False]), (''BYPASS'', [True, True, True, True])],
      bt_idcode = replicate 31 False @ [True],
      bt_cells =
        [\<lparr>ct_type = ''BC_2'', ct_pin = ''*'', ct_function = Cf_CONTROL, ct_safe = Some True, ct_disable = None\<rparr>,
         \<lparr>ct_type = ''BC_1'', ct_pin = ''A'', ct_function = Cf_OUTPUT3, ct_safe = None, ct_disable = Some (0, True, Dr_HIGHZ)\<rparr>]\<rparr>"

definition spaced_items :: "tok_pair list \<Rightarrow> (gap_piece list \<times> lexeme) list" where
  "spaced_items ps =
     map (\<lambda>(ty, v). ([Blank CHR '' ''],
       if ty = Tk_IDENTIFIER then L_ident v else if ty = Tk_STRING_LITERAL then L_string v
       else if ty = Tk_INTEGER then L_number v else L_symbol ty)) ps"

lemma demo_text_ok:
  "bsdl_text_ok demo_text" "map (lexeme_token \<circ> snd) (spaced_items (bsdl_tokens demo_text)) = bsdl_tokens demo_text"
  "list_all (\<lambda>(ps, x). ps \<noteq> [] \<and> list_all piece_ok ps \<and> lexeme_ok x) (spaced_items (bsdl_tokens demo_text))"
  by code_simp+


text \<open>In that device pin \<open>A\<close> is driven by cell 1; control cells have no pin of their own, so only \<open>bc_disabled_by\<close> leads to cell 0.\<close>

lemma demo_device:
  "map_option (\<lambda>p. (pi_direction p, pi_input_cell p, pi_output_cell p, pi_control_cell p)) (bd_pins (device_of demo_text) ''A'')
   = Some (Pd_INOUT, -1, 1, -1)"
  by code_simp

end
