(* ===== verification/Jtag_Board.thy ===== *)
theory Jtag_Board
  imports Jtag_Chain_Props
begin

text \<open>
  A board behind the probe: the TAP of IEEE 1149.1 clocked pulse by pulse, with the registers of the chain as
  one shift register.  What the registers capture and what an update does to the devices are parameters.
  \<open>board_link\<close> is the probe on such a board.  The lemmas say what the scans of the controller do there,
  bit by bit: what comes back, and what the devices receive.
\<close>

unbundle bit_operations_syntax

section \<open>The board\<close>

record 'h board_ops =
  bd_reset :: "'h \<Rightarrow> 'h"
  bd_capture_dr :: "'h \<Rightarrow> bool list"
  bd_update_dr :: "'h \<Rightarrow> bool list \<Rightarrow> 'h"
  bd_capture_ir :: "'h \<Rightarrow> bool list"
  bd_update_ir :: "'h \<Rightarrow> bool list \<Rightarrow> 'h"

record 'h board =
  bo_state :: tap_state
  bo_level :: bool
  bo_reg :: "bool list"
  bo_hw :: 'h

text \<open>A rising edge of TCK acts on the state that the TAP is in; the head of the register is at TDO.\<close>

definition clock_reg :: "bool \<Rightarrow> bool list \<Rightarrow> bool list" where
  "clock_reg tdi reg = (if reg = [] then [] else tl reg @ [tdi])"

definition board_edge :: "'h board_ops \<Rightarrow> bool \<Rightarrow> 'h board \<Rightarrow> 'h board" where
  "board_edge H tdi s =
     (case bo_state s of
        TEST_LOGIC_RESET \<Rightarrow> s\<lparr>bo_hw := bd_reset H (bo_hw s)\<rparr>
      | CAPTURE_DR \<Rightarrow> s\<lparr>bo_reg := bd_capture_dr H (bo_hw s)\<rparr>
      | SHIFT_DR \<Rightarrow> s\<lparr>bo_reg := clock_reg tdi (bo_reg s)\<rparr>
      | UPDATE_DR \<Rightarrow> s\<lparr>bo_hw := bd_update_dr H (bo_hw s) (bo_reg s)\<rparr>
      | CAPTURE_IR \<Rightarrow> s\<lparr>bo_reg := bd_capture_ir H (bo_hw s)\<rparr>
      | SHIFT_IR \<Rightarrow> s\<lparr>bo_reg := clock_reg tdi (bo_reg s)\<rparr>
      | UPDATE_IR \<Rightarrow> s\<lparr>bo_hw := bd_update_ir H (bo_hw s) (bo_reg s)\<rparr>
      | _ \<Rightarrow> s)"

definition board_tick :: "'h board_ops \<Rightarrow> pulse \<Rightarrow> 'h board \<Rightarrow> 'h board" where
  "board_tick H p s = (board_edge H (p_tdi p) s)\<lparr>bo_state := next_state (bo_state s) (p_tms p)\<rparr>"

definition board_tdo :: "'h board \<Rightarrow> bool" where
  "board_tdo s = (bo_reg s \<noteq> [] \<and> hd (bo_reg s))"

fun board_run :: "'h board_ops \<Rightarrow> pulse list \<Rightarrow> 'h board \<Rightarrow> bool list \<times> 'h board" where
  "board_run H [] s = ([], s)"
| "board_run H (p # ps) s =
     (case board_run H ps (board_tick H p s) of (tdo, s') \<Rightarrow> (if p_read p then board_tdo s # tdo else tdo, s'))"

definition board_transfer :: "'h board_ops \<Rightarrow> 'h board \<Rightarrow> mpsse_buf \<Rightarrow> bool \<times> byte list \<times> 'h board" where
  "board_transfer H s cmd =
     (case mpsse_parse (cmd_buffer cmd) of
        None \<Rightarrow> (False, [], s)
      | Some cs \<Rightarrow>
          (case board_run H (stream_pulses (bo_level s) cs) s of (tdo, s') \<Rightarrow>
             (True, stream_reply cs tdo, s'\<lparr>bo_level := stream_level (bo_level s) cs\<rparr>)))"

definition board_link :: "'h board_ops \<Rightarrow> 'h board link" where
  "board_link H = \<lparr>lk_transfer = board_transfer H, lk_error = (\<lambda>_. ''bad command'')\<rparr>"

definition board_phys :: "'h board \<Rightarrow> tap_state \<times> bool" where
  "board_phys s = (bo_state s, bo_level s)"

section \<open>Running pulses\<close>

lemma board_run_append:
  "board_run H (ps @ qs) s =
     (case board_run H ps s of (o1, s1) \<Rightarrow> case board_run H qs s1 of (o2, s2) \<Rightarrow> (o1 @ o2, s2))"
  by (induction ps arbitrary: s) (auto split: prod.splits)

lemma board_edge_state [simp]: "bo_level (board_edge H b s) = bo_level s"
  by (simp add: board_edge_def split: tap_state.splits)

lemma board_run_state:
  "bo_state (snd (board_run H ps s)) = run_tms (bo_state s) (map p_tms ps)"
  by (induction ps arbitrary: s) (simp_all add: split_beta board_tick_def)

lemma board_link_drives: "drives_tap (board_link H) board_phys"
proof (unfold drives_tap_def, intro allI impI)
  fix d cmd raw d'
  assume t: "lk_transfer (board_link H) d cmd = (True, raw, d')"
  then obtain cs where cs: "mpsse_parse (cmd_buffer cmd) = Some cs"
    by (auto simp: board_link_def board_transfer_def split: option.splits)
  with t have "d' = (snd (board_run H (stream_pulses (bo_level d) cs) d))\<lparr>bo_level := stream_level (bo_level d) cs\<rparr>"
    by (auto simp: board_link_def board_transfer_def split: prod.splits)
  then show "board_phys d' = phys_step (board_phys d) cmd"
    by (simp add: board_phys_def phys_step_def cs board_run_state)
qed

lemma board_link_always_ok: "always_ok (board_link H)"
  by (auto simp: always_ok_def board_link_def board_transfer_def split: option.splits prod.splits)

lemma board_transfer_cmds:
  assumes "list_all cmd_wf cs" and "board_run H (stream_pulses (bo_level s) cs) s = (tdo, s')"
  shows "lk_transfer (board_link H) s (append_cmds cs mpsse_empty) =
           (True, stream_reply cs tdo, s'\<lparr>bo_level := stream_level (bo_level s) cs\<rparr>)"
  using assms by (simp add: board_link_def board_transfer_def append_cmds_empty mpsse_parse_encode)

lemma board_tms:
  assumes "1 \<le> n" and "n \<le> 7" and "board_run H (map (\<lambda>i. Pulse (bit w i) False False) [0..<n]) (tap_dev t) = (u, s')"
  shows "tap_write (board_link H) (clock_tms w (int n) False False mpsse_empty) t =
           (True, t\<lparr>tap_dev := s'\<lparr>bo_level := bit w (n - 1)\<rparr>\<rparr>)"
proof -
  let ?cs = "[Tms_Cmd n (tms_byte w False) False]"
  have "stream_pulses (bo_level (tap_dev t)) ?cs = map (\<lambda>i. Pulse (bit w i) False False) [0..<n]"
    using assms(2) by (auto simp: bit_tms_byte)
  then have run: "board_run H (stream_pulses (bo_level (tap_dev t)) ?cs) (tap_dev t) = (u, s')" by (simp only: assms(3))
  have wf: "list_all cmd_wf ?cs" using assms(1,2) by simp
  have level: "stream_level (bo_level (tap_dev t)) ?cs = bit w (n - 1)" using assms(1,2) by (auto simp: bit_tms_byte)
  have cmd: "clock_tms w (int n) False False mpsse_empty = append_cmds ?cs mpsse_empty"
    using assms(1,2) by (simp add: clock_tms_cmds)
  show ?thesis unfolding cmd tap_write_def lk_write_def board_transfer_cmds [OF wf run] level by simp
qed

section \<open>Into a register and out again\<close>

lemma tms_paths:
  "compute_tms_path RUN_TEST_IDLE SHIFT_DR = (1, 3)" "compute_tms_path RUN_TEST_IDLE SHIFT_IR = (3, 4)"
  "compute_tms_path EXIT1_DR RUN_TEST_IDLE = (1, 2)" "compute_tms_path EXIT1_IR RUN_TEST_IDLE = (1, 2)"
  by code_simp+

definition board_idle :: "'h board tap \<Rightarrow> bool" where
  "board_idle t \<longleftrightarrow> tap_st t = RUN_TEST_IDLE \<and> bo_state (tap_dev t) = RUN_TEST_IDLE"

definition in_shift :: "tap_state \<Rightarrow> bool list \<Rightarrow> 'h board tap \<Rightarrow> 'h board tap" where
  "in_shift st reg t = t\<lparr>tap_st := st, tap_dev := (tap_dev t)\<lparr>bo_state := st, bo_level := False, bo_reg := reg\<rparr>\<rparr>"

lemma goto_shift:
  assumes "board_idle t"
  shows "tap_goto (board_link H) SHIFT_DR t = (True, in_shift SHIFT_DR (bd_capture_dr H (bo_hw (tap_dev t))) t)"
    and "tap_goto (board_link H) SHIFT_IR t = (True, in_shift SHIFT_IR (bd_capture_ir H (bo_hw (tap_dev t))) t)"
proof -
  have st: "tap_st t = RUN_TEST_IDLE" "bo_state (tap_dev t) = RUN_TEST_IDLE" using assms by (simp_all add: board_idle_def)
  have 3: "board_run H (map (\<lambda>i. Pulse (bit (1 :: byte) i) False False) [0..<3]) (tap_dev t) =
      ([], (tap_dev t)\<lparr>bo_state := SHIFT_DR, bo_reg := bd_capture_dr H (bo_hw (tap_dev t))\<rparr>)"
    using st by (simp add: upt_rec board_tick_def board_edge_def bit_1_iff)
  from board_tms [OF _ _ 3] show "tap_goto (board_link H) SHIFT_DR t = (True, in_shift SHIFT_DR (bd_capture_dr H (bo_hw (tap_dev t))) t)"
    by (simp add: tap_goto_def st tms_paths Let_def in_shift_def bit_1_iff)
  have 4: "board_run H (map (\<lambda>i. Pulse (bit (3 :: byte) i) False False) [0..<4]) (tap_dev t) =
      ([], (tap_dev t)\<lparr>bo_state := SHIFT_IR, bo_reg := bd_capture_ir H (bo_hw (tap_dev t))\<rparr>)"
    using st by (simp add: upt_rec board_tick_def board_edge_def bit_numeral_rec)
  from board_tms [OF _ _ 4] show "tap_goto (board_link H) SHIFT_IR t = (True, in_shift SHIFT_IR (bd_capture_ir H (bo_hw (tap_dev t))) t)"
    by (simp add: tap_goto_def st tms_paths Let_def in_shift_def bit_numeral_rec)
qed

text \<open>The register while bits are shifted through it.\<close>

lemma board_shift:
  assumes "st = SHIFT_DR \<or> st = SHIFT_IR"
  shows "bo_state s = st \<Longrightarrow> bo_reg s \<noteq> [] \<Longrightarrow>
    board_run H (map (\<lambda>b. Pulse False b rb) bs) s =
      (if rb then take (length bs) (bo_reg s @ bs) else [], s\<lparr>bo_reg := drop (length bs) (bo_reg s @ bs)\<rparr>)"
proof (induction bs arbitrary: s)
  case Nil
  then show ?case by simp
next
  case (Cons b bs)
  obtain c r where r: "bo_reg s = c # r" using Cons.prems(2) by (cases "bo_reg s") auto
  have t: "board_tick H (Pulse False b rb) s = s\<lparr>bo_reg := r @ [b]\<rparr>"
    using assms Cons.prems(1) by (auto simp: board_tick_def board_edge_def clock_reg_def r)
  have "board_run H (map (\<lambda>b. Pulse False b rb) bs) (s\<lparr>bo_reg := r @ [b]\<rparr>) =
      (if rb then take (length bs) ((r @ [b]) @ bs) else [], s\<lparr>bo_reg := drop (length bs) ((r @ [b]) @ bs)\<rparr>)"
    using Cons.IH [of "s\<lparr>bo_reg := r @ [b]\<rparr>"] Cons.prems(1) by simp
  then show ?case by (simp add: t board_tdo_def r)
qed

lemma board_scan:
  assumes "st = SHIFT_DR \<or> st = SHIFT_IR" and "bo_state s = st" and "bo_reg s \<noteq> []" and "0 < n"
  shows "board_run H (map (\<lambda>i. Pulse (i = n - 1) (f i) rb) [0..<n]) s =
           (if rb then take n (bo_reg s @ map f [0..<n]) else [],
            s\<lparr>bo_state := exit1_of st, bo_reg := drop n (bo_reg s @ map f [0..<n])\<rparr>)"
proof -
  obtain m where m: "n = Suc m" using assms(4) by (cases n) auto
  let ?bs = "map f [0..<m]" and ?reg = "bo_reg s"
  have "map (\<lambda>i. Pulse (i = n - 1) (f i) rb) [0..<n] = map (\<lambda>b. Pulse False b rb) ?bs @ [Pulse True (f m) rb]"
    by (simp add: m)
  moreover have ne: "drop m (?reg @ ?bs) \<noteq> []" using assms(3) by (simp del: drop_append)
  then obtain c r where r: "drop m (?reg @ ?bs) = c # r" by (cases "drop m (?reg @ ?bs)") auto
  have "board_run H (map (\<lambda>b. Pulse False b rb) ?bs) s = (if rb then take m (?reg @ ?bs) else [], s\<lparr>bo_reg := c # r\<rparr>)"
    using board_shift [OF assms(1-3), of H rb ?bs] r by simp
  moreover have "board_tick H (Pulse True (f m) rb) (s\<lparr>bo_reg := c # r\<rparr>) = s\<lparr>bo_state := exit1_of st, bo_reg := r @ [f m]\<rparr>"
    using assms(1,2) by (auto simp: board_tick_def board_edge_def clock_reg_def exit1_of_def)
  moreover have "take n (?reg @ map f [0..<n]) = take m (?reg @ ?bs) @ [c]"
    "drop n (?reg @ map f [0..<n]) = r @ [f m]"
  proof -
    have l: "m < length (?reg @ ?bs)" using assms(3) by simp
    have c: "(?reg @ ?bs) ! m = c" using r l by (metis hd_drop_conv_nth list.sel(1))
    have e: "?reg @ map f [0..<n] = (?reg @ ?bs) @ [f m]" by (simp add: m)
    have "take n ((?reg @ ?bs) @ [f m]) = take (Suc m) (?reg @ ?bs)" using assms(3) by (cases ?reg) (simp_all add: m)
    also have "\<dots> = take m (?reg @ ?bs) @ [c]" using l c by (simp only: take_Suc_conv_app_nth)
    finally show "take n (?reg @ map f [0..<n]) = take m (?reg @ ?bs) @ [c]" unfolding e .
    have "drop (Suc m) (?reg @ ?bs) = r" using r by (metis drop_Suc list.sel(3) tl_drop)
    moreover have "drop n ((?reg @ ?bs) @ [f m]) = drop (Suc m) (?reg @ ?bs) @ [f m]" using l assms(3) by (cases ?reg) (simp_all add: m)
    ultimately show "drop n (?reg @ map f [0..<n]) = r @ [f m]" unfolding e by simp
  qed
  ultimately show ?thesis by (simp add: board_run_append board_tdo_def)
qed

section \<open>Scans\<close>

text \<open>What a data scan exchanges: \<open>n\<close> bits come out and \<open>n\<close> bits go in; a register that is longer keeps its
  upper part at TDO, a shorter one is read past its end.\<close>

definition exchanged :: "bool list \<Rightarrow> bool list \<Rightarrow> bool list" where
  "exchanged reg bs = take (length bs) (reg @ bs)"

definition left_in :: "bool list \<Rightarrow> bool list \<Rightarrow> bool list" where
  "left_in reg bs = drop (length bs) (reg @ bs)"

lemma exchanged_full [simp]: "length bs = length reg \<Longrightarrow> exchanged reg bs = reg" "length bs = length reg \<Longrightarrow> left_in reg bs = bs"
  by (simp_all add: exchanged_def left_in_def)

lemma length_exchanged [simp]: "length (exchanged reg bs) = length bs"
  by (simp add: exchanged_def)

abbreviation tdi_bits :: "byte list option \<Rightarrow> nat \<Rightarrow> bool list" where
  "tdi_bits tdi n \<equiv> buf_bits (ptr_bytes tdi) n"

lemma buf_bits_map: "buf_bits xs n = map (buf_bit xs) [0..<n]"
  by (intro nth_equalityI) simp_all

definition out_of_shift :: "tap_state \<Rightarrow> bool list \<Rightarrow> 'h board tap \<Rightarrow> 'h board tap" where
  "out_of_shift st reg t = t\<lparr>tap_dev := (tap_dev t)\<lparr>bo_state := exit1_of st, bo_level := True, bo_reg := reg\<rparr>\<rparr>"

lemma do_shift_board:
  assumes "st = SHIFT_DR \<or> st = SHIFT_IR" and "reg \<noteq> []" and "0 < n" and "readable tdi n"
  shows "do_shift (board_link H) tdi tdo (int n) rb (in_shift st reg t) =
           Some (True, if rb then unpack_scan n (scan_reply n (exchanged reg (tdi_bits tdi n))) (resize_bytes (bytes_for n) tdo) else tdo,
                 out_of_shift st (left_in reg (tdi_bits tdi n)) (in_shift st reg t))"
proof -
  let ?xs = "ptr_bytes tdi" and ?s = "tap_dev (in_shift st reg t)"
  let ?cs = "scan_cmds ?xs n rb" and ?cmds = "scan_cmds ?xs n rb @ [Flush_Cmd]"
  have s: "bo_state ?s = st" "bo_reg ?s = reg" "bo_level ?s = False" by (simp_all add: in_shift_def)
  let ?tdo = "if rb then exchanged reg (tdi_bits tdi n) else []"
  let ?s' = "?s\<lparr>bo_state := exit1_of st, bo_reg := left_in reg (tdi_bits tdi n)\<rparr>"
  have run: "board_run H (stream_pulses (bo_level ?s) ?cmds) ?s = (?tdo, ?s')"
    using board_scan [OF assms(1) s(1) _ assms(3), of H "buf_bit ?xs" rb] assms(2)
    by (simp add: s stream_pulses_append scan_cmds_pulses [OF assms(3,4)] exchanged_def left_in_def buf_bits_map)
  have wf: "list_all cmd_wf ?cmds" using scan_cmds_wf [OF assms(3,4)] by simp
  have level: "stream_level (bo_level ?s) ?cmds = True"
    by (simp add: s(3) stream_level_append scan_cmds_level [OF assms(3,4)])
  note tr = board_transfer_cmds [OF wf run, unfolded level]
  have cmd: "scan_cmd tdi n rb mpsse_empty = Some (append_cmds ?cs mpsse_empty)" using assms(3,4) by (rule scan_cmd_cmds)
  have flush: "send_immediate (append_cmds ?cs mpsse_empty) = append_cmds ?cmds mpsse_empty"
    by (simp add: send_immediate_cmds append_cmds_append)
  have dev: "(in_shift st reg t)\<lparr>tap_dev := ?s'\<lparr>bo_level := True\<rparr>\<rparr> =
      out_of_shift st (left_in reg (tdi_bits tdi n)) (in_shift st reg t)"
    by (simp add: out_of_shift_def in_shift_def)
  have reply: "stream_reply ?cmds (exchanged reg (tdi_bits tdi n)) = scan_reply n (exchanged reg (tdi_bits tdi n))" if rb
    using scan_cmds_reply [OF assms(3,4), of "exchanged reg (tdi_bits tdi n)"] that by (simp add: stream_reply_append)
  show ?thesis
  proof (cases rb)
    case True
    show ?thesis unfolding do_shift_def using cmd flush tr dev reply True assms(3) by simp
  next
    case False
    show ?thesis unfolding do_shift_def using cmd flush tr dev False assms(3) by (simp add: tap_write_def lk_write_def)
  qed
qed

text \<open>The board after a scan: idle again, with the devices updated.\<close>

definition scanned :: "bool list \<Rightarrow> 'h \<Rightarrow> 'h board tap \<Rightarrow> 'h board tap" where
  "scanned reg h t =
     t\<lparr>tap_st := RUN_TEST_IDLE,
       tap_dev := (tap_dev t)\<lparr>bo_state := RUN_TEST_IDLE, bo_level := False, bo_reg := reg, bo_hw := h\<rparr>\<rparr>"

lemma scanned_idle [simp]: "board_idle (scanned reg h t)" "bo_hw (tap_dev (scanned reg h t)) = h"
  by (simp_all add: scanned_def board_idle_def)

lemma goto_idle:
  shows "tap_goto (board_link H) RUN_TEST_IDLE ((out_of_shift SHIFT_DR reg (in_shift SHIFT_DR reg0 t))\<lparr>tap_st := EXIT1_DR\<rparr>) =
           (True, scanned reg (bd_update_dr H (bo_hw (tap_dev t)) reg) t)"
    and "tap_goto (board_link H) RUN_TEST_IDLE ((out_of_shift SHIFT_IR reg (in_shift SHIFT_IR reg0 t))\<lparr>tap_st := EXIT1_IR\<rparr>) =
           (True, scanned reg (bd_update_ir H (bo_hw (tap_dev t)) reg) t)"
proof -
  let ?t = "\<lambda>st. (out_of_shift st reg (in_shift st reg0 t))\<lparr>tap_st := exit1_of st\<rparr>"
  have d: "board_run H (map (\<lambda>i. Pulse (bit (1 :: byte) i) False False) [0..<2]) (tap_dev (?t SHIFT_DR)) =
      ([], (tap_dev (?t SHIFT_DR))\<lparr>bo_state := RUN_TEST_IDLE, bo_hw := bd_update_dr H (bo_hw (tap_dev t)) reg\<rparr>)"
    by (simp add: upt_rec board_tick_def board_edge_def bit_1_iff out_of_shift_def in_shift_def exit1_of_def)
  from board_tms [OF _ _ d] show "tap_goto (board_link H) RUN_TEST_IDLE ((out_of_shift SHIFT_DR reg (in_shift SHIFT_DR reg0 t))\<lparr>tap_st := EXIT1_DR\<rparr>) =
           (True, scanned reg (bd_update_dr H (bo_hw (tap_dev t)) reg) t)"
    by (simp add: tap_goto_def tms_paths Let_def exit1_of_def scanned_def out_of_shift_def in_shift_def bit_1_iff)
  have i: "board_run H (map (\<lambda>i. Pulse (bit (1 :: byte) i) False False) [0..<2]) (tap_dev (?t SHIFT_IR)) =
      ([], (tap_dev (?t SHIFT_IR))\<lparr>bo_state := RUN_TEST_IDLE, bo_hw := bd_update_ir H (bo_hw (tap_dev t)) reg\<rparr>)"
    by (simp add: upt_rec board_tick_def board_edge_def bit_1_iff out_of_shift_def in_shift_def exit1_of_def)
  from board_tms [OF _ _ i] show "tap_goto (board_link H) RUN_TEST_IDLE ((out_of_shift SHIFT_IR reg (in_shift SHIFT_IR reg0 t))\<lparr>tap_st := EXIT1_IR\<rparr>) =
           (True, scanned reg (bd_update_ir H (bo_hw (tap_dev t)) reg) t)"
    by (simp add: tap_goto_def tms_paths Let_def exit1_of_def scanned_def out_of_shift_def in_shift_def bit_1_iff)
qed

lemma shift_dr_board:
  assumes "board_idle t" and "0 < n" and "readable tdi n" and "bd_capture_dr H (bo_hw (tap_dev t)) \<noteq> []"
  defines "reg \<equiv> bd_capture_dr H (bo_hw (tap_dev t))"
  shows "shift_dr (board_link H) tdi tdo (int n) t =
           Some (True, unpack_scan n (scan_reply n (exchanged reg (tdi_bits tdi n))) (resize_bytes (bytes_for n) tdo),
                 scanned (left_in reg (tdi_bits tdi n)) (bd_update_dr H (bo_hw (tap_dev t)) (left_in reg (tdi_bits tdi n))) t)"
    and "shift_dr_write (board_link H) tdi (int n) t =
           Some (True, scanned (left_in reg (tdi_bits tdi n)) (bd_update_dr H (bo_hw (tap_dev t)) (left_in reg (tdi_bits tdi n))) t)"
  using goto_shift(1) [OF assms(1), of H] do_shift_board [of SHIFT_DR reg n tdi H _ _ t] goto_idle(1) [of H] assms(2-4)
  by (simp_all add: shift_dr_def shift_dr_write_def reg_def)

lemma shift_ir_board:
  assumes "board_idle t" and "0 < n" and "readable tdi n" and "bd_capture_ir H (bo_hw (tap_dev t)) \<noteq> []"
  defines "reg \<equiv> bd_capture_ir H (bo_hw (tap_dev t))"
  shows "shift_ir (board_link H) tdi (int n) t =
           Some (True, scanned (left_in reg (tdi_bits tdi n)) (bd_update_ir H (bo_hw (tap_dev t)) (left_in reg (tdi_bits tdi n))) t)"
  using goto_shift(2) [OF assms(1), of H] do_shift_board [of SHIFT_IR reg n tdi H _ False t] goto_idle(2) [of H] assms(2-4)
  by (simp add: shift_ir_def reg_def)

lemma unpack_scan_exchanged:
  assumes "0 < n" and "length bs = n"
  shows "length (unpack_scan n (scan_reply n bs) (resize_bytes (bytes_for n) [])) = bytes_for n"
    and "buf_bits (unpack_scan n (scan_reply n bs) (resize_bytes (bytes_for n) [])) n = bs"
proof -
  have z: "resize_bytes (bytes_for n) [] = replicate (bytes_for n) 0" by (simp add: resize_bytes_def)
  show "length (unpack_scan n (scan_reply n bs) (resize_bytes (bytes_for n) [])) = bytes_for n"
    using unpack_scan_correct [OF assms(1), of bs] assms(2) by (simp add: z)
  show "buf_bits (unpack_scan n (scan_reply n bs) (resize_bytes (bytes_for n) [])) n = bs"
    using unpack_scan_correct [OF assms(1), of bs] assms(2) by (intro nth_equalityI) (simp_all add: z)
qed

section \<open>Repeated scans\<close>

text \<open>What \<open>k\<close> scans with the same bits give, and the devices after them.\<close>

fun scans :: "'h board_ops \<Rightarrow> nat \<Rightarrow> bool list \<Rightarrow> 'h \<Rightarrow> bool list list \<times> 'h" where
  "scans H 0 bs h = ([], h)"
| "scans H (Suc k) bs h =
     (let reg = bd_capture_dr H h
      in case scans H k bs (bd_update_dr H h (left_in reg bs)) of (out, h') \<Rightarrow> (exchanged reg bs # out, h'))"

lemma scans_add:
  "scans H (k + m) bs h =
     (case scans H k bs h of (a, h1) \<Rightarrow> case scans H m bs h1 of (b, h2) \<Rightarrow> (a @ b, h2))"
  by (induction k arbitrary: h) (auto simp: Let_def split: prod.splits)

lemma length_scans [simp]: "length (fst (scans H k bs h)) = k"
  by (induction k arbitrary: h) (auto simp: Let_def split_beta)

lemma scans_member: "b \<in> set (fst (scans H k bs h)) \<Longrightarrow> length b = length bs"
  by (induction k arbitrary: h) (auto simp: Let_def split_beta)

lemma concat_equal_lengths:
  "(\<And>b. b \<in> set xs \<Longrightarrow> length b = n) \<Longrightarrow> j < length xs \<Longrightarrow> i < n \<Longrightarrow> concat xs ! (j * n + i) = xs ! j ! i"
proof (induction xs arbitrary: j)
  case (Cons x xs)
  then show ?case by (cases j) (auto simp: nth_append)
qed simp

lemma length_concat_scans: "length (concat (fst (scans H k bs h))) = k * length bs"
  by (induction k arbitrary: h) (auto simp: Let_def split_beta)

text \<open>A set of states in which there is a register to shift, and which a scan with these bits does not leave.\<close>

definition scannable :: "'h board_ops \<Rightarrow> bool list \<Rightarrow> ('h \<Rightarrow> bool) \<Rightarrow> bool" where
  "scannable H bs I \<longleftrightarrow>
     (\<forall>h. I h \<longrightarrow> bd_capture_dr H h \<noteq> [] \<and> I (bd_update_dr H h (left_in (bd_capture_dr H h) bs)))"

lemma scannableD:
  assumes "scannable H bs I" and "I h"
  shows "bd_capture_dr H h \<noteq> []" and "I (bd_update_dr H h (left_in (bd_capture_dr H h) bs))"
  using assms by (simp_all add: scannable_def)

lemma scans_keep: "scannable H bs I \<Longrightarrow> I h \<Longrightarrow> I (snd (scans H k bs h))"
  by (induction k arbitrary: h) (auto simp: Let_def split_beta dest: scannableD)

lemma board_round:
  assumes "0 < n" and "readable tdi n" and "bd_capture_dr H (bo_hw s) \<noteq> []" and "bo_state s = RUN_TEST_IDLE"
  defines "reg \<equiv> bd_capture_dr H (bo_hw s)" and "bs \<equiv> tdi_bits tdi n"
  shows "board_run H (stream_pulses lvl (round_cmds (ptr_bytes tdi) n)) s =
           (exchanged reg bs, s\<lparr>bo_reg := left_in reg bs, bo_hw := bd_update_dr H (bo_hw s) (left_in reg bs)\<rparr>)"
proof -
  let ?f = "buf_bit (ptr_bytes tdi)"
  have three: "[0..<3] = [0, 1, 2 :: nat]" "[0..<2] = [0, 1 :: nat]" by (simp_all add: upt_rec)
  have into: "map (\<lambda>i. Pulse (i < 7 \<and> bit (1 :: byte) i) False False) [0..<3] = [Pulse True False False, Pulse False False False, Pulse False False False]"
    "map (\<lambda>i. Pulse (i < 7 \<and> bit (1 :: byte) i) False False) [0..<2] = [Pulse True False False, Pulse False False False]"
    by (simp_all add: three bit_1_iff)
  have pulses: "stream_pulses lvl (round_cmds (ptr_bytes tdi) n) =
      [Pulse True False False, Pulse False False False, Pulse False False False] @
      map (\<lambda>i. Pulse (i = n - 1) (?f i) True) [0..<n] @ [Pulse True False False, Pulse False False False]"
    by (simp add: round_cmds_def stream_pulses_append scan_cmds_pulses [OF assms(1,2)] into bit_tms_byte)
  let ?s = "s\<lparr>bo_state := SHIFT_DR, bo_reg := reg\<rparr>"
  have 1: "board_run H [Pulse True False False, Pulse False False False, Pulse False False False] s = ([], ?s)"
    using assms(4) by (simp add: board_tick_def board_edge_def reg_def)
  have "board_run H (map (\<lambda>i. Pulse (i = n - 1) (?f i) True) [0..<n]) ?s = (exchanged reg bs, ?s\<lparr>bo_state := EXIT1_DR, bo_reg := left_in reg bs\<rparr>)"
    using board_scan [of SHIFT_DR ?s n H ?f True] assms(1,3)
    by (simp add: exchanged_def left_in_def bs_def buf_bits_map reg_def exit1_of_def)
  moreover have "board_run H [Pulse True False False, Pulse False False False] (?s\<lparr>bo_state := EXIT1_DR, bo_reg := left_in reg bs\<rparr>) =
      ([], s\<lparr>bo_reg := left_in reg bs, bo_hw := bd_update_dr H (bo_hw s) (left_in reg bs)\<rparr>)"
    using assms(4) by (cases s) (simp add: board_tick_def board_edge_def)
  ultimately show ?thesis by (simp only: pulses board_run_append 1 split_conv append_Nil append_Nil2)
qed

lemma board_rounds:
  assumes "0 < n" and "readable tdi n" and "scannable H (tdi_bits tdi n) I"
  shows "bo_state s = RUN_TEST_IDLE \<Longrightarrow> I (bo_hw s) \<Longrightarrow>
    \<exists>reg. board_run H (stream_pulses lvl (rounds k (ptr_bytes tdi) n)) s =
            (concat (fst (scans H k (tdi_bits tdi n) (bo_hw s))),
             s\<lparr>bo_reg := reg, bo_hw := snd (scans H k (tdi_bits tdi n) (bo_hw s))\<rparr>)"
proof (induction k arbitrary: s lvl)
  case 0
  then show ?case by (intro exI [of _ "bo_reg s"]) simp
next
  case (Suc k)
  let ?reg = "bd_capture_dr H (bo_hw s)" and ?bs = "tdi_bits tdi n"
  let ?s = "s\<lparr>bo_reg := left_in ?reg ?bs, bo_hw := bd_update_dr H (bo_hw s) (left_in ?reg ?bs)\<rparr>"
  have "bo_state ?s = RUN_TEST_IDLE" "I (bo_hw ?s)" using Suc.prems scannableD(2) [OF assms(3)] by simp_all
  from Suc.IH [OF this] obtain reg where
    "board_run H (stream_pulses (stream_level lvl (round_cmds (ptr_bytes tdi) n)) (rounds k (ptr_bytes tdi) n)) ?s =
       (concat (fst (scans H k ?bs (bo_hw ?s))), ?s\<lparr>bo_reg := reg, bo_hw := snd (scans H k ?bs (bo_hw ?s))\<rparr>)"
    by blast
  then show ?case
    by (intro exI [of _ reg])
      (simp add: stream_pulses_append board_run_append board_round [OF assms(1,2) scannableD(1) [OF assms(3) Suc.prems(2)] Suc.prems(1)] Let_def split_beta)
qed

text \<open>\<open>shiftDRRepeat\<close> on a board: scan \<open>j\<close> is in the \<open>j\<close>-th group of bytes.\<close>

definition groups_are :: "byte list \<Rightarrow> nat \<Rightarrow> nat \<Rightarrow> bool list list \<Rightarrow> bool" where
  "groups_are u n j0 bss \<longleftrightarrow> (\<forall>j < length bss. \<forall>i < n. buf_bit u (8 * ((j0 + j) * bytes_for n) + i) = bss ! j ! i)"

lemma groups_are_append:
  "groups_are u n j0 (a @ b) \<longleftrightarrow> groups_are u n j0 a \<and> groups_are u n (j0 + length a) b"
proof -
  have "groups_are u n j0 (a @ b)" if "groups_are u n j0 a" "groups_are u n (j0 + length a) b"
    unfolding groups_are_def
  proof (intro allI impI)
    fix j i assume j: "j < length (a @ b)" and i: "i < n"
    show "buf_bit u (8 * ((j0 + j) * bytes_for n) + i) = (a @ b) ! j ! i"
    proof (cases "j < length a")
      case False
      then obtain m where "j = length a + m" using le_Suc_ex by (metis not_le)
      with that(2) j i show ?thesis by (auto simp: groups_are_def nth_append add.assoc)
    qed (use that(1) i in \<open>simp add: groups_are_def nth_append\<close>)
  qed
  moreover have "groups_are u n j0 a" if "groups_are u n j0 (a @ b)"
    using that by (auto simp: groups_are_def nth_append)
  moreover have "groups_are u n (j0 + length a) b" if h: "groups_are u n j0 (a @ b)"
    unfolding groups_are_def
  proof (intro allI impI)
    fix j i assume "j < length b" "i < n"
    then show "buf_bit u (8 * ((j0 + length a + j) * bytes_for n) + i) = b ! j ! i"
      using h [unfolded groups_are_def, rule_format, of "length a + j" i] by (simp add: add.assoc)
  qed
  ultimately show ?thesis by blast
qed

lemma repeat_chunks_board:
  assumes n: "0 < n" and tdi: "readable tdi n" and H: "scannable H (tdi_bits tdi n) I"
  shows "board_idle t \<Longrightarrow> I (bo_hw (tap_dev t)) \<Longrightarrow> start \<le> count \<Longrightarrow> length flat = count * bytes_for n \<Longrightarrow>
    (\<forall>i \<ge> 8 * (start * bytes_for n). \<not> buf_bit flat i) \<Longrightarrow>
    \<exists>u t'. repeat_chunks (board_link H) count n tdi start flat t = Some (True, u, t') \<and> board_idle t' \<and>
      length u = length flat \<and> (\<forall>i < 8 * (start * bytes_for n). buf_bit u i = buf_bit flat i) \<and>
      groups_are u n start (fst (scans H (count - start) (tdi_bits tdi n) (bo_hw (tap_dev t)))) \<and>
      bo_hw (tap_dev t') = snd (scans H (count - start) (tdi_bits tdi n) (bo_hw (tap_dev t)))"
proof (induction "count - start" arbitrary: start flat t rule: less_induct)
  case less
  let ?B = "bytes_for n" and ?bs = "tdi_bits tdi n" and ?h = "bo_hw (tap_dev t)"
  have idle: "t\<lparr>tap_st := RUN_TEST_IDLE\<rparr> = t" using less.prems(1) by (cases t) (simp add: board_idle_def)
  show ?case
  proof (cases "start < count")
    case False
    with less.prems idle show ?thesis by (simp add: repeat_chunks.simps [of _ count] groups_are_def)
  next
    case True
    define k where "k = min kChunk (count - start)"
    have k: "0 < k" "start + k \<le> count" "start + kChunk < count \<Longrightarrow> k = kChunk" "k \<noteq> kChunk \<Longrightarrow> start + k = count"
      using True by (auto simp: k_def kChunk_def)
    let ?rs = "rounds k (ptr_bytes tdi) n"
    let ?out = "fst (scans H k ?bs ?h)" and ?h1 = "snd (scans H k ?bs ?h)"
    have cmd: "repeat_cmds tdi n (compute_tms_path RUN_TEST_IDLE SHIFT_DR)
        (compute_tms_path EXIT1_DR RUN_TEST_IDLE) k mpsse_empty = Some (append_cmds ?rs mpsse_empty)"
      by (simp add: compute_tms_path_idle_shift repeat_cmds_cmds [OF n tdi])
    have cmds: "send_immediate (append_cmds ?rs mpsse_empty) = append_cmds (?rs @ [Flush_Cmd]) mpsse_empty"
      by (simp add: send_immediate_cmds append_cmds_append)
    have wf: "list_all cmd_wf (?rs @ [Flush_Cmd])" using round_wf [OF n tdi] by simp
    have "bo_state (tap_dev t) = RUN_TEST_IDLE" using less.prems(1) by (simp add: board_idle_def)
    from board_rounds [OF n tdi H this less.prems(2), of "bo_level (tap_dev t)" k] obtain reg where
      run: "board_run H (stream_pulses (bo_level (tap_dev t)) (?rs @ [Flush_Cmd])) (tap_dev t) =
        (concat ?out, (tap_dev t)\<lparr>bo_reg := reg, bo_hw := ?h1\<rparr>)"
      by (auto simp: stream_pulses_append)
    obtain d where tr: "lk_transfer (board_link H) (tap_dev t) (send_immediate (append_cmds ?rs mpsse_empty)) =
        (True, stream_reply ?rs (concat ?out), d)" and d: "bo_state d = RUN_TEST_IDLE" "bo_hw d = ?h1"
      using board_transfer_cmds [OF wf run] less.prems(1) by (simp add: cmds stream_reply_append board_idle_def)
    have fit: "start * ?B + k * ?B \<le> length flat"
      using mult_le_mono1 [OF k(2), of ?B] less.prems(4) by (simp add: algebra_simps)
    have lraw: "length (stream_reply ?rs (concat ?out)) = k * scan_raw n" by (simp add: round_counts [OF n tdi])
    have lcat: "length (concat ?out) = k * n" by (simp add: length_concat_scans)
    obtain flat2 where un: "unpack_many n k (start * ?B) (stream_reply ?rs (concat ?out)) 0 flat = Inr flat2"
      and len: "length flat2 = length flat" and low: "\<forall>i < 8 * (start * ?B). buf_bit flat2 i = buf_bit flat i"
      and high: "\<forall>i \<ge> 8 * (start * ?B + k * ?B). \<not> buf_bit flat2 i"
      and mid: "\<forall>j < k. \<forall>i < n. buf_bit flat2 (8 * (start * ?B + j * ?B) + i) = concat ?out ! (j * n + i)"
      using unpack_many_correct [OF n tdi, of k "concat ?out" 0 "stream_reply ?rs (concat ?out)" "start * ?B" flat]
        lraw lcat less.prems(5) fit
      by auto
    have grp: "groups_are flat2 n start ?out"
      unfolding groups_are_def
    proof (intro allI impI)
      fix j i assume j: "j < length ?out" and i: "i < n"
      have "concat ?out ! (j * n + i) = ?out ! j ! i"
        using scans_member [of _ H k ?bs ?h] j i by (intro concat_equal_lengths) auto
      with mid j i show "buf_bit flat2 (8 * ((start + j) * ?B) + i) = ?out ! j ! i" by (simp add: algebra_simps)
    qed
    have step: "repeat_chunks (board_link H) count n tdi start flat t =
        repeat_chunks (board_link H) count n tdi (start + kChunk) flat2 (t\<lparr>tap_dev := d\<rparr>)"
      using True cmd tr un unfolding k_def by (subst repeat_chunks.simps) (simp add: Let_def)
    have idle2: "board_idle (t\<lparr>tap_dev := d\<rparr>)" "I (bo_hw (tap_dev (t\<lparr>tap_dev := d\<rparr>)))"
      using less.prems(1,2) d scans_keep [OF H] by (simp_all add: board_idle_def)
    let ?s2 = "start + k"
    have "\<exists>u t'. repeat_chunks (board_link H) count n tdi (start + kChunk) flat2 (t\<lparr>tap_dev := d\<rparr>) = Some (True, u, t') \<and> board_idle t' \<and>
      length u = length flat2 \<and> (\<forall>i < 8 * (?s2 * ?B). buf_bit u i = buf_bit flat2 i) \<and>
      groups_are u n ?s2 (fst (scans H (count - ?s2) ?bs ?h1)) \<and> bo_hw (tap_dev t') = snd (scans H (count - ?s2) ?bs ?h1)"
    proof (cases "start + kChunk < count")
      case True
      have k': "k = kChunk" using k(3) True .
      have zero: "\<forall>i \<ge> 8 * ((start + kChunk) * ?B). \<not> buf_bit flat2 i" using high by (simp add: k' algebra_simps)
      have "count - (start + kChunk) < count - start" using \<open>start < count\<close> k(1) k' by simp
      from less.hyps [OF this idle2 _ _ zero] True len less.prems(4) d(2) show ?thesis by (simp add: k')
    next
      case False
      then have "start + k = count" using k(2,4) by (cases "k = kChunk") auto
      with False idle2 d(2) idle show ?thesis
        by (subst repeat_chunks.simps) (simp add: groups_are_def board_idle_def)
    qed
    then obtain u t' where u: "repeat_chunks (board_link H) count n tdi (start + kChunk) flat2 (t\<lparr>tap_dev := d\<rparr>) = Some (True, u, t')"
      "board_idle t'" "length u = length flat2" "\<forall>i < 8 * (?s2 * ?B). buf_bit u i = buf_bit flat2 i"
      "groups_are u n ?s2 (fst (scans H (count - ?s2) ?bs ?h1))" "bo_hw (tap_dev t') = snd (scans H (count - ?s2) ?bs ?h1)"
      by blast
    have sc: "scans H (count - start) ?bs ?h = (?out @ fst (scans H (count - ?s2) ?bs ?h1), snd (scans H (count - ?s2) ?bs ?h1))"
      using scans_add [of H k "count - ?s2" ?bs ?h] k(2) by (simp add: split_beta)
    have "groups_are u n start ?out"
      unfolding groups_are_def
    proof (intro allI impI)
      fix j i assume j: "j < length ?out" and i: "i < n"
      have "(start + j) * ?B + ?B \<le> ?s2 * ?B" using mult_le_mono1 [of "Suc (start + j)" ?s2 ?B] j by simp
      then have "8 * ((start + j) * ?B) + i < 8 * (?s2 * ?B)" using i bytes_for_ge [of n] by linarith
      with u(4) grp j i show "buf_bit u (8 * ((start + j) * ?B) + i) = ?out ! j ! i" by (simp add: groups_are_def)
    qed
    then have "groups_are u n start (fst (scans H (count - start) ?bs ?h))"
      using u(5) by (simp add: sc groups_are_append)
    moreover have "\<forall>i < 8 * (start * ?B). buf_bit u i = buf_bit flat i" using u(4) low by (auto simp: algebra_simps)
    ultimately show ?thesis using u(1-3,6) len by (simp add: step sc)
  qed
qed

lemma shift_dr_repeat_board:
  assumes "0 < n" and "readable tdi n" and "scannable H (tdi_bits tdi n) I" and "board_idle t" and "I (bo_hw (tap_dev t))"
  shows "\<exists>u t'. shift_dr_repeat (board_link H) (int count) (int n) tdi flat t = Some (True, u, t') \<and> board_idle t' \<and>
      length u = count * bytes_for n \<and>
      groups_are u n 0 (fst (scans H count (tdi_bits tdi n) (bo_hw (tap_dev t)))) \<and>
      bo_hw (tap_dev t') = snd (scans H count (tdi_bits tdi n) (bo_hw (tap_dev t)))"
proof (cases "count = 0")
  case True
  with assms(4) show ?thesis by (simp add: shift_dr_repeat_def groups_are_def)
next
  case False
  have "\<forall>i \<ge> 8 * (0 * bytes_for n). \<not> buf_bit (replicate (count * bytes_for n) 0) i" by simp
  from repeat_chunks_board [OF assms(1-5) le0 _ this] False assms(1) show ?thesis
    by (simp add: shift_dr_repeat_def)
qed

end
