(* ===== verification/Jtag_Devices.thy ===== *)
theory Jtag_Devices
  imports Jtag_Board Scanner
begin

text \<open>
  A board made of devices: each has an instruction register and, for every instruction, a data register of its
  own; device 0 is the one at TDO.  The lemmas carry the scans of \<open>Jtag_Board\<close> to the single device that
  \<open>JtagChain\<close> addresses while the others are in BYPASS.
\<close>

unbundle bit_operations_syntax

section \<open>Devices\<close>

record 'u device_ops =
  dv_reset :: "'u \<Rightarrow> 'u"
  dv_reset_ir :: "bool list"
  dv_capture_ir :: "bool list"
  dv_capture :: "bool list \<Rightarrow> 'u \<Rightarrow> bool list"
  dv_update :: "bool list \<Rightarrow> 'u \<Rightarrow> bool list \<Rightarrow> 'u"

text \<open>A device on the board: its instruction and its state.\<close>

type_synonym 'u chip = "bool list \<times> 'u"

fun split_by :: "nat list \<Rightarrow> 'a list \<Rightarrow> 'a list list" where
  "split_by [] xs = []"
| "split_by (n # ns) xs = take n xs # split_by ns (drop n xs)"

definition chip_captures :: "'u device_ops list \<Rightarrow> 'u chip list \<Rightarrow> bool list list" where
  "chip_captures Ds cs = map2 (\<lambda>D c. dv_capture D (fst c) (snd c)) Ds cs"

definition chips_reset :: "'u device_ops list \<Rightarrow> 'u chip list \<Rightarrow> 'u chip list" where
  "chips_reset Ds cs = map2 (\<lambda>D c. (dv_reset_ir D, dv_reset D (snd c))) Ds cs"

definition chips_update_dr :: "'u device_ops list \<Rightarrow> 'u chip list \<Rightarrow> bool list \<Rightarrow> 'u chip list" where
  "chips_update_dr Ds cs reg =
     map2 (\<lambda>(D, c) r. (fst c, dv_update D (fst c) (snd c) r)) (zip Ds cs)
       (split_by (map length (chip_captures Ds cs)) reg)"

definition chips_update_ir :: "'u device_ops list \<Rightarrow> 'u chip list \<Rightarrow> bool list \<Rightarrow> 'u chip list" where
  "chips_update_ir Ds cs reg = map2 (\<lambda>c r. (r, snd c)) cs (split_by (map (length \<circ> dv_capture_ir) Ds) reg)"

definition devices_board :: "'u device_ops list \<Rightarrow> 'u chip list board_ops" where
  "devices_board Ds =
     \<lparr>bd_reset = chips_reset Ds, bd_capture_dr = (\<lambda>cs. concat (chip_captures Ds cs)),
      bd_update_dr = chips_update_dr Ds, bd_capture_ir = (\<lambda>_. concat (map dv_capture_ir Ds)),
      bd_update_ir = chips_update_ir Ds\<rparr>"

text \<open>BYPASS, the instruction of all ones: one bit that captures 0, and nothing to update.\<close>

definition has_bypass :: "'u device_ops \<Rightarrow> bool" where
  "has_bypass D \<longleftrightarrow>
     (\<forall>u. dv_capture D (replicate (length (dv_capture_ir D)) True) u = [False] \<and>
          (\<forall>r. dv_update D (replicate (length (dv_capture_ir D)) True) u r = u))"

text \<open>The chain that the software knows is the one on the board.\<close>

definition matches :: "'u device_ops list \<Rightarrow> chain_device list \<Rightarrow> bool" where
  "matches Ds devs \<longleftrightarrow> Ds \<noteq> [] \<and> list_all2 (\<lambda>D dev. length (dv_capture_ir D) = cd_ir_length dev \<and> dv_capture_ir D \<noteq> []) Ds devs"

definition others_bypassed :: "'u device_ops list \<Rightarrow> nat \<Rightarrow> 'u chip list \<Rightarrow> bool" where
  "others_bypassed Ds k cs \<longleftrightarrow> length cs = length Ds \<and> k < length Ds \<and>
     (\<forall>j < length Ds. j \<noteq> k \<longrightarrow> has_bypass (Ds ! j) \<and> fst (cs ! j) = replicate (length (dv_capture_ir (Ds ! j))) True)"

section \<open>Splitting registers\<close>

lemma split_by_concat: "split_by (map length xss) (concat xss) = xss"
  by (induction xss) simp_all

lemma length_split_by [simp]: "length (split_by ns xs) = length ns"
  by (induction ns arbitrary: xs) simp_all

lemma split_by_ones:
  assumes "length bs = n"
  shows "split_by (replicate k (Suc 0) @ n # replicate m (Suc 0)) (replicate k x @ bs @ replicate m y) =
           replicate k [x] @ bs # replicate m [y]"
proof -
  have "split_by (replicate m (Suc 0)) (replicate m y) = replicate m [y]" for m by (induction m) simp_all
  with assms show ?thesis by (induction k) simp_all
qed

section \<open>The addressed device\<close>

lemma bypassed_captures:
  assumes "others_bypassed Ds k cs"
  shows "chip_captures Ds cs =
           replicate k [False] @ dv_capture (Ds ! k) (fst (cs ! k)) (snd (cs ! k)) # replicate (length Ds - 1 - k) [False]"
proof (rule nth_equalityI)
  from assms have l: "length cs = length Ds" "k < length Ds" by (simp_all add: others_bypassed_def)
  then show len: "length (chip_captures Ds cs) = length (replicate k [False] @ dv_capture (Ds ! k) (fst (cs ! k)) (snd (cs ! k)) # replicate (length Ds - 1 - k) [False])"
    by (simp add: chip_captures_def)
  fix j assume "j < length (chip_captures Ds cs)"
  then have j: "j < length Ds" using l by (simp add: chip_captures_def)
  then have c: "chip_captures Ds cs ! j = dv_capture (Ds ! j) (fst (cs ! j)) (snd (cs ! j))" using l by (simp add: chip_captures_def)
  consider "j < k" | "j = k" | "k < j" by linarith
  then show "chip_captures Ds cs ! j = (replicate k [False] @ dv_capture (Ds ! k) (fst (cs ! k)) (snd (cs ! k)) # replicate (length Ds - 1 - k) [False]) ! j"
  proof cases
    case 3
    then obtain m where "j = Suc (k + m)" using less_iff_Suc_add by blast
    with assms j c 3 show ?thesis by (auto simp: others_bypassed_def has_bypass_def nth_append)
  qed (use assms j c in \<open>auto simp: others_bypassed_def has_bypass_def nth_append\<close>)
qed

lemma bypassed_register:
  assumes "others_bypassed Ds k cs"
  shows "bd_capture_dr (devices_board Ds) cs =
           replicate k False @ dv_capture (Ds ! k) (fst (cs ! k)) (snd (cs ! k)) @ replicate (length Ds - 1 - k) False"
proof -
  have "concat (replicate m [False]) = replicate m False" for m by (induction m) simp_all
  then show ?thesis by (simp add: devices_board_def bypassed_captures [OF assms])
qed

lemma bypassed_update:
  assumes "others_bypassed Ds k cs" and "length bs = length (dv_capture (Ds ! k) (fst (cs ! k)) (snd (cs ! k)))"
  shows "bd_update_dr (devices_board Ds) cs (replicate k x @ bs @ replicate (length Ds - 1 - k) y) =
           cs[k := (fst (cs ! k), dv_update (Ds ! k) (fst (cs ! k)) (snd (cs ! k)) bs)]"
proof (rule nth_equalityI)
  let ?m = "length Ds - 1 - k"
  from assms have l: "length cs = length Ds" "k < length Ds" by (simp_all add: others_bypassed_def)
  have sp: "split_by (map length (chip_captures Ds cs)) (replicate k x @ bs @ replicate ?m y) =
      replicate k [x] @ bs # replicate ?m [y]"
    using split_by_ones [OF assms(2), of k ?m x y] by (simp add: bypassed_captures [OF assms(1)])
  let ?rs = "replicate k [x] @ bs # replicate ?m [y]"
  have up: "bd_update_dr (devices_board Ds) cs (replicate k x @ bs @ replicate ?m y) =
      map2 (\<lambda>(D, c) r. (fst c, dv_update D (fst c) (snd c) r)) (zip Ds cs) ?rs"
    by (simp only: devices_board_def chips_update_dr_def sp board_ops.simps)
  show "length (bd_update_dr (devices_board Ds) cs (replicate k x @ bs @ replicate ?m y)) =
      length (cs[k := (fst (cs ! k), dv_update (Ds ! k) (fst (cs ! k)) (snd (cs ! k)) bs)])"
    unfolding up using l by simp
  fix j assume "j < length (bd_update_dr (devices_board Ds) cs (replicate k x @ bs @ replicate ?m y))"
  then have j: "j < length Ds" unfolding up using l by simp
  have "bd_update_dr (devices_board Ds) cs (replicate k x @ bs @ replicate ?m y) ! j =
      (fst (cs ! j), dv_update (Ds ! j) (fst (cs ! j)) (snd (cs ! j)) (?rs ! j))"
    unfolding up using j l by simp
  then show "bd_update_dr (devices_board Ds) cs (replicate k x @ bs @ replicate ?m y) ! j =
      cs[k := (fst (cs ! k), dv_update (Ds ! k) (fst (cs ! k)) (snd (cs ! k)) bs)] ! j"
    using assms(1) j l by (cases "j = k") (auto simp: others_bypassed_def has_bypass_def nth_append prod_eq_iff)
qed

section \<open>Scans of the chain\<close>

text \<open>The instructions after \<open>selectInstruction\<close>.\<close>

definition instructions :: "nat \<Rightarrow> u32 \<Rightarrow> chain_device list \<Rightarrow> bool list list" where
  "instructions k op devs = map (\<lambda>j. opcode_bits k op j (devs ! j)) [0..<length devs]"

lemma ir_bits_concat: "ir_bits k op i devs = concat (map (\<lambda>j. opcode_bits k op (i + j) (devs ! j)) [0..<length devs])"
proof (induction devs arbitrary: i)
  case (Cons d devs)
  have "map (\<lambda>j. opcode_bits k op (i + j) ((d # devs) ! j)) [0..<length (d # devs)] =
      opcode_bits k op i d # map (\<lambda>j. opcode_bits k op (Suc i + j) (devs ! j)) [0..<length devs]"
    by (simp only: list.size add_Suc_right map_upt_Suc) simp
  with Cons show ?case by simp
qed simp

lemma matches_lengths:
  assumes "matches Ds devs"
  shows "map (length \<circ> dv_capture_ir) Ds = map length (instructions k op devs)"
    and "length (concat (map dv_capture_ir Ds)) = sum_list (map cd_ir_length devs)"
    and "concat (map dv_capture_ir Ds) \<noteq> []" and "length Ds = length devs"
proof -
  from assms have a: "list_all2 (\<lambda>D dev. length (dv_capture_ir D) = cd_ir_length dev \<and> dv_capture_ir D \<noteq> []) Ds devs" "Ds \<noteq> []"
    by (simp_all add: matches_def)
  show len: "length Ds = length devs" using a(1) by (rule list_all2_lengthD)
  have "length (dv_capture_ir (Ds ! j)) = cd_ir_length (devs ! j)" if "j < length Ds" for j using a(1) that by (simp add: list_all2_conv_all_nth)
  then show l: "map (length \<circ> dv_capture_ir) Ds = map length (instructions k op devs)" for k op
    by (intro nth_equalityI) (simp_all add: instructions_def len)
  have "map (length \<circ> dv_capture_ir) Ds = map cd_ir_length devs"
    using a(1) by (intro nth_equalityI) (simp_all add: list_all2_conv_all_nth)
  then show "length (concat (map dv_capture_ir Ds)) = sum_list (map cd_ir_length devs)" by (simp add: length_concat flip: map_map)
  show "concat (map dv_capture_ir Ds) \<noteq> []" using a by (cases Ds; cases devs) auto
qed

definition set_instructions :: "bool list list \<Rightarrow> 'u chip list \<Rightarrow> 'u chip list" where
  "set_instructions irs cs = map2 (\<lambda>c r. (r, snd c)) cs irs"

lemma select_on_board:
  assumes "board_idle (jc_tap c)" and "matches Ds (jc_devices c)" and "valid_index c k"
    and "\<forall>dev \<in> set (jc_devices c). cd_ir_length dev \<le> 32"
  shows "\<exists>c'. select_instruction (board_link (devices_board Ds)) k op c = Some (True, c') \<and> board_idle (jc_tap c') \<and>
           jc_devices c' = jc_devices c \<and>
           bo_hw (tap_dev (jc_tap c')) = set_instructions (instructions (nat k) op (jc_devices c)) (bo_hw (tap_dev (jc_tap c)))"
proof -
  let ?L = "board_link (devices_board Ds)" and ?n = "total_ir_length c" and ?devs = "jc_devices c"
  note m = matches_lengths [OF assms(2)]
  have reg: "bd_capture_ir (devices_board Ds) h = concat (map dv_capture_ir Ds)" for h by (simp add: devices_board_def)
  have len: "length (concat (map dv_capture_ir Ds)) = ?n" using m(2) by (simp add: total_ir_length_def)
  have n: "0 < ?n" using m(3) len by (metis length_greater_0_conv)
  obtain t where s: "select_instruction ?L k op c = Some (True, c\<lparr>jc_tap := t\<rparr>)"
    using select_instruction_succeeds [OF board_link_always_ok assms(3,4) n] by blast
  from select_instruction_data [OF s assms(3)] obtain data where
    d: "shift_ir ?L (Some data) (int ?n) (jc_tap c) = Some (True, t)" "length data = bytes_for ?n"
    "buf_bits data ?n = ir_bits (nat k) op 0 ?devs" by auto
  have rd: "readable (Some data) ?n" using d(2) by (simp add: readable_def)
  have bits: "ir_bits (nat k) op 0 ?devs = concat (instructions (nat k) op ?devs)"
    by (simp add: ir_bits_concat instructions_def)
  have "length (ir_bits (nat k) op 0 ?devs) = ?n" by (simp add: total_ir_length_def)
  then have full: "left_in (concat (map dv_capture_ir Ds)) (tdi_bits (Some data) ?n) = concat (instructions (nat k) op ?devs)"
    using d(3) len bits by (simp add: ptr_bytes_def)
  from shift_ir_board [OF assms(1) n rd, of "devices_board Ds"] m(3) d(1)
  have t: "t = scanned (concat (instructions (nat k) op ?devs))
      (bd_update_ir (devices_board Ds) (bo_hw (tap_dev (jc_tap c))) (concat (instructions (nat k) op ?devs))) (jc_tap c)"
    unfolding reg full by simp
  have "bd_update_ir (devices_board Ds) cs (concat (instructions (nat k) op ?devs)) = set_instructions (instructions (nat k) op ?devs) cs" for cs
    by (simp add: devices_board_def chips_update_ir_def set_instructions_def m(1) [of "nat k" op] split_by_concat)
  with s t show ?thesis by (intro exI [of _ "c\<lparr>jc_tap := t\<rparr>"]) simp
qed

lemma selected_others_bypassed:
  assumes "matches Ds devs" and "length cs = length Ds" and "k < length Ds"
    and "\<forall>j < length Ds. j \<noteq> k \<longrightarrow> has_bypass (Ds ! j)"
  shows "others_bypassed Ds k (set_instructions (instructions k op devs) cs)"
    and "set_instructions (instructions k op devs) cs ! k = (map (bit op) [0..<length (dv_capture_ir (Ds ! k))], snd (cs ! k))"
proof -
  have "length (dv_capture_ir (Ds ! j)) = cd_ir_length (devs ! j)" if "j < length Ds" for j
    using assms(1) that by (simp add: matches_def list_all2_conv_all_nth)
  with assms(2-4) matches_lengths(4) [OF assms(1)]
  show "others_bypassed Ds k (set_instructions (instructions k op devs) cs)"
    and "set_instructions (instructions k op devs) cs ! k = (map (bit op) [0..<length (dv_capture_ir (Ds ! k))], snd (cs ! k))"
    by (simp_all add: others_bypassed_def set_instructions_def instructions_def opcode_bits_def)
qed

end
