(* ===== verification/Ila_Backend.thy ===== *)
theory Ila_Backend
  imports Jtag_Devices
begin

text \<open>
  src/src/ila/ila_tap_backend.{h,cpp} and bscane_ila_tap_backend.{h,cpp}: the two ways from the ILA driver to the
  registers of the analyser.  \<open>ila_tap_ops\<close> is the interface \<open>IlaTapBackend\<close>; a vector that a failing call
  leaves alone is not read by any caller, so the operations return the empty list there.  \<open>None\<close> is an access
  outside a buffer, which happens for a device index outside the chain or a \<open>tdi\<close> that is too short.
\<close>

unbundle bit_operations_syntax

section \<open>The interface\<close>

record 'b ila_tap_ops =
  it_select :: "u32 \<Rightarrow> 'b \<Rightarrow> (bool \<times> 'b) option"
  it_shift :: "nat \<Rightarrow> byte list \<Rightarrow> 'b \<Rightarrow> (bool \<times> byte list \<times> 'b) option"
  it_batch :: "int \<Rightarrow> nat \<Rightarrow> byte list \<Rightarrow> 'b \<Rightarrow> (bool \<times> byte list \<times> 'b) option"
  it_error :: "'b \<Rightarrow> string"

text \<open>\<open>buf[(off + i) / 8] |= 1 << ((off + i) % 8)\<close> for the bits that are set, and the loop that reads bits.\<close>

definition store_bits :: "(nat \<Rightarrow> bool) \<Rightarrow> nat \<Rightarrow> nat \<Rightarrow> byte list \<Rightarrow> byte list option" where
  "store_bits P off n buf =
     (if list_ex (\<lambda>i. P i \<and> length buf \<le> (off + i) div 8) [0..<n] then None else Some (or_bits P off n buf))"

definition load_bits :: "byte list \<Rightarrow> nat \<Rightarrow> nat \<Rightarrow> byte list \<Rightarrow> byte list option" where
  "load_bits buf off n out =
     (if 0 < n \<and> length buf \<le> (off + n - 1) div 8 then None else Some (or_bits (\<lambda>b. buf_bit buf (off + b)) 0 n out))"

text \<open>The default of \<open>shiftDrBatch\<close>: one scan after the other.\<close>

fun batch_loop ::
  "('b \<Rightarrow> (bool \<times> byte list \<times> 'b) option) \<Rightarrow> nat \<Rightarrow> byte list \<Rightarrow> 'b \<Rightarrow> (bool \<times> byte list \<times> 'b) option" where
  "batch_loop scan 0 flat b = Some (True, flat, b)"
| "batch_loop scan (Suc n) flat b = do {
     (ok, tdo, b1) \<leftarrow> scan b;
     if \<not> ok then Some (False, flat, b1) else batch_loop scan n (flat @ tdo) b1
   }"

definition default_batch ::
  "(nat \<Rightarrow> byte list \<Rightarrow> 'b \<Rightarrow> (bool \<times> byte list \<times> 'b) option) \<Rightarrow> int \<Rightarrow> nat \<Rightarrow> byte list \<Rightarrow> 'b
     \<Rightarrow> (bool \<times> byte list \<times> 'b) option" where
  "default_batch shift count dr_bits tdi b =
     (if count < 0 then None else batch_loop (shift dr_bits tdi) (nat count) [] b)"

section \<open>A TAP of its own in the chain\<close>

record 'd chain_backend =
  ci_chain :: "'d chain"
  ci_index :: int
  ci_error :: string

definition new_chain_backend :: "'d chain \<Rightarrow> int \<Rightarrow> 'd chain_backend" where
  "new_chain_backend c i = \<lparr>ci_chain = c, ci_index = i, ci_error = []\<rparr>"

definition chain_select_ir :: "'d link \<Rightarrow> u32 \<Rightarrow> 'd chain_backend \<Rightarrow> (bool \<times> 'd chain_backend) option" where
  "chain_select_ir L opcode b = do {
     (ok, c) \<leftarrow> select_instruction L (ci_index b) opcode (ci_chain b);
     if \<not> ok then Some (False, b\<lparr>ci_chain := c, ci_error := ''selectInstruction failed: '' @ jc_error c\<rparr>)
     else Some (True, b\<lparr>ci_chain := c\<rparr>)
   }"

definition chain_shift_dr ::
  "'d link \<Rightarrow> nat \<Rightarrow> byte list \<Rightarrow> 'd chain_backend \<Rightarrow> (bool \<times> byte list \<times> 'd chain_backend) option" where
  "chain_shift_dr L dr_bits tdi b =
     (if jc_devices (ci_chain b) = [] then Some (False, [], b\<lparr>ci_error := ''No devices in chain''\<rparr>)
      else do {
        let total_dr = dr_bits + dr_overhead (ci_chain b);
        let zeros = replicate (bytes_for total_dr) 0;
        full_tdi \<leftarrow> (if \<not> valid_index (ci_chain b) (ci_index b) then Some zeros
                     else if length tdi < bytes_for dr_bits then None
                     else store_bits (buf_bit tdi) (nat (ci_index b)) dr_bits zeros);
        (ok, full_tdo, t) \<leftarrow> shift_dr L (Some full_tdi) [] (int total_dr) (jc_tap (ci_chain b));
        let b1 = b\<lparr>ci_chain := (ci_chain b)\<lparr>jc_tap := t\<rparr>\<rparr>;
        if \<not> ok then Some (False, [], b1\<lparr>ci_error := ''shiftDR failed: '' @ tap_error t\<rparr>)
        else do {
          tdo \<leftarrow> load_bits full_tdo (nat (ci_index b)) dr_bits (replicate (bytes_for dr_bits) 0);
          Some (True, tdo, b1)
        }
      })"

definition chain_backend_ops :: "'d link \<Rightarrow> 'd chain_backend ila_tap_ops" where
  "chain_backend_ops L =
     \<lparr>it_select = chain_select_ir L, it_shift = chain_shift_dr L, it_batch = default_batch (chain_shift_dr L),
      it_error = ci_error\<rparr>"

section \<open>A user register of the FPGA\<close>

record 'd bscane =
  be_chain :: "'d chain"
  be_index :: int
  be_user :: nat
  be_pending :: u32
  be_stored :: u32
  be_error :: string

definition kFrameBits :: nat where
  "kFrameBits = 37"

definition kUserOpcodes :: "u32 list" where
  "kUserOpcodes = [0x00, 0x02, 0x03, 0x22, 0x23]"

definition new_bscane :: "'d chain \<Rightarrow> int \<Rightarrow> int \<Rightarrow> 'd bscane" where
  "new_bscane c pl_tap user_chain =
     \<lparr>be_chain = c, be_index = pl_tap, be_user = (if user_chain < 1 \<or> 4 < user_chain then 1 else nat user_chain),
      be_pending = 0x01, be_stored = 0xFF, be_error = []\<rparr>"

definition bscane_select_ir :: "'d link \<Rightarrow> u32 \<Rightarrow> 'd bscane \<Rightarrow> (bool \<times> 'd bscane) option" where
  "bscane_select_ir L opcode b = do {
     let b0 = b\<lparr>be_pending := opcode AND 0x1F\<rparr>;
     (ok, c) \<leftarrow> select_instruction L (be_index b) (kUserOpcodes ! be_user b) (be_chain b);
     if \<not> ok
     then Some (False, b0\<lparr>be_chain := c,
            be_error := ''USER'' @ to_string (int (be_user b)) @ '' selectInstruction failed: '' @ jc_error c\<rparr>)
     else Some (True, b0\<lparr>be_chain := c\<rparr>)
   }"

text \<open>One frame: the opcode in bits 0 to 4, then 32 data bits; what comes back are the data bits.\<close>

definition raw_frame :: "'d link \<Rightarrow> byte list \<Rightarrow> 'd bscane \<Rightarrow> (bool \<times> byte list \<times> 'd bscane) option" where
  "raw_frame L data32 b = do {
     let frame0 = (replicate (bytes_for kFrameBits) 0)[0 := ucast (be_pending b AND 0x1F)];
     let frame = or_bits (buf_bit data32) 5 32 frame0;
     let total_dr = kFrameBits + length (jc_devices (be_chain b)) - 1;
     let zeros = replicate (bytes_for total_dr) 0;
     let skip = nat (be_index b);
     full_tdi \<leftarrow> (if valid_index (be_chain b) (be_index b) then store_bits (buf_bit frame) skip kFrameBits zeros
                  else Some zeros);
     (ok, full_tdo, t) \<leftarrow> shift_dr L (Some full_tdi) [] (int total_dr) (jc_tap (be_chain b));
     let b1 = b\<lparr>be_chain := (be_chain b)\<lparr>jc_tap := t\<rparr>\<rparr>;
     if \<not> ok then Some (False, [], b1\<lparr>be_error := ''shiftDR failed: '' @ tap_error t\<rparr>)
     else do {
       tdo \<leftarrow> load_bits full_tdo (skip + 5) 32 (replicate 5 0);
       Some (True, tdo, b1)
     }
   }"

text \<open>A scan first when the hardware still has another opcode: it captures for the one of the scan before.\<close>

definition prime_scan :: "'d link \<Rightarrow> 'd bscane \<Rightarrow> (bool \<times> 'd bscane) option" where
  "prime_scan L b =
     (if be_stored b = be_pending b then Some (True, b)
      else do {
        (ok, _, b1) \<leftarrow> raw_frame L (replicate 4 0) b;
        if \<not> ok then Some (False, b1) else Some (True, b1\<lparr>be_stored := be_pending b1\<rparr>)
      })"

definition bscane_shift_dr ::
  "'d link \<Rightarrow> nat \<Rightarrow> byte list \<Rightarrow> 'd bscane \<Rightarrow> (bool \<times> byte list \<times> 'd bscane) option" where
  "bscane_shift_dr L dr_bits tdi b = do {
     (ok, b1) \<leftarrow> prime_scan L b;
     if \<not> ok then Some (False, [], b1)
     else if length tdi < bytes_for (min dr_bits 32) then None
     else do {
       let data_bits = min dr_bits 32;
       let data32 = or_bits (buf_bit tdi) 0 data_bits (replicate 4 0);
       (ok2, raw, b2) \<leftarrow> raw_frame L data32 b1;
       if \<not> ok2 then Some (False, [], b2)
       else Some (True, or_bits (buf_bit raw) 0 data_bits (replicate (bytes_for dr_bits) 0), b2\<lparr>be_stored := be_pending b2\<rparr>)
     }
   }"

text \<open>Many scans in bulk: the frame is put together once and sent \<open>count\<close> times.\<close>

definition batch_frame :: "nat \<Rightarrow> byte list \<Rightarrow> nat \<Rightarrow> 'd bscane \<Rightarrow> byte list option" where
  "batch_frame data_bits tdi total_dr b =
     (if length tdi < bytes_for data_bits then None
      else do {
        f1 \<leftarrow> store_bits (bit (be_pending b)) (nat (be_index b)) 5 (replicate (bytes_for total_dr) 0);
        store_bits (buf_bit tdi) (nat (be_index b) + 5) data_bits f1
      })"

definition batch_extract :: "byte list \<Rightarrow> nat \<Rightarrow> nat \<Rightarrow> nat \<Rightarrow> nat \<Rightarrow> nat \<Rightarrow> byte list option" where
  "batch_extract raw count raw_bytes data_start data_bits out_bytes =
     (if 0 < data_bits \<and> length raw \<le> (count - 1) * raw_bytes + (data_start + data_bits - 1) div 8 then None
      else Some (concat (map (\<lambda>i. or_bits (\<lambda>b. buf_bit (drop (i * raw_bytes) raw) (data_start + b)) 0 data_bits
                                    (replicate out_bytes 0)) [0..<count])))"

definition bscane_shift_batch ::
  "'d link \<Rightarrow> int \<Rightarrow> nat \<Rightarrow> byte list \<Rightarrow> 'd bscane \<Rightarrow> (bool \<times> byte list \<times> 'd bscane) option" where
  "bscane_shift_batch L count dr_bits tdi b =
     (if count \<le> 0 then Some (True, [], b)
      else do {
        let total_dr = kFrameBits + length (jc_devices (be_chain b)) - 1;
        let data_bits = min dr_bits 32;
        full_tdi \<leftarrow> batch_frame data_bits tdi total_dr b;
        (ok, b1) \<leftarrow> prime_scan L b;
        if \<not> ok then Some (False, [], b1)
        else do {
          (ok2, raw, t) \<leftarrow> shift_dr_repeat L count (int total_dr) (Some full_tdi) [] (jc_tap (be_chain b1));
          let b2 = b1\<lparr>be_chain := (be_chain b1)\<lparr>jc_tap := t\<rparr>\<rparr>;
          if \<not> ok2 then Some (False, [], b2\<lparr>be_error := tap_error t\<rparr>)
          else do {
            flat \<leftarrow> batch_extract raw (nat count) (bytes_for total_dr) (nat (be_index b) + 5) data_bits (bytes_for dr_bits);
            Some (True, flat, b2\<lparr>be_stored := be_pending b2\<rparr>)
          }
        }
      })"

definition bscane_ops :: "'d link \<Rightarrow> 'd bscane ila_tap_ops" where
  "bscane_ops L =
     \<lparr>it_select = bscane_select_ir L, it_shift = bscane_shift_dr L, it_batch = bscane_shift_batch L, it_error = be_error\<rparr>"

end
