(* ===== verification/Ila_Driver.thy ===== *)
theory Ila_Driver
  imports Ila_Backend
begin

text \<open>
  src/src/ila/ila_driver.{h,cpp}: the host side of the logic analyser, over the interface of \<open>Ila_Backend\<close>.
  A boolean result with an output parameter is an \<open>option\<close>: \<open>None\<close> is \<open>false\<close>, and the error text is in the
  driver.  The outer \<open>None\<close> is undefined behaviour: a shift by the width of the word or more (the device may
  report up to 64 data bits and 255 address bits), or what the backend may not do.
\<close>

unbundle bit_operations_syntax

section \<open>Bits\<close>

text \<open>\<open>(val >> i) & 1ULL\<close> for \<open>i < bits\<close>; \<open>val\<close> is a \<open>uint64_t\<close> that holds a 32-bit value.\<close>

definition pack_bits :: "u32 \<Rightarrow> nat \<Rightarrow> byte list option" where
  "pack_bits val n = (if 64 < n then None else Some (or_bits (bit val) 0 n (replicate (bytes_for n) 0)))"

definition unpack_bits :: "byte list \<Rightarrow> nat \<Rightarrow> u32 option" where
  "unpack_bits buf n =
     (if length buf < bytes_for n \<or> list_ex (\<lambda>i. 32 \<le> i \<and> buf_bit buf i) [0..<n] then None
      else Some (word_of_bits (\<lambda>i. i < n \<and> buf_bit buf i) 32))"

section \<open>The driver\<close>

record ila_caps =
  ca_version :: byte
  ca_num_ch :: byte
  ca_sig_count :: byte
  ca_data_w :: byte
  ca_addr_w :: byte
  ca_depth :: u32
  ca_raw :: u32
  ca_idcode :: u32
  ca_probed :: bool

definition default_caps :: ila_caps where
  "default_caps =
     \<lparr>ca_version = 0, ca_num_ch = 1, ca_sig_count = 0, ca_data_w = 32, ca_addr_w = 10, ca_depth = 1024, ca_raw = 0,
      ca_idcode = 0, ca_probed = False\<rparr>"

record 'b ila_driver =
  dr_backend :: 'b
  dr_caps :: ila_caps
  dr_error :: string

definition new_ila_driver :: "'b \<Rightarrow> 'b ila_driver" where
  "new_ila_driver b = \<lparr>dr_backend = b, dr_caps = default_caps, dr_error = []\<rparr>"

definition kDepth :: u32 where
  "kDepth = 1024"

abbreviation data_width :: "'b ila_driver \<Rightarrow> nat" where
  "data_width d \<equiv> unat (ca_data_w (dr_caps d))"

abbreviation addr_width :: "'b ila_driver \<Rightarrow> nat" where
  "addr_width d \<equiv> unat (ca_addr_w (dr_caps d))"

definition kIrIdcode :: u32 where "kIrIdcode = 0x01"
definition kIrConfig :: u32 where "kIrConfig = 0x02"
definition kIrSigDef :: u32 where "kIrSigDef = 0x03"
definition kIrCtrl :: u32 where "kIrCtrl = 0x08"
definition kIrStatus :: u32 where "kIrStatus = 0x09"
definition kIrTrigMask :: u32 where "kIrTrigMask = 0x0A"
definition kIrTrigVal :: u32 where "kIrTrigVal = 0x0B"
definition kIrReadAddr :: u32 where "kIrReadAddr = 0x0C"
definition kIrReadData :: u32 where "kIrReadData = 0x0D"
definition kIrPreSamples :: u32 where "kIrPreSamples = 0x0E"
definition kIrTrigRise :: u32 where "kIrTrigRise = 0x0F"
definition kIrTrigFall :: u32 where "kIrTrigFall = 0x10"
definition kIrTrigMask2 :: u32 where "kIrTrigMask2 = 0x11"
definition kIrTrigVal2 :: u32 where "kIrTrigVal2 = 0x12"
definition kIrTrigCtrl :: u32 where "kIrTrigCtrl = 0x13"

lemmas ila_opcodes = kIrIdcode_def kIrConfig_def kIrSigDef_def kIrCtrl_def kIrStatus_def kIrTrigMask_def kIrTrigVal_def
  kIrReadAddr_def kIrReadData_def kIrPreSamples_def kIrTrigRise_def kIrTrigFall_def kIrTrigMask2_def kIrTrigVal2_def kIrTrigCtrl_def

definition kCtrlArm :: u32 where "kCtrlArm = 0x1"
definition kCtrlStop :: u32 where "kCtrlStop = 0x2"
definition kCtrlReset :: u32 where "kCtrlReset = 0x4"
definition kCtrlForce :: u32 where "kCtrlForce = 0x8"

text \<open>\<open>selectIr\<close> and, when it fails, the copy of the error text.\<close>

definition drv_select :: "'b ila_tap_ops \<Rightarrow> u32 \<Rightarrow> 'b ila_driver \<Rightarrow> (bool \<times> 'b ila_driver) option" where
  "drv_select T op d = do {
     (ok, b) \<leftarrow> it_select T op (dr_backend d);
     Some (ok, if ok then d\<lparr>dr_backend := b\<rparr> else d\<lparr>dr_backend := b, dr_error := it_error T b\<rparr>)
   }"

definition shift_dr_int :: "'b ila_tap_ops \<Rightarrow> nat \<Rightarrow> u32 \<Rightarrow> 'b ila_driver \<Rightarrow> (u32 option \<times> 'b ila_driver) option" where
  "shift_dr_int T n tdi_val d = do {
     tdi \<leftarrow> pack_bits tdi_val n;
     (ok, tdo, b) \<leftarrow> it_shift T n tdi (dr_backend d);
     if \<not> ok then Some (None, d\<lparr>dr_backend := b, dr_error := it_error T b\<rparr>)
     else do { v \<leftarrow> unpack_bits tdo n; Some (Some v, d\<lparr>dr_backend := b\<rparr>) }
   }"

text \<open>A register by its opcode: select, then shift.\<close>

definition access_reg :: "'b ila_tap_ops \<Rightarrow> u32 \<Rightarrow> nat \<Rightarrow> u32 \<Rightarrow> 'b ila_driver \<Rightarrow> (u32 option \<times> 'b ila_driver) option" where
  "access_reg T op n v d = do {
     (ok, d1) \<leftarrow> drv_select T op d;
     if \<not> ok then Some (None, d1) else shift_dr_int T n v d1
   }"

definition read_idcode :: "'b ila_tap_ops \<Rightarrow> 'b ila_driver \<Rightarrow> (u32 option \<times> 'b ila_driver) option" where
  "read_idcode T d = access_reg T kIrIdcode 32 0 d"

definition decode_caps :: "u32 \<Rightarrow> ila_caps" where
  "decode_caps raw =
     (let addr_w = ucast (raw AND 0xFF) :: byte; version = ucast (drop_bit 24 raw AND 0xFF) :: byte
      in \<lparr>ca_version = version, ca_num_ch = ucast (drop_bit 20 raw AND 0x0F), ca_sig_count = ucast (drop_bit 16 raw AND 0x0F),
          ca_data_w = ucast ((drop_bit 10 raw AND 0x3F) + 1), ca_addr_w = addr_w,
          ca_depth = (if addr_w = 0 \<or> 20 < addr_w then kDepth else push_bit (unat addr_w) 1), ca_raw = raw, ca_idcode = 0,
          ca_probed = (version \<noteq> 0)\<rparr>)"

text \<open>Reading the IDCODE warms the user register up; its result and its failure are ignored, before and after.\<close>

definition probe :: "'b ila_tap_ops \<Rightarrow> 'b ila_driver \<Rightarrow> (ila_caps option \<times> 'b ila_driver) option" where
  "probe T d = do {
     (_, d1) \<leftarrow> read_idcode T d;
     (raw, d2) \<leftarrow> access_reg T kIrConfig 32 0 d1;
     case raw of
       None \<Rightarrow> Some (None, d2)
     | Some w \<Rightarrow>
         let c = decode_caps w
         in if \<not> ca_probed c
            then Some (None, d2\<lparr>dr_error := ''ILA CONFIG not supported (raw=0x'' @ hex_fmt 8 (unat w) @ '')''\<rparr>)
            else do {
              (id, d3) \<leftarrow> read_idcode T d2;
              let c2 = c\<lparr>ca_idcode := (case id of None \<Rightarrow> 0 | Some v \<Rightarrow> v)\<rparr>;
              Some (Some c2, d3\<lparr>dr_caps := c2\<rparr>)
            }
   }"

record ila_signal =
  is_hi :: byte
  is_lo :: byte
  is_fmt :: byte
  is_name_idx :: byte

definition decode_signal :: "u32 \<Rightarrow> ila_signal" where
  "decode_signal w =
     \<lparr>is_hi = ucast (drop_bit 16 w AND 0xFF), is_lo = ucast (drop_bit 8 w AND 0xFF), is_fmt = ucast (drop_bit 28 w AND 0x0F),
      is_name_idx = ucast (w AND 0xFF)\<rparr>"

fun signal_loop :: "'b ila_tap_ops \<Rightarrow> nat \<Rightarrow> 'b ila_driver \<Rightarrow> (ila_signal list option \<times> 'b ila_driver) option" where
  "signal_loop T 0 d = Some (Some [], d)"
| "signal_loop T (Suc n) d = do {
     (w, d1) \<leftarrow> shift_dr_int T 32 0 d;
     case w of
       None \<Rightarrow> Some (None, d1)
     | Some v \<Rightarrow> do {
         (rest, d2) \<leftarrow> signal_loop T n d1;
         Some (map_option ((#) (decode_signal v)) rest, d2)
       }
   }"

definition read_signal_defs :: "'b ila_tap_ops \<Rightarrow> 'b ila_driver \<Rightarrow> (ila_signal list option \<times> 'b ila_driver) option" where
  "read_signal_defs T d =
     (if ca_sig_count (dr_caps d) = 0 then Some (None, d\<lparr>dr_error := ''sig_count is 0; no SIG_DEF entries available''\<rparr>)
      else do {
        (ok, d1) \<leftarrow> drv_select T kIrSigDef d;
        if \<not> ok then Some (None, d1) else signal_loop T (unat (ca_sig_count (dr_caps d))) d1
      })"

section \<open>The trigger\<close>

text \<open>The registers to write, in order, with their widths; the later ones only exist in later versions.\<close>

definition trigger_writes ::
  "'b ila_driver \<Rightarrow> u32 \<Rightarrow> u32 \<Rightarrow> u32 \<Rightarrow> u32 \<Rightarrow> u32 \<Rightarrow> u32 \<Rightarrow> bool \<Rightarrow> u16 \<Rightarrow> (u32 \<times> nat \<times> u32) list" where
  "trigger_writes d msk value rise fall mask2 val2 or_mode pre =
     [(kIrTrigMask, data_width d, msk), (kIrTrigVal, data_width d, value), (kIrPreSamples, addr_width d, ucast pre)] @
     (if 2 \<le> ca_version (dr_caps d) then [(kIrTrigRise, data_width d, rise), (kIrTrigFall, data_width d, fall)] else []) @
     (if 3 \<le> ca_version (dr_caps d)
      then [(kIrTrigMask2, data_width d, mask2), (kIrTrigVal2, data_width d, val2),
            (kIrTrigCtrl, data_width d, if or_mode then 1 else 0)] else [])"

fun write_regs :: "'b ila_tap_ops \<Rightarrow> (u32 \<times> nat \<times> u32) list \<Rightarrow> 'b ila_driver \<Rightarrow> (bool \<times> 'b ila_driver) option" where
  "write_regs T [] d = Some (True, d)"
| "write_regs T ((op, n, v) # ws) d = do {
     (r, d1) \<leftarrow> access_reg T op n v d;
     if r = None then Some (False, d1) else write_regs T ws d1
   }"

definition configure_trigger ::
  "'b ila_tap_ops \<Rightarrow> u32 \<Rightarrow> u32 \<Rightarrow> u32 \<Rightarrow> u32 \<Rightarrow> u32 \<Rightarrow> u32 \<Rightarrow> bool \<Rightarrow> u16 \<Rightarrow> 'b ila_driver
     \<Rightarrow> (bool \<times> 'b ila_driver) option" where
  "configure_trigger T msk value rise fall mask2 val2 or_mode pre d =
     (if ca_depth (dr_caps d) \<le> ucast pre then Some (False, d\<lparr>dr_error := ''pre_samples must be < DEPTH''\<rparr>)
      else if ca_version (dr_caps d) < 2 \<and> (rise \<noteq> 0 \<or> fall \<noteq> 0)
      then Some (False, d\<lparr>dr_error := ''edge trigger requires ILA IP version >= 2''\<rparr>)
      else if ca_version (dr_caps d) < 3 \<and> (mask2 \<noteq> 0 \<or> val2 \<noteq> 0 \<or> or_mode)
      then Some (False, d\<lparr>dr_error := ''OR-mode trigger requires ILA IP version >= 3''\<rparr>)
      else write_regs T (trigger_writes d msk value rise fall mask2 val2 or_mode pre) d)"

definition configure_trigger_edges ::
  "'b ila_tap_ops \<Rightarrow> u32 \<Rightarrow> u32 \<Rightarrow> u32 \<Rightarrow> u32 \<Rightarrow> u16 \<Rightarrow> 'b ila_driver \<Rightarrow> (bool \<times> 'b ila_driver) option" where
  "configure_trigger_edges T msk value rise fall pre d = configure_trigger T msk value rise fall 0 0 False pre d"

definition configure_trigger_level ::
  "'b ila_tap_ops \<Rightarrow> u32 \<Rightarrow> u32 \<Rightarrow> u16 \<Rightarrow> 'b ila_driver \<Rightarrow> (bool \<times> 'b ila_driver) option" where
  "configure_trigger_level T msk value pre d = configure_trigger T msk value 0 0 0 0 False pre d"

section \<open>Control, status and samples\<close>

definition ctrl_pulse :: "'b ila_tap_ops \<Rightarrow> u32 \<Rightarrow> 'b ila_driver \<Rightarrow> (bool \<times> 'b ila_driver) option" where
  "ctrl_pulse T v d = do { (r, d1) \<leftarrow> access_reg T kIrCtrl 4 v d; Some (r \<noteq> None, d1) }"

definition ila_arm :: "'b ila_tap_ops \<Rightarrow> 'b ila_driver \<Rightarrow> (bool \<times> 'b ila_driver) option" where
  "ila_arm T d = ctrl_pulse T kCtrlArm d"

definition ila_stop :: "'b ila_tap_ops \<Rightarrow> 'b ila_driver \<Rightarrow> (bool \<times> 'b ila_driver) option" where
  "ila_stop T d = ctrl_pulse T kCtrlStop d"

definition reset_capture :: "'b ila_tap_ops \<Rightarrow> 'b ila_driver \<Rightarrow> (bool \<times> 'b ila_driver) option" where
  "reset_capture T d = ctrl_pulse T kCtrlReset d"

definition force_trigger :: "'b ila_tap_ops \<Rightarrow> 'b ila_driver \<Rightarrow> (bool \<times> 'b ila_driver) option" where
  "force_trigger T d = ctrl_pulse T kCtrlForce d"

record ila_status =
  st_armed :: bool
  st_triggered :: bool
  st_full :: bool

definition read_ila_status :: "'b ila_tap_ops \<Rightarrow> 'b ila_driver \<Rightarrow> (ila_status option \<times> 'b ila_driver) option" where
  "read_ila_status T d = do {
     (r, d1) \<leftarrow> access_reg T kIrStatus 8 0 d;
     Some (map_option (\<lambda>v. \<lparr>st_armed = (v AND 0x1 \<noteq> 0), st_triggered = (v AND 0x2 \<noteq> 0), st_full = (v AND 0x4 \<noteq> 0)\<rparr>) r, d1)
   }"

definition set_read_addr :: "'b ila_tap_ops \<Rightarrow> u16 \<Rightarrow> 'b ila_driver \<Rightarrow> (bool \<times> 'b ila_driver) option" where
  "set_read_addr T addr d =
     (if ca_depth (dr_caps d) \<le> ucast addr then Some (False, d\<lparr>dr_error := ''addr >= DEPTH''\<rparr>)
      else do { (r, d1) \<leftarrow> access_reg T kIrReadAddr (addr_width d) (ucast addr) d; Some (r \<noteq> None, d1) })"

text \<open>The offsets \<open>i * bytes_per\<close> are computed in 32 bits.\<close>

fun sample_slices :: "byte list \<Rightarrow> nat \<Rightarrow> nat \<Rightarrow> nat list \<Rightarrow> u32 list option" where
  "sample_slices flat bytes_per n [] = Some []"
| "sample_slices flat bytes_per n (i # is) = do {
     let off = (i * bytes_per) mod 2 ^ 32;
     if length flat < off + bytes_per then None
     else do {
       v \<leftarrow> unpack_bits (take bytes_per (drop off flat)) n;
       vs \<leftarrow> sample_slices flat bytes_per n is;
       Some (v # vs)
     }
   }"

definition read_samples_n :: "'b ila_tap_ops \<Rightarrow> u32 \<Rightarrow> 'b ila_driver \<Rightarrow> (u32 list option \<times> 'b ila_driver) option" where
  "read_samples_n T count d = do {
     (ok, d1) \<leftarrow> drv_select T kIrReadData d;
     if \<not> ok then Some (None, d1)
     else do {
       (ok2, flat, b) \<leftarrow> it_batch T (sint count) (data_width d) (replicate 4 0) (dr_backend d1);
       if \<not> ok2 then Some (None, d1\<lparr>dr_backend := b, dr_error := it_error T b\<rparr>)
       else do {
         vs \<leftarrow> sample_slices flat (bytes_for (data_width d)) (data_width d) [0..<unat count];
         Some (Some vs, d1\<lparr>dr_backend := b\<rparr>)
       }
     }
   }"

definition read_samples :: "'b ila_tap_ops \<Rightarrow> 'b ila_driver \<Rightarrow> (u32 list option \<times> 'b ila_driver) option" where
  "read_samples T d = read_samples_n T (ca_depth (dr_caps d)) d"

section \<open>What the driver relies on\<close>

text \<open>A backend that returns whatever happens, with as many bytes as were asked for.\<close>

lemma sint_small:
  fixes w :: u32
  assumes "unat w < 2 ^ 31"
  shows "sint w = int (unat w)"
proof -
  have "int (unat w) < int (2 ^ 31)" using assms by (simp only: of_nat_less_iff)
  then have "uint w < 2 ^ 31" by simp
  moreover have "- (2 ^ 31) \<le> uint w" by (rule order_trans [of _ 0]) simp_all
  ultimately have "signed_take_bit 31 (uint w) = uint w" by (intro signed_take_bit_int_eq_self)
  then show ?thesis by (simp add: sint_uint)
qed

locale ila_tap =
  fixes T :: "'b ila_tap_ops" and good :: "'b \<Rightarrow> bool"
  assumes select_defined: "good b \<Longrightarrow> \<exists>ok b'. it_select T op b = Some (ok, b') \<and> good b'"
    and shift_defined: "good b \<Longrightarrow> 0 < n \<Longrightarrow> bytes_for n \<le> length tdi \<Longrightarrow>
      \<exists>ok tdo b'. it_shift T n tdi b = Some (ok, tdo, b') \<and> good b' \<and> (ok \<longrightarrow> length tdo = bytes_for n)"
    and batch_defined: "good b \<Longrightarrow> 0 \<le> count \<Longrightarrow> 0 < n \<Longrightarrow> bytes_for n \<le> length tdi \<Longrightarrow>
      \<exists>ok flat b'. it_batch T count n tdi b = Some (ok, flat, b') \<and> good b' \<and> (ok \<longrightarrow> length flat = nat count * bytes_for n)"
begin

lemma drv_select_defined:
  assumes "good (dr_backend d)"
  shows "\<exists>ok d'. drv_select T op d = Some (ok, d') \<and> good (dr_backend d') \<and> dr_caps d' = dr_caps d"
  using select_defined [OF assms, of op] by (auto simp: drv_select_def)

lemma shift_dr_int_defined:
  assumes "good (dr_backend d)" and "0 < n" and "n \<le> 32"
  shows "\<exists>r d'. shift_dr_int T n v d = Some (r, d') \<and> good (dr_backend d') \<and> dr_caps d' = dr_caps d"
proof -
  let ?tdi = "or_bits (bit v) 0 n (replicate (bytes_for n) 0)"
  obtain ok tdo b' where s: "it_shift T n ?tdi (dr_backend d) = Some (ok, tdo, b')" "good b'" "ok \<longrightarrow> length tdo = bytes_for n"
    using shift_defined [OF assms(1,2), of ?tdi] by auto
  have "unpack_bits tdo n \<noteq> None" if ok using s(3) that assms(3) by (simp add: unpack_bits_def list_ex_iff)
  with s assms(3) show ?thesis by (cases ok) (auto simp: shift_dr_int_def pack_bits_def)
qed

lemma access_defined:
  assumes "good (dr_backend d)" and "0 < n" and "n \<le> 32"
  shows "\<exists>r d'. access_reg T op n v d = Some (r, d') \<and> good (dr_backend d') \<and> dr_caps d' = dr_caps d"
proof -
  obtain ok d1 where 1: "drv_select T op d = Some (ok, d1)" "good (dr_backend d1)" "dr_caps d1 = dr_caps d"
    using drv_select_defined [OF assms(1)] by blast
  with shift_dr_int_defined [OF 1(2) assms(2,3), of v] show ?thesis by (cases ok) (auto simp: access_reg_def)
qed

lemma write_regs_defined:
  "good (dr_backend d) \<Longrightarrow> list_all (\<lambda>(op, n, v). 0 < n \<and> n \<le> 32) ws \<Longrightarrow>
     \<exists>ok d'. write_regs T ws d = Some (ok, d') \<and> good (dr_backend d') \<and> dr_caps d' = dr_caps d"
proof (induction ws arbitrary: d)
  case (Cons w ws)
  obtain op n v where w: "w = (op, n, v)" by (cases w)
  obtain r d1 where a: "access_reg T op n v d = Some (r, d1)" "good (dr_backend d1)" "dr_caps d1 = dr_caps d"
    using access_defined [OF Cons.prems(1), of n op v] Cons.prems(2) w by auto
  with Cons.IH [OF a(2)] Cons.prems(2) show ?case by (cases r) (auto simp: w)
qed auto

lemma signal_loop_defined:
  "good (dr_backend d) \<Longrightarrow> \<exists>r d'. signal_loop T n d = Some (r, d') \<and> good (dr_backend d') \<and> dr_caps d' = dr_caps d"
proof (induction n arbitrary: d)
  case (Suc n)
  obtain r d1 where a: "shift_dr_int T 32 0 d = Some (r, d1)" "good (dr_backend d1)" "dr_caps d1 = dr_caps d"
    using shift_dr_int_defined [OF Suc.prems, of 32 0] by auto
  with Suc.IH [OF a(2)] show ?case by (cases r) auto
qed auto

lemma sample_slices_defined:
  "m * bytes_for n \<le> length flat \<Longrightarrow> m * bytes_for n < 2 ^ 32 \<Longrightarrow> n \<le> 32 \<Longrightarrow> (\<forall>i \<in> set is. i < m) \<Longrightarrow>
     sample_slices flat (bytes_for n) n is =
       Some (map (\<lambda>i. word_of_bits (\<lambda>b. b < n \<and> buf_bit flat (8 * (i * bytes_for n) + b)) 32) is)"
proof (induction "is")
  case (Cons i "is")
  let ?B = "bytes_for n"
  have i: "Suc i * ?B \<le> m * ?B" using Cons.prems(4) by (intro mult_le_mono1) simp
  then have fit: "i * ?B + ?B \<le> length flat" "(i * ?B) mod 2 ^ 32 = i * ?B" using Cons.prems(1,2) by simp_all
  have b: "buf_bit (take ?B (drop (i * ?B) flat)) b = buf_bit flat (8 * (i * ?B) + b)" if "b < n" for b
    using that bytes_for_ge [of n] by (intro buf_bit_take_drop) simp
  have "unpack_bits (take ?B (drop (i * ?B) flat)) n = Some (word_of_bits (\<lambda>b. b < n \<and> buf_bit flat (8 * (i * ?B) + b)) 32)"
    using fit Cons.prems(3) by (auto simp: unpack_bits_def list_ex_iff b intro!: word_eq_bitsI simp: bit_word_of_bits)
  with fit Cons show ?case by (simp add: not_less)
qed simp

lemma read_samples_defined:
  assumes "good (dr_backend d)" and "0 < data_width d" and "data_width d \<le> 32" and "unat count < 2 ^ 24"
  shows "\<exists>r d'. read_samples_n T count d = Some (r, d') \<and> good (dr_backend d') \<and> dr_caps d' = dr_caps d \<and>
           (\<forall>vs. r = Some vs \<longrightarrow> length vs = unat count)"
proof -
  obtain ok d1 where 1: "drv_select T kIrReadData d = Some (ok, d1)" "good (dr_backend d1)" "dr_caps d1 = dr_caps d"
    using drv_select_defined [OF assms(1)] by blast
  have "bytes_for (data_width d) \<le> 4" using bytes_for_mono [OF assms(3)] by (simp add: bytes_for_def)
  moreover have c: "sint count = int (unat count)" using assms(4) by (intro sint_small) simp
  ultimately obtain ok2 flat b where 2: "it_batch T (sint count) (data_width d) (replicate 4 0) (dr_backend d1) = Some (ok2, flat, b)"
    "good b" "ok2 \<longrightarrow> length flat = unat count * bytes_for (data_width d)"
    using batch_defined [OF 1(2), of "sint count" "data_width d" "replicate 4 0"] assms(2) by auto
  have "unat count * bytes_for (data_width d) \<le> unat count * 4"
    using \<open>bytes_for (data_width d) \<le> 4\<close> by (rule mult_le_mono2)
  also have "\<dots> < 2 ^ 32" using assms(4) by simp
  finally have "unat count * bytes_for (data_width d) < 2 ^ 32" .
  with 2(3) have "ok2 \<Longrightarrow> sample_slices flat (bytes_for (data_width d)) (data_width d) [0..<unat count] =
      Some (map (\<lambda>i. word_of_bits (\<lambda>b. b < data_width d \<and> buf_bit flat (8 * (i * bytes_for (data_width d)) + b)) 32) [0..<unat count])"
    using assms(3) by (intro sample_slices_defined) auto
  with 1 2 show ?thesis by (cases ok; cases ok2) (auto simp: read_samples_n_def)
qed

end

end
