(* ===== verification/Ila_Hw.thy ===== *)
theory Ila_Hw
  imports Jtag_Devices
begin

text \<open>
  src/hdl/ila/rtl/ila_bscane2_top.sv with 32 data bits: the registers of the analyser behind a user register of the
  FPGA, as the host sees them.  The clock of the samples is not modelled: the memory and the status bits stand
  still while the host reads, and the pulses that CTRL sends to that side are collected in a list.
\<close>

unbundle bit_operations_syntax

section \<open>Registers\<close>

record ila_params =
  ip_addr_w :: nat
  ip_num_ch :: nat
  ip_idcode :: u32
  ip_sigs :: "(byte \<times> byte \<times> byte) list"

record ila_regs =
  ir_stored :: u32
  ir_sig_idx :: nat
  ir_mask :: u32
  ir_value :: u32
  ir_rise :: u32
  ir_fall :: u32
  ir_mask2 :: u32
  ir_val2 :: u32
  ir_or_mode :: bool
  ir_pre :: nat
  ir_rd_addr :: nat
  ir_ctrl :: "u32 list"
  ir_status :: u32
  ir_mem :: "nat \<Rightarrow> u32"

definition ila_depth :: "ila_params \<Rightarrow> nat" where
  "ila_depth P = 2 ^ ip_addr_w P"

text \<open>After Test-Logic-Reset; the samples and their status belong to the other clock.\<close>

definition ila_reset :: "ila_params \<Rightarrow> ila_regs \<Rightarrow> ila_regs" where
  "ila_reset P r =
     r\<lparr>ir_stored := 0x01, ir_sig_idx := 0, ir_mask := 0, ir_value := 0, ir_rise := 0, ir_fall := 0, ir_mask2 := 0,
       ir_val2 := 0, ir_or_mode := False, ir_pre := ila_depth P div 4, ir_rd_addr := 0\<rparr>"

definition config_val :: "ila_params \<Rightarrow> u32" where
  "config_val P =
     push_bit 24 3 OR push_bit 20 (of_nat (ip_num_ch P) AND 0xF) OR push_bit 16 (of_nat (length (ip_sigs P)) AND 0xF)
     OR push_bit 10 31 OR (of_nat (ip_addr_w P) AND 0xFF)"

definition sig_word :: "ila_params \<Rightarrow> nat \<Rightarrow> u32" where
  "sig_word P i =
     (case ip_sigs P ! i of (hi, lo, fmt) \<Rightarrow>
        push_bit 28 (ucast fmt AND 0xF) OR push_bit 16 (ucast hi) OR push_bit 8 (ucast lo) OR 0xFF)"

text \<open>What Capture-DR loads above the opcode.\<close>

definition capture_data :: "ila_params \<Rightarrow> ila_regs \<Rightarrow> u32" where
  "capture_data P r =
     (if ir_stored r = 0x01 then ip_idcode P
      else if ir_stored r = 0x02 then config_val P
      else if ir_stored r = 0x03 then sig_word P (ir_sig_idx r)
      else if ir_stored r = 0x09 then ir_status r AND 0x7
      else if ir_stored r = 0x0A then ir_mask r
      else if ir_stored r = 0x0B then ir_value r
      else if ir_stored r = 0x0C then of_nat (ir_rd_addr r)
      else if ir_stored r = 0x0D then ir_mem r (ir_rd_addr r)
      else if ir_stored r = 0x0E then of_nat (ir_pre r)
      else if ir_stored r = 0x0F then ir_rise r
      else if ir_stored r = 0x10 then ir_fall r
      else if ir_stored r = 0x11 then ir_mask2 r
      else if ir_stored r = 0x12 then ir_val2 r
      else if ir_stored r = 0x13 then of_bool (ir_or_mode r)
      else 0)"

text \<open>Update-DR: the index of the signal definitions, the opcode, and the register that the opcode names.\<close>

definition next_sig :: "ila_params \<Rightarrow> u32 \<Rightarrow> ila_regs \<Rightarrow> nat" where
  "next_sig P op r =
     (if op \<noteq> ir_stored r then 0
      else if op = 0x03 then (if ir_sig_idx r < length (ip_sigs P) - 1 then ir_sig_idx r + 1 else 0)
      else ir_sig_idx r)"

definition write_reg :: "ila_params \<Rightarrow> u32 \<Rightarrow> u32 \<Rightarrow> ila_regs \<Rightarrow> ila_regs" where
  "write_reg P op v r =
     (if op = 0x08 then r\<lparr>ir_ctrl := ir_ctrl r @ [v AND 0xF]\<rparr>
      else if op = 0x0A then r\<lparr>ir_mask := v\<rparr>
      else if op = 0x0B then r\<lparr>ir_value := v\<rparr>
      else if op = 0x0C then r\<lparr>ir_rd_addr := unat v mod ila_depth P\<rparr>
      else if op = 0x0D then r\<lparr>ir_rd_addr := (ir_rd_addr r + 1) mod ila_depth P\<rparr>
      else if op = 0x0E then r\<lparr>ir_pre := unat v mod ila_depth P\<rparr>
      else if op = 0x0F then r\<lparr>ir_rise := v\<rparr>
      else if op = 0x10 then r\<lparr>ir_fall := v\<rparr>
      else if op = 0x11 then r\<lparr>ir_mask2 := v\<rparr>
      else if op = 0x12 then r\<lparr>ir_val2 := v\<rparr>
      else if op = 0x13 then r\<lparr>ir_or_mode := bit v 0\<rparr>
      else r)"

definition ila_update :: "ila_params \<Rightarrow> u32 \<Rightarrow> u32 \<Rightarrow> ila_regs \<Rightarrow> ila_regs" where
  "ila_update P op v r = write_reg P op v (r\<lparr>ir_sig_idx := next_sig P op r, ir_stored := op\<rparr>)"

section \<open>The frame\<close>

definition frame_bits :: "u32 \<Rightarrow> u32 \<Rightarrow> bool list" where
  "frame_bits op v = map (bit op) [0..<5] @ map (bit v) [0..<32]"

definition frame_op :: "bool list \<Rightarrow> u32" where
  "frame_op bs = word_of_bits (\<lambda>i. i < 5 \<and> bs ! i) 5"

definition frame_data :: "bool list \<Rightarrow> u32" where
  "frame_data bs = word_of_bits (\<lambda>i. bs ! (5 + i)) 32"

text \<open>The TAP of the FPGA: the frame under one instruction, BYPASS under all ones, something else otherwise.\<close>

definition ila_device :: "ila_params \<Rightarrow> nat \<Rightarrow> u32 \<Rightarrow> (bool list \<Rightarrow> bool list) \<Rightarrow> ila_regs device_ops" where
  "ila_device P n user other =
     \<lparr>dv_reset = ila_reset P, dv_reset_ir = replicate n True, dv_capture_ir = True # replicate (n - 1) False,
      dv_capture = (\<lambda>ir r. if ir = map (bit user) [0..<n] then frame_bits (ir_stored r) (capture_data P r)
                           else if ir = replicate n True then [False] else other ir),
      dv_update = (\<lambda>ir r bs. if ir = map (bit user) [0..<n] then ila_update P (frame_op bs) (frame_data bs) r else r)\<rparr>"

lemma length_frame_bits [simp]: "length (frame_bits op v) = 37"
  by (simp add: frame_bits_def)

lemma frame_fields:
  assumes "op < 32"
  shows "frame_op (frame_bits op v) = op" and "frame_data (frame_bits op v) = v"
proof -
  have hi: "\<not> bit op i" if "5 \<le> i" for i
  proof -
    have "(2 :: nat) ^ 5 \<le> 2 ^ i" using that by (intro power_increasing) simp_all
    moreover have "unat op < 32" using assms by (simp add: word_less_nat_alt)
    ultimately have "unat op div 2 ^ i = 0" by simp
    then have "\<not> bit (unat op) i" by (simp add: bit_iff_odd)
    then show ?thesis by (simp add: bit_unsigned_iff)
  qed
  show "frame_op (frame_bits op v) = op"
  proof (rule bit_word_eqI)
    fix i assume "i < LENGTH(32)"
    then show "bit (frame_op (frame_bits op v)) i = bit op i"
      using hi [of i] by (cases "i < 5") (auto simp: frame_op_def frame_bits_def bit_word_of_bits nth_append)
  qed
  show "frame_data (frame_bits op v) = v"
    by (rule bit_word_eqI) (simp add: frame_data_def frame_bits_def bit_word_of_bits nth_append)
qed

end
