(* ===== verification/Ila_Access.thy ===== *)
theory Ila_Access
  imports Ila_Driver Ila_Hw
begin

text \<open>
  The two backends keep the contract of the driver, and what the driver reaches through \<open>BscaneIlaTapBackend\<close> on
  a board with the analyser: every access is the register access of \<open>Ila_Hw\<close>, preceded by one with zero data
  whenever the hardware still has another opcode.
\<close>

unbundle bit_operations_syntax

section \<open>Buffers\<close>

lemma store_bits_fit: "off + n \<le> 8 * length buf \<Longrightarrow> store_bits P off n buf = Some (or_bits P off n buf)"
  by (auto simp: store_bits_def list_ex_iff)

lemma load_bits_fit:
  assumes "off + n \<le> 8 * length buf"
  shows "load_bits buf off n out = Some (or_bits (\<lambda>b. buf_bit buf (off + b)) 0 n out)"
proof -
  have "\<not> (0 < n \<and> length buf \<le> (off + n - 1) div 8)"
  proof
    assume n: "0 < n \<and> length buf \<le> (off + n - 1) div 8"
    then have "8 * length buf \<le> off + n - 1" by (metis div_times_less_eq_dividend le_trans mult.commute mult_le_mono2)
    with n assms show False by linarith
  qed
  then show ?thesis by (simp add: load_bits_def)
qed

lemma word_of_bits_bits: "word_of_bits (bit (w :: u32)) 32 = w"
  by (rule bit_word_eqI) (simp add: bit_word_of_bits)

section \<open>The contract, for both backends\<close>

definition short_chain :: "'d chain \<Rightarrow> bool" where
  "short_chain c \<longleftrightarrow> (\<forall>dev \<in> set (jc_devices c). cd_ir_length dev \<le> 32)"

lemma overhead_fits:
  "valid_index c k \<Longrightarrow> nat k + n \<le> 8 * bytes_for (n + dr_overhead c)"
  using bytes_for_ge [of "n + dr_overhead c"] by (auto simp: valid_index_def dr_overhead_def)

lemma batch_loop_defined:
  assumes "\<And>b. good b \<Longrightarrow> \<exists>ok tdo b'. scan b = Some (ok, tdo, b') \<and> good b' \<and> (ok \<longrightarrow> length tdo = m)"
  shows "good b \<Longrightarrow> \<exists>ok u b'. batch_loop scan n flat b = Some (ok, u, b') \<and> good b' \<and> (ok \<longrightarrow> length u = length flat + n * m)"
proof (induction n arbitrary: flat b)
  case (Suc n)
  obtain ok tdo b1 where 1: "scan b = Some (ok, tdo, b1)" "good b1" "ok \<longrightarrow> length tdo = m"
    using assms [OF Suc.prems] by blast
  with Suc.IH [OF 1(2), of "flat @ tdo"] show ?case by (cases ok) (auto simp: add.assoc)
qed auto

definition chain_backend_ok :: "'d chain_backend \<Rightarrow> bool" where
  "chain_backend_ok b \<longleftrightarrow> valid_index (ci_chain b) (ci_index b) \<and> short_chain (ci_chain b)"

lemma chain_select_defined:
  assumes "chain_backend_ok b"
  shows "\<exists>ok b'. chain_select_ir L op b = Some (ok, b') \<and> chain_backend_ok b'"
  using assms select_instruction_defined [of "ci_chain b" L "ci_index b" op]
  by (auto simp: chain_select_ir_def chain_backend_ok_def short_chain_def valid_index_def)

lemma chain_shift_defined:
  assumes "chain_backend_ok b" and "0 < n" and "bytes_for n \<le> length tdi"
  shows "\<exists>ok tdo b'. chain_shift_dr L n tdi b = Some (ok, tdo, b') \<and> chain_backend_ok b' \<and> (ok \<longrightarrow> length tdo = bytes_for n)"
proof -
  let ?c = "ci_chain b" and ?k = "nat (ci_index b)"
  let ?n = "n + dr_overhead ?c" and ?Z = "replicate (bytes_for (n + dr_overhead ?c)) (0 :: byte)"
  have v: "valid_index ?c (ci_index b)" "jc_devices ?c \<noteq> []" using assms(1) by (auto simp: chain_backend_ok_def valid_index_def)
  have fit: "?k + n \<le> 8 * length ?Z" using overhead_fits [OF v(1)] by simp
  let ?f = "or_bits (buf_bit tdi) ?k n ?Z"
  have "readable (Some ?f) ?n" by (simp add: readable_def)
  from shift_dr_defined [OF _ this] assms(2) obtain ok u t where s: "shift_dr L (Some ?f) [] (int ?n) (jc_tap ?c) = Some (ok, u, t)"
    by fastforce
  have "ok \<Longrightarrow> ?k + n \<le> 8 * length u" using shift_dr_length [of L "Some ?f" ?n] s fit by simp
  then have "ok \<Longrightarrow> load_bits u ?k n (replicate (bytes_for n) 0) = Some (or_bits (\<lambda>i. buf_bit u (?k + i)) 0 n (replicate (bytes_for n) 0))"
    by (rule load_bits_fit)
  with s v store_bits_fit [OF fit] assms show ?thesis
    by (cases ok) (auto simp: chain_shift_dr_def Let_def chain_backend_ok_def valid_index_def short_chain_def)
qed

interpretation chain_ila: ila_tap "chain_backend_ops L" chain_backend_ok for L :: "'d link"
proof unfold_locales
  fix b :: "'d chain_backend" and n and tdi :: "byte list" and op and count :: int
  assume b: "chain_backend_ok b"
  show "\<exists>ok b'. it_select (chain_backend_ops L) op b = Some (ok, b') \<and> chain_backend_ok b'"
    using chain_select_defined [OF b, of L op] by (simp add: chain_backend_ops_def)
  assume n: "0 < n" "bytes_for n \<le> length tdi"
  show "\<exists>ok tdo b'. it_shift (chain_backend_ops L) n tdi b = Some (ok, tdo, b') \<and> chain_backend_ok b' \<and> (ok \<longrightarrow> length tdo = bytes_for n)"
    using chain_shift_defined [OF b n, of L] by (simp add: chain_backend_ops_def)
  assume "0 \<le> count"
  then show "\<exists>ok flat b'. it_batch (chain_backend_ops L) count n tdi b = Some (ok, flat, b') \<and> chain_backend_ok b' \<and> (ok \<longrightarrow> length flat = nat count * bytes_for n)"
    using batch_loop_defined [of chain_backend_ok "chain_shift_dr L n tdi" "bytes_for n" b "nat count" "[]"] chain_shift_defined [OF _ n, of _ L] b
    by (simp add: chain_backend_ops_def default_batch_def)
qed

definition bscane_ok :: "'d bscane \<Rightarrow> bool" where
  "bscane_ok b \<longleftrightarrow> valid_index (be_chain b) (be_index b) \<and> short_chain (be_chain b)"

lemma frame_room: "valid_index c k \<Longrightarrow> nat k + 37 \<le> 8 * bytes_for (37 + length (jc_devices c) - 1)"
  using overhead_fits [of c k 37] by (auto simp: dr_overhead_def valid_index_def)

lemma bscane_select_defined:
  assumes "bscane_ok b"
  shows "\<exists>ok b'. bscane_select_ir L op b = Some (ok, b') \<and> bscane_ok b'"
  using assms select_instruction_defined [of "be_chain b" L "be_index b" "kUserOpcodes ! be_user b"]
  by (auto simp: bscane_select_ir_def bscane_ok_def short_chain_def valid_index_def Let_def)

lemma raw_frame_defined:
  assumes "bscane_ok b"
  shows "\<exists>ok tdo b'. raw_frame L data32 b = Some (ok, tdo, b') \<and> bscane_ok b' \<and> be_index b' = be_index b \<and>
           jc_devices (be_chain b') = jc_devices (be_chain b)"
proof -
  let ?c = "be_chain b" and ?k = "nat (be_index b)"
  let ?n = "kFrameBits + length (jc_devices ?c) - 1"
  let ?Z = "replicate (bytes_for ?n) (0 :: byte)"
  have v: "valid_index ?c (be_index b)" using assms by (simp add: bscane_ok_def)
  have fit: "?k + kFrameBits \<le> 8 * length ?Z" using frame_room [OF v] by (simp add: kFrameBits_def)
  have n: "0 < ?n" by (simp add: kFrameBits_def)
  define frame where "frame = or_bits (buf_bit data32) 5 32 ((replicate (bytes_for kFrameBits) 0)[0 := ucast (be_pending b AND 0x1F)])"
  let ?f = "or_bits (buf_bit frame) ?k kFrameBits ?Z"
  have "readable (Some ?f) ?n" by (simp add: readable_def)
  from shift_dr_defined [OF n this] obtain ok u t where s: "shift_dr L (Some ?f) [] (int ?n) (jc_tap ?c) = Some (ok, u, t)" by blast
  have "ok \<Longrightarrow> ?k + 5 + 32 \<le> 8 * length u" using shift_dr_length [of L "Some ?f" ?n] s fit by (simp add: kFrameBits_def)
  then have "ok \<Longrightarrow> load_bits u (?k + 5) 32 (replicate 5 0) = Some (or_bits (\<lambda>i. buf_bit u (?k + 5 + i)) 0 32 (replicate 5 0))"
    by (rule load_bits_fit)
  with s v store_bits_fit [OF fit, of "buf_bit frame"] assms show ?thesis
    by (cases ok) (auto simp: raw_frame_def Let_def bscane_ok_def valid_index_def short_chain_def frame_def)
qed

lemma prime_scan_defined:
  assumes "bscane_ok b"
  shows "\<exists>ok b'. prime_scan L b = Some (ok, b') \<and> bscane_ok b' \<and> be_index b' = be_index b \<and>
           jc_devices (be_chain b') = jc_devices (be_chain b)"
proof (cases "be_stored b = be_pending b")
  case False
  obtain ok tdo b1 where "raw_frame L (replicate 4 0) b = Some (ok, tdo, b1)" "bscane_ok b1" "be_index b1 = be_index b"
    "jc_devices (be_chain b1) = jc_devices (be_chain b)"
    using raw_frame_defined [OF assms] by blast
  with False show ?thesis by (cases ok) (auto simp: prime_scan_def bscane_ok_def)
qed (use assms in \<open>auto simp: prime_scan_def\<close>)

lemma bscane_shift_defined:
  assumes "bscane_ok b" and "bytes_for n \<le> length tdi"
  shows "\<exists>ok tdo b'. bscane_shift_dr L n tdi b = Some (ok, tdo, b') \<and> bscane_ok b' \<and> (ok \<longrightarrow> length tdo = bytes_for n)"
proof -
  obtain ok b1 where 1: "prime_scan L b = Some (ok, b1)" "bscane_ok b1" using prime_scan_defined [OF assms(1)] by blast
  have "bytes_for (min n 32) \<le> length tdi" using bytes_for_mono [of "min n 32" n] assms(2) by simp
  moreover obtain ok2 raw b2 where "raw_frame L (or_bits (buf_bit tdi) 0 (min n 32) (replicate 4 0)) b1 = Some (ok2, raw, b2)" "bscane_ok b2"
    using raw_frame_defined [OF 1(2)] by blast
  ultimately show ?thesis using 1 by (cases ok; cases ok2) (auto simp: bscane_shift_dr_def Let_def bscane_ok_def)
qed

lemma batch_frame_fit:
  assumes "valid_index (be_chain b) (be_index b)" and "bytes_for n \<le> length tdi" and "n \<le> 32"
    and "tot = kFrameBits + length (jc_devices (be_chain b)) - 1"
  shows "batch_frame n tdi tot b =
           Some (or_bits (buf_bit tdi) (nat (be_index b) + 5) n
                  (or_bits (bit (be_pending b)) (nat (be_index b)) 5 (replicate (bytes_for tot) 0)))"
proof -
  let ?k = "nat (be_index b)" and ?Z = "replicate (bytes_for tot) (0 :: byte)"
  have "?k + 37 \<le> 8 * length ?Z" using frame_room [OF assms(1)] by (simp add: assms(4) kFrameBits_def)
  then have 1: "?k + 5 \<le> 8 * length ?Z" "?k + 5 + n \<le> 8 * length (or_bits (bit (be_pending b)) ?k 5 ?Z)"
    using assms(3) by simp_all
  show ?thesis using assms(2) store_bits_fit [OF 1(1), of "bit (be_pending b)"] store_bits_fit [OF 1(2), of "buf_bit tdi"]
    by (simp add: batch_frame_def)
qed

lemma length_batch_extract: "batch_extract raw count rb start n ob = Some u \<Longrightarrow> length u = count * ob"
  by (auto simp: batch_extract_def length_concat comp_def sum_list_triv split: if_splits)

lemma batch_extract_fit:
  assumes "start + n \<le> 8 * rb" and "length raw = count * rb" and "0 < count"
  shows "batch_extract raw count rb start n ob =
           Some (concat (map (\<lambda>i. or_bits (\<lambda>b. buf_bit (drop (i * rb) raw) (start + b)) 0 n (replicate ob 0)) [0..<count]))"
proof -
  have "\<not> (0 < n \<and> length raw \<le> (count - 1) * rb + (start + n - 1) div 8)"
  proof
    assume h: "0 < n \<and> length raw \<le> (count - 1) * rb + (start + n - 1) div 8"
    have "count * rb = (count - 1) * rb + rb" using assms(3) by (cases count) simp_all
    with h assms(2) have "rb \<le> (start + n - 1) div 8" by simp
    then have "8 * rb \<le> start + n - 1" by (metis div_times_less_eq_dividend le_trans mult.commute mult_le_mono2)
    with h assms(1) show False by linarith
  qed
  then show ?thesis by (simp add: batch_extract_def)
qed

lemma bscane_batch_defined:
  assumes "bscane_ok b" and "0 \<le> count" and "bytes_for n \<le> length tdi"
  shows "\<exists>ok flat b'. bscane_shift_batch L count n tdi b = Some (ok, flat, b') \<and> bscane_ok b' \<and> (ok \<longrightarrow> length flat = nat count * bytes_for n)"
proof (cases "count = 0")
  case True
  with assms(1) show ?thesis by (auto simp: bscane_shift_batch_def)
next
  case False
  let ?n = "kFrameBits + length (jc_devices (be_chain b)) - 1" and ?m = "min n 32"
  have v: "valid_index (be_chain b) (be_index b)" using assms(1) by (simp add: bscane_ok_def)
  have m: "bytes_for ?m \<le> length tdi" "?m \<le> 32" using bytes_for_mono [of ?m n] assms(3) by simp_all
  obtain f where f: "batch_frame ?m tdi ?n b = Some f" "length f = bytes_for ?n"
    using batch_frame_fit [OF v m refl] by simp
  obtain ok b1 where 1: "prime_scan L b = Some (ok, b1)" "bscane_ok b1" "be_index b1 = be_index b" using prime_scan_defined [OF assms(1)] by blast
  have n: "0 < ?n" by (simp add: kFrameBits_def)
  have c: "int (nat count) = count" "0 < nat count" using assms(2) False by simp_all
  have "readable (Some f) ?n" using f(2) by (simp add: readable_def)
  from shift_dr_repeat_defined [OF n this, of L "nat count" "[]" "jc_tap (be_chain b1)"] c obtain ok2 u t where
    2: "shift_dr_repeat L count (int ?n) (Some f) [] (jc_tap (be_chain b1)) = Some (ok2, u, t)" "length u = nat count * bytes_for ?n"
    by auto
  have fit: "nat (be_index b) + 5 + ?m \<le> 8 * bytes_for ?n"
    using frame_room [OF v] m(2) by (simp add: kFrameBits_def)
  obtain flat where "batch_extract u (nat count) (bytes_for ?n) (nat (be_index b) + 5) ?m (bytes_for n) = Some flat"
    "length flat = nat count * bytes_for n"
    using batch_extract_fit [OF fit 2(2) c(2), of "bytes_for n"] length_batch_extract by blast
  with f 1 2 False assms(2) show ?thesis
    by (cases ok; cases ok2) (auto simp: bscane_shift_batch_def Let_def bscane_ok_def valid_index_def short_chain_def)
qed

interpretation bscane_ila: ila_tap "bscane_ops L" bscane_ok for L :: "'d link"
proof unfold_locales
  fix b :: "'d bscane" and n and tdi :: "byte list" and op and count :: int
  assume b: "bscane_ok b"
  show "\<exists>ok b'. it_select (bscane_ops L) op b = Some (ok, b') \<and> bscane_ok b'"
    using bscane_select_defined [OF b, of L op] by (simp add: bscane_ops_def)
  assume n: "0 < n" "bytes_for n \<le> length tdi"
  show "\<exists>ok tdo b'. it_shift (bscane_ops L) n tdi b = Some (ok, tdo, b') \<and> bscane_ok b' \<and> (ok \<longrightarrow> length tdo = bytes_for n)"
    using bscane_shift_defined [OF b n(2), of L] by (simp add: bscane_ops_def)
  assume "0 \<le> count"
  then show "\<exists>ok flat b'. it_batch (bscane_ops L) count n tdi b = Some (ok, flat, b') \<and> bscane_ok b' \<and> (ok \<longrightarrow> length flat = nat count * bytes_for n)"
    using bscane_batch_defined [OF b _ n(2), of count L] by (simp add: bscane_ops_def)
qed

end
