(* ===== verification/Ila_Readout.thy ===== *)
theory Ila_Readout
  imports Ila_Access
begin

text \<open>
  The driver of the analyser on a board with the analyser: what \<open>IlaDriver\<close> does through
  \<open>BscaneIlaTapBackend\<close>, \<open>JtagChain\<close>, \<open>TapController\<close> and the MPSSE commands to the registers of \<open>Ila_Hw\<close>.
\<close>

unbundle bit_operations_syntax

section \<open>The board\<close>

abbreviation ila_cs :: "ila_regs chip list board bscane \<Rightarrow> ila_regs chip list" where
  "ila_cs b \<equiv> bo_hw (tap_dev (jc_tap (be_chain b)))"

definition ila_of :: "ila_regs chip list board bscane \<Rightarrow> ila_regs" where
  "ila_of b = snd (ila_cs b ! nat (be_index b))"

text \<open>Device \<open>be_index\<close> is the FPGA with the analyser in the user register of the backend; the others have BYPASS.\<close>

definition on_board ::
  "ila_params \<Rightarrow> (bool list \<Rightarrow> bool list) \<Rightarrow> ila_regs device_ops list \<Rightarrow> ila_regs chip list board bscane \<Rightarrow> bool" where
  "on_board P other Ds b \<longleftrightarrow>
     bscane_ok b \<and> board_idle (jc_tap (be_chain b)) \<and> matches Ds (jc_devices (be_chain b)) \<and> length (ila_cs b) = length Ds \<and>
     Ds ! nat (be_index b) =
       ila_device P (cd_ir_length (jc_devices (be_chain b) ! nat (be_index b))) (kUserOpcodes ! be_user b) other \<and>
     (\<forall>j < length Ds. j \<noteq> nat (be_index b) \<longrightarrow> has_bypass (Ds ! j))"

definition ir_length_of_target :: "ila_regs chip list board bscane \<Rightarrow> nat" where
  "ir_length_of_target b = cd_ir_length (jc_devices (be_chain b) ! nat (be_index b))"

definition user_selected :: "ila_regs device_ops list \<Rightarrow> ila_regs chip list board bscane \<Rightarrow> bool" where
  "user_selected Ds b \<longleftrightarrow>
     others_bypassed Ds (nat (be_index b)) (ila_cs b) \<and>
     fst (ila_cs b ! nat (be_index b)) = map (bit (kUserOpcodes ! be_user b)) [0..<ir_length_of_target b]"

lemma on_board_index:
  assumes "on_board P other Ds b"
  shows "nat (be_index b) < length Ds" and "length Ds = length (jc_devices (be_chain b))"
    and "valid_index (be_chain b) (be_index b)" and "0 < ir_length_of_target b"
    and "length (dv_capture_ir (Ds ! nat (be_index b))) = ir_length_of_target b"
proof -
  have a: "matches Ds (jc_devices (be_chain b))" "valid_index (be_chain b) (be_index b)"
    using assms by (simp_all add: on_board_def bscane_ok_def)
  show l: "length Ds = length (jc_devices (be_chain b))" by (rule matches_lengths(4) [OF a(1)])
  show v: "valid_index (be_chain b) (be_index b)" by (rule a(2))
  show k: "nat (be_index b) < length Ds" using v l by (auto simp: valid_index_def)
  then have "length (dv_capture_ir (Ds ! nat (be_index b))) = ir_length_of_target b" "dv_capture_ir (Ds ! nat (be_index b)) \<noteq> []"
    using a(1) by (simp_all add: matches_def list_all2_conv_all_nth ir_length_of_target_def)
  then show "0 < ir_length_of_target b" "length (dv_capture_ir (Ds ! nat (be_index b))) = ir_length_of_target b"
    by (metis length_greater_0_conv)+
qed

lemma board_never_empty:
  assumes "others_bypassed Ds k cs" and "dv_capture (Ds ! k) (fst (cs ! k)) (snd (cs ! k)) \<noteq> []"
  shows "bd_capture_dr (devices_board Ds) cs \<noteq> []"
  using bypassed_register [OF assms(1)] assms(2) by simp

lemma user_capture:
  assumes "on_board P other Ds b" and "user_selected Ds b"
  shows "dv_capture (Ds ! nat (be_index b)) (fst (ila_cs b ! nat (be_index b))) (snd (ila_cs b ! nat (be_index b))) =
           frame_bits (ir_stored (ila_of b)) (capture_data P (ila_of b))"
    and "dv_update (Ds ! nat (be_index b)) (fst (ila_cs b ! nat (be_index b))) (snd (ila_cs b ! nat (be_index b))) bs =
           ila_update P (frame_op bs) (frame_data bs) (ila_of b)"
  using assms by (simp_all add: on_board_def user_selected_def ila_device_def ila_of_def ir_length_of_target_def)

section \<open>One frame\<close>

text \<open>The chain register with a frame at the analyser.\<close>

definition around :: "nat \<Rightarrow> nat \<Rightarrow> bool list \<Rightarrow> bool list" where
  "around k m bs = replicate k False @ bs @ replicate m False"

text \<open>The board after a frame.\<close>

definition framed :: "ila_params \<Rightarrow> u32 \<Rightarrow> u32 \<Rightarrow> ila_regs chip list board bscane \<Rightarrow> ila_regs chip list board tap \<Rightarrow> bool" where
  "framed P op v b t \<longleftrightarrow>
     board_idle t \<and>
     bo_hw (tap_dev t) = (ila_cs b)[nat (be_index b) := (fst (ila_cs b ! nat (be_index b)), ila_update P op v (ila_of b))]"

lemma after_frame:
  assumes "on_board P other Ds b" and "user_selected Ds b" and "framed P op v b t"
  defines "b' \<equiv> b\<lparr>be_chain := (be_chain b)\<lparr>jc_tap := t\<rparr>\<rparr>"
  shows "on_board P other Ds b'" and "user_selected Ds b'" and "ila_of b' = ila_update P op v (ila_of b)"
proof -
  have l: "nat (be_index b) < length (ila_cs b)" using on_board_index(1) [OF assms(1)] assms(1) by (simp add: on_board_def)
  show "on_board P other Ds b'" using assms(1,3)
    by (simp add: on_board_def b'_def framed_def bscane_ok_def valid_index_def short_chain_def)
  show "user_selected Ds b'" using assms(2,3) l
    by (auto simp: user_selected_def b'_def framed_def others_bypassed_def ir_length_of_target_def)
  show "ila_of b' = ila_update P op v (ila_of b)" using assms(3) l by (simp add: ila_of_def b'_def framed_def)
qed

lemma frame_scan:
  assumes "on_board P other Ds b" and "user_selected Ds b" and "op < 32"
    and "readable (Some f) n" and "n = kFrameBits + length (jc_devices (be_chain b)) - 1"
    and "buf_bits f n = around (nat (be_index b)) (length Ds - 1 - nat (be_index b)) (frame_bits op v)"
  shows "\<exists>u t. shift_dr (board_link (devices_board Ds)) (Some f) [] (int n) (jc_tap (be_chain b)) = Some (True, u, t) \<and>
           framed P op v b t \<and> length u = bytes_for n \<and>
           (\<forall>i < 32. buf_bit u (nat (be_index b) + 5 + i) = bit (capture_data P (ila_of b)) i)"
proof -
  let ?H = "devices_board Ds" and ?t = "jc_tap (be_chain b)" and ?k = "nat (be_index b)"
  let ?m = "length Ds - 1 - ?k"
  let ?cap = "frame_bits (ir_stored (ila_of b)) (capture_data P (ila_of b))"
  have ob: "others_bypassed Ds ?k (ila_cs b)" and idle: "board_idle ?t"
    using assms(1,2) by (simp_all add: user_selected_def on_board_def)
  note cap = user_capture [OF assms(1,2)]
  have k: "?k < length Ds" by (rule on_board_index(1) [OF assms(1)])
  have reg: "bd_capture_dr ?H (ila_cs b) = around ?k ?m ?cap" using bypassed_register [OF ob] by (simp only: cap around_def)
  have n: "0 < n" "n = length (around ?k ?m ?cap)"
    using k on_board_index(2) [OF assms(1)] by (simp_all add: assms(5) kFrameBits_def around_def)
  have ne: "bd_capture_dr ?H (ila_cs b) \<noteq> []" unfolding reg by (simp add: around_def frame_bits_def)
  note sh = shift_dr_board(1) [OF idle n(1) assms(4) ne, unfolded reg]
  have bits: "tdi_bits (Some f) n = around ?k ?m (frame_bits op v)" using assms(6) by (simp add: ptr_bytes_def)
  have len: "length (tdi_bits (Some f) n) = length (around ?k ?m ?cap)" using n(2) by simp
  have ex: "exchanged (around ?k ?m ?cap) (tdi_bits (Some f) n) = around ?k ?m ?cap"
    "left_in (around ?k ?m ?cap) (tdi_bits (Some f) n) = around ?k ?m (frame_bits op v)"
    using len bits by (simp_all add: exchanged_full [OF len])
  define u where "u = unpack_scan n (scan_reply n (around ?k ?m ?cap)) (resize_bytes (bytes_for n) [])"
  define t where "t = scanned (around ?k ?m (frame_bits op v)) (bd_update_dr ?H (ila_cs b) (around ?k ?m (frame_bits op v))) ?t"
  have s: "shift_dr (board_link ?H) (Some f) [] (int n) ?t = Some (True, u, t)"
    using sh [of "[]"] unfolding u_def t_def ex .
  have u: "length u = bytes_for n" "buf_bits u n = around ?k ?m ?cap"
    using unpack_scan_exchanged [OF n(1) n(2) [symmetric]] by (simp_all add: u_def)
  have "buf_bit u (?k + 5 + i) = bit (capture_data P (ila_of b)) i" if "i < 32" for i
  proof -
    have "?k + 5 + i < n" using that n(2) by (simp add: around_def)
    then have "buf_bit u (?k + 5 + i) = around ?k ?m ?cap ! (?k + (5 + i))" using u(2) nth_buf_bits [of "?k + 5 + i" n u] by (simp add: add.assoc)
    also have "\<dots> = bit (capture_data P (ila_of b)) i" using that by (simp add: around_def nth_append frame_bits_def)
    finally show ?thesis .
  qed
  moreover have "framed P op v b t"
  proof -
    have "length (frame_bits op v) = length (dv_capture (Ds ! ?k) (fst (ila_cs b ! ?k)) (snd (ila_cs b ! ?k)))"
      unfolding cap by simp
    from bypassed_update [OF ob this, of False False]
    have "bd_update_dr ?H (ila_cs b) (around ?k ?m (frame_bits op v)) =
        (ila_cs b)[?k := (fst (ila_cs b ! ?k), ila_update P op v (ila_of b))]"
      unfolding cap(2) frame_fields [OF assms(3)] around_def by simp
    then show ?thesis by (simp add: framed_def t_def)
  qed
  ultimately show ?thesis using s u(1) by blast
qed

section \<open>The backend on the board\<close>

definition data_word :: "nat \<Rightarrow> byte list \<Rightarrow> u32" where
  "data_word n tdi = word_of_bits (\<lambda>i. i < n \<and> buf_bit tdi i) 32"

lemma bit_opcode_byte: "op < (32 :: u32) \<Longrightarrow> bit (ucast (op AND 0x1F) :: byte) i \<longleftrightarrow> i < 5 \<and> bit op i"
proof -
  have "0x1F = (mask 5 :: u32)" by (simp add: mask_eq_exp_minus_1)
  then have "op AND 0x1F = take_bit 5 op" by (simp only: take_bit_eq_mask)
  then show ?thesis by (auto simp: bit_ucast_iff bit_take_bit_iff)
qed

lemma frame_buffer:
  assumes "op < 32"
  shows "buf_bits (or_bits (buf_bit data) 5 32 ((replicate (bytes_for kFrameBits) 0)[0 := ucast (op AND 0x1F)])) kFrameBits =
           frame_bits op (data_word 32 data)"
proof (rule nth_equalityI)
  have b5: "bytes_for kFrameBits = 5" by (simp add: kFrameBits_def bytes_for_def)
  let ?f0 = "(replicate 5 0)[0 := ucast (op AND 0x1F)] :: byte list"
  have f0: "buf_bit ?f0 i \<longleftrightarrow> i < 5 \<and> bit op i" for i
    using bit_opcode_byte [OF assms, of "i mod 8"]
    by (cases "i div 8") (auto simp: buf_bit_def nth_list_update)
  fix i assume "i < length (buf_bits (or_bits (buf_bit data) 5 32 ((replicate (bytes_for kFrameBits) 0)[0 := ucast (op AND 0x1F)])) kFrameBits)"
  then have i: "i < 37" by (simp add: kFrameBits_def)
  then have "buf_bits (or_bits (buf_bit data) 5 32 ?f0) 37 ! i \<longleftrightarrow> (i < 5 \<and> bit op i) \<or> (5 \<le> i \<and> buf_bit data (i - 5))"
    by (auto simp: buf_bit_or_bits f0)
  then show "buf_bits (or_bits (buf_bit data) 5 32 ((replicate (bytes_for kFrameBits) 0)[0 := ucast (op AND 0x1F)])) kFrameBits ! i =
      frame_bits op (data_word 32 data) ! i"
    using i unfolding b5 by (auto simp: kFrameBits_def frame_bits_def nth_append data_word_def bit_word_of_bits)
qed (simp add: kFrameBits_def)

lemma around_buffer:
  assumes "k + length bs + m = n" and "buf_bits f (length bs) = bs"
  shows "buf_bits (or_bits (buf_bit f) k (length bs) (replicate (bytes_for n) 0)) n = around k m bs"
proof (rule nth_equalityI)
  fix i assume "i < length (buf_bits (or_bits (buf_bit f) k (length bs) (replicate (bytes_for n) 0)) n)"
  then have i: "i < n" by simp
  have fit: "i div 8 < bytes_for n" using i by (rule bytes_for_bound)
  have "bs ! j = buf_bit f j" if "j < length bs" for j using assms(2) that nth_buf_bits [of j "length bs" f] by simp
  then show "buf_bits (or_bits (buf_bit f) k (length bs) (replicate (bytes_for n) 0)) n ! i = around k m bs ! i"
    using i fit assms(1) by (auto simp: buf_bit_or_bits around_def nth_append)
qed (use assms(1) in \<open>simp add: around_def\<close>)

lemma raw_frame_board:
  assumes "on_board P other Ds b" and "user_selected Ds b" and "be_pending b < 32"
  shows "\<exists>tdo t. raw_frame (board_link (devices_board Ds)) data32 b = Some (True, tdo, b\<lparr>be_chain := (be_chain b)\<lparr>jc_tap := t\<rparr>\<rparr>) \<and>
           framed P (be_pending b) (data_word 32 data32) b t \<and>
           (\<forall>i < 32. buf_bit tdo i = bit (capture_data P (ila_of b)) i)"
proof -
  let ?c = "be_chain b" and ?k = "nat (be_index b)" and ?v = "data_word 32 data32"
  let ?n = "kFrameBits + length (jc_devices ?c) - 1"
  let ?Z = "replicate (bytes_for ?n) (0 :: byte)"
  define frame where "frame = or_bits (buf_bit data32) 5 32 ((replicate (bytes_for kFrameBits) 0)[0 := ucast (be_pending b AND 0x1F)])"
  let ?f = "or_bits (buf_bit frame) ?k kFrameBits ?Z"
  have v: "valid_index ?c (be_index b)" and k: "?k < length Ds" "length Ds = length (jc_devices ?c)"
    using on_board_index [OF assms(1)] by simp_all
  have fit: "?k + kFrameBits \<le> 8 * length ?Z" using frame_room [OF v] by (simp add: kFrameBits_def)
  have fb: "buf_bits frame kFrameBits = frame_bits (be_pending b) ?v" unfolding frame_def by (rule frame_buffer [OF assms(3)])
  have bits: "buf_bits ?f ?n = around ?k (length Ds - 1 - ?k) (frame_bits (be_pending b) ?v)"
    using around_buffer [of ?k "frame_bits (be_pending b) ?v" "length Ds - 1 - ?k" ?n frame] fb k
    by (simp add: kFrameBits_def)
  have rd: "readable (Some ?f) ?n" by (simp add: readable_def)
  from frame_scan [OF assms(1-3) rd refl bits] obtain u t where
    s: "shift_dr (board_link (devices_board Ds)) (Some ?f) [] (int ?n) (jc_tap ?c) = Some (True, u, t)"
    "framed P (be_pending b) ?v b t" "length u = bytes_for ?n"
    "\<And>i. i < 32 \<Longrightarrow> buf_bit u (?k + 5 + i) = bit (capture_data P (ila_of b)) i" by blast
  have "?k + 5 + 32 \<le> 8 * length u" using fit s(3) by (simp add: kFrameBits_def)
  from load_bits_fit [OF this, of "replicate 5 0"]
  have ld: "load_bits u (?k + 5) 32 (replicate 5 0) = Some (or_bits (\<lambda>i. buf_bit u (?k + 5 + i)) 0 32 (replicate 5 0))" .
  have "buf_bit (or_bits (\<lambda>i. buf_bit u (?k + 5 + i)) 0 32 (replicate 5 0)) i = bit (capture_data P (ila_of b)) i" if "i < 32" for i
  proof -
    have "i div 8 < 5" using that by simp
    then show ?thesis using that s(4) by (simp add: buf_bit_or_bits)
  qed
  moreover have "raw_frame (board_link (devices_board Ds)) data32 b =
      Some (True, or_bits (\<lambda>i. buf_bit u (?k + 5 + i)) 0 32 (replicate 5 0), b\<lparr>be_chain := ?c\<lparr>jc_tap := t\<rparr>\<rparr>)"
    using s(1) ld v store_bits_fit [OF fit, of "buf_bit frame"] by (simp add: raw_frame_def Let_def frame_def)
  ultimately show ?thesis using s(2) by blast
qed

text \<open>What the hardware is before the scan that counts.\<close>

definition settled :: "ila_params \<Rightarrow> ila_regs chip list board bscane \<Rightarrow> ila_regs" where
  "settled P b = (if be_stored b = be_pending b then ila_of b else ila_update P (be_pending b) 0 (ila_of b))"

definition mirror_ok :: "ila_regs chip list board bscane \<Rightarrow> bool" where
  "mirror_ok b \<longleftrightarrow> be_pending b < 32 \<and> (be_stored b = 0xFF \<or> be_stored b = ir_stored (ila_of b))"

definition ila_ready ::
  "ila_params \<Rightarrow> (bool list \<Rightarrow> bool list) \<Rightarrow> ila_regs device_ops list \<Rightarrow> ila_regs chip list board bscane \<Rightarrow> bool" where
  "ila_ready P other Ds b \<longleftrightarrow> on_board P other Ds b \<and> mirror_ok b"

lemma ir_stored_update [simp]: "ir_stored (ila_update P op v r) = op"
  by (simp add: ila_update_def write_reg_def)

lemma mirror_simps [simp]:
  "on_board P other Ds (b\<lparr>be_stored := x\<rparr>) = on_board P other Ds b" "user_selected Ds (b\<lparr>be_stored := x\<rparr>) = user_selected Ds b"
  "ila_of (b\<lparr>be_stored := x\<rparr>) = ila_of b"
  by (simp_all add: on_board_def user_selected_def ila_of_def bscane_ok_def ir_length_of_target_def)

lemma data_word_0: "data_word n (replicate m 0) = 0"
  by (rule bit_word_eqI) (simp add: data_word_def bit_word_of_bits)

lemma prime_scan_board:
  assumes "ila_ready P other Ds b" and "user_selected Ds b"
  shows "\<exists>b'. prime_scan (board_link (devices_board Ds)) b = Some (True, b') \<and> ila_ready P other Ds b' \<and> user_selected Ds b' \<and>
           ila_of b' = settled P b \<and> be_pending b' = be_pending b \<and> be_stored b' = be_pending b \<and>
           ir_stored (settled P b) = be_pending b \<and> be_index b' = be_index b \<and> jc_devices (be_chain b') = jc_devices (be_chain b)"
proof (cases "be_stored b = be_pending b")
  case True
  with assms show ?thesis by (auto simp: prime_scan_def settled_def ila_ready_def mirror_ok_def)
next
  case False
  have a: "on_board P other Ds b" "be_pending b < 32" using assms(1) by (simp_all add: ila_ready_def mirror_ok_def)
  obtain tdo t where r: "raw_frame (board_link (devices_board Ds)) (replicate 4 0) b = Some (True, tdo, b\<lparr>be_chain := (be_chain b)\<lparr>jc_tap := t\<rparr>\<rparr>)"
    "framed P (be_pending b) 0 b t"
    using raw_frame_board [OF a(1) assms(2) a(2), of "replicate 4 0"] unfolding data_word_0 by blast
  from after_frame [OF a(1) assms(2) r(2)] r(1) False a(2) show ?thesis
    by (simp add: prime_scan_def settled_def ila_ready_def mirror_ok_def)
qed

lemma small_opcode: "op < (32 :: u32) \<Longrightarrow> op AND 0x1F = op"
proof -
  assume "op < 32"
  then have "unat op < 2 ^ 5" by (simp add: word_less_nat_alt)
  then have "take_bit 5 op = op" by (simp add: word_unat_eq_iff unsigned_take_bit_eq take_bit_nat_eq_self)
  moreover have "0x1F = (mask 5 :: u32)" by (simp add: mask_eq_exp_minus_1)
  ultimately show ?thesis by (simp only: take_bit_eq_mask)
qed

lemma bscane_select_board:
  assumes "ila_ready P other Ds b" and "op < 32"
  shows "\<exists>b'. bscane_select_ir (board_link (devices_board Ds)) op b = Some (True, b') \<and> ila_ready P other Ds b' \<and>
           user_selected Ds b' \<and> be_pending b' = op \<and> be_stored b' = be_stored b \<and> ila_of b' = ila_of b"
proof -
  let ?c = "be_chain b" and ?k = "nat (be_index b)" and ?u = "kUserOpcodes ! be_user b"
  have a: "on_board P other Ds b" using assms(1) by (simp add: ila_ready_def)
  then have m: "board_idle (jc_tap ?c)" "matches Ds (jc_devices ?c)" "length (ila_cs b) = length Ds"
    "\<forall>j < length Ds. j \<noteq> ?k \<longrightarrow> has_bypass (Ds ! j)" "bscane_ok b" by (simp_all add: on_board_def)
  note ix = on_board_index [OF a]
  have "\<forall>dev \<in> set (jc_devices ?c). cd_ir_length dev \<le> 32" using m(5) by (simp add: bscane_ok_def short_chain_def)
  from select_on_board [OF m(1,2) ix(3) this, of ?u] obtain c where
    c: "select_instruction (board_link (devices_board Ds)) (be_index b) ?u ?c = Some (True, c)" "board_idle (jc_tap c)"
    "jc_devices c = jc_devices ?c"
    "bo_hw (tap_dev (jc_tap c)) = set_instructions (instructions ?k ?u (jc_devices ?c)) (ila_cs b)" by blast
  note o = selected_others_bypassed [OF m(2,3) ix(1) m(4), of ?u]
  let ?b = "b\<lparr>be_pending := op, be_chain := c\<rparr>"
  have l: "length (bo_hw (tap_dev (jc_tap c))) = length Ds" using o(1) c(4) by (simp add: others_bypassed_def)
  have "bscane_ok ?b" using m(5) c(3) by (simp add: bscane_ok_def valid_index_def short_chain_def)
  then have "on_board P other Ds ?b" using a c(2,3) l by (simp add: on_board_def)
  moreover have "user_selected Ds ?b"
    using o ix(5) c(3,4) by (simp add: user_selected_def ir_length_of_target_def)
  moreover have "ila_of ?b = ila_of b" using o(2) c(4) by (simp add: ila_of_def)
  moreover have "bscane_select_ir (board_link (devices_board Ds)) op b = Some (True, ?b)"
    using c(1) by (simp add: bscane_select_ir_def small_opcode [OF assms(2)])
  ultimately show ?thesis using assms by (auto simp: ila_ready_def mirror_ok_def)
qed

lemma data_word_copy: "m \<le> 32 \<Longrightarrow> data_word 32 (or_bits (buf_bit tdi) 0 m (replicate 4 0)) = data_word m tdi"
proof (rule bit_word_eqI)
  fix i assume "m \<le> 32" "i < LENGTH(32)"
  moreover from this have "i div 8 < 4" by simp
  ultimately show "bit (data_word 32 (or_bits (buf_bit tdi) 0 m (replicate 4 0))) i = bit (data_word m tdi) i"
    by (auto simp: data_word_def bit_word_of_bits buf_bit_or_bits)
qed

lemma bscane_shift_board:
  assumes "ila_ready P other Ds b" and "user_selected Ds b" and "bytes_for n \<le> length tdi"
  shows "\<exists>tdo b'. bscane_shift_dr (board_link (devices_board Ds)) n tdi b = Some (True, tdo, b') \<and> ila_ready P other Ds b' \<and>
           user_selected Ds b' \<and> be_pending b' = be_pending b \<and> be_stored b' = be_pending b \<and>
           ila_of b' = ila_update P (be_pending b) (data_word (min n 32) tdi) (settled P b) \<and> length tdo = bytes_for n \<and>
           (\<forall>i < min n 32. buf_bit tdo i = bit (capture_data P (settled P b)) i)"
proof -
  let ?L = "board_link (devices_board Ds)" and ?m = "min n 32"
  let ?data = "or_bits (buf_bit tdi) 0 ?m (replicate 4 0)"
  from prime_scan_board [OF assms(1,2)] obtain b1 where
    1: "prime_scan ?L b = Some (True, b1)" "ila_ready P other Ds b1" "user_selected Ds b1" "ila_of b1 = settled P b"
    "be_pending b1 = be_pending b" by blast
  have a: "on_board P other Ds b1" "be_pending b1 < 32" using 1(2) by (simp_all add: ila_ready_def mirror_ok_def)
  obtain raw t where r: "raw_frame ?L ?data b1 = Some (True, raw, b1\<lparr>be_chain := (be_chain b1)\<lparr>jc_tap := t\<rparr>\<rparr>)"
    "framed P (be_pending b1) (data_word ?m tdi) b1 t" "\<And>i. i < 32 \<Longrightarrow> buf_bit raw i = bit (capture_data P (ila_of b1)) i"
    using raw_frame_board [OF a(1) 1(3) a(2), of ?data] unfolding data_word_copy [OF min.cobounded2] by blast
  note af = after_frame [OF a(1) 1(3) r(2)]
  let ?b = "b1\<lparr>be_chain := (be_chain b1)\<lparr>jc_tap := t\<rparr>, be_stored := be_pending b1\<rparr>"
  let ?tdo = "or_bits (buf_bit raw) 0 ?m (replicate (bytes_for n) 0)"
  have "bytes_for ?m \<le> length tdi" using bytes_for_mono [of ?m n] assms(3) by simp
  then have "bscane_shift_dr ?L n tdi b = Some (True, ?tdo, ?b)" using 1(1) r(1) by (simp add: bscane_shift_dr_def Let_def)
  moreover have "buf_bit ?tdo i = bit (capture_data P (settled P b)) i" if i: "i < ?m" for i
  proof -
    have "i div 8 < bytes_for n" using i by (intro bytes_for_bound) simp
    then show ?thesis using r(3) [of i] i 1(4) by (simp add: buf_bit_or_bits)
  qed
  ultimately show ?thesis using af 1(4,5) a(2) by (simp add: ila_ready_def mirror_ok_def)
qed

section \<open>Many frames\<close>

text \<open>The chips when only the analyser moves, and what the register holds then.\<close>

definition with_regs :: "ila_regs chip list \<Rightarrow> nat \<Rightarrow> ila_regs \<Rightarrow> ila_regs chip list" where
  "with_regs cs k r = cs[k := (fst (cs ! k), r)]"

lemma with_regs_simps:
  assumes "k < length cs"
  shows "with_regs cs k r ! k = (fst (cs ! k), r)" and "with_regs (with_regs cs k r) k r' = with_regs cs k r'"
    and "others_bypassed Ds k (with_regs cs k r) = others_bypassed Ds k cs" and "with_regs cs k (snd (cs ! k)) = cs"
  using assms by (auto simp: with_regs_def others_bypassed_def)

lemma frame_on_chips:
  assumes "on_board P other Ds b" and "user_selected Ds b" and "op < 32"
  defines "k \<equiv> nat (be_index b)"
  shows "bd_capture_dr (devices_board Ds) (with_regs (ila_cs b) k r) =
           around k (length Ds - 1 - k) (frame_bits (ir_stored r) (capture_data P r))"
    and "bd_update_dr (devices_board Ds) (with_regs (ila_cs b) k r) (around k (length Ds - 1 - k) (frame_bits op v)) =
           with_regs (ila_cs b) k (ila_update P op v r)"
proof -
  have k: "k < length (ila_cs b)" using on_board_index(1) [OF assms(1)] assms(1) by (simp add: on_board_def k_def)
  note w = with_regs_simps [OF k]
  have ob: "others_bypassed Ds k (with_regs (ila_cs b) k r)" using assms(2) by (simp add: w user_selected_def flip: k_def)
  have D: "dv_capture (Ds ! k) (fst (ila_cs b ! k)) r = frame_bits (ir_stored r) (capture_data P r)"
    "dv_update (Ds ! k) (fst (ila_cs b ! k)) r bs = ila_update P (frame_op bs) (frame_data bs) r" for bs
    using assms(1,2) by (simp_all add: on_board_def user_selected_def ila_device_def ir_length_of_target_def k_def)
  show "bd_capture_dr (devices_board Ds) (with_regs (ila_cs b) k r) =
      around k (length Ds - 1 - k) (frame_bits (ir_stored r) (capture_data P r))"
    using bypassed_register [OF ob] by (simp add: w D around_def)
  have "length (frame_bits op v) = length (dv_capture (Ds ! k) (fst (with_regs (ila_cs b) k r ! k)) (snd (with_regs (ila_cs b) k r ! k)))"
    by (simp add: w D)
  from bypassed_update [OF ob this, of False False]
  show "bd_update_dr (devices_board Ds) (with_regs (ila_cs b) k r) (around k (length Ds - 1 - k) (frame_bits op v)) =
      with_regs (ila_cs b) k (ila_update P op v r)"
    using k by (simp add: w D around_def frame_fields [OF assms(3)]) (simp add: with_regs_def)
qed

lemma frames_on_chips:
  fixes v :: u32
  assumes "on_board P other Ds b" and "user_selected Ds b" and "op < 32"
  defines "k \<equiv> nat (be_index b)" and "bs \<equiv> around (nat (be_index b)) (length Ds - 1 - nat (be_index b)) (frame_bits op v)"
  shows "scans (devices_board Ds) m bs (with_regs (ila_cs b) k r) =
           (map (\<lambda>j. around k (length Ds - 1 - k)
                       (frame_bits (ir_stored ((ila_update P op v ^^ j) r)) (capture_data P ((ila_update P op v ^^ j) r)))) [0..<m],
            with_regs (ila_cs b) k ((ila_update P op v ^^ m) r))"
proof (induction m arbitrary: r)
  case (Suc m)
  note f = frame_on_chips [OF assms(1-3), folded k_def]
  let ?around = "\<lambda>x y. around k (length Ds - 1 - k) (frame_bits x y)"
  have len: "length bs = length (?around x y)" for x y by (simp add: bs_def k_def around_def)
  have up: "bd_update_dr (devices_board Ds) (with_regs (ila_cs b) k r) bs = with_regs (ila_cs b) k (ila_update P op v r)"
    unfolding bs_def k_def by (rule frame_on_chips(2) [OF assms(1-3)])
  have shift: "(ila_update P op v ^^ j) (ila_update P op v r) = (ila_update P op v ^^ Suc j) r" for j
    by (simp only: funpow_Suc_right o_apply)
  have upt: "[0..<Suc m] = 0 # map Suc [0..<m]" by (simp add: upt_conv_Cons map_Suc_upt)
  have "scans (devices_board Ds) (Suc m) bs (with_regs (ila_cs b) k r) =
      (case scans (devices_board Ds) m bs (with_regs (ila_cs b) k (ila_update P op v r)) of
         (out, cs) \<Rightarrow> (?around (ir_stored r) (capture_data P r) # out, cs))"
    by (simp only: scans.simps f(1) Let_def exchanged_full [OF len] up)
  also have "\<dots> = (map (\<lambda>j. ?around (ir_stored ((ila_update P op v ^^ j) r)) (capture_data P ((ila_update P op v ^^ j) r))) [0..<Suc m],
            with_regs (ila_cs b) k ((ila_update P op v ^^ Suc m) r))"
    unfolding Suc.IH upt shift by (simp add: comp_def)
  finally show ?case .
qed simp

lemma frames_scannable:
  fixes v :: u32
  assumes "on_board P other Ds b" and "user_selected Ds b" and "op < 32"
  defines "k \<equiv> nat (be_index b)" and "bs \<equiv> around (nat (be_index b)) (length Ds - 1 - nat (be_index b)) (frame_bits op v)"
  shows "scannable (devices_board Ds) bs (\<lambda>cs. \<exists>r. cs = with_regs (ila_cs b) k r)"
proof -
  note f = frame_on_chips [OF assms(1-3), folded k_def]
  have len: "length bs = length (around k (length Ds - 1 - k) (frame_bits x y))" for x y
    by (simp add: bs_def k_def around_def)
  have "around k (length Ds - 1 - k) (frame_bits x y) \<noteq> []" for x y by (simp add: around_def frame_bits_def)
  moreover have "bd_update_dr (devices_board Ds) (with_regs (ila_cs b) k r) bs = with_regs (ila_cs b) k (ila_update P op v r)" for r
    unfolding bs_def k_def by (rule frame_on_chips(2) [OF assms(1-3)])
  ultimately show ?thesis unfolding scannable_def by (metis f(1) exchanged_full(2) len)
qed

lemma batch_frame_bits:
  assumes "n \<le> 32" and "k + 37 + m = tot" and "op < 32"
  shows "buf_bits (or_bits (buf_bit tdi) (k + 5) n (or_bits (bit op) k 5 (replicate (bytes_for tot) 0))) tot =
           around k m (frame_bits op (data_word n tdi))"
proof (rule nth_equalityI)
  let ?f = "or_bits (buf_bit tdi) (k + 5) n (or_bits (bit op) k 5 (replicate (bytes_for tot) 0))"
  fix i assume "i < length (buf_bits ?f tot)"
  then have i: "i < tot" by simp
  then have fit: "i div 8 < bytes_for tot" by (rule bytes_for_bound)
  consider "i < k" | "k \<le> i" "i < k + 5" | "k + 5 \<le> i" "i < k + 37" | "k + 37 \<le> i" by linarith
  then show "buf_bits ?f tot ! i = around k m (frame_bits op (data_word n tdi)) ! i"
  proof cases
    case 3
    then obtain j where j: "i = k + (5 + j)" "j < 32" using le_Suc_ex [OF 3(1)] by (auto simp: add.assoc)
    then show ?thesis using i fit assms
      by (auto simp: buf_bit_or_bits around_def nth_append frame_bits_def data_word_def bit_word_of_bits)
  qed (use i fit assms in \<open>auto simp: buf_bit_or_bits around_def nth_append frame_bits_def data_word_def bit_word_of_bits\<close>)
qed (use assms(2) in \<open>simp add: around_def\<close>)

lemma buf_bit_concat:
  assumes "\<And>x. x \<in> set xs \<Longrightarrow> length x = n" and "j < length xs" and "i < 8 * n"
  shows "buf_bit (concat xs) (8 * (j * n) + i) = buf_bit (xs ! j) i"
proof -
  have "length (concat xs) = length xs * n" using assms(1) by (induction xs) auto
  moreover have "j * n + n \<le> length xs * n" using mult_le_mono1 [of "Suc j" "length xs" n] assms(2) by simp
  moreover have d: "(8 * (j * n) + i) div 8 = j * n + i div 8" "(8 * (j * n) + i) mod 8 = i mod 8" by simp_all
  moreover have "i div 8 < n" using assms(3) by (simp add: div_less_iff_less_mult mult.commute)
  moreover have "concat xs ! (j * n + i div 8) = xs ! j ! (i div 8)"
    using concat_equal_lengths [of xs n j "i div 8"] assms(1,2) calculation(5) by blast
  moreover have "length (xs ! j) = n" using assms(1,2) by simp
  ultimately show ?thesis by (simp add: buf_bit_def)
qed

lemma buf_bit_drop: "buf_bit (drop k xs) i = buf_bit xs (8 * k + i)"
  by (auto simp: buf_bit_def)

lemma bscane_batch_board:
  assumes "ila_ready P other Ds b" and "user_selected Ds b" and "0 < count" and "bytes_for n \<le> length tdi"
  defines "next \<equiv> ila_update P (be_pending b) (data_word (min n 32) tdi)"
  shows "\<exists>flat b'. bscane_shift_batch (board_link (devices_board Ds)) (int count) n tdi b = Some (True, flat, b') \<and>
           ila_ready P other Ds b' \<and> user_selected Ds b' \<and> be_pending b' = be_pending b \<and> be_stored b' = be_pending b \<and>
           ila_of b' = (next ^^ count) (settled P b) \<and> length flat = count * bytes_for n \<and>
           (\<forall>j < count. \<forall>i < min n 32. buf_bit flat (8 * (j * bytes_for n) + i) = bit (capture_data P ((next ^^ j) (settled P b))) i)"
proof -
  let ?L = "board_link (devices_board Ds)" and ?m = "min n 32" and ?k = "nat (be_index b)"
  let ?tot = "kFrameBits + length (jc_devices (be_chain b)) - 1" and ?rest = "length Ds - 1 - nat (be_index b)"
  have a: "on_board P other Ds b" "be_pending b < 32" using assms(1) by (simp_all add: ila_ready_def mirror_ok_def)
  note ix = on_board_index [OF a(1)]
  from prime_scan_board [OF assms(1,2)] obtain b1 where
    1: "prime_scan ?L b = Some (True, b1)" "ila_ready P other Ds b1" "user_selected Ds b1" "ila_of b1 = settled P b"
    "be_pending b1 = be_pending b" "be_index b1 = be_index b" by blast
  have a1: "on_board P other Ds b1" using 1(2) by (simp add: ila_ready_def)
  have op: "be_pending b < 32" by (rule a(2))
  have m: "bytes_for ?m \<le> length tdi" "?m \<le> 32" using bytes_for_mono [of ?m n] assms(4) by simp_all
  let ?f = "or_bits (buf_bit tdi) (?k + 5) ?m (or_bits (bit (be_pending b)) ?k 5 (replicate (bytes_for ?tot) 0))"
  let ?bs = "around ?k ?rest (frame_bits (be_pending b) (data_word ?m tdi))"
  have fr: "batch_frame ?m tdi ?tot b = Some ?f" by (rule batch_frame_fit [OF ix(3) m refl])
  have tot: "?k + 37 + ?rest = ?tot" "0 < ?tot" using ix(1,2) by (simp_all add: kFrameBits_def)
  have bits: "tdi_bits (Some ?f) ?tot = ?bs"
    using batch_frame_bits [OF m(2) tot(1) op, of tdi] by (simp add: ptr_bytes_def)
  have rd: "readable (Some ?f) ?tot" by (simp add: readable_def)
  have k1: "?k < length (ila_cs b1)" using ix(1) a1 by (simp add: on_board_def)
  have here: "ila_cs b1 = with_regs (ila_cs b1) ?k (settled P b)"
    using with_regs_simps(4) [OF k1] 1(4,6) by (simp add: ila_of_def)
  have idle: "board_idle (jc_tap (be_chain b1))" using a1 by (simp add: on_board_def)
  note sc = frames_scannable [OF a1 1(3) op, where v = "data_word ?m tdi", unfolded 1(6)]
  note fc = frames_on_chips [OF a1 1(3) op, where v = "data_word ?m tdi" and m = count and r = "settled P b", unfolded 1(6), folded next_def]
  have ex: "\<exists>r. ila_cs b1 = with_regs (ila_cs b1) ?k r" using here by blast
  from shift_dr_repeat_board [OF tot(2) rd, of "devices_board Ds", unfolded bits, OF sc idle ex, of count "[]"] obtain u t where
    u: "shift_dr_repeat ?L (int count) (int ?tot) (Some ?f) [] (jc_tap (be_chain b1)) = Some (True, u, t)" "board_idle t"
    "length u = count * bytes_for ?tot"
    "groups_are u ?tot 0 (fst (scans (devices_board Ds) count ?bs (with_regs (ila_cs b1) ?k (settled P b))))"
    "bo_hw (tap_dev t) = snd (scans (devices_board Ds) count ?bs (with_regs (ila_cs b1) ?k (settled P b)))"
    unfolding here [symmetric] by blast
  let ?b = "b1\<lparr>be_chain := (be_chain b1)\<lparr>jc_tap := t\<rparr>, be_stored := be_pending b1\<rparr>"
  have hw: "bo_hw (tap_dev t) = with_regs (ila_cs b1) ?k ((next ^^ count) (settled P b))" using u(5) unfolding fc by simp
  have ok: "on_board P other Ds ?b" "user_selected Ds ?b" "ila_of ?b = (next ^^ count) (settled P b)"
    using a1 1(3,6) u(2) hw k1 with_regs_simps [OF k1]
    by (auto simp: on_board_def user_selected_def ila_of_def bscane_ok_def valid_index_def short_chain_def ir_length_of_target_def with_regs_def)
  have fit: "?k + 5 + ?m \<le> 8 * bytes_for ?tot" using frame_room [OF ix(3)] m(2) by (simp add: kFrameBits_def)
  let ?flat = "concat (map (\<lambda>i. or_bits (\<lambda>j. buf_bit (drop (i * bytes_for ?tot) u) (?k + 5 + j)) 0 ?m (replicate (bytes_for n) 0)) [0..<count])"
  have ext: "batch_extract u count (bytes_for ?tot) (?k + 5) ?m (bytes_for n) = Some ?flat"
    by (rule batch_extract_fit [OF fit u(3) assms(3)])
  have "bscane_shift_batch ?L (int count) n tdi b = Some (True, ?flat, ?b)"
    using assms(3) fr 1(1,6) u(1) ext by (simp add: bscane_shift_batch_def Let_def)
  moreover have "ir_stored ((next ^^ count) r) = be_pending b" for r
    using assms(3) by (cases count) (simp_all add: next_def)
  moreover have "buf_bit ?flat (8 * (j * bytes_for n) + i) = bit (capture_data P ((next ^^ j) (settled P b))) i"
    if j: "j < count" and i: "i < ?m" for i j
  proof -
    let ?r = "(next ^^ j) (settled P b)"
    have "i div 8 < bytes_for n" using i by (intro bytes_for_bound) simp
    moreover have "i < 8 * bytes_for n" using i bytes_for_ge [of n] by linarith
    moreover define xs where
      "xs = map (\<lambda>i. or_bits (\<lambda>j. buf_bit (drop (i * bytes_for ?tot) u) (?k + 5 + j)) 0 ?m (replicate (bytes_for n) 0)) [0..<count]"
    moreover have "\<And>x. x \<in> set xs \<Longrightarrow> length x = bytes_for n" "length xs = count" by (auto simp: xs_def)
    moreover have "xs ! j = or_bits (\<lambda>i. buf_bit (drop (j * bytes_for ?tot) u) (?k + 5 + i)) 0 ?m (replicate (bytes_for n) 0)"
      using j by (simp add: xs_def)
    ultimately have "buf_bit (concat xs) (8 * (j * bytes_for n) + i) = buf_bit u (8 * (j * bytes_for ?tot) + (?k + 5 + i))"
      using buf_bit_concat [of xs "bytes_for n" j i] i j by (simp only: buf_bit_or_bits buf_bit_drop) simp
    then have "buf_bit ?flat (8 * (j * bytes_for n) + i) = buf_bit u (8 * (j * bytes_for ?tot) + (?k + 5 + i))"
      by (simp only: xs_def)
    also have "\<dots> = around ?k ?rest (frame_bits (ir_stored ?r) (capture_data P ?r)) ! (?k + 5 + i)"
    proof -
      have "?k + 5 + i < ?tot" using i tot(1) by simp
      then show ?thesis using u(4) j unfolding fc groups_are_def by (simp del: upt_Suc)
    qed
    also have "\<dots> = bit (capture_data P ?r) i" using i by (simp add: around_def nth_append frame_bits_def)
    finally show ?thesis .
  qed
  ultimately show ?thesis using ok 1(5) op length_batch_extract [OF ext]
    by (simp add: ila_ready_def mirror_ok_def)
qed

end
