(* ===== verification/Ila_Session.thy ===== *)
theory Ila_Session
  imports Ila_Readout
begin

text \<open>
  \<open>IlaDriver\<close> against the registers of the analyser.  The locale \<open>ila_session\<close> is what the driver gets from a
  backend that reaches the registers of \<open>Ila_Hw\<close>: \<open>holds r b\<close> says that the registers are \<open>r\<close>, and \<open>serves op r b\<close>
  that the next access reads and writes register \<open>op\<close> of \<open>r\<close>.  The interpretation is the backend over BSCANE2 on a
  board, down to the pulses of TCK.
\<close>

unbundle bit_operations_syntax

section \<open>Registers\<close>

text \<open>The opcodes for which a write of zeros before the write that counts leaves no trace.\<close>

definition quiet :: "u32 \<Rightarrow> bool" where
  "quiet op \<longleftrightarrow> op < 32 \<and> op \<noteq> kIrSigDef \<and> op \<noteq> kIrCtrl \<and> op \<noteq> kIrReadData"

lemma ila_update_stored [simp]: "ir_stored (ila_update P op w r) = op"
  by (simp add: ila_update_def write_reg_def)

lemma quiet_sig_idx: "quiet op \<Longrightarrow> next_sig P op (ila_update P op 0 r) = next_sig P op r"
  by (simp add: quiet_def ila_opcodes next_sig_def) (simp add: ila_update_def next_sig_def write_reg_def)

lemma quiet_write:
  "quiet op \<Longrightarrow> write_reg P op w ((write_reg P op 0 s)\<lparr>ir_sig_idx := i, ir_stored := op\<rparr>) = write_reg P op w (s\<lparr>ir_sig_idx := i, ir_stored := op\<rparr>)"
  by (simp add: quiet_def ila_opcodes write_reg_def)

lemma quiet_update: "quiet op \<Longrightarrow> ila_update P op w (ila_update P op 0 r) = ila_update P op w r"
  unfolding ila_update_def [of P op w] quiet_sig_idx by (simp add: ila_update_def quiet_write)

definition apply_writes :: "ila_params \<Rightarrow> (u32 \<times> nat \<times> u32) list \<Rightarrow> ila_regs \<Rightarrow> ila_regs" where
  "apply_writes P ws r = fold (\<lambda>(op, n, v). ila_update P op (take_bit n v)) ws r"

lemma pack_bits_data: "n \<le> 32 \<Longrightarrow> data_word (min n 32) (or_bits (bit (v :: u32)) 0 n (replicate (bytes_for n) 0)) = take_bit n v"
proof (rule bit_word_eqI)
  fix i assume "n \<le> 32" "i < LENGTH(32)"
  then show "bit (data_word (min n 32) (or_bits (bit v) 0 n (replicate (bytes_for n) 0))) i = bit (take_bit n v) i"
    using bytes_for_bound [of i n] by (auto simp: data_word_def bit_word_of_bits buf_bit_or_bits bit_take_bit_iff)
qed

lemma unpack_bits_data:
  assumes "length tdo = bytes_for n" and "n \<le> 32" and "\<And>i. i < min n 32 \<Longrightarrow> buf_bit tdo i = bit w i"
  shows "unpack_bits tdo n = Some (take_bit n w)"
proof -
  have "word_of_bits (\<lambda>i. i < n \<and> buf_bit tdo i) 32 = take_bit n w"
    using assms(2,3) by (intro bit_word_eqI) (auto simp: bit_word_of_bits bit_take_bit_iff)
  then show ?thesis using assms(1,2) by (auto simp: unpack_bits_def list_ex_iff)
qed

text \<open>The capabilities that belong to the parameters of the core.\<close>

definition caps_match :: "ila_params \<Rightarrow> ila_caps \<Rightarrow> bool" where
  "caps_match P c \<longleftrightarrow>
     0 < ip_addr_w P \<and> ip_addr_w P \<le> 20 \<and> ca_version c = 3 \<and> ca_data_w c = 32 \<and> unat (ca_addr_w c) = ip_addr_w P \<and>
     unat (ca_depth c) = ila_depth P"

lemma caps_widths: "caps_match P (dr_caps d) \<Longrightarrow> 0 < addr_width d \<and> addr_width d \<le> 32 \<and> data_width d = 32"
  by (simp add: caps_match_def)

lemma caps_address:
  assumes "caps_match P (dr_caps d)" and "a < ca_depth (dr_caps d)"
  shows "take_bit (addr_width d) a = a" and "unat a mod ila_depth P = unat a"
proof -
  have "unat a < 2 ^ addr_width d" "unat a < ila_depth P"
    using assms by (simp_all add: caps_match_def word_less_nat_alt ila_depth_def)
  then show "take_bit (addr_width d) a = a" "unat a mod ila_depth P = unat a"
    by (simp_all add: word_unat_eq_iff unsigned_take_bit_eq take_bit_nat_eq_self)
qed

lemma take_bit_all [simp]: "take_bit 32 (w :: u32) = w"
  by (rule take_bit_word_eq_self) simp

definition untouched :: "ila_regs \<Rightarrow> ila_regs \<Rightarrow> bool" where
  "untouched r r' \<longleftrightarrow> (\<exists>i op. r' = r\<lparr>ir_sig_idx := i, ir_stored := op\<rparr>)"

lemma untouched_iff:
  "untouched r r' \<longleftrightarrow>
     ir_mask r' = ir_mask r \<and> ir_value r' = ir_value r \<and> ir_rise r' = ir_rise r \<and> ir_fall r' = ir_fall r \<and>
     ir_mask2 r' = ir_mask2 r \<and> ir_val2 r' = ir_val2 r \<and> ir_or_mode r' = ir_or_mode r \<and> ir_pre r' = ir_pre r \<and>
     ir_rd_addr r' = ir_rd_addr r \<and> ir_ctrl r' = ir_ctrl r \<and> ir_status r' = ir_status r \<and> ir_mem r' = ir_mem r"
  by (cases r; cases r') (auto simp: untouched_def)

lemma untouched_trans: "untouched r s \<Longrightarrow> untouched s u \<Longrightarrow> untouched r u"
  unfolding untouched_def by (elim exE) (simp, blast)

text \<open>The word CONFIG, field by field.\<close>

lemma bit_nibble: "bit (x AND 0xF :: u32) i \<longleftrightarrow> i < 4 \<and> bit x i" "bit (x AND 0xFF :: u32) i \<longleftrightarrow> i < 8 \<and> bit x i"
  "bit (x AND 0x3F :: u32) i \<longleftrightarrow> i < 6 \<and> bit x i"
proof -
  have "(0xF :: u32) = mask 4" "(0xFF :: u32) = mask 8" "(0x3F :: u32) = mask 6" by (simp_all add: mask_eq_exp_minus_1)
  then show "bit (x AND 0xF :: u32) i \<longleftrightarrow> i < 4 \<and> bit x i" "bit (x AND 0xFF :: u32) i \<longleftrightarrow> i < 8 \<and> bit x i"
    "bit (x AND 0x3F :: u32) i \<longleftrightarrow> i < 6 \<and> bit x i"
    by (simp_all only: take_bit_eq_mask [symmetric] bit_take_bit_iff)
qed

lemma bit_small: "bit (3 :: u32) i \<longleftrightarrow> i < 2" "bit (31 :: u32) i \<longleftrightarrow> i < 5"
proof -
  have "(3 :: u32) = mask 2" "(31 :: u32) = mask 5" by (simp_all add: mask_eq_exp_minus_1)
  then show "bit (3 :: u32) i \<longleftrightarrow> i < 2" "bit (31 :: u32) i \<longleftrightarrow> i < 5" by (simp_all only: bit_mask_iff) auto
qed

lemma bit_field:
  "bit (push_bit 24 3 :: u32) i \<longleftrightarrow> 24 \<le> i \<and> i < 26" "bit (push_bit 10 31 :: u32) i \<longleftrightarrow> 10 \<le> i \<and> i < 15"
  "k \<le> 28 \<Longrightarrow> bit (push_bit k (x AND 0xF) :: u32) i \<longleftrightarrow> k \<le> i \<and> i < k + 4 \<and> bit x (i - k)"
  by (simp_all only: bit_push_bit_iff bit_small bit_nibble) auto

lemma bit_config:
  "bit (config_val P) i \<longleftrightarrow> 24 \<le> i \<and> i < 26 \<or> 20 \<le> i \<and> i < 20 + 4 \<and> bit (of_nat (ip_num_ch P) :: u32) (i - 20) \<or>
     16 \<le> i \<and> i < 16 + 4 \<and> bit (of_nat (length (ip_sigs P)) :: u32) (i - 16) \<or> 10 \<le> i \<and> i < 15 \<or>
     i < 8 \<and> bit (of_nat (ip_addr_w P) :: u32) i"
proof -
  have "(20 :: nat) \<le> 28" "(16 :: nat) \<le> 28" by simp_all
  then show ?thesis by (simp only: config_val_def bit_or_iff bit_field bit_nibble)
qed

lemma config_fields:
  "drop_bit 24 (config_val P) AND 0xFF = 3" "(drop_bit 10 (config_val P) AND 0x3F) + 1 = 32"
  "drop_bit 20 (config_val P) AND 0x0F = of_nat (ip_num_ch P) AND 0xF"
  "drop_bit 16 (config_val P) AND 0x0F = of_nat (length (ip_sigs P)) AND 0xF"
  "config_val P AND 0xFF = of_nat (ip_addr_w P) AND 0xFF"
proof -
  have "drop_bit 10 (config_val P) AND 0x3F = 31"
    by (rule bit_word_eqI) (simp only: bit_drop_bit_eq bit_nibble bit_config bit_small o_apply; auto)
  then show "(drop_bit 10 (config_val P) AND 0x3F) + 1 = 32" by simp
qed (rule bit_word_eqI; simp only: bit_drop_bit_eq bit_nibble bit_config bit_small o_apply; auto)+

lemma unat_field: "m < 2 ^ k \<Longrightarrow> k \<le> 8 \<Longrightarrow> unat (ucast (take_bit k (of_nat m :: u32)) :: byte) = m"
proof -
  assume a: "m < 2 ^ k" "k \<le> 8"
  have "(2 :: nat) ^ k \<le> 2 ^ 8" using a(2) by (intro power_increasing) simp_all
  with a(1) have m: "m < 256" by simp
  then have "unat (of_nat m :: u32) = m" by (simp add: unat_of_nat)
  with a m show ?thesis by (simp add: unsigned_ucast_eq unsigned_take_bit_eq take_bit_nat_eq_self)
qed

lemma decode_config:
  assumes "0 < ip_addr_w P" and "ip_addr_w P \<le> 20"
  shows "caps_match P (decode_caps (config_val P))" and "ca_probed (decode_caps (config_val P))"
    and "length (ip_sigs P) < 16 \<Longrightarrow> unat (ca_sig_count (decode_caps (config_val P))) = length (ip_sigs P)"
    and "ip_num_ch P < 16 \<Longrightarrow> unat (ca_num_ch (decode_caps (config_val P))) = ip_num_ch P"
proof -
  have F: "(0xF :: u32) = mask 4" "(0xFF :: u32) = mask 8" by (simp_all add: mask_eq_exp_minus_1)
  have mk: "of_nat m AND (0xF :: u32) = take_bit 4 (of_nat m)" "of_nat m AND (0xFF :: u32) = take_bit 8 (of_nat m)" for m
    by (simp_all only: F take_bit_eq_mask)
  have aw: "unat (ucast (of_nat (ip_addr_w P) AND (0xFF :: u32)) :: byte) = ip_addr_w P"
    unfolding mk using assms by (intro unat_field) simp_all
  have "(2 :: nat) ^ ip_addr_w P \<le> 2 ^ 20" using assms(2) by (intro power_increasing) simp_all
  then have dep: "unat (push_bit (ip_addr_w P) 1 :: u32) = 2 ^ ip_addr_w P"
    using assms(2) by (simp only: unsigned_push_bit_eq) (simp add: take_bit_nat_eq_self push_bit_eq_mult)
  have nz: "ucast (of_nat (ip_addr_w P) AND (0xFF :: u32)) \<noteq> (0 :: byte)" "\<not> 20 < (ucast (of_nat (ip_addr_w P) AND (0xFF :: u32)) :: byte)"
    using aw assms by (auto simp: word_less_nat_alt)
  show "caps_match P (decode_caps (config_val P))"
    using assms nz aw dep by (simp add: caps_match_def decode_caps_def Let_def config_fields ila_depth_def)
  show "ca_probed (decode_caps (config_val P))" by (simp add: decode_caps_def Let_def config_fields)
  show "length (ip_sigs P) < 16 \<Longrightarrow> unat (ca_sig_count (decode_caps (config_val P))) = length (ip_sigs P)"
    "ip_num_ch P < 16 \<Longrightarrow> unat (ca_num_ch (decode_caps (config_val P))) = ip_num_ch P"
    using unat_field [of "length (ip_sigs P)" 4] unat_field [of "ip_num_ch P" 4]
    by (simp_all add: decode_caps_def Let_def config_fields mk)
qed

text \<open>An entry of the signal table.\<close>

fun signal_of :: "byte \<times> byte \<times> byte \<Rightarrow> ila_signal" where
  "signal_of (hi, lo, fmt) = \<lparr>is_hi = hi, is_lo = lo, is_fmt = fmt AND 0xF, is_name_idx = 0xFF\<rparr>"

lemma decode_sig_word: "decode_signal (sig_word P i) = signal_of (ip_sigs P ! i)"
proof -
  obtain hi lo fmt where s: "ip_sigs P ! i = (hi, lo, fmt)" by (cases "ip_sigs P ! i")
  have F: "(0xFF :: u32) = mask 8" "(0xF :: u32) = mask 4" "(0xFF :: byte) = mask 8" "(0xF :: byte) = mask 4"
    by (simp_all add: mask_eq_exp_minus_1)
  note bits = bit_or_iff bit_push_bit_iff bit_ucast_iff bit_and_iff bit_drop_bit_eq bit_mask_iff o_apply
  let ?w = "push_bit 28 (ucast fmt AND mask 4) OR push_bit 16 (ucast hi) OR push_bit 8 (ucast lo) OR mask 8 :: u32"
  have "(ucast (drop_bit 16 ?w AND mask 8) :: byte) = hi" "(ucast (drop_bit 8 ?w AND mask 8) :: byte) = lo"
    "(ucast (drop_bit 28 ?w AND mask 4) :: byte) = fmt AND mask 4" "(ucast (?w AND mask 8) :: byte) = mask 8"
    by (rule bit_word_eqI; simp only: bits; auto dest: bit_imp_le_length)+
  then show ?thesis by (simp add: decode_signal_def sig_word_def s F)
qed

text \<open>What the writes of \<open>configureTrigger\<close> add up to.\<close>

definition trigger_set ::
  "u32 \<Rightarrow> u32 \<Rightarrow> u32 \<Rightarrow> u32 \<Rightarrow> u32 \<Rightarrow> u32 \<Rightarrow> bool \<Rightarrow> nat \<Rightarrow> ila_regs \<Rightarrow> ila_regs" where
  "trigger_set msk value rise fall mask2 val2 or_mode pre r =
     r\<lparr>ir_mask := msk, ir_value := value, ir_rise := rise, ir_fall := fall, ir_mask2 := mask2, ir_val2 := val2,
       ir_or_mode := or_mode, ir_pre := pre\<rparr>"

lemma reg_writes:
  "ila_update P kIrTrigMask v r = r\<lparr>ir_sig_idx := next_sig P kIrTrigMask r, ir_stored := kIrTrigMask, ir_mask := v\<rparr>"
  "ila_update P kIrTrigVal v r = r\<lparr>ir_sig_idx := next_sig P kIrTrigVal r, ir_stored := kIrTrigVal, ir_value := v\<rparr>"
  "ila_update P kIrPreSamples v r = r\<lparr>ir_sig_idx := next_sig P kIrPreSamples r, ir_stored := kIrPreSamples, ir_pre := unat v mod ila_depth P\<rparr>"
  "ila_update P kIrTrigRise v r = r\<lparr>ir_sig_idx := next_sig P kIrTrigRise r, ir_stored := kIrTrigRise, ir_rise := v\<rparr>"
  "ila_update P kIrTrigFall v r = r\<lparr>ir_sig_idx := next_sig P kIrTrigFall r, ir_stored := kIrTrigFall, ir_fall := v\<rparr>"
  "ila_update P kIrTrigMask2 v r = r\<lparr>ir_sig_idx := next_sig P kIrTrigMask2 r, ir_stored := kIrTrigMask2, ir_mask2 := v\<rparr>"
  "ila_update P kIrTrigVal2 v r = r\<lparr>ir_sig_idx := next_sig P kIrTrigVal2 r, ir_stored := kIrTrigVal2, ir_val2 := v\<rparr>"
  "ila_update P kIrTrigCtrl v r = r\<lparr>ir_sig_idx := next_sig P kIrTrigCtrl r, ir_stored := kIrTrigCtrl, ir_or_mode := bit v 0\<rparr>"
  by (simp_all add: ila_update_def write_reg_def ila_opcodes)

lemma trigger_writes_set:
  assumes "caps_match P (dr_caps d)" and "ucast pre < ca_depth (dr_caps d)"
  shows "untouched (trigger_set msk value rise fall mask2 val2 or_mode (unat pre) r)
           (apply_writes P (trigger_writes d msk value rise fall mask2 val2 or_mode pre) r)"
proof -
  have v: "ca_version (dr_caps d) = 3" "data_width d = 32" using assms(1) by (simp_all add: caps_match_def)
  have u: "unat (ucast pre :: u32) = unat pre" by (simp add: unsigned_ucast_eq take_bit_nat_eq_self less_trans [OF unsigned_less])
  have pre: "take_bit (addr_width d) (ucast pre :: u32) = ucast pre" "unat pre mod ila_depth P = unat pre"
    using caps_address [OF assms] by (simp_all add: u)
  have "bit (take_bit 32 (if or_mode then 1 else 0 :: u32)) 0 = or_mode" by simp
  then show ?thesis
    by (simp add: apply_writes_def trigger_writes_def v reg_writes pre u trigger_set_def untouched_iff)
qed

section \<open>A session\<close>

locale ila_session = ila_tap T good for T :: "'b ila_tap_ops" and good :: "'b \<Rightarrow> bool" +
  fixes P :: ila_params and holds :: "ila_regs \<Rightarrow> 'b \<Rightarrow> bool" and serves :: "u32 \<Rightarrow> ila_regs \<Rightarrow> 'b \<Rightarrow> bool"
  assumes select_serves: "holds r b \<Longrightarrow> op < 32 \<Longrightarrow>
      \<exists>b' r'. it_select T op b = Some (True, b') \<and> serves op r' b' \<and> (r' = ila_update P op 0 r \<or> r' = r \<and> ir_stored r = op)"
    and shift_serves: "serves op r b \<Longrightarrow> 0 < n \<Longrightarrow> bytes_for n \<le> length tdi \<Longrightarrow>
      \<exists>tdo b'. it_shift T n tdi b = Some (True, tdo, b') \<and> length tdo = bytes_for n \<and>
        (\<forall>i < min n 32. buf_bit tdo i = bit (capture_data P r) i) \<and>
        serves op (ila_update P op (data_word (min n 32) tdi) r) b' \<and> holds (ila_update P op (data_word (min n 32) tdi) r) b'"
    and batch_serves: "serves op r b \<Longrightarrow> 0 < count \<Longrightarrow> 0 < n \<Longrightarrow> bytes_for n \<le> length tdi \<Longrightarrow>
      \<exists>flat b'. it_batch T (int count) n tdi b = Some (True, flat, b') \<and> length flat = count * bytes_for n \<and>
        (\<forall>j < count. \<forall>i < min n 32. buf_bit flat (8 * (j * bytes_for n) + i) =
           bit (capture_data P ((ila_update P op (data_word (min n 32) tdi) ^^ j) r)) i) \<and>
        holds ((ila_update P op (data_word (min n 32) tdi) ^^ count) r) b'"
begin

lemma drv_select_serves:
  assumes "holds r (dr_backend d)" and "op < 32"
  shows "\<exists>d' r'. drv_select T op d = Some (True, d') \<and> dr_caps d' = dr_caps d \<and> serves op r' (dr_backend d') \<and>
           (r' = ila_update P op 0 r \<or> r' = r \<and> ir_stored r = op)"
  using select_serves [OF assms] by (auto simp: drv_select_def)

lemma shift_dr_int_serves:
  assumes "serves op r (dr_backend d)" and "0 < n" and "n \<le> 32"
  shows "\<exists>d'. shift_dr_int T n v d = Some (Some (take_bit n (capture_data P r)), d') \<and> dr_caps d' = dr_caps d \<and>
           serves op (ila_update P op (take_bit n v) r) (dr_backend d') \<and> holds (ila_update P op (take_bit n v) r) (dr_backend d')"
proof -
  let ?tdi = "or_bits (bit v) 0 n (replicate (bytes_for n) 0)"
  obtain tdo b' where s: "it_shift T n ?tdi (dr_backend d) = Some (True, tdo, b')" "length tdo = bytes_for n"
    "\<And>i. i < min n 32 \<Longrightarrow> buf_bit tdo i = bit (capture_data P r) i"
    "serves op (ila_update P op (take_bit n v) r) b'" "holds (ila_update P op (take_bit n v) r) b'"
    using shift_serves [OF assms(1,2), of ?tdi] by (auto simp: pack_bits_data [OF assms(3)])
  with unpack_bits_data [OF s(2) assms(3) s(3)] assms(3) show ?thesis by (simp add: shift_dr_int_def pack_bits_def)
qed

lemma access_serves:
  assumes "holds r (dr_backend d)" and "op < 32" and "0 < n" and "n \<le> 32"
  shows "\<exists>d' r1. access_reg T op n v d = Some (Some (take_bit n (capture_data P r1)), d') \<and> dr_caps d' = dr_caps d \<and>
           (r1 = ila_update P op 0 r \<or> r1 = r \<and> ir_stored r = op) \<and> holds (ila_update P op (take_bit n v) r1) (dr_backend d')"
proof -
  obtain d1 r1 where 1: "drv_select T op d = Some (True, d1)" "dr_caps d1 = dr_caps d" "serves op r1 (dr_backend d1)"
    "r1 = ila_update P op 0 r \<or> r1 = r \<and> ir_stored r = op"
    using drv_select_serves [OF assms(1,2)] by blast
  with shift_dr_int_serves [OF 1(3) assms(3,4), of v] show ?thesis by (auto simp: access_reg_def)
qed

lemma write_serves:
  assumes "holds r (dr_backend d)" and "quiet op" and "0 < n" and "n \<le> 32"
  shows "\<exists>x d'. access_reg T op n v d = Some (Some x, d') \<and> dr_caps d' = dr_caps d \<and>
           holds (ila_update P op (take_bit n v) r) (dr_backend d')"
proof -
  have "op < 32" using assms(2) by (simp add: quiet_def)
  from access_serves [OF assms(1) this assms(3,4), of v] show ?thesis by (auto simp: quiet_update [OF assms(2)])
qed

lemma write_regs_serves:
  "holds r (dr_backend d) \<Longrightarrow> list_all (\<lambda>(op, n, v). quiet op \<and> 0 < n \<and> n \<le> 32) ws \<Longrightarrow>
     \<exists>d'. write_regs T ws d = Some (True, d') \<and> dr_caps d' = dr_caps d \<and> holds (apply_writes P ws r) (dr_backend d')"
proof (induction ws arbitrary: d r)
  case Nil
  then show ?case by (simp add: apply_writes_def)
next
  case (Cons w ws)
  obtain op n v where w: "w = (op, n, v)" by (cases w)
  obtain x d1 where 1: "access_reg T op n v d = Some (Some x, d1)" "dr_caps d1 = dr_caps d"
    "holds (ila_update P op (take_bit n v) r) (dr_backend d1)"
    using write_serves [OF Cons.prems(1), of op n v] Cons.prems(2) w by auto
  with Cons.IH [OF 1(3)] Cons.prems(2) show ?case by (auto simp: w apply_writes_def)
qed

lemma ctrl_serves:
  assumes "holds r (dr_backend d)" and "v < 16"
  shows "\<exists>d' r'. ctrl_pulse T v d = Some (True, d') \<and> dr_caps d' = dr_caps d \<and> holds r' (dr_backend d') \<and>
           (ir_ctrl r' = ir_ctrl r @ [v] \<or> ir_ctrl r' = ir_ctrl r @ [0, v])"
proof -
  have "unat v < 2 ^ 4" using assms(2) by (simp add: word_less_nat_alt)
  then have m: "take_bit 4 v = v" by (simp add: word_unat_eq_iff unsigned_take_bit_eq take_bit_nat_eq_self)
  have "v AND 0xF = take_bit 4 v" by (simp add: take_bit_eq_mask mask_eq_exp_minus_1)
  then have a: "v AND 0xF = v" by (simp add: m)
  have "kIrCtrl < 32" by (simp add: kIrCtrl_def)
  from access_serves [OF assms(1) this, of 4 v] m obtain d' r1 x where
    "access_reg T kIrCtrl 4 v d = Some (Some x, d')" "dr_caps d' = dr_caps d"
    "r1 = ila_update P kIrCtrl 0 r \<or> r1 = r \<and> ir_stored r = kIrCtrl" "holds (ila_update P kIrCtrl v r1) (dr_backend d')" by auto
  moreover from this(3) have "ir_ctrl (ila_update P kIrCtrl v r1) = ir_ctrl r @ [v] \<or> ir_ctrl (ila_update P kIrCtrl v r1) = ir_ctrl r @ [0, v]"
    by (auto simp: ila_update_def write_reg_def kIrCtrl_def a)
  ultimately show ?thesis by (auto simp: ctrl_pulse_def)
qed

lemma set_read_addr_serves:
  assumes "holds r (dr_backend d)" and "caps_match P (dr_caps d)" and "a < ca_depth (dr_caps d)" and "a = ucast addr"
  shows "\<exists>d'. set_read_addr T addr d = Some (True, d') \<and> dr_caps d' = dr_caps d \<and>
           holds (ila_update P kIrReadAddr a r) (dr_backend d')"
proof -
  have q: "quiet kIrReadAddr" by (simp add: quiet_def ila_opcodes)
  have w: "0 < addr_width d" "addr_width d \<le> 32" using caps_widths [OF assms(2)] by simp_all
  have "take_bit (addr_width d) a = a" by (rule caps_address(1) [OF assms(2,3)])
  with write_serves [OF assms(1) q w, of a] assms(3,4) show ?thesis by (auto simp: set_read_addr_def not_le)
qed

text \<open>The address that a scan of READ_DATA leaves, and the samples that come back.\<close>

lemma read_data_steps:
  "ir_rd_addr ((ila_update P kIrReadData v ^^ j) r) = (if j = 0 then ir_rd_addr r else (ir_rd_addr r + j) mod ila_depth P)"
  "ir_mem ((ila_update P kIrReadData v ^^ j) r) = ir_mem r"
  by (induction j) (simp_all add: ila_update_def write_reg_def kIrReadData_def mod_Suc_eq)

lemma read_samples_serves:
  assumes "holds r (dr_backend d)" and "ir_stored r \<noteq> kIrReadData" and "data_width d = 32" and "0 < count" and "unat count < 2 ^ 24"
  shows "\<exists>d'. read_samples_n T count d =
           Some (Some (map (\<lambda>j. ir_mem r ((ir_rd_addr r + 1 + j) mod ila_depth P)) [0..<unat count]), d') \<and> dr_caps d' = dr_caps d \<and>
           holds ((ila_update P kIrReadData 0 ^^ (unat count + 1)) r) (dr_backend d')"
proof -
  let ?n = "unat count" and ?up = "ila_update P kIrReadData 0"
  have "kIrReadData < 32" by (simp add: kIrReadData_def)
  from drv_select_serves [OF assms(1) this] assms(2) obtain d1 where
    1: "drv_select T kIrReadData d = Some (True, d1)" "dr_caps d1 = dr_caps d" "serves kIrReadData (?up r) (dr_backend d1)" by blast
  have z: "data_word (min 32 32) (replicate 4 0) = 0" by (simp add: data_word_0)
  have B: "bytes_for 32 = 4" by (simp add: bytes_for_def)
  have n: "0 < ?n" using assms(4) by (simp add: unat_gt_0 word_gt_0)
  from batch_serves [OF 1(3) n, of 32 "replicate 4 0"] obtain flat b where
    2: "it_batch T (int ?n) 32 (replicate 4 0) (dr_backend d1) = Some (True, flat, b)" "length flat = ?n * 4"
    "\<And>j i. j < ?n \<Longrightarrow> i < 32 \<Longrightarrow> buf_bit flat (8 * (j * 4) + i) = bit (capture_data P ((?up ^^ j) (?up r))) i"
    "holds ((?up ^^ ?n) (?up r)) b"
    unfolding z by (auto simp: B)
  have c: "sint count = int ?n" using assms(5) by (intro sint_small) simp
  have "word_of_bits (\<lambda>i. i < 32 \<and> buf_bit flat (8 * (j * 4) + i)) 32 = ir_mem r ((ir_rd_addr r + 1 + j) mod ila_depth P)" if j: "j < ?n" for j
  proof -
    have s: "(?up ^^ j) (?up r) = (?up ^^ (Suc j)) r" by (simp only: funpow_Suc_right o_apply)
    have "ir_stored ((?up ^^ Suc j) r) = kIrReadData" by simp
    then have "capture_data P ((?up ^^ Suc j) r) = ir_mem r ((ir_rd_addr r + Suc j) mod ila_depth P)"
      by (simp only: capture_data_def kIrReadData_def read_data_steps [unfolded kIrReadData_def]) simp
    then show ?thesis using 2(3) [OF j] by (intro bit_word_eqI) (simp add: bit_word_of_bits s)
  qed
  moreover have "?n * 4 < 2 ^ 32" using assms(5) by simp
  ultimately have "sample_slices flat (bytes_for 32) 32 [0..<?n] = Some (map (\<lambda>j. ir_mem r ((ir_rd_addr r + 1 + j) mod ila_depth P)) [0..<?n])"
    using sample_slices_defined [of ?n 32 flat "[0..<?n]"] 2(2) by (simp add: B)
  with 1 2(1) c assms(3) have "read_samples_n T count d =
      Some (Some (map (\<lambda>j. ir_mem r ((ir_rd_addr r + 1 + j) mod ila_depth P)) [0..<?n]), d1\<lparr>dr_backend := b\<rparr>)"
    by (simp add: read_samples_n_def)
  moreover have "(?up ^^ ?n) (?up r) = (?up ^^ (?n + 1)) r" by (simp only: Suc_eq_plus1 [symmetric] funpow_Suc_right o_apply)
  ultimately show ?thesis using 2(4) 1(2) by simp
qed

text \<open>The capabilities and the signal definitions.\<close>

lemma read_only_serves:
  assumes "holds r (dr_backend d)" and "op < 32" and "\<And>s. ir_stored s = op \<Longrightarrow> capture_data P s = w" and "\<And>s. write_reg P op 0 s = s"
  shows "\<exists>d' r'. access_reg T op 32 0 d = Some (Some w, d') \<and> dr_caps d' = dr_caps d \<and> holds r' (dr_backend d') \<and> untouched r r' \<and> ir_stored r' = op"
proof -
  obtain d' r1 where a: "access_reg T op 32 0 d = Some (Some (take_bit 32 (capture_data P r1)), d')" "dr_caps d' = dr_caps d"
    "r1 = ila_update P op 0 r \<or> r1 = r \<and> ir_stored r = op" "holds (ila_update P op 0 r1) (dr_backend d')"
    using access_serves [OF assms(1,2), of 32 0] by (simp only: take_bit_of_0) auto
  have up: "ila_update P op 0 s = s\<lparr>ir_sig_idx := next_sig P op s, ir_stored := op\<rparr>" for s
    by (simp add: ila_update_def assms(4))
  have "capture_data P r1 = w" using a(3) assms(3) by auto
  moreover have "untouched r (ila_update P op 0 r1)" using a(3) by (elim disjE conjE) (simp_all add: up untouched_def, blast+)
  ultimately show ?thesis using a(1,2,4) by auto
qed

lemma signal_loop_serves:
  "serves kIrSigDef r (dr_backend d) \<Longrightarrow> 0 < length (ip_sigs P) \<Longrightarrow> ir_stored r = kIrSigDef \<Longrightarrow> ir_sig_idx r + n \<le> length (ip_sigs P) \<Longrightarrow>
     \<exists>d'. signal_loop T n d = Some (Some (map (\<lambda>j. decode_signal (sig_word P (ir_sig_idx r + j))) [0..<n]), d')"
proof (induction n arbitrary: d r)
  case (Suc n)
  let ?r = "ila_update P kIrSigDef 0 r"
  have cap: "capture_data P r = sig_word P (ir_sig_idx r)" using Suc.prems(3) by (simp add: capture_data_def kIrSigDef_def)
  obtain d1 where 1: "shift_dr_int T 32 0 d = Some (Some (sig_word P (ir_sig_idx r)), d1)" "serves kIrSigDef ?r (dr_backend d1)"
    using shift_dr_int_serves [OF Suc.prems(1), of 32 0] by (auto simp: cap)
  show ?case
  proof (cases n)
    case 0
    with 1(1) show ?thesis by simp
  next
    case (Suc m)
    then have "ir_sig_idx ?r = ir_sig_idx r + 1" using Suc.prems(3,4)
      by (simp add: ila_update_def next_sig_def write_reg_def kIrSigDef_def)
    moreover from this have "ir_sig_idx ?r + n \<le> length (ip_sigs P)" using Suc.prems(4) by simp
    from Suc.IH [OF 1(2) Suc.prems(2) _ this] obtain d2 where
      "signal_loop T n d1 = Some (Some (map (\<lambda>j. decode_signal (sig_word P (ir_sig_idx ?r + j))) [0..<n]), d2)" by auto
    moreover have "map f [0..<Suc n] = f 0 # map (\<lambda>j. f (Suc j)) [0..<n]" for f :: "nat \<Rightarrow> ila_signal"
      by (simp add: upt_conv_Cons map_Suc_upt [symmetric] comp_def del: upt_Suc)
    ultimately show ?thesis using 1(1) by (simp del: upt_Suc)
  qed
qed simp

lemma probe_serves:
  assumes "holds r (dr_backend d)" and "0 < ip_addr_w P" and "ip_addr_w P \<le> 20"
  shows "\<exists>d' r'. probe T d = Some (Some (dr_caps d'), d') \<and> dr_caps d' = (decode_caps (config_val P))\<lparr>ca_idcode := ip_idcode P\<rparr> \<and>
           holds r' (dr_backend d') \<and> untouched r r' \<and> ir_stored r' = kIrIdcode"
proof -
  have id: "kIrIdcode < 32" "\<And>s. ir_stored s = kIrIdcode \<Longrightarrow> capture_data P s = ip_idcode P" "\<And>s. write_reg P kIrIdcode 0 s = s"
    by (simp_all add: kIrIdcode_def capture_data_def write_reg_def)
  have cf: "kIrConfig < 32" "\<And>s. ir_stored s = kIrConfig \<Longrightarrow> capture_data P s = config_val P" "\<And>s. write_reg P kIrConfig 0 s = s"
    by (simp_all add: kIrConfig_def capture_data_def write_reg_def)
  obtain d1 r1 where 1: "access_reg T kIrIdcode 32 0 d = Some (Some (ip_idcode P), d1)" "holds r1 (dr_backend d1)" "untouched r r1"
    using read_only_serves [OF assms(1) id] by auto
  obtain d2 r2 where 2: "access_reg T kIrConfig 32 0 d1 = Some (Some (config_val P), d2)" "holds r2 (dr_backend d2)" "untouched r1 r2"
    using read_only_serves [OF 1(2) cf] by auto
  obtain d3 r3 where 3: "access_reg T kIrIdcode 32 0 d2 = Some (Some (ip_idcode P), d3)" "holds r3 (dr_backend d3)" "untouched r2 r3" "ir_stored r3 = kIrIdcode"
    using read_only_serves [OF 2(2) id] by auto
  have "probe T d = Some (Some ((decode_caps (config_val P))\<lparr>ca_idcode := ip_idcode P\<rparr>),
      d3\<lparr>dr_caps := (decode_caps (config_val P))\<lparr>ca_idcode := ip_idcode P\<rparr>\<rparr>)"
    using 1(1) 2(1) 3(1) using decode_config(2) [OF assms(2,3)] by (simp add: probe_def read_idcode_def Let_def)
  moreover have "untouched r r3" using 1(3) 2(3) 3(3) untouched_trans by blast
  ultimately show ?thesis using 3(2,4)
    by (intro exI [of _ "d3\<lparr>dr_caps := (decode_caps (config_val P))\<lparr>ca_idcode := ip_idcode P\<rparr>\<rparr>"] exI [of _ r3]) simp
qed

lemma read_signal_defs_serves:
  assumes "holds r (dr_backend d)" and "ir_stored r \<noteq> kIrSigDef" and "0 < unat (ca_sig_count (dr_caps d))"
    and "unat (ca_sig_count (dr_caps d)) \<le> length (ip_sigs P)"
  shows "\<exists>d'. read_signal_defs T d = Some (Some (map signal_of (take (unat (ca_sig_count (dr_caps d))) (ip_sigs P))), d')"
proof -
  let ?n = "unat (ca_sig_count (dr_caps d))" and ?r = "ila_update P kIrSigDef 0 r"
  have "kIrSigDef < 32" by (simp add: kIrSigDef_def)
  from drv_select_serves [OF assms(1) this] assms(2) obtain d1 where
    1: "drv_select T kIrSigDef d = Some (True, d1)" "dr_caps d1 = dr_caps d" "serves kIrSigDef ?r (dr_backend d1)" by blast
  have "ir_sig_idx ?r = 0" using assms(2) by (simp add: ila_update_def write_reg_def next_sig_def kIrSigDef_def)
  moreover have "ip_sigs P \<noteq> []" using assms(3,4) by auto
  ultimately obtain d2 where
    "signal_loop T ?n d1 = Some (Some (map (\<lambda>j. decode_signal (sig_word P j)) [0..<?n]), d2)"
    using signal_loop_serves [OF 1(3), of ?n] assms(4) by auto
  moreover have "map (\<lambda>j. decode_signal (sig_word P j)) [0..<?n] = map signal_of (take ?n (ip_sigs P))"
    using assms(4) by (intro nth_equalityI) (simp_all add: decode_sig_word)
  moreover have "ca_sig_count (dr_caps d) \<noteq> 0" using assms(3) by auto
  ultimately show ?thesis using 1(1,2) by (simp add: read_signal_defs_def)
qed

lemma configure_serves:
  assumes "holds r (dr_backend d)" and "caps_match P (dr_caps d)" and "ucast pre < ca_depth (dr_caps d)"
  shows "\<exists>d' r'. configure_trigger T msk value rise fall mask2 val2 or_mode pre d = Some (True, d') \<and> dr_caps d' = dr_caps d \<and>
           holds r' (dr_backend d') \<and> untouched (trigger_set msk value rise fall mask2 val2 or_mode (unat pre) r) r'"
proof -
  have v: "ca_version (dr_caps d) = 3" using assms(2) by (simp add: caps_match_def)
  note w = caps_widths [OF assms(2)]
  let ?ws = "trigger_writes d msk value rise fall mask2 val2 or_mode pre"
  have "list_all (\<lambda>(op, n, v). quiet op \<and> 0 < n \<and> n \<le> 32) ?ws"
    using w by (simp add: trigger_writes_def v quiet_def ila_opcodes)
  from write_regs_serves [OF assms(1) this] obtain d' where
    1: "write_regs T ?ws d = Some (True, d')" "dr_caps d' = dr_caps d" "holds (apply_writes P ?ws r) (dr_backend d')" by blast
  have "configure_trigger T msk value rise fall mask2 val2 or_mode pre d = Some (True, d')"
    using assms(3) 1(1) by (simp add: configure_trigger_def v not_le)
  moreover have "untouched (trigger_set msk value rise fall mask2 val2 or_mode (unat pre) r) (apply_writes P ?ws r)"
    by (rule trigger_writes_set [OF assms(2,3)])
  ultimately show ?thesis using 1(2,3) by blast
qed

end

end
