(* ===== verification/Ila_Props.thy ===== *)
theory Ila_Props
  imports Ila_Session
begin

text \<open>
  The sessions of \<open>Ila_Session\<close> over \<open>BscaneIlaTapBackend\<close> on a board with the analyser, and the properties of the
  driver: what the registers, the samples and the capabilities are that the host sees through MPSSE commands, the
  TAP controller, the chain and the backend.
\<close>

unbundle bit_operations_syntax

section \<open>The backend over BSCANE2 is a session\<close>

definition board_holds ::
  "ila_params \<Rightarrow> (bool list \<Rightarrow> bool list) \<Rightarrow> ila_regs device_ops list \<Rightarrow> ila_regs \<Rightarrow> ila_regs chip list board bscane \<Rightarrow> bool" where
  "board_holds P other Ds r b \<longleftrightarrow> ila_ready P other Ds b \<and> ila_of b = r"

definition board_serves ::
  "ila_params \<Rightarrow> (bool list \<Rightarrow> bool list) \<Rightarrow> ila_regs device_ops list \<Rightarrow> u32 \<Rightarrow> ila_regs \<Rightarrow> ila_regs chip list board bscane \<Rightarrow> bool" where
  "board_serves P other Ds op r b \<longleftrightarrow>
     ila_ready P other Ds b \<and> user_selected Ds b \<and> be_pending b = op \<and> settled P b = r"

abbreviation board_ila :: "ila_regs device_ops list \<Rightarrow> ila_regs chip list board bscane ila_tap_ops" where
  "board_ila Ds \<equiv> bscane_ops (board_link (devices_board Ds))"

interpretation ila_board: ila_session "board_ila Ds" bscane_ok P "board_holds P other Ds" "board_serves P other Ds"
  for P other Ds
proof unfold_locales
  fix r b op
  assume h: "board_holds P other Ds r b" "op < (32 :: u32)"
  then obtain b' where b': "bscane_select_ir (board_link (devices_board Ds)) op b = Some (True, b')" "ila_ready P other Ds b'"
    "user_selected Ds b'" "be_pending b' = op" "be_stored b' = be_stored b" "ila_of b' = r"
    using bscane_select_board [of P other Ds b op] by (auto simp: board_holds_def)
  have "settled P b' = ila_update P op 0 r \<or> settled P b' = r \<and> ir_stored r = op"
    using b'(2,4,6) h(2) by (auto simp: settled_def ila_ready_def mirror_ok_def)
  with b' show "\<exists>b' r'. it_select (board_ila Ds) op b = Some (True, b') \<and> board_serves P other Ds op r' b' \<and>
      (r' = ila_update P op 0 r \<or> r' = r \<and> ir_stored r = op)"
    by (auto simp: bscane_ops_def board_serves_def)
next
  fix op r b n and tdi :: "byte list"
  assume h: "board_serves P other Ds op r b" "0 < n" "bytes_for n \<le> length tdi"
  with bscane_shift_board [of P other Ds b n tdi]
  show "\<exists>tdo b'. it_shift (board_ila Ds) n tdi b = Some (True, tdo, b') \<and> length tdo = bytes_for n \<and>
      (\<forall>i < min n 32. buf_bit tdo i = bit (capture_data P r) i) \<and>
      board_serves P other Ds op (ila_update P op (data_word (min n 32) tdi) r) b' \<and>
      board_holds P other Ds (ila_update P op (data_word (min n 32) tdi) r) b'"
    by (fastforce simp: bscane_ops_def board_serves_def board_holds_def settled_def)
next
  fix op r b n and count :: nat and tdi :: "byte list"
  assume h: "board_serves P other Ds op r b" "0 < count" "0 < n" "bytes_for n \<le> length tdi"
  with bscane_batch_board [of P other Ds b count n tdi]
  show "\<exists>flat b'. it_batch (board_ila Ds) (int count) n tdi b = Some (True, flat, b') \<and> length flat = count * bytes_for n \<and>
      (\<forall>j < count. \<forall>i < min n 32. buf_bit flat (8 * (j * bytes_for n) + i) =
         bit (capture_data P ((ila_update P op (data_word (min n 32) tdi) ^^ j) r)) i) \<and>
      board_holds P other Ds ((ila_update P op (data_word (min n 32) tdi) ^^ count) r) b'"
    by (fastforce simp: bscane_ops_def board_serves_def board_holds_def)
qed

section \<open>A board\<close>

text \<open>A device with nothing but BYPASS at TDO, and an FPGA with the analyser in USER1 behind it.\<close>

definition plain_device :: "'u device_ops" where
  "plain_device =
     \<lparr>dv_reset = (\<lambda>u. u), dv_reset_ir = replicate 4 True, dv_capture_ir = [True, False, False, False],
      dv_capture = (\<lambda>_ _. [False]), dv_update = (\<lambda>_ u _. u)\<rparr>"

definition demo_params :: ila_params where
  "demo_params = \<lparr>ip_addr_w = 2, ip_num_ch = 1, ip_idcode = 0x494C4131, ip_sigs = [(7, 0, 1), (8, 8, 0)]\<rparr>"

definition demo_regs :: ila_regs where
  "demo_regs =
     \<lparr>ir_stored = 1, ir_sig_idx = 0, ir_mask = 0, ir_value = 0, ir_rise = 0, ir_fall = 0, ir_mask2 = 0, ir_val2 = 0,
      ir_or_mode = False, ir_pre = 1, ir_rd_addr = 0, ir_ctrl = [], ir_status = 4, ir_mem = (\<lambda>a. of_nat (10 * a))\<rparr>"

definition demo_devices :: "ila_regs device_ops list" where
  "demo_devices = [plain_device, ila_device demo_params 6 0x02 (\<lambda>_. [])]"

definition demo_backend :: "ila_regs chip list board bscane" where
  "demo_backend =
     new_bscane
       \<lparr>jc_tap = \<lparr>tap_st = RUN_TEST_IDLE, tap_error = [],
          tap_dev = \<lparr>bo_state = RUN_TEST_IDLE, bo_level = False, bo_reg = [],
                     bo_hw = [(replicate 4 True, demo_regs), (replicate 6 True, demo_regs)]\<rparr>\<rparr>,
        jc_devices = [new_device 0 0 4, new_device 1 0 6], jc_error = []\<rparr> 1 1"

definition demo_driver :: "ila_regs chip list board bscane ila_driver" where
  "demo_driver = (new_ila_driver demo_backend)\<lparr>dr_caps := (decode_caps (config_val demo_params))\<lparr>ca_idcode := 0x494C4131\<rparr>\<rparr>"

lemma demo_ready: "ila_ready demo_params (\<lambda>_. []) demo_devices demo_backend" "ila_of demo_backend = demo_regs"
proof -
  have "has_bypass plain_device" by (simp add: has_bypass_def plain_device_def)
  moreover have "j = 0" if "j < 2" "j \<noteq> 1" for j :: nat using that by simp
  ultimately show "ila_ready demo_params (\<lambda>_. []) demo_devices demo_backend"
    by (auto simp: ila_ready_def on_board_def mirror_ok_def bscane_ok_def valid_index_def short_chain_def board_idle_def matches_def
        demo_backend_def demo_devices_def new_bscane_def new_device_def kUserOpcodes_def plain_device_def ila_device_def less_Suc_eq)
  show "ila_of demo_backend = demo_regs" by (simp add: ila_of_def demo_backend_def new_bscane_def)
qed

lemma demo_caps: "caps_match demo_params (dr_caps demo_driver)" "dr_backend demo_driver = demo_backend"
  using decode_config(1) [of demo_params] by (simp_all add: demo_driver_def new_ila_driver_def caps_match_def demo_params_def)

section \<open>Properties\<close>

text \<open>C26: On a board where device \<open>be_index\<close> is the FPGA with the analyser and the other devices have BYPASS,
  \<open>configureTrigger\<close> with a \<open>pre_samples\<close> below the depth succeeds, and the registers of the analyser are afterwards
  the ones asked for: mask, value, edges, the second comparator, its mode and the pre-trigger count; every other
  register is as before.  This goes through the backend, which scans twice when the hardware still has another
  opcode, the chain with its BYPASS bits, the TAP controller and the MPSSE commands.\<close>

theorem trigger_reaches_registers:
  assumes "ila_ready P other Ds (dr_backend d)" and "caps_match P (dr_caps d)" and "ucast pre < ca_depth (dr_caps d)"
  shows "\<exists>d'. configure_trigger (board_ila Ds) msk value rise fall mask2 val2 or_mode pre d = Some (True, d') \<and>
           ila_ready P other Ds (dr_backend d') \<and>
           untouched (trigger_set msk value rise fall mask2 val2 or_mode (unat pre) (ila_of (dr_backend d))) (ila_of (dr_backend d'))"
proof -
  have "board_holds P other Ds (ila_of (dr_backend d)) (dr_backend d)" using assms(1) by (simp add: board_holds_def)
  from ila_board.configure_serves [OF this assms(2,3)] show ?thesis unfolding board_holds_def by blast
qed

theorem trigger_reaches_registers_witness:
  "\<exists>d'. configure_trigger (board_ila demo_devices) 0xFF 0x5A 1 2 0xF0 0x30 True 3 demo_driver = Some (True, d') \<and>
     ila_ready demo_params (\<lambda>_. []) demo_devices (dr_backend d') \<and>
     untouched (trigger_set 0xFF 0x5A 1 2 0xF0 0x30 True (unat (3 :: u16)) (ila_of (dr_backend demo_driver))) (ila_of (dr_backend d'))"
proof (rule trigger_reaches_registers)
  show "ila_ready demo_params (\<lambda>_. []) demo_devices (dr_backend demo_driver)" by (simp add: demo_caps demo_ready)
  show "caps_match demo_params (dr_caps demo_driver)" by (rule demo_caps)
  then show "ucast (3 :: u16) < ca_depth (dr_caps demo_driver)"
    by (simp add: caps_match_def word_less_nat_alt ila_depth_def demo_params_def)
qed

text \<open>\<open>readSamples\<close> after \<open>setReadAddr(a)\<close> returns the memory of the analyser rotated by \<open>a + 1\<close>, one word for each
  address: the scan with which the backend announces READ_DATA already moves the address on.  With \<open>a\<close> the last
  address the samples come in the order of the addresses, which is what the GUI and the daemon ask for; with \<open>a = 0\<close>
  the first one comes last.\<close>

theorem samples_are_memory:
  assumes "ila_ready P other Ds (dr_backend d)" and "caps_match P (dr_caps d)" and "unat addr < ila_depth P"
  shows "\<exists>d1 d2. set_read_addr (board_ila Ds) addr d = Some (True, d1) \<and>
           read_samples (board_ila Ds) d1 =
             Some (Some (rotate (unat addr + 1) (map (ir_mem (ila_of (dr_backend d))) [0..<ila_depth P])), d2)"
proof -
  let ?r = "ila_of (dr_backend d)" and ?a = "ucast addr :: u32" and ?D = "ila_depth P"
  have u: "unat ?a = unat addr" by (simp add: unsigned_ucast_eq take_bit_nat_eq_self less_trans [OF unsigned_less])
  have depth: "unat (ca_depth (dr_caps d)) = ?D" using assms(2) by (simp add: caps_match_def)
  have a: "?a < ca_depth (dr_caps d)" using assms(3) by (simp add: word_less_nat_alt u depth)
  have "board_holds P other Ds ?r (dr_backend d)" using assms(1) by (simp add: board_holds_def)
  from ila_board.set_read_addr_serves [OF this assms(2) a refl] obtain d1 where
    1: "set_read_addr (board_ila Ds) addr d = Some (True, d1)" "dr_caps d1 = dr_caps d"
    "board_holds P other Ds (ila_update P kIrReadAddr ?a ?r) (dr_backend d1)" by blast
  have st: "ir_stored (ila_update P kIrReadAddr ?a ?r) \<noteq> kIrReadData" by (simp add: ila_opcodes)
  have regs: "ir_mem (ila_update P kIrReadAddr ?a ?r) = ir_mem ?r" "ir_rd_addr (ila_update P kIrReadAddr ?a ?r) = unat addr"
    using assms(3) by (simp_all add: ila_update_def write_reg_def kIrReadAddr_def u)
  have w: "data_width d1 = 32" using caps_widths [OF assms(2)] 1(2) by simp
  have c: "0 < ca_depth (dr_caps d1)" "unat (ca_depth (dr_caps d1)) < 2 ^ 24"
  proof -
    have "(2 :: nat) ^ ip_addr_w P \<le> 2 ^ 20" using assms(2) by (intro power_increasing) (simp_all add: caps_match_def)
    then show "unat (ca_depth (dr_caps d1)) < 2 ^ 24" by (simp add: 1(2) depth ila_depth_def)
    show "0 < ca_depth (dr_caps d1)" using a by (simp add: 1(2) word_less_nat_alt)
  qed
  from ila_board.read_samples_serves [OF 1(3) st w c] obtain d2 where
    2: "read_samples_n (board_ila Ds) (ca_depth (dr_caps d1)) d1 =
      Some (Some (map (\<lambda>j. ir_mem ?r ((unat addr + 1 + j) mod ?D)) [0..<?D]), d2)"
    unfolding regs by (auto simp: 1(2) depth)
  have "map (\<lambda>j. ir_mem ?r ((unat addr + 1 + j) mod ?D)) [0..<?D] = rotate (unat addr + 1) (map (ir_mem ?r) [0..<?D])"
    by (intro nth_equalityI) (simp_all add: nth_rotate add.commute del: rotate_Suc)
  with 1(1) 2 show ?thesis by (simp add: read_samples_def)
qed

theorem samples_are_memory_witness:
  "\<exists>d1 d2. set_read_addr (board_ila demo_devices) 3 demo_driver = Some (True, d1) \<and>
     read_samples (board_ila demo_devices) d1 = Some (Some [0, 10, 20, 30], d2)"
proof -
  have u: "unat (3 :: u16) = 3" by simp
  have "\<exists>d1 d2. set_read_addr (board_ila demo_devices) 3 demo_driver = Some (True, d1) \<and>
      read_samples (board_ila demo_devices) d1 =
        Some (Some (rotate (unat (3 :: u16) + 1) (map (ir_mem (ila_of (dr_backend demo_driver))) [0..<ila_depth demo_params])), d2)"
    by (rule samples_are_memory [of demo_params "\<lambda>_. []"])
      (simp_all add: demo_caps demo_ready u, simp add: ila_depth_def demo_params_def)
  moreover have "map (ir_mem (ila_of (dr_backend demo_driver))) [0..<ila_depth demo_params] = [0, 10, 20, 30]"
    by (simp add: demo_caps demo_ready demo_regs_def ila_depth_def demo_params_def upt_rec)
  moreover have "rotate (unat (3 :: u16) + 1) [0, 10, 20, 30 :: u32] = [0, 10, 20, 30]" by (rule rotate_id) (simp add: u)
  ultimately show ?thesis by simp
qed

text \<open>\<open>probe\<close> finds what the core was built with: version 3, 32 data bits, the address width, the depth, the number
  of channels and of signal definitions and the IDCODE; \<open>readSignalDefs\<close> then returns the table of signals, entry for
  entry, and none of the registers of the trigger has moved.\<close>

theorem probe_finds_core:
  assumes "ila_ready P other Ds (dr_backend d)" and "0 < ip_addr_w P" and "ip_addr_w P \<le> 20" and "ip_num_ch P < 16"
    and "0 < length (ip_sigs P)" and "length (ip_sigs P) < 16"
  shows "\<exists>d1 d2. probe (board_ila Ds) d = Some (Some (dr_caps d1), d1) \<and> caps_match P (dr_caps d1) \<and>
           ca_idcode (dr_caps d1) = ip_idcode P \<and> unat (ca_num_ch (dr_caps d1)) = ip_num_ch P \<and>
           read_signal_defs (board_ila Ds) d1 = Some (Some (map signal_of (ip_sigs P)), d2) \<and>
           untouched (ila_of (dr_backend d)) (ila_of (dr_backend d1))"
proof -
  have h: "board_holds P other Ds (ila_of (dr_backend d)) (dr_backend d)" using assms(1) by (simp add: board_holds_def)
  note dc = decode_config [OF assms(2,3)]
  from ila_board.probe_serves [OF h assms(2,3)] obtain d1 r1 where
    1: "probe (board_ila Ds) d = Some (Some (dr_caps d1), d1)" "dr_caps d1 = (decode_caps (config_val P))\<lparr>ca_idcode := ip_idcode P\<rparr>"
    "board_holds P other Ds r1 (dr_backend d1)" "untouched (ila_of (dr_backend d)) r1" "ir_stored r1 = kIrIdcode" by blast
  then have st: "ir_stored r1 \<noteq> kIrSigDef" by (simp add: ila_opcodes)
  have n: "unat (ca_sig_count (dr_caps d1)) = length (ip_sigs P)" using dc(3) [OF assms(6)] by (simp add: 1(2))
  then have "0 < unat (ca_sig_count (dr_caps d1))" "unat (ca_sig_count (dr_caps d1)) \<le> length (ip_sigs P)" using assms(5) by simp_all
  from ila_board.read_signal_defs_serves [OF 1(3) st this] obtain d2 where
    "read_signal_defs (board_ila Ds) d1 = Some (Some (map signal_of (ip_sigs P)), d2)" by (auto simp: n)
  moreover have "caps_match P (dr_caps d1)" "unat (ca_num_ch (dr_caps d1)) = ip_num_ch P"
    using dc(1) dc(4) [OF assms(4)] by (simp_all add: 1(2) caps_match_def)
  ultimately show ?thesis using 1 by (auto simp: board_holds_def)
qed

theorem probe_finds_core_witness:
  "\<exists>d1 d2. probe (board_ila demo_devices) demo_driver = Some (Some (dr_caps d1), d1) \<and> caps_match demo_params (dr_caps d1) \<and>
     ca_idcode (dr_caps d1) = ip_idcode demo_params \<and> unat (ca_num_ch (dr_caps d1)) = ip_num_ch demo_params \<and>
     read_signal_defs (board_ila demo_devices) d1 = Some (Some (map signal_of (ip_sigs demo_params)), d2) \<and>
     untouched (ila_of (dr_backend demo_driver)) (ila_of (dr_backend d1))"
  by (rule probe_finds_core [of demo_params "\<lambda>_. []"]) (simp_all add: demo_caps demo_ready, simp_all add: demo_params_def)

end
