(* ===== verification/Cxx_Search.thy ===== *)
theory Cxx_Search
  imports Cxx_Strings
begin

text \<open>
  \<open>std::string::find\<close>, \<open>rfind\<close>, \<open>compare\<close> and \<open>substr\<close> at a position, and \<open>std::stoul\<close> with a 64-bit
  \<open>unsigned long\<close>; \<open>None\<close> is \<open>npos\<close>, and for \<open>stoul\<close> an exception.
\<close>

definition has_prefix :: "string \<Rightarrow> string \<Rightarrow> bool" where
  "has_prefix pat s \<longleftrightarrow> take (length pat) s = pat"

fun first_at :: "string \<Rightarrow> string \<Rightarrow> nat option" where
  "first_at pat [] = (if pat = [] then Some 0 else None)"
| "first_at pat (c # s) = (if has_prefix pat (c # s) then Some 0 else map_option Suc (first_at pat s))"

definition find_from :: "string \<Rightarrow> string \<Rightarrow> nat \<Rightarrow> nat option" where
  "find_from pat s pos = (if length s < pos then None else map_option ((+) pos) (first_at pat (drop pos s)))"

definition substr :: "string \<Rightarrow> nat \<Rightarrow> nat \<Rightarrow> string" where
  "substr s pos n = take n (drop pos s)"

text \<open>The last position, not after \<open>pos\<close>, at which a character stands.\<close>

definition rfind_char :: "char \<Rightarrow> string \<Rightarrow> nat \<Rightarrow> nat option" where
  "rfind_char c s pos =
     (case filter (\<lambda>i. i < length s \<and> s ! i = c) [0..<Suc pos] of [] \<Rightarrow> None | is \<Rightarrow> Some (last is))"

definition stoul :: "string \<Rightarrow> nat option" where
  "stoul s0 =
     (let s1 = dropWhile is_space s0;
          (neg, s2) = (case s1 of c # r \<Rightarrow> if c = CHR ''-'' then (True, r) else if c = CHR ''+'' then (False, r)
                                            else (False, s1) | [] \<Rightarrow> (False, []));
          ds = takeWhile is_digit s2; v = dec_value ds
      in if ds = [] \<or> 2 ^ 64 \<le> v then None else Some (if neg then (2 ^ 64 - v) mod 2 ^ 64 else v))"

lemma has_prefix_append [simp]: "has_prefix p (p @ s)"
  by (simp add: has_prefix_def)

lemma has_prefix_hd: "has_prefix (c # p) (d # s) \<longleftrightarrow> c = d \<and> has_prefix p s"
  by (auto simp: has_prefix_def)

lemma first_at_skip: "\<forall>c \<in> set a. c \<noteq> x \<Longrightarrow> first_at (x # p) (a @ (x # p) @ s) = Some (length a)"
proof (induction a)
  case Nil
  then show ?case by (simp add: has_prefix_def)
next
  case (Cons c a)
  then show ?case by (auto simp: has_prefix_hd)
qed

lemma first_at_none: "\<forall>c \<in> set a. c \<noteq> x \<Longrightarrow> first_at (x # p) a = None"
  by (induction a) (auto simp: has_prefix_hd)

lemma first_at_bound: "first_at p s = Some i \<Longrightarrow> i \<le> length s - length p \<and> length p \<le> length s \<and> take (length p) (drop i s) = p"
proof (induction s arbitrary: i)
  case (Cons c s)
  show ?case
  proof (cases "has_prefix p (c # s)")
    case True
    then have "length p \<le> length (c # s)" by (metis has_prefix_def length_take min.cobounded1)
    with True Cons.prems show ?thesis by (auto simp: has_prefix_def)
  next
    case False
    then obtain j where "first_at p s = Some j" "i = Suc j" using Cons.prems by auto
    with Cons.IH [OF this(1)] show ?thesis by auto
  qed
qed (simp split: if_splits)

lemma find_from_bound: "find_from p s pos = Some i \<Longrightarrow> pos \<le> i \<and> i + length p \<le> length s \<and> take (length p) (drop i s) = p"
  using first_at_bound [of p "drop pos s"] by (auto simp: find_from_def add.commute split: if_splits)

lemma stoul_digits:
  assumes "s \<noteq> []" and "list_all is_digit s" and "dec_value s < 2 ^ 64"
  shows "stoul s = Some (dec_value s)"
proof -
  obtain c r where s: "s = c # r" using assms(1) by (cases s) auto
  then have "is_digit c" using assms(2) by simp
  moreover have tw: "takeWhile is_digit r = r" using assms(2) by (simp add: list_all_iff s)
  ultimately show ?thesis using assms(3) digit_not_space digit_not_sign
    by (simp add: stoul_def s Let_def tw)
qed

end
