(* ===== verification/Json_Rpc.thy ===== *)
theory Json_Rpc
  imports Complex_Main Cxx_Search
begin

text \<open>
  src/src/mcp/json_rpc.{h,cpp} and the reader loops of src/src/mcp/mcp_transport.cpp: the requests and responses of
  JSON-RPC 2.0, the framing by \<open>Content-Length\<close>, and the loop that turns the bytes of a stream, in whatever pieces
  they come, into messages.  The JSON library is not in the repository: its \<open>dump\<close> and \<open>parse\<close> are parameters
  (\<open>None\<close> is the exception of \<open>parse\<close>), and a value is a \<open>json\<close>, an object its members in the order of the keys.
\<close>

section \<open>Values\<close>

datatype json =
    JNull
  | JBool bool
  | JInt int
  | JReal rat
  | JString string
  | JArray "json list"
  | JObject "(string \<times> json) list"

definition is_object :: "json \<Rightarrow> bool" where
  "is_object j = (case j of JObject _ \<Rightarrow> True | _ \<Rightarrow> False)"

definition is_string :: "json \<Rightarrow> bool" where
  "is_string j = (case j of JString _ \<Rightarrow> True | _ \<Rightarrow> False)"

definition member_of :: "json \<Rightarrow> string \<Rightarrow> json option" where
  "member_of j k = (case j of JObject ms \<Rightarrow> map_of ms k | _ \<Rightarrow> None)"

section \<open>Requests and responses\<close>

record rpc_request =
  rq_id :: json
  rq_method :: string
  rq_params :: json

definition is_notification :: "rpc_request \<Rightarrow> bool" where
  "is_notification r \<longleftrightarrow> rq_id r = JNull"

definition parse_request :: "json \<Rightarrow> string + rpc_request" where
  "parse_request j =
     (if \<not> is_object j then Inl ''request is not an object''
      else if member_of j ''jsonrpc'' \<noteq> Some (JString ''2.0'') then Inl ''missing or invalid jsonrpc field''
      else case member_of j ''method'' of
             Some (JString m) \<Rightarrow>
               Inr \<lparr>rq_id = (case member_of j ''id'' of None \<Rightarrow> JNull | Some i \<Rightarrow> i), rq_method = m,
                    rq_params = (case member_of j ''params'' of None \<Rightarrow> JNull | Some p \<Rightarrow> p)\<rparr>
           | _ \<Rightarrow> Inl ''missing or non-string method'')"

definition make_result :: "json \<Rightarrow> json \<Rightarrow> json" where
  "make_result rid result = JObject [(''id'', rid), (''jsonrpc'', JString ''2.0''), (''result'', result)]"

definition make_error :: "json \<Rightarrow> int \<Rightarrow> string \<Rightarrow> json \<Rightarrow> json" where
  "make_error rid code message data =
     JObject [(''error'', JObject ([(''code'', JInt code)] @ (if data = JNull then [] else [(''data'', data)]) @ [(''message'', JString message)])),
              (''id'', rid), (''jsonrpc'', JString ''2.0'')]"

definition kParseError :: int where "kParseError = -32700"
definition kInvalidRequest :: int where "kInvalidRequest = -32600"
definition kMethodNotFound :: int where "kMethodNotFound = -32601"
definition kInvalidParams :: int where "kInvalidParams = -32602"
definition kInternalError :: int where "kInternalError = -32603"

section \<open>Frames\<close>

definition k_header :: string where
  "k_header = ''Content-Length: ''"

definition crlf2 :: string where
  "crlf2 = [CHR 0x0D, CHR 0x0A, CHR 0x0D, CHR 0x0A]"

definition frame_message :: "(json \<Rightarrow> string) \<Rightarrow> json \<Rightarrow> string" where
  "frame_message dump msg = k_header @ to_string (int (length (dump msg))) @ crlf2 @ dump msg"

definition parsed :: "(string \<Rightarrow> json option) \<Rightarrow> string \<Rightarrow> json" where
  "parsed parse s = (case parse s of None \<Rightarrow> JNull | Some j \<Rightarrow> j)"

text \<open>The next position at which a message may begin, and what \<open>tryReadMessage\<close> does at the present one.\<close>

definition skip_to_start :: "string \<Rightarrow> nat \<Rightarrow> nat" where
  "skip_to_start buf pos =
     (case (find_from ''Content-Length:'' buf pos, find_from ''{'' buf pos) of
        (None, None) \<Rightarrow> length buf
      | (Some a, None) \<Rightarrow> a
      | (None, Some b) \<Rightarrow> b
      | (Some a, Some b) \<Rightarrow> min a b)"

definition try_read_message :: "(string \<Rightarrow> json option) \<Rightarrow> string \<Rightarrow> nat \<Rightarrow> json option \<times> nat" where
  "try_read_message parse buf pos =
     (if length buf \<le> pos then (None, pos)
      else if substr buf pos (length k_header) = k_header then
        (let val_start = pos + length k_header
         in case find_from crlf2 buf val_start of
              None \<Rightarrow> (None, pos)
            | Some crlf \<Rightarrow>
                (case stoul (substr buf val_start (crlf - val_start)) of
                   None \<Rightarrow> (Some JNull, crlf + 4)
                 | Some body_len \<Rightarrow>
                     (let body_start = crlf + 4
                      in if length buf - body_start < body_len then (None, pos)
                         else (Some (parsed parse (substr buf body_start body_len)), body_start + body_len))))
      else if buf ! pos = CHR ''{'' then
        (case find_from [newline] buf pos of
           None \<Rightarrow> (None, pos)
         | Some nl \<Rightarrow> (Some (parsed parse (substr buf pos (nl - pos))), nl + 1))
      else (None, skip_to_start buf pos))"

lemma try_read_advances:
  assumes "try_read_message parse buf pos = (Some m, p)"
  shows "pos < p \<and> pos < length buf"
  using assms
  by (auto simp: try_read_message_def Let_def dest!: find_from_bound split: if_splits option.splits)

section \<open>The reader\<close>

text \<open>The inner loop: the messages it hands on and the position it stops at; a null is not handed on.\<close>

function message_loop :: "(string \<Rightarrow> json option) \<Rightarrow> string \<Rightarrow> nat \<Rightarrow> json list \<times> nat" where
  "message_loop parse buf pos =
     (if pos < length buf
      then (case try_read_message parse buf pos of
              (None, p) \<Rightarrow> ([], p)
            | (Some m, p) \<Rightarrow>
                (case message_loop parse buf p of (ms, q) \<Rightarrow> (if m = JNull then ms else m # ms, q)))
      else ([], pos))"
  by pat_completeness auto
termination
  by (relation "measure (\<lambda>(_, buf, pos). length buf - pos)") (auto dest!: try_read_advances [OF sym])

declare message_loop.simps [simp del]

text \<open>One \<open>fread\<close> or \<open>recv\<close>, and the bytes of a stream piece by piece.\<close>

definition read_chunk :: "(string \<Rightarrow> json option) \<Rightarrow> string \<Rightarrow> string \<Rightarrow> json list \<times> string" where
  "read_chunk parse buf chunk =
     (case message_loop parse (buf @ chunk) 0 of (ms, pos) \<Rightarrow> (ms, drop pos (buf @ chunk)))"

fun read_stream :: "(string \<Rightarrow> json option) \<Rightarrow> string \<Rightarrow> string list \<Rightarrow> json list \<times> string" where
  "read_stream parse buf [] = ([], buf)"
| "read_stream parse buf (c # cs) =
     (case read_chunk parse buf c of (ms, buf1) \<Rightarrow>
        case read_stream parse buf1 cs of (ms', buf2) \<Rightarrow> (ms @ ms', buf2))"

end
