(* ===== verification/Rpc_Framing.thy ===== *)
theory Rpc_Framing
  imports Json_Rpc
begin

text \<open>
  The stream of frames of \<open>Json_Rpc\<close>: whatever pieces the bytes come in, the reader hands on the messages that were
  sent, unless a piece ends in the middle of the word \<open>Content-Length: \<close>; then the message is lost.
\<close>

lemma append_split: "a @ b = p @ q \<Longrightarrow> length a \<le> length p \<Longrightarrow> \<exists>p1. p = a @ p1 \<and> b = p1 @ q"
proof (induction a arbitrary: p)
  case (Cons x a)
  then show ?case by (cases p) auto
qed simp

section \<open>One frame\<close>

text \<open>A message that the JSON library reads back and that fits in a 64-bit length.\<close>

definition sendable :: "(json \<Rightarrow> string) \<Rightarrow> (string \<Rightarrow> json option) \<Rightarrow> json \<Rightarrow> bool" where
  "sendable dump parse m \<longleftrightarrow> m \<noteq> JNull \<and> parse (dump m) = Some m \<and> length (dump m) < 2 ^ 64"

abbreviation frame_len :: "(json \<Rightarrow> string) \<Rightarrow> json \<Rightarrow> nat" where
  "frame_len dump m \<equiv> length (frame_message dump m)"

lemma frame_eq: "frame_message dump m = k_header @ dec_digits (length (dump m)) @ crlf2 @ dump m"
  by (simp add: frame_message_def to_string_def)

lemma length_header: "length k_header = 16"
  by (simp add: k_header_def)

lemma frame_len_16: "16 < frame_len dump m"
  by (simp add: frame_eq k_header_def crlf2_def)

lemma digits_no_cr: "\<forall>c \<in> set (dec_digits n). c \<noteq> CHR 0x0D"
  using dec_digits_correct [of n] by (auto simp: list_all_iff is_digit_def char_code_def)

lemma stoul_dec_digits: "n < 2 ^ 64 \<Longrightarrow> stoul (dec_digits n) = Some n"
  using stoul_digits [of "dec_digits n"] dec_digits_correct [of n] by simp

lemma length_crlf2: "length crlf2 = 4"
  by (simp add: crlf2_def)

lemma find_crlf2:
  "find_from crlf2 (pre @ k_header @ dec_digits n @ crlf2 @ rest) (length pre + length k_header) =
     Some (length pre + length k_header + length (dec_digits n))"
  using first_at_skip [OF digits_no_cr, where p = "[CHR 0x0A, CHR 0x0D, CHR 0x0A]" and s = rest]
  by (simp add: find_from_def crlf2_def)

lemma header_at: "substr (pre @ k_header @ s) (length pre) (length k_header) = k_header"
  by (simp add: substr_def)

lemma try_read_frame:
  assumes "sendable dump parse m"
  shows "try_read_message parse (pre @ frame_message dump m @ rest) (length pre) = (Some m, length pre + frame_len dump m)"
proof -
  let ?D = "dec_digits (length (dump m))"
  let ?buf = "pre @ k_header @ ?D @ crlf2 @ dump m @ rest"
  have len: "\<not> length ?buf \<le> length pre" by (simp add: k_header_def)
  have digits: "substr ?buf (length pre + length k_header) (length ?D) = ?D" by (simp add: substr_def)
  have body: "substr ?buf (length pre + length k_header + length ?D + 4) (length (dump m)) = dump m"
    by (simp add: substr_def crlf2_def)
  have room: "\<not> length ?buf - (length pre + length k_header + length ?D + 4) < length (dump m)" by (simp add: crlf2_def)
  have "try_read_message parse ?buf (length pre) =
      (Some (parsed parse (dump m)), length pre + length k_header + length ?D + 4 + length (dump m))"
    using assms len digits body room stoul_dec_digits [of "length (dump m)"] find_crlf2 [of pre "length (dump m)" "dump m @ rest"]
    by (simp add: try_read_message_def header_at Let_def sendable_def)
  then show ?thesis using assms by (simp add: frame_eq parsed_def sendable_def crlf2_def)
qed

text \<open>A frame of which the last bytes are still to come.\<close>

lemma no_crlf2_before:
  assumes "D @ crlf2 = part @ later" and "later \<noteq> []" and "\<forall>c \<in> set D. c \<noteq> CHR 0x0D"
  shows "first_at crlf2 part = None"
proof (rule ccontr)
  assume "first_at crlf2 part \<noteq> None"
  then obtain i where i: "first_at crlf2 part = Some i" by auto
  from first_at_bound [OF this] have b: "i + 4 \<le> length part" "take 4 (drop i part) = crlf2" by (auto simp: length_crlf2)
  have "later = [] \<or> 0 < length later" by simp
  then have "length part < length D + 4" using arg_cong [OF assms(1), of length] assms(2) by (simp add: length_crlf2)
  with b(1) have "i < length D" by simp
  moreover have "part ! i = CHR 0x0D"
  proof -
    have "take 4 (drop i part) ! 0 = CHR 0x0D" by (simp add: b(2) crlf2_def)
    then show ?thesis using b(1) by simp
  qed
  moreover have "part ! i = D ! i" using arg_cong [OF assms(1), of "\<lambda>xs. xs ! i"] b(1) \<open>i < length D\<close> by (simp add: nth_append)
  ultimately show False using assms(3) nth_mem by metis
qed

lemma try_read_partial:
  assumes "length (dump m) < 2 ^ 64" and "frame_message dump m = part @ later" and "later \<noteq> []" and "16 \<le> length part"
  shows "try_read_message parse (pre @ part) (length pre) = (None, length pre)"
proof -
  let ?D = "dec_digits (length (dump m))"
  have h: "length k_header = 16" by (simp add: k_header_def)
  obtain part1 where p: "part = k_header @ part1" "?D @ crlf2 @ dump m = part1 @ later"
    using append_split [of k_header "?D @ crlf2 @ dump m" part later] assms(2,4) h by (auto simp: frame_eq)
  show ?thesis
  proof (cases "length (?D @ crlf2) \<le> length part1")
    case False
    then obtain later1 where "?D @ crlf2 = part1 @ later1" "later1 \<noteq> []"
      using append_split [of part1 later "?D @ crlf2" "dump m"] p(2) by fastforce
    then have "first_at crlf2 part1 = None" by (rule no_crlf2_before [OF _ _ digits_no_cr])
    then have "find_from crlf2 (pre @ part) (length pre + length k_header) = None" by (simp add: find_from_def p(1))
    then show ?thesis by (simp add: try_read_message_def p(1) header_at Let_def)
  next
    case True
    then obtain b where b: "part1 = ?D @ crlf2 @ b" "dump m = b @ later" using append_split [of "?D @ crlf2" "dump m" part1 later] p(2) by auto
    have "find_from crlf2 (pre @ part) (length pre + length k_header) = Some (length pre + length k_header + length ?D)"
      using find_crlf2 [of pre "length (dump m)" b] by (simp add: p(1) b(1))
    moreover have "substr (pre @ part) (length pre + length k_header) (length ?D) = ?D" by (simp add: substr_def p(1) b(1))
    moreover have "length (pre @ part) - (length pre + length k_header + length ?D + 4) < length (dump m)"
      using assms(3) by (simp add: p(1) b crlf2_def)
    ultimately show ?thesis
      using stoul_dec_digits [OF assms(1)] by (simp add: try_read_message_def p(1) header_at Let_def)
  qed
qed

section \<open>The stream\<close>

abbreviation frames :: "(json \<Rightarrow> string) \<Rightarrow> json list \<Rightarrow> string" where
  "frames dump ms \<equiv> concat (map (frame_message dump) ms)"

text \<open>What is left in the buffer: nothing, or at least sixteen bytes of a frame, but not all of it.\<close>

definition held :: "(json \<Rightarrow> string) \<Rightarrow> json option \<Rightarrow> string \<Rightarrow> bool" where
  "held dump m part \<longleftrightarrow>
     part = [] \<or> (\<exists>msg later. m = Some msg \<and> 16 \<le> length part \<and> later \<noteq> [] \<and> frame_message dump msg = part @ later)"

lemma read_loop_frames:
  "(\<And>m. m \<in> set ms \<Longrightarrow> sendable dump parse m) \<Longrightarrow> held dump m part \<Longrightarrow> (\<And>x. m = Some x \<Longrightarrow> sendable dump parse x) \<Longrightarrow>
     message_loop parse (pre @ frames dump ms @ part) (length pre) = (ms, length pre + length (frames dump ms))"
proof (induction ms arbitrary: pre)
  case Nil
  show ?case
  proof (cases "part = []")
    case True
    then show ?thesis by (simp add: message_loop.simps)
  next
    case False
    then obtain x later where x: "m = Some x" "16 \<le> length part" "later \<noteq> []" "frame_message dump x = part @ later"
      using Nil.prems(2) by (auto simp: held_def)
    have "length (dump x) < 2 ^ 64" using Nil.prems(3) [OF x(1)] by (simp add: sendable_def)
    from try_read_partial [OF this x(4,3,2), of parse pre] show ?thesis
      using False by (simp add: message_loop.simps)
  qed
next
  case (Cons a ms)
  let ?pre = "pre @ frame_message dump a"
  have a: "sendable dump parse a" "a \<noteq> JNull" using Cons.prems(1) by (auto simp: sendable_def)
  have "0 < frame_len dump a" using frame_len_16 [of dump a] by linarith
  then have "length pre < length (pre @ frames dump (a # ms) @ part)" by simp
  moreover have "try_read_message parse (pre @ frames dump (a # ms) @ part) (length pre) = (Some a, length ?pre)"
    using try_read_frame [OF a(1), of pre "frames dump ms @ part"] by simp
  moreover have "message_loop parse (pre @ frames dump (a # ms) @ part) (length ?pre) = (ms, length ?pre + length (frames dump ms))"
    using Cons.IH [of ?pre] Cons.prems by simp
  ultimately show ?case using a(2) by (subst message_loop.simps) (simp add: add.assoc)
qed

lemma read_chunk_frames:
  assumes "\<And>m. m \<in> set ms \<Longrightarrow> sendable dump parse m" and "held dump m part" and "\<And>x. m = Some x \<Longrightarrow> sendable dump parse x"
    and "buf @ chunk = frames dump ms @ part"
  shows "read_chunk parse buf chunk = (ms, part)"
  using read_loop_frames [of ms dump parse m part "[]"] assms by (simp add: read_chunk_def)

lemma read_stream_append:
  "read_stream parse buf (as @ bs) =
     (case read_stream parse buf as of (m1, b1) \<Rightarrow> case read_stream parse b1 bs of (m2, b2) \<Rightarrow> (m1 @ m2, b2))"
  by (induction as arbitrary: buf) (auto split: prod.splits)

text \<open>No piece ends inside the first sixteen bytes of a frame.\<close>

definition no_cut_header :: "(json \<Rightarrow> string) \<Rightarrow> json list \<Rightarrow> string list \<Rightarrow> bool" where
  "no_cut_header dump msgs chunks \<longleftrightarrow>
     (\<forall>j \<le> length chunks. \<forall>k < length msgs.
        \<not> (length (frames dump (take k msgs)) < length (concat (take j chunks)) \<and>
           length (concat (take j chunks)) < length (frames dump (take k msgs)) + 16))"

lemma frames_take_Suc: "k < length msgs \<Longrightarrow> frames dump (take (Suc k) msgs) = frames dump (take k msgs) @ frame_message dump (msgs ! k)"
  by (simp add: take_Suc_conv_app_nth)

lemma frames_position:
  assumes "s @ rest = frames dump msgs"
  shows "\<exists>k part. k \<le> length msgs \<and> s = frames dump (take k msgs) @ part \<and>
           (k < length msgs \<and> length part < frame_len dump (msgs ! k) \<or> k = length msgs \<and> part = [])"
  using assms
proof (induction msgs arbitrary: s)
  case Nil
  then show ?case by simp
next
  case (Cons m ms)
  show ?case
  proof (cases "length s < frame_len dump m")
    case True
    then show ?thesis by (intro exI [of _ 0] exI [of _ s]) simp
  next
    case False
    then obtain s1 where s1: "s = frame_message dump m @ s1" "s1 @ rest = frames dump ms"
      using append_split [of "frame_message dump m" "frames dump ms" s rest] Cons.prems by auto
    from Cons.IH [OF s1(2)] obtain k part where
      "k \<le> length ms" "s1 = frames dump (take k ms) @ part"
      "k < length ms \<and> length part < frame_len dump (ms ! k) \<or> k = length ms \<and> part = []" by blast
    then show ?thesis using s1(1) by (intro exI [of _ "Suc k"] exI [of _ part]) auto
  qed
qed

text \<open>Where the stream stands: \<open>k\<close> whole frames and a part of the next one.\<close>

definition stands ::
  "(json \<Rightarrow> string) \<Rightarrow> json list \<Rightarrow> string \<Rightarrow> nat \<Rightarrow> string \<Rightarrow> bool" where
  "stands dump msgs s k part \<longleftrightarrow>
     k \<le> length msgs \<and> s = frames dump (take k msgs) @ part \<and> (k = length msgs \<longrightarrow> part = []) \<and>
     (k < length msgs \<longrightarrow> length part < frame_len dump (msgs ! k)) \<and>
     held dump (if k < length msgs then Some (msgs ! k) else None) part"

lemma stands_somewhere:
  assumes "s @ rest = frames dump msgs"
    and "\<And>k. k < length msgs \<Longrightarrow> \<not> (length (frames dump (take k msgs)) < length s \<and> length s < length (frames dump (take k msgs)) + 16)"
  shows "\<exists>k part. stands dump msgs s k part"
proof -
  obtain k part where k: "k \<le> length msgs" "s = frames dump (take k msgs) @ part"
    "k < length msgs \<and> length part < frame_len dump (msgs ! k) \<or> k = length msgs \<and> part = []"
    using frames_position [OF assms(1)] by blast
  have "held dump (if k < length msgs then Some (msgs ! k) else None) part"
  proof (cases "part = []")
    case False
    then have l: "k < length msgs" "length part < frame_len dump (msgs ! k)" using k(3) by auto
    have "frames dump msgs = frames dump (take k msgs) @ frame_message dump (msgs ! k) @ frames dump (drop (Suc k) msgs)"
      using id_take_nth_drop [OF l(1)] by (metis (no_types, lifting) concat.simps(2) concat_append list.simps(9) map_append)
    then have "part @ rest = frame_message dump (msgs ! k) @ frames dump (drop (Suc k) msgs)" using assms(1) k(2) by simp
    from append_split [OF this] l(2) obtain later where "frame_message dump (msgs ! k) = part @ later" by auto
    moreover from this l(2) have "later \<noteq> []" by auto
    moreover have "16 \<le> length part" using assms(2) [OF l(1)] k(2) False by (cases part) auto
    ultimately show ?thesis using l(1) by (auto simp: held_def)
  qed (simp add: held_def)
  with k show ?thesis unfolding stands_def by (intro exI [of _ k] exI [of _ part]) auto
qed

lemma stands_monotone:
  assumes "stands dump msgs s k part" and "stands dump msgs (s @ c) k' part'"
  shows "k \<le> k'"
proof (rule ccontr)
  assume "\<not> k \<le> k'"
  then have k: "k' < k" "k' < length msgs" using assms(1) by (auto simp: stands_def)
  have "length (s @ c) < length (frames dump (take (Suc k') msgs))"
    using assms(2) k by (simp add: stands_def frames_take_Suc)
  moreover have "take (Suc k') msgs @ drop (Suc k') (take k msgs) = take k msgs"
    using k(1) by (metis Suc_leI append_take_drop_id min.absorb1 take_take)
  then have "length (frames dump (take (Suc k') msgs)) \<le> length (frames dump (take k msgs))"
    by (metis (no_types, lifting) concat_append le_add1 length_append map_append)
  moreover have "length (frames dump (take k msgs)) \<le> length s" using assms(1) by (simp add: stands_def)
  ultimately show False by simp
qed

lemma stands_step:
  assumes "\<And>m. m \<in> set msgs \<Longrightarrow> sendable dump parse m"
    and "stands dump msgs s k part" and "stands dump msgs (s @ c) k' part'"
  shows "read_chunk parse part c = (drop k (take k' msgs), part')"
proof (rule read_chunk_frames)
  have k: "k \<le> k'" "k' \<le> length msgs" using stands_monotone [OF assms(2,3)] assms(3) by (simp_all add: stands_def)
  have "take k msgs @ drop k (take k' msgs) = take k' msgs" using k(1) by (metis append_take_drop_id min.absorb1 take_take)
  then have "frames dump (take k' msgs) = frames dump (take k msgs) @ frames dump (drop k (take k' msgs))"
    by (metis concat_append map_append)
  then show "part @ c = frames dump (drop k (take k' msgs)) @ part'" using assms(2,3) by (simp add: stands_def)
  show "held dump (if k' < length msgs then Some (msgs ! k') else None) part'" using assms(3) by (simp add: stands_def)
  show "sendable dump parse m" if "m \<in> set (drop k (take k' msgs))" for m
    using that assms(1) by (meson in_set_dropD in_set_takeD)
  show "sendable dump parse x" if "(if k' < length msgs then Some (msgs ! k') else None) = Some x" for x
    using that assms(1) by (auto split: if_splits)
qed

lemma read_stream_stands:
  assumes "\<And>m. m \<in> set msgs \<Longrightarrow> sendable dump parse m" and "concat chunks = frames dump msgs" and "no_cut_header dump msgs chunks"
  shows "j \<le> length chunks \<Longrightarrow>
    \<exists>k part. stands dump msgs (concat (take j chunks)) k part \<and> read_stream parse [] (take j chunks) = (take k msgs, part)"
proof (induction j)
  case 0
  have "0 < length msgs \<longrightarrow> 0 < frame_len dump (msgs ! 0)" using frame_len_16 [of dump "msgs ! 0"] by linarith
  then have "stands dump msgs [] 0 []" by (auto simp: stands_def held_def)
  then show ?case by (intro exI [of _ 0] exI [of _ "[]"]) simp
next
  case (Suc j)
  then obtain k part where k: "stands dump msgs (concat (take j chunks)) k part"
    "read_stream parse [] (take j chunks) = (take k msgs, part)" by auto
  have j: "take (Suc j) chunks = take j chunks @ [chunks ! j]" using Suc.prems by (simp add: take_Suc_conv_app_nth)
  have "concat (take (Suc j) chunks) @ concat (drop (Suc j) chunks) = frames dump msgs"
    using assms(2) by (metis append_take_drop_id concat_append)
  from stands_somewhere [OF this] assms(3) Suc.prems obtain k' part' where
    k': "stands dump msgs (concat (take (Suc j) chunks)) k' part'" by (auto simp: no_cut_header_def simp del: take_Suc)
  have cat: "concat (take (Suc j) chunks) = concat (take j chunks) @ chunks ! j" by (simp add: j)
  from stands_step [OF assms(1) k(1) k' [unfolded cat]]
  have ch: "read_chunk parse part (chunks ! j) = (drop k (take k' msgs), part')" .
  have "k \<le> k'" by (rule stands_monotone [OF k(1) k' [unfolded cat]])
  then have "take k msgs @ drop k (take k' msgs) = take k' msgs" by (metis append_take_drop_id min.absorb1 take_take)
  then have "read_stream parse [] (take (Suc j) chunks) = (take k' msgs, part')"
    by (simp add: j read_stream_append k(2) ch)
  with k' show ?case by blast
qed

section \<open>Properties\<close>

text \<open>C12: The bytes of any messages that the JSON library reads back, framed one after the other by \<open>frameMessage\<close>,
  reach the handler as exactly these messages, in order, whatever pieces \<open>fread\<close> or \<open>recv\<close> cuts the stream into, and
  nothing is left in the buffer; provided that no piece ends inside the first sixteen bytes of a frame, the word
  \<open>Content-Length: \<close> with its blank.\<close>

theorem stream_delivers:
  assumes "\<And>m. m \<in> set msgs \<Longrightarrow> sendable dump parse m" and "concat chunks = concat (map (frame_message dump) msgs)"
    and "no_cut_header dump msgs chunks"
  shows "read_stream parse [] chunks = (msgs, [])"
proof -
  from read_stream_stands [OF assms, of "length chunks"] obtain k part where
    k: "stands dump msgs (concat chunks) k part" "read_stream parse [] chunks = (take k msgs, part)" by auto
  have "k = length msgs"
  proof (rule ccontr)
    assume "k \<noteq> length msgs"
    then have l: "k < length msgs" "length part < frame_len dump (msgs ! k)" using k(1) by (auto simp: stands_def)
    have "take (Suc k) msgs @ drop (Suc k) msgs = msgs" by simp
    then have "length (frames dump (take (Suc k) msgs)) \<le> length (frames dump msgs)"
      by (metis (no_types, lifting) concat_append le_add1 length_append map_append)
    then show False using k(1) l assms(2) by (simp add: stands_def frames_take_Suc)
  qed
  with k show ?thesis by (simp add: stands_def)
qed

text \<open>A JSON library that knows one object.\<close>

definition tiny_dump :: "json \<Rightarrow> string" where
  "tiny_dump m = (if m = JObject [] then ''{}'' else ''null'')"

definition tiny_parse :: "string \<Rightarrow> json option" where
  "tiny_parse s = (if s = ''{}'' then Some (JObject []) else None)"

definition crlf :: string where
  "crlf = [CHR 0x0D, CHR 0x0A]"

lemma tiny_frame: "frame_message tiny_dump (JObject []) = ''Content-Length: 2'' @ crlf @ crlf @ ''{}''"
  by code_simp

theorem stream_delivers_witness:
  "read_stream tiny_parse []
     [''Content-Length: 2'' @ crlf, crlf @ ''{'', ''}Content-Length: 2'' @ crlf @ crlf @ ''{}''] = ([JObject [], JObject []], [])"
proof (rule stream_delivers [of _ tiny_dump])
  show "sendable tiny_dump tiny_parse m" if "m \<in> set [JObject [], JObject []]" for m
    using that by (simp add: sendable_def tiny_dump_def tiny_parse_def)
  show "concat [''Content-Length: 2'' @ crlf, crlf @ ''{'', ''}Content-Length: 2'' @ crlf @ crlf @ ''{}''] =
      concat (map (frame_message tiny_dump) [JObject [], JObject []])"
    by (simp add: tiny_frame)
  show "no_cut_header tiny_dump [JObject [], JObject []]
      [''Content-Length: 2'' @ crlf, crlf @ ''{'', ''}Content-Length: 2'' @ crlf @ crlf @ ''{}'']"
    by (auto simp: no_cut_header_def tiny_frame crlf_def less_Suc_eq le_Suc_eq)
qed

section \<open>Streams that are not read\<close>

text \<open>A frame of which the first piece ends inside the word \<open>Content-Length: \<close> is never delivered: the piece is dropped,
  and what is left is a line that does not end.\<close>

theorem cut_header_loses_message:
  "read_stream tiny_parse [] [''Conten'', ''t-Length: 2'' @ crlf @ crlf @ ''{}''] = ([], ''{}'')"
  by code_simp

text \<open>A header without the blank after the colon stops the reader for good: nothing that follows is delivered.\<close>

definition stuck :: "string \<Rightarrow> bool" where
  "stuck buf \<longleftrightarrow> take 15 buf = ''Content-Length:'' \<and> 15 < length buf \<and> buf ! 15 \<noteq> CHR '' ''"

lemma stuck_append: "stuck buf \<Longrightarrow> stuck (buf @ more_bytes)"
  by (auto simp: stuck_def nth_append)

lemma stuck_read:
  assumes "stuck buf"
  shows "message_loop parse buf 0 = ([], 0)"
proof -
  have h: "take 15 buf = ''Content-Length:''" "15 < length buf" "buf ! 15 \<noteq> CHR '' ''" using assms by (auto simp: stuck_def)
  have "take 16 buf ! 15 \<noteq> k_header ! 15" using h(2,3) by (simp add: k_header_def)
  then have "take 16 buf \<noteq> k_header" by metis
  then have "substr buf 0 (length k_header) \<noteq> k_header" by (simp add: substr_def length_header)
  moreover have "buf ! 0 = CHR ''C''"
  proof -
    have "take 15 buf ! 0 = CHR ''C''" by (simp add: h(1))
    then show ?thesis by simp
  qed
  moreover have "skip_to_start buf 0 = 0"
  proof -
    have "length ''Content-Length:'' = 15" by simp
    then have "has_prefix ''Content-Length:'' buf" by (simp only: has_prefix_def h(1))
    moreover have "buf \<noteq> []" using h(2) by auto
    ultimately have "first_at ''Content-Length:'' buf = Some 0" by (cases buf) auto
    then show ?thesis by (auto simp: skip_to_start_def find_from_def split: option.splits)
  qed
  ultimately have "try_read_message parse buf 0 = (None, 0)" using h(2) by (simp add: try_read_message_def)
  then show ?thesis by (simp add: message_loop.simps)
qed

theorem missing_blank_blocks:
  assumes "stuck buf"
  shows "read_stream parse buf chunks = ([], buf @ concat chunks)"
  using assms
proof (induction chunks arbitrary: buf)
  case (Cons c chunks)
  have s: "stuck (buf @ c)" by (rule stuck_append [OF Cons.prems])
  then show ?case using Cons.IH [OF s] by (simp add: read_chunk_def stuck_read)
qed simp

end
