(* ===== verification/Tool_Registry.thy ===== *)
theory Tool_Registry
  imports Json_Rpc
begin

text \<open>
  src/src/mcp/tool_registry.{h,cpp}: the tools of the MCP server, and the check of their parameters against the part
  of JSON Schema that the code knows.  A handler works on a state of its own and returns a value or throws.
\<close>

section \<open>Schemas\<close>

text \<open>A type name that is not known lets everything pass.\<close>

definition check_type :: "string \<Rightarrow> json \<Rightarrow> bool" where
  "check_type t v =
     (if t = ''string'' then is_string v
      else if t = ''integer'' then (case v of JInt _ \<Rightarrow> True | _ \<Rightarrow> False)
      else if t = ''number'' then (case v of JInt _ \<Rightarrow> True | JReal _ \<Rightarrow> True | _ \<Rightarrow> False)
      else if t = ''boolean'' then (case v of JBool _ \<Rightarrow> True | _ \<Rightarrow> False)
      else if t = ''null'' then v = JNull
      else if t = ''array'' then (case v of JArray _ \<Rightarrow> True | _ \<Rightarrow> False)
      else if t = ''object'' then is_object v
      else True)"

fun first_error :: "('a \<Rightarrow> 'e option) \<Rightarrow> 'a list \<Rightarrow> 'e option" where
  "first_error f [] = None"
| "first_error f (x # xs) = (case f x of None \<Rightarrow> first_error f xs | Some e \<Rightarrow> Some e)"

lemma first_error_cong [fundef_cong]:
  "xs = ys \<Longrightarrow> (\<And>x. x \<in> set ys \<Longrightarrow> f x = g x) \<Longrightarrow> first_error f xs = first_error g ys"
  by (induction ys arbitrary: xs) (auto split: option.splits)

lemma first_error_None: "first_error f xs = None \<longleftrightarrow> (\<forall>x \<in> set xs. f x = None)"
  by (induction xs) (auto split: option.splits)

definition type_error :: "json \<Rightarrow> json \<Rightarrow> string option" where
  "type_error schema v =
     (case member_of schema ''type'' of
        Some (JString t) \<Rightarrow> if check_type t v then None else Some t
      | _ \<Rightarrow> None)"

definition missing_field :: "json \<Rightarrow> json \<Rightarrow> string option" where
  "missing_field schema params =
     (case member_of schema ''required'' of
        Some (JArray names) \<Rightarrow>
          first_error (\<lambda>f. case f of
              JString name \<Rightarrow> if member_of params name = None then Some (''missing required parameter: '' @ name) else None
            | _ \<Rightarrow> None) names
      | _ \<Rightarrow> None)"

definition schema_members :: "json \<Rightarrow> (string \<times> json) list" where
  "schema_members schema = (case member_of schema ''properties'' of Some (JObject ps) \<Rightarrow> ps | _ \<Rightarrow> [])"

lemma size_member: "(k, v) \<in> set ms \<Longrightarrow> size v < size (JObject ms)"
  by (induction ms) auto

lemma schema_member_smaller: "(k, s) \<in> set (schema_members schema) \<Longrightarrow> size s < size schema"
proof -
  assume a: "(k, s) \<in> set (schema_members schema)"
  then obtain ps where p: "member_of schema ''properties'' = Some (JObject ps)" "(k, s) \<in> set ps"
    by (cases "member_of schema ''properties''") (auto simp: schema_members_def split: json.splits)
  then obtain ms where m: "schema = JObject ms" "map_of ms ''properties'' = Some (JObject ps)"
    by (auto simp: member_of_def split: json.splits)
  have "size (JObject ps) < size schema" using size_member [OF map_of_SomeD [OF m(2)]] m(1) by simp
  with size_member [OF p(2)] show ?thesis by simp
qed

text \<open>The error text for the first thing that is wrong.  A value whose name the schema does not have is not looked at.\<close>

function validate_params :: "json \<Rightarrow> json \<Rightarrow> string option" where
  "validate_params schema params =
     (if \<not> is_object schema then None
      else if member_of schema ''type'' \<noteq> Some (JString ''object'') \<and> type_error schema params \<noteq> None
      then Some (''params: expected type '' @ the (type_error schema params))
      else if \<not> is_object params then Some ''params must be an object''
      else case missing_field schema params of
             Some e \<Rightarrow> Some e
           | None \<Rightarrow>
               first_error (\<lambda>(name, s).
                 case member_of params name of
                   None \<Rightarrow> None
                 | Some v \<Rightarrow>
                     if \<not> is_object s then None
                     else case type_error s v of
                            Some t \<Rightarrow> Some (''parameter '' @ [CHR 0x27] @ name @ [CHR 0x27] @ '': expected type '' @ t)
                          | None \<Rightarrow> if is_object v then validate_params s v else None)
                 (schema_members schema))"
  by pat_completeness auto
termination by (relation "measure (size \<circ> fst)") (auto dest: schema_member_smaller)

declare validate_params.simps [simp del]

text \<open>What the check is for: the fields that are required are there, and every value that the schema describes has its
  type, at every depth.\<close>

inductive conforms :: "json \<Rightarrow> json \<Rightarrow> bool" where
  no_schema: "\<not> is_object schema \<Longrightarrow> conforms schema v"
| object: "is_object schema \<Longrightarrow> is_object v \<Longrightarrow> type_error schema v = None \<Longrightarrow>
    (\<And>names name. member_of schema ''required'' = Some (JArray names) \<Longrightarrow> JString name \<in> set names \<Longrightarrow> member_of v name \<noteq> None) \<Longrightarrow>
    (\<And>name s w. (name, s) \<in> set (schema_members schema) \<Longrightarrow> member_of v name = Some w \<Longrightarrow> is_object s \<Longrightarrow>
       type_error s w = None \<and> (is_object w \<longrightarrow> conforms s w)) \<Longrightarrow>
    conforms schema v"

inductive_simps conforms_iff: "conforms schema v"

section \<open>The registry\<close>

datatype exn = Invalid_Argument string | Runtime_Error string | Other_Exception string

record 's tool_spec =
  ts_name :: string
  ts_description :: string
  ts_schema :: json
  ts_handler :: "json \<Rightarrow> 's \<Rightarrow> (exn + json) \<times> 's"

record 's registry =
  rg_tools :: "'s tool_spec list"
  rg_index :: "string \<Rightarrow> nat option"

definition empty_registry :: "'s registry" where
  "empty_registry = \<lparr>rg_tools = [], rg_index = (\<lambda>_. None)\<rparr>"

definition register_tool :: "'s tool_spec \<Rightarrow> 's registry \<Rightarrow> 's registry" where
  "register_tool spec r =
     (case rg_index r (ts_name spec) of
        Some i \<Rightarrow> r\<lparr>rg_tools := (rg_tools r)[i := spec]\<rparr>
      | None \<Rightarrow> \<lparr>rg_tools = rg_tools r @ [spec], rg_index = (rg_index r)(ts_name spec \<mapsto> length (rg_tools r))\<rparr>)"

definition list_tools :: "'s registry \<Rightarrow> json" where
  "list_tools r =
     JObject [(''tools'', JArray (map (\<lambda>t. JObject [(''description'', JString (ts_description t)), (''inputSchema'', ts_schema t),
                                                 (''name'', JString (ts_name t))]) (rg_tools r)))]"

definition has_tool :: "'s registry \<Rightarrow> string \<Rightarrow> bool" where
  "has_tool r name \<longleftrightarrow> rg_index r name \<noteq> None"

definition effective_params :: "json \<Rightarrow> json" where
  "effective_params params = (if params = JNull then JObject [] else params)"

definition call_tool_raw :: "'s registry \<Rightarrow> string \<Rightarrow> json \<Rightarrow> 's \<Rightarrow> (exn + json) \<times> 's" where
  "call_tool_raw r name params s =
     (case rg_index r name of
        None \<Rightarrow> (Inl (Runtime_Error (''unknown tool: '' @ name)), s)
      | Some i \<Rightarrow>
          (case validate_params (ts_schema (rg_tools r ! i)) (effective_params params) of
             Some e \<Rightarrow> (Inl (Invalid_Argument e), s)
           | None \<Rightarrow> ts_handler (rg_tools r ! i) (effective_params params) s))"

definition call_tool :: "(json \<Rightarrow> string) \<Rightarrow> 's registry \<Rightarrow> string \<Rightarrow> json \<Rightarrow> 's \<Rightarrow> (exn + json) \<times> 's" where
  "call_tool dump r name params s =
     (case call_tool_raw r name params s of
        (Inl e, s1) \<Rightarrow> (Inl e, s1)
      | (Inr v, s1) \<Rightarrow> (Inr (JArray [JObject [(''text'', JString (dump v)), (''type'', JString ''text'')]]), s1))"

section \<open>Lemmas\<close>

lemma strings_only:
  "(\<forall>x \<in> A. (case x of JString n \<Rightarrow> f n | _ \<Rightarrow> None) = None) \<longleftrightarrow> (\<forall>n. JString n \<in> A \<longrightarrow> f n = None)"
  by (auto split: json.splits)

lemma missing_field_None:
  "missing_field schema v = None \<longleftrightarrow>
     (\<forall>names name. member_of schema ''required'' = Some (JArray names) \<longrightarrow> JString name \<in> set names \<longrightarrow> member_of v name \<noteq> None)"
proof (cases "\<exists>names. member_of schema ''required'' = Some (JArray names)")
  case True
  then obtain names where n: "member_of schema ''required'' = Some (JArray names)" by blast
  have "missing_field schema v = None \<longleftrightarrow> (\<forall>name. JString name \<in> set names \<longrightarrow> member_of v name \<noteq> None)"
    by (simp add: missing_field_def n first_error_None strings_only) auto
  with n show ?thesis by auto
next
  case False
  then show ?thesis by (auto simp: missing_field_def split: option.splits json.splits)
qed

lemma type_object:
  "member_of schema ''type'' = Some (JString ''object'') \<Longrightarrow> type_error schema v = (if is_object v then None else Some ''object'')"
  by (simp add: type_error_def check_type_def)

lemma conforms_object:
  assumes "is_object schema"
  shows "conforms schema v \<longleftrightarrow> is_object v \<and> type_error schema v = None \<and> missing_field schema v = None \<and>
    (\<forall>name s w. (name, s) \<in> set (schema_members schema) \<longrightarrow> member_of v name = Some w \<longrightarrow> is_object s \<longrightarrow>
       type_error s w = None \<and> (is_object w \<longrightarrow> conforms s w))"
  unfolding missing_field_None by (subst conforms_iff) (use assms in blast)

lemma validate_errors:
  assumes "is_object schema" and "type_error schema v \<noteq> None \<or> \<not> is_object v \<or> missing_field schema v \<noteq> None"
  shows "validate_params schema v \<noteq> None"
proof -
  consider (t) "member_of schema ''type'' \<noteq> Some (JString ''object'') \<and> type_error schema v \<noteq> None"
    | (v) "\<not> (member_of schema ''type'' \<noteq> Some (JString ''object'') \<and> type_error schema v \<noteq> None)" "\<not> is_object v"
    | (m) e where "\<not> (member_of schema ''type'' \<noteq> Some (JString ''object'') \<and> type_error schema v \<noteq> None)" "is_object v"
        "missing_field schema v = Some e"
    using assms(2) type_object [of schema v] by (cases "missing_field schema v"; cases "is_object v"; cases "member_of schema ''type'' = Some (JString ''object'')") auto
  moreover have nn: "\<not> \<not> is_object schema" using assms(1) by simp
  ultimately show ?thesis
  proof cases
    case t
    then show ?thesis unfolding validate_params.simps [of schema v] if_not_P [OF nn] if_P [OF t] by simp
  next
    case v
    then show ?thesis unfolding validate_params.simps [of schema v] if_not_P [OF nn] if_not_P [OF v(1)] if_P [OF v(2)] by simp
  next
    case m
    then have nm: "\<not> \<not> is_object v" by simp
    show ?thesis
      unfolding validate_params.simps [of schema v] if_not_P [OF nn] if_not_P [OF m(1)] if_not_P [OF nm] m(3) by simp
  qed
qed

lemma validate_members_None:
  "first_error (\<lambda>(name, s).
       case member_of v name of
         None \<Rightarrow> None
       | Some w \<Rightarrow>
           if \<not> is_object s then None
           else case type_error s w of
                  Some t \<Rightarrow> Some (msg name t)
                | None \<Rightarrow> if is_object w then chk s w else None) ms = None \<longleftrightarrow>
     (\<forall>name s w. (name, s) \<in> set ms \<longrightarrow> member_of v name = Some w \<longrightarrow> is_object s \<longrightarrow>
        type_error s w = None \<and> (is_object w \<longrightarrow> chk s w = None))"
  by (fastforce simp: first_error_None split: option.splits)

text \<open>The check, as a lemma for the registry.\<close>

lemma validate_conforms: "validate_params schema v = None \<longleftrightarrow> conforms schema v"
proof (induction schema v rule: validate_params.induct)
  case (1 schema v)
  have rec: "validate_params s w = None \<longleftrightarrow> conforms s w"
    if "is_object schema" "type_error schema v = None" "is_object v" "missing_field schema v = None" "(name, s) \<in> set (schema_members schema)"
      "member_of v name = Some w" "is_object s" "type_error s w = None" "is_object w" for name s w
    using 1 [OF _ _ _ _ that(5) refl that(6) _ that(8,9)] that by auto
  show ?case
  proof (cases "is_object schema \<and> type_error schema v = None \<and> is_object v \<and> missing_field schema v = None")
    case True
    then have "validate_params schema v = None \<longleftrightarrow>
        (\<forall>name s w. (name, s) \<in> set (schema_members schema) \<longrightarrow> member_of v name = Some w \<longrightarrow> is_object s \<longrightarrow>
           type_error s w = None \<and> (is_object w \<longrightarrow> validate_params s w = None))"
      by (subst validate_params.simps) (simp add: validate_members_None)
    also have "\<dots> \<longleftrightarrow> (\<forall>name s w. (name, s) \<in> set (schema_members schema) \<longrightarrow> member_of v name = Some w \<longrightarrow> is_object s \<longrightarrow>
           type_error s w = None \<and> (is_object w \<longrightarrow> conforms s w))"
      by (intro iff_allI imp_cong conj_cong refl) (rule rec; use True in simp)
    also have "\<dots> \<longleftrightarrow> conforms schema v"
      using True conforms_object [of schema v] by blast
    finally show ?thesis .
  next
    case False
    show ?thesis
    proof (cases "is_object schema")
      case True
      then have "\<not> conforms schema v" using False conforms_object [of schema v] by blast
      moreover have "validate_params schema v \<noteq> None"
        using False True by (intro validate_errors) auto
      ultimately show ?thesis by simp
    qed (simp add: conforms.no_schema validate_params.simps)
  qed
qed

text \<open>The check of the parameters of a tool passes exactly for the values that conform to the schema: every required
  field is there and every value that the schema describes has its type, at every depth; an error text comes back for
  any other value.\<close>

theorem validate_iff_conforms:
  "validate_params schema v = None \<longleftrightarrow> conforms schema v"
  by (rule validate_conforms)

section \<open>Registered tools\<close>

text \<open>The tools by their names, and the index that finds them.\<close>

definition registry_ok :: "'s registry \<Rightarrow> bool" where
  "registry_ok r \<longleftrightarrow>
     (\<forall>name i. rg_index r name = Some i \<longleftrightarrow> i < length (rg_tools r) \<and> ts_name (rg_tools r ! i) = name)"

definition tool_map :: "'s registry \<Rightarrow> string \<Rightarrow> 's tool_spec option" where
  "tool_map r name = map_option ((!) (rg_tools r)) (rg_index r name)"

definition register_all :: "'s tool_spec list \<Rightarrow> 's registry" where
  "register_all specs = fold register_tool specs empty_registry"

lemma register_ok:
  assumes "registry_ok r"
  shows "registry_ok (register_tool spec r)" and "tool_map (register_tool spec r) = (tool_map r)(ts_name spec \<mapsto> spec)"
proof -
  have ix: "rg_index r name = Some i \<longleftrightarrow> i < length (rg_tools r) \<and> ts_name (rg_tools r ! i) = name" for name i
    using assms by (simp add: registry_ok_def)
  show "registry_ok (register_tool spec r)"
  proof (cases "rg_index r (ts_name spec)")
    case None
    then have "ts_name (rg_tools r ! i) \<noteq> ts_name spec" if "i < length (rg_tools r)" for i using ix [of "ts_name spec" i] that by auto
    with None ix show ?thesis by (auto simp: registry_ok_def register_tool_def nth_append less_Suc_eq)
  next
    case (Some j)
    then have same: "ts_name ((rg_tools r)[j := spec] ! i) = ts_name (rg_tools r ! i)" if "i < length (rg_tools r)" for i
      using ix [of "ts_name spec" j] that by (cases "i = j") simp_all
    have "register_tool spec r = r\<lparr>rg_tools := (rg_tools r)[j := spec]\<rparr>" using Some by (simp add: register_tool_def)
    then show ?thesis unfolding registry_ok_def using ix same by (auto simp del: nth_list_update)
  qed
  show "tool_map (register_tool spec r) = (tool_map r)(ts_name spec \<mapsto> spec)"
  proof (cases "rg_index r (ts_name spec)")
    case None
    then show ?thesis using ix by (auto simp: tool_map_def register_tool_def fun_eq_iff nth_append intro!: option.map_cong)
  next
    case (Some i)
    show ?thesis
    proof (rule ext)
      fix name
      show "tool_map (register_tool spec r) name = ((tool_map r)(ts_name spec \<mapsto> spec)) name"
      proof (cases "rg_index r name")
        case None
        then show ?thesis using Some by (auto simp: tool_map_def register_tool_def)
      next
        case s: (Some k)
        then have "k = i \<longleftrightarrow> name = ts_name spec" using ix [of name k] ix [of "ts_name spec" i] Some by auto
        then show ?thesis using Some s ix [of "ts_name spec" i] by (auto simp: tool_map_def register_tool_def)
      qed
    qed
  qed
qed

lemma register_all_ok: "registry_ok (register_all specs)"
proof -
  have "registry_ok r \<Longrightarrow> registry_ok (fold register_tool specs r)" for r :: "'a registry"
    by (induction specs arbitrary: r) (simp_all add: register_ok)
  then show ?thesis by (simp add: register_all_def registry_ok_def empty_registry_def)
qed

lemma registered_map:
  "registry_ok r \<Longrightarrow> tool_map (fold register_tool specs r) = tool_map r ++ map_of (rev (map (\<lambda>t. (ts_name t, t)) specs))"
proof (induction specs arbitrary: r)
  case (Cons a specs)
  have "tool_map (fold register_tool (a # specs) r) = (tool_map r)(ts_name a \<mapsto> a) ++ map_of (rev (map (\<lambda>t. (ts_name t, t)) specs))"
    using Cons.IH [OF register_ok(1) [OF Cons.prems], of a] register_ok(2) [OF Cons.prems, of a] by (simp only: fold.simps o_apply)
  also have "(tool_map r)(ts_name a \<mapsto> a) = tool_map r ++ [ts_name a \<mapsto> a]" by simp
  finally show ?case by (simp only: map_add_assoc [symmetric] list.map rev.simps map_of_append map_of.simps prod.sel)
qed simp

lemma call_tool_map:
  "call_tool_raw r name params s =
     (case tool_map r name of
        None \<Rightarrow> (Inl (Runtime_Error (''unknown tool: '' @ name)), s)
      | Some spec \<Rightarrow>
          (case validate_params (ts_schema spec) (effective_params params) of
             Some e \<Rightarrow> (Inl (Invalid_Argument e), s)
           | None \<Rightarrow> ts_handler spec (effective_params params) s))"
  by (simp add: call_tool_raw_def tool_map_def split: option.splits)

text \<open>Whatever tools are registered in whatever order, the index finds each of them under its name, a later tool
  replaces an earlier one of the same name, and a call runs the handler of the last tool registered under the name,
  with the parameters, exactly when they conform to its schema; otherwise it throws and no handler runs.\<close>

theorem registry_calls_last_registered:
  "registry_ok (register_all specs) \<and>
   tool_map (register_all specs) = map_of (rev (map (\<lambda>t. (ts_name t, t)) specs)) \<and>
   call_tool_raw (register_all specs) name params s =
     (case map_of (rev (map (\<lambda>t. (ts_name t, t)) specs)) name of
        None \<Rightarrow> (Inl (Runtime_Error (''unknown tool: '' @ name)), s)
      | Some spec \<Rightarrow>
          if conforms (ts_schema spec) (effective_params params) then ts_handler spec (effective_params params) s
          else (Inl (Invalid_Argument (the (validate_params (ts_schema spec) (effective_params params)))), s))"
proof -
  note registered_map [of empty_registry specs]
  moreover have "registry_ok (empty_registry :: 'a registry)" "tool_map (empty_registry :: 'a registry) = Map.empty"
    by (simp_all add: registry_ok_def empty_registry_def tool_map_def fun_eq_iff)
  ultimately have m: "tool_map (register_all specs) = map_of (rev (map (\<lambda>t. (ts_name t, t)) specs))"
    unfolding register_all_def by (metis empty_map_add)
  show ?thesis
    unfolding call_tool_map m validate_conforms [symmetric]
    using register_all_ok [of specs] by (auto split: option.splits)
qed

end
