(* ===== verification/Mcp_Server.thy ===== *)
theory Mcp_Server
  imports Tool_Registry
begin

text \<open>
  src/src/mcp/mcp_server.{h,cpp} and gui_rpc_server.{h,cpp}: from a message to the answer that is sent.  The state is
  the server and the state of the handlers; the messages of a connection are handled one after the other, on the
  reader's thread.
\<close>

section \<open>The MCP server\<close>

record server_info =
  si_name :: string
  si_version :: string

record 's mcp_server =
  sv_info :: server_info
  sv_registry :: "'s registry"
  sv_running :: bool
  sv_initialized :: bool
  sv_world :: 's

definition kProtocolVersion :: string where
  "kProtocolVersion = ''2024-11-05''"

definition new_server :: "server_info \<Rightarrow> 's tool_spec list \<Rightarrow> 's \<Rightarrow> 's mcp_server" where
  "new_server info specs s =
     \<lparr>sv_info = info, sv_registry = register_all specs, sv_running = True, sv_initialized = False, sv_world = s\<rparr>"

definition handle_initialize :: "'s mcp_server \<Rightarrow> json \<times> 's mcp_server" where
  "handle_initialize sv =
     (JObject [(''capabilities'', JObject [(''tools'', JObject [])]), (''protocolVersion'', JString kProtocolVersion),
               (''serverInfo'', JObject [(''name'', JString (si_name (sv_info sv))), (''version'', JString (si_version (sv_info sv)))])],
      sv\<lparr>sv_initialized := True\<rparr>)"

definition handle_tools_call :: "(json \<Rightarrow> string) \<Rightarrow> json \<Rightarrow> 's mcp_server \<Rightarrow> (exn + json) \<times> 's mcp_server" where
  "handle_tools_call dump params sv =
     (if \<not> is_object params then (Inl (Invalid_Argument ''tools/call params must be an object''), sv)
      else case member_of params ''name'' of
             Some (JString name) \<Rightarrow>
               (if \<not> has_tool (sv_registry sv) name then (Inl (Runtime_Error (''unknown tool: '' @ name)), sv)
                else (case call_tool dump (sv_registry sv) name
                          (case member_of params ''arguments'' of None \<Rightarrow> JNull | Some a \<Rightarrow> a) (sv_world sv) of
                        (r, s) \<Rightarrow> (r, sv\<lparr>sv_world := s\<rparr>)))
           | _ \<Rightarrow> (Inl (Invalid_Argument (''tools/call: missing string '' @ [CHR 0x27] @ ''name'' @ [CHR 0x27])), sv))"

definition error_answer :: "json \<Rightarrow> exn \<Rightarrow> json" where
  "error_answer rid e =
     (case e of
        Invalid_Argument m \<Rightarrow> make_error rid kInvalidParams m JNull
      | Runtime_Error m \<Rightarrow> make_error rid kInternalError m JNull
      | Other_Exception _ \<Rightarrow> make_error rid kInternalError ''unexpected error'' JNull)"

text \<open>\<open>dispatch\<close>: the answer, null when there is none.\<close>

definition dispatch :: "(json \<Rightarrow> string) \<Rightarrow> json \<Rightarrow> 's mcp_server \<Rightarrow> json \<times> 's mcp_server" where
  "dispatch dump req_j sv =
     (case parse_request req_j of
        Inl err \<Rightarrow> (make_error (case member_of req_j ''id'' of None \<Rightarrow> JNull | Some i \<Rightarrow> i) kInvalidRequest err JNull, sv)
      | Inr req \<Rightarrow>
          if is_notification req then (JNull, sv)
          else if rq_method req = ''initialize'' then
            (case handle_initialize sv of (r, sv1) \<Rightarrow> (make_result (rq_id req) r, sv1))
          else if rq_method req = ''tools/list'' then
            (if \<not> sv_initialized sv then (make_error (rq_id req) kInvalidRequest ''server not yet initialized'' JNull, sv)
             else (make_result (rq_id req) (list_tools (sv_registry sv)), sv))
          else if rq_method req = ''tools/call'' then
            (if \<not> sv_initialized sv then (make_error (rq_id req) kInvalidRequest ''server not yet initialized'' JNull, sv)
             else (case handle_tools_call dump (rq_params req) sv of
                     (Inl e, sv1) \<Rightarrow> (error_answer (rq_id req) e, sv1)
                   | (Inr r, sv1) \<Rightarrow> (make_result (rq_id req) r, sv1)))
          else if rq_method req = ''shutdown'' then (make_result (rq_id req) JNull, sv\<lparr>sv_running := False\<rparr>)
          else (make_error (rq_id req) kMethodNotFound (''method not found: '' @ rq_method req) JNull, sv))"

text \<open>\<open>onMessage\<close>: what is sent.\<close>

definition on_message :: "(json \<Rightarrow> string) \<Rightarrow> json \<Rightarrow> 's mcp_server \<Rightarrow> json option \<times> 's mcp_server" where
  "on_message dump msg sv =
     (if \<not> is_object msg then (None, sv)
      else case dispatch dump msg sv of (r, sv1) \<Rightarrow> (if r = JNull then None else Some r, sv1))"

fun serve :: "(json \<Rightarrow> string) \<Rightarrow> json list \<Rightarrow> 's mcp_server \<Rightarrow> json option list \<times> 's mcp_server" where
  "serve dump [] sv = ([], sv)"
| "serve dump (m # ms) sv =
     (case on_message dump m sv of (a, sv1) \<Rightarrow> case serve dump ms sv1 of (as, sv2) \<Rightarrow> (a # as, sv2))"

section \<open>The server of the GUI\<close>

text \<open>A handler throws a \<open>std::exception\<close> with a text, or something else, which nobody catches: \<open>None\<close>.\<close>

type_synonym 's rpc_handler = "json \<Rightarrow> 's \<Rightarrow> (string + json) option \<times> 's"

definition gui_message ::
  "(string \<Rightarrow> 's rpc_handler option) \<Rightarrow> json \<Rightarrow> 's \<Rightarrow> (json option \<times> 's) option" where
  "gui_message handlers msg s =
     (case parse_request msg of
        Inl err \<Rightarrow> Some (Some (make_error JNull kInvalidRequest err JNull), s)
      | Inr req \<Rightarrow>
          (case handlers (rq_method req) of
             None \<Rightarrow>
               Some (if is_notification req then None
                     else Some (make_error (rq_id req) kMethodNotFound (''unknown method: '' @ rq_method req) JNull), s)
           | Some h \<Rightarrow>
               if is_notification req then Some (None, s)
               else (case h (effective_params (rq_params req)) s of
                       (None, _) \<Rightarrow> None
                     | (Some (Inr r), s1) \<Rightarrow> Some (Some (make_result (rq_id req) r), s1)
                     | (Some (Inl e), s1) \<Rightarrow> Some (Some (make_error (rq_id req) kInternalError e JNull), s1))))"

section \<open>Answers\<close>

definition wants_answer :: "json \<Rightarrow> bool" where
  "wants_answer msg \<longleftrightarrow>
     is_object msg \<and> (case parse_request msg of Inl _ \<Rightarrow> True | Inr req \<Rightarrow> \<not> is_notification req)"

text \<open>The id of a message, and what an answer is.\<close>

definition id_of :: "json \<Rightarrow> json" where
  "id_of msg = (case member_of msg ''id'' of None \<Rightarrow> JNull | Some i \<Rightarrow> i)"

definition answer_to :: "json \<Rightarrow> json \<Rightarrow> bool" where
  "answer_to rid a \<longleftrightarrow>
     member_of a ''id'' = Some rid \<and> member_of a ''jsonrpc'' = Some (JString ''2.0'') \<and>
     (member_of a ''result'' \<noteq> None \<longleftrightarrow> member_of a ''error'' = None)"

lemma answers [simp]: "answer_to rid (make_result rid r)" "answer_to rid (make_error rid c m d)" "answer_to rid (error_answer rid e)"
  "make_result rid r \<noteq> JNull" "make_error rid c m d \<noteq> JNull" "error_answer rid e \<noteq> JNull"
  by (simp_all add: answer_to_def make_result_def make_error_def error_answer_def member_of_def split: exn.split)

lemma parse_request_id: "parse_request msg = Inr req \<Longrightarrow> rq_id req = id_of msg"
  by (auto simp: parse_request_def id_of_def split: if_splits option.splits json.splits)

lemma dispatch_answers:
  assumes "wants_answer msg"
  shows "answer_to (id_of msg) (fst (dispatch dump msg sv)) \<and> fst (dispatch dump msg sv) \<noteq> JNull"
proof (cases "parse_request msg")
  case (Inl e)
  then show ?thesis by (simp add: dispatch_def id_of_def)
next
  case (Inr req)
  then have n: "\<not> is_notification req" using assms by (simp add: wants_answer_def)
  have i: "rq_id req = id_of msg" by (rule parse_request_id [OF Inr])
  obtain r sv1 where "handle_tools_call dump (rq_params req) sv = (r, sv1)" by (cases "handle_tools_call dump (rq_params req) sv")
  with n show ?thesis by (simp add: dispatch_def Inr i handle_initialize_def split: sum.split)
qed

definition keeps_setup :: "'s mcp_server \<Rightarrow> 's mcp_server \<Rightarrow> bool" where
  "keeps_setup sv sv' \<longleftrightarrow>
     sv_registry sv' = sv_registry sv \<and> sv_info sv' = sv_info sv \<and> (sv_initialized sv \<longrightarrow> sv_initialized sv') \<and>
     (\<not> sv_initialized sv \<longrightarrow> sv_world sv' = sv_world sv)"

lemma handle_tools_call_setup:
  "handle_tools_call dump params sv = (r, sv1) \<Longrightarrow> \<exists>s. sv1 = sv\<lparr>sv_world := s\<rparr>"
  by (auto simp: handle_tools_call_def split: if_splits option.splits json.splits prod.splits intro: exI [of _ "sv_world sv"])

lemma dispatch_setup: "keeps_setup sv (snd (dispatch dump msg sv))"
proof (cases "parse_request msg")
  case (Inl e)
  then show ?thesis by (simp add: dispatch_def keeps_setup_def)
next
  case (Inr req)
  obtain r sv1 where h: "handle_tools_call dump (rq_params req) sv = (r, sv1)" by (cases "handle_tools_call dump (rq_params req) sv")
  from handle_tools_call_setup [OF h] obtain s where "sv1 = sv\<lparr>sv_world := s\<rparr>" by blast
  with h show ?thesis by (simp add: dispatch_def Inr handle_initialize_def keeps_setup_def split: sum.split)
qed

lemma on_message_setup: "keeps_setup sv (snd (on_message dump msg sv))"
  using dispatch_setup [of sv dump msg] by (auto simp: on_message_def keeps_setup_def split: prod.splits)


text \<open>Before a request for \<open>initialize\<close> has been answered no tool runs: whatever messages come, the state of the
  handlers is untouched while the server is not initialized; once it is, it stays so, and the tools stay the same.\<close>

theorem no_tool_before_initialize:
  "sv_registry (snd (serve dump msgs sv)) = sv_registry sv \<and>
   (sv_initialized sv \<longrightarrow> sv_initialized (snd (serve dump msgs sv))) \<and>
   (\<not> sv_initialized (snd (serve dump msgs sv)) \<longrightarrow> sv_world (snd (serve dump msgs sv)) = sv_world sv)"
proof (induction msgs arbitrary: sv)
  case (Cons m ms)
  obtain a sv1 where a: "on_message dump m sv = (a, sv1)" by (cases "on_message dump m sv")
  have "keeps_setup sv sv1" using on_message_setup [of sv dump m] a by simp
  with Cons.IH [of sv1] a show ?case by (auto simp: split_beta keeps_setup_def)
qed simp

text \<open>A server with one tool that counts its calls.\<close>

definition counting_tool :: "nat tool_spec" where
  "counting_tool =
     \<lparr>ts_name = ''count'', ts_description = [], ts_schema = JObject [], ts_handler = (\<lambda>_ n. (Inr (JInt (int n + 1)), n + 1))\<rparr>"

definition request :: "int \<Rightarrow> string \<Rightarrow> json \<Rightarrow> json" where
  "request i m p = JObject [(''id'', JInt i), (''jsonrpc'', JString ''2.0''), (''method'', JString m), (''params'', p)]"

definition count_call :: "int \<Rightarrow> json" where
  "count_call i = request i ''tools/call'' (JObject [(''name'', JString ''count'')])"

theorem no_tool_before_initialize_witness:
  "sv_world (snd (serve (\<lambda>_. []) [count_call 1, count_call 2]
      (new_server \<lparr>si_name = [], si_version = []\<rparr> [counting_tool] 0))) = 0"
proof -
  have "\<not> sv_initialized (snd (serve (\<lambda>_. []) [count_call 1, count_call 2]
      (new_server \<lparr>si_name = [], si_version = []\<rparr> [counting_tool] 0)))"
    by (simp add: on_message_def dispatch_def parse_request_def count_call_def request_def is_object_def member_of_def
        new_server_def is_notification_def make_error_def)
  then have "sv_world (snd (serve (\<lambda>_. []) [count_call 1, count_call 2]
      (new_server \<lparr>si_name = [], si_version = []\<rparr> [counting_tool] 0))) =
    sv_world (new_server \<lparr>si_name = [], si_version = []\<rparr> [counting_tool] 0)"
    using no_tool_before_initialize [of "\<lambda>_. []" "[count_call 1, count_call 2]"] by blast
  then show ?thesis by (simp add: new_server_def)
qed

end
