(* ===== verification/Hardware_Executor.thy ===== *)
theory Hardware_Executor
  imports Json_Rpc
begin

text \<open>
  src/src/hardware/hardware_job.{h,cpp} and hardware_executor.{h,cpp}: the queue of hardware jobs and its worker
  thread.  The code between two locks is one step, and a run is any interleaving of the steps of the worker, of the
  threads that submit, cancel and poll, and of the one that shuts down.  \<open>submit\<close> is two steps, the check of
  \<open>running_\<close> with the making of the job, and the enqueuing, because other threads can run in between.  The hardware
  context is a parameter \<open>hw_ops\<close>; a task is a function of the hardware and of what it sees of the cancel flag.
\<close>

unbundle bit_operations_syntax

section \<open>Jobs\<close>

datatype job_state = Queued | Running | Complete | Failed | Cancelled

definition job_state_name :: "job_state \<Rightarrow> string" where
  "job_state_name s =
     (case s of Queued \<Rightarrow> ''queued'' | Running \<Rightarrow> ''running'' | Complete \<Rightarrow> ''complete'' | Failed \<Rightarrow> ''failed'' | Cancelled \<Rightarrow> ''cancelled'')"

definition terminal :: "job_state \<Rightarrow> bool" where
  "terminal s \<longleftrightarrow> s = Complete \<or> s = Failed \<or> s = Cancelled"

record hw_job =
  hj_id :: string
  hj_label :: string
  hj_state :: job_state
  hj_progress :: json
  hj_result :: json
  hj_error :: string
  hj_cancel :: bool

definition new_job :: "string \<Rightarrow> string \<Rightarrow> hw_job" where
  "new_job i l =
     \<lparr>hj_id = i, hj_label = l, hj_state = Queued, hj_progress = JNull, hj_result = JNull, hj_error = [], hj_cancel = False\<rparr>"

definition snapshot_json :: "hw_job \<Rightarrow> json" where
  "snapshot_json j =
     JObject ((if hj_error j = [] then [] else [(''error'', JString (hj_error j))]) @ [(''job_id'', JString (hj_id j))] @
              (if hj_progress j = JNull then [] else [(''progress'', hj_progress j)]) @
              (if hj_result j = JNull then [] else [(''result'', hj_result j)]) @ [(''state'', JString (job_state_name (hj_state j)))])"

text \<open>The identifiers, from four random words; \<open>std::hex\<close> prints small letters.\<close>

definition hex_lower :: "nat \<Rightarrow> u32 \<Rightarrow> string" where
  "hex_lower w x = map to_lower (hex_fmt w (unat x))"

definition job_id_of :: "u32 \<Rightarrow> u32 \<Rightarrow> u32 \<Rightarrow> u32 \<Rightarrow> string" where
  "job_id_of a b0 c0 d =
     (let b = (b0 AND 0xFFFF0FFF) OR 0x00004000; c = (c0 AND 0x3FFFFFFF) OR 0x80000000
      in hex_lower 8 a @ ''-'' @ hex_lower 4 (drop_bit 16 b) @ ''-'' @ hex_lower 4 (b AND 0xFFFF) @ ''-'' @
         hex_lower 4 (drop_bit 16 c) @ ''-'' @ hex_lower 4 (c AND 0xFFFF) @ hex_lower 8 d)"

section \<open>The executor\<close>

record 'w hw_ops =
  ho_open :: "'w \<Rightarrow> string \<times> 'w"
  ho_is_open :: "'w \<Rightarrow> bool"
  ho_close :: "'w \<Rightarrow> 'w"

datatype task_end = Returned json | Threw string | Threw_Other

type_synonym 'w hw_task = "bool \<Rightarrow> 'w \<Rightarrow> task_end \<times> 'w"

datatype 'w worker = No_Worker | Waiting | Holding string "'w hw_task" | Working string "'w hw_task" | Exited

record 'w executor =
  ex_running :: bool
  ex_stop :: bool
  ex_flight :: "(string \<times> 'w hw_task) list"
  ex_queue :: "(string \<times> 'w hw_task) list"
  ex_jobs :: "string \<Rightarrow> hw_job option"
  ex_worker :: "'w worker"
  ex_world :: 'w

definition new_executor :: "'w \<Rightarrow> 'w executor" where
  "new_executor w =
     \<lparr>ex_running = False, ex_stop = False, ex_flight = [], ex_queue = [], ex_jobs = (\<lambda>_. None), ex_worker = No_Worker, ex_world = w\<rparr>"

definition set_job :: "string \<Rightarrow> (hw_job \<Rightarrow> hw_job) \<Rightarrow> 'w executor \<Rightarrow> 'w executor" where
  "set_job i f x = x\<lparr>ex_jobs := (\<lambda>k. if k = i then map_option f (ex_jobs x k) else ex_jobs x k)\<rparr>"

definition start_worker :: "'w executor \<Rightarrow> 'w executor" where
  "start_worker x = (if ex_running x then x else x\<lparr>ex_stop := False, ex_worker := Waiting, ex_running := True\<rparr>)"

definition start :: "'w hw_ops \<Rightarrow> 'w executor \<Rightarrow> string \<times> 'w executor" where
  "start H x =
     (if ex_running x then ([], x)
      else case ho_open H (ex_world x) of
             (err, w) \<Rightarrow> if err \<noteq> [] then (err, x\<lparr>ex_world := w\<rparr>) else ([], start_worker (x\<lparr>ex_world := w\<rparr>)))"

text \<open>\<open>submit\<close>; the first step throws when the executor is not running.\<close>

definition submit_begin :: "string \<Rightarrow> string \<Rightarrow> 'w hw_task \<Rightarrow> 'w executor \<Rightarrow> 'w executor option" where
  "submit_begin i l task x =
     (if \<not> ex_running x then None
      else Some (x\<lparr>ex_jobs := (ex_jobs x)(i \<mapsto> new_job i l), ex_flight := ex_flight x @ [(i, task)]\<rparr>))"

definition submit_end :: "string \<Rightarrow> 'w executor \<Rightarrow> 'w executor option" where
  "submit_end i x =
     (case filter (\<lambda>e. fst e = i) (ex_flight x) of
        [] \<Rightarrow> None
      | e # _ \<Rightarrow> Some (x\<lparr>ex_flight := filter (\<lambda>e. fst e \<noteq> i) (ex_flight x), ex_queue := ex_queue x @ [e]\<rparr>))"

definition try_cancel :: "string \<Rightarrow> 'w executor \<Rightarrow> 'w executor" where
  "try_cancel i x = set_job i (\<lambda>j. j\<lparr>hj_cancel := True\<rparr>) x"

definition shutdown_begin :: "'w executor \<Rightarrow> 'w executor" where
  "shutdown_begin x = (if ex_running x then x\<lparr>ex_stop := True\<rparr> else x)"

definition shutdown_join :: "'w hw_ops \<Rightarrow> 'w executor \<Rightarrow> 'w executor option" where
  "shutdown_join H x =
     (if ex_running x \<and> ex_stop x \<and> ex_worker x = Exited
      then Some (x\<lparr>ex_worker := No_Worker, ex_running := False, ex_world := ho_close H (ex_world x)\<rparr>) else None)"

text \<open>The worker: what \<open>wait\<close> leads to, the check of the cancel flag, and the task.\<close>

definition worker_wake :: "'w executor \<Rightarrow> 'w executor option" where
  "worker_wake x =
     (if ex_worker x \<noteq> Waiting then None
      else case ex_queue x of
             [] \<Rightarrow> if ex_stop x then Some (x\<lparr>ex_worker := Exited\<rparr>) else None
           | (i, task) # q \<Rightarrow> Some (x\<lparr>ex_queue := q, ex_worker := Holding i task\<rparr>))"

definition worker_timeout :: "'w hw_ops \<Rightarrow> 'w executor \<Rightarrow> 'w executor option" where
  "worker_timeout H x =
     (if ex_worker x = Waiting \<and> ex_queue x = [] \<and> \<not> ex_stop x
      then Some (if ho_is_open H (ex_world x) then x\<lparr>ex_world := ho_close H (ex_world x)\<rparr> else x) else None)"

definition job_cancelled :: "string \<Rightarrow> 'w executor \<Rightarrow> bool" where
  "job_cancelled i x = (case ex_jobs x i of None \<Rightarrow> False | Some j \<Rightarrow> hj_cancel j)"

definition worker_check :: "'w executor \<Rightarrow> 'w executor option" where
  "worker_check x =
     (case ex_worker x of
        Holding i task \<Rightarrow>
          Some (if job_cancelled i x then (set_job i (\<lambda>j. j\<lparr>hj_state := Cancelled\<rparr>) x)\<lparr>ex_worker := Waiting\<rparr>
                else (set_job i (\<lambda>j. j\<lparr>hj_state := Running\<rparr>) x)\<lparr>ex_worker := Working i task\<rparr>)
      | _ \<Rightarrow> None)"

definition worker_progress :: "json \<Rightarrow> 'w executor \<Rightarrow> 'w executor option" where
  "worker_progress p x =
     (case ex_worker x of Working i task \<Rightarrow> Some (set_job i (\<lambda>j. j\<lparr>hj_progress := p\<rparr>) x) | _ \<Rightarrow> None)"

definition finish_job :: "string \<Rightarrow> task_end \<Rightarrow> 'w executor \<Rightarrow> 'w executor" where
  "finish_job i r x =
     (case r of
        Returned v \<Rightarrow>
          if job_cancelled i x then set_job i (\<lambda>j. j\<lparr>hj_state := Cancelled\<rparr>) x
          else set_job i (\<lambda>j. j\<lparr>hj_result := v, hj_state := Complete\<rparr>) x
      | Threw e \<Rightarrow> set_job i (\<lambda>j. j\<lparr>hj_error := e, hj_state := Failed\<rparr>) x
      | Threw_Other \<Rightarrow> set_job i (\<lambda>j. j\<lparr>hj_error := ''unknown exception in hardware task'', hj_state := Failed\<rparr>) x)"

definition run_task :: "'w hw_ops \<Rightarrow> 'w hw_task \<Rightarrow> bool \<Rightarrow> 'w \<Rightarrow> task_end \<times> 'w" where
  "run_task H task seen w =
     (case (if ho_is_open H w then ([], w) else ho_open H w) of
        (err, w1) \<Rightarrow> if err \<noteq> [] then (Threw (''hardware open failed: '' @ err), w1) else task seen w1)"

definition worker_work :: "'w hw_ops \<Rightarrow> bool \<Rightarrow> 'w executor \<Rightarrow> 'w executor option" where
  "worker_work H seen x =
     (case ex_worker x of
        Working i task \<Rightarrow>
          if seen \<and> \<not> job_cancelled i x then None
          else (case run_task H task seen (ex_world x) of
                  (r, w) \<Rightarrow> Some ((finish_job i r (x\<lparr>ex_world := w\<rparr>))\<lparr>ex_worker := Waiting\<rparr>))
      | _ \<Rightarrow> None)"

section \<open>Runs\<close>

datatype 'w label =
    Start_Worker
  | Submit string string "'w hw_task"
  | Enqueue string
  | Cancel string
  | Wake
  | Timeout
  | Check
  | Progress json
  | Work bool
  | Shutdown
  | Join

text \<open>The identifiers are random, 122 bits of them: a new one is not in use.\<close>

definition exec_step :: "'w hw_ops \<Rightarrow> 'w label \<Rightarrow> 'w executor \<Rightarrow> 'w executor option" where
  "exec_step H l x =
     (case l of
        Start_Worker \<Rightarrow> Some (start_worker x)
      | Submit i lbl task \<Rightarrow> if ex_jobs x i = None then submit_begin i lbl task x else None
      | Enqueue i \<Rightarrow> submit_end i x
      | Cancel i \<Rightarrow> Some (try_cancel i x)
      | Wake \<Rightarrow> worker_wake x
      | Timeout \<Rightarrow> worker_timeout H x
      | Check \<Rightarrow> worker_check x
      | Progress p \<Rightarrow> worker_progress p x
      | Work seen \<Rightarrow> worker_work H seen x
      | Shutdown \<Rightarrow> Some (shutdown_begin x)
      | Join \<Rightarrow> shutdown_join H x)"

inductive reaches :: "'w hw_ops \<Rightarrow> 'w executor \<Rightarrow> 'w label list \<Rightarrow> 'w executor \<Rightarrow> bool" for H x where
  reaches_refl: "reaches H x [] x"
| reaches_step: "reaches H x tr y \<Longrightarrow> exec_step H l y = Some z \<Longrightarrow> reaches H x (tr @ [l]) z"

inductive_cases reaches_NilE: "reaches H x [] y"

fun run_labels :: "'w hw_ops \<Rightarrow> 'w label list \<Rightarrow> 'w executor \<Rightarrow> 'w executor option" where
  "run_labels H [] x = Some x"
| "run_labels H (l # ls) x = Option.bind (exec_step H l x) (run_labels H ls)"

lemma reaches_trans: "reaches H y ls z \<Longrightarrow> reaches H x tr y \<Longrightarrow> reaches H x (tr @ ls) z"
proof (induction rule: reaches.induct)
  case (reaches_step tr' y' l z')
  then show ?case using reaches.reaches_step [of H x "tr @ tr'" y' l z'] by simp
qed simp

lemma run_labels_reaches: "run_labels H ls x = Some y \<Longrightarrow> reaches H x ls y"
proof (induction ls arbitrary: x)
  case Nil
  then show ?case by (simp add: reaches_refl)
next
  case (Cons l ls)
  then obtain x1 where x1: "exec_step H l x = Some x1" "run_labels H ls x1 = Some y" by (auto split: Option.bind_splits)
  have "reaches H x [l] x1" using reaches_step [OF reaches_refl x1(1)] by simp
  from reaches_trans [OF Cons.IH [OF x1(2)] this] show ?case by simp
qed

end
