(* ===== verification/Executor_Props.thy ===== *)
theory Executor_Props
  imports Hardware_Executor
begin

text \<open>
  The runs of \<open>Hardware_Executor\<close>: the invariant that ties the states of the jobs to the queue and to the worker, the
  order in which jobs are served, cancellation, and that the worker empties the queue.
\<close>

section \<open>The invariant\<close>

definition current :: "'w executor \<Rightarrow> string list" where
  "current x = (case ex_worker x of Holding i _ \<Rightarrow> [i] | Working i _ \<Rightarrow> [i] | _ \<Rightarrow> [])"

definition held_job :: "'w executor \<Rightarrow> string list" where
  "held_job x = (case ex_worker x of Holding i _ \<Rightarrow> [i] | _ \<Rightarrow> [])"

definition running_job :: "'w executor \<Rightarrow> string list" where
  "running_job x = (case ex_worker x of Working i _ \<Rightarrow> [i] | _ \<Rightarrow> [])"

definition waiting_ids :: "'w executor \<Rightarrow> string list" where
  "waiting_ids x = map fst (ex_flight x) @ held_job x @ map fst (ex_queue x)"

definition job_state_of :: "'w executor \<Rightarrow> string \<Rightarrow> job_state option" where
  "job_state_of x i = map_option hj_state (ex_jobs x i)"

text \<open>A job is queued exactly while it is on its way into the queue, in it, or in the hands of the worker before the
  check; it runs exactly while the worker works on it.\<close>

definition executor_ok :: "'w executor \<Rightarrow> bool" where
  "executor_ok x \<longleftrightarrow>
     distinct (waiting_ids x @ running_job x) \<and>
     (\<forall>i. job_state_of x i = Some Queued \<longleftrightarrow> i \<in> set (waiting_ids x)) \<and>
     (\<forall>i. job_state_of x i = Some Running \<longleftrightarrow> i \<in> set (running_job x)) \<and>
     (ex_running x \<longleftrightarrow> ex_worker x \<noteq> No_Worker) \<and> (ex_worker x = Exited \<longrightarrow> ex_stop x)"

lemma executor_okD:
  assumes "executor_ok x"
  shows "distinct (waiting_ids x @ running_job x)" and "job_state_of x i = Some Queued \<longleftrightarrow> i \<in> set (waiting_ids x)"
    and "job_state_of x i = Some Running \<longleftrightarrow> i \<in> set (running_job x)"
    and "ex_running x \<longleftrightarrow> ex_worker x \<noteq> No_Worker" and "ex_worker x = Exited \<Longrightarrow> ex_stop x"
  using assms by (simp_all add: executor_ok_def)

lemma job_state_set_job:
  "job_state_of (set_job i f x) k = (if k = i then map_option (\<lambda>j. hj_state (f j)) (ex_jobs x k) else job_state_of x k)"
  by (auto simp: job_state_of_def set_job_def option.map_comp comp_def)

lemma set_job_rest [simp]:
  "ex_running (set_job i f x) = ex_running x" "ex_stop (set_job i f x) = ex_stop x" "ex_flight (set_job i f x) = ex_flight x"
  "ex_queue (set_job i f x) = ex_queue x" "ex_worker (set_job i f x) = ex_worker x" "ex_world (set_job i f x) = ex_world x"
  by (simp_all add: set_job_def)

lemma job_state_simps [simp]:
  "job_state_of (x\<lparr>ex_worker := w\<rparr>) = job_state_of x" "job_state_of (x\<lparr>ex_queue := q\<rparr>) = job_state_of x"
  "job_state_of (x\<lparr>ex_flight := fl\<rparr>) = job_state_of x" "job_state_of (x\<lparr>ex_world := wd\<rparr>) = job_state_of x"
  "job_state_of (x\<lparr>ex_running := r\<rparr>) = job_state_of x" "job_state_of (x\<lparr>ex_stop := s\<rparr>) = job_state_of x"
  by (simp_all add: job_state_of_def fun_eq_iff)

text \<open>What a step does to the states, the queue and the worker.\<close>

lemma finish_job_state:
  "\<exists>s. terminal s \<and> (\<forall>k. job_state_of (finish_job i r x) k = (if k = i then map_option (\<lambda>_. s) (ex_jobs x k) else job_state_of x k))"
  by (cases r) (auto simp: finish_job_def job_state_set_job terminal_def fun_eq_iff)

lemma finish_job_rest [simp]:
  "ex_running (finish_job i r x) = ex_running x" "ex_stop (finish_job i r x) = ex_stop x" "ex_flight (finish_job i r x) = ex_flight x"
  "ex_queue (finish_job i r x) = ex_queue x" "ex_worker (finish_job i r x) = ex_worker x"
  by (cases r; simp add: finish_job_def)+

lemmas worker_parts = waiting_ids_def held_job_def running_job_def

lemma executor_ok_step:
  assumes "executor_ok x" and "exec_step H l x = Some y"
  shows "executor_ok y"
proof (cases l)
  case Start_Worker
  show ?thesis
  proof (cases "ex_running x")
    case False
    then have y: "y = x\<lparr>ex_stop := False, ex_worker := Waiting, ex_running := True\<rparr>"
      using assms(2) Start_Worker by (simp add: exec_step_def start_worker_def)
    have "ex_worker x = No_Worker" using False assms(1) by (simp add: executor_ok_def)
    then have "waiting_ids y = waiting_ids x" "running_job y = running_job x" by (simp_all add: y worker_parts)
    moreover have "job_state_of y = job_state_of x" by (simp add: y)
    ultimately show ?thesis using assms(1) by (simp add: executor_ok_def y)
  qed (use assms Start_Worker in \<open>simp add: exec_step_def start_worker_def\<close>)
next
  case (Submit i lbl task)
  with assms(2) have y: "ex_jobs x i = None" "ex_running x" "y = x\<lparr>ex_jobs := (ex_jobs x)(i \<mapsto> new_job i lbl), ex_flight := ex_flight x @ [(i, task)]\<rparr>"
    by (auto simp: exec_step_def submit_begin_def split: if_splits)
  have js: "job_state_of y k = (if k = i then Some Queued else job_state_of x k)" for k
    by (simp add: y(3) job_state_of_def new_job_def)
  have "job_state_of x i = None" using y(1) by (simp add: job_state_of_def)
  then have new: "i \<notin> set (waiting_ids x)" "i \<notin> set (running_job x)"
    using executor_okD(2,3) [OF assms(1), of i] by simp_all
  have w: "waiting_ids y = map fst (ex_flight x) @ [i] @ held_job x @ map fst (ex_queue x)" "running_job y = running_job x"
    by (simp_all add: y(3) worker_parts)
  then have "distinct (waiting_ids y @ running_job y)"
    using new executor_okD(1) [OF assms(1)] by (auto simp: waiting_ids_def)
  moreover have "set (waiting_ids y) = insert i (set (waiting_ids x))" unfolding w(1) waiting_ids_def [of x] by auto
  ultimately show ?thesis using executor_okD [OF assms(1)] new unfolding executor_ok_def js by (simp add: w(2)) (simp add: y(3))
next
  case (Enqueue i)
  with assms(2) obtain e es where e: "filter (\<lambda>e. fst e = i) (ex_flight x) = e # es"
    "y = x\<lparr>ex_flight := filter (\<lambda>e. fst e \<noteq> i) (ex_flight x), ex_queue := ex_queue x @ [e]\<rparr>"
    by (auto simp: exec_step_def submit_end_def split: list.splits)
  have "e \<in> set (filter (\<lambda>e. fst e = i) (ex_flight x))" unfolding e(1) by simp
  then have fe: "fst e = i" and mem: "i \<in> set (map fst (ex_flight x))" by auto
  have d: "distinct (map fst (ex_flight x))" using assms(1) by (simp add: executor_ok_def waiting_ids_def)
  have st: "set (map fst (filter (\<lambda>e. fst e \<noteq> i) (ex_flight x))) = set (map fst (ex_flight x)) - {i}" by auto
  have d2: "distinct (map fst (filter (\<lambda>e. fst e \<noteq> i) (ex_flight x)))" using d by (simp add: distinct_map_filter)
  have w: "set (waiting_ids y) = set (waiting_ids x)" using mem st by (auto simp: e(2) waiting_ids_def held_job_def fe split: worker.splits)
  have r: "running_job y = running_job x" by (simp add: e(2) running_job_def)
  have "distinct (waiting_ids y @ running_job y)"
    using assms(1) st d2 mem by (auto simp: e(2) executor_ok_def worker_parts fe split: worker.splits)
  moreover have "job_state_of y = job_state_of x" by (simp add: e(2))
  ultimately show ?thesis using assms(1) w r by (simp add: executor_ok_def e(2))
next
  case (Cancel i)
  have js: "job_state_of (try_cancel i x) k = job_state_of x k" for k
    by (simp add: try_cancel_def job_state_set_job) (simp add: job_state_of_def)
  have y: "y = try_cancel i x" using Cancel assms(2) by (simp add: exec_step_def)
  have "waiting_ids y = waiting_ids x" "running_job y = running_job x" by (simp_all add: y try_cancel_def worker_parts)
  with assms(1) show ?thesis by (simp add: executor_ok_def y js) (simp add: try_cancel_def)
next
  case Wake
  then have y: "waiting_ids y = waiting_ids x" "running_job y = running_job x" "job_state_of y = job_state_of x"
    "ex_running y = ex_running x" "ex_worker y \<noteq> No_Worker" "ex_worker x \<noteq> No_Worker" "ex_worker y = Exited \<longrightarrow> ex_stop y"
    using assms(2) by (auto simp: exec_step_def worker_wake_def worker_parts split: if_splits list.splits)
  with assms(1) show ?thesis by (simp add: executor_ok_def)
next
  case Timeout
  then have "waiting_ids y = waiting_ids x" "running_job y = running_job x" "job_state_of y = job_state_of x"
    "ex_running y = ex_running x" "ex_worker y = ex_worker x" "ex_worker x \<noteq> Exited"
    using assms(2) by (auto simp: exec_step_def worker_timeout_def worker_parts split: if_splits)
  with assms(1) show ?thesis by (simp add: executor_ok_def)
next
  case Check
  with assms(2) obtain i task where i: "ex_worker x = Holding i task"
    "y = (if job_cancelled i x then (set_job i (\<lambda>j. j\<lparr>hj_state := Cancelled\<rparr>) x)\<lparr>ex_worker := Waiting\<rparr>
          else (set_job i (\<lambda>j. j\<lparr>hj_state := Running\<rparr>) x)\<lparr>ex_worker := Working i task\<rparr>)"
    by (auto simp: exec_step_def worker_check_def split: worker.splits)
  show ?thesis
  proof (cases "job_cancelled i x")
    case True
    have js: "job_state_of y k = (if k = i then map_option (\<lambda>_. Cancelled) (ex_jobs x k) else job_state_of x k)" for k
      using True by (simp add: i(2) job_state_set_job)
    from assms(1) show ?thesis unfolding executor_ok_def js by (auto simp: i True worker_parts)
  next
    case False
    have "job_state_of x i = Some Queued" using assms(1) i(1) by (simp add: executor_ok_def worker_parts)
    then have "ex_jobs x i \<noteq> None" by (auto simp: job_state_of_def)
    then have js: "job_state_of y k = (if k = i then Some Running else job_state_of x k)" for k
      using False by (auto simp: i(2) job_state_set_job)
    from assms(1) show ?thesis unfolding executor_ok_def js by (auto simp: i False worker_parts)
  qed
next
  case (Progress p)
  then obtain i task where i: "ex_worker x = Working i task" "y = set_job i (\<lambda>j. j\<lparr>hj_progress := p\<rparr>) x"
    using assms(2) by (auto simp: exec_step_def worker_progress_def split: worker.splits)
  have js: "job_state_of y k = job_state_of x k" for k by (simp add: i(2) job_state_set_job) (simp add: job_state_of_def)
  from assms(1) show ?thesis unfolding executor_ok_def js by (auto simp: i worker_parts)
next
  case (Work seen)
  then obtain i task r w where i: "ex_worker x = Working i task" "y = (finish_job i r (x\<lparr>ex_world := w\<rparr>))\<lparr>ex_worker := Waiting\<rparr>"
    using assms(2) by (auto simp: exec_step_def worker_work_def split: worker.splits if_splits prod.splits)
  obtain s where s: "terminal s" "\<And>k. job_state_of y k = (if k = i then map_option (\<lambda>_. s) (ex_jobs x k) else job_state_of x k)"
    using finish_job_state [of i r "x\<lparr>ex_world := w\<rparr>"] by (auto simp: i(2))
  then have "s \<noteq> Queued" "s \<noteq> Running" by (auto simp: terminal_def)
  with assms(1) show ?thesis unfolding executor_ok_def s(2) by (auto simp: i worker_parts)
next
  case Shutdown
  then have "waiting_ids y = waiting_ids x" "running_job y = running_job x" "job_state_of y = job_state_of x"
    "ex_running y = ex_running x" "ex_worker y = ex_worker x" "ex_stop x \<longrightarrow> ex_stop y"
    using assms(2) by (cases "ex_running x"; auto simp: exec_step_def shutdown_begin_def worker_parts)+
  with assms(1) show ?thesis by (auto simp: executor_ok_def)
next
  case Join
  then have "waiting_ids y = waiting_ids x" "running_job y = running_job x" "job_state_of y = job_state_of x"
    "\<not> ex_running y" "ex_worker y = No_Worker"
    using assms(2) by (auto simp: exec_step_def shutdown_join_def worker_parts split: if_splits)
  with assms(1) show ?thesis by (simp add: executor_ok_def)
qed

lemma executor_ok_new: "executor_ok (new_executor w)"
  by (simp add: executor_ok_def worker_parts new_executor_def job_state_of_def)

lemma reaches_ok: "reaches H x tr y \<Longrightarrow> executor_ok x \<Longrightarrow> executor_ok y"
  by (induction rule: reaches.induct) (auto intro: executor_ok_step)

section \<open>The life of a job\<close>

text \<open>The edges between the states of a job.\<close>

fun may_become :: "job_state \<Rightarrow> job_state \<Rightarrow> bool" where
  "may_become Queued t \<longleftrightarrow> t = Queued \<or> t = Running \<or> t = Cancelled"
| "may_become Running t \<longleftrightarrow> t = Running \<or> terminal t"
| "may_become s t \<longleftrightarrow> s = t"

lemma job_state_step:
  assumes "executor_ok x" and "exec_step H l x = Some y" and "job_state_of x k = Some s"
  shows "\<exists>t. job_state_of y k = Some t \<and> may_become s t \<and> (hj_cancel (the (ex_jobs x k)) \<longrightarrow> hj_cancel (the (ex_jobs y k))) \<and>
           (s = Queued \<longrightarrow> hj_cancel (the (ex_jobs x k)) \<longrightarrow> t = Queued \<or> t = Cancelled)"
proof -
  obtain j where j: "ex_jobs x k = Some j" "hj_state j = s" using assms(3) by (auto simp: job_state_of_def)
  have refl: "may_become s s" by (cases s) simp_all
  show ?thesis
  proof (cases l)
    case Check
    then obtain i task where i: "ex_worker x = Holding i task"
      "y = (if job_cancelled i x then (set_job i (\<lambda>j. j\<lparr>hj_state := Cancelled\<rparr>) x)\<lparr>ex_worker := Waiting\<rparr>
            else (set_job i (\<lambda>j. j\<lparr>hj_state := Running\<rparr>) x)\<lparr>ex_worker := Working i task\<rparr>)"
      using assms(2) by (auto simp: exec_step_def worker_check_def split: worker.splits)
    have "job_state_of x i = Some Queued" using executor_okD(2) [OF assms(1), of i] i(1) by (simp add: worker_parts)
    then have "k = i \<Longrightarrow> s = Queued" using assms(3) by simp
    then show ?thesis using j refl by (auto simp: i(2) job_state_of_def set_job_def job_cancelled_def)
  next
    case (Work seen)
    then obtain i task r w where i: "ex_worker x = Working i task" "y = (finish_job i r (x\<lparr>ex_world := w\<rparr>))\<lparr>ex_worker := Waiting\<rparr>"
      using assms(2) by (auto simp: exec_step_def worker_work_def split: worker.splits if_splits prod.splits)
    have "job_state_of x i = Some Running" using executor_okD(3) [OF assms(1), of i] i(1) by (simp add: worker_parts)
    then have "k = i \<Longrightarrow> s = Running" using assms(3) by simp
    then show ?thesis using j refl
      by (cases r) (auto simp: i(2) job_state_of_def set_job_def finish_job_def terminal_def)
  next
    case (Submit i lbl task)
    then have "ex_jobs x i = None" "y = x\<lparr>ex_jobs := (ex_jobs x)(i \<mapsto> new_job i lbl), ex_flight := ex_flight x @ [(i, task)]\<rparr>"
      using assms(2) by (auto simp: exec_step_def submit_begin_def split: if_splits)
    then show ?thesis using j refl by (auto simp: job_state_of_def)
  qed (use assms(2) j refl in \<open>auto simp: exec_step_def start_worker_def submit_end_def try_cancel_def worker_wake_def worker_timeout_def
         worker_progress_def shutdown_begin_def shutdown_join_def job_state_of_def set_job_def split: if_splits list.splits worker.splits\<close>)
qed

text \<open>What a job can be later.\<close>

fun later_state :: "job_state \<Rightarrow> job_state \<Rightarrow> bool" where
  "later_state Queued t \<longleftrightarrow> True"
| "later_state Running t \<longleftrightarrow> t \<noteq> Queued"
| "later_state s t \<longleftrightarrow> s = t"

lemma later_state_step: "later_state s t \<Longrightarrow> may_become t u \<Longrightarrow> later_state s u"
  by (cases s; cases t) (auto simp: terminal_def)

lemma job_state_reaches:
  assumes "reaches H x tr y" and "executor_ok x" and "job_state_of x k = Some s"
  shows "\<exists>t. job_state_of y k = Some t \<and> later_state s t \<and> (hj_cancel (the (ex_jobs x k)) \<longrightarrow> hj_cancel (the (ex_jobs y k))) \<and>
           (s = Queued \<longrightarrow> hj_cancel (the (ex_jobs x k)) \<longrightarrow> t = Queued \<or> t = Cancelled)"
  using assms
proof (induction rule: reaches.induct)
  case reaches_refl
  then show ?case by (cases s) (auto simp: terminal_def)
next
  case (reaches_step tr y l z)
  then obtain t where t: "job_state_of y k = Some t" "later_state s t" "hj_cancel (the (ex_jobs x k)) \<longrightarrow> hj_cancel (the (ex_jobs y k))"
    "s = Queued \<longrightarrow> hj_cancel (the (ex_jobs x k)) \<longrightarrow> t = Queued \<or> t = Cancelled" by blast
  have "executor_ok y" using reaches_step by (auto intro: reaches_ok)
  from job_state_step [OF this reaches_step.hyps(2) t(1)] obtain u where
    u: "job_state_of z k = Some u" "may_become t u" "hj_cancel (the (ex_jobs y k)) \<longrightarrow> hj_cancel (the (ex_jobs z k))"
    "t = Queued \<longrightarrow> hj_cancel (the (ex_jobs y k)) \<longrightarrow> u = Queued \<or> u = Cancelled" by blast
  moreover have "later_state s u" using t(2) u(2) by (rule later_state_step)
  moreover have "t = Cancelled \<longrightarrow> u = Cancelled" using u(2) by auto
  ultimately show ?case using t by blast
qed

section \<open>The order of the jobs\<close>

fun enqueued :: "'w label list \<Rightarrow> string list" where
  "enqueued [] = []"
| "enqueued (Enqueue i # ls) = i # enqueued ls"
| "enqueued (_ # ls) = enqueued ls"

lemma enqueued_snoc: "enqueued (tr @ [l]) = enqueued tr @ (case l of Enqueue i \<Rightarrow> [i] | _ \<Rightarrow> [])"
  by (induction tr rule: enqueued.induct) (auto split: label.splits)

definition all_terminal :: "'w executor \<Rightarrow> string list \<Rightarrow> bool" where
  "all_terminal x is \<longleftrightarrow> (\<forall>i \<in> set is. \<exists>s. job_state_of x i = Some s \<and> terminal s)"

lemma all_terminal_step:
  assumes "executor_ok x" and "exec_step H l x = Some y" and "all_terminal x is"
  shows "all_terminal y is"
  unfolding all_terminal_def
proof
  fix i assume "i \<in> set is"
  then obtain s where s: "job_state_of x i = Some s" "terminal s" using assms(3) by (auto simp: all_terminal_def)
  from job_state_step [OF assms(1,2) s(1)] obtain t where "job_state_of y i = Some t" "may_become s t" by blast
  with s(2) show "\<exists>s. job_state_of y i = Some s \<and> terminal s" by (cases s) (auto simp: terminal_def)
qed

lemma served_in_order:
  assumes "reaches H x tr y" and "executor_ok x" and "current x = []" and "ex_queue x = []"
  shows "\<exists>before. enqueued tr = before @ current y @ map fst (ex_queue y) \<and> all_terminal y before"
  using assms
proof (induction rule: reaches.induct)
  case reaches_refl
  then show ?case by (intro exI [of _ "[]"]) (simp add: all_terminal_def)
next
  case (reaches_step tr y l z)
  then obtain before where d: "enqueued tr = before @ current y @ map fst (ex_queue y)" "all_terminal y before" by blast
  have ok: "executor_ok y" using reaches_step by (auto intro: reaches_ok)
  note keep = all_terminal_step [OF ok reaches_step.hyps(2)]
  have same: ?case if "enqueued (tr @ [l]) = enqueued tr" "current z = current y" "ex_queue z = ex_queue y"
    using d keep that by (intro exI [of _ before]) simp
  note st = reaches_step.hyps(2)
  show ?case
  proof (cases l)
    case (Enqueue i)
    then obtain e es where e: "filter (\<lambda>e. fst e = i) (ex_flight y) = e # es"
      "z = y\<lparr>ex_flight := filter (\<lambda>e. fst e \<noteq> i) (ex_flight y), ex_queue := ex_queue y @ [e]\<rparr>"
      using st by (auto simp: exec_step_def submit_end_def split: list.splits)
    have "e \<in> set (filter (\<lambda>e. fst e = i) (ex_flight y))" unfolding e(1) by simp
    then have "fst e = i" by simp
    with d keep Enqueue show ?thesis by (intro exI [of _ before]) (simp add: enqueued_snoc e(2) current_def)
  next
    case Wake
    with st d keep show ?thesis
      by (intro exI [of _ before]) (auto simp: enqueued_snoc exec_step_def worker_wake_def current_def split: if_splits list.splits)
  next
    case Check
    then obtain i task where i: "ex_worker y = Holding i task"
      "z = (if job_cancelled i y then (set_job i (\<lambda>j. j\<lparr>hj_state := Cancelled\<rparr>) y)\<lparr>ex_worker := Waiting\<rparr>
            else (set_job i (\<lambda>j. j\<lparr>hj_state := Running\<rparr>) y)\<lparr>ex_worker := Working i task\<rparr>)"
      using st by (auto simp: exec_step_def worker_check_def split: worker.splits)
    show ?thesis
    proof (cases "job_cancelled i y")
      case True
      then have "job_state_of z i = Some Cancelled" by (auto simp: i(2) job_state_of_def set_job_def job_cancelled_def split: option.splits)
      then have "all_terminal z (before @ [i])" using keep [OF d(2)] by (auto simp: all_terminal_def terminal_def)
      moreover have "enqueued (tr @ [l]) = (before @ [i]) @ current z @ map fst (ex_queue z)"
        using d(1) True Check by (simp add: enqueued_snoc i current_def)
      ultimately show ?thesis by blast
    next
      case False
      with d keep Check show ?thesis by (intro exI [of _ before]) (simp add: enqueued_snoc i current_def)
    qed
  next
    case (Work seen)
    then obtain i task r w where i: "ex_worker y = Working i task" "z = (finish_job i r (y\<lparr>ex_world := w\<rparr>))\<lparr>ex_worker := Waiting\<rparr>"
      using st by (auto simp: exec_step_def worker_work_def split: worker.splits if_splits prod.splits)
    have "job_state_of y i = Some Running" using executor_okD(3) [OF ok, of i] i(1) by (simp add: worker_parts)
    then have "ex_jobs y i \<noteq> None" by (auto simp: job_state_of_def)
    then have "\<exists>s. job_state_of z i = Some s \<and> terminal s"
      using finish_job_state [of i r "y\<lparr>ex_world := w\<rparr>"] by (auto simp: i(2))
    then have "all_terminal z (before @ [i])" using keep [OF d(2)] by (auto simp: all_terminal_def)
    moreover have "enqueued (tr @ [l]) = (before @ [i]) @ current z @ map fst (ex_queue z)"
      using d(1) Work by (simp add: enqueued_snoc i current_def)
    ultimately show ?thesis by blast
  next
    case Start_Worker
    then show ?thesis using same st executor_okD(4) [OF ok]
      by (auto simp: enqueued_snoc exec_step_def start_worker_def current_def split: if_splits)
  next
    case Join
    then show ?thesis using same st by (auto simp: enqueued_snoc exec_step_def shutdown_join_def current_def split: if_splits)
  qed (use same st in \<open>auto simp: enqueued_snoc exec_step_def submit_begin_def try_cancel_def worker_timeout_def worker_progress_def
         shutdown_begin_def current_def split: if_splits worker.splits\<close>)
qed

section \<open>The worker empties the queue\<close>

text \<open>The steps that the worker takes for one job.\<close>

definition worker_label :: "'w label \<Rightarrow> bool" where
  "worker_label l \<longleftrightarrow> l = Wake \<or> l = Check \<or> l = Work False"

lemma worker_labels [simp]: "worker_label Wake" "worker_label Check" "worker_label (Work False)"
  by (simp_all add: worker_label_def)

lemma finish_current:
  assumes "ex_worker x \<noteq> No_Worker" and "ex_worker x \<noteq> Exited"
  shows "\<exists>ls y. reaches H x ls y \<and> list_all worker_label ls \<and> ex_worker y = Waiting \<and> ex_queue y = ex_queue x"
proof -
  have work: "\<exists>ls y. reaches H x ls y \<and> list_all worker_label ls \<and> ex_worker y = Waiting \<and> ex_queue y = ex_queue x"
    if "ex_worker x = Working i task" for x :: "'a executor" and i task
  proof -
    obtain r w where "run_task H task False (ex_world x) = (r, w)" by (cases "run_task H task False (ex_world x)")
    then have "exec_step H (Work False) x = Some ((finish_job i r (x\<lparr>ex_world := w\<rparr>))\<lparr>ex_worker := Waiting\<rparr>)"
      using that by (simp add: exec_step_def worker_work_def)
    from reaches_step [OF reaches_refl this] show ?thesis
      by (intro exI conjI) (assumption, simp_all)
  qed
  consider "ex_worker x = Waiting" | i task where "ex_worker x = Holding i task" | i task where "ex_worker x = Working i task"
    using assms by (cases "ex_worker x") auto
  then show ?thesis
  proof cases
    case 1
    then show ?thesis by (intro exI [of _ "[]"] exI [of _ x]) (simp add: reaches_refl)
  next
    case (2 i task)
    define y where "y = (if job_cancelled i x then (set_job i (\<lambda>j. j\<lparr>hj_state := Cancelled\<rparr>) x)\<lparr>ex_worker := Waiting\<rparr>
        else (set_job i (\<lambda>j. j\<lparr>hj_state := Running\<rparr>) x)\<lparr>ex_worker := Working i task\<rparr>)"
    have "exec_step H Check x = Some y" using 2 by (simp add: exec_step_def worker_check_def y_def)
    from reaches_step [OF reaches_refl this] have r: "reaches H x [Check] y" by simp
    show ?thesis
    proof (cases "job_cancelled i x")
      case True
      with r show ?thesis by (intro exI [of _ "[Check]"] exI [of _ y]) (simp add: y_def)
    next
      case False
      then have "ex_worker y = Working i task" "ex_queue y = ex_queue x" by (simp_all add: y_def)
      from work [OF this(1)] this(2) obtain ls z where
        z: "reaches H y ls z" "list_all worker_label ls" "ex_worker z = Waiting" "ex_queue z = ex_queue x" by auto
      from reaches_trans [OF z(1) r] z(2-4) show ?thesis
        by (intro exI [of _ "[Check] @ ls"] exI [of _ z]) simp
    qed
  qed (rule work)
qed

lemma drain_queue:
  "length (ex_queue x) = n \<Longrightarrow> ex_worker x = Waiting \<Longrightarrow>
     \<exists>ls y. reaches H x ls y \<and> list_all worker_label ls \<and> ex_worker y = Waiting \<and> ex_queue y = []"
proof (induction n arbitrary: x)
  case 0
  then show ?case by (intro exI [of _ "[]"] exI [of _ x]) (simp add: reaches_refl)
next
  case (Suc n)
  then obtain i task q where q: "ex_queue x = (i, task) # q" by (cases "ex_queue x") auto
  let ?x = "x\<lparr>ex_queue := q, ex_worker := Holding i task\<rparr>"
  have "exec_step H Wake x = Some ?x" using Suc.prems(2) q by (simp add: exec_step_def worker_wake_def)
  from reaches_step [OF reaches_refl this] have 1: "reaches H x [Wake] ?x" by simp
  obtain l1 y where 2: "reaches H ?x l1 y" "list_all worker_label l1" "ex_worker y = Waiting" "ex_queue y = q"
    using finish_current [of ?x H] by auto
  have "length (ex_queue y) = n" using 2(4) q Suc.prems(1) by simp
  from Suc.IH [OF this 2(3)] obtain l2 z where
    3: "reaches H y l2 z" "list_all worker_label l2" "ex_worker z = Waiting" "ex_queue z = []" by blast
  from reaches_trans [OF 3(1) reaches_trans [OF 2(1) 1]] show ?case
    using 2(2) 3(2-4) by (intro exI [of _ "([Wake] @ l1) @ l2"] exI [of _ z]) simp
qed

section \<open>Properties\<close>

text \<open>C10: In every run of the executor, however the steps of the worker, of the submitting and cancelling threads and of
  \<open>shutdown\<close> interleave: at most one job is \<open>running\<close>, and it is the one the worker works on; a job is \<open>queued\<close> exactly
  while it is on its way into the queue, in the queue or in the hands of the worker; and no job is in two places.\<close>

theorem one_job_at_a_time:
  assumes "reaches H (new_executor w) tr x"
  shows "distinct (waiting_ids x @ running_job x) \<and> length (running_job x) \<le> 1 \<and>
         {i. job_state_of x i = Some Running} = set (running_job x) \<and>
         {i. job_state_of x i = Some Queued} = set (waiting_ids x)"
proof -
  have "executor_ok x" by (rule reaches_ok [OF assms executor_ok_new])
  then show ?thesis by (auto simp: executor_ok_def running_job_def split: worker.splits)
qed

text \<open>A task that returns and the empty hardware.\<close>

definition echo_task :: "'w hw_task" where
  "echo_task = (\<lambda>_ w. (Returned (JInt 1), w))"

definition no_hw :: "unit hw_ops" where
  "no_hw = \<lparr>ho_open = (\<lambda>w. ([], w)), ho_is_open = (\<lambda>_. True), ho_close = (\<lambda>w. w)\<rparr>"

definition demo_run :: "unit label list" where
  "demo_run = [Start_Worker, Submit ''a'' [] echo_task, Submit ''b'' [] echo_task, Enqueue ''b'', Wake, Enqueue ''a'', Check]"

lemma demo_reaches: "\<exists>x. reaches no_hw (new_executor ()) demo_run x \<and> current x = [''b''] \<and> map fst (ex_queue x) = [''a''] \<and> running_job x = [''b'']"
proof -
  have "\<exists>x. run_labels no_hw demo_run (new_executor ()) = Some x \<and> current x = [''b''] \<and> map fst (ex_queue x) = [''a''] \<and> running_job x = [''b'']"
    by (simp add: demo_run_def exec_step_def start_worker_def new_executor_def submit_begin_def submit_end_def worker_wake_def
        worker_check_def set_job_def job_cancelled_def new_job_def current_def running_job_def)
  then show ?thesis by (elim exE conjE) (intro exI conjI; (rule run_labels_reaches)?; assumption)
qed

theorem one_job_at_a_time_witness:
  "\<exists>x. reaches no_hw (new_executor ()) demo_run x \<and> {i. job_state_of x i = Some Running} = {''b''}"
proof -
  obtain x where x: "reaches no_hw (new_executor ()) demo_run x" "running_job x = [''b'']" using demo_reaches by blast
  from one_job_at_a_time [OF x(1)] x show ?thesis by auto
qed

text \<open>Jobs are served in the order in which they entered the queue: in every run the jobs that were enqueued are, in
  this order, jobs that are complete, failed or cancelled, then the one the worker has in hand, if any, and then the
  queue.\<close>

theorem jobs_served_in_order:
  assumes "reaches H (new_executor w) tr x"
  shows "\<exists>before. enqueued tr = before @ current x @ map fst (ex_queue x) \<and> all_terminal x before"
  by (rule served_in_order [OF assms executor_ok_new]) (simp_all add: new_executor_def current_def)

theorem jobs_served_in_order_witness:
  "\<exists>x before. reaches no_hw (new_executor ()) demo_run x \<and> enqueued demo_run = before @ [''b''] @ [''a''] \<and> all_terminal x before"
proof -
  obtain x where x: "reaches no_hw (new_executor ()) demo_run x" "current x = [''b'']" "map fst (ex_queue x) = [''a'']"
    using demo_reaches by (elim exE conjE)
  from jobs_served_in_order [OF x(1)] obtain before where
    "enqueued demo_run = before @ [''b''] @ [''a'']" "all_terminal x before" unfolding x(2,3) by blast
  with x(1) show ?thesis by blast
qed



text \<open>C40: The worker can always empty the queue: from every state of a run in which the worker is there, steps of the
  worker alone lead to a state in which every job that was enqueued is complete, failed or cancelled.  (A task is a
  function here: it returns.)\<close>

theorem queue_is_emptied:
  assumes "reaches H (new_executor w) tr x" and "ex_worker x \<noteq> No_Worker" and "ex_worker x \<noteq> Exited"
  shows "\<exists>ls y. reaches H x ls y \<and> list_all worker_label ls \<and> all_terminal y (enqueued tr)"
proof -
  obtain l1 y1 where 1: "reaches H x l1 y1" "list_all worker_label l1" "ex_worker y1 = Waiting" using finish_current [OF assms(2,3)] by blast
  obtain l2 y where 2: "reaches H y1 l2 y" "list_all worker_label l2" "ex_worker y = Waiting" "ex_queue y = []"
    using drain_queue [OF refl 1(3)] by blast
  have r: "reaches H x (l1 @ l2) y" by (rule reaches_trans [OF 2(1) 1(1)])
  have "list_all worker_label ls \<Longrightarrow> enqueued (tr @ ls) = enqueued tr" for ls
    by (induction ls rule: rev_induct) (auto simp: worker_label_def enqueued_snoc simp flip: append_assoc)
  then have e: "enqueued (tr @ l1 @ l2) = enqueued tr" using 1(2) 2(2) by simp
  have "\<exists>before. enqueued (tr @ l1 @ l2) = before @ current y @ map fst (ex_queue y) \<and> all_terminal y before"
    by (rule served_in_order [OF reaches_trans [OF r assms(1)] executor_ok_new]) (simp_all add: new_executor_def current_def)
  then have "all_terminal y (enqueued tr)" using 2(3,4) by (simp add: e current_def)
  with r 1(2) 2(2) show ?thesis by (intro exI [of _ "l1 @ l2"] exI [of _ y]) simp
qed

theorem queue_is_emptied_witness:
  "\<exists>x ls y. reaches no_hw (new_executor ()) demo_run x \<and> reaches no_hw x ls y \<and> list_all worker_label ls \<and> all_terminal y [''b'', ''a'']"
proof -
  obtain x where x: "reaches no_hw (new_executor ()) demo_run x" "running_job x = [''b'']" using demo_reaches by blast
  then have "ex_worker x \<noteq> No_Worker" "ex_worker x \<noteq> Exited" by (auto simp: running_job_def)
  from queue_is_emptied [OF x(1) this] x(1) show ?thesis by (auto simp: demo_run_def)
qed

section \<open>A job that is lost\<close>

text \<open>\<open>submit\<close> checks \<open>running_\<close> first and enqueues later: a job whose submission overlaps with \<open>shutdown\<close> stays
  \<open>queued\<close> for as long as the executor is not started again.\<close>

definition late_run :: "unit label list" where
  "late_run = [Start_Worker, Submit ''a'' [] echo_task, Shutdown, Wake, Join, Enqueue ''a'']"

theorem late_submission_stays_queued:
  "\<exists>x. reaches no_hw (new_executor ()) late_run x \<and> job_state_of x ''a'' = Some Queued \<and> ex_worker x = No_Worker \<and> \<not> ex_running x"
proof -
  have "\<exists>x. run_labels no_hw late_run (new_executor ()) = Some x \<and> job_state_of x ''a'' = Some Queued \<and> ex_worker x = No_Worker \<and> \<not> ex_running x"
    by (simp add: late_run_def exec_step_def start_worker_def new_executor_def submit_begin_def submit_end_def worker_wake_def
        shutdown_begin_def shutdown_join_def job_state_of_def new_job_def no_hw_def)
  then show ?thesis by (elim exE conjE) (intro exI conjI; (rule run_labels_reaches)?; assumption)
qed

end
