(* ===== verification/Job_Id.thy ===== *)
theory Job_Id
  imports Hardware_Executor
begin

text \<open>
  \<open>generateJobId\<close> of src/src/hardware/hardware_executor.cpp: whatever the four random words are, the text is a UUID of
  version 4.
\<close>

unbundle bit_operations_syntax

definition hex_lower_digits :: "char list" where
  "hex_lower_digits = ''0123456789abcdef''"

lemma hex_len_le: "n < 16 ^ w \<Longrightarrow> 0 < w \<Longrightarrow> hex_len n \<le> w"
proof (induction w arbitrary: n)
  case (Suc w)
  show ?case
  proof (cases "n < 16")
    case False
    then have "w \<noteq> 0" using Suc.prems(1) by (cases w) auto
    moreover have "n div 16 < 16 ^ w" using Suc.prems(1) by (simp add: div_less_iff_less_mult)
    ultimately have "hex_len (n div 16) \<le> w" using Suc.IH by simp
    with False show ?thesis by (subst hex_len.simps) simp
  qed (subst hex_len.simps, simp)
qed simp

lemma hex_lower_eq: "unat x < 16 ^ w \<Longrightarrow> 0 < w \<Longrightarrow> hex_lower w x = map to_lower (hex_pad w (unat x))"
  by (simp add: hex_lower_def hex_fmt_def max_absorb1 hex_len_le)

lemma lower_digit: "to_lower (hex_digit n) = hex_lower_digits ! (n mod 16)"
proof -
  have "list_all (\<lambda>m. to_lower (''0123456789ABCDEF'' ! m) = hex_lower_digits ! m) [0..<16]" by code_simp
  then show ?thesis by (simp add: list_all_iff hex_digit_def)
qed

lemma hex_pad_digits: "set (map to_lower (hex_pad k n)) \<subseteq> set hex_lower_digits"
  proof (induction k arbitrary: n)
  case (Suc k)
  have "hex_lower_digits ! (n mod 16) \<in> set hex_lower_digits" by (rule nth_mem) (simp add: hex_lower_digits_def)
  with Suc show ?case by (simp add: lower_digit)
qed simp

lemma hex_pad_hd: "hex_pad (Suc k) n ! 0 = hex_digit (n div 16 ^ k)"
proof (induction k arbitrary: n)
  case (Suc k)
  have "hex_pad (Suc (Suc k)) n ! 0 = hex_pad (Suc k) (n div 16) ! 0" by (simp add: nth_append)
  also have "\<dots> = hex_digit (n div 16 div 16 ^ k)" by (rule Suc.IH)
  finally show ?case by (simp add: div_mult2_eq)
qed simp

lemma unat_drop_bit: "unat (drop_bit n (x :: u32)) = unat x div 2 ^ n"
  by (simp only: unat_drop_bit_eq) (simp only: drop_bit_eq_div)

lemma small_half: "unat (x AND (0xFFFF :: u32)) < 16 ^ 4" "unat (drop_bit 16 (x :: u32)) < 16 ^ 4"
proof -
  have "(0xFFFF :: u32) = mask 16" by (simp add: mask_eq_exp_minus_1)
  then have "x AND 0xFFFF = take_bit 16 x" by (simp only: take_bit_eq_mask)
  then have "unat (x AND 0xFFFF) = take_bit 16 (unat x)" by (simp add: unsigned_take_bit_eq)
  then show "unat (x AND 0xFFFF) < 16 ^ 4" by (simp add: take_bit_eq_mod)
  have "unat x < 2 ^ 32" using unsigned_less [of x] by simp
  then show "unat (drop_bit 16 x) < 16 ^ 4" unfolding unat_drop_bit by simp
qed

lemma small_word: "unat (x :: u32) < 16 ^ 8"
  using unsigned_less [of x] by simp

lemma bit_low_half: "bit (x AND (0xFFFF :: u32)) i \<longleftrightarrow> i < 16 \<and> bit x i"
proof -
  have "(0xFFFF :: u32) = mask 16" by (simp add: mask_eq_exp_minus_1)
  then show ?thesis by (simp only: take_bit_eq_mask [symmetric] bit_take_bit_iff)
qed

text \<open>The first digit of the third group, and of the fourth.\<close>

lemma version_nibble: "unat (((b AND 0xFFFF0FFF) OR 0x4000) AND (0xFFFF :: u32)) div 16 ^ 3 = 4"
proof -
  let ?v = "((b AND 0xFFFF0FFF) OR 0x4000) AND (0xFFFF :: u32)"
  have "drop_bit 12 ?v = 4"
  proof (rule bit_word_eqI)
    fix i assume "i < LENGTH(32)"
    show "bit (drop_bit 12 ?v) i = bit (4 :: u32) i"
    proof (cases "i < 4")
      case True
      then consider "i = 0" | "i = 1" | "i = 2" | "i = 3" by linarith
      then show ?thesis by cases (simp_all add: bit_drop_bit_eq bit_low_half bit_or_iff bit_and_iff)
    next
      case False
      then have "\<not> bit (drop_bit 12 ?v) i" by (simp only: bit_drop_bit_eq bit_low_half o_apply) simp
      moreover have "(4 :: u32) = push_bit 2 1" by simp
      then have "\<not> bit (4 :: u32) i" using False by (simp only: bit_push_bit_iff bit_1_iff) auto
      ultimately show ?thesis by simp
    qed
  qed
  then have "unat (drop_bit 12 ?v) = 4" by simp
  then show ?thesis unfolding unat_drop_bit by simp
qed

lemma variant_nibble: "unat (drop_bit 16 ((c AND 0x3FFFFFFF) OR (0x80000000 :: u32))) div 16 ^ 3 \<in> {8, 9, 10, 11}"
proof -
  let ?v = "(c AND 0x3FFFFFFF) OR (0x80000000 :: u32)"
  have "drop_bit 28 ?v = (drop_bit 28 c AND 3) OR 8"
  proof (rule bit_word_eqI)
    fix i assume i: "i < LENGTH(32)"
    have hi: "\<not> bit (3 :: u32) i" "\<not> bit (8 :: u32) i" if "4 \<le> i"
    proof -
      have "(3 :: u32) = mask 2" "(8 :: u32) = push_bit 3 1" by (simp_all add: mask_eq_exp_minus_1)
      then show "\<not> bit (3 :: u32) i" "\<not> bit (8 :: u32) i" using that by (simp_all only: bit_push_bit_iff bit_1_iff bit_mask_iff) auto
    qed
    show "bit (drop_bit 28 ?v) i = bit ((drop_bit 28 c AND 3) OR 8) i"
    proof (cases "i < 4")
      case True
      then consider "i = 0" | "i = 1" | "i = 2" | "i = 3" by linarith
      then show ?thesis by cases (simp_all add: bit_drop_bit_eq bit_or_iff bit_and_iff)
    next
      case False
      then have "\<not> bit ?v (28 + i)" by (auto dest: bit_imp_le_length)
      with False hi show ?thesis by (simp add: bit_drop_bit_eq bit_or_iff bit_and_iff)
    qed
  qed
  moreover have "x AND 3 \<in> {0, 1, 2, 3 :: u32}" for x
  proof -
    have "(3 :: u32) = mask 2" by (simp add: mask_eq_exp_minus_1)
    then have "unat (x AND 3) = take_bit 2 (unat x)" by (simp only: take_bit_eq_mask [symmetric] unsigned_take_bit_eq)
    then have "unat (x AND 3) < 4" by (simp only: take_bit_eq_mod) simp
    then consider "unat (x AND 3) = 0" | "unat (x AND 3) = 1" | "unat (x AND 3) = 2" | "unat (x AND 3) = 3" by linarith
    then show ?thesis
    proof cases
      case 1 then have "x AND 3 = 0" by (simp only: word_unat_eq_iff) simp
      then show ?thesis by simp
    next
      case 2 then have "x AND 3 = 1" by (simp only: word_unat_eq_iff) simp
      then show ?thesis by simp
    next
      case 3 then have "x AND 3 = 2" by (simp only: word_unat_eq_iff) simp
      then show ?thesis by simp
    next
      case 4 then have "x AND 3 = 3" by (simp only: word_unat_eq_iff) simp
      then show ?thesis by simp
    qed
  qed
  then obtain y where y: "drop_bit 28 c AND 3 = y" "y \<in> {0, 1, 2, 3}" by blast
  have "unat ((drop_bit 28 c AND 3) OR 8) \<in> {8, 9, 10, 11}" unfolding y(1) using y(2) by (elim insertE) simp_all
  ultimately have "unat (drop_bit 28 ?v) \<in> {8, 9, 10, 11}" by simp
  moreover have "unat (drop_bit 28 ?v) = unat (drop_bit 16 ?v) div 16 ^ 3"
    unfolding unat_drop_bit by (simp add: div_mult2_eq [symmetric])
  ultimately show ?thesis by simp
qed

lemma hex_lower_group:
  assumes "unat x < 16 ^ w" and "0 < w"
  shows "length (hex_lower w x) = w" and "set (hex_lower w x) \<subseteq> set hex_lower_digits"
  using assms hex_pad_digits by (auto simp: hex_lower_eq)

lemma hex_lower_hd:
  assumes "unat x < 16 ^ 4"
  shows "hex_lower 4 x ! 0 = hex_lower_digits ! (unat x div 16 ^ 3)"
proof -
  have three: "(4 :: nat) = Suc 3" by simp
  have "hex_lower 4 x ! 0 = map to_lower (hex_pad 4 (unat x)) ! 0" using assms by (subst hex_lower_eq) simp_all
  also have "\<dots> = to_lower (hex_pad 4 (unat x) ! 0)" by (rule nth_map) simp
  also have "\<dots> = to_lower (hex_pad (Suc 3) (unat x) ! 0)" by (simp only: three)
  also have "\<dots> = hex_lower_digits ! (unat x div 16 ^ 3 mod 16)" by (simp only: hex_pad_hd lower_digit)
  also have "unat x div 16 ^ 3 mod 16 = unat x div 16 ^ 3" using assms by (simp add: div_less_iff_less_mult)
  finally show ?thesis .
qed

definition uuid4 :: "string \<Rightarrow> bool" where
  "uuid4 s \<longleftrightarrow>
     (\<exists>a b c d e. s = a @ ''-'' @ b @ ''-'' @ c @ ''-'' @ d @ ''-'' @ e \<and> map length [a, b, c, d, e] = [8, 4, 4, 4, 12] \<and>
        set (concat [a, b, c, d, e]) \<subseteq> set hex_lower_digits \<and> c ! 0 = CHR ''4'' \<and> d ! 0 \<in> set ''89ab'')"

text \<open>Every job identifier is a UUID of version 4, whatever the random words are: five groups of 8, 4, 4, 4 and 12 small
  hexadecimal digits, the third group begins with 4 and the fourth with 8, 9, a or b.\<close>

theorem job_id_is_uuid4: "uuid4 (job_id_of a b c d)"
proof -
  let ?b = "(b AND 0xFFFF0FFF) OR 0x4000" and ?c = "(c AND 0x3FFFFFFF) OR 0x80000000"
  have four: "(0 :: nat) < 4" "(0 :: nat) < 8" by simp_all
  note g8 = hex_lower_group [OF small_word four(2)]
  note hi = hex_lower_group [OF small_half(2) four(1)] and lo = hex_lower_group [OF small_half(1) four(1)]
  have v: "hex_lower 4 (?b AND 0xFFFF) ! 0 = CHR ''4''"
    unfolding hex_lower_hd [OF small_half(1)] version_nibble by (simp add: hex_lower_digits_def)
  have "hex_lower_digits ! m \<in> set ''89ab''" if "m \<in> {8, 9, 10, 11}" for m
    using that by (elim insertE) (simp_all add: hex_lower_digits_def)
  then have w: "hex_lower 4 (drop_bit 16 ?c) ! 0 \<in> set ''89ab''"
    unfolding hex_lower_hd [OF small_half(2)] using variant_nibble by blast
  have "job_id_of a b c d = hex_lower 8 a @ ''-'' @ hex_lower 4 (drop_bit 16 ?b) @ ''-'' @ hex_lower 4 (?b AND 0xFFFF) @ ''-'' @
      hex_lower 4 (drop_bit 16 ?c) @ ''-'' @ (hex_lower 4 (?c AND 0xFFFF) @ hex_lower 8 d)"
    by (simp only: job_id_of_def Let_def append_assoc)
  moreover have "map length [hex_lower 8 a, hex_lower 4 (drop_bit 16 ?b), hex_lower 4 (?b AND 0xFFFF), hex_lower 4 (drop_bit 16 ?c),
      hex_lower 4 (?c AND 0xFFFF) @ hex_lower 8 d] = [8, 4, 4, 4, 4 + 8]"
    by (simp only: list.map length_append g8(1) hi(1) lo(1))
  then have "map length [hex_lower 8 a, hex_lower 4 (drop_bit 16 ?b), hex_lower 4 (?b AND 0xFFFF), hex_lower 4 (drop_bit 16 ?c),
      hex_lower 4 (?c AND 0xFFFF) @ hex_lower 8 d] = [8, 4, 4, 4, 12]"
    by (simp only: arith_simps)
  moreover have "set (concat [hex_lower 8 a, hex_lower 4 (drop_bit 16 ?b), hex_lower 4 (?b AND 0xFFFF), hex_lower 4 (drop_bit 16 ?c),
      hex_lower 4 (?c AND 0xFFFF) @ hex_lower 8 d]) \<subseteq> set hex_lower_digits"
    using g8(2) hi(2) lo(2) by (simp only: concat.simps set_append Un_subset_iff append_Nil2)
  ultimately show ?thesis unfolding uuid4_def using v w by (intro exI conjI)
qed

end
