(* ===== verification/Gui_Config.thy ===== *)
theory Gui_Config
  imports Scanner
begin

text \<open>
  The configuration of src/src/gui/app_config.h, and src/src/gui/bus_definition.cpp.
\<close>

unbundle bit_operations_syntax

datatype bus_format = HEX | DEC | BIN

record bus_definition =
  bd_name :: string
  bd_signals :: "string list"
  bd_format :: bus_format

record ila_signal_config =
  sc_name :: string
  sc_hi :: int
  sc_lo :: int
  sc_fmt :: bus_format
  sc_trig_cond :: int
  sc_trig_value :: u32
  sc_trig_cond_b :: int
  sc_trig_value_b :: u32

end
