(* ===== verification/Ila_Trigger.thy ===== *)
theory Ila_Trigger
  imports Gui_Config Ila_Hw
begin

text \<open>
  The trigger of the logic analyser: the conditions on signal lanes of src/src/gui/ila_panel.h, the registers that
  \<open>computeTriggerRegisters\<close> of src/src/gui/ila_panel.cpp makes of them, and the comparator
  src/hdl/ila/rtl/ila_trigger.sv that reads these registers.  A shift by 32 or more is undefined and gives no result.
\<close>

unbundle bit_operations_syntax

section \<open>Lanes and their conditions\<close>

datatype trigger_cond = TC_None | TC_Eq | TC_Neq | TC_Rise | TC_Fall | TC_Either | TC_Other int

record lane_trigger =
  lt_cond :: trigger_cond
  lt_value :: u32
  lt_cond_b :: trigger_cond
  lt_value_b :: u32

definition no_trigger :: lane_trigger where
  "no_trigger = \<lparr>lt_cond = TC_None, lt_value = 0, lt_cond_b = TC_None, lt_value_b = 0\<rparr>"

record ila_lane =
  ln_name :: string
  ln_hi :: int
  ln_lo :: int
  ln_fmt :: bus_format

definition lane_width :: "ila_lane \<Rightarrow> int" where
  "lane_width s = ln_hi s - ln_lo s + 1"

definition shift_left :: "u32 \<Rightarrow> int \<Rightarrow> u32 option" where
  "shift_left v n = (if 0 \<le> n \<and> n < 32 then Some (push_bit (nat n) v) else None)"

definition extract_lane :: "ila_lane \<Rightarrow> u32 \<Rightarrow> u32 option" where
  "extract_lane s sample =
     (let w = lane_width s
      in if w \<le> 0 \<or> ln_lo s < 0 then Some 0
         else if 32 \<le> ln_lo s then None
         else Some (drop_bit (nat (ln_lo s)) sample AND (if 32 \<le> w then 0xFFFFFFFF else push_bit (nat w) 1 - 1)))"

section \<open>The registers\<close>

record trigger_regs =
  tr_mask :: u32
  tr_value :: u32
  tr_rise :: u32
  tr_fall :: u32
  tr_mask2 :: u32
  tr_val2 :: u32

definition no_regs :: trigger_regs where
  "no_regs = \<lparr>tr_mask = 0, tr_value = 0, tr_rise = 0, tr_fall = 0, tr_mask2 = 0, tr_val2 = 0\<rparr>"

definition lane_bits :: "ila_lane \<Rightarrow> u32 option" where
  "lane_bits s =
     (if 32 \<le> lane_width s then Some 0xFFFFFFFF
      else do { m \<leftarrow> shift_left 1 (lane_width s); shift_left (m - 1) (ln_lo s) })"

definition group_a :: "ila_lane \<Rightarrow> lane_trigger \<Rightarrow> u32 \<Rightarrow> trigger_regs \<Rightarrow> trigger_regs option" where
  "group_a s t bits r =
     (case lt_cond t of
        TC_Eq \<Rightarrow> do {
          v \<leftarrow> shift_left (lt_value t) (ln_lo s);
          Some (r\<lparr>tr_mask := tr_mask r OR bits, tr_value := tr_value r OR (v AND bits)\<rparr>) }
      | TC_Neq \<Rightarrow> do {
          v \<leftarrow> shift_left (lt_value t) (ln_lo s);
          Some (r\<lparr>tr_mask := tr_mask r OR bits, tr_value := tr_value r OR (NOT v AND bits)\<rparr>) }
      | TC_Rise \<Rightarrow> Some (r\<lparr>tr_rise := tr_rise r OR bits\<rparr>)
      | TC_Fall \<Rightarrow> Some (r\<lparr>tr_fall := tr_fall r OR bits\<rparr>)
      | TC_Either \<Rightarrow> Some (r\<lparr>tr_rise := tr_rise r OR bits, tr_fall := tr_fall r OR bits\<rparr>)
      | _ \<Rightarrow> Some r)"

definition group_b :: "ila_lane \<Rightarrow> lane_trigger \<Rightarrow> u32 \<Rightarrow> trigger_regs \<Rightarrow> trigger_regs option" where
  "group_b s t bits r =
     (case lt_cond_b t of
        TC_Eq \<Rightarrow> do {
          v \<leftarrow> shift_left (lt_value_b t) (ln_lo s);
          Some (r\<lparr>tr_mask2 := tr_mask2 r OR bits, tr_val2 := tr_val2 r OR (v AND bits)\<rparr>) }
      | TC_Neq \<Rightarrow> do {
          v \<leftarrow> shift_left (lt_value_b t) (ln_lo s);
          Some (r\<lparr>tr_mask2 := tr_mask2 r OR bits, tr_val2 := tr_val2 r OR (NOT v AND bits)\<rparr>) }
      | _ \<Rightarrow> Some r)"

text \<open>The loop over the lanes; a lane behind the last trigger has none.\<close>

fun trigger_loop :: "ila_lane list \<Rightarrow> lane_trigger list \<Rightarrow> trigger_regs \<Rightarrow> trigger_regs option" where
  "trigger_loop [] ts r = Some r"
| "trigger_loop (s # ss) ts r =
     (let t = (case ts of [] \<Rightarrow> no_trigger | t # _ \<Rightarrow> t)
      in if lane_width s \<le> 0 \<or> ln_lo s < 0 then trigger_loop ss (tl ts) r
         else do {
           bits \<leftarrow> lane_bits s;
           r1 \<leftarrow> group_a s t bits r;
           r2 \<leftarrow> group_b s t bits r1;
           trigger_loop ss (tl ts) r2
         })"

definition compute_trigger_registers :: "ila_lane list \<Rightarrow> lane_trigger list \<Rightarrow> trigger_regs option" where
  "compute_trigger_registers ss ts = trigger_loop ss ts no_regs"

section \<open>The comparator\<close>

record comparator =
  cp_prev :: u32
  cp_match :: bool

definition active_a :: "trigger_regs \<Rightarrow> bool" where
  "active_a r \<longleftrightarrow> tr_mask r \<noteq> 0 \<or> tr_rise r \<noteq> 0 \<or> tr_fall r \<noteq> 0"

definition match_a :: "trigger_regs \<Rightarrow> u32 \<Rightarrow> u32 \<Rightarrow> bool" where
  "match_a r prev data \<longleftrightarrow>
     active_a r \<and> (tr_mask r = 0 \<or> data AND tr_mask r = tr_value r AND tr_mask r) \<and>
     (tr_rise r = 0 \<and> tr_fall r = 0 \<or> (NOT prev AND data) AND tr_rise r \<noteq> 0 \<or> (prev AND NOT data) AND tr_fall r \<noteq> 0)"

definition active_b :: "trigger_regs \<Rightarrow> bool" where
  "active_b r \<longleftrightarrow> tr_mask2 r \<noteq> 0"

definition match_b :: "trigger_regs \<Rightarrow> u32 \<Rightarrow> bool" where
  "match_b r data \<longleftrightarrow> active_b r \<and> (tr_mask2 r = 0 \<or> data AND tr_mask2 r = tr_val2 r AND tr_mask2 r)"

definition fire :: "trigger_regs \<Rightarrow> bool \<Rightarrow> u32 \<Rightarrow> u32 \<Rightarrow> bool" where
  "fire r or_mode prev data =
     (if or_mode then match_a r prev data \<or> match_b r data
      else (\<not> active_a r \<or> match_a r prev data) \<and> (\<not> active_b r \<or> match_b r data) \<and> (active_a r \<or> active_b r))"

text \<open>One clock: the comparison is registered, the previous word is the last valid one.\<close>

definition comparator_step :: "trigger_regs \<Rightarrow> bool \<Rightarrow> bool \<Rightarrow> u32 \<Rightarrow> comparator \<Rightarrow> comparator" where
  "comparator_step r or_mode valid data c =
     \<lparr>cp_prev = (if valid then data else cp_prev c), cp_match = (valid \<and> fire r or_mode (cp_prev c) data)\<rparr>"

end
