(* ===== verification/Ila_Trigger_Props.thy ===== *)
theory Ila_Trigger_Props
  imports Ila_Trigger
begin

text \<open>
  The comparator with the registers that the panel computes fires exactly when the conditions of the lanes say so,
  except for \<open>Neq\<close> on a lane of more than one bit.
\<close>

unbundle bit_operations_syntax

section \<open>Lanes as sets of bits\<close>

definition lane_ok :: "ila_lane \<Rightarrow> bool" where
  "lane_ok s \<longleftrightarrow> 0 \<le> ln_lo s \<and> ln_lo s \<le> ln_hi s \<and> ln_hi s < 32"

definition covers :: "ila_lane \<Rightarrow> nat \<Rightarrow> bool" where
  "covers s i \<longleftrightarrow> ln_lo s \<le> int i \<and> int i \<le> ln_hi s"

definition apart :: "ila_lane \<Rightarrow> ila_lane \<Rightarrow> bool" where
  "apart s s' \<longleftrightarrow> ln_hi s < ln_lo s' \<or> ln_hi s' < ln_lo s"

lemma covers_less: "lane_ok s \<Longrightarrow> covers s i \<Longrightarrow> i < 32"
  by (simp add: lane_ok_def covers_def)

lemma not_apart: "covers s i \<Longrightarrow> covers s' i \<Longrightarrow> \<not> apart s s'"
  by (auto simp: covers_def apart_def)

lemma shift_left_bits:
  assumes "0 \<le> n" "n < 32"
  shows "\<exists>x. shift_left v n = Some x \<and> (\<forall>i < 32. bit x i \<longleftrightarrow> n \<le> int i \<and> bit v (i - nat n))"
  using assms by (auto simp: shift_left_def bit_push_bit_iff nat_le_iff)

lemma low_ones: "w < 32 \<Longrightarrow> i < 32 \<Longrightarrow> bit (push_bit w 1 - 1 :: u32) i \<longleftrightarrow> i < w"
  by (simp only: push_bit_of_1 mask_eq_exp_minus_1 [symmetric]) (simp add: bit_mask_iff)

lemma all_ones: "i < 32 \<Longrightarrow> bit (0xFFFFFFFF :: u32) i"
proof -
  assume "i < 32"
  moreover have "(0xFFFFFFFF :: u32) = mask 32" by (simp add: mask_eq_exp_minus_1)
  ultimately show ?thesis by (simp only: bit_mask_iff) simp
qed

lemma lane_bits_ok:
  assumes "lane_ok s"
  shows "\<exists>b. lane_bits s = Some b \<and> (\<forall>i < 32. bit b i \<longleftrightarrow> covers s i)"
proof (cases "32 \<le> lane_width s")
  case True
  then have "covers s i" if "i < 32" for i using that assms by (simp add: lane_ok_def lane_width_def covers_def)
  with True all_ones show ?thesis by (simp add: lane_bits_def)
next
  case False
  let ?w = "nat (lane_width s)" and ?lo = "nat (ln_lo s)"
  have w: "0 \<le> lane_width s" "lane_width s < 32" "0 \<le> ln_lo s" "ln_lo s < 32"
    using assms False by (auto simp: lane_ok_def lane_width_def)
  then have "lane_bits s = Some (push_bit ?lo (push_bit ?w 1 - 1))" by (simp add: lane_bits_def shift_left_def)
  moreover have "bit (push_bit ?lo (push_bit ?w 1 - 1 :: u32)) i \<longleftrightarrow> covers s i" if i: "i < 32" for i
  proof -
    have "bit (push_bit ?lo (push_bit ?w 1 - 1 :: u32)) i \<longleftrightarrow> ?lo \<le> i \<and> bit (push_bit ?w 1 - 1 :: u32) (i - ?lo)"
      using i by (simp only: bit_push_bit_iff) simp
    also have "\<dots> \<longleftrightarrow> ?lo \<le> i \<and> i - ?lo < ?w" using low_ones [of ?w "i - ?lo"] w i by auto
    also have "\<dots> \<longleftrightarrow> covers s i" using assms by (auto simp: lane_ok_def covers_def lane_width_def)
    finally show ?thesis .
  qed
  ultimately show ?thesis by blast
qed

section \<open>What the registers show\<close>

definition level_cond :: "trigger_cond \<Rightarrow> bool" where
  "level_cond c \<longleftrightarrow> c = TC_Eq \<or> c = TC_Neq"

definition edge_cond :: "trigger_cond \<Rightarrow> bool" where
  "edge_cond c \<longleftrightarrow> c = TC_Rise \<or> c = TC_Fall \<or> c = TC_Either"

definition wants_bit :: "trigger_cond \<Rightarrow> u32 \<Rightarrow> ila_lane \<Rightarrow> nat \<Rightarrow> bool" where
  "wants_bit c v s i \<longleftrightarrow> bit v (i - nat (ln_lo s)) \<noteq> (c = TC_Neq)"

text \<open>The two groups of the registers, bit by bit.\<close>

definition shows_a :: "(ila_lane \<times> lane_trigger) list \<Rightarrow> trigger_regs \<Rightarrow> bool" where
  "shows_a cs r \<longleftrightarrow>
     (\<forall>i < 32. (bit (tr_mask r) i \<longleftrightarrow> (\<exists>(s, t) \<in> set cs. level_cond (lt_cond t) \<and> covers s i)) \<and>
       (bit (tr_value r) i \<longleftrightarrow> (\<exists>(s, t) \<in> set cs. level_cond (lt_cond t) \<and> covers s i \<and> wants_bit (lt_cond t) (lt_value t) s i)) \<and>
       (bit (tr_rise r) i \<longleftrightarrow> (\<exists>(s, t) \<in> set cs. lt_cond t \<in> {TC_Rise, TC_Either} \<and> covers s i)) \<and>
       (bit (tr_fall r) i \<longleftrightarrow> (\<exists>(s, t) \<in> set cs. lt_cond t \<in> {TC_Fall, TC_Either} \<and> covers s i)))"

definition shows_b :: "(ila_lane \<times> lane_trigger) list \<Rightarrow> trigger_regs \<Rightarrow> bool" where
  "shows_b cs r \<longleftrightarrow>
     (\<forall>i < 32. (bit (tr_mask2 r) i \<longleftrightarrow> (\<exists>(s, t) \<in> set cs. level_cond (lt_cond_b t) \<and> covers s i)) \<and>
       (bit (tr_val2 r) i \<longleftrightarrow>
          (\<exists>(s, t) \<in> set cs. level_cond (lt_cond_b t) \<and> covers s i \<and> wants_bit (lt_cond_b t) (lt_value_b t) s i)))"

lemma value_bits:
  assumes "lane_ok s" "\<forall>i < 32. bit b i \<longleftrightarrow> covers s i"
  shows "\<exists>x. shift_left v (ln_lo s) = Some x \<and>
     (\<forall>i < 32. (bit (x AND b) i \<longleftrightarrow> covers s i \<and> bit v (i - nat (ln_lo s))) \<and>
               (bit (NOT x AND b) i \<longleftrightarrow> covers s i \<and> \<not> bit v (i - nat (ln_lo s))))"
proof -
  have "0 \<le> ln_lo s" "ln_lo s < 32" using assms(1) by (auto simp: lane_ok_def)
  from shift_left_bits [OF this] obtain x where
    "shift_left v (ln_lo s) = Some x" "\<forall>i < 32. bit x i \<longleftrightarrow> ln_lo s \<le> int i \<and> bit v (i - nat (ln_lo s))" by blast
  with assms(2) show ?thesis by (auto simp: bit_and_iff bit_not_iff covers_def)
qed

lemma group_a_shows:
  assumes "lane_ok s" "\<forall>i < 32. bit b i \<longleftrightarrow> covers s i" "shows_a cs r"
  shows "\<exists>r'. group_a s t b r = Some r' \<and> shows_a (cs @ [(s, t)]) r' \<and> tr_mask2 r' = tr_mask2 r \<and> tr_val2 r' = tr_val2 r"
proof -
  obtain x where x: "shift_left (lt_value t) (ln_lo s) = Some x"
    "\<And>i. i < 32 \<Longrightarrow> bit (x AND b) i \<longleftrightarrow> covers s i \<and> bit (lt_value t) (i - nat (ln_lo s))"
    "\<And>i. i < 32 \<Longrightarrow> bit (NOT x AND b) i \<longleftrightarrow> covers s i \<and> \<not> bit (lt_value t) (i - nat (ln_lo s))"
    using value_bits [OF assms(1,2), of "lt_value t"] by blast
  show ?thesis
    using assms(2,3) x(2,3)
    by (cases "lt_cond t")
      (simp_all add: group_a_def x(1) shows_a_def bit_or_iff level_cond_def wants_bit_def bex_Un del: bit_and_iff, blast+)
qed

lemma group_b_shows:
  assumes "lane_ok s" "\<forall>i < 32. bit b i \<longleftrightarrow> covers s i" "shows_b cs r"
  shows "\<exists>r'. group_b s t b r = Some r' \<and> shows_b (cs @ [(s, t)]) r' \<and> (shows_a ds r' = shows_a ds r)"
proof -
  obtain x where x: "shift_left (lt_value_b t) (ln_lo s) = Some x"
    "\<And>i. i < 32 \<Longrightarrow> bit (x AND b) i \<longleftrightarrow> covers s i \<and> bit (lt_value_b t) (i - nat (ln_lo s))"
    "\<And>i. i < 32 \<Longrightarrow> bit (NOT x AND b) i \<longleftrightarrow> covers s i \<and> \<not> bit (lt_value_b t) (i - nat (ln_lo s))"
    using value_bits [OF assms(1,2), of "lt_value_b t"] by blast
  show ?thesis
    using assms(2,3) x(2,3)
    by (cases "lt_cond_b t")
      (simp_all add: group_b_def x(1) shows_a_def shows_b_def bit_or_iff level_cond_def wants_bit_def bex_Un, blast+)
qed

text \<open>The lanes with their triggers; a lane without one has none.\<close>

definition lane_conds :: "ila_lane list \<Rightarrow> lane_trigger list \<Rightarrow> (ila_lane \<times> lane_trigger) list" where
  "lane_conds ss ts = zip ss (take (length ss) ts @ replicate (length ss - length ts) no_trigger)"

lemma lane_conds_Cons:
  "lane_conds (s # ss) ts = (s, case ts of [] \<Rightarrow> no_trigger | t # _ \<Rightarrow> t) # lane_conds ss (tl ts)"
  by (cases ts) (simp_all add: lane_conds_def)

lemma trigger_loop_shows:
  assumes "list_all lane_ok ss" "shows_a cs r" "shows_b cs r"
  shows "\<exists>r'. trigger_loop ss ts r = Some r' \<and> shows_a (cs @ lane_conds ss ts) r' \<and> shows_b (cs @ lane_conds ss ts) r'"
  using assms
proof (induction ss arbitrary: ts cs r)
  case (Cons s ss)
  let ?t = "case ts of [] \<Rightarrow> no_trigger | t # _ \<Rightarrow> t"
  have s: "lane_ok s" using Cons.prems(1) by simp
  then have w: "\<not> (lane_width s \<le> 0 \<or> ln_lo s < 0)" by (auto simp: lane_ok_def lane_width_def)
  obtain b where b: "lane_bits s = Some b" "\<forall>i < 32. bit b i \<longleftrightarrow> covers s i" using lane_bits_ok [OF s] by blast
  obtain r1 where 1: "group_a s ?t b r = Some r1" "shows_a (cs @ [(s, ?t)]) r1" "tr_mask2 r1 = tr_mask2 r" "tr_val2 r1 = tr_val2 r"
    using group_a_shows [OF s b(2) Cons.prems(2)] by blast
  have "shows_b cs r1" using Cons.prems(3) 1(3,4) by (simp add: shows_b_def)
  then obtain r2 where 2: "group_b s ?t b r1 = Some r2" "shows_b (cs @ [(s, ?t)]) r2" "shows_a (cs @ [(s, ?t)]) r2"
    using group_b_shows [OF s b(2)] 1(2) by blast
  have "list_all lane_ok ss" using Cons.prems(1) by simp
  from Cons.IH [OF this 2(3,2), of "tl ts"] show ?case
    by (simp add: w b(1) 1(1) 2(1) lane_conds_Cons Let_def)
qed (simp add: lane_conds_def)

lemma compute_shows:
  assumes "list_all lane_ok ss"
  shows "\<exists>r. compute_trigger_registers ss ts = Some r \<and> shows_a (lane_conds ss ts) r \<and> shows_b (lane_conds ss ts) r"
  using trigger_loop_shows [OF assms, of "[]" no_regs ts]
  by (simp add: compute_trigger_registers_def shows_a_def shows_b_def no_regs_def)

section \<open>What the user asks for\<close>

text \<open>The bits of a lane, and a condition on them as the comments of the enumeration have it.\<close>

definition field :: "ila_lane \<Rightarrow> u32 \<Rightarrow> u32" where
  "field s v = take_bit (nat (lane_width s)) (drop_bit (nat (ln_lo s)) v)"

definition cond_met :: "trigger_cond \<Rightarrow> u32 \<Rightarrow> ila_lane \<Rightarrow> u32 \<Rightarrow> u32 \<Rightarrow> bool" where
  "cond_met c v s prev data =
     (case c of
        TC_Eq \<Rightarrow> field s data = take_bit (nat (lane_width s)) v
      | TC_Neq \<Rightarrow> field s data \<noteq> take_bit (nat (lane_width s)) v
      | TC_Rise \<Rightarrow> NOT (field s prev) AND field s data \<noteq> 0
      | TC_Fall \<Rightarrow> field s prev AND NOT (field s data) \<noteq> 0
      | TC_Either \<Rightarrow> field s prev \<noteq> field s data
      | _ \<Rightarrow> False)"

definition wanted_a :: "(ila_lane \<times> lane_trigger) list \<Rightarrow> u32 \<Rightarrow> u32 \<Rightarrow> bool" where
  "wanted_a cs prev data \<longleftrightarrow>
     (\<forall>(s, t) \<in> set cs. level_cond (lt_cond t) \<longrightarrow> cond_met (lt_cond t) (lt_value t) s prev data) \<and>
     ((\<forall>(s, t) \<in> set cs. \<not> edge_cond (lt_cond t)) \<or>
      (\<exists>(s, t) \<in> set cs. edge_cond (lt_cond t) \<and> cond_met (lt_cond t) (lt_value t) s prev data))"

definition wanted_b :: "(ila_lane \<times> lane_trigger) list \<Rightarrow> u32 \<Rightarrow> bool" where
  "wanted_b cs data \<longleftrightarrow>
     (\<forall>(s, t) \<in> set cs. level_cond (lt_cond_b t) \<longrightarrow> cond_met (lt_cond_b t) (lt_value_b t) s data data)"

definition used_a :: "(ila_lane \<times> lane_trigger) list \<Rightarrow> bool" where
  "used_a cs \<longleftrightarrow> (\<exists>(s, t) \<in> set cs. level_cond (lt_cond t) \<or> edge_cond (lt_cond t))"

definition used_b :: "(ila_lane \<times> lane_trigger) list \<Rightarrow> bool" where
  "used_b cs \<longleftrightarrow> (\<exists>(s, t) \<in> set cs. level_cond (lt_cond_b t))"

definition wanted :: "(ila_lane \<times> lane_trigger) list \<Rightarrow> bool \<Rightarrow> u32 \<Rightarrow> u32 \<Rightarrow> bool" where
  "wanted cs or_mode prev data =
     (if or_mode then used_a cs \<and> wanted_a cs prev data \<or> used_b cs \<and> wanted_b cs data
      else (used_a cs \<longrightarrow> wanted_a cs prev data) \<and> (used_b cs \<longrightarrow> wanted_b cs data) \<and> (used_a cs \<or> used_b cs))"

lemma bit_lane_field: "bit (field s v) k \<longleftrightarrow> k < nat (lane_width s) \<and> bit v (nat (ln_lo s) + k)"
  by (simp add: field_def bit_take_bit_iff bit_drop_bit_eq)

lemma field_bits:
  assumes "lane_ok s"
  shows "(\<forall>k < nat (lane_width s). P (nat (ln_lo s) + k) k) \<longleftrightarrow> (\<forall>i. covers s i \<longrightarrow> P i (i - nat (ln_lo s)))"
proof -
  have "covers s i \<longleftrightarrow> nat (ln_lo s) \<le> i \<and> i - nat (ln_lo s) < nat (lane_width s)" for i
    using assms by (auto simp: lane_ok_def covers_def lane_width_def)
  moreover have "covers s (nat (ln_lo s) + k)" if "k < nat (lane_width s)" for k
    using that assms by (auto simp: lane_ok_def covers_def lane_width_def)
  ultimately show ?thesis by (metis add_diff_cancel_left' le_add_diff_inverse)
qed

lemma width_less: "lane_ok s \<Longrightarrow> nat (lane_width s) \<le> 32"
  by (auto simp: lane_ok_def lane_width_def)

lemma word32_eq_iff: "(x :: u32) = y \<longleftrightarrow> (\<forall>k < 32. bit x k \<longleftrightarrow> bit y k)"
  by (auto intro: bit_word_eqI)

lemma field_eq_iff:
  assumes "lane_ok s"
  shows "field s x = take_bit (nat (lane_width s)) v \<longleftrightarrow> (\<forall>i. covers s i \<longrightarrow> (bit x i \<longleftrightarrow> bit v (i - nat (ln_lo s))))"
proof -
  have "field s x = take_bit (nat (lane_width s)) v \<longleftrightarrow>
      (\<forall>k < 32. k < nat (lane_width s) \<longrightarrow> (bit x (nat (ln_lo s) + k) \<longleftrightarrow> bit v k))"
    by (auto simp: word32_eq_iff bit_lane_field bit_take_bit_iff)
  also have "\<dots> \<longleftrightarrow> (\<forall>k < nat (lane_width s). (bit x (nat (ln_lo s) + k) \<longleftrightarrow> bit v k))"
    using width_less [OF assms] by auto
  finally show ?thesis by (simp only: field_bits [OF assms, where P = "\<lambda>i k. bit x i = bit v k"])
qed

text \<open>No two lanes share a bit.\<close>

abbreviation separate :: "ila_lane list \<Rightarrow> bool" where
  "separate ss \<equiv> sorted_wrt apart ss"

lemma separate_same:
  assumes "separate ss" "(s, t) \<in> set (lane_conds ss ts)" "(s', t') \<in> set (lane_conds ss ts)" "covers s i" "covers s' i"
  shows "s = s' \<and> t = t'"
proof -
  have len: "length (lane_conds ss ts) = length ss" by (simp add: lane_conds_def)
  have nth: "fst (lane_conds ss ts ! k) = ss ! k" if "k < length ss" for k using that by (simp add: lane_conds_def)
  obtain j k where j: "j < length ss" "lane_conds ss ts ! j = (s, t)" and k: "k < length ss" "lane_conds ss ts ! k = (s', t')"
    using assms(2,3) by (auto simp: in_set_conv_nth len)
  have sj: "ss ! j = s" "ss ! k = s'" using nth [OF j(1)] nth [OF k(1)] j(2) k(2) by simp_all
  have "j = k"
  proof (rule ccontr)
    assume "j \<noteq> k"
    then consider "j < k" | "k < j" by linarith
    then have "apart s s' \<or> apart s' s"
    proof cases
      case 1
      from sorted_wrt_nth_less [OF assms(1) this k(1)] show ?thesis by (simp add: sj)
    next
      case 2
      from sorted_wrt_nth_less [OF assms(1) this j(1)] show ?thesis by (simp add: sj)
    qed
    with not_apart [OF assms(4,5)] not_apart [OF assms(5,4)] show False by blast
  qed
  with j(2) k(2) show ?thesis by simp
qed

lemma masked_eq: "data AND m = v AND m \<longleftrightarrow> (\<forall>i < 32. bit m i \<longrightarrow> (bit data i \<longleftrightarrow> bit v i))" for data :: u32
  by (auto simp: word32_eq_iff bit_and_iff)

lemma nonzero_iff: "(x :: u32) \<noteq> 0 \<longleftrightarrow> (\<exists>i < 32. bit x i)"
  by (auto simp: word32_eq_iff)

text \<open>What a level condition makes the comparator compare with: for \<open>Neq\<close>, the complement.\<close>

definition compared :: "trigger_cond \<Rightarrow> u32 \<Rightarrow> u32" where
  "compared c v = (if c = TC_Neq then NOT v else v)"

lemma level_match:
  assumes "list_all lane_ok ss"
    and m: "\<forall>i < 32. bit m i \<longleftrightarrow> (\<exists>(s, t) \<in> set (lane_conds ss ts). level_cond (c t) \<and> covers s i)"
    and v: "\<forall>i < 32. bit v i \<longleftrightarrow> (\<exists>(s, t) \<in> set (lane_conds ss ts). level_cond (c t) \<and> covers s i \<and> wants_bit (c t) (x t) s i)"
    and "separate ss"
  shows "data AND m = v AND m \<longleftrightarrow>
    (\<forall>(s, t) \<in> set (lane_conds ss ts). level_cond (c t) \<longrightarrow>
       field s data = take_bit (nat (lane_width s)) (compared (c t) (x t)))"
proof -
  have ok: "lane_ok s" if "(s, t) \<in> set (lane_conds ss ts)" for s t
    using that assms(1) by (auto simp: lane_conds_def list_all_iff dest: set_zip_leftD)
  have one: "bit v i \<longleftrightarrow> wants_bit (c t) (x t) s i"
    if "(s, t) \<in> set (lane_conds ss ts)" "level_cond (c t)" "covers s i" for s t i
  proof -
    have "i < 32" using covers_less [OF ok [OF that(1)] that(3)] .
    with v have "bit v i \<longleftrightarrow> (\<exists>(s, t) \<in> set (lane_conds ss ts). level_cond (c t) \<and> covers s i \<and> wants_bit (c t) (x t) s i)" by blast
    then show ?thesis using that separate_same [OF assms(4) that(1) _ that(3)] by blast
  qed
  have "(bit data i \<longleftrightarrow> wants_bit (c t) (x t) s i) \<longleftrightarrow> (bit data i \<longleftrightarrow> bit (compared (c t) (x t)) (i - nat (ln_lo s)))"
    if "i < 32" for s t i
  proof -
    have "i - nat (ln_lo s) < 32" using that by simp
    then show ?thesis by (auto simp: wants_bit_def compared_def bit_not_iff)
  qed
  note w = this
  have f: "(\<forall>i. covers s i \<longrightarrow> (bit data i \<longleftrightarrow> wants_bit (c t) (x t) s i)) \<longleftrightarrow>
      field s data = take_bit (nat (lane_width s)) (compared (c t) (x t))" if "(s, t) \<in> set (lane_conds ss ts)" for s t
  proof -
    have "(\<forall>i. covers s i \<longrightarrow> (bit data i \<longleftrightarrow> wants_bit (c t) (x t) s i)) \<longleftrightarrow>
        (\<forall>i. covers s i \<longrightarrow> (bit data i \<longleftrightarrow> bit (compared (c t) (x t)) (i - nat (ln_lo s))))"
      using w covers_less [OF ok [OF that]] by (intro all_cong1 imp_cong refl) simp
    then show ?thesis by (simp only: field_eq_iff [OF ok [OF that]])
  qed
  have "data AND m = v AND m \<longleftrightarrow>
      (\<forall>(s, t) \<in> set (lane_conds ss ts). level_cond (c t) \<longrightarrow> (\<forall>i. covers s i \<longrightarrow> (bit data i \<longleftrightarrow> wants_bit (c t) (x t) s i)))"
    (is "_ \<longleftrightarrow> ?bits")
  proof
    assume L: "data AND m = v AND m"
    have "bit data i \<longleftrightarrow> wants_bit (c t) (x t) s i"
      if st: "(s, t) \<in> set (lane_conds ss ts)" "level_cond (c t)" "covers s i" for s t i
    proof -
      have i: "i < 32" by (rule covers_less [OF ok [OF st(1)] st(3)])
      then have "bit m i" using m st by blast
      with L i have "bit data i \<longleftrightarrow> bit v i" by (simp add: masked_eq)
      then show ?thesis by (simp only: one [OF st])
    qed
    then show ?bits by blast
  next
    assume R: ?bits
    have "bit data i \<longleftrightarrow> bit v i" if i: "i < 32" "bit m i" for i
    proof -
      obtain s t where st: "(s, t) \<in> set (lane_conds ss ts)" "level_cond (c t)" "covers s i" using m i by blast
      with R have "bit data i \<longleftrightarrow> wants_bit (c t) (x t) s i" by blast
      then show ?thesis by (simp only: one [OF st])
    qed
    then show "data AND m = v AND m" by (simp add: masked_eq)
  qed
  also have "\<dots> \<longleftrightarrow> (\<forall>(s, t) \<in> set (lane_conds ss ts). level_cond (c t) \<longrightarrow>
       field s data = take_bit (nat (lane_width s)) (compared (c t) (x t)))"
    using f by (intro ball_cong refl) auto
  finally show ?thesis .
qed

lemma lane_cond_ok: "list_all lane_ok ss \<Longrightarrow> (s, t) \<in> set (lane_conds ss ts) \<Longrightarrow> lane_ok s"
  by (auto simp: lane_conds_def list_all_iff dest: set_zip_leftD)

text \<open>A register that collects the lanes of some condition is not zero iff a lane has it, and meets a word where a
  lane with it does.\<close>

lemma collected:
  assumes "list_all lane_ok ss" "\<forall>i < 32. bit m i \<longleftrightarrow> (\<exists>(s, t) \<in> set (lane_conds ss ts). P t \<and> covers s i)"
  shows "m \<noteq> 0 \<longleftrightarrow> (\<exists>(s, t) \<in> set (lane_conds ss ts). P t)"
    and "x AND m \<noteq> 0 \<longleftrightarrow> (\<exists>(s, t) \<in> set (lane_conds ss ts). P t \<and> (\<exists>i. covers s i \<and> bit (x :: u32) i))"
proof -
  have cov: "\<exists>i < 32. covers s i" if "(s, t) \<in> set (lane_conds ss ts)" for s t
    using lane_cond_ok [OF assms(1) that] by (intro exI [of _ "nat (ln_lo s)"]) (auto simp: lane_ok_def covers_def)
  show "m \<noteq> 0 \<longleftrightarrow> (\<exists>(s, t) \<in> set (lane_conds ss ts). P t)" (is "_ \<longleftrightarrow> ?ex")
  proof
    assume ?ex
    then obtain s t i where "(s, t) \<in> set (lane_conds ss ts)" "P t" "i < 32" "covers s i" using cov by blast
    with assms(2) have "bit m i" by blast
    then show "m \<noteq> 0" by auto
  qed (use assms(2) in \<open>auto simp: nonzero_iff\<close>)
  show "x AND m \<noteq> 0 \<longleftrightarrow> (\<exists>(s, t) \<in> set (lane_conds ss ts). P t \<and> (\<exists>i. covers s i \<and> bit x i))" (is "_ \<longleftrightarrow> ?ex")
  proof
    assume ?ex
    then obtain s t i where st: "(s, t) \<in> set (lane_conds ss ts)" "P t" "covers s i" "bit x i" by blast
    then have i: "i < 32" using covers_less [OF lane_cond_ok [OF assms(1) st(1)]] by blast
    with assms(2) st have "bit m i" by blast
    with st(4) i show "x AND m \<noteq> 0" by (auto simp: nonzero_iff bit_and_iff)
  next
    assume "x AND m \<noteq> 0"
    then obtain i where "i < 32" "bit x i" "bit m i" by (auto simp: nonzero_iff bit_and_iff)
    with assms(2) show ?ex by blast
  qed
qed

lemma field_edge:
  assumes "lane_ok s"
  shows "NOT (field s p) AND field s d \<noteq> 0 \<longleftrightarrow> (\<exists>i. covers s i \<and> bit (NOT p AND d) i)"
    and "field s p AND NOT (field s d) \<noteq> 0 \<longleftrightarrow> (\<exists>i. covers s i \<and> bit (p AND NOT d) i)"
    and "field s p \<noteq> field s d \<longleftrightarrow> (\<exists>i. covers s i \<and> (bit (NOT p AND d) i \<or> bit (p AND NOT d) i))"
proof -
  have in32: "nat (ln_lo s) + k < 32" if "k < nat (lane_width s)" for k
    using that assms by (auto simp: lane_ok_def lane_width_def)
  have w: "k < 32" if "k < nat (lane_width s)" for k using that width_less [OF assms] by simp
  have a: "NOT (field s p) AND field s d \<noteq> 0 \<longleftrightarrow> \<not> (\<forall>k < nat (lane_width s). \<not> bit (NOT p AND d) (nat (ln_lo s) + k))"
    unfolding nonzero_iff using in32 by (auto simp: bit_and_iff bit_not_iff bit_lane_field; use w in blast)
  show "NOT (field s p) AND field s d \<noteq> 0 \<longleftrightarrow> (\<exists>i. covers s i \<and> bit (NOT p AND d) i)"
    unfolding a field_bits [OF assms, where P = "\<lambda>i k. \<not> bit (NOT p AND d) i"] by blast
  have b: "field s p AND NOT (field s d) \<noteq> 0 \<longleftrightarrow> \<not> (\<forall>k < nat (lane_width s). \<not> bit (p AND NOT d) (nat (ln_lo s) + k))"
    unfolding nonzero_iff using in32 by (auto simp: bit_and_iff bit_not_iff bit_lane_field; use w in blast)
  show "field s p AND NOT (field s d) \<noteq> 0 \<longleftrightarrow> (\<exists>i. covers s i \<and> bit (p AND NOT d) i)"
    unfolding b field_bits [OF assms, where P = "\<lambda>i k. \<not> bit (p AND NOT d) i"] by blast
  have c: "field s p \<noteq> field s d \<longleftrightarrow>
      \<not> (\<forall>k < nat (lane_width s). \<not> (bit (NOT p AND d) (nat (ln_lo s) + k) \<or> bit (p AND NOT d) (nat (ln_lo s) + k)))"
    unfolding word32_eq_iff using in32 by (auto simp: bit_and_iff bit_not_iff bit_lane_field; use w in blast)
  show "field s p \<noteq> field s d \<longleftrightarrow> (\<exists>i. covers s i \<and> (bit (NOT p AND d) i \<or> bit (p AND NOT d) i))"
    unfolding c field_bits [OF assms, where P = "\<lambda>i k. \<not> (bit (NOT p AND d) i \<or> bit (p AND NOT d) i)"] by blast
qed

definition single_bit_neq :: "(ila_lane \<times> lane_trigger) list \<Rightarrow> bool" where
  "single_bit_neq cs \<longleftrightarrow> list_all (\<lambda>(s, t). lt_cond t = TC_Neq \<or> lt_cond_b t = TC_Neq \<longrightarrow> lane_width s = 1) cs"

lemma one_bit_neq:
  assumes "lane_width s = 1"
  shows "field s x = take_bit (nat (lane_width s)) (NOT v) \<longleftrightarrow> field s x \<noteq> take_bit (nat (lane_width s)) v"
proof -
  have "field s x = take_bit 1 y \<longleftrightarrow> (bit (field s x) 0 \<longleftrightarrow> bit y 0)" for y
  proof -
    have "\<not> bit (field s x) k" if "0 < k" for k using assms that by (simp only: bit_lane_field) simp
    then show ?thesis unfolding word32_eq_iff bit_take_bit_iff by (metis less_one not_gr_zero zero_less_numeral)
  qed
  from this [of "NOT v"] this [of v] show ?thesis by (simp add: assms bit_not_iff)
qed

lemma level_met:
  assumes "level_cond c" "c = TC_Neq \<longrightarrow> lane_width s = 1"
  shows "field s data = take_bit (nat (lane_width s)) (compared c v) \<longleftrightarrow> cond_met c v s prev data"
  using assms one_bit_neq [of s data v] by (auto simp: level_cond_def compared_def cond_met_def)

lemma level_wanted:
  assumes "list_all lane_ok ss"
    and "\<forall>i < 32. bit m i \<longleftrightarrow> (\<exists>(s, t) \<in> set (lane_conds ss ts). level_cond (c t) \<and> covers s i)"
    and "\<forall>i < 32. bit v i \<longleftrightarrow> (\<exists>(s, t) \<in> set (lane_conds ss ts). level_cond (c t) \<and> covers s i \<and> wants_bit (c t) (x t) s i)"
    and "separate ss" and "\<forall>(s, t) \<in> set (lane_conds ss ts). c t = TC_Neq \<longrightarrow> lane_width s = 1"
  shows "m = 0 \<or> data AND m = v AND m \<longleftrightarrow>
    (\<forall>(s, t) \<in> set (lane_conds ss ts). level_cond (c t) \<longrightarrow> cond_met (c t) (x t) s prev data)"
proof -
  have "m = 0 \<or> data AND m = v AND m \<longleftrightarrow> data AND m = v AND m" by auto
  also have "\<dots> \<longleftrightarrow> (\<forall>(s, t) \<in> set (lane_conds ss ts). level_cond (c t) \<longrightarrow>
       field s data = take_bit (nat (lane_width s)) (compared (c t) (x t)))"
    by (rule level_match [OF assms(1-4)])
  also have "\<dots> \<longleftrightarrow> (\<forall>(s, t) \<in> set (lane_conds ss ts). level_cond (c t) \<longrightarrow> cond_met (c t) (x t) s prev data)"
    using assms(5) level_met by (intro ball_cong refl) (auto split: prod.splits)
  finally show ?thesis .
qed

lemma edge_wanted:
  assumes "list_all lane_ok ss" and "shows_a (lane_conds ss ts) r"
  shows "(NOT prev AND data) AND tr_rise r \<noteq> 0 \<or> (prev AND NOT data) AND tr_fall r \<noteq> 0 \<longleftrightarrow>
    (\<exists>(s, t) \<in> set (lane_conds ss ts). edge_cond (lt_cond t) \<and> cond_met (lt_cond t) (lt_value t) s prev data)"
proof -
  note rise = collected [OF assms(1), of "tr_rise r" ts "\<lambda>t. lt_cond t \<in> {TC_Rise, TC_Either}"]
  note fall = collected [OF assms(1), of "tr_fall r" ts "\<lambda>t. lt_cond t \<in> {TC_Fall, TC_Either}"]
  have met: "edge_cond (lt_cond t) \<and> cond_met (lt_cond t) (lt_value t) s prev data \<longleftrightarrow>
      lt_cond t \<in> {TC_Rise, TC_Either} \<and> (\<exists>i. covers s i \<and> bit (NOT prev AND data) i) \<or>
      lt_cond t \<in> {TC_Fall, TC_Either} \<and> (\<exists>i. covers s i \<and> bit (prev AND NOT data) i)"
    if "(s, t) \<in> set (lane_conds ss ts)" for s t
    using field_edge [OF lane_cond_ok [OF assms(1) that], of prev data] by (auto simp: edge_cond_def cond_met_def)
  have "(NOT prev AND data) AND tr_rise r \<noteq> 0 \<or> (prev AND NOT data) AND tr_fall r \<noteq> 0 \<longleftrightarrow>
      (\<exists>(s, t) \<in> set (lane_conds ss ts). lt_cond t \<in> {TC_Rise, TC_Either} \<and> (\<exists>i. covers s i \<and> bit (NOT prev AND data) i)) \<or>
      (\<exists>(s, t) \<in> set (lane_conds ss ts). lt_cond t \<in> {TC_Fall, TC_Either} \<and> (\<exists>i. covers s i \<and> bit (prev AND NOT data) i))"
    using rise(2) [of "NOT prev AND data"] fall(2) [of "prev AND NOT data"] assms(2) by (simp add: shows_a_def)
  also have "\<dots> \<longleftrightarrow> (\<exists>(s, t) \<in> set (lane_conds ss ts).
      lt_cond t \<in> {TC_Rise, TC_Either} \<and> (\<exists>i. covers s i \<and> bit (NOT prev AND data) i) \<or>
      lt_cond t \<in> {TC_Fall, TC_Either} \<and> (\<exists>i. covers s i \<and> bit (prev AND NOT data) i))"
    unfolding case_prod_unfold by blast
  also have "\<dots> \<longleftrightarrow> (\<exists>(s, t) \<in> set (lane_conds ss ts). edge_cond (lt_cond t) \<and> cond_met (lt_cond t) (lt_value t) s prev data)"
    by (intro bex_cong refl) (clarsimp simp only: met prod.case split: prod.splits)
  finally show ?thesis .
qed

lemma match_a_wanted:
  assumes "list_all lane_ok ss" "separate ss" "single_bit_neq (lane_conds ss ts)" "shows_a (lane_conds ss ts) r"
  shows "active_a r \<longleftrightarrow> used_a (lane_conds ss ts)"
    and "match_a r prev data \<longleftrightarrow> used_a (lane_conds ss ts) \<and> wanted_a (lane_conds ss ts) prev data"
proof -
  let ?cs = "lane_conds ss ts"
  have m: "tr_mask r \<noteq> 0 \<longleftrightarrow> (\<exists>(s, t) \<in> set ?cs. level_cond (lt_cond t))"
    using assms(4) by (intro collected(1) [OF assms(1)]) (simp add: shows_a_def)
  have ri: "tr_rise r \<noteq> 0 \<longleftrightarrow> (\<exists>(s, t) \<in> set ?cs. lt_cond t \<in> {TC_Rise, TC_Either})"
    using assms(4) by (intro collected(1) [OF assms(1)]) (simp add: shows_a_def)
  have fa: "tr_fall r \<noteq> 0 \<longleftrightarrow> (\<exists>(s, t) \<in> set ?cs. lt_cond t \<in> {TC_Fall, TC_Either})"
    using assms(4) by (intro collected(1) [OF assms(1)]) (simp add: shows_a_def)
  show act: "active_a r \<longleftrightarrow> used_a ?cs"
    unfolding active_a_def m ri fa used_a_def edge_cond_def case_prod_unfold by blast
  have none: "tr_rise r = 0 \<and> tr_fall r = 0 \<longleftrightarrow> (\<forall>(s, t) \<in> set ?cs. \<not> edge_cond (lt_cond t))"
    using ri fa unfolding edge_cond_def case_prod_unfold by blast
  have narrow: "\<forall>(s, t) \<in> set ?cs. lt_cond t = TC_Neq \<longrightarrow> lane_width s = 1"
    using assms(3) by (auto simp: single_bit_neq_def list_all_iff)
  have "tr_mask r = 0 \<or> data AND tr_mask r = tr_value r AND tr_mask r \<longleftrightarrow>
      (\<forall>(s, t) \<in> set ?cs. level_cond (lt_cond t) \<longrightarrow> cond_met (lt_cond t) (lt_value t) s prev data)"
    using assms(4) by (intro level_wanted [OF assms(1) _ _ assms(2) narrow]) (simp_all add: shows_a_def)
  with act none edge_wanted [OF assms(1,4), of prev data] show "match_a r prev data \<longleftrightarrow> used_a ?cs \<and> wanted_a ?cs prev data"
    by (simp only: match_a_def wanted_a_def)
qed

lemma match_b_wanted:
  assumes "list_all lane_ok ss" "separate ss" "single_bit_neq (lane_conds ss ts)" "shows_b (lane_conds ss ts) r"
  shows "active_b r \<longleftrightarrow> used_b (lane_conds ss ts)"
    and "match_b r data \<longleftrightarrow> used_b (lane_conds ss ts) \<and> wanted_b (lane_conds ss ts) data"
proof -
  let ?cs = "lane_conds ss ts"
  show act: "active_b r \<longleftrightarrow> used_b ?cs"
    unfolding active_b_def used_b_def using assms(4) by (intro collected(1) [OF assms(1)]) (simp add: shows_b_def)
  have narrow: "\<forall>(s, t) \<in> set ?cs. lt_cond_b t = TC_Neq \<longrightarrow> lane_width s = 1"
    using assms(3) by (auto simp: single_bit_neq_def list_all_iff)
  have "tr_mask2 r = 0 \<or> data AND tr_mask2 r = tr_val2 r AND tr_mask2 r \<longleftrightarrow>
      (\<forall>(s, t) \<in> set ?cs. level_cond (lt_cond_b t) \<longrightarrow> cond_met (lt_cond_b t) (lt_value_b t) s data data)"
    using assms(4) by (intro level_wanted [OF assms(1) _ _ assms(2) narrow]) (simp_all add: shows_b_def)
  with act show "match_b r data \<longleftrightarrow> used_b ?cs \<and> wanted_b ?cs data" by (simp only: match_b_def wanted_b_def)
qed

text \<open>C14: The registers that the panel computes from the conditions on the lanes make the comparator of the core fire exactly
  when the conditions hold as their documentation has it: all level conditions of group A hold and, if it has edge
  conditions, one of them does; likewise the level conditions of group B; both groups in AND mode, either in OR mode,
  where a group without conditions does not count.  The lanes lie within the word and do not overlap, and \<open>Neq\<close> is only
  used on lanes of one bit (see \<open>wide_neq_misses\<close>).\<close>

theorem lane_trigger_fires_iff:
  assumes "list_all lane_ok ss" and "separate ss" and "single_bit_neq (lane_conds ss ts)"
  shows "\<exists>r. compute_trigger_registers ss ts = Some r \<and>
    (\<forall>or_mode prev data. fire r or_mode prev data \<longleftrightarrow> wanted (lane_conds ss ts) or_mode prev data)"
proof -
  obtain r where r: "compute_trigger_registers ss ts = Some r" "shows_a (lane_conds ss ts) r" "shows_b (lane_conds ss ts) r"
    using compute_shows [OF assms(1)] by blast
  note a = match_a_wanted [OF assms r(2)] and b = match_b_wanted [OF assms r(3)]
  have "fire r or_mode prev data \<longleftrightarrow> wanted (lane_conds ss ts) or_mode prev data" for or_mode prev data
    unfolding fire_def wanted_def a b by auto
  with r(1) show ?thesis by blast
qed

text \<open>A lane of one bit that must differ, a field that must be 5, and a rising clock.\<close>

definition demo_lanes :: "ila_lane list" where
  "demo_lanes = [\<lparr>ln_name = ''v'', ln_hi = 0, ln_lo = 0, ln_fmt = BIN\<rparr>, \<lparr>ln_name = ''f'', ln_hi = 7, ln_lo = 4, ln_fmt = HEX\<rparr>,
                 \<lparr>ln_name = ''c'', ln_hi = 31, ln_lo = 31, ln_fmt = BIN\<rparr>]"

definition demo_triggers :: "lane_trigger list" where
  "demo_triggers = [no_trigger\<lparr>lt_cond := TC_Neq, lt_value := 1\<rparr>, no_trigger\<lparr>lt_cond := TC_Eq, lt_value := 5\<rparr>,
                    no_trigger\<lparr>lt_cond := TC_Rise\<rparr>]"

theorem lane_trigger_fires_iff_witness:
  "\<exists>r. compute_trigger_registers demo_lanes demo_triggers = Some r \<and>
    (\<forall>or_mode prev data. fire r or_mode prev data \<longleftrightarrow> wanted (lane_conds demo_lanes demo_triggers) or_mode prev data)"
  by (rule lane_trigger_fires_iff) (simp_all add: demo_lanes_def demo_triggers_def lane_ok_def apart_def single_bit_neq_def lane_conds_def
      no_trigger_def lane_width_def)

section \<open>A wide lane\<close>

text \<open>On a lane of two bits, \<open>Neq 0\<close> does not fire on 1: the comparator waits for the complement 3.\<close>

definition wide_lane :: ila_lane where
  "wide_lane = \<lparr>ln_name = ''w'', ln_hi = 1, ln_lo = 0, ln_fmt = HEX\<rparr>"

theorem wide_neq_misses:
  "\<exists>r. compute_trigger_registers [wide_lane] [no_trigger\<lparr>lt_cond := TC_Neq\<rparr>] = Some r \<and>
     \<not> fire r False 0 1 \<and> wanted (lane_conds [wide_lane] [no_trigger\<lparr>lt_cond := TC_Neq\<rparr>]) False 0 1"
  by (simp add: compute_trigger_registers_def wide_lane_def lane_width_def lane_bits_def shift_left_def group_a_def group_b_def
      no_trigger_def no_regs_def fire_def active_a_def match_a_def active_b_def wanted_def lane_conds_def used_a_def used_b_def
      wanted_a_def level_cond_def edge_cond_def cond_met_def field_def take_bit_eq_mod)

end
