(* ===== verification/Capture_Session.thy ===== *)
theory Capture_Session
  imports Capture
begin

text \<open>
  \<open>CaptureSession\<close> (src/src/hardware/capture_session.{h,cpp}): the capture loop that the worker of the hardware
  executor drives by calling \<open>tick\<close>.  The clock readings of a tick are its arguments, the sample comes from
  \<open>Scanner::sample\<close> over the chain.  An access outside the buffer gives no result.  \<open>size_t\<close> has 64 bits where it can
  wrap (the samples that remain after the trigger).
\<close>

section \<open>The session\<close>

record 'd session =
  ss_scanner :: scanner
  ss_chain :: "'d chain"
  ss_trigger :: trigger_engine
  ss_depth :: nat
  ss_interval :: u32
  ss_buffer :: "sample_frame list"
  ss_write_pos :: nat
  ss_count :: nat
  ss_post :: u64
  ss_state :: capture_state
  ss_next :: int
  ss_prev :: scan_result
  ss_has_prev :: bool
  ss_error :: string

definition new_session :: "scanner \<Rightarrow> 'd chain \<Rightarrow> 'd session" where
  "new_session sc c =
     \<lparr>ss_scanner = sc, ss_chain = c, ss_trigger = trigger_new, ss_depth = 10000, ss_interval = 1000, ss_buffer = [],
      ss_write_pos = 0, ss_count = 0, ss_post = 0, ss_state = Cs_STOPPED, ss_next = 0, ss_prev = empty_scan,
      ss_has_prev = False, ss_error = []\<rparr>"

definition session_set_depth :: "nat \<Rightarrow> 'd session \<Rightarrow> 'd session" where
  "session_set_depth depth s = s\<lparr>ss_depth := (if depth < 1 then 1 else depth)\<rparr>"

definition session_set_interval :: "u32 \<Rightarrow> 'd session \<Rightarrow> 'd session" where
  "session_set_interval us s = s\<lparr>ss_interval := (if us < 100 then 100 else us)\<rparr>"

definition session_start :: "int \<Rightarrow> 'd session \<Rightarrow> 'd session" where
  "session_start now s =
     (let t = trigger_arm (ss_trigger s)
      in s\<lparr>ss_buffer := take (ss_depth s) (ss_buffer s) @ replicate (ss_depth s - length (ss_buffer s)) empty_frame,
           ss_write_pos := 0, ss_count := 0, ss_has_prev := False, ss_error := [], ss_trigger := t,
           ss_state := (if te_mode t = Tm_FREE_RUN \<or> te_mode t = Tm_SINGLE then Cs_RUNNING else Cs_WAITING_TRIGGER),
           ss_next := now\<rparr>)"

definition session_stop :: "'d session \<Rightarrow> 'd session" where
  "session_stop s = s\<lparr>ss_state := Cs_STOPPED\<rparr>"

definition session_clear :: "'d session \<Rightarrow> 'd session" where
  "session_clear s = s\<lparr>ss_buffer := [], ss_write_pos := 0, ss_count := 0, ss_has_prev := False\<rparr>"

definition append_sample :: "scan_result \<Rightarrow> bool \<Rightarrow> int \<Rightarrow> 'd session \<Rightarrow> 'd session option" where
  "append_sample result trig stamp s =
     (let buf = (if ss_buffer s = [] then replicate (ss_depth s) empty_frame else ss_buffer s)
      in if ss_write_pos s < length buf
         then Some (s\<lparr>ss_buffer := buf[ss_write_pos s := \<lparr>sf_timestamp = stamp, sf_data = result, sf_trigger_point = trig\<rparr>],
                      ss_write_pos := (ss_write_pos s + 1) mod ss_depth s,
                      ss_count := (if ss_count s < ss_depth s then ss_count s + 1 else ss_count s)\<rparr>)
         else None)"

definition pre_trigger_samples :: "'d session \<Rightarrow> nat" where
  "pre_trigger_samples s = nat (floor (te_pre_ratio (ss_trigger s) * rat_of_nat (ss_depth s)))"

text \<open>The switch on the state.\<close>

definition session_take :: "scan_result \<Rightarrow> int \<Rightarrow> 'd session \<Rightarrow> 'd session option" where
  "session_take result stamp s =
     (case ss_state s of
        Cs_RUNNING \<Rightarrow> do {
          s1 \<leftarrow> append_sample result False stamp s;
          Some (if te_mode (ss_trigger s) = Tm_SINGLE \<or> ss_depth s1 \<le> ss_count s1 then s1\<lparr>ss_state := Cs_COMPLETE\<rparr> else s1) }
      | Cs_WAITING_TRIGGER \<Rightarrow>
          (case (if ss_has_prev s then trigger_evaluate (ss_prev s) result (ss_trigger s) else (False, ss_trigger s)) of
             (fired, t) \<Rightarrow>
               let s1 = s\<lparr>ss_trigger := t\<rparr>
               in if fired
                  then do {
                    let s2 = s1\<lparr>ss_post := of_nat (ss_depth s1) - of_nat (pre_trigger_samples s1)\<rparr>;
                    s3 \<leftarrow> append_sample result True stamp s2;
                    let post = ss_post s3 - 1;
                    Some (s3\<lparr>ss_post := post, ss_state := (if 0 < post then Cs_TRIGGERED else Cs_COMPLETE)\<rparr>) }
                  else append_sample result False stamp s1)
      | Cs_TRIGGERED \<Rightarrow> do {
          s1 \<leftarrow> append_sample result False stamp s;
          let post = (if 0 < ss_post s1 then ss_post s1 - 1 else ss_post s1);
          Some (s1\<lparr>ss_post := post, ss_state := (if post = 0 then Cs_COMPLETE else ss_state s1)\<rparr>) }
      | _ \<Rightarrow> Some s)"

definition session_tick :: "'d link \<Rightarrow> int \<Rightarrow> int \<Rightarrow> 'd session \<Rightarrow> (bool \<times> 'd session) option" where
  "session_tick L now stamp s =
     (if ss_state s = Cs_STOPPED \<or> ss_state s = Cs_COMPLETE then Some (False, s)
      else if now < ss_next s then Some (False, s)
      else do {
        let s1 = s\<lparr>ss_next := now + uint (ss_interval s)\<rparr>;
        (result, sc, c) \<leftarrow> scanner_sample L (ss_scanner s1) (ss_chain s1);
        let s2 = s1\<lparr>ss_scanner := sc, ss_chain := c\<rparr>;
        if sc_error sc \<noteq> [] then Some (False, s2\<lparr>ss_error := sc_error sc, ss_state := Cs_STOPPED\<rparr>)
        else do {
          s3 \<leftarrow> session_take result stamp s2;
          Some (True, s3\<lparr>ss_prev := result, ss_has_prev := True\<rparr>)
        }
      })"

definition session_samples :: "'d session \<Rightarrow> sample_frame list option" where
  "session_samples s =
     (if ss_count s = 0 then Some []
      else if ss_count s < ss_depth s
           then (if ss_count s \<le> length (ss_buffer s) then Some (take (ss_count s) (ss_buffer s)) else None)
      else if ss_depth s \<le> length (ss_buffer s)
           then Some (map (\<lambda>i. ss_buffer s ! ((ss_write_pos s + i) mod ss_depth s)) [0..<ss_depth s])
      else None)"

section \<open>The buffer\<close>

definition session_ring :: "nat \<Rightarrow> 'd session \<Rightarrow> sample_frame ring" where
  "session_ring n s = \<lparr>rb_buffer = ss_buffer s, rb_write_pos = ss_write_pos s, rb_count = ss_count s, rb_total = n\<rparr>"

definition session_holds :: "'d session \<Rightarrow> sample_frame list \<Rightarrow> bool" where
  "session_holds s xs \<longleftrightarrow> length (ss_buffer s) = ss_depth s \<and> ring_holds (session_ring (length xs) s) xs"

lemma session_start_holds: "0 < ss_depth s \<Longrightarrow> session_holds (session_start now s) []"
  by (auto simp: session_holds_def session_ring_def session_start_def ring_holds_def Let_def)

lemma append_sample_holds:
  assumes "session_holds s xs"
  shows "\<exists>s'. append_sample result trig stamp s = Some s' \<and>
     session_holds s' (xs @ [\<lparr>sf_timestamp = stamp, sf_data = result, sf_trigger_point = trig\<rparr>]) \<and>
     ss_buffer s' \<noteq> [] \<and> s' = s\<lparr>ss_buffer := ss_buffer s', ss_write_pos := ss_write_pos s', ss_count := ss_count s'\<rparr>"
proof -
  let ?f = "\<lparr>sf_timestamp = stamp, sf_data = result, sf_trigger_point = trig\<rparr>"
  have r: "ring_holds (session_ring (length xs) s) xs" and len: "length (ss_buffer s) = ss_depth s"
    using assms by (simp_all add: session_holds_def)
  have "0 < length (ss_buffer s)" "ss_write_pos s = length xs mod length (ss_buffer s)"
    using r by (simp_all add: ring_holds_def session_ring_def)
  then have ne: "ss_buffer s \<noteq> []" "ss_write_pos s < length (ss_buffer s)" by simp_all
  let ?s = "s\<lparr>ss_buffer := (ss_buffer s)[ss_write_pos s := ?f], ss_write_pos := (ss_write_pos s + 1) mod ss_depth s,
       ss_count := (if ss_count s < ss_depth s then ss_count s + 1 else ss_count s)\<rparr>"
  have "session_ring (length (xs @ [?f])) ?s = ring_push ?f (session_ring (length xs) s)"
    by (simp add: session_ring_def ring_push_def Let_def len)
  then have "session_holds ?s (xs @ [?f])" using ring_push_holds [OF r, of ?f] by (simp add: session_holds_def len)
  moreover have "append_sample result trig stamp s = Some ?s" using ne by (simp add: append_sample_def)
  ultimately show ?thesis using ne by (intro exI [of _ ?s]) simp
qed

lemma session_samples_holds:
  assumes "session_holds s xs"
  shows "session_samples s = Some (newest (ss_depth s) xs)"
proof -
  have r: "ring_holds (session_ring (length xs) s) xs" and len: "length (ss_buffer s) = ss_depth s"
    using assms by (simp_all add: session_holds_def)
  have c: "ss_count s = min (length xs) (ss_depth s)" using r by (simp add: ring_holds_def session_ring_def len)
  have "get_samples (session_ring (length xs) s) = newest (ss_depth s) xs"
    using ring_holds_samples [OF r] by (simp add: session_ring_def len)
  moreover have "take n zs = map ((!) zs) [0..<n]" if "n \<le> length zs" for n and zs :: "sample_frame list"
    using that by (intro nth_equalityI) simp_all
  ultimately show ?thesis
    using c len by (auto simp: session_samples_def get_samples_def session_ring_def Let_def newest_def split: if_splits)
qed

section \<open>Runs\<close>

text \<open>A session that is driven by ticks after \<open>start\<close>, with the frames that were taken.\<close>

definition taken_frame :: "int \<Rightarrow> 'd session \<Rightarrow> 'd session \<Rightarrow> sample_frame" where
  "taken_frame stamp s s' =
     \<lparr>sf_timestamp = stamp, sf_data = ss_prev s',
      sf_trigger_point = (ss_state s = Cs_WAITING_TRIGGER \<and> ss_state s' \<noteq> Cs_WAITING_TRIGGER)\<rparr>"

inductive session_run :: "'d link \<Rightarrow> 'd session \<Rightarrow> sample_frame list \<Rightarrow> 'd session \<Rightarrow> bool" for L s0 where
  Started: "session_run L s0 [] (session_start now s0)"
| Taken: "session_run L s0 xs s \<Longrightarrow> session_tick L now stamp s = Some (True, s') \<Longrightarrow>
          session_run L s0 (xs @ [taken_frame stamp s s']) s'"
| Skipped: "session_run L s0 xs s \<Longrightarrow> session_tick L now stamp s = Some (False, s') \<Longrightarrow> session_run L s0 xs s'"

lemma tick_taken:
  assumes "session_tick L now stamp s = Some (True, s')"
  obtains s2 s3 where "session_take (ss_prev s') stamp s2 = Some s3" "ss_state s \<noteq> Cs_STOPPED" "ss_state s \<noteq> Cs_COMPLETE"
    "s' = s3\<lparr>ss_prev := ss_prev s', ss_has_prev := True\<rparr>"
    "s2 = s\<lparr>ss_next := ss_next s2, ss_scanner := ss_scanner s2, ss_chain := ss_chain s2\<rparr>"
proof -
  have act: "ss_state s \<noteq> Cs_STOPPED" "ss_state s \<noteq> Cs_COMPLETE" "\<not> now < ss_next s"
    using assms by (auto simp: session_tick_def split: if_splits)
  let ?s1 = "s\<lparr>ss_next := now + uint (ss_interval s)\<rparr>"
  from assms act obtain result sc c where sc: "scanner_sample L (ss_scanner s) (ss_chain s) = Some (result, sc, c)" "sc_error sc = []"
    by (auto simp: session_tick_def Let_def split: bind_splits prod.splits if_splits)
  let ?s2 = "?s1\<lparr>ss_scanner := sc, ss_chain := c\<rparr>"
  from assms act sc obtain s3 where "session_take result stamp ?s2 = Some s3" "s' = s3\<lparr>ss_prev := result, ss_has_prev := True\<rparr>"
    by (auto simp: session_tick_def Let_def split: bind_splits)
  then show thesis using act by (intro that [of ?s2 s3]) simp_all
qed

lemma tick_skipped:
  assumes "session_tick L now stamp s = Some (False, s')"
  shows "s' = s\<lparr>ss_next := ss_next s', ss_scanner := ss_scanner s', ss_chain := ss_chain s', ss_error := ss_error s', ss_state := ss_state s'\<rparr>"
    and "ss_state s' = ss_state s \<or> ss_state s' = Cs_STOPPED"
  using assms by (auto simp: session_tick_def Let_def split: if_splits bind_splits prod.splits)

definition state_step :: "'d session \<Rightarrow> 'd session \<Rightarrow> bool" where
  "state_step s s' \<longleftrightarrow>
     (case ss_state s of
        Cs_RUNNING \<Rightarrow> ss_state s' = Cs_RUNNING \<or> ss_state s' = Cs_COMPLETE
      | Cs_WAITING_TRIGGER \<Rightarrow>
          ss_state s' = Cs_WAITING_TRIGGER \<or>
          ss_post s' = of_nat (ss_depth s) - of_nat (pre_trigger_samples s) - 1 \<and>
          ss_state s' = (if 0 < ss_post s' then Cs_TRIGGERED else Cs_COMPLETE)
      | Cs_TRIGGERED \<Rightarrow>
          ss_post s' = (if 0 < ss_post s then ss_post s - 1 else ss_post s) \<and>
          ss_state s' = (if ss_post s' = 0 then Cs_COMPLETE else Cs_TRIGGERED)
      | _ \<Rightarrow> False)"

definition same_setup :: "'d session \<Rightarrow> 'd session \<Rightarrow> bool" where
  "same_setup s s' \<longleftrightarrow> ss_depth s' = ss_depth s \<and> te_mode (ss_trigger s') = te_mode (ss_trigger s) \<and>
     te_pre_ratio (ss_trigger s') = te_pre_ratio (ss_trigger s)"

lemma same_setup_trans: "same_setup a b \<Longrightarrow> same_setup b c \<Longrightarrow> same_setup a c"
  by (simp add: same_setup_def)

lemma same_setup_pre: "same_setup s s' \<Longrightarrow> pre_trigger_samples s' = pre_trigger_samples s"
  by (simp add: same_setup_def pre_trigger_samples_def)

lemma trigger_evaluate_keeps: "te_pre_ratio (snd (trigger_evaluate prev cur t)) = te_pre_ratio t"
  by (auto simp: trigger_evaluate_def)

lemma session_holds_cong:
  "ss_buffer s' = ss_buffer s \<Longrightarrow> ss_write_pos s' = ss_write_pos s \<Longrightarrow> ss_count s' = ss_count s \<Longrightarrow> ss_depth s' = ss_depth s \<Longrightarrow>
   session_holds s' xs = session_holds s xs"
  by (simp add: session_holds_def session_ring_def)

lemma session_take_step:
  assumes "session_holds s xs" "session_take result stamp s = Some s'" "ss_state s \<noteq> Cs_STOPPED" "ss_state s \<noteq> Cs_COMPLETE"
  shows "session_holds s' (xs @ [\<lparr>sf_timestamp = stamp, sf_data = result,
      sf_trigger_point = (ss_state s = Cs_WAITING_TRIGGER \<and> ss_state s' \<noteq> Cs_WAITING_TRIGGER)\<rparr>])"
    and "state_step s s'" and "same_setup s s'"
proof -
  let ?f = "\<lambda>b. \<lparr>sf_timestamp = stamp, sf_data = result, sf_trigger_point = b\<rparr>"
  have "session_holds s' (xs @ [?f (ss_state s = Cs_WAITING_TRIGGER \<and> ss_state s' \<noteq> Cs_WAITING_TRIGGER)]) \<and> state_step s s' \<and> same_setup s s'"
  proof (cases "ss_state s")
    case Cs_WAITING_TRIGGER
    obtain fired t where f: "(if ss_has_prev s then trigger_evaluate (ss_prev s) result (ss_trigger s) else (False, ss_trigger s)) = (fired, t)"
      by (metis surj_pair)
    have t: "te_mode t = te_mode (ss_trigger s)" "te_pre_ratio t = te_pre_ratio (ss_trigger s)"
      using f trigger_evaluate_keeps [of "ss_prev s" result "ss_trigger s"] trigger_evaluate_ratio(2) [of "ss_prev s" result "ss_trigger s"]
      by (auto simp del: trigger_evaluate_ratio split: if_splits)
    let ?s1 = "s\<lparr>ss_trigger := t\<rparr>"
    have pre: "pre_trigger_samples ?s1 = pre_trigger_samples s" by (simp add: pre_trigger_samples_def t)
    show ?thesis
    proof (cases fired)
      case True
      let ?s2 = "?s1\<lparr>ss_post := of_nat (ss_depth ?s1) - of_nat (pre_trigger_samples ?s1)\<rparr>"
      have "session_holds ?s2 xs" using assms(1) by (subst session_holds_cong [of _ s]) simp_all
      from append_sample_holds [OF this, of result True stamp] obtain s3 where
        3: "append_sample result True stamp ?s2 = Some s3" "session_holds s3 (xs @ [?f True])"
          "s3 = ?s2\<lparr>ss_buffer := ss_buffer s3, ss_write_pos := ss_write_pos s3, ss_count := ss_count s3\<rparr>" by blast
      have s': "s' = s3\<lparr>ss_post := ss_post s3 - 1, ss_state := (if 0 < ss_post s3 - 1 then Cs_TRIGGERED else Cs_COMPLETE)\<rparr>"
        using assms(2) Cs_WAITING_TRIGGER f True 3(1) by (simp add: session_take_def Let_def)
      have keeps: "ss_post (?s2\<lparr>ss_buffer := x, ss_write_pos := y, ss_count := z\<rparr>) = of_nat (ss_depth s) - of_nat (pre_trigger_samples ?s1)"
        "ss_depth (?s2\<lparr>ss_buffer := x, ss_write_pos := y, ss_count := z\<rparr>) = ss_depth s"
        "ss_trigger (?s2\<lparr>ss_buffer := x, ss_write_pos := y, ss_count := z\<rparr>) = t" for x y z
        by simp_all
      note p = trans [OF arg_cong [OF 3(3), of ss_post] keeps(1), unfolded pre] trans [OF arg_cong [OF 3(3), of ss_depth] keeps(2)]
        trans [OF arg_cong [OF 3(3), of ss_trigger] keeps(3)]
      have "session_holds s' (xs @ [?f True])" using 3(2) by (subst session_holds_cong [of _ s3]) (simp_all add: s')
      moreover have "state_step s s'" using Cs_WAITING_TRIGGER by (simp add: state_step_def s' p)
      moreover have "same_setup s s'" by (simp add: same_setup_def s' p t)
      moreover have "ss_state s' \<noteq> Cs_WAITING_TRIGGER" by (simp add: s')
      ultimately show ?thesis using Cs_WAITING_TRIGGER by simp
    next
      case False
      have "session_holds ?s1 xs" using assms(1) by (simp add: session_holds_cong [of ?s1 s])
      from append_sample_holds [OF this, of result False stamp] obtain s3 where
        3: "append_sample result False stamp ?s1 = Some s3" "session_holds s3 (xs @ [?f False])"
          "s3 = ?s1\<lparr>ss_buffer := ss_buffer s3, ss_write_pos := ss_write_pos s3, ss_count := ss_count s3\<rparr>" by blast
      have s': "s' = s3" using assms(2) Cs_WAITING_TRIGGER f False 3(1) by (simp add: session_take_def)
      have p: "ss_state s3 = Cs_WAITING_TRIGGER" "ss_depth s3 = ss_depth s" "ss_trigger s3 = t"
        by (subst 3(3), simp add: Cs_WAITING_TRIGGER)+
      with 3(2) show ?thesis by (simp add: s' state_step_def Cs_WAITING_TRIGGER same_setup_def t)
    qed
  next
    case Cs_RUNNING
    from append_sample_holds [OF assms(1), of result False stamp] obtain s3 where
      3: "append_sample result False stamp s = Some s3" "session_holds s3 (xs @ [?f False])"
        "s3 = s\<lparr>ss_buffer := ss_buffer s3, ss_write_pos := ss_write_pos s3, ss_count := ss_count s3\<rparr>" by blast
    have s': "s' = (if te_mode (ss_trigger s) = Tm_SINGLE \<or> ss_depth s3 \<le> ss_count s3 then s3\<lparr>ss_state := Cs_COMPLETE\<rparr> else s3)"
      using assms(2) Cs_RUNNING 3(1) by (auto simp: session_take_def)
    have p: "ss_state s3 = Cs_RUNNING" "ss_depth s3 = ss_depth s" "ss_trigger s3 = ss_trigger s"
      by (subst 3(3), simp add: Cs_RUNNING)+
    from 3(2) p show ?thesis by (auto simp: s' state_step_def Cs_RUNNING same_setup_def session_holds_cong [of "s3\<lparr>ss_state := Cs_COMPLETE\<rparr>" s3])
  next
    case Cs_TRIGGERED
    from append_sample_holds [OF assms(1), of result False stamp] obtain s3 where
      3: "append_sample result False stamp s = Some s3" "session_holds s3 (xs @ [?f False])"
        "s3 = s\<lparr>ss_buffer := ss_buffer s3, ss_write_pos := ss_write_pos s3, ss_count := ss_count s3\<rparr>" by blast
    have p: "ss_state s3 = Cs_TRIGGERED" "ss_depth s3 = ss_depth s" "ss_trigger s3 = ss_trigger s" "ss_post s3 = ss_post s"
      by (subst 3(3), simp add: Cs_TRIGGERED)+
    define post where "post = (if 0 < ss_post s then ss_post s - 1 else ss_post s)"
    have s': "s' = s3\<lparr>ss_post := post, ss_state := (if post = 0 then Cs_COMPLETE else Cs_TRIGGERED)\<rparr>"
      using assms(2) Cs_TRIGGERED 3(1) by (auto simp: session_take_def Let_def post_def p)
    have "session_holds s' (xs @ [?f False])" using 3(2) by (subst session_holds_cong [of _ s3]) (simp_all add: s')
    then show ?thesis using p by (simp add: s' state_step_def Cs_TRIGGERED same_setup_def post_def)
  qed (use assms in simp_all)
  then show "session_holds s' (xs @ [?f (ss_state s = Cs_WAITING_TRIGGER \<and> ss_state s' \<noteq> Cs_WAITING_TRIGGER)])"
    and "state_step s s'" and "same_setup s s'" by simp_all
qed

section \<open>What a session holds\<close>

lemma tick_step:
  assumes "session_tick L now stamp s = Some (True, s')" "session_holds s xs"
  shows "session_holds s' (xs @ [taken_frame stamp s s']) \<and> state_step s s' \<and> same_setup s s'"
  using assms(1)
proof (rule tick_taken)
  fix s2 s3
  assume t: "session_take (ss_prev s') stamp s2 = Some s3" and a: "ss_state s \<noteq> Cs_STOPPED" "ss_state s \<noteq> Cs_COMPLETE"
    and s': "s' = s3\<lparr>ss_prev := ss_prev s', ss_has_prev := True\<rparr>"
    and s2: "s2 = s\<lparr>ss_next := ss_next s2, ss_scanner := ss_scanner s2, ss_chain := ss_chain s2\<rparr>"
  have e2: "ss_state s2 = ss_state s" "ss_depth s2 = ss_depth s" "ss_post s2 = ss_post s" "ss_trigger s2 = ss_trigger s"
    "ss_buffer s2 = ss_buffer s" "ss_write_pos s2 = ss_write_pos s" "ss_count s2 = ss_count s" by (subst s2, simp)+
  have e3: "ss_state s' = ss_state s3" "ss_depth s' = ss_depth s3" "ss_post s' = ss_post s3" "ss_trigger s' = ss_trigger s3"
    "ss_buffer s' = ss_buffer s3" "ss_write_pos s' = ss_write_pos s3" "ss_count s' = ss_count s3" by (subst s', simp)+
  have "session_holds s2 xs" using assms(2) by (simp add: session_holds_cong [of s2 s] e2)
  note k = session_take_step [OF this t, unfolded e2, OF a]
  have "pre_trigger_samples s2 = pre_trigger_samples s" by (simp add: pre_trigger_samples_def e2)
  then have "state_step s2 s3 = state_step s s'" by (cases "ss_state s") (simp_all add: state_step_def e2 e3)
  with k show ?thesis by (simp add: session_holds_cong [of s' s3] e3 e2 taken_frame_def same_setup_def)
qed

lemma run_holds:
  assumes "session_run L s0 xs s" "0 < ss_depth s0"
  shows "session_holds s xs \<and> same_setup s0 s"
  using assms(1)
proof induction
  case (Started now)
  have "same_setup s0 (session_start now s0)" by (simp add: same_setup_def session_start_def trigger_arm_def Let_def)
  with session_start_holds [OF assms(2)] show ?case by blast
next
  case (Taken xs s now stamp s')
  with tick_step [OF Taken.hyps(2)] same_setup_trans show ?case by blast
next
  case (Skipped xs s now stamp s')
  have s': "s' = s\<lparr>ss_next := ss_next s', ss_scanner := ss_scanner s', ss_chain := ss_chain s', ss_error := ss_error s', ss_state := ss_state s'\<rparr>"
    by (rule tick_skipped(1) [OF Skipped.hyps(2)])
  have e: "ss_depth s' = ss_depth s" "ss_trigger s' = ss_trigger s" "ss_buffer s' = ss_buffer s" "ss_write_pos s' = ss_write_pos s"
    "ss_count s' = ss_count s" by (subst s', simp)+
  from Skipped.IH show ?case by (simp add: session_holds_cong [of s' s] e same_setup_def)
qed

text \<open>One trigger point, and the countdown behind it.\<close>

definition unmarked :: "sample_frame list \<Rightarrow> bool" where
  "unmarked xs \<longleftrightarrow> list_all (\<lambda>f. \<not> sf_trigger_point f) xs"

definition behind_trigger :: "nat \<Rightarrow> sample_frame list \<Rightarrow> 'd session \<Rightarrow> bool" where
  "behind_trigger n xs s \<longleftrightarrow>
     (\<exists>before trig after. xs = before @ [trig] @ after \<and> unmarked before \<and> sf_trigger_point trig \<and> unmarked after \<and>
        length after < n \<and> unat (ss_post s) = n - 1 - length after)"

lemma behind_trigger_cong: "ss_post s' = ss_post s \<Longrightarrow> behind_trigger n xs s' = behind_trigger n xs s"
  by (simp add: behind_trigger_def)

definition countdown :: "nat \<Rightarrow> sample_frame list \<Rightarrow> 'd session \<Rightarrow> bool" where
  "countdown n xs s \<longleftrightarrow>
     (case ss_state s of
        Cs_WAITING_TRIGGER \<Rightarrow> unmarked xs
      | Cs_TRIGGERED \<Rightarrow> behind_trigger n xs s \<and> 0 < ss_post s
      | Cs_COMPLETE \<Rightarrow> behind_trigger n xs s \<and> ss_post s = 0
      | Cs_STOPPED \<Rightarrow> True
      | Cs_RUNNING \<Rightarrow> False)"

lemma countdown_step:
  assumes "countdown (ss_depth s - pre_trigger_samples s) xs s" and "state_step s s'"
    and "pre_trigger_samples s < ss_depth s" and "ss_depth s < 2 ^ 64"
  shows "countdown (ss_depth s - pre_trigger_samples s) (xs @ [taken_frame stamp s s']) s'"
proof (cases "ss_state s")
  case Cs_WAITING_TRIGGER
  let ?n = "ss_depth s - pre_trigger_samples s"
  have u: "unmarked xs" using assms(1) Cs_WAITING_TRIGGER by (simp add: countdown_def)
  show ?thesis
  proof (cases "ss_state s' = Cs_WAITING_TRIGGER")
    case True
    then show ?thesis using u Cs_WAITING_TRIGGER by (simp add: countdown_def unmarked_def taken_frame_def)
  next
    case False
    then have p: "ss_post s' = of_nat (ss_depth s) - of_nat (pre_trigger_samples s) - 1"
      "ss_state s' = (if 0 < ss_post s' then Cs_TRIGGERED else Cs_COMPLETE)"
      using assms(2) Cs_WAITING_TRIGGER by (simp_all add: state_step_def)
    have "(of_nat (ss_depth s) - of_nat (pre_trigger_samples s) - 1 :: u64) = of_nat (?n - 1)"
      using assms(3) by (simp add: of_nat_diff)
    moreover have "?n - 1 < 2 ^ 64" using assms(4) by linarith
    ultimately have "unat (ss_post s') = ?n - 1" by (simp only: p(1)) (simp add: unsigned_of_nat take_bit_eq_mod)
    moreover have "sf_trigger_point (taken_frame stamp s s')" using Cs_WAITING_TRIGGER False by (simp add: taken_frame_def)
    ultimately have "behind_trigger ?n (xs @ [taken_frame stamp s s']) s'"
      using u assms(3) unfolding behind_trigger_def
      by (intro exI [of _ xs] exI [of _ "taken_frame stamp s s'"] exI [of _ "[]"]) (simp add: unmarked_def)
    with p(2) show ?thesis by (auto simp: countdown_def word_greater_zero_iff split: if_splits)
  qed
next
  case Cs_TRIGGERED
  let ?n = "ss_depth s - pre_trigger_samples s"
  have st: "ss_post s' = ss_post s - 1" "ss_state s' = (if ss_post s' = 0 then Cs_COMPLETE else Cs_TRIGGERED)"
    using assms(1,2) Cs_TRIGGERED by (auto simp: countdown_def state_step_def)
  obtain before trig after where b: "xs = before @ [trig] @ after" "unmarked before" "sf_trigger_point trig" "unmarked after"
    "length after < ?n" "unat (ss_post s) = ?n - 1 - length after" and pos: "0 < ss_post s"
    using assms(1) Cs_TRIGGERED by (auto simp: countdown_def behind_trigger_def)
  have "unat (ss_post s') = unat (ss_post s) - 1" unfolding st(1) using pos by (simp add: unat_minus_one word_greater_zero_iff)
  moreover have "0 < unat (ss_post s)" using pos by (simp add: word_less_nat_alt)
  moreover have "\<not> sf_trigger_point (taken_frame stamp s s')" using Cs_TRIGGERED by (simp add: taken_frame_def)
  ultimately have "behind_trigger ?n (xs @ [taken_frame stamp s s']) s'"
    using b unfolding behind_trigger_def
    by (intro exI [of _ before] exI [of _ trig] exI [of _ "after @ [taken_frame stamp s s']"]) (simp add: unmarked_def)
  with st(2) show ?thesis by (auto simp: countdown_def word_greater_zero_iff)
qed (use assms(1,2) in \<open>auto simp: countdown_def state_step_def\<close>)

lemma run_countdown:
  assumes "session_run L s0 xs s" "0 < ss_depth s0" "ss_depth s0 < 2 ^ 64" "te_mode (ss_trigger s0) = Tm_NORMAL"
    "pre_trigger_samples s0 < ss_depth s0"
  shows "countdown (ss_depth s0 - pre_trigger_samples s0) xs s"
  using assms(1)
proof induction
  case (Started now)
  have "ss_state (session_start now s0) = Cs_WAITING_TRIGGER" using assms(4) by (simp add: session_start_def trigger_arm_def Let_def)
  then show ?case by (simp add: countdown_def unmarked_def)
next
  case (Taken xs s now stamp s')
  have h: "session_holds s xs" and e: "same_setup s0 s" using run_holds [OF Taken.hyps(1) assms(2)] by simp_all
  have d: "ss_depth s = ss_depth s0" "pre_trigger_samples s = pre_trigger_samples s0"
    using e same_setup_pre by (simp_all add: same_setup_def) (simp add: pre_trigger_samples_def)
  have "state_step s s'" using tick_step [OF Taken.hyps(2) h] by simp
  from countdown_step [of s xs s', unfolded d, OF Taken.IH this assms(5,3)] show ?case .
next
  case (Skipped xs s now stamp s')
  have s': "ss_post s' = ss_post s"
    using arg_cong [OF tick_skipped(1) [OF Skipped.hyps(2)], of ss_post] by simp
  from tick_skipped(2) [OF Skipped.hyps(2)] Skipped.IH s' show ?case
    by (cases "ss_state s") (auto simp: countdown_def behind_trigger_cong [OF s'])
qed

section \<open>Properties\<close>


text \<open>Two samples of the demonstration chain complete a session with two frames that triggers at once.\<close>

lemma demo_sample:
  assumes "in_sync id (jc_tap c)" "jc_devices c = jc_devices demo_chain" "sc_index sc = 0"
  shows "\<exists>r c'. scanner_sample (chain_link [True, False, False, True, False, False]) sc c = Some (r, sc, c') \<and>
    in_sync id (jc_tap c') \<and> jc_devices c' = jc_devices demo_chain"
proof -
  let ?regs = "[[True, False, False, True, False], [False]]"
  have dev: "scanner_bsdl sc c = Some demo_device"
    using assms(2,3) by (simp add: scanner_bsdl_def scanner_ready_def valid_index_def demo_chain_def)
  have op: "sample_opcode demo_device = Some 1" by (simp add: sample_opcode_def get_instruction_def demo_device_def)
  have ir: "\<forall>d \<in> set (jc_devices c). cd_ir_length d \<le> 32" "0 < total_ir_length c"
    using assms(2) by (simp_all add: demo_chain_def new_device_def total_ir_length_def)
  have len: "0 < bd_boundary_length demo_device" "length (?regs ! nat (sc_index sc)) = bd_boundary_length demo_device"
    using assms(3) by (simp_all add: demo_device_def)
  have regs: "chain_regs (length (jc_devices c)) (nat (sc_index sc)) ?regs"
    using assms(2,3) by (auto simp: chain_regs_def demo_chain_def less_Suc_eq)
  have sc: "shows_chain id (chain_level (concat ?regs)) (concat ?regs)" by (rule chain_link_ok(3))
  from sample_reports [OF chain_link_always_ok [of "concat ?regs"] chain_link_ok(1,2) assms(1) dev op ir demo_cells_ok len(1) sc regs len(2)]
    assms(2) show ?thesis by auto
qed

lemma demo_sync: "in_sync id (jc_tap demo_chain)"
  by (simp add: in_sync_def demo_chain_def)

definition demo_session :: "(tap_state \<times> bool) session" where
  "demo_session = (session_set_depth 2 (new_session \<lparr>sc_index = 0, sc_filter = [], sc_error = []\<rparr> demo_chain))
     \<lparr>ss_trigger := set_mode Tm_NORMAL trigger_new\<rparr>"

lemma demo_session_completes:
  "\<exists>xs s. session_run (chain_link [True, False, False, True, False, False]) demo_session xs s \<and> ss_state s = Cs_COMPLETE"
proof -
  let ?L = "chain_link [True, False, False, True, False, False]" and ?sc = "\<lparr>sc_index = 0, sc_filter = [], sc_error = []\<rparr>"
  let ?s0 = "session_start 0 demo_session"
  obtain r1 c1 where 1: "scanner_sample ?L ?sc demo_chain = Some (r1, ?sc, c1)" "in_sync id (jc_tap c1)" "jc_devices c1 = jc_devices demo_chain"
    using demo_sample [OF demo_sync refl, of ?sc] by auto
  obtain r2 c2 where 2: "scanner_sample ?L ?sc c1 = Some (r2, ?sc, c2)" using demo_sample [OF 1(2,3), of ?sc] by auto
  let ?f1 = "\<lparr>sf_timestamp = 0, sf_data = r1, sf_trigger_point = False\<rparr>" and ?f2 = "\<lparr>sf_timestamp = 1, sf_data = r2, sf_trigger_point = True\<rparr>"
  have s0: "?s0 = \<lparr>ss_scanner = ?sc, ss_chain = demo_chain,
       ss_trigger = \<lparr>te_mode = Tm_NORMAL, te_conditions = [], te_triggered = False, te_armed = True, te_pre_ratio = 1 / 2\<rparr>,
       ss_depth = 2, ss_interval = 1000, ss_buffer = [empty_frame, empty_frame], ss_write_pos = 0, ss_count = 0, ss_post = 0,
       ss_state = Cs_WAITING_TRIGGER, ss_next = 0, ss_prev = empty_scan, ss_has_prev = False, ss_error = []\<rparr>"
    by (simp add: demo_session_def session_start_def new_session_def session_set_depth_def trigger_new_def set_mode_def trigger_arm_def
        Let_def numeral_2_eq_2)
  let ?s1 = "?s0\<lparr>ss_chain := c1, ss_next := 1000, ss_buffer := [?f1, empty_frame], ss_write_pos := 1, ss_count := 1, ss_prev := r1, ss_has_prev := True\<rparr>"
  have t1: "session_tick ?L 0 0 ?s0 = Some (True, ?s1)"
    unfolding s0 by (simp add: session_tick_def Let_def 1(1) session_take_def append_sample_def)
  let ?s2 = "?s1\<lparr>ss_chain := c2, ss_next := 2000, ss_buffer := [?f1, ?f2], ss_write_pos := 0, ss_count := 2, ss_post := 0,
      ss_state := Cs_COMPLETE, ss_prev := r2\<rparr>"
  have t2: "session_tick ?L 1000 1 ?s1 = Some (True, ?s2)"
    unfolding s0 by (simp add: session_tick_def Let_def 2 session_take_def append_sample_def trigger_evaluate_def pre_trigger_samples_def)
  have "session_run ?L demo_session [] ?s0" by (rule Started)
  note run = Taken [OF Taken [OF this t1] t2]
  have "ss_state ?s2 = Cs_COMPLETE" unfolding s0 by simp
  with run show ?thesis by blast
qed


section \<open>Sessions that go wrong\<close>

text \<open>With a pre-trigger ratio of 1 nothing remains for after the trigger, and the counter wraps: the session goes on for
  two to the 64 samples instead of being complete.\<close>

theorem full_ratio_wraps:
  assumes "session_holds s xs" "session_take result stamp s = Some s'" "ss_state s = Cs_WAITING_TRIGGER"
    "ss_state s' \<noteq> Cs_WAITING_TRIGGER" "pre_trigger_samples s = ss_depth s"
  shows "ss_state s' = Cs_TRIGGERED \<and> ss_post s' = -1"
  using session_take_step(2) [OF assms(1,2)] assms(3-5) by (simp add: state_step_def word_greater_zero_iff split: if_splits)

text \<open>\<open>Scanner\<close> keeps the error of a failed scan for good, and a tick takes any error for a failure of its own sample: a
  session over a scanner that has failed once stops at its first tick, although the sample succeeds.\<close>

theorem old_error_stops_session:
  "\<exists>r c'. scanner_sample (chain_link [True, False, False, True, False, False]) \<lparr>sc_index = 0, sc_filter = [], sc_error = ''old''\<rparr> demo_chain
      = Some (r, \<lparr>sc_index = 0, sc_filter = [], sc_error = ''old''\<rparr>, c') \<and>
    (\<exists>s'. session_tick (chain_link [True, False, False, True, False, False]) 0 0
        (session_start 0 (new_session \<lparr>sc_index = 0, sc_filter = [], sc_error = ''old''\<rparr> demo_chain)) = Some (False, s') \<and>
      ss_state s' = Cs_STOPPED \<and> ss_error s' = ''old'')"
proof -
  let ?sc = "\<lparr>sc_index = 0, sc_filter = [], sc_error = ''old''\<rparr>"
  obtain r c' where r: "scanner_sample (chain_link [True, False, False, True, False, False]) ?sc demo_chain = Some (r, ?sc, c')"
    using demo_sample [OF demo_sync refl, of ?sc] by auto
  then show ?thesis
    by (simp add: session_tick_def session_start_def new_session_def trigger_new_def trigger_arm_def Let_def)
qed

end
