(* ===== verification/Script_Engine.thy ===== *)
theory Script_Engine
  imports Cxx_Search Scanner
begin

text \<open>
  \<open>ScriptEngine\<close> and \<open>TestSuiteRunner\<close> (src/src/script/script_engine.cpp, test_suite.cpp).  The host is a record of
  functions on its own state: an operation that can fail returns the error text in \<open>Inl\<close>.  Files are read by a function
  of the path.
\<close>

section \<open>The host and the result\<close>

record 'h script_host =
  sh_sample :: "'h \<Rightarrow> (string + scan_result) \<times> 'h"
  sh_set_pin :: "string \<Rightarrow> int \<Rightarrow> 'h \<Rightarrow> (string + unit) \<times> 'h"
  sh_set_high_z :: "string \<Rightarrow> 'h \<Rightarrow> (string + unit) \<times> 'h"
  sh_apply :: "'h \<Rightarrow> (string + unit) \<times> 'h"
  sh_reset_safe :: "'h \<Rightarrow> 'h"
  sh_sleep :: "int \<Rightarrow> 'h \<Rightarrow> (string + unit) \<times> 'h"

record script_result =
  sr_success :: bool
  sr_failed_line :: int
  sr_output :: string
  sr_total_expects :: int
  sr_failed_expects :: int

section \<open>Words and values\<close>

definition str_lower :: "string \<Rightarrow> string" where
  "str_lower = map to_lower"

definition strip_comment :: "string \<Rightarrow> string" where
  "strip_comment l =
     (if CHR ''#'' \<in> set l then trim_str (before_char CHR ''#'' l)
      else if has_prefix ''//'' l then []
      else trim_str l)"

text \<open>The value and whether the pin is released.\<close>

definition parse_drive_value :: "string \<Rightarrow> string + (int \<times> bool)" where
  "parse_drive_value token =
     (let lowered = str_lower token
      in if lowered = ''0'' \<or> lowered = ''low'' then Inr (0, False)
         else if lowered = ''1'' \<or> lowered = ''high'' then Inr (1, False)
         else if lowered = ''z'' \<or> lowered = ''highz'' \<or> lowered = ''high-z'' then Inr (-1, True)
         else Inl (''unsupported drive value '' @ [CHR 0x27] @ token @ [CHR 0x27]))"

definition parse_expected_value :: "string \<Rightarrow> string + pin_state" where
  "parse_expected_value token =
     (let lowered = str_lower token
      in if lowered = ''0'' \<or> lowered = ''low'' then Inr Ps_LOW
         else if lowered = ''1'' \<or> lowered = ''high'' then Inr Ps_HIGH
         else if lowered = ''unknown'' \<or> lowered = ''?'' then Inr Ps_UNKNOWN
         else Inl (''unsupported expected value '' @ [CHR 0x27] @ token @ [CHR 0x27]))"

definition pin_state_name :: "pin_state \<Rightarrow> string" where
  "pin_state_name p = (case p of Ps_LOW \<Rightarrow> ''LOW'' | Ps_HIGH \<Rightarrow> ''HIGH'' | Ps_UNKNOWN \<Rightarrow> ''UNKNOWN'')"

text \<open>What \<open>std::stoi\<close> leaves unread.\<close>

definition stoi_rest :: "string \<Rightarrow> string" where
  "stoi_rest s0 =
     (let s1 = dropWhile is_space s0;
          s2 = (if s1 \<noteq> [] \<and> (hd s1 = CHR ''-'' \<or> hd s1 = CHR ''+'') then tl s1 else s1)
      in dropWhile is_digit s2)"

definition parse_milliseconds :: "string \<Rightarrow> string + int" where
  "parse_milliseconds token =
     (case stoi token of
        None \<Rightarrow> Inl (''invalid integer '' @ [CHR 0x27] @ token @ [CHR 0x27])
      | Some parsed \<Rightarrow>
          if stoi_rest token \<noteq> [] then Inl (''invalid integer '' @ [CHR 0x27] @ token @ [CHR 0x27])
          else if parsed < 0 then Inl ''sleep duration must be >= 0''
          else Inr parsed)"

section \<open>Commands\<close>

text \<open>One command: the text of its output line and the number of expectations it checked, or an error.\<close>

type_synonym 'h command_result = "(string + (string \<times> int)) \<times> 'h"

definition cmd_sample :: "'h script_host \<Rightarrow> string list \<Rightarrow> 'h \<Rightarrow> 'h command_result" where
  "cmd_sample H ts h =
     (if length ts \<noteq> 1 then (Inl ''sample takes no arguments'', h)
      else case sh_sample H h of
             (Inl e, h1) \<Rightarrow> (Inl e, h1)
           | (Inr _, h1) \<Rightarrow> (Inr (''sample OK'', 0), h1))"

definition cmd_read :: "'h script_host \<Rightarrow> string list \<Rightarrow> 'h \<Rightarrow> 'h command_result" where
  "cmd_read H ts h =
     (if length ts \<noteq> 2 then (Inl ''read requires: read <pin>'', h)
      else
        let pin_name = str_upper (ts ! 1)
        in case sh_sample H h of
             (Inl e, h1) \<Rightarrow> (Inl e, h1)
           | (Inr r, h1) \<Rightarrow> (Inr (pin_name @ '' = '' @ pin_state_name (sr_get_pin r pin_name), 0), h1))"

definition cmd_set :: "'h script_host \<Rightarrow> string list \<Rightarrow> 'h \<Rightarrow> 'h command_result" where
  "cmd_set H ts h =
     (if length ts \<noteq> 3 then (Inl ''set requires: set <pin> <0|1|low|high|z>'', h)
      else
        let pin_name = str_upper (ts ! 1)
        in case parse_drive_value (ts ! 2) of
             Inl e \<Rightarrow> (Inl e, h)
           | Inr (v, high_z) \<Rightarrow>
               (case (if high_z then sh_set_high_z H pin_name h else sh_set_pin H pin_name v h) of
                  (Inl e, h1) \<Rightarrow> (Inl e, h1)
                | (Inr _, h1) \<Rightarrow>
                    (Inr (''staged '' @ pin_name @ '' = '' @ (if high_z then ''HIGH-Z'' else if v = 0 then ''LOW'' else ''HIGH''), 0), h1)))"

definition cmd_highz :: "'h script_host \<Rightarrow> string list \<Rightarrow> 'h \<Rightarrow> 'h command_result" where
  "cmd_highz H ts h =
     (if length ts \<noteq> 2 then (Inl ''highz requires: highz <pin>'', h)
      else
        let pin_name = str_upper (ts ! 1)
        in case sh_set_high_z H pin_name h of
             (Inl e, h1) \<Rightarrow> (Inl e, h1)
           | (Inr _, h1) \<Rightarrow> (Inr (''staged '' @ pin_name @ '' = HIGH-Z'', 0), h1))"

definition cmd_apply :: "'h script_host \<Rightarrow> string list \<Rightarrow> 'h \<Rightarrow> 'h command_result" where
  "cmd_apply H ts h =
     (if length ts \<noteq> 1 then (Inl ''apply takes no arguments'', h)
      else case sh_apply H h of
             (Inl e, h1) \<Rightarrow> (Inl e, h1)
           | (Inr _, h1) \<Rightarrow> (Inr (''apply OK'', 0), h1))"

definition cmd_expect :: "'h script_host \<Rightarrow> string list \<Rightarrow> 'h \<Rightarrow> 'h command_result" where
  "cmd_expect H ts h =
     (if length ts \<noteq> 3 then (Inl ''expect requires: expect <pin> <0|1|low|high|unknown>'', h)
      else
        let pin_name = str_upper (ts ! 1)
        in case parse_expected_value (ts ! 2) of
             Inl e \<Rightarrow> (Inl e, h)
           | Inr expected \<Rightarrow>
               (case sh_sample H h of
                  (Inl e, h1) \<Rightarrow> (Inl e, h1)
                | (Inr r, h1) \<Rightarrow>
                    let actual = sr_get_pin r pin_name
                    in if actual \<noteq> expected
                       then (Inl (pin_name @ '' expected '' @ pin_state_name expected @ '' but observed '' @ pin_state_name actual), h1)
                       else (Inr (''expect '' @ pin_name @ '' == '' @ pin_state_name expected @ '' OK'', 1), h1)))"

definition cmd_sleep :: "'h script_host \<Rightarrow> string list \<Rightarrow> 'h \<Rightarrow> 'h command_result" where
  "cmd_sleep H ts h =
     (if length ts \<noteq> 2 then (Inl ''sleep requires: sleep <milliseconds>'', h)
      else case parse_milliseconds (ts ! 1) of
             Inl e \<Rightarrow> (Inl e, h)
           | Inr ms \<Rightarrow>
               (case sh_sleep H ms h of
                  (Inl e, h1) \<Rightarrow> (Inl e, h1)
                | (Inr _, h1) \<Rightarrow> (Inr (''sleep '' @ to_string ms @ '' ms'', 0), h1)))"

definition cmd_reset_safe :: "'h script_host \<Rightarrow> string list \<Rightarrow> 'h \<Rightarrow> 'h command_result" where
  "cmd_reset_safe H ts h =
     (if length ts \<noteq> 1 then (Inl ''reset_safe takes no arguments'', h)
      else case sh_apply H (sh_reset_safe H h) of
             (Inl e, h1) \<Rightarrow> (Inl e, h1)
           | (Inr _, h1) \<Rightarrow> (Inr (''reset_safe OK'', 0), h1))"

definition run_command :: "'h script_host \<Rightarrow> string list \<Rightarrow> 'h \<Rightarrow> 'h command_result" where
  "run_command H ts h =
     (let command = str_lower (ts ! 0)
      in if command = ''sample'' then cmd_sample H ts h
         else if command = ''read'' then cmd_read H ts h
         else if command = ''set'' then cmd_set H ts h
         else if command = ''highz'' \<or> command = ''z'' then cmd_highz H ts h
         else if command = ''apply'' then cmd_apply H ts h
         else if command = ''expect'' then cmd_expect H ts h
         else if command = ''sleep'' then cmd_sleep H ts h
         else if command = ''reset_safe'' then cmd_reset_safe H ts h
         else (Inl (''unknown command '' @ [CHR 0x27] @ ts ! 0 @ [CHR 0x27]), h))"

section \<open>The script\<close>

definition append_output :: "string \<Rightarrow> string \<Rightarrow> string" where
  "append_output out l = out @ l @ [newline]"

definition script_fail :: "string \<Rightarrow> int \<Rightarrow> string \<Rightarrow> script_result" where
  "script_fail out n msg =
     \<lparr>sr_success = False, sr_failed_line = n, sr_output = append_output out (''line '' @ to_string n @ '': ERROR: '' @ msg),
      sr_total_expects = 0, sr_failed_expects = 0\<rparr>"

text \<open>The loop over the lines; the number of the last line read and the expectations so far.\<close>

fun script_loop :: "'h script_host \<Rightarrow> string list \<Rightarrow> int \<Rightarrow> int \<Rightarrow> string \<Rightarrow> 'h \<Rightarrow> script_result \<times> 'h" where
  "script_loop H [] n cnt out h =
     (\<lparr>sr_success = True, sr_failed_line = 0, sr_output = append_output out ''script completed successfully'',
       sr_total_expects = cnt, sr_failed_expects = 0\<rparr>, h)"
| "script_loop H (l # ls) n cnt out h =
     (let ts = tokens [] (strip_comment l)
      in if ts = [] then script_loop H ls (n + 1) cnt out h
         else case run_command H ts h of
                (Inl msg, h1) \<Rightarrow> (script_fail out (n + 1) msg, h1)
              | (Inr (txt, k), h1) \<Rightarrow>
                  script_loop H ls (n + 1) (cnt + k) (append_output out (''line '' @ to_string (n + 1) @ '': '' @ txt)) h1)"

definition script_run :: "'h script_host \<Rightarrow> string \<Rightarrow> 'h \<Rightarrow> script_result \<times> 'h" where
  "script_run H txt h = script_loop H (split_lines txt) 0 0 [] h"

section \<open>Test suites\<close>

record test_case =
  tc_name :: string
  tc_path :: string
  tc_success :: bool
  tc_failed_line :: int
  tc_total_expects :: int
  tc_failed_expects :: int
  tc_output :: string

record suite_result =
  su_cases :: "test_case list"
  su_pass :: int
  su_fail :: int

text \<open>The functions of \<open>std::filesystem\<close> on paths are parameters.\<close>

definition suite_line :: "string \<Rightarrow> string" where
  "suite_line l = trim_str (before_char CHR ''#'' l)"

definition parse_suite ::
  "(string \<Rightarrow> bool) \<Rightarrow> (string \<Rightarrow> string \<Rightarrow> string) \<Rightarrow> string \<Rightarrow> string \<Rightarrow> string list" where
  "parse_suite is_relative join_path suite_dir txt =
     map (\<lambda>p. if is_relative p then join_path suite_dir p else p) (filter (\<lambda>l. l \<noteq> []) (map suite_line (split_lines txt)))"

definition run_case :: "'h script_host \<Rightarrow> (string \<Rightarrow> string) \<Rightarrow> (string \<Rightarrow> string option) \<Rightarrow> string \<Rightarrow> 'h \<Rightarrow> test_case \<times> 'h" where
  "run_case H base_name file path h =
     (case file path of
        None \<Rightarrow>
          (\<lparr>tc_name = base_name path, tc_path = path, tc_success = False, tc_failed_line = 0, tc_total_expects = 0,
            tc_failed_expects = 0, tc_output = ''ERROR: cannot open file: '' @ path\<rparr>, h)
      | Some txt \<Rightarrow>
          (case script_run H txt h of
             (r, h1) \<Rightarrow>
               (\<lparr>tc_name = base_name path, tc_path = path, tc_success = sr_success r, tc_failed_line = sr_failed_line r,
                 tc_total_expects = sr_total_expects r, tc_failed_expects = sr_failed_expects r, tc_output = sr_output r\<rparr>, h1)))"

fun suite_loop ::
  "'h script_host \<Rightarrow> (string \<Rightarrow> string) \<Rightarrow> (string \<Rightarrow> string option) \<Rightarrow> string list \<Rightarrow> suite_result \<Rightarrow> 'h \<Rightarrow> suite_result \<times> 'h" where
  "suite_loop H base_name file [] s h = (s, h)"
| "suite_loop H base_name file (p # ps) s h =
     (case run_case H base_name file p h of
        (c, h1) \<Rightarrow>
          suite_loop H base_name file ps
            \<lparr>su_cases = su_cases s @ [c], su_pass = (if tc_success c then su_pass s + 1 else su_pass s),
             su_fail = (if tc_success c then su_fail s else su_fail s + 1)\<rparr> h1)"

definition suite_run ::
  "'h script_host \<Rightarrow> (string \<Rightarrow> string) \<Rightarrow> (string \<Rightarrow> string option) \<Rightarrow> string list \<Rightarrow> 'h \<Rightarrow> suite_result \<times> 'h" where
  "suite_run H base_name file ps h = suite_loop H base_name file ps \<lparr>su_cases = [], su_pass = 0, su_fail = 0\<rparr> h"

text \<open>The last line of the output, with its newline.\<close>

definition last_line :: "string \<Rightarrow> string option" where
  "last_line out =
     (case rfind_char newline out (if length out < 2 then length out else length out - 2) of
        None \<Rightarrow> None
      | Some i \<Rightarrow> Some (drop (i + 1) out))"

definition case_report :: "test_case \<Rightarrow> string" where
  "case_report c =
     (if tc_success c then ''[PASS] '' else ''[FAIL] '') @ tc_name c @
     (if \<not> tc_success c \<and> 0 < tc_failed_line c then '' (line '' @ to_string (tc_failed_line c) @ '')'' else []) @
     ''  expects: '' @ to_string (tc_total_expects c - tc_failed_expects c) @ ''/'' @ to_string (tc_total_expects c) @ '' passed'' @ [newline] @
     (if tc_success c then []
      else (case last_line (tc_output c) of None \<Rightarrow> [] | Some l \<Rightarrow> ''         '' @ l) @ [newline])"

definition format_report :: "suite_result \<Rightarrow> string" where
  "format_report s =
     ''=== Test Suite Report ==='' @ [newline] @
     ''Total: '' @ to_string (int (length (su_cases s))) @ ''  PASS: '' @ to_string (su_pass s) @ ''  FAIL: '' @ to_string (su_fail s) @
     [newline, newline] @ concat (map case_report (su_cases s))"

end
