(* ===== verification/Script_Props.thy ===== *)
theory Script_Props
  imports Script_Engine
begin

text \<open>
  What a script does: an abstract syntax of the commands with its own big-step meaning on the host, its text, and the
  theorem that the engine executes the text as the commands mean.
\<close>

section \<open>Commands and their meaning\<close>

datatype drive = Drive_Low | Drive_High | Drive_Z

datatype script_cmd =
    SC_Sample
  | SC_Read string
  | SC_Set string drive
  | SC_Highz string
  | SC_Apply
  | SC_Expect string pin_state
  | SC_Sleep nat
  | SC_Reset_Safe

text \<open>The effect of a call that may fail: the error, if any, and the next state of the host.\<close>

definition effect_of :: "(string + 'a) \<times> 'h \<Rightarrow> string option \<times> 'h" where
  "effect_of r = (case fst r of Inl e \<Rightarrow> Some e | Inr _ \<Rightarrow> None, snd r)"

definition mismatch :: "string \<Rightarrow> pin_state \<Rightarrow> pin_state \<Rightarrow> string" where
  "mismatch pin expected actual = pin @ '' expected '' @ pin_state_name expected @ '' but observed '' @ pin_state_name actual"

fun cmd_effect :: "'h script_host \<Rightarrow> script_cmd \<Rightarrow> 'h \<Rightarrow> string option \<times> 'h" where
  "cmd_effect H SC_Sample h = effect_of (sh_sample H h)"
| "cmd_effect H (SC_Read p) h = effect_of (sh_sample H h)"
| "cmd_effect H (SC_Set p Drive_Low) h = effect_of (sh_set_pin H (str_upper p) 0 h)"
| "cmd_effect H (SC_Set p Drive_High) h = effect_of (sh_set_pin H (str_upper p) 1 h)"
| "cmd_effect H (SC_Set p Drive_Z) h = effect_of (sh_set_high_z H (str_upper p) h)"
| "cmd_effect H (SC_Highz p) h = effect_of (sh_set_high_z H (str_upper p) h)"
| "cmd_effect H SC_Apply h = effect_of (sh_apply H h)"
| "cmd_effect H (SC_Expect p v) h =
     (case sh_sample H h of
        (Inl e, h1) \<Rightarrow> (Some e, h1)
      | (Inr r, h1) \<Rightarrow>
          (if sr_get_pin r (str_upper p) = v then None else Some (mismatch (str_upper p) v (sr_get_pin r (str_upper p))), h1))"
| "cmd_effect H (SC_Sleep ms) h = effect_of (sh_sleep H (int ms) h)"
| "cmd_effect H SC_Reset_Safe h = effect_of (sh_apply H (sh_reset_safe H h))"

text \<open>A script runs until a command fails; the outcome is the place and the error of the failure, if there is one.\<close>

inductive script_exec :: "'h script_host \<Rightarrow> script_cmd list \<Rightarrow> 'h \<Rightarrow> (nat \<times> string) option \<Rightarrow> 'h \<Rightarrow> bool" for H where
  Finished: "script_exec H [] h None h"
| Failing: "cmd_effect H c h = (Some e, h1) \<Longrightarrow> script_exec H (c # cs) h (Some (1, e)) h1"
| Passing: "cmd_effect H c h = (None, h1) \<Longrightarrow> script_exec H cs h1 r h2 \<Longrightarrow>
            script_exec H (c # cs) h (map_option (\<lambda>(n, e). (n + 1, e)) r) h2"

inductive_cases script_exec_NilE: "script_exec H [] h r h'"
inductive_cases script_exec_ConsE: "script_exec H (c # cs) h r h'"

lemma script_exec_total: "\<exists>r h'. script_exec H cs h r h'"
proof (induction cs arbitrary: h)
  case (Cons c cs)
  obtain e h1 where c: "cmd_effect H c h = (e, h1)" by fastforce
  show ?case
  proof (cases e)
    case None
    with Cons.IH [of h1] c show ?thesis by (blast intro: Passing)
  next
    case (Some x)
    with c show ?thesis by (blast intro: Failing)
  qed
qed (blast intro: Finished)

lemma script_exec_deterministic: "script_exec H cs h r h' \<Longrightarrow> script_exec H cs h r2 h2 \<Longrightarrow> r2 = r \<and> h2 = h'"
proof (induction arbitrary: r2 h2 rule: script_exec.induct)
  case (Finished h)
  then show ?case by (elim script_exec_NilE) simp
next
  case (Failing c h e h1 cs)
  from Failing.prems Failing.hyps show ?case by (elim script_exec_ConsE) auto
next
  case (Passing c h h1 cs r h')
  from Passing.prems Passing.hyps(1) Passing.IH show ?case by (elim script_exec_ConsE) auto
qed

section \<open>The text of a script\<close>

fun cmd_words :: "script_cmd \<Rightarrow> string list" where
  "cmd_words SC_Sample = [''sample'']"
| "cmd_words (SC_Read p) = [''read'', p]"
| "cmd_words (SC_Set p d) = [''set'', p, case d of Drive_Low \<Rightarrow> ''low'' | Drive_High \<Rightarrow> ''high'' | Drive_Z \<Rightarrow> ''z'']"
| "cmd_words (SC_Highz p) = [''highz'', p]"
| "cmd_words SC_Apply = [''apply'']"
| "cmd_words (SC_Expect p v) = [''expect'', p, case v of Ps_LOW \<Rightarrow> ''low'' | Ps_HIGH \<Rightarrow> ''high'' | Ps_UNKNOWN \<Rightarrow> ''unknown'']"
| "cmd_words (SC_Sleep ms) = [''sleep'', dec_digits ms]"
| "cmd_words SC_Reset_Safe = [''reset_safe'']"

definition script_text :: "script_cmd list \<Rightarrow> string" where
  "script_text cs = concat (map (\<lambda>c. join_words (cmd_words c) @ [newline]) cs)"

definition pin_word :: "string \<Rightarrow> bool" where
  "pin_word p \<longleftrightarrow> p \<noteq> [] \<and> list_all (\<lambda>c. \<not> is_space c \<and> c \<noteq> CHR ''#'') p"

fun cmd_ok :: "script_cmd \<Rightarrow> bool" where
  "cmd_ok (SC_Read p) = pin_word p"
| "cmd_ok (SC_Set p d) = pin_word p"
| "cmd_ok (SC_Highz p) = pin_word p"
| "cmd_ok (SC_Expect p v) = pin_word p"
| "cmd_ok (SC_Sleep ms) = (ms \<le> 2147483647)"
| "cmd_ok _ = True"

text \<open>The number of expectations, all of which hold when the script succeeds.\<close>

definition expects :: "script_cmd list \<Rightarrow> int" where
  "expects cs = int (length (filter (\<lambda>c. case c of SC_Expect _ _ \<Rightarrow> True | _ \<Rightarrow> False) cs))"

lemma pin_word_digits: "pin_word (dec_digits n)"
  using dec_digits_correct [of n] digit_not_space
  by (auto simp: pin_word_def list_all_iff is_digit_def char_code_def)

lemma cmd_words_pin: "cmd_ok c \<Longrightarrow> list_all pin_word (cmd_words c) \<and> cmd_words c \<noteq> [] \<and> hd (hd (cmd_words c)) \<noteq> CHR ''/''"
  by (cases c rule: cmd_words.cases)
    (auto simp: pin_word_digits split: drive.splits pin_state.splits, auto simp: pin_word_def is_space_def char_code_def)

lemma words_line:
  assumes "list_all pin_word ws" "ws \<noteq> []" "hd (hd ws) \<noteq> CHR ''/''"
  shows "tokens [] (strip_comment (join_words ws)) = ws" and "newline \<notin> set (join_words ws)"
proof -
  have w: "list_all (\<lambda>w. w \<noteq> [] \<and> list_all (\<lambda>c. \<not> is_space c) w) ws"
    using assms(1) by (auto simp: pin_word_def list_all_iff)
  have chars: "set (join_words ws) \<subseteq> {CHR '' ''} \<union> \<Union> (set ` set ws)" by (rule set_join_words)
  then have "CHR ''#'' \<notin> set (join_words ws)" using assms(1) by (auto simp: pin_word_def list_all_iff)
  moreover have "\<not> has_prefix ''//'' (join_words ws)"
  proof -
    obtain c s where j: "join_words ws = c # s" using join_words_not_Nil [OF w assms(2)] by (cases "join_words ws") auto
    have "hd (join_words ws) = hd (hd ws)" using assms(2) w by (cases ws rule: join_words.cases) (auto simp: hd_append)
    then show ?thesis using assms(3) j by (simp add: has_prefix_hd)
  qed
  ultimately have "strip_comment (join_words ws) = join_words ws"
    by (simp add: strip_comment_def trim_join_words [OF w assms(2)])
  then show "tokens [] (strip_comment (join_words ws)) = ws" by (simp add: tokens_join_words [OF w])
  have "\<not> is_space c" if "c \<in> set v" "v \<in> set ws" for c v using w that by (auto simp: list_all_iff)
  moreover have "is_space newline" by (simp add: newline_def is_space_def char_code_def)
  ultimately show "newline \<notin> set (join_words ws)" using chars by (auto simp: newline_def)
qed

lemma split_script: "list_all cmd_ok cs \<Longrightarrow> split_lines (script_text cs) = map (\<lambda>c. join_words (cmd_words c)) cs"
proof (induction cs)
  case (Cons c cs)
  then have "newline \<notin> set (join_words (cmd_words c))" using cmd_words_pin [of c] words_line(2) [of "cmd_words c"] by simp
  from split_lines_line [OF this, of "script_text cs"] Cons show ?case by (simp add: script_text_def)
qed (simp add: script_text_def)

section \<open>The engine executes the text\<close>

lemma lower_words:
  "str_lower ''sample'' = ''sample''" "str_lower ''read'' = ''read''" "str_lower ''set'' = ''set''" "str_lower ''highz'' = ''highz''"
  "str_lower ''apply'' = ''apply''" "str_lower ''expect'' = ''expect''" "str_lower ''sleep'' = ''sleep''"
  "str_lower ''reset_safe'' = ''reset_safe''" "str_lower ''low'' = ''low''" "str_lower ''high'' = ''high''" "str_lower ''z'' = ''z''"
  "str_lower ''unknown'' = ''unknown''"
  by code_simp+

lemma parse_milliseconds_digits: "ms \<le> 2147483647 \<Longrightarrow> parse_milliseconds (dec_digits ms) = Inr (int ms)"
proof -
  assume ms: "ms \<le> 2147483647"
  have d: "list_all is_digit (dec_digits ms)" "dec_digits ms \<noteq> []" using dec_digits_correct [of ms] by simp_all
  have hd: "is_digit (hd (dec_digits ms))" using d by (cases "dec_digits ms") auto
  have "dropWhile is_space (dec_digits ms) = dec_digits ms" using d(2) hd digit_not_space by (intro dropWhile_id) auto
  moreover have "dropWhile is_digit (dec_digits ms) = []" using d(1) by (simp add: list_all_iff)
  ultimately have "stoi_rest (dec_digits ms) = []" using digit_not_sign [OF hd] by (simp add: stoi_rest_def)
  with stoi_dec_digits [of ms] ms show ?thesis by (simp add: parse_milliseconds_def)
qed

definition is_expect :: "script_cmd \<Rightarrow> bool" where
  "is_expect c = (case c of SC_Expect _ _ \<Rightarrow> True | _ \<Rightarrow> False)"

definition commands_as :: "'h command_result \<Rightarrow> script_cmd \<Rightarrow> string option \<times> 'h \<Rightarrow> bool" where
  "commands_as r c x \<longleftrightarrow> snd r = snd x \<and>
     (case fst x of None \<Rightarrow> \<exists>txt. fst r = Inr (txt, of_bool (is_expect c)) | Some e \<Rightarrow> fst r = Inl e)"

lemma run_cmd_words: "cmd_ok c \<Longrightarrow> commands_as (run_command H (cmd_words c) h) c (cmd_effect H c h)"
  by (cases "(H, c, h)" rule: cmd_effect.cases)
    (auto simp: run_command_def lower_words Let_def cmd_sample_def cmd_read_def cmd_set_def cmd_highz_def cmd_apply_def cmd_expect_def
      cmd_sleep_def cmd_reset_safe_def parse_drive_value_def parse_expected_value_def parse_milliseconds_digits commands_as_def
      effect_of_def is_expect_def mismatch_def split: sum.splits prod.splits pin_state.splits)

definition script_shows :: "script_cmd list \<Rightarrow> int \<Rightarrow> int \<Rightarrow> (nat \<times> string) option \<Rightarrow> script_result \<Rightarrow> bool" where
  "script_shows cs n k r R \<longleftrightarrow>
     (case r of
        None \<Rightarrow> sr_success R \<and> sr_failed_line R = 0 \<and> sr_total_expects R = k + int (length (filter is_expect cs)) \<and> sr_failed_expects R = 0
      | Some (i, e) \<Rightarrow>
          \<not> sr_success R \<and> sr_failed_line R = n + int i \<and>
          (\<exists>before. sr_output R = before @ ''line '' @ to_string (n + int i) @ '': ERROR: '' @ e @ [newline]))"

lemma script_loop_exec:
  assumes "script_exec H cs h r h'" and "list_all cmd_ok cs"
  shows "\<exists>R. script_loop H (map (\<lambda>c. join_words (cmd_words c)) cs) n k out h = (R, h') \<and> script_shows cs n k r R"
  using assms
proof (induction arbitrary: n k out rule: script_exec.induct)
  case (Finished h)
  then show ?case by (simp add: script_shows_def)
next
  case (Failing c h e h1 cs)
  then have ok: "cmd_ok c" by simp
  have ws: "cmd_words c \<noteq> []" "tokens [] (strip_comment (join_words (cmd_words c))) = cmd_words c"
    using cmd_words_pin [OF ok] words_line(1) [of "cmd_words c"] by simp_all
  have "run_command H (cmd_words c) h = (Inl e, h1)"
    using run_cmd_words [OF ok, of H h] Failing.hyps by (auto simp: commands_as_def prod_eq_iff)
  with ws show ?case by (simp add: script_shows_def script_fail_def append_output_def)
next
  case (Passing c h h1 cs r h2)
  then have ok: "cmd_ok c" "list_all cmd_ok cs" by simp_all
  have ws: "cmd_words c \<noteq> []" "tokens [] (strip_comment (join_words (cmd_words c))) = cmd_words c"
    using cmd_words_pin [OF ok(1)] words_line(1) [of "cmd_words c"] by simp_all
  obtain l where "run_command H (cmd_words c) h = (Inr (l, of_bool (is_expect c)), h1)"
    using run_cmd_words [OF ok(1), of H h] Passing.hyps by (auto simp: commands_as_def prod_eq_iff)
  moreover obtain R where
    "script_loop H (map (\<lambda>c. join_words (cmd_words c)) cs) (n + 1) (k + of_bool (is_expect c))
       (append_output out (''line '' @ to_string (n + 1) @ '': '' @ l)) h1 = (R, h2)"
    "script_shows cs (n + 1) (k + of_bool (is_expect c)) r R"
    using Passing.IH [OF ok(2)] by blast
  moreover from this(2) have "script_shows (c # cs) n k (map_option (\<lambda>(n, e). (n + 1, e)) r) R"
    by (cases r) (auto simp: script_shows_def algebra_simps)
  ultimately show ?case using ws by simp
qed

section \<open>Properties\<close>


text \<open>A host with one pin, and a script whose third command fails.\<close>

definition pin_host :: "pin_state script_host" where
  "pin_host = \<lparr>sh_sample = (\<lambda>h. (Inr (empty_scan\<lparr>sr_pin_states := [''LED'' \<mapsto> h]\<rparr>), h)),
     sh_set_pin = (\<lambda>_ v h. (Inr (), if v = 0 then Ps_LOW else Ps_HIGH)), sh_set_high_z = (\<lambda>_ h. (Inr (), h)),
     sh_apply = (\<lambda>h. (Inr (), h)), sh_reset_safe = (\<lambda>h. Ps_LOW), sh_sleep = (\<lambda>_ h. (Inr (), h))\<rparr>"

definition demo_script :: "script_cmd list" where
  "demo_script = [SC_Set ''led'' Drive_High, SC_Expect ''led'' Ps_HIGH, SC_Expect ''led'' Ps_LOW, SC_Set ''led'' Drive_Low]"


text \<open>The counts of a suite are those of its cases, which are the scripts in their order.\<close>

lemma suite_counts:
  "suite_run H base_name file ps h = (s, h') \<Longrightarrow>
     map tc_path (su_cases s) = ps \<and> su_pass s = int (length (filter tc_success (su_cases s))) \<and>
     su_fail s = int (length (filter (\<lambda>c. \<not> tc_success c) (su_cases s)))"
proof -
  have path: "tc_path (fst (run_case H base_name file p h)) = p" for p h
    by (auto simp: run_case_def split: option.splits prod.splits)
  have "suite_loop H base_name file ps s0 h = (s, h') \<Longrightarrow>
     (\<exists>cs. su_cases s = su_cases s0 @ cs \<and> map tc_path cs = ps \<and> su_pass s = su_pass s0 + int (length (filter tc_success cs)) \<and>
       su_fail s = su_fail s0 + int (length (filter (\<lambda>c. \<not> tc_success c) cs)))" for s0
  proof (induction ps arbitrary: s0 h)
    case (Cons p ps)
    obtain c h1 where c: "run_case H base_name file p h = (c, h1)" by fastforce
    then have "tc_path c = p" using path [of p h] by simp
    let ?s1 = "\<lparr>su_cases = su_cases s0 @ [c], su_pass = (if tc_success c then su_pass s0 + 1 else su_pass s0),
        su_fail = (if tc_success c then su_fail s0 else su_fail s0 + 1)\<rparr>"
    have "suite_loop H base_name file ps ?s1 h1 = (s, h')" using Cons.prems c by simp
    from Cons.IH [OF this] obtain cs where "su_cases s = su_cases ?s1 @ cs" "map tc_path cs = ps"
      "su_pass s = su_pass ?s1 + int (length (filter tc_success cs))"
      "su_fail s = su_fail ?s1 + int (length (filter (\<lambda>c. \<not> tc_success c) cs))" by blast
    with \<open>tc_path c = p\<close> show ?case by (intro exI [of _ "c # cs"]) simp
  qed simp
  then show "suite_run H base_name file ps h = (s, h') \<Longrightarrow>
     map tc_path (su_cases s) = ps \<and> su_pass s = int (length (filter tc_success (su_cases s))) \<and>
     su_fail s = int (length (filter (\<lambda>c. \<not> tc_success c) (su_cases s)))"
    unfolding suite_run_def by fastforce
qed

section \<open>What goes wrong\<close>

text \<open>The result of a script that fails has no counts, not even of the expectations that held: the report shows 0/0.\<close>

theorem failed_script_has_no_counts:
  "\<not> sr_success (fst (script_run H txt h)) \<Longrightarrow>
     sr_total_expects (fst (script_run H txt h)) = 0 \<and> sr_failed_expects (fst (script_run H txt h)) = 0"
proof -
  have "\<not> sr_success (fst (script_loop H ls n k out h)) \<Longrightarrow>
     sr_total_expects (fst (script_loop H ls n k out h)) = 0 \<and> sr_failed_expects (fst (script_loop H ls n k out h)) = 0" for ls n k out
    by (induction ls arbitrary: n k out h)
      (auto simp: script_fail_def Let_def split: prod.splits sum.splits)
  then show "\<not> sr_success (fst (script_run H txt h)) \<Longrightarrow>
     sr_total_expects (fst (script_run H txt h)) = 0 \<and> sr_failed_expects (fst (script_run H txt h)) = 0"
    unfolding script_run_def by blast
qed

text \<open>Comments with slashes: only at the very beginning of a line, and only without a hash.\<close>

theorem slashes_are_not_always_comments:
  "strip_comment ''// set LED 1'' = []" "strip_comment '' // set LED 1'' = ''// set LED 1''"
  "strip_comment ''// see # 3'' = ''// see''"
  by code_simp+

end
