(* ===== verification/App_Config.thy ===== *)
theory App_Config
  imports Gui_Config Cxx_Search
begin

text \<open>
  The persistent settings (src/src/gui/app_config.{h,cpp}): the text that \<open>save\<close> writes and what \<open>load\<close> reads from it,
  with the file's own JSON helpers, which search for the quoted key.  A position in the text is modelled by the text
  behind it.
\<close>

section \<open>The settings\<close>

record app_config =
  ac_vendor_id :: u16
  ac_product_id :: u16
  ac_serial :: string
  ac_interface_channel :: int
  ac_clock_freq_hz :: u32
  ac_bsdl_path :: string
  ac_bsdl_device_index :: int
  ac_selected_pins :: "string list"
  ac_buses :: "bus_definition list"
  ac_ila_signals :: "ila_signal_config list"
  ac_ila_or_mode :: bool
  ac_gen_output_subdir :: string
  ac_gen_project_name :: string
  ac_gen_top_module :: string
  ac_gen_fpga_part :: string
  ac_gen_clock_port :: string
  ac_gen_reset_port :: string
  ac_gen_data_port :: string
  ac_gen_valid_port :: string
  ac_gen_sample_clock_hz :: u32
  ac_gen_data_width :: int
  ac_gen_depth :: int
  ac_gen_idcode :: u32
  ac_gen_lanes :: "ila_signal_config list"
  ac_ila_config_json_path :: string
  ac_xdc_path :: string

definition default_config :: app_config where
  "default_config =
     \<lparr>ac_vendor_id = 0x0403, ac_product_id = 0x6010, ac_serial = [], ac_interface_channel = 0, ac_clock_freq_hz = 1000000,
      ac_bsdl_path = [], ac_bsdl_device_index = 0, ac_selected_pins = [], ac_buses = [], ac_ila_signals = [],
      ac_ila_or_mode = False, ac_gen_output_subdir = ''hdl/ila/generated/ila_generated'',
      ac_gen_project_name = ''ila_generated'', ac_gen_top_module = ''ila_generated_top'',
      ac_gen_fpga_part = ''xc7z020clg400-1'', ac_gen_clock_port = ''sample_clk'', ac_gen_reset_port = ''sample_rst_n'',
      ac_gen_data_port = ''data_in'', ac_gen_valid_port = ''data_valid'', ac_gen_sample_clock_hz = 125000000,
      ac_gen_data_width = 32, ac_gen_depth = 1024, ac_gen_idcode = 0xA17A0001, ac_gen_lanes = [],
      ac_ila_config_json_path = [], ac_xdc_path = []\<rparr>"

section \<open>Strings\<close>

definition quote_char :: char where
  "quote_char = CHR 0x22"

definition backslash :: char where
  "backslash = CHR 0x5C"

definition carriage :: char where
  "carriage = CHR 0x0D"

fun json_escape :: "string \<Rightarrow> string" where
  "json_escape [] = []"
| "json_escape (c # s) =
     (if c = quote_char then [backslash, quote_char]
      else if c = backslash then [backslash, backslash]
      else if c = newline then [backslash, CHR ''n'']
      else if c = carriage then [backslash, CHR ''r'']
      else [c]) @ json_escape s"

text \<open>The characters up to the closing quote, and the text behind it.\<close>

definition unescape :: "char \<Rightarrow> char" where
  "unescape e = (if e = CHR ''n'' then newline else if e = CHR ''r'' then carriage else e)"

fun read_quoted :: "string \<Rightarrow> string \<times> string" where
  "read_quoted [] = ([], [])"
| "read_quoted (c # s) =
     (if c = quote_char then ([], s)
      else if c = backslash
           then (case s of
                   [] \<Rightarrow> ([c], [])
                 | e # s1 \<Rightarrow> (case read_quoted s1 of (v, r) \<Rightarrow> (unescape e # v, r)))
      else (case read_quoted s of (v, r) \<Rightarrow> (c # v, r)))"

text \<open>The text behind the first occurrence of a quoted key, and behind the next occurrence of a character.\<close>

definition after_key :: "string \<Rightarrow> string \<Rightarrow> string option" where
  "after_key json key =
     (let pat = quote_char # key @ [quote_char]
      in map_option (\<lambda>p. drop (p + length pat) json) (first_at pat json))"

definition behind :: "char \<Rightarrow> string \<Rightarrow> string option" where
  "behind c s = (case dropWhile (\<lambda>x. x \<noteq> c) s of [] \<Rightarrow> None | _ # r \<Rightarrow> Some r)"

definition json_string :: "string \<Rightarrow> string \<Rightarrow> string" where
  "json_string json key =
     (case do { a \<leftarrow> after_key json key; b \<leftarrow> behind CHR '':'' a; behind quote_char b } of
        None \<Rightarrow> []
      | Some r \<Rightarrow> fst (read_quoted r))"

section \<open>Numbers\<close>

definition hex_value :: "char \<Rightarrow> nat option" where
  "hex_value c =
     (if is_digit c then Some (char_code c - 48)
      else if 97 \<le> char_code c \<and> char_code c \<le> 102 then Some (char_code c - 87)
      else if 65 \<le> char_code c \<and> char_code c \<le> 70 then Some (char_code c - 55)
      else None)"

definition base_digits :: "nat \<Rightarrow> string \<Rightarrow> nat list" where
  "base_digits base s =
     map (\<lambda>c. the (hex_value c)) (takeWhile (\<lambda>c. case hex_value c of None \<Rightarrow> False | Some d \<Rightarrow> d < base) s)"

text \<open>\<open>std::stoll\<close> with base 0: a prefix \<open>0x\<close> for base 16, a leading 0 for base 8, else base 10; a \<open>long long\<close> or an
  exception.\<close>

definition number_digits :: "string \<Rightarrow> nat \<times> nat list" where
  "number_digits s =
     (if (has_prefix ''0x'' s \<or> has_prefix ''0X'' s) \<and> base_digits 16 (drop 2 s) \<noteq> []
      then (16, base_digits 16 (drop 2 s))
      else if has_prefix ''0'' s then (8, base_digits 8 s)
      else (10, base_digits 10 s))"

definition stoll :: "string \<Rightarrow> int option" where
  "stoll s0 =
     (let s1 = dropWhile is_space s0;
          (neg, s2) = (case s1 of c # r \<Rightarrow> if c = CHR ''-'' then (True, r) else if c = CHR ''+'' then (False, r)
                                            else (False, s1) | [] \<Rightarrow> (False, []));
          (base, ds) = number_digits s2;
          n = int (foldl (\<lambda>n d. base * n + d) 0 ds);
          v = (if neg then - n else n)
      in if ds = [] then None
         else if v < - (2 ^ 63) \<or> 2 ^ 63 \<le> v then None else Some v)"

definition number_char :: "char \<Rightarrow> bool" where
  "number_char c \<longleftrightarrow> is_digit c \<or> c = CHR ''x'' \<or> c = CHR ''X'' \<or> 97 \<le> char_code c \<and> char_code c \<le> 102 \<or>
     65 \<le> char_code c \<and> char_code c \<le> 70 \<or> c = CHR ''-''"

definition json_int :: "string \<Rightarrow> string \<Rightarrow> int \<Rightarrow> int" where
  "json_int json key dflt =
     (case do { a \<leftarrow> after_key json key; behind CHR '':'' a } of
        None \<Rightarrow> dflt
      | Some b \<Rightarrow>
          (case dropWhile (\<lambda>c. c = CHR '':'' \<or> c = CHR '' '' \<or> c = CHR 0x09) b of
             [] \<Rightarrow> dflt
           | c # r \<Rightarrow>
               let num = (if c = quote_char then (if quote_char \<in> set r then before_char quote_char r else [])
                          else takeWhile number_char (c # r))
               in if num = [] then dflt else case stoll num of None \<Rightarrow> dflt | Some v \<Rightarrow> v))"

section \<open>Arrays\<close>

definition json_blank :: "char \<Rightarrow> bool" where
  "json_blank c \<longleftrightarrow> c = CHR '' '' \<or> c = CHR 0x09 \<or> c = newline \<or> c = carriage \<or> c = CHR '',''"

lemma read_quoted_simps:
  "read_quoted (quote_char # s) = ([], s)"
  "c \<noteq> quote_char \<Longrightarrow> c \<noteq> backslash \<Longrightarrow> read_quoted (c # s) = (c # fst (read_quoted s), snd (read_quoted s))"
  "read_quoted [backslash] = ([backslash], [])"
  "read_quoted (backslash # e # s) = (unescape e # fst (read_quoted s), snd (read_quoted s))"
  by (simp_all add: quote_char_def backslash_def split: prod.splits)

lemma length_read_quoted: "length (snd (read_quoted s)) \<le> length s"
proof (induction s rule: length_induct)
  case (1 s)
  then show ?case
  proof (cases s)
    case (Cons c r)
    consider "c = quote_char" | "c = backslash" "r = []" | e r1 where "c = backslash" "r = e # r1" | "c \<noteq> quote_char" "c \<noteq> backslash"
      by (cases r) auto
    then show ?thesis
    proof cases
      case (3 e r1)
      then have "length (snd (read_quoted r1)) \<le> length r1" using 1 Cons by simp
      then show ?thesis using 3 Cons by (simp add: read_quoted_simps del: read_quoted.simps)
    next
      case 4
      then have "length (snd (read_quoted r)) \<le> length r" using 1 Cons by simp
      then show ?thesis using 4 Cons by (simp add: read_quoted_simps del: read_quoted.simps)
    qed (use Cons in \<open>simp_all add: read_quoted_simps del: read_quoted.simps\<close>)
  qed simp
qed

declare read_quoted.simps [simp del]

function json_strings :: "string \<Rightarrow> string list" where
  "json_strings s =
     (case dropWhile json_blank s of
        [] \<Rightarrow> []
      | c # r \<Rightarrow>
          if c = CHR '']'' then []
          else if c \<noteq> quote_char then json_strings r
          else (case read_quoted r of (v, r1) \<Rightarrow> v # json_strings r1))"
  by pat_completeness auto

lemma dropWhile_shorter: "dropWhile P s = c # r \<Longrightarrow> length r < length s"
  by (metis length_dropWhile_le length_Cons less_eq_Suc_le)

termination json_strings
proof (relation "measure length")
  fix s x r v r1 xs
  assume "dropWhile json_blank s = x # xs" "(v, r1) = read_quoted xs"
  then show "(r1, s) \<in> measure length"
    using dropWhile_shorter [of json_blank s x xs] length_read_quoted [of xs] by (metis in_measure le_less_trans snd_conv)
qed (auto dest: dropWhile_shorter)

declare json_strings.simps [simp del]

definition json_string_array :: "string \<Rightarrow> string \<Rightarrow> string list" where
  "json_string_array json key =
     (case do { a \<leftarrow> after_key json key; behind CHR ''['' a } of None \<Rightarrow> [] | Some r \<Rightarrow> json_strings r)"

text \<open>The objects of an array: from an opening brace to the next closing one.\<close>

function json_objects :: "string \<Rightarrow> string list" where
  "json_objects s =
     (case dropWhile json_blank s of
        [] \<Rightarrow> []
      | c # r \<Rightarrow>
          if c = CHR '']'' then []
          else if c \<noteq> CHR ''{'' then json_objects r
          else if CHR ''}'' \<in> set r
               then (c # before_char CHR ''}'' r @ ''}'') # json_objects (after_char CHR ''}'' r)
          else [])"
  by pat_completeness auto

lemma length_after_char: "length (after_char c s) \<le> length s"
  unfolding after_char_def by (metis diff_le_self le_trans length_drop length_dropWhile_le)

termination json_objects
proof (relation "measure length")
  fix s x r
  assume "dropWhile json_blank s = x # r"
  then show "(after_char CHR ''}'' r, s) \<in> measure length"
    using dropWhile_shorter [of json_blank s x r] length_after_char [of "CHR ''}''" r] by (metis in_measure le_less_trans)
qed (auto dest: dropWhile_shorter)

declare json_objects.simps [simp del]

definition object_array :: "string \<Rightarrow> string \<Rightarrow> string list" where
  "object_array json key =
     (case do { a \<leftarrow> after_key json key; behind CHR ''['' a } of None \<Rightarrow> [] | Some r \<Rightarrow> json_objects r)"

definition read_format :: "string \<Rightarrow> bus_format" where
  "read_format s = (if s = ''DEC'' then DEC else if s = ''BIN'' then BIN else HEX)"

definition read_bus :: "string \<Rightarrow> bus_definition option" where
  "read_bus obj =
     (let nm = json_string obj ''name''
      in if nm = [] then None
         else Some \<lparr>bd_name = nm, bd_signals = json_string_array obj ''signals'', bd_format = read_format (json_string obj ''format'')\<rparr>)"

definition json_bus_array :: "string \<Rightarrow> string \<Rightarrow> bus_definition list" where
  "json_bus_array json key = List.map_filter read_bus (object_array json key)"

text \<open>The cast of a \<open>long long\<close> to \<open>int\<close>.\<close>

definition to_int32 :: "int \<Rightarrow> int" where
  "to_int32 v = sint (word_of_int v :: u32)"

definition read_ila_signal :: "string \<Rightarrow> ila_signal_config option" where
  "read_ila_signal obj =
     (let nm = json_string obj ''name''
      in if nm = [] then None
         else Some \<lparr>sc_name = nm, sc_hi = to_int32 (json_int obj ''hi'' 0), sc_lo = to_int32 (json_int obj ''lo'' 0),
                    sc_fmt = read_format (json_string obj ''fmt''),
                    sc_trig_cond = to_int32 (json_int obj ''trig_cond'' 0),
                    sc_trig_value = word_of_int (json_int obj ''trig_value'' 0),
                    sc_trig_cond_b = to_int32 (json_int obj ''trig_cond_b'' 0),
                    sc_trig_value_b = word_of_int (json_int obj ''trig_value_b'' 0)\<rparr>)"

definition json_ila_signal_array :: "string \<Rightarrow> string \<Rightarrow> ila_signal_config list" where
  "json_ila_signal_array json key = List.map_filter read_ila_signal (object_array json key)"

section \<open>Saving\<close>

definition format_name :: "bus_format \<Rightarrow> string" where
  "format_name f = (if f = DEC then ''DEC'' else if f = BIN then ''BIN'' else ''HEX'')"

definition quoted :: "string \<Rightarrow> string" where
  "quoted s = quote_char # s @ [quote_char]"

text \<open>The lines of \<open>save\<close>: a number, a string, and an array with one element per line.\<close>

definition int_line :: "string \<Rightarrow> int \<Rightarrow> string" where
  "int_line key v = ''  '' @ quoted key @ '': '' @ to_string v @ '','' @ [newline]"

definition string_line :: "string \<Rightarrow> string \<Rightarrow> string" where
  "string_line key v = ''  '' @ quoted key @ '': '' @ quoted (json_escape v) @ '','' @ [newline]"

fun element_lines :: "string list \<Rightarrow> string" where
  "element_lines [] = []"
| "element_lines (e # es) = ''    '' @ e @ (if es = [] then [] else '','') @ [newline] @ element_lines es"

definition array_line :: "string \<Rightarrow> string list \<Rightarrow> string" where
  "array_line key es =
     ''  '' @ quoted key @ '': ['' @ (if es = [] then [] else [newline] @ element_lines es @ ''  '') @ ''],'' @ [newline]"

fun comma_list :: "string list \<Rightarrow> string" where
  "comma_list [] = []"
| "comma_list (e # es) = e @ (if es = [] then [] else '','') @ comma_list es"

definition bus_element :: "bus_definition \<Rightarrow> string" where
  "bus_element b =
     ''{'' @ quoted ''name'' @ '':'' @ quoted (json_escape (bd_name b)) @ '','' @
     quoted ''signals'' @ '':['' @ comma_list (map (\<lambda>s. quoted (json_escape s)) (bd_signals b)) @ ''],'' @
     quoted ''format'' @ '':'' @ quoted (format_name (bd_format b)) @ ''}''"

definition lane_element :: "ila_signal_config \<Rightarrow> string" where
  "lane_element s =
     ''{'' @ quoted ''name'' @ '':'' @ quoted (json_escape (sc_name s)) @ '','' @
     quoted ''hi'' @ '':'' @ to_string (sc_hi s) @ '','' @
     quoted ''lo'' @ '':'' @ to_string (sc_lo s) @ '','' @
     quoted ''fmt'' @ '':'' @ quoted (format_name (sc_fmt s)) @ '','' @
     quoted ''trig_cond'' @ '':'' @ to_string (sc_trig_cond s) @ '','' @
     quoted ''trig_value'' @ '':'' @ to_string (uint (sc_trig_value s)) @ '','' @
     quoted ''trig_cond_b'' @ '':'' @ to_string (sc_trig_cond_b s) @ '','' @
     quoted ''trig_value_b'' @ '':'' @ to_string (uint (sc_trig_value_b s)) @ ''}''"

text \<open>The lanes of the generator are written without a trigger.\<close>

definition without_trigger :: "ila_signal_config \<Rightarrow> ila_signal_config" where
  "without_trigger s = s\<lparr>sc_trig_cond := 0, sc_trig_value := 0, sc_trig_cond_b := 0, sc_trig_value_b := 0\<rparr>"

definition config_text :: "app_config \<Rightarrow> string" where
  "config_text a =
     ''{'' @ [newline] @
     int_line ''vendor_id'' (uint (ac_vendor_id a)) @
     int_line ''product_id'' (uint (ac_product_id a)) @
     string_line ''serial'' (ac_serial a) @
     int_line ''interface_channel'' (ac_interface_channel a) @
     int_line ''clock_freq_hz'' (uint (ac_clock_freq_hz a)) @
     string_line ''bsdl_path'' (ac_bsdl_path a) @
     int_line ''bsdl_device_index'' (ac_bsdl_device_index a) @
     array_line ''selected_pins'' (map (\<lambda>s. quoted (json_escape s)) (ac_selected_pins a)) @
     array_line ''buses'' (map bus_element (ac_buses a)) @
     array_line ''ila_signals'' (map lane_element (ac_ila_signals a)) @
     string_line ''ila_generator_output_subdir'' (ac_gen_output_subdir a) @
     string_line ''ila_generator_project_name'' (ac_gen_project_name a) @
     string_line ''ila_generator_top_module'' (ac_gen_top_module a) @
     string_line ''ila_generator_fpga_part'' (ac_gen_fpga_part a) @
     string_line ''ila_generator_clock_port_name'' (ac_gen_clock_port a) @
     string_line ''ila_generator_reset_port_name'' (ac_gen_reset_port a) @
     string_line ''ila_generator_data_port_name'' (ac_gen_data_port a) @
     string_line ''ila_generator_valid_port_name'' (ac_gen_valid_port a) @
     int_line ''ila_generator_sample_clock_hz'' (uint (ac_gen_sample_clock_hz a)) @
     int_line ''ila_generator_data_width'' (ac_gen_data_width a) @
     int_line ''ila_generator_depth'' (ac_gen_depth a) @
     int_line ''ila_generator_idcode'' (uint (ac_gen_idcode a)) @
     array_line ''ila_generator_lanes'' (map (lane_element \<circ> without_trigger) (ac_gen_lanes a)) @
     string_line ''ila_config_json_path'' (ac_ila_config_json_path a) @
     string_line ''xdc_path'' (ac_xdc_path a) @
     ''  '' @ quoted ''ila_or_mode'' @ '': '' @ to_string (if ac_ila_or_mode a then 1 else 0) @ [newline] @
     ''}'' @ [newline]"

section \<open>Loading\<close>

definition string_or :: "string \<Rightarrow> string \<Rightarrow> string" where
  "string_or dflt s = (if s = [] then dflt else s)"

definition config_of_text :: "string \<Rightarrow> app_config" where
  "config_of_text json =
     \<lparr>ac_vendor_id = word_of_int (json_int json ''vendor_id'' 0x0403),
      ac_product_id = word_of_int (json_int json ''product_id'' 0x6010),
      ac_serial = json_string json ''serial'',
      ac_interface_channel = to_int32 (json_int json ''interface_channel'' 0),
      ac_clock_freq_hz = word_of_int (json_int json ''clock_freq_hz'' 1000000),
      ac_bsdl_path = json_string json ''bsdl_path'',
      ac_bsdl_device_index = to_int32 (json_int json ''bsdl_device_index'' 0),
      ac_selected_pins = json_string_array json ''selected_pins'',
      ac_buses = json_bus_array json ''buses'',
      ac_ila_signals = json_ila_signal_array json ''ila_signals'',
      ac_ila_or_mode = (json_int json ''ila_or_mode'' 0 \<noteq> 0),
      ac_gen_output_subdir = string_or ''hdl/ila/generated/ila_generated'' (json_string json ''ila_generator_output_subdir''),
      ac_gen_project_name = string_or ''ila_generated'' (json_string json ''ila_generator_project_name''),
      ac_gen_top_module = string_or ''ila_generated_top'' (json_string json ''ila_generator_top_module''),
      ac_gen_fpga_part = string_or ''xc7z020clg400-1'' (json_string json ''ila_generator_fpga_part''),
      ac_gen_clock_port = string_or ''sample_clk'' (json_string json ''ila_generator_clock_port_name''),
      ac_gen_reset_port = string_or ''sample_rst_n'' (json_string json ''ila_generator_reset_port_name''),
      ac_gen_data_port = string_or ''data_in'' (json_string json ''ila_generator_data_port_name''),
      ac_gen_valid_port = string_or ''data_valid'' (json_string json ''ila_generator_valid_port_name''),
      ac_gen_sample_clock_hz = word_of_int (json_int json ''ila_generator_sample_clock_hz'' 125000000),
      ac_gen_data_width = to_int32 (json_int json ''ila_generator_data_width'' 32),
      ac_gen_depth = to_int32 (json_int json ''ila_generator_depth'' 1024),
      ac_gen_idcode = word_of_int (json_int json ''ila_generator_idcode'' 0xA17A0001),
      ac_gen_lanes = json_ila_signal_array json ''ila_generator_lanes'',
      ac_ila_config_json_path = json_string json ''ila_config_json_path'',
      ac_xdc_path = json_string json ''xdc_path''\<rparr>"

text \<open>A file that cannot be opened gives the defaults.\<close>

definition load_config :: "string option \<Rightarrow> app_config" where
  "load_config file = (case file of None \<Rightarrow> default_config | Some json \<Rightarrow> config_of_text json)"

end
