(* ===== verification/App_Config_Props.thy ===== *)
theory App_Config_Props
  imports App_Config
begin

text \<open>
  What \<open>save\<close> writes, \<open>load\<close> reads.  A quoted key is found at its own line because no text between two quotes before it
  equals the key: \<open>parts\<close> splits a text at its quotes, and \<open>clean\<close> texts can be put together.
\<close>

section \<open>Texts split at their quotes\<close>

fun parts :: "string \<Rightarrow> string list" where
  "parts [] = [[]]"
| "parts (c # s) = (if c = quote_char then [] # parts s else (c # hd (parts s)) # tl (parts s))"

lemma parts_not_Nil [simp]: "parts s \<noteq> []"
  by (cases s) auto

lemma parts_quote: "parts (a @ quote_char # b) = parts a @ parts b"
  by (induction a) (auto simp: hd_append tl_append split: list.splits)

lemma parts_plain: "quote_char \<notin> set x \<Longrightarrow> parts x = [x]"
  by (induction x) auto

lemma parts_append: "parts (a @ b) = butlast (parts a) @ (last (parts a) @ hd (parts b)) # tl (parts b)"
proof (induction a)
  case (Cons c a)
  then show ?case by (cases "parts a") (auto split: if_splits)
qed simp

lemma hd_parts: "hd (parts a) = takeWhile (\<lambda>c. c \<noteq> quote_char) a"
  by (induction a) auto

lemma key_at_quote:
  "quote_char \<notin> set k \<Longrightarrow> has_prefix (k @ [quote_char]) (a @ quote_char # s) \<longleftrightarrow> hd (parts a) = k"
proof (induction k arbitrary: a)
  case Nil
  show ?case by (cases a) (auto simp: has_prefix_def)
next
  case (Cons c k)
  then show ?case by (cases a) (auto simp: has_prefix_hd)
qed

lemma key_found:
  assumes "quote_char \<notin> set k" and "k \<notin> set (tl (parts a))"
  shows "first_at (quote_char # k @ [quote_char]) (a @ quote_char # k @ quote_char # b) = Some (length a)"
  using assms(2)
proof (induction a)
  case Nil
  have "has_prefix (quote_char # k @ [quote_char]) (quote_char # k @ quote_char # b)" by (simp add: has_prefix_def)
  then show ?case by simp
next
  case (Cons c a)
  show ?case
  proof (cases "c = quote_char")
    case True
    with Cons.prems have k: "k \<notin> set (parts a)" by simp
    then have "hd (parts a) \<noteq> k" "k \<notin> set (tl (parts a))" by (metis hd_in_set parts_not_Nil, metis list.set_sel(2) parts_not_Nil)
    then show ?thesis using Cons.IH key_at_quote [OF assms(1), of a "k @ quote_char # b"] True by (simp add: has_prefix_hd)
  next
    case False
    then show ?thesis using Cons by (simp add: has_prefix_hd)
  qed
qed

lemma after_key_found:
  assumes "quote_char \<notin> set k" and "k \<notin> set (tl (parts a))"
  shows "after_key (a @ quoted k @ b) k = Some b"
  using key_found [OF assms, of b] by (simp add: after_key_def quoted_def Let_def)

section \<open>Clean texts\<close>

definition key_char :: "char \<Rightarrow> bool" where
  "key_char c \<longleftrightarrow> is_lower c \<or> c = CHR ''_''"

definition blocked :: "string \<Rightarrow> bool" where
  "blocked p \<longleftrightarrow> (\<exists>c \<in> set p. \<not> key_char c)"

definition clean :: "string set \<Rightarrow> string \<Rightarrow> bool" where
  "clean K s \<longleftrightarrow> set (tl (parts s)) \<inter> K = {} \<and> blocked (hd (parts s)) \<and> blocked (last (parts s))"

definition key_set :: "string set \<Rightarrow> bool" where
  "key_set K \<longleftrightarrow> (\<forall>k \<in> K. \<not> blocked k)"

lemma blocked_append [simp]: "blocked (a @ b) \<longleftrightarrow> blocked a \<or> blocked b"
  by (auto simp: blocked_def)

lemma clean_parts: "clean K s \<Longrightarrow> key_set K \<Longrightarrow> set (parts s) \<inter> K = {}"
  by (cases "parts s") (auto simp: clean_def key_set_def)

lemma clean_plain: "quote_char \<notin> set x \<Longrightarrow> blocked x \<Longrightarrow> clean K x"
  by (simp add: clean_def parts_plain)

lemma clean_quoted:
  assumes "key_set K" and "quote_char \<notin> set x" and "blocked x" and "set (parts e) \<inter> K = {}" and "clean K b"
  shows "clean K (x @ quoted e @ b)"
proof -
  have "parts (x @ quoted e @ b) = x # parts e @ parts b" using assms(2) by (simp add: quoted_def parts_quote parts_plain)
  then show ?thesis using assms(3,4) clean_parts [OF assms(5,1)] assms(5) by (auto simp: clean_def)
qed

lemma clean_append:
  assumes "key_set K" and "clean K a" and "clean K b"
  shows "clean K (a @ b)"
proof -
  have j: "last (parts a) @ hd (parts b) \<notin> K" using assms(1,2) by (auto simp: clean_def key_set_def)
  obtain p ps where a: "parts a = p # ps" by (cases "parts a") auto
  show ?thesis
  proof (cases "ps = []")
    case True
    then show ?thesis using assms(2,3) a by (auto simp: clean_def parts_append last_tl)
  next
    case False
    then have "parts (a @ b) = p # butlast ps @ (last ps @ hd (parts b)) # tl (parts b)" using a by (simp add: parts_append)
    moreover have "set (butlast ps) \<inter> K = {}" using assms(2) a by (auto simp: clean_def dest: in_set_butlastD)
    ultimately show ?thesis using assms(2,3) a False j by (auto simp: clean_def last_tl)
  qed
qed

lemma clean_skip:
  assumes "quote_char \<notin> set x" and "clean K b"
  shows "clean K (x @ b)"
proof -
  have "parts (x @ b) = (x @ hd (parts b)) # tl (parts b)" using assms(1) by (simp add: parts_append parts_plain)
  then show ?thesis using assms(2) by (auto simp: clean_def last_tl split: if_splits)
qed

lemma escaped_parts:
  "set (parts (json_escape v)) \<subseteq> {p. blocked p} \<union> {last (parts v)} \<and>
   (tl (parts (json_escape v)) \<noteq> [] \<longrightarrow> blocked (hd (parts (json_escape v)))) \<and>
   (tl (parts (json_escape v)) = [] \<longleftrightarrow> tl (parts v) = []) \<and> 
   (tl (parts v) = [] \<longrightarrow> blocked (hd (parts (json_escape v))) \<or> json_escape v = v)"
proof (induction v)
  case (Cons c v)
  have n: "blocked (backslash # s)" for s by (simp add: blocked_def backslash_def key_char_def is_lower_def char_code_def)
  let ?e = "json_escape v"
  obtain p ps where e: "parts ?e = p # ps" by (cases "parts ?e") auto
  obtain q qs where v: "parts v = q # qs" by (cases "parts v") auto
  have nq: "backslash \<noteq> quote_char" "CHR ''n'' \<noteq> quote_char" "CHR ''r'' \<noteq> quote_char" by (simp_all add: backslash_def quote_char_def)
  consider "c = quote_char" | d where "c \<noteq> quote_char" "json_escape (c # v) = backslash # d # ?e" "d \<noteq> quote_char" | "c \<noteq> quote_char" "json_escape (c # v) = c # ?e"
    using nq by (cases "c = quote_char"; cases "c = backslash"; cases "c = newline"; cases "c = carriage") auto
  then show ?case
  proof cases
    case 1
    then show ?thesis using Cons nq n e v by auto
  next
    case 2
    have "parts (json_escape (c # v)) = (backslash # d # p) # ps" using 2 e nq by simp
    then show ?thesis using Cons n e v 2(1) by (auto simp del: json_escape.simps)
  next
    case 3
    have "parts (json_escape (c # v)) = (c # p) # ps" using 3 e by simp
    moreover have "blocked p \<Longrightarrow> blocked (c # p)" by (auto simp: blocked_def)
    ultimately show ?thesis using Cons e v 3 by (auto simp del: json_escape.simps)
  qed
qed simp

lemma escape_avoids: "key_set K \<Longrightarrow> last (parts v) \<notin> K \<Longrightarrow> set (parts (json_escape v)) \<inter> K = {}"
  using escaped_parts [of v] by (auto simp: key_set_def)

section \<open>Reading back a value\<close>

lemma read_quoted_escape [simp]: "read_quoted (json_escape v @ quote_char # r) = (v, r)"
proof (induction v)
  case (Cons c v)
  have "backslash \<noteq> quote_char" by (simp add: backslash_def quote_char_def)
  moreover have "unescape quote_char = quote_char" "unescape backslash = backslash" "unescape CHR ''n'' = newline" "unescape CHR ''r'' = carriage"
    by (simp_all add: unescape_def quote_char_def backslash_def newline_def carriage_def)
  ultimately show ?case using Cons by (auto simp: read_quoted_simps)
qed (simp add: read_quoted_simps)

lemma behind_skip: "c \<notin> set a \<Longrightarrow> behind c (a @ c # r) = Some r"
  by (induction a) (auto simp: behind_def)

lemma json_string_at:
  assumes "after_key json k = Some (a @ quoted (json_escape v) @ r)" and "a = '':'' \<or> a = '': ''"
  shows "json_string json k = v"
proof -
  have "behind CHR '':'' (a @ quote_char # s) = Some (drop 1 a @ quote_char # s)" for s using assms(2) by (auto simp: behind_def)
  moreover have "behind quote_char (drop 1 a @ quote_char # s) = Some s" for s
    using assms(2) by (intro behind_skip) (auto simp: quote_char_def)
  ultimately show ?thesis using assms(1) by (simp add: json_string_def quoted_def)
qed

lemma format_at:
  assumes "after_key json k = Some ('':'' @ quoted (format_name f) @ r)"
  shows "read_format (json_string json k) = f"
proof -
  have e: "format_name f = json_escape (format_name f)"
    by (cases f) (simp_all add: format_name_def quote_char_def backslash_def newline_def carriage_def)
  from assms have "after_key json k = Some ('':'' @ quoted (json_escape (format_name f)) @ r)" by (subst e [symmetric])
  then have "json_string json k = format_name f" by (rule json_string_at) simp
  then show ?thesis by (cases f) (simp_all add: format_name_def read_format_def)
qed

lemma hex_value_digit: "is_digit c \<Longrightarrow> hex_value c = Some (digit_val c) \<and> digit_val c < 10"
  by (auto simp: hex_value_def digit_val_def is_digit_def)

lemma base_digits_dec:
  assumes "list_all is_digit ds"
  shows "base_digits 10 ds = map digit_val ds"
proof -
  have "takeWhile (\<lambda>c. case hex_value c of None \<Rightarrow> False | Some d \<Rightarrow> d < 10) ds = ds"
    using assms by (auto simp: list_all_iff hex_value_digit)
  then have "base_digits 10 ds = map (\<lambda>c. the (hex_value c)) ds" unfolding base_digits_def by (rule arg_cong)
  then show ?thesis using assms by (simp add: list_all_iff hex_value_digit)
qed

lemma dec_digits_head: "0 < n \<Longrightarrow> hd (dec_digits n) \<noteq> CHR ''0''"
proof (induction n rule: dec_digits.induct)
  case (1 n)
  show ?case
  proof (cases "n < 10")
    case True
    have "char_code (char_of (48 + n)) = 48 + n" using True by simp
    moreover have "char_code CHR ''0'' = 48" by (simp add: char_code_def)
    ultimately have "char_of (48 + n) \<noteq> CHR ''0''" using 1(2) by (metis add_cancel_left_right less_irrefl)
    then show ?thesis using True by (subst dec_digits.simps) simp
  next
    case False
    then have "0 < n div 10" by auto
    with 1(1) False have "hd (dec_digits (n div 10)) \<noteq> CHR ''0''" by blast
    with False show ?thesis using dec_digits_correct [of "n div 10"] by (subst dec_digits.simps) (simp add: hd_append)
  qed
qed

lemma dec_value_map: "foldl (\<lambda>n d. b * n + d) a (map digit_val ds) = foldl (\<lambda>n c. b * n + digit_val c) a ds"
  by (induction ds arbitrary: a) auto

lemma stoll_to_string:
  assumes "- (2 ^ 63) \<le> v" and "v < 2 ^ 63"
  shows "stoll (to_string v) = Some v"
proof -
  let ?n = "nat \<bar>v\<bar>" and ?ds = "dec_digits (nat \<bar>v\<bar>)"
  note d = dec_digits_correct [of ?n]
  obtain c r where c: "?ds = c # r" using d by (cases ?ds) auto
  have dc: "is_digit c" using d c by simp
  have read: "number_digits ?ds = (if ?n = 0 then (8, [0]) else (10, map digit_val ?ds))"
  proof (cases "?n = 0")
    case True
    have z: "dec_digits 0 = ''0''" by code_simp
    show ?thesis unfolding True z
      by (simp add: number_digits_def has_prefix_def base_digits_def hex_value_def is_digit_def char_code_def)
  next
    case False
    then have "c \<noteq> CHR ''0''" using dec_digits_head [of ?n] c by simp
    then have "\<not> has_prefix ''0x'' ?ds" "\<not> has_prefix ''0X'' ?ds" "\<not> has_prefix ''0'' ?ds" by (simp_all add: c has_prefix_def)
    then show ?thesis using False base_digits_dec [of ?ds] d by (simp add: number_digits_def)
  qed
  obtain b ds where p: "number_digits ?ds = (b, ds)" by (cases "number_digits ?ds") auto
  have val: "foldl (\<lambda>n x. b * n + x) 0 ds = ?n \<and> ds \<noteq> []"
    using read d unfolding p by (cases "?n = 0") (auto simp: dec_value_map dec_value_def)
  have r: "int ?n = \<bar>v\<bar>" by simp
  show ?thesis
  proof (cases "v < 0")
    case True
    then have s: "to_string v = CHR ''-'' # ?ds" by (simp add: to_string_def)
    have "\<not> is_space CHR ''-''" by (simp add: is_space_def char_code_def)
    then show ?thesis unfolding stoll_def s using val True assms p by (simp add: Let_def)
  next
    case False
    then have s: "to_string v = c # r" using c by (simp add: to_string_def)
    have "number_digits (c # r) = (b, ds)" using p c by simp
    then show ?thesis using val False assms digit_not_sign [OF dc] digit_not_space [OF dc] by (simp add: stoll_def s Let_def)
  qed
qed

lemma number_chars: "list_all number_char (to_string v)" "to_string v \<noteq> []" "quote_char \<notin> set (to_string v)" "CHR ''}'' \<notin> set (to_string v)"
proof -
  have "list_all is_digit (dec_digits n)" "dec_digits n \<noteq> []" for n using dec_digits_correct by blast+
  then have a: "\<forall>c \<in> set (to_string v). is_digit c \<or> c = CHR ''-''" and b: "to_string v \<noteq> []"
    by (auto simp: to_string_def list_all_iff)
  show "list_all number_char (to_string v)" using a by (auto simp: list_all_iff number_char_def)
  show "to_string v \<noteq> []" by (rule b)
  show "quote_char \<notin> set (to_string v)" "CHR ''}'' \<notin> set (to_string v)" using a by (auto simp: is_digit_def char_code_def quote_char_def)
qed

lemma json_int_at:
  assumes "after_key json k = Some (a @ to_string v @ c # r)" and "a = '':'' \<or> a = '': ''"
    and "\<not> number_char c" and "- (2 ^ 63) \<le> v" and "v < 2 ^ 63"
  shows "json_int json k d = v"
proof -
  obtain x xs where x: "to_string v = x # xs" using number_chars(2) by (cases "to_string v") blast+
  have nx: "number_char x" using number_chars(1) [of v] x by simp
  then have nb: "x \<noteq> CHR '':''" "x \<noteq> CHR '' ''" "x \<noteq> CHR 0x09" "x \<noteq> quote_char"
    by (auto simp: number_char_def is_digit_def char_code_def quote_char_def)
  have "behind CHR '':'' (a @ s) = Some (drop 1 a @ s)" for s using assms(2) by (auto simp: behind_def)
  moreover have "dropWhile (\<lambda>c. c = CHR '':'' \<or> c = CHR '' '' \<or> c = CHR 0x09) (drop 1 a @ x # s) = x # s" for s
    using assms(2) nb by auto
  moreover have "takeWhile number_char (x # xs @ c # r) = to_string v"
    using number_chars(1) [of v] assms(3) x by (auto simp: takeWhile_append list_all_iff)
  ultimately show ?thesis using assms(1) x nb stoll_to_string [OF assms(4,5)] by (simp add: json_int_def Let_def)
qed


section \<open>Arrays\<close>

lemma blank_facts:
  "json_blank CHR '' ''" "json_blank newline" "json_blank CHR '',''" "\<not> json_blank quote_char" "\<not> json_blank CHR '']''" "\<not> json_blank CHR ''{''"
  by (simp_all add: json_blank_def quote_char_def newline_def carriage_def)

lemma json_strings_steps:
  "json_blank c \<Longrightarrow> json_strings (c # s) = json_strings s"
  "json_strings (CHR '']'' # s) = []"
  "json_strings (quote_char # json_escape v @ quote_char # s) = v # json_strings s"
    apply (subst (1 2) json_strings.simps, simp)
   apply (subst json_strings.simps, simp add: blank_facts)
  apply (subst json_strings.simps, simp add: blank_facts)
  apply (simp add: quote_char_def)
  done

lemma json_objects_steps:
  "json_blank c \<Longrightarrow> json_objects (c # s) = json_objects s"
  "json_objects (CHR '']'' # s) = []"
  "CHR ''}'' \<notin> set m \<Longrightarrow> json_objects (CHR ''{'' # m @ CHR ''}'' # s) = (CHR ''{'' # m @ ''}'') # json_objects s"
proof -
  show "json_blank c \<Longrightarrow> json_objects (c # s) = json_objects s" by (subst (1 2) json_objects.simps) simp
  show "json_objects (CHR '']'' # s) = []" by (subst json_objects.simps) (simp add: blank_facts)
  assume m: "CHR ''}'' \<notin> set m"
  then have "takeWhile (\<lambda>x. x \<noteq> CHR ''}'') (m @ CHR ''}'' # s) = m" "dropWhile (\<lambda>x. x \<noteq> CHR ''}'') (m @ CHR ''}'' # s) = CHR ''}'' # s"
    by (induction m) auto
  then show "json_objects (CHR ''{'' # m @ CHR ''}'' # s) = (CHR ''{'' # m @ ''}'') # json_objects s"
    by (subst json_objects.simps) (simp add: blank_facts before_char_def after_char_def)
qed

definition string_elements :: "string list \<Rightarrow> string list" where
  "string_elements vs = map (\<lambda>v. quoted (json_escape v)) vs"

lemma json_strings_lines: "json_strings (element_lines (string_elements vs) @ '']'' @ s) = vs"
  by (induction vs) (simp_all add: string_elements_def quoted_def json_strings_steps blank_facts)

lemma json_strings_line_blanks: "json_strings (newline # element_lines (string_elements vs) @ ''  ]'' @ s) = vs"
proof -
  have "json_strings (element_lines (string_elements vs) @ CHR '' '' # s) = json_strings (element_lines (string_elements vs) @ s)" for s
    by (induction vs) (simp_all add: string_elements_def quoted_def json_strings_steps blank_facts)
  then show ?thesis using json_strings_lines [of vs s] by (simp add: json_strings_steps blank_facts)
qed

lemma json_strings_commas: "json_strings (comma_list (string_elements vs) @ '']'' @ s) = vs"
  by (induction vs) (simp_all add: string_elements_def quoted_def json_strings_steps blank_facts)

lemma string_array_at:
  assumes "after_key json k = Some ('': ['' @ (if vs = [] then [] else [newline] @ element_lines (string_elements vs) @ ''  '') @ '']'' @ r)"
  shows "json_string_array json k = vs"
  using assms json_strings_line_blanks [of vs r]
  by (simp add: json_string_array_def behind_def json_strings_steps split: if_splits)

lemma comma_array_at:
  assumes "after_key json k = Some ('':['' @ comma_list (string_elements vs) @ '']'' @ r)"
  shows "json_string_array json k = vs"
  using assms json_strings_commas [of vs r] by (simp add: json_string_array_def behind_def)

lemma json_objects_lines:
  assumes "\<forall>e \<in> set es. \<exists>m. e = ''{'' @ m @ ''}'' \<and> CHR ''}'' \<notin> set m"
  shows "json_objects (newline # element_lines es @ ''  ]'' @ s) = es"
proof -
  have "json_objects (element_lines es @ ''  ]'' @ s) = es"
    using assms
  proof (induction es)
    case (Cons e es)
    then obtain m where m: "e = ''{'' @ m @ ''}''" "CHR ''}'' \<notin> set m" by auto
    have "json_objects (element_lines es @ ''  ]'' @ s) = es" using Cons by auto
    then show ?case using m by (simp add: json_objects_steps blank_facts)
  qed (simp add: json_objects_steps blank_facts)
  then show ?thesis by (simp add: json_objects_steps blank_facts)
qed

lemma object_array_at:
  assumes "after_key json k = Some ('': ['' @ (if es = [] then [] else [newline] @ element_lines es @ ''  '') @ '']'' @ r)"
    and "\<forall>e \<in> set es. \<exists>m. e = ''{'' @ m @ ''}'' \<and> CHR ''}'' \<notin> set m"
  shows "object_array json k = es"
  using assms(1) json_objects_lines [OF assms(2), of r]
  by (simp add: object_array_def behind_def json_objects_steps split: if_splits)

lemma map_filter_Some: "(\<And>x. x \<in> set xs \<Longrightarrow> f (g x) = Some x) \<Longrightarrow> List.map_filter f (map g xs) = xs"
  by (induction xs) (auto simp: map_filter_simps)

section \<open>Elements\<close>

definition element_keys :: "string set" where
  "element_keys =
     {''name'', ''signals'', ''format'', ''hi'', ''lo'', ''fmt'', ''trig_cond'', ''trig_value'', ''trig_cond_b'', ''trig_value_b''}"

definition config_keys :: "string set" where
  "config_keys =
     {''vendor_id'', ''product_id'', ''serial'', ''interface_channel'', ''clock_freq_hz'', ''bsdl_path'', ''bsdl_device_index'',
      ''selected_pins'', ''buses'', ''ila_signals'', ''ila_generator_output_subdir'', ''ila_generator_project_name'',
      ''ila_generator_top_module'', ''ila_generator_fpga_part'', ''ila_generator_clock_port_name'',
      ''ila_generator_reset_port_name'', ''ila_generator_data_port_name'', ''ila_generator_valid_port_name'',
      ''ila_generator_sample_clock_hz'', ''ila_generator_data_width'', ''ila_generator_depth'', ''ila_generator_idcode'',
      ''ila_generator_lanes'', ''ila_config_json_path'', ''xdc_path'', ''ila_or_mode''}"

lemma config_key_set: "key_set config_keys"
  by (simp add: key_set_def config_keys_def blocked_def key_char_def is_lower_def char_code_def)

lemma element_key_set: "key_set element_keys"
  by (simp add: key_set_def element_keys_def blocked_def key_char_def is_lower_def char_code_def)

lemma not_in_plain [simp]: "quote_char \<notin> set (format_name f)"
  by (cases f) (simp_all add: format_name_def quote_char_def)

lemma brace_escape: "CHR ''}'' \<notin> set v \<Longrightarrow> CHR ''}'' \<notin> set (json_escape v)"
  by (induction v) (auto simp: quote_char_def backslash_def)

text \<open>The name of an element: not empty, without a closing brace, and no key.\<close>

definition element_string :: "string \<Rightarrow> bool" where
  "element_string v \<longleftrightarrow> CHR ''}'' \<notin> set v \<and> last (parts v) \<notin> element_keys \<and> last (parts v) \<notin> config_keys"

definition int_ok :: "int \<Rightarrow> bool" where
  "int_ok v \<longleftrightarrow> -2147483648 \<le> v \<and> v < 2147483648"

lemma to_int32_id: "int_ok v \<Longrightarrow> to_int32 v = v"
  by (simp add: to_int32_def int_ok_def signed_of_int signed_take_bit_int_eq_self)

definition lane_ok_config :: "ila_signal_config \<Rightarrow> bool" where
  "lane_ok_config s \<longleftrightarrow>
     sc_name s \<noteq> [] \<and> element_string (sc_name s) \<and> int_ok (sc_hi s) \<and> int_ok (sc_lo s) \<and> int_ok (sc_trig_cond s) \<and>
     int_ok (sc_trig_cond_b s)"

definition bus_ok :: "bus_definition \<Rightarrow> bool" where
  "bus_ok b \<longleftrightarrow> bd_name b \<noteq> [] \<and> element_string (bd_name b) \<and> list_all element_string (bd_signals b)"

text \<open>The parts with the characters of the current one so far, to evaluate them from left to right.\<close>

definition parts_acc :: "string \<Rightarrow> string \<Rightarrow> string list" where
  "parts_acc acc s = (acc @ hd (parts s)) # tl (parts s)"

lemma parts_acc_simps:
  "parts_acc acc [] = [acc]"
  "parts_acc acc (c # s) = (if c = quote_char then acc # parts_acc [] s else parts_acc (acc @ [c]) s)"
  "parts_acc acc (to_string v @ s) = parts_acc (acc @ to_string v) s"
  "parts_acc [] (json_escape e @ quote_char # s) = parts (json_escape e) @ parts_acc [] s"
  "parts_acc acc (format_name f @ s) = parts_acc (acc @ format_name f) s"
proof -
  show "parts_acc [] (json_escape e @ quote_char # s) = parts (json_escape e) @ parts_acc [] s" by (simp add: parts_acc_def parts_quote)
qed (simp_all add: parts_acc_def parts_append parts_plain number_chars)

lemma last_parts: "last (parts s) = last (parts_acc [] s)"
  by (simp add: parts_acc_def)

text \<open>A key of an object is found when no part of the text before it is that key.\<close>

lemma found_after:
  assumes "s = a @ quoted k @ b" and "quote_char \<notin> set k" and "k \<notin> set (tl (parts_acc [] a))"
  shows "after_key s k = Some b"
  using after_key_found [OF assms(2), of a b] assms(1,3) by (simp add: parts_acc_def)

lemmas parts_eval = quoted_def quote_char_def parts_acc_simps [unfolded quote_char_def]

lemma number_chars_iff: "c \<in> set (to_string v) \<Longrightarrow> number_char c"
  using number_chars(1) [of v] by (simp add: list_all_iff)

lemma lane_roundtrip:
  assumes "lane_ok_config s"
  shows "read_ila_signal (lane_element s) = Some s"
proof -
  let ?o = "lane_element s" and ?e = "json_escape (sc_name s)"
  have free: "\<And>k. k \<in> element_keys \<Longrightarrow> k \<notin> set (parts ?e)"
    using assms escape_avoids [OF element_key_set] by (auto simp: lane_ok_config_def element_string_def)
  let ?vb = "'':'' @ to_string (uint (sc_trig_value_b s)) @ CHR ''}'' # []"
  let ?cb = "'':'' @ to_string (sc_trig_cond_b s) @ CHR '','' # quoted ''trig_value_b'' @ ?vb"
  let ?va = "'':'' @ to_string (uint (sc_trig_value s)) @ CHR '','' # quoted ''trig_cond_b'' @ ?cb"
  let ?ca = "'':'' @ to_string (sc_trig_cond s) @ CHR '','' # quoted ''trig_value'' @ ?va"
  let ?fm = "'':'' @ quoted (format_name (sc_fmt s)) @ CHR '','' # quoted ''trig_cond'' @ ?ca"
  let ?lo = "'':'' @ to_string (sc_lo s) @ CHR '','' # quoted ''fmt'' @ ?fm"
  let ?hi = "'':'' @ to_string (sc_hi s) @ CHR '','' # quoted ''lo'' @ ?lo"
  let ?nm = "'':'' @ quoted ?e @ CHR '','' # quoted ''hi'' @ ?hi"
  let ?a1 = "''{'' @ quoted ''name'' @ '':'' @ quoted ?e @ '',''"
  let ?a2 = "?a1 @ quoted ''hi'' @ '':'' @ to_string (sc_hi s) @ '',''"
  let ?a3 = "?a2 @ quoted ''lo'' @ '':'' @ to_string (sc_lo s) @ '',''"
  let ?a4 = "?a3 @ quoted ''fmt'' @ '':'' @ quoted (format_name (sc_fmt s)) @ '',''"
  let ?a5 = "?a4 @ quoted ''trig_cond'' @ '':'' @ to_string (sc_trig_cond s) @ '',''"
  let ?a6 = "?a5 @ quoted ''trig_value'' @ '':'' @ to_string (uint (sc_trig_value s)) @ '',''"
  let ?a7 = "?a6 @ quoted ''trig_cond_b'' @ '':'' @ to_string (sc_trig_cond_b s) @ '',''"
  have fmt: "set (parts (format_name f)) \<inter> element_keys = {}" for f
    by (cases f) (simp_all add: format_name_def quote_char_def element_keys_def)
  have ek: "''name'' \<in> element_keys" "''hi'' \<in> element_keys" "''lo'' \<in> element_keys" "''fmt'' \<in> element_keys" "''trig_cond'' \<in> element_keys"
    "''trig_value'' \<in> element_keys" "''trig_cond_b'' \<in> element_keys" "''trig_value_b'' \<in> element_keys"
    by (simp_all add: element_keys_def)
  note ev = free [OF ek(1)] free [OF ek(2)] free [OF ek(3)] free [OF ek(4)] free [OF ek(5)] free [OF ek(6)] free [OF ek(7)] free [OF ek(8)]
  have ff: "k \<noteq> format_name (sc_fmt s)" if "k \<in> element_keys" for k
    using that fmt [of "sc_fmt s"] by (auto simp: parts_plain)
  note fv = ff [OF ek(5)] ff [OF ek(6)] ff [OF ek(7)] ff [OF ek(8)]
  have 1: "after_key ?o ''name'' = Some ?nm" 
    by (rule found_after [of _ "''{''"]) (simp_all add: lane_element_def parts_eval)
  have 2: "after_key ?o ''hi'' = Some ?hi"
    by (rule found_after [of _ ?a1]) (simp_all add: lane_element_def parts_eval ev)
  have 3: "after_key ?o ''lo'' = Some ?lo"
    by (rule found_after [of _ ?a2]) (simp_all add: lane_element_def parts_eval ev)
  have 4: "after_key ?o ''fmt'' = Some ?fm"
    by (rule found_after [of _ ?a3]) (simp_all add: lane_element_def parts_eval ev)
  have 5: "after_key ?o ''trig_cond'' = Some ?ca"
    by (rule found_after [of _ ?a4]) (simp_all add: lane_element_def parts_eval ev fv)
  have 6: "after_key ?o ''trig_value'' = Some ?va"
    by (rule found_after [of _ ?a5]) (simp_all add: lane_element_def parts_eval ev fv)
  have 7: "after_key ?o ''trig_cond_b'' = Some ?cb"
    by (rule found_after [of _ ?a6]) (simp_all add: lane_element_def parts_eval ev fv)
  have 8: "after_key ?o ''trig_value_b'' = Some ?vb"
    by (rule found_after [of _ ?a7]) (simp_all add: lane_element_def parts_eval ev fv)
  have nc: "\<not> number_char CHR '',''" "\<not> number_char CHR ''}''" by (simp_all add: number_char_def is_digit_def char_code_def)
  have b: "- (2 ^ 63) \<le> v \<and> v < 2 ^ 63" if "int_ok v" for v using that by (simp add: int_ok_def)
  have ub: "- (2 ^ 63) \<le> uint w \<and> uint w < 2 ^ 63" for w :: u32
    using uint_bounded [of w] order_trans [OF _ uint_ge_0 [of w], of "- (2 ^ 63)"] by simp
  have ok: "int_ok (sc_hi s)" "int_ok (sc_lo s)" "int_ok (sc_trig_cond s)" "int_ok (sc_trig_cond_b s)" "sc_name s \<noteq> []"
    using assms by (simp_all add: lane_ok_config_def)
  note ji = json_int_at [where a = "'':''", OF _ disjI1 [OF refl]]
  show ?thesis
    unfolding read_ila_signal_def
    using json_string_at [OF 1, of] format_at [OF 4] ok ji [OF 2 nc(1)] ji [OF 3 nc(1)] ji [OF 5 nc(1)] ji [OF 6 nc(1)] ji [OF 7 nc(1)] ji [OF 8 nc(2)]
      b [OF ok(1)] b [OF ok(2)] b [OF ok(3)] b [OF ok(4)] ub [of "sc_trig_value s"] ub [of "sc_trig_value_b s"]
    by (simp add: to_int32_id)
qed


section \<open>Clean elements\<close>

lemma clean_commas:
  assumes "key_set K" and "\<forall>v \<in> set vs. last (parts v) \<notin> K" and "clean K y"
  shows "quote_char \<notin> set x \<Longrightarrow> blocked x \<Longrightarrow> clean K (x @ comma_list (string_elements vs) @ y)"
  using assms(2)
proof (induction vs arbitrary: x)
  case Nil
  then show ?case using assms(3) by (intro clean_skip) (simp_all add: string_elements_def)
next
  case (Cons v vs)
  have c: "quote_char \<notin> set '',''" "blocked '',''" by (simp_all add: quote_char_def blocked_def key_char_def is_lower_def char_code_def)
  have "clean K ((if vs = [] then [] else '','') @ comma_list (string_elements vs) @ y)"
  proof (cases "vs = []")
    case True
    then show ?thesis using assms(3) by (simp add: string_elements_def)
  next
    case False
    then show ?thesis using Cons.IH [OF c] Cons.prems by simp
  qed
  moreover have "set (parts (json_escape v)) \<inter> K = {}" using Cons.prems escape_avoids [OF assms(1)] by simp
  ultimately have "clean K (x @ quoted (json_escape v) @ (if vs = [] then [] else '','') @ comma_list (string_elements vs) @ y)"
    using Cons.prems by (intro clean_quoted [OF assms(1)])
  then show ?case by (simp add: string_elements_def)
qed

lemma mark_facts:
  "blocked ''{''" "blocked '':''" "blocked '',''" "blocked '':[''" "blocked ''],''" "blocked ''}''" "blocked ''  ''" "blocked ''    ''"
  "blocked [newline]" "blocked '': ''" "blocked '': [''"
  "quote_char \<notin> set ''{''" "quote_char \<notin> set '':''" "quote_char \<notin> set '',''" "quote_char \<notin> set '':[''" "quote_char \<notin> set ''],''" "quote_char \<notin> set ''}''"
  "quote_char \<notin> set ''  ''" "quote_char \<notin> set ''    ''" "quote_char \<notin> set [newline]" "quote_char \<notin> set '': ''" "quote_char \<notin> set '': [''" "quote_char \<notin> set []"
  by (simp_all add: blocked_def key_char_def is_lower_def char_code_def quote_char_def newline_def)

lemma clean_format: "key_set K \<Longrightarrow> ''DEC'' \<notin> K \<and> ''BIN'' \<notin> K \<and> ''HEX'' \<notin> K"
  by (auto simp: key_set_def blocked_def key_char_def is_lower_def char_code_def)

lemma clean_format_parts: "key_set K \<Longrightarrow> set (parts (format_name f)) \<inter> K = {}"
  using clean_format [of K] by (cases f) (simp_all add: format_name_def quote_char_def)

lemma parts_element_key: "k \<in> element_keys \<Longrightarrow> parts k = [k]"
  by (rule parts_plain) (auto simp: element_keys_def quote_char_def)

lemma bus_roundtrip:
  assumes "bus_ok b"
  shows "read_bus (bus_element b) = Some b"
proof -
  let ?o = "bus_element b" and ?e = "json_escape (bd_name b)"
  have nm: "bd_name b \<noteq> []" "last (parts (bd_name b)) \<notin> element_keys" using assms by (simp_all add: bus_ok_def element_string_def)
  have sg: "\<forall>v \<in> set (bd_signals b). last (parts v) \<notin> {''format''}"
    using assms by (auto simp: bus_ok_def element_string_def list_all_iff element_keys_def)
  have free: "k \<notin> set (parts ?e)" if "k \<in> element_keys" for k
    using that escape_avoids [OF element_key_set nm(2)] by blast
  have ek: "''name'' \<in> element_keys" "''signals'' \<in> element_keys" "''format'' \<in> element_keys" by (simp_all add: element_keys_def)
  let ?fm = "'':'' @ quoted (format_name (bd_format b)) @ ''}''"
  let ?sg = "'':['' @ comma_list (string_elements (bd_signals b)) @ '']'' @ '','' @ quoted ''format'' @ ?fm"
  let ?nm = "'':'' @ quoted ?e @ CHR '','' # quoted ''signals'' @ ?sg"
  let ?a1 = "''{'' @ quoted ''name'' @ '':'' @ quoted ?e @ '',''"
  let ?a2 = "''{'' @ quoted ''name'' @ '':'' @ quoted ?e @ '','' @ quoted ''signals'' @ '':['' @ comma_list (string_elements (bd_signals b)) @ ''],''"
  have 1: "after_key ?o ''name'' = Some ?nm"
    by (rule found_after [of _ "''{''"]) (simp_all add: bus_element_def string_elements_def parts_eval)
  have 2: "after_key ?o ''signals'' = Some ?sg"
    by (rule found_after [of _ ?a1]) (simp_all add: bus_element_def string_elements_def parts_eval free [OF ek(2)])
  have ks: "key_set {''format''}" using element_key_set ek by (simp add: key_set_def)
  have "clean {''format''} ?a2"
    using free [OF ek(3)] by (intro clean_quoted [OF ks] clean_commas [OF ks sg] clean_plain mark_facts) (simp_all add: parts_element_key ek)
  then have "after_key (?a2 @ quoted ''format'' @ ?fm) ''format'' = Some ?fm"
    by (intro after_key_found) (auto simp: clean_def quote_char_def)
  then have 3: "after_key ?o ''format'' = Some ?fm" by (simp add: bus_element_def string_elements_def)
  show ?thesis
    unfolding read_bus_def using json_string_at [OF 1] comma_array_at [OF 2] format_at [OF 3] nm(1) by simp
qed


lemma config_element_disjoint: "k \<in> element_keys \<Longrightarrow> set (parts k) \<inter> config_keys = {}"
  by (simp add: parts_element_key) (auto simp: element_keys_def config_keys_def)

lemma element_key_names:
  "''name'' \<in> element_keys" "''signals'' \<in> element_keys" "''format'' \<in> element_keys" "''hi'' \<in> element_keys" "''lo'' \<in> element_keys"
  "''fmt'' \<in> element_keys" "''trig_cond'' \<in> element_keys" "''trig_value'' \<in> element_keys" "''trig_cond_b'' \<in> element_keys"
  "''trig_value_b'' \<in> element_keys"
  by (simp_all add: element_keys_def)

lemma clean_escaped: "last (parts v) \<notin> config_keys \<Longrightarrow> set (parts (json_escape v)) \<inter> config_keys = {}"
  by (rule escape_avoids [OF config_key_set])

lemma clean_bus:
  assumes "bus_ok b" and "clean config_keys r"
  shows "clean config_keys (bus_element b @ r)"
proof -
  have n: "set (parts (json_escape (bd_name b))) \<inter> config_keys = {}"
    using assms(1) by (intro clean_escaped) (simp add: bus_ok_def element_string_def)
  have s: "\<forall>v \<in> set (bd_signals b). last (parts v) \<notin> config_keys"
    using assms(1) by (auto simp: bus_ok_def element_string_def list_all_iff)
  have "clean config_keys (''{'' @ quoted ''name'' @ '':'' @ quoted (json_escape (bd_name b)) @ '','' @ quoted ''signals'' @
      '':['' @ comma_list (string_elements (bd_signals b)) @ ''],'' @ quoted ''format'' @ '':'' @ quoted (format_name (bd_format b)) @ ''}'' @ r)"
    by (intro clean_quoted clean_commas [OF config_key_set s] config_key_set mark_facts n config_element_disjoint element_key_names
        clean_format_parts clean_skip assms(2))
  then show ?thesis by (simp add: bus_element_def string_elements_def)
qed

lemma clean_lane:
  assumes "lane_ok_config s" and "clean config_keys r"
  shows "clean config_keys (lane_element s @ r)"
proof -
  have n: "set (parts (json_escape (sc_name s))) \<inter> config_keys = {}"
    using assms(1) by (intro clean_escaped) (simp add: lane_ok_config_def element_string_def)
  have "clean config_keys (''{'' @ quoted ''name'' @ '':'' @ quoted (json_escape (sc_name s)) @ '','' @
     quoted ''hi'' @ '':'' @ to_string (sc_hi s) @ '','' @
     quoted ''lo'' @ '':'' @ to_string (sc_lo s) @ '','' @
     quoted ''fmt'' @ '':'' @ quoted (format_name (sc_fmt s)) @ '','' @
     quoted ''trig_cond'' @ '':'' @ to_string (sc_trig_cond s) @ '','' @
     quoted ''trig_value'' @ '':'' @ to_string (uint (sc_trig_value s)) @ '','' @
     quoted ''trig_cond_b'' @ '':'' @ to_string (sc_trig_cond_b s) @ '','' @
     quoted ''trig_value_b'' @ '':'' @ to_string (uint (sc_trig_value_b s)) @ ''}'' @ r)"
    by (intro clean_quoted config_key_set mark_facts n config_element_disjoint element_key_names clean_format_parts)
      (intro clean_skip clean_quoted config_key_set mark_facts config_element_disjoint element_key_names clean_format_parts number_chars assms(2))+
  then show ?thesis by (simp add: lane_element_def)
qed


section \<open>The file as lines\<close>

definition int_rest :: "int \<Rightarrow> string" where
  "int_rest v = '': '' @ to_string v @ '','' @ [newline]"

definition string_rest :: "string \<Rightarrow> string" where
  "string_rest v = '': '' @ quoted (json_escape v) @ '','' @ [newline]"

definition array_rest :: "string list \<Rightarrow> string" where
  "array_rest es = '': ['' @ (if es = [] then [] else [newline] @ element_lines es @ ''  '') @ ''],'' @ [newline]"

definition last_rest :: "int \<Rightarrow> string" where
  "last_rest v = '': '' @ to_string v @ [newline]"

definition config_lines :: "app_config \<Rightarrow> (string \<times> string) list" where
  "config_lines a =
     [(''vendor_id'', int_rest (uint (ac_vendor_id a))),
      (''product_id'', int_rest (uint (ac_product_id a))),
      (''serial'', string_rest (ac_serial a)),
      (''interface_channel'', int_rest (ac_interface_channel a)),
      (''clock_freq_hz'', int_rest (uint (ac_clock_freq_hz a))),
      (''bsdl_path'', string_rest (ac_bsdl_path a)),
      (''bsdl_device_index'', int_rest (ac_bsdl_device_index a)),
      (''selected_pins'', array_rest (string_elements (ac_selected_pins a))),
      (''buses'', array_rest (map bus_element (ac_buses a))),
      (''ila_signals'', array_rest (map lane_element (ac_ila_signals a))),
      (''ila_generator_output_subdir'', string_rest (ac_gen_output_subdir a)),
      (''ila_generator_project_name'', string_rest (ac_gen_project_name a)),
      (''ila_generator_top_module'', string_rest (ac_gen_top_module a)),
      (''ila_generator_fpga_part'', string_rest (ac_gen_fpga_part a)),
      (''ila_generator_clock_port_name'', string_rest (ac_gen_clock_port a)),
      (''ila_generator_reset_port_name'', string_rest (ac_gen_reset_port a)),
      (''ila_generator_data_port_name'', string_rest (ac_gen_data_port a)),
      (''ila_generator_valid_port_name'', string_rest (ac_gen_valid_port a)),
      (''ila_generator_sample_clock_hz'', int_rest (uint (ac_gen_sample_clock_hz a))),
      (''ila_generator_data_width'', int_rest (ac_gen_data_width a)),
      (''ila_generator_depth'', int_rest (ac_gen_depth a)),
      (''ila_generator_idcode'', int_rest (uint (ac_gen_idcode a))),
      (''ila_generator_lanes'', array_rest (map (lane_element \<circ> without_trigger) (ac_gen_lanes a))),
      (''ila_config_json_path'', string_rest (ac_ila_config_json_path a)),
      (''xdc_path'', string_rest (ac_xdc_path a)),
      (''ila_or_mode'', last_rest (if ac_ila_or_mode a then 1 else 0))]"

definition line_text :: "string \<times> string \<Rightarrow> string" where
  "line_text l = ''  '' @ quoted (fst l) @ snd l"

lemma config_text_lines: "config_text a = ''{'' @ [newline] @ concat (map line_text (config_lines a)) @ ''}'' @ [newline]"
  by (simp only: config_text_def config_lines_def line_text_def int_line_def string_line_def array_line_def int_rest_def string_rest_def
      array_rest_def last_rest_def string_elements_def list.map concat.simps fst_conv snd_conv append_assoc append_Nil append_Nil2)

lemma line_found:
  assumes "(k, r) \<in> set ls" and "distinct (map fst ls)" and "\<forall>l \<in> set ls. fst l \<in> config_keys \<and> clean config_keys (snd l)"
  shows "\<exists>r'. after_key (''{'' @ [newline] @ concat (map line_text ls) @ t) k = Some (r @ r')"
proof -
  obtain xs ys where ls: "ls = xs @ (k, r) # ys" using split_list [OF assms(1)] by blast
  have k: "k \<in> config_keys" using assms(1,3) by fastforce
  then have ks: "key_set {k}" and kq: "quote_char \<notin> set k" using config_key_set by (auto simp: key_set_def config_keys_def quote_char_def)
  have mono: "clean {k} s" if "clean config_keys s" for s using that k by (auto simp: clean_def)
  have "\<forall>l \<in> set xs. fst l \<in> config_keys \<and> fst l \<noteq> k \<and> clean {k} (snd l)"
    using assms(2,3) mono unfolding ls by (auto simp: image_iff)
  then have c: "clean {k} (concat (map line_text xs) @ ''  '')"
  proof (induction xs)
    case Nil
    then show ?case by (simp only: list.map concat.simps append_Nil) (intro clean_plain mark_facts)
  next
    case (Cons l xs)
    then have "quote_char \<notin> set (fst l)" by (auto simp: config_keys_def quote_char_def)
    then have "set (parts (fst l)) \<inter> {k} = {}" using Cons.prems by (simp add: parts_plain)
    moreover have "clean {k} (snd l @ concat (map line_text xs) @ ''  '')"
      using Cons by (auto intro: clean_append [OF ks, of "snd l" "concat (map line_text xs) @ ''  ''"])
    ultimately have "clean {k} (''  '' @ quoted (fst l) @ snd l @ concat (map line_text xs) @ ''  '')"
      by (intro clean_quoted ks mark_facts)
    then show ?case by (simp only: list.map concat.simps append_assoc line_text_def [of l])
  qed
  let ?a = "''{'' @ [newline] @ concat (map line_text xs) @ ''  ''"
  have "clean {k} ?a" by (intro clean_skip c mark_facts)
  then have "after_key (?a @ quoted k @ r @ concat (map line_text ys) @ t) k = Some (r @ concat (map line_text ys) @ t)"
    by (intro after_key_found kq) (simp add: clean_def)
  then show ?thesis unfolding ls by (intro exI [of _ "concat (map line_text ys) @ t"]) (simp add: line_text_def)
qed

text \<open>The settings that survive: no string ends, behind its last quote, with a key of the file; names of buses and lanes are
  not empty and have no closing brace; the strings of the generator are not empty; its lanes have no trigger; and the
  integers are those of 32 bits.\<close>

definition file_string :: "string \<Rightarrow> bool" where
  "file_string v \<longleftrightarrow> last (parts v) \<notin> config_keys"

definition config_ok :: "app_config \<Rightarrow> bool" where
  "config_ok a \<longleftrightarrow>
     list_all file_string
       ([ac_serial a, ac_bsdl_path a, ac_ila_config_json_path a, ac_xdc_path a] @ ac_selected_pins a) \<and>
     list_all (\<lambda>v. v \<noteq> [] \<and> file_string v)
       [ac_gen_output_subdir a, ac_gen_project_name a, ac_gen_top_module a, ac_gen_fpga_part a, ac_gen_clock_port a,
        ac_gen_reset_port a, ac_gen_data_port a, ac_gen_valid_port a] \<and>
     list_all bus_ok (ac_buses a) \<and> list_all lane_ok_config (ac_ila_signals a @ ac_gen_lanes a) \<and>
     list_all (\<lambda>s. without_trigger s = s) (ac_gen_lanes a) \<and>
     list_all int_ok [ac_interface_channel a, ac_bsdl_device_index a, ac_gen_data_width a, ac_gen_depth a]"

lemma clean_int_rest: "clean K (int_rest v)"
  unfolding int_rest_def by (intro clean_skip clean_plain mark_facts number_chars)

lemma clean_string_rest: "file_string v \<Longrightarrow> clean config_keys (string_rest v)"
  unfolding string_rest_def file_string_def
  by (intro clean_quoted clean_skip clean_plain clean_escaped config_key_set mark_facts)

lemma clean_array_rest:
  assumes "\<forall>e \<in> set es. \<forall>r. clean config_keys r \<longrightarrow> clean config_keys (''    '' @ e @ r)"
  shows "clean config_keys (array_rest es)"
proof -
  have e: "clean config_keys (element_lines es @ y)" if "clean config_keys y" for y
    using assms
  proof (induction es)
    case (Cons e es)
    then have i: "clean config_keys (element_lines es @ y)" by simp
    have "clean config_keys ((if es = [] then [] else '','') @ [newline] @ element_lines es @ y)"
      by (rule clean_skip [OF _ clean_skip [OF mark_facts(20) i]]) (simp add: quote_char_def)
    then show ?case using Cons.prems by simp
  qed (simp add: that)
  have t: "clean config_keys (''],'' @ [newline])" by (intro clean_skip clean_plain mark_facts)
  have "clean config_keys (''  '' @ ''],'' @ [newline])" by (rule clean_skip [OF mark_facts(18) t])
  note clean_skip [OF mark_facts(20) e [OF this]]
  then have "clean config_keys ('': ['' @ ([newline] @ element_lines es @ ''  '' @ ''],'' @ [newline]))" by (rule clean_skip [OF mark_facts(22)])
  moreover have "clean config_keys ('': ['' @ ''],'' @ [newline])" by (intro clean_skip t mark_facts)
  ultimately show ?thesis unfolding array_rest_def by (cases "es = []") (simp_all only: if_True if_False append_assoc append_Nil simp_thms)
qed

lemma clean_lines:
  assumes "config_ok a"
  shows "\<forall>l \<in> set (config_lines a). fst l \<in> config_keys \<and> clean config_keys (snd l)"
proof -
  have pins: "clean config_keys (array_rest (string_elements (ac_selected_pins a)))"
    using assms by (intro clean_array_rest)
      (auto simp del: append.simps simp: string_elements_def config_ok_def file_string_def list_all_iff intro!: clean_quoted config_key_set mark_facts clean_escaped)
  have buses: "clean config_keys (array_rest (map bus_element (ac_buses a)))"
    using assms by (intro clean_array_rest)
      (auto simp del: append.simps simp: config_ok_def list_all_iff intro!: clean_skip clean_bus mark_facts)
  have lanes: "clean config_keys (array_rest (map lane_element (ac_ila_signals a)))"
    using assms by (intro clean_array_rest)
      (auto simp del: append.simps simp: config_ok_def list_all_iff intro!: clean_skip clean_lane mark_facts)
  have gen: "clean config_keys (array_rest (map (lane_element \<circ> without_trigger) (ac_gen_lanes a)))"
    using assms by (intro clean_array_rest)
      (auto simp del: append.simps simp: config_ok_def list_all_iff intro!: clean_skip clean_lane mark_facts)
  have mode: "clean config_keys (last_rest v)" for v unfolding last_rest_def by (intro clean_skip clean_plain mark_facts number_chars)
  have "\<forall>l \<in> set (config_lines a). fst l \<in> config_keys" by (simp add: config_lines_def config_keys_def)
  moreover have "\<forall>l \<in> set (config_lines a). clean config_keys (snd l)" using assms pins buses lanes gen mode
    by (simp add: config_lines_def clean_int_rest clean_string_rest config_ok_def)
  ultimately show ?thesis by blast
qed

lemma distinct_lines: "distinct (map fst (config_lines a))"
  by (simp add: config_lines_def)


section \<open>Every setting is read back\<close>

lemma config_line_found:
  "config_ok a \<Longrightarrow> (k, r) \<in> set (config_lines a) \<Longrightarrow> \<exists>r'. after_key (config_text a) k = Some (r @ r')"
  unfolding config_text_lines by (rule line_found [OF _ distinct_lines clean_lines])

lemma int_setting:
  assumes "config_ok a" and "(k, int_rest v) \<in> set (config_lines a)" and "- (2 ^ 63) \<le> v" and "v < 2 ^ 63"
  shows "json_int (config_text a) k d = v"
proof -
  obtain r where "after_key (config_text a) k = Some (int_rest v @ r)" using config_line_found [OF assms(1,2)] by blast
  then have "after_key (config_text a) k = Some ('': '' @ to_string v @ CHR '','' # newline # r)" by (simp add: int_rest_def)
  then show ?thesis by (rule json_int_at) (simp_all add: number_char_def is_digit_def char_code_def assms(3,4) [simplified])
qed

lemma word_setting:
  fixes w :: "'a :: len word"
  assumes "config_ok a" and "(k, int_rest (uint w)) \<in> set (config_lines a)" and "LENGTH('a) \<le> 63"
  shows "json_int (config_text a) k d = uint w"
proof (rule int_setting [OF assms(1,2)])
  show "- (2 ^ 63) \<le> uint w" using order_trans [OF _ uint_ge_0 [of w], of "- (2 ^ 63)"] by simp
  show "uint w < 2 ^ 63" using uint_bounded [of w] power_increasing [OF assms(3), of "2 :: int"] by linarith
qed

lemma int32_setting:
  "config_ok a \<Longrightarrow> (k, int_rest v) \<in> set (config_lines a) \<Longrightarrow> int_ok v \<Longrightarrow> to_int32 (json_int (config_text a) k d) = v"
  by (subst int_setting) (auto simp: int_ok_def to_int32_id)

lemma string_setting:
  assumes "config_ok a" and "(k, string_rest v) \<in> set (config_lines a)"
  shows "json_string (config_text a) k = v"
proof -
  obtain r where "after_key (config_text a) k = Some (string_rest v @ r)" using config_line_found [OF assms] by blast
  then have "after_key (config_text a) k = Some ('': '' @ quoted (json_escape v) @ CHR '','' # newline # r)" by (simp add: string_rest_def)
  then show ?thesis by (rule json_string_at) simp
qed

lemma array_line_found:
  assumes "config_ok a" and "(k, array_rest es) \<in> set (config_lines a)"
  shows "\<exists>r. after_key (config_text a) k =
    Some ('': ['' @ (if es = [] then [] else [newline] @ element_lines es @ ''  '') @ '']'' @ r)"
proof -
  obtain r where "after_key (config_text a) k = Some (array_rest es @ r)" using config_line_found [OF assms] by blast
  then have "after_key (config_text a) k =
      Some ('': ['' @ (if es = [] then [] else [newline] @ element_lines es @ ''  '') @ '']'' @ CHR '','' # newline # r)"
    by (simp add: array_rest_def)
  then show ?thesis by blast
qed

lemma strings_setting:
  assumes "config_ok a" and "(k, array_rest (string_elements vs)) \<in> set (config_lines a)"
  shows "json_string_array (config_text a) k = vs"
proof -
  obtain r where "after_key (config_text a) k = Some ('': ['' @ (if string_elements vs = [] then []
      else [newline] @ element_lines (string_elements vs) @ ''  '') @ '']'' @ r)"
    using array_line_found [OF assms] by (elim exE)
  moreover have "string_elements vs = [] \<longleftrightarrow> vs = []" by (simp add: string_elements_def)
  ultimately show ?thesis by (intro string_array_at [of _ _ _ r]) (simp only:)
qed

lemma bus_braces: "bus_ok b \<Longrightarrow> \<exists>m. bus_element b = ''{'' @ m @ ''}'' \<and> CHR ''}'' \<notin> set m"
proof -
  assume b: "bus_ok b"
  have q: "quote_char \<noteq> CHR ''}''" "CHR ''}'' \<notin> set (format_name f)" for f
    by (simp add: quote_char_def, cases f) (simp_all add: format_name_def)
  have "CHR ''}'' \<notin> set (comma_list (string_elements vs))" if "\<forall>v \<in> set vs. CHR ''}'' \<notin> set v" for vs
    using that q by (induction vs) (auto simp: string_elements_def quoted_def brace_escape)
  then have "CHR ''}'' \<notin> set (comma_list (map (\<lambda>s. quoted (json_escape s)) (bd_signals b)))"
    using b by (auto simp: bus_ok_def element_string_def list_all_iff string_elements_def)
  then have "CHR ''}'' \<notin> set (quoted ''name'' @ '':'' @ quoted (json_escape (bd_name b)) @ '','' @
     quoted ''signals'' @ '':['' @ comma_list (map (\<lambda>s. quoted (json_escape s)) (bd_signals b)) @ ''],'' @
     quoted ''format'' @ '':'' @ quoted (format_name (bd_format b)))"
    using b q by (simp add: quoted_def bus_ok_def element_string_def brace_escape)
  then show ?thesis unfolding bus_element_def by (intro exI conjI) (simp_all only: append_assoc)
qed

lemma lane_braces: "lane_ok_config s \<Longrightarrow> \<exists>m. lane_element s = ''{'' @ m @ ''}'' \<and> CHR ''}'' \<notin> set m"
proof -
  assume l: "lane_ok_config s"
  have q: "quote_char \<noteq> CHR ''}''" "CHR ''}'' \<notin> set (format_name f)" for f
    by (simp add: quote_char_def, cases f) (simp_all add: format_name_def)
  have "CHR ''}'' \<notin> set (quoted ''name'' @ '':'' @ quoted (json_escape (sc_name s)) @ '','' @
     quoted ''hi'' @ '':'' @ to_string (sc_hi s) @ '','' @
     quoted ''lo'' @ '':'' @ to_string (sc_lo s) @ '','' @
     quoted ''fmt'' @ '':'' @ quoted (format_name (sc_fmt s)) @ '','' @
     quoted ''trig_cond'' @ '':'' @ to_string (sc_trig_cond s) @ '','' @
     quoted ''trig_value'' @ '':'' @ to_string (uint (sc_trig_value s)) @ '','' @
     quoted ''trig_cond_b'' @ '':'' @ to_string (sc_trig_cond_b s) @ '','' @
     quoted ''trig_value_b'' @ '':'' @ to_string (uint (sc_trig_value_b s)))"
    using l q by (simp add: quoted_def lane_ok_config_def element_string_def brace_escape number_chars)
  then show ?thesis unfolding lane_element_def by (intro exI conjI) (simp_all only: append_assoc)
qed

lemma buses_setting:
  assumes "config_ok a"
  shows "json_bus_array (config_text a) ''buses'' = ac_buses a"
proof -
  have ok: "bus_ok b" if "b \<in> set (ac_buses a)" for b using assms that by (simp add: config_ok_def list_all_iff)
  have m: "(''buses'', array_rest (map bus_element (ac_buses a))) \<in> set (config_lines a)" by (simp add: config_lines_def)
  obtain r where "after_key (config_text a) ''buses'' = Some ('': ['' @ (if map bus_element (ac_buses a) = [] then []
      else [newline] @ element_lines (map bus_element (ac_buses a)) @ ''  '') @ '']'' @ r)"
    using array_line_found [OF assms m] by (elim exE)
  then have "object_array (config_text a) ''buses'' = map bus_element (ac_buses a)"
    by (rule object_array_at) (simp only: ball_simps bus_braces ok set_map; blast intro: bus_braces ok)
  then show ?thesis by (simp add: json_bus_array_def map_filter_Some bus_roundtrip ok)
qed

lemma lanes_setting:
  assumes "config_ok a" and "(k, array_rest (map lane_element ls)) \<in> set (config_lines a)" and "\<forall>s \<in> set ls. lane_ok_config s"
  shows "json_ila_signal_array (config_text a) k = ls"
proof -
  obtain r where "after_key (config_text a) k = Some ('': ['' @ (if map lane_element ls = [] then []
      else [newline] @ element_lines (map lane_element ls) @ ''  '') @ '']'' @ r)"
    using array_line_found [OF assms(1,2)] by (elim exE)
  then have "object_array (config_text a) k = map lane_element ls"
    by (rule object_array_at) (use assms(3) in \<open>simp only: ball_simps set_map; blast intro: lane_braces\<close>)
  then show ?thesis using assms(3) by (simp add: json_ila_signal_array_def map_filter_Some lane_roundtrip)
qed


lemma config_members:
  "(''vendor_id'', int_rest (uint (ac_vendor_id a))) \<in> set (config_lines a)"
  "(''product_id'', int_rest (uint (ac_product_id a))) \<in> set (config_lines a)"
  "(''serial'', string_rest (ac_serial a)) \<in> set (config_lines a)"
  "(''interface_channel'', int_rest (ac_interface_channel a)) \<in> set (config_lines a)"
  "(''clock_freq_hz'', int_rest (uint (ac_clock_freq_hz a))) \<in> set (config_lines a)"
  "(''bsdl_path'', string_rest (ac_bsdl_path a)) \<in> set (config_lines a)"
  "(''bsdl_device_index'', int_rest (ac_bsdl_device_index a)) \<in> set (config_lines a)"
  "(''selected_pins'', array_rest (string_elements (ac_selected_pins a))) \<in> set (config_lines a)"
  "(''ila_signals'', array_rest (map lane_element (ac_ila_signals a))) \<in> set (config_lines a)"
  "(''ila_generator_output_subdir'', string_rest (ac_gen_output_subdir a)) \<in> set (config_lines a)"
  "(''ila_generator_project_name'', string_rest (ac_gen_project_name a)) \<in> set (config_lines a)"
  "(''ila_generator_top_module'', string_rest (ac_gen_top_module a)) \<in> set (config_lines a)"
  "(''ila_generator_fpga_part'', string_rest (ac_gen_fpga_part a)) \<in> set (config_lines a)"
  "(''ila_generator_clock_port_name'', string_rest (ac_gen_clock_port a)) \<in> set (config_lines a)"
  "(''ila_generator_reset_port_name'', string_rest (ac_gen_reset_port a)) \<in> set (config_lines a)"
  "(''ila_generator_data_port_name'', string_rest (ac_gen_data_port a)) \<in> set (config_lines a)"
  "(''ila_generator_valid_port_name'', string_rest (ac_gen_valid_port a)) \<in> set (config_lines a)"
  "(''ila_generator_sample_clock_hz'', int_rest (uint (ac_gen_sample_clock_hz a))) \<in> set (config_lines a)"
  "(''ila_generator_data_width'', int_rest (ac_gen_data_width a)) \<in> set (config_lines a)"
  "(''ila_generator_depth'', int_rest (ac_gen_depth a)) \<in> set (config_lines a)"
  "(''ila_generator_idcode'', int_rest (uint (ac_gen_idcode a))) \<in> set (config_lines a)"
  "(''ila_generator_lanes'', array_rest (map (lane_element \<circ> without_trigger) (ac_gen_lanes a))) \<in> set (config_lines a)"
  "(''ila_config_json_path'', string_rest (ac_ila_config_json_path a)) \<in> set (config_lines a)"
  "(''xdc_path'', string_rest (ac_xdc_path a)) \<in> set (config_lines a)"
  "(''ila_or_mode'', last_rest (if ac_ila_or_mode a then 1 else 0)) \<in> set (config_lines a)"
  unfolding config_lines_def list.set by (intro insertI1 insertI2)+

lemma mode_setting:
  assumes "config_ok a"
  shows "json_int (config_text a) ''ila_or_mode'' 0 = (if ac_ila_or_mode a then 1 else 0)" (is "_ = ?v")
proof -
  obtain r where "after_key (config_text a) ''ila_or_mode'' = Some (last_rest ?v @ r)"
    using config_line_found [OF assms config_members(25)] by blast
  then have "after_key (config_text a) ''ila_or_mode'' = Some ('': '' @ to_string ?v @ newline # r)" by (simp add: last_rest_def)
  then show ?thesis by (rule json_int_at) (auto simp: number_char_def is_digit_def char_code_def newline_def)
qed

text \<open>C17: Settings that are saved are loaded again as they were: every number, path, pin, bus, lane and port name, with quotes,
  backslashes and line ends escaped.  Excluded is what the search for a quoted key confuses (a string that is a key of the
  file, a closing brace in the name of a bus or lane) and what the file has no place for: an empty name, a trigger on a
  lane of the generator.\<close>

theorem config_survives:
  assumes "config_ok a"
  shows "load_config (Some (config_text a)) = a"
proof -
  have gl: "map (lane_element \<circ> without_trigger) (ac_gen_lanes a) = map lane_element (ac_gen_lanes a)"
    using assms by (auto simp: config_ok_def list_all_iff)
  have ok: "int_ok (ac_interface_channel a)" "int_ok (ac_bsdl_device_index a)" "int_ok (ac_gen_data_width a)" "int_ok (ac_gen_depth a)"
    "\<forall>s \<in> set (ac_ila_signals a). lane_ok_config s" "\<forall>s \<in> set (ac_gen_lanes a). lane_ok_config s"
    and ne: "ac_gen_output_subdir a \<noteq> []" "ac_gen_project_name a \<noteq> []" "ac_gen_top_module a \<noteq> []" "ac_gen_fpga_part a \<noteq> []"
    "ac_gen_clock_port a \<noteq> []" "ac_gen_reset_port a \<noteq> []" "ac_gen_data_port a \<noteq> []" "ac_gen_valid_port a \<noteq> []"
    using assms by (auto simp: config_ok_def list_all_iff)
  note w = word_setting [OF assms] and i = int32_setting [OF assms] and s = string_setting [OF assms] and m = config_members
  note ints = w [OF m(1)] w [OF m(2)] i [OF m(4) ok(1)] w [OF m(5)] i [OF m(7) ok(2)] w [OF m(18)] i [OF m(19) ok(3)]
    i [OF m(20) ok(4)] w [OF m(21)] mode_setting [OF assms]
  note strings = s [OF m(3)] s [OF m(6)] s [OF m(10)] s [OF m(11)] s [OF m(12)] s [OF m(13)] s [OF m(14)] s [OF m(15)] s [OF m(16)]
    s [OF m(17)] s [OF m(23)] s [OF m(24)]
  note arrays = strings_setting [OF assms m(8)] buses_setting [OF assms] lanes_setting [OF assms m(9) ok(5)]
    lanes_setting [OF assms m(22) [of a, unfolded gl] ok(6)]
  show ?thesis
    unfolding load_config_def config_of_text_def option.case
    by (rule app_config.equality) (simp_all add: ints strings arrays string_or_def ne)
qed

text \<open>Settings with a quote in a path, a bus and a lane with a trigger.\<close>

definition demo_config :: app_config where
  "demo_config = default_config\<lparr>ac_serial := ''FT1'', ac_bsdl_path := ''C:'' @ [backslash, quote_char] @ ''x.bsd'', ac_selected_pins := [''IO_A1'', ''IO_B2''],
     ac_buses := [\<lparr>bd_name = ''data'', bd_signals = [''IO_A1'', ''IO_B2''], bd_format = BIN\<rparr>],
     ac_ila_signals := [\<lparr>sc_name = ''cnt'', sc_hi = 7, sc_lo = 0, sc_fmt = DEC, sc_trig_cond = 1, sc_trig_value = 200, sc_trig_cond_b = 0,
        sc_trig_value_b = 0\<rparr>]\<rparr>"

theorem config_survives_witness: "load_config (Some (config_text demo_config)) = demo_config"
  by (rule config_survives)
    (simp add: config_ok_def demo_config_def default_config_def file_string_def bus_ok_def lane_ok_config_def element_string_def
      last_parts parts_acc_simps config_keys_def element_keys_def int_ok_def quote_char_def backslash_def del: parts.simps)

section \<open>What goes wrong\<close>

text \<open>A lane with the name of a key, a bus with a brace, a serial number that is a key: the settings change.\<close>

theorem settings_are_confused:
  "read_ila_signal (lane_element \<lparr>sc_name = ''lo'', sc_hi = 7, sc_lo = 4, sc_fmt = HEX, sc_trig_cond = 0, sc_trig_value = 0,
       sc_trig_cond_b = 0, sc_trig_value_b = 0\<rparr>) =
   Some \<lparr>sc_name = ''lo'', sc_hi = 7, sc_lo = 7, sc_fmt = HEX, sc_trig_cond = 0, sc_trig_value = 0,
       sc_trig_cond_b = 0, sc_trig_value_b = 0\<rparr>"
  "json_objects (bus_element \<lparr>bd_name = ''a}b'', bd_signals = [''S''], bd_format = BIN\<rparr>) = [''{'' @ quoted ''name'' @ '':'' @ [quote_char] @ ''a}'']"
  by code_simp+

end
