(* ===== verification/Gui_Export.thy ===== *)
theory Gui_Export
  imports Gui_Config Capture Cxx_Strings
begin

text \<open>
  The exports of src/src/gui/vcd_export.cpp and the bus values of src/src/gui/bus_definition.cpp, with a reader of VCD text.
  The clock readings of the samples are in microseconds.  A file that cannot be opened is an argument.
\<close>

unbundle bit_operations_syntax

section \<open>Bus values\<close>

text \<open>\<open>1ULL << n\<close> is undefined for 64 and more.\<close>

fun bus_bits :: "nat \<Rightarrow> string list \<Rightarrow> scan_result \<Rightarrow> u64 \<Rightarrow> u64 option" where
  "bus_bits n [] r v = Some v"
| "bus_bits n (s # ss) r v =
     (if sr_get_pin r s = Ps_HIGH
      then (if n - 1 < 64 then bus_bits (n - 1) ss r (v OR push_bit (n - 1) 1) else None)
      else bus_bits (n - 1) ss r v)"

definition compute_bus_value :: "bus_definition \<Rightarrow> scan_result \<Rightarrow> u64 option" where
  "compute_bus_value b r = bus_bits (length (bd_signals b)) (bd_signals b) r 0"

section \<open>Value change dump\<close>

fun vcd_symbol :: "nat \<Rightarrow> string" where
  "vcd_symbol index = char_of (33 + index mod 94) # (if 0 < index div 94 then vcd_symbol (index div 94) else [])"

declare vcd_symbol.simps [simp del]

definition vcd_header :: "string list \<Rightarrow> string list" where
  "vcd_header signals =
     [''$date'', ''  Export from JTAG FPGA Viewer'', ''$end'', ''$version'', ''  1.0'', ''$end'', ''$timescale 1us $end'',
      ''$scope module fpga $end''] @
     map (\<lambda>i. ''$var wire 1 '' @ vcd_symbol i @ '' '' @ signals ! i @ '' $end'') [0..<length signals] @
     [''$upscope $end'', ''$enddefinitions $end'']"

definition vcd_value :: "pin_state \<Rightarrow> char" where
  "vcd_value p = (if p = Ps_HIGH then CHR ''1'' else if p = Ps_LOW then CHR ''0'' else CHR ''x'')"

definition vcd_frame :: "int \<Rightarrow> string list \<Rightarrow> sample_frame \<Rightarrow> string list" where
  "vcd_frame t0 signals f =
     (''#'' @ to_string (sf_timestamp f - t0)) #
     map (\<lambda>i. vcd_value (sr_get_pin (sf_data f) (signals ! i)) # vcd_symbol i) [0..<length signals]"

definition file_of_lines :: "string list \<Rightarrow> string" where
  "file_of_lines ls = concat (map (\<lambda>l. l @ [newline]) ls)"

text \<open>The error text and the contents of the file.\<close>

definition export_vcd :: "bool \<Rightarrow> sample_frame list \<Rightarrow> string list \<Rightarrow> string \<times> string" where
  "export_vcd can_open samples signals =
     (case samples of
        [] \<Rightarrow> (''No data to export.'', [])
      | f # _ \<Rightarrow>
          if \<not> can_open then (''Cannot write to file.'', [])
          else ([], file_of_lines (vcd_header signals @ concat (map (vcd_frame (sf_timestamp f) signals) samples))))"

section \<open>Comma separated values\<close>

definition csv_value :: "pin_state \<Rightarrow> int" where
  "csv_value p = (if p = Ps_HIGH then 1 else if p = Ps_LOW then 0 else -1)"

definition csv_row :: "int \<Rightarrow> string list \<Rightarrow> sample_frame \<Rightarrow> string" where
  "csv_row t0 signals f =
     to_string (sf_timestamp f - t0) @ concat (map (\<lambda>s. '','' @ to_string (csv_value (sr_get_pin (sf_data f) s))) signals)"

definition export_csv :: "bool \<Rightarrow> sample_frame list \<Rightarrow> string list \<Rightarrow> string \<times> string" where
  "export_csv can_open samples signals =
     (case samples of
        [] \<Rightarrow> (''No data to export.'', [])
      | f # _ \<Rightarrow>
          if \<not> can_open then (''Cannot write to file.'', [])
          else ([], file_of_lines ((''timestamp_us'' @ concat (map (\<lambda>s. '','' @ s) signals)) # map (csv_row (sf_timestamp f) signals) samples)))"

section \<open>The value of a bus\<close>

fun pins_value :: "scan_result \<Rightarrow> string list \<Rightarrow> nat" where
  "pins_value r [] = 0"
| "pins_value r (s # ss) = (if sr_get_pin r s = Ps_HIGH then 2 ^ length ss else 0) + pins_value r ss"

lemma pins_value_bound: "pins_value r ss < 2 ^ length ss"
  by (induction ss) auto

lemma unat_power: "n < 64 \<Longrightarrow> unat (2 ^ n :: u64) = 2 ^ n"
proof -
  assume n: "n < 64"
  have "(2 ^ n :: u64) = of_nat (2 ^ n)" by simp
  then show ?thesis using n power_strict_increasing [of n 64 "2 :: nat"] by (simp only: unsigned_of_nat) (simp add: take_bit_nat_eq_self)
qed

text \<open>The first signal is the most significant bit.\<close>

lemma bus_bits_value:
  assumes "length ss \<le> 64" and "\<forall>i < length ss. \<not> bit v i"
  shows "\<exists>w. bus_bits (length ss) ss r v = Some w \<and> unat w = unat v + pins_value r ss"
  using assms
proof (induction ss arbitrary: v)
  case (Cons s ss)
  show ?case
  proof (cases "sr_get_pin r s = Ps_HIGH")
    case True
    let ?b = "push_bit (length ss) (1 :: u64)" and ?v = "v OR push_bit (length ss) (1 :: u64)"
    have b: "bit ?b i \<longleftrightarrow> i = length ss" for i
      using Cons.prems(1) by (auto simp: bit_push_bit_iff bit_1_iff)
    have "v AND ?b = 0" using Cons.prems(2) b by (intro bit_word_eqI) (auto simp: bit_and_iff)
    then have "unat v AND unat ?b = 0" by (simp only: unsigned_and_eq [symmetric] unsigned_0)
    then have "unat ?v = unat v + unat ?b" by (simp only: unsigned_or_eq disjunctive_add_eq_or)
    also have "unat ?b = 2 ^ length ss" using unat_power [of "length ss"] Cons.prems(1) by simp
    finally have "unat ?v = unat v + 2 ^ length ss" .
    moreover have "\<forall>i < length ss. \<not> bit ?v i" using Cons.prems(2) b by (auto simp: bit_or_iff)
    then obtain w where "bus_bits (length ss) ss r ?v = Some w" "unat w = unat ?v + pins_value r ss"
      using Cons.IH [of ?v] Cons.prems(1) by auto
    ultimately show ?thesis using True Cons.prems(1) by simp
  next
    case False
    from Cons.IH [of v] Cons.prems obtain w where "bus_bits (length ss) ss r v = Some w" "unat w = unat v + pins_value r ss" by auto
    then show ?thesis using False by simp
  qed
qed simp


section \<open>Symbols\<close>

fun symbol_index :: "string \<Rightarrow> nat" where
  "symbol_index [] = 0"
| "symbol_index (c # s) = (char_code c - 33) + 94 * symbol_index s"

definition vcd_word :: "string \<Rightarrow> bool" where
  "vcd_word w \<longleftrightarrow> w \<noteq> [] \<and> list_all (\<lambda>c. \<not> is_space c) w"

lemma symbol_index_inverse: "symbol_index (vcd_symbol i) = i"
proof (induction i rule: vcd_symbol.induct)
  case (1 i)
  have "33 + i mod 94 < 256" using mod_less_divisor [of 94 i] by simp
  then have "char_code (char_of (33 + i mod 94)) = 33 + i mod 94" by (simp add: char_code_def of_char_of)
  then show ?case using 1 mult_div_mod_eq [of 94 i] by (subst vcd_symbol.simps) auto
qed

lemma vcd_symbol_inj: "vcd_symbol i = vcd_symbol j \<longleftrightarrow> i = j"
  by (metis symbol_index_inverse)

lemma vcd_symbol_word: "vcd_word (vcd_symbol i)"
proof (induction i rule: vcd_symbol.induct)
  case (1 i)
  have b: "i mod 94 < 94" by simp
  then have "char_code (char_of (33 + i mod 94)) = 33 + i mod 94" by (simp add: char_code_def of_char_of)
  with b have "\<not> is_space (char_of (33 + i mod 94))" by (simp add: is_space_def)
  then show ?case using 1 by (subst vcd_symbol.simps) (auto simp: vcd_word_def)
qed

section \<open>Reading a dump\<close>

text \<open>A reader of the lines of a dump: declarations, time marks, and values of declared symbols; everything else is skipped.\<close>

record vcd_state =
  vs_vars :: "(string \<times> string) list"
  vs_frames :: "(string \<times> (string \<times> char) list) list"

definition add_value :: "string \<times> char \<Rightarrow> (string \<times> (string \<times> char) list) list \<Rightarrow> (string \<times> (string \<times> char) list) list" where
  "add_value v fs = (if fs = [] then [] else butlast fs @ [(fst (last fs), snd (last fs) @ [v])])"

definition vcd_read_line :: "vcd_state \<Rightarrow> string \<Rightarrow> vcd_state" where
  "vcd_read_line st l =
     (let ts = tokens [] l
      in if length ts = 6 \<and> ts ! 0 = ''$var'' then st\<lparr>vs_vars := vs_vars st @ [(ts ! 3, ts ! 4)]\<rparr>
         else if length ts = 1 then
           (if hd (ts ! 0) = CHR ''#'' then st\<lparr>vs_frames := vs_frames st @ [(tl (ts ! 0), [])]\<rparr>
            else if hd (ts ! 0) \<in> {CHR ''0'', CHR ''1'', CHR ''x''}
                 then (case map_of (vs_vars st) (tl (ts ! 0)) of
                         None \<Rightarrow> st
                       | Some n \<Rightarrow> st\<lparr>vs_frames := add_value (n, hd (ts ! 0)) (vs_frames st)\<rparr>)
            else st)
         else st)"

definition vcd_read :: "string \<Rightarrow> (string \<times> (string \<times> char) list) list" where
  "vcd_read s = vs_frames (foldl vcd_read_line \<lparr>vs_vars = [], vs_frames = []\<rparr> (split_lines s))"

definition line_ok :: "string \<Rightarrow> bool" where
  "line_ok l \<longleftrightarrow> newline \<notin> set l"

lemma split_file_of_lines: "list_all line_ok ls \<Longrightarrow> split_lines (file_of_lines ls) = ls"
  by (induction ls) (simp_all add: file_of_lines_def line_ok_def split_lines_line)

lemma word_no_newline: "vcd_word w \<Longrightarrow> newline \<notin> set w"
  by (auto simp: vcd_word_def list_all_iff newline_def is_space_def char_code_def)

definition symbol_vars :: "string list \<Rightarrow> (string \<times> string) list" where
  "symbol_vars signals = map (\<lambda>i. (vcd_symbol i, signals ! i)) [0..<length signals]"

lemma map_of_symbol_vars: "i < length signals \<Longrightarrow> map_of (symbol_vars signals) (vcd_symbol i) = Some (signals ! i)"
proof -
  assume i: "i < length signals"
  have "distinct (map fst (symbol_vars signals))"
    by (simp add: symbol_vars_def o_def distinct_map inj_on_def vcd_symbol_inj)
  moreover have "(vcd_symbol i, signals ! i) \<in> set (symbol_vars signals)" using i by (auto simp: symbol_vars_def)
  ultimately show ?thesis by (rule map_of_is_SomeI)
qed

lemma tokens_var_line:
  assumes "vcd_word a" and "vcd_word b"
  shows "tokens [] (''$var wire 1 '' @ a @ '' '' @ b @ '' $end'') = [''$var'', ''wire'', ''1'', a, b, ''$end'']"
proof -
  have "tokens [] (join_words [''$var'', ''wire'', ''1'', a, b, ''$end'']) = [''$var'', ''wire'', ''1'', a, b, ''$end'']"
    using assms by (intro tokens_join_words) (simp add: vcd_word_def is_space_def char_code_def)
  then show ?thesis by simp
qed

lemma tokens_single: "vcd_word w \<Longrightarrow> tokens [] w = [w]"
  using tokens_join_words [of "[w]"] by (simp add: vcd_word_def)

lemma read_declarations:
  assumes "list_all vcd_word signals" and "n \<le> length signals"
  shows "foldl vcd_read_line \<lparr>vs_vars = vs, vs_frames = []\<rparr>
    (map (\<lambda>i. ''$var wire 1 '' @ vcd_symbol i @ '' '' @ signals ! i @ '' $end'') [0..<n]) =
    \<lparr>vs_vars = vs @ map (\<lambda>i. (vcd_symbol i, signals ! i)) [0..<n], vs_frames = []\<rparr>"
  using assms(2)
proof (induction n)
  case (Suc n)
  have "vcd_word (signals ! n)" using assms(1) Suc.prems by (simp add: list_all_length)
  then have "vcd_read_line st (''$var wire 1 '' @ vcd_symbol n @ '' '' @ signals ! n @ '' $end'') =
      st\<lparr>vs_vars := vs_vars st @ [(vcd_symbol n, signals ! n)]\<rparr>" for st
    using tokens_var_line [OF vcd_symbol_word] by (simp add: vcd_read_line_def Let_def del: append.simps)
  then show ?case using Suc by (simp del: append.simps)
qed simp

lemma read_header:
  assumes "list_all vcd_word signals"
  shows "foldl vcd_read_line \<lparr>vs_vars = [], vs_frames = []\<rparr> (vcd_header signals) = \<lparr>vs_vars = symbol_vars signals, vs_frames = []\<rparr>"
proof -
  have other: "foldl vcd_read_line \<lparr>vs_vars = [], vs_frames = []\<rparr> [''$date'', ''  Export from JTAG FPGA Viewer'', ''$end'', ''$version'',
      ''  1.0'', ''$end'', ''$timescale 1us $end'', ''$scope module fpga $end''] = \<lparr>vs_vars = [], vs_frames = []\<rparr>"
    by code_simp
  have "tokens [] ''$upscope $end'' = [''$upscope'', ''$end'']" "tokens [] ''$enddefinitions $end'' = [''$enddefinitions'', ''$end'']"
    by code_simp+
  then have last: "foldl vcd_read_line st [''$upscope $end'', ''$enddefinitions $end''] = st" for st
    by (simp add: vcd_read_line_def)
  show ?thesis unfolding vcd_header_def foldl_append other last
    using read_declarations [OF assms order_refl] by (simp add: symbol_vars_def)
qed

definition frame_values :: "string list \<Rightarrow> sample_frame \<Rightarrow> (string \<times> char) list" where
  "frame_values signals f = map (\<lambda>s. (s, vcd_value (sr_get_pin (sf_data f) s))) signals"

lemma value_char: "vcd_value p \<in> {CHR ''0'', CHR ''1'', CHR ''x''} \<and> vcd_value p \<noteq> CHR ''#'' \<and> \<not> is_space (vcd_value p)"
  by (cases p) (simp_all add: vcd_value_def is_space_def char_code_def)

lemma value_line_word: "vcd_word (vcd_value p # vcd_symbol i)"
  using vcd_symbol_word [of i] value_char [of p] by (simp add: vcd_word_def)

lemma read_values:
  assumes "n \<le> length signals"
  shows "foldl vcd_read_line \<lparr>vs_vars = symbol_vars signals, vs_frames = fs @ [(t, [])]\<rparr>
      (map (\<lambda>i. vcd_value (sr_get_pin d (signals ! i)) # vcd_symbol i) [0..<n]) =
    \<lparr>vs_vars = symbol_vars signals, vs_frames = fs @ [(t, map (\<lambda>i. (signals ! i, vcd_value (sr_get_pin d (signals ! i)))) [0..<n])]\<rparr>"
  using assms
proof (induction n)
  case (Suc n)
  let ?v = "vcd_value (sr_get_pin d (signals ! n))"
  have "vcd_read_line \<lparr>vs_vars = symbol_vars signals, vs_frames = fs @ [(t, vs)]\<rparr> (?v # vcd_symbol n) =
      \<lparr>vs_vars = symbol_vars signals, vs_frames = fs @ [(t, vs @ [(signals ! n, ?v)])]\<rparr>" for vs
    using value_char [of "sr_get_pin d (signals ! n)"] Suc.prems
    by (simp add: vcd_read_line_def tokens_single [OF value_line_word] map_of_symbol_vars add_value_def del: tokens.simps)
  then show ?case using Suc by simp
qed simp

lemma time_line_word: "vcd_word (CHR ''#'' # to_string v)"
proof -
  have "list_all is_digit (dec_digits n)" for n using dec_digits_correct by blast
  then have "\<not> is_space c" if "c \<in> set (to_string v)" for c
    using that digit_not_space by (auto simp: to_string_def list_all_iff is_space_def char_code_def split: if_splits)
  then show ?thesis by (auto simp: vcd_word_def list_all_iff is_space_def char_code_def)
qed

lemma read_frame:
  "foldl vcd_read_line \<lparr>vs_vars = symbol_vars signals, vs_frames = fs\<rparr> (vcd_frame t0 signals f) =
     \<lparr>vs_vars = symbol_vars signals, vs_frames = fs @ [(to_string (sf_timestamp f - t0), frame_values signals f)]\<rparr>"
proof -
  have "vcd_read_line st (CHR ''#'' # to_string v) = st\<lparr>vs_frames := vs_frames st @ [(to_string v, [])]\<rparr>" for st v
    by (simp add: vcd_read_line_def tokens_single [OF time_line_word] del: tokens.simps)
  moreover have "map (\<lambda>i. (signals ! i, vcd_value (sr_get_pin (sf_data f) (signals ! i)))) [0..<length signals] = frame_values signals f"
    by (rule nth_equalityI) (simp_all add: frame_values_def)
  ultimately show ?thesis using read_values [OF order_refl, of signals fs] by (simp add: vcd_frame_def)
qed

lemma read_frames:
  "foldl vcd_read_line \<lparr>vs_vars = symbol_vars signals, vs_frames = fs\<rparr> (concat (map (vcd_frame t0 signals) samples)) =
     \<lparr>vs_vars = symbol_vars signals, vs_frames = fs @ map (\<lambda>f. (to_string (sf_timestamp f - t0), frame_values signals f)) samples\<rparr>"
  by (induction samples arbitrary: fs) (simp_all add: read_frame)

lemma vcd_lines_ok:
  assumes "list_all vcd_word signals"
  shows "list_all line_ok (vcd_header signals @ concat (map (vcd_frame t0 signals) samples))"
proof -
  have "line_ok (''$var wire 1 '' @ vcd_symbol i @ '' '' @ signals ! i @ '' $end'')" if "i < length signals" for i
    using that assms word_no_newline [OF vcd_symbol_word, of i] word_no_newline [of "signals ! i"]
    by (simp add: line_ok_def list_all_length newline_def)
  moreover have "list_all line_ok (vcd_frame t0 signals f)" for f
    using word_no_newline [OF time_line_word] word_no_newline [OF value_line_word]
    by (auto simp: vcd_frame_def line_ok_def list_all_iff)
  ultimately show ?thesis by (auto simp: vcd_header_def list_all_iff) (auto simp: line_ok_def newline_def)
qed


definition demo_samples :: "sample_frame list" where
  "demo_samples = [empty_frame\<lparr>sf_timestamp := 5, sf_data := empty_scan\<lparr>sr_pin_states := [''CLK'' \<mapsto> Ps_HIGH]\<rparr>\<rparr>, empty_frame\<lparr>sf_timestamp := 17\<rparr>]"


end
