(* ===== verification/Xdc.thy ===== *)
theory Xdc
  imports Cxx_Search
begin

text \<open>
  The reader of pin constraints (src/src/xdc/xdc_parser.cpp).  A position in a line is modelled by the text behind it; the
  contents of the file are an argument.
\<close>

section \<open>The parser\<close>

definition strip_wrap :: "char \<Rightarrow> char \<Rightarrow> string \<Rightarrow> string" where
  "strip_wrap opn cls s =
     (if 2 \<le> length s \<and> hd s = opn \<and> last s = cls then trim_str (butlast (tl s)) else s)"

text \<open>The search for a keyword as a word of its own, from a position on, and the token behind it.\<close>

function dict_value_from :: "string \<Rightarrow> string \<Rightarrow> nat \<Rightarrow> string" where
  "dict_value_from body keyword pos =
     (if length body \<le> pos then []
      else case find_from keyword body pos of
             None \<Rightarrow> []
           | Some found \<Rightarrow>
               let left_ok = (found = 0 \<or> is_space (body ! (found - 1)));
                   after = found + length keyword;
                   right_ok = (length body \<le> after \<or> is_space (body ! after))
               in if left_ok \<and> right_ok
                  then takeWhile (\<lambda>c. \<not> is_space c) (dropWhile is_space (drop after body))
                  else dict_value_from body keyword (found + 1))"
  by pat_completeness auto
termination
  by (relation "measure (\<lambda>(b, k, p). length b - p)") (auto dest: find_from_bound)

declare dict_value_from.simps [simp del]

definition dict_value :: "string \<Rightarrow> string \<Rightarrow> string" where
  "dict_value body keyword = dict_value_from body keyword 0"

definition str_contains :: "string \<Rightarrow> string \<Rightarrow> bool" where
  "str_contains pat s \<longleftrightarrow> first_at pat s \<noteq> None"

text \<open>The text up to the last occurrence of a character.\<close>

definition before_last :: "char \<Rightarrow> string \<Rightarrow> string" where
  "before_last c s = rev (drop 1 (dropWhile (\<lambda>x. x \<noteq> c) (rev s)))"

text \<open>One line: a package pin and the port on it.\<close>

definition xdc_line :: "string \<Rightarrow> (string \<times> string) option" where
  "xdc_line l0 =
     (let l = trim_str l0
      in if l = [] \<or> hd l = CHR ''#'' then None
         else if \<not> has_prefix ''set_property'' l then None
         else if \<not> str_contains ''PACKAGE_PIN'' l \<or> \<not> str_contains ''get_ports'' l then None
         else if CHR ''{'' \<notin> set l then None
         else let r = after_char CHR ''{'' l
         in if CHR ''}'' \<notin> set r then None
         else let pkg_pin = dict_value (before_char CHR ''}'' r) ''PACKAGE_PIN'';
                  close = length l - length (after_char CHR ''}'' r) - 1
         in if pkg_pin = [] then None
         else case find_from ''get_ports'' l close of
                None \<Rightarrow> None
              | Some gp \<Rightarrow>
                  if CHR ''['' \<notin> set (take (gp + 1) l) then None
                  else if CHR '']'' \<notin> set (drop gp l) then None
                  else let port = trim_str (strip_wrap CHR ''{'' CHR ''}'' (trim_str (before_last CHR '']'' (drop (gp + 9) l))))
                       in if port = [] then None else Some (str_upper pkg_pin, port))"

text \<open>\<open>emplace\<close>: the first port of a pin stays.\<close>

definition emplace :: "string \<times> string \<Rightarrow> (string \<Rightarrow> string option) \<Rightarrow> (string \<Rightarrow> string option)" where
  "emplace kv m = (case m (fst kv) of None \<Rightarrow> m(fst kv \<mapsto> snd kv) | Some _ \<Rightarrow> m)"

fun xdc_lines :: "string list \<Rightarrow> (string \<Rightarrow> string option) \<Rightarrow> (string \<Rightarrow> string option)" where
  "xdc_lines [] m = m"
| "xdc_lines (l # ls) m = xdc_lines ls (case xdc_line l of None \<Rightarrow> m | Some kv \<Rightarrow> emplace kv m)"

definition parse_xdc :: "string option \<Rightarrow> (string \<Rightarrow> string option)" where
  "parse_xdc file = (case file of None \<Rightarrow> Map.empty | Some txt \<Rightarrow> xdc_lines (split_lines txt) Map.empty)"

section \<open>Constraint files\<close>

datatype xdc_item = Pin_At string string string | Xdc_Comment string | Timing string

definition item_text :: "xdc_item \<Rightarrow> string" where
  "item_text i =
     (case i of
        Pin_At pin std port \<Rightarrow> ''set_property -dict {PACKAGE_PIN '' @ pin @ '' IOSTANDARD '' @ std @ ''} [get_ports {'' @ port @ ''}]''
      | Xdc_Comment t \<Rightarrow> ''# '' @ t
      | Timing t \<Rightarrow> ''create_clock '' @ t)"

definition xdc_text :: "xdc_item list \<Rightarrow> string" where
  "xdc_text xs = concat (map (\<lambda>i. item_text i @ [newline]) xs)"

fun item_pin :: "xdc_item \<Rightarrow> (string \<times> string) option" where
  "item_pin (Pin_At pin std port) = Some (str_upper pin, port)"
| "item_pin (Xdc_Comment t) = None"
| "item_pin (Timing t) = None"

definition dict_word :: "string \<Rightarrow> bool" where
  "dict_word w \<longleftrightarrow> w \<noteq> [] \<and> list_all (\<lambda>c. \<not> is_space c \<and> c \<noteq> CHR ''{'' \<and> c \<noteq> CHR ''}'') w"

definition port_name_ok :: "string \<Rightarrow> bool" where
  "port_name_ok p \<longleftrightarrow> p \<noteq> [] \<and> \<not> is_space (hd p) \<and> \<not> is_space (last p) \<and> newline \<notin> set p"

fun item_ok :: "xdc_item \<Rightarrow> bool" where
  "item_ok (Pin_At pin std port) \<longleftrightarrow> dict_word pin \<and> dict_word std \<and> port_name_ok port"
| "item_ok (Xdc_Comment t) \<longleftrightarrow> newline \<notin> set t"
| "item_ok (Timing t) \<longleftrightarrow> newline \<notin> set t"

lemma first_at_prefix: "first_at p (p @ s) = Some 0"
proof -
  have "has_prefix p (p @ s)" by simp
  then show ?thesis by (cases "p @ s") auto
qed

lemma contains_middle: "str_contains p (a @ p @ s)"
proof -
  have "first_at p (a @ p @ s) \<noteq> None" by (induction a) (auto simp: first_at_prefix)
  then show ?thesis by (simp add: str_contains_def)
qed

lemma trim_str_Cons: "\<not> is_space c \<Longrightarrow> trim_str (c # s) = c # rev (dropWhile is_space (rev s))"
  by (simp add: trim_str_def) (induction s rule: rev_induct; simp)

lemma split_char: "c \<notin> set a \<Longrightarrow> before_char c (a @ c # b) = a \<and> after_char c (a @ c # b) = b"
  by (induction a) (auto simp: before_char_def after_char_def)

lemma dict_value_first:
  assumes "dict_word pin"
  shows "dict_value (''PACKAGE_PIN '' @ pin @ '' '' @ r) ''PACKAGE_PIN'' = pin"
proof -
  have f: "find_from ''PACKAGE_PIN'' (''PACKAGE_PIN '' @ pin @ '' '' @ r) 0 = Some 0"
    using first_at_prefix [of "''PACKAGE_PIN''" "'' '' @ pin @ '' '' @ r"] by (simp add: find_from_def)
  obtain c p where pin: "pin = c # p" using assms by (cases pin) (auto simp: dict_word_def)
  have w: "\<not> is_space c" "list_all (\<lambda>c. \<not> is_space c) pin" using assms pin by (auto simp: dict_word_def list_all_iff)
  have "dropWhile is_space ('' '' @ pin @ '' '' @ r) = pin @ '' '' @ r" using w(1) by (simp add: pin)
  moreover have "takeWhile (\<lambda>c. \<not> is_space c) (pin @ '' '' @ r) = pin"
    using w(2) by (simp add: takeWhile_append list_all_iff)
  ultimately show ?thesis using f unfolding dict_value_def by (subst dict_value_from.simps) simp
qed

lemma xdc_line_Some:
  assumes "trim_str l0 = l" and "hd l \<noteq> CHR ''#''" and "l \<noteq> []" and "has_prefix ''set_property'' l" and "str_contains ''PACKAGE_PIN'' l"
    and "str_contains ''get_ports'' l" and "CHR ''{'' \<in> set l" and "after_char CHR ''{'' l = r" and "CHR ''}'' \<in> set r"
    and "dict_value (before_char CHR ''}'' r) ''PACKAGE_PIN'' = pin" and "pin \<noteq> []"
    and "length l - length (after_char CHR ''}'' r) - 1 = close" and "find_from ''get_ports'' l close = Some gp"
    and "CHR ''['' \<in> set (take (gp + 1) l)" and "CHR '']'' \<in> set (drop gp l)"
    and "trim_str (before_last CHR '']'' (drop (gp + 9) l)) = e" and "trim_str (strip_wrap CHR ''{'' CHR ''}'' e) = port" and "port \<noteq> []"
  shows "xdc_line l0 = Some (str_upper pin, port)"
  unfolding xdc_line_def assms(1) Let_def assms(8) assms(10) assms(12) assms(13) option.case assms(16) assms(17)
  using assms by (simp only: if_False if_True de_Morgan_disj simp_thms)

lemma drop_length_append: "drop (length x) (x @ y) = y"
  by simp

lemma xdc_line_pin:
  assumes "dict_word pin" and "dict_word std" and "port_name_ok port"
  shows "xdc_line (item_text (Pin_At pin std port)) = Some (str_upper pin, port)"
proof -
  let ?a = "''set_property -dict ''" and ?rest = "'' [get_ports {'' @ port @ ''}]''"
  let ?body = "''PACKAGE_PIN '' @ pin @ '' '' @ ''IOSTANDARD '' @ std"
  let ?l = "?a @ CHR ''{'' # ?body @ CHR ''}'' # ?rest"
  have l: "item_text (Pin_At pin std port) = ?l" by (simp add: item_text_def)
  have trim: "trim_str ?l = ?l" by (intro trim_str_id) (simp_all add: is_space_def char_code_def)
  have nb: "CHR ''}'' \<notin> set ?body" using assms(1,2) by (auto simp: dict_word_def list_all_iff)
  have o: "after_char CHR ''{'' ?l = ?body @ CHR ''}'' # ?rest" using split_char [of "CHR ''{''" ?a] by simp
  note c = split_char [OF nb, of ?rest]
  have pp: "str_contains ''PACKAGE_PIN'' ?l"
    using contains_middle [of "''PACKAGE_PIN''" "?a @ ''{''" "'' '' @ pin @ '' IOSTANDARD '' @ std @ CHR ''}'' # ?rest"] by simp
  have gps: "str_contains ''get_ports'' ?l"
    using contains_middle [of "''get_ports''" "?a @ CHR ''{'' # ?body @ ''} [''" "'' {'' @ port @ ''}]''"] by simp
  have pre: "has_prefix ''set_property'' ?l" by (simp add: has_prefix_def)
  have dv: "dict_value ?body ''PACKAGE_PIN'' = pin" using dict_value_first [OF assms(1), of "''IOSTANDARD '' @ std"] by simp
  let ?close = "length (?a @ CHR ''{'' # ?body)"
  have cl: "length ?l - length ?rest - 1 = ?close" by simp
  have "?l = (?a @ CHR ''{'' # ?body) @ ''} ['' @ ''get_ports'' @ '' {'' @ port @ ''}]''" by simp
  then have dc: "drop ?close ?l = ''} ['' @ ''get_ports'' @ '' {'' @ port @ ''}]''" by (simp only: drop_length_append)
  have fa: "first_at ''get_ports'' (''} ['' @ ''get_ports'' @ '' {'' @ port @ ''}]'') = Some 3"
    using first_at_skip [of "''} [''" "CHR ''g''" "''et_ports''" "'' {'' @ port @ ''}]''"] by simp
  have gp: "find_from ''get_ports'' ?l ?close = Some (?close + 3)" unfolding find_from_def dc fa by simp
  have d3: "drop (?close + 3) ?l = ''get_ports {'' @ port @ ''}]''" by (simp only: drop_drop [symmetric] add.commute [of ?close] dc) simp
  have "drop 9 (drop (?close + 3) ?l) = '' {'' @ port @ ''}]''" unfolding d3 by simp
  then have d12: "drop (?close + 3 + 9) ?l = '' {'' @ port @ ''}]''" by (simp only: drop_drop add.commute)
  have t: "CHR ''['' \<in> set (take (?close + 3 + 1) ?l)" by (simp add: take_Cons')
  have bl: "before_last CHR '']'' ('' {'' @ port @ ''}]'') = '' {'' @ port @ ''}''" by (simp add: before_last_def)
  have p: "port \<noteq> []" "trim_str port = port" using assms(3) trim_str_id [of port] by (auto simp: port_name_ok_def)
  have tr: "trim_str ('' {'' @ port @ ''}'') = ''{'' @ port @ ''}''"
    by (simp add: trim_str_def is_space_def char_code_def)
  have sw: "strip_wrap CHR ''{'' CHR ''}'' (''{'' @ port @ ''}'') = port" using p by (simp add: strip_wrap_def)
  have pin: "pin \<noteq> []" using assms(1) by (simp add: dict_word_def)
  have cl2: "length ?l - length (after_char CHR ''}'' (?body @ CHR ''}'' # ?rest)) - 1 = ?close" using c by (simp only: cl)
  have dv2: "dict_value (before_char CHR ''}'' (?body @ CHR ''}'' # ?rest)) ''PACKAGE_PIN'' = pin" using c by (simp only: dv)
  have e: "trim_str (before_last CHR '']'' (drop (?close + 3 + 9) ?l)) = ''{'' @ port @ ''}''" by (simp only: d12 bl tr)
  have s2: "trim_str (strip_wrap CHR ''{'' CHR ''}'' (''{'' @ port @ ''}'')) = port" by (simp only: sw p(2))
  have m: "CHR '']'' \<in> set (drop (?close + 3) ?l)" unfolding d3 by simp
  show ?thesis unfolding l
    by (rule xdc_line_Some [OF trim _ _ pre pp gps _ o _ dv2 pin cl2 gp t m e s2 p(1)]) simp_all
qed


lemma xdc_line_item: "item_ok i \<Longrightarrow> xdc_line (item_text i) = item_pin i"
proof (cases i)
  case (Pin_At pin std port)
  assume "item_ok i"
  then show ?thesis using xdc_line_pin [of pin std port] Pin_At by simp
next
  case (Xdc_Comment t)
  then show ?thesis by (simp add: item_text_def xdc_line_def trim_str_Cons is_space_def char_code_def)
next
  case (Timing t)
  then show ?thesis by (simp add: item_text_def xdc_line_def trim_str_Cons is_space_def char_code_def has_prefix_def)
qed

lemma item_text_line: "item_ok i \<Longrightarrow> newline \<notin> set (item_text i)"
proof -
  have "is_space CHR 0x0A" by (simp add: is_space_def char_code_def)
  then have w: "CHR 0x0A \<notin> set w" if "dict_word w" for w
    using that unfolding dict_word_def list_all_iff by blast
  assume ok: "item_ok i"
  show ?thesis
  proof (cases i)
    case (Pin_At pin std port)
    then have "CHR 0x0A \<notin> set pin" "CHR 0x0A \<notin> set std" "CHR 0x0A \<notin> set port"
      using ok w [of pin] w [of std] by (simp_all add: port_name_ok_def newline_def)
    then show ?thesis using Pin_At by (simp add: item_text_def newline_def)
  qed (use ok in \<open>simp_all add: item_text_def newline_def\<close>)
qed

lemma split_xdc_text: "list_all item_ok xs \<Longrightarrow> split_lines (xdc_text xs) = map item_text xs"
proof (induction "xs")
  case (Cons i xs)
  then show ?case using split_lines_line [OF item_text_line [of i], of "xdc_text xs"] by (simp add: xdc_text_def)
qed (simp add: xdc_text_def)


definition demo_xdc :: "xdc_item list" where
  "demo_xdc = [Xdc_Comment ''LEDs'', Pin_At ''m14'' ''LVCMOS33'' ''led_out[0]'', Timing ''-period 8 [get_ports clk]'',
               Pin_At ''M14'' ''LVCMOS33'' ''spare'']"


text \<open>The last closing bracket of the line may be in a comment behind the constraint, which board files do have.\<close>

theorem comment_joins_port:
  "xdc_line ''set_property -dict { PACKAGE_PIN D19 IOSTANDARD LVCMOS33 } [get_ports { btn[0] }]; #IO_L4P Sch=btn[0]'' =
     Some (''D19'', ''{ btn[0] }]; #IO_L4P Sch=btn[0'')"
  by code_simp

end
