(* ===== verification/Executor_Bridge.thy ===== *)
theory Executor_Bridge
  imports Executor_Props
begin

text \<open>
  src/src/mcp/job_table.{h,cpp} and executor_bridge.{h,cpp}: the table that keeps jobs for later polls, and the calls by
  which the tool handlers give tasks to the executor and wait for them.  A handle in the table is the identifier of a job
  of the executor.  While \<open>submitSync\<close> waits, the other threads make any steps between two looks at the job; the clock
  readings are arguments.
\<close>

section \<open>The job table\<close>

type_synonym job_table = "string list"

definition jt_add :: "string \<Rightarrow> job_table \<Rightarrow> job_table" where
  "jt_add i t = (if i \<in> set t then t else t @ [i])"

definition jt_get :: "string \<Rightarrow> job_table \<Rightarrow> string option" where
  "jt_get i t = (if i \<in> set t then Some i else None)"

definition jt_remove :: "string \<Rightarrow> job_table \<Rightarrow> job_table" where
  "jt_remove i t = filter (\<lambda>k. k \<noteq> i) t"

definition jt_cleanup :: "(string \<Rightarrow> job_state option) \<Rightarrow> job_table \<Rightarrow> job_table" where
  "jt_cleanup st t = filter (\<lambda>i. case st i of Some s \<Rightarrow> \<not> terminal s | None \<Rightarrow> True) t"

definition jt_size :: "job_table \<Rightarrow> nat" where
  "jt_size t = length t"

section \<open>The bridge\<close>

record 'w bridge =
  eb_exec :: "'w executor"
  eb_table :: job_table

definition new_bridge :: "'w executor \<Rightarrow> 'w bridge" where
  "new_bridge x = \<lparr>eb_exec = x, eb_table = []\<rparr>"

definition job_id_answer :: "string \<Rightarrow> json" where
  "job_id_answer i = JObject [(''job_id'', JString i)]"

text \<open>\<open>submit\<close> and the entry in the table; nothing when the executor throws because it is not running.\<close>

definition bridge_submit :: "string \<Rightarrow> string \<Rightarrow> 'w hw_task \<Rightarrow> 'w bridge \<Rightarrow> 'w bridge option" where
  "bridge_submit i l task b = do {
     x \<leftarrow> submit_begin i l task (eb_exec b);
     y \<leftarrow> submit_end i x;
     Some (b\<lparr>eb_exec := y, eb_table := jt_add i (eb_table b)\<rparr>)
   }"

definition submit_async :: "string \<Rightarrow> string \<Rightarrow> 'w hw_task \<Rightarrow> 'w bridge \<Rightarrow> (json \<times> 'w bridge) option" where
  "submit_async i l task b = map_option (\<lambda>b1. (job_id_answer i, b1)) (bridge_submit i l task b)"

definition value_answer :: "json \<Rightarrow> json" where
  "value_answer v = (if v = JNull then JObject [] else v)"

definition exception_text :: "string \<Rightarrow> string" where
  "exception_text e = (if e = [] then ''hardware task failed'' else e)"

text \<open>One look of \<open>submitSync\<close> at its job: an answer, an exception with its text, or on.\<close>

definition sync_round :: "int \<Rightarrow> int \<Rightarrow> hw_job \<Rightarrow> (string + json) option" where
  "sync_round deadline now j =
     (case hj_state j of
        Complete \<Rightarrow> Some (Inr (value_answer (hj_result j)))
      | Failed \<Rightarrow> Some (Inl (exception_text (hj_error j)))
      | Cancelled \<Rightarrow> Some (Inl ''job was cancelled'')
      | _ \<Rightarrow> if deadline \<le> now then Some (Inr (job_id_answer (hj_id j))) else None)"

inductive sync_wait :: "'w hw_ops \<Rightarrow> string \<Rightarrow> int \<Rightarrow> 'w executor \<Rightarrow> string + json \<Rightarrow> 'w executor \<Rightarrow> bool" for H i deadline where
  sync_done: "ex_jobs x i = Some j \<Longrightarrow> sync_round deadline now j = Some r \<Longrightarrow> sync_wait H i deadline x r x"
| sync_next: "ex_jobs x i = Some j \<Longrightarrow> sync_round deadline now j = None \<Longrightarrow> reaches H x tr y \<Longrightarrow> sync_wait H i deadline y r z \<Longrightarrow>
     sync_wait H i deadline x r z"

inductive submit_sync ::
  "'w hw_ops \<Rightarrow> string \<Rightarrow> string \<Rightarrow> 'w hw_task \<Rightarrow> int \<Rightarrow> 'w bridge \<Rightarrow> string + json \<Rightarrow> 'w bridge \<Rightarrow> bool" for H where
  sync_submit: "bridge_submit i l task b = Some b1 \<Longrightarrow> sync_wait H i deadline (eb_exec b1) r y \<Longrightarrow>
     submit_sync H i l task deadline b r (b1\<lparr>eb_exec := y\<rparr>)"

definition not_found :: "string \<Rightarrow> json" where
  "not_found i = JObject [(''error'', JString ''not_found''), (''job_id'', JString i)]"

definition poll_job :: "string \<Rightarrow> 'w bridge \<Rightarrow> json" where
  "poll_job i b =
     (case Option.bind (jt_get i (eb_table b)) (ex_jobs (eb_exec b)) of None \<Rightarrow> not_found i | Some j \<Rightarrow> snapshot_json j)"

definition cancel_job :: "string \<Rightarrow> 'w bridge \<Rightarrow> json \<times> 'w bridge" where
  "cancel_job i b =
     (case jt_get i (eb_table b) of
        None \<Rightarrow> (not_found i, b)
      | Some k \<Rightarrow>
          (JObject [(''cancelled'', JBool True), (''job_id'', JString i)],
           b\<lparr>eb_exec := try_cancel i (set_job k (\<lambda>j. j\<lparr>hj_cancel := True\<rparr>) (eb_exec b))\<rparr>))"

section \<open>What a finished job says\<close>

fun submitted :: "'w label list \<Rightarrow> (string \<times> 'w hw_task) list" where
  "submitted [] = []"
| "submitted (Submit i l task # ls) = (i, task) # submitted ls"
| "submitted (_ # ls) = submitted ls"

lemma submitted_snoc: "submitted (tr @ [l]) = submitted tr @ (case l of Submit i lbl task \<Rightarrow> [(i, task)] | _ \<Rightarrow> [])"
  by (induction tr rule: submitted.induct) (auto split: label.splits)

definition in_hand :: "'w executor \<Rightarrow> (string \<times> 'w hw_task) list" where
  "in_hand x = ex_flight x @ ex_queue x @ (case ex_worker x of Holding i t \<Rightarrow> [(i, t)] | Working i t \<Rightarrow> [(i, t)] | _ \<Rightarrow> [])"

definition end_error :: "task_end \<Rightarrow> string option" where
  "end_error r = (case r of Returned _ \<Rightarrow> None | Threw e \<Rightarrow> Some e | Threw_Other \<Rightarrow> Some ''unknown exception in hardware task'')"

text \<open>A complete job holds what its task returned when the worker ran it, a failed one the error of that run, and only a job
  whose cancellation was requested is cancelled.\<close>

definition job_tells :: "'w hw_ops \<Rightarrow> 'w hw_task \<Rightarrow> hw_job \<Rightarrow> bool" where
  "job_tells H task j \<longleftrightarrow>
     (case hj_state j of
        Complete \<Rightarrow> \<exists>seen w w'. run_task H task seen w = (Returned (hj_result j), w')
      | Failed \<Rightarrow> \<exists>seen w w' r. run_task H task seen w = (r, w') \<and> end_error r = Some (hj_error j)
      | Cancelled \<Rightarrow> hj_cancel j
      | _ \<Rightarrow> True)"

definition log_ok :: "'w hw_ops \<Rightarrow> 'w label list \<Rightarrow> 'w executor \<Rightarrow> bool" where
  "log_ok H tr x \<longleftrightarrow>
     set (in_hand x) \<subseteq> set (submitted tr) \<and> distinct (map fst (submitted tr)) \<and>
     (\<forall>i. ex_jobs x i \<noteq> None \<longleftrightarrow> i \<in> fst ` set (submitted tr)) \<and>
     (\<forall>(i, task) \<in> set (submitted tr). \<exists>j. ex_jobs x i = Some j \<and> hj_id j = i \<and> job_tells H task j)"

lemma log_ok_new: "log_ok H [] (new_executor w)"
  by (simp add: log_ok_def new_executor_def in_hand_def)

text \<open>A step that leaves the jobs as they are.\<close>

lemma log_ok_same:
  assumes "log_ok H tr x" and "ex_jobs y = ex_jobs x" and "set (in_hand y) \<subseteq> set (in_hand x)" and "submitted tr' = submitted tr"
  shows "log_ok H tr' y"
  using assms by (auto simp: log_ok_def)

text \<open>A step that changes one job, of a task in hand.\<close>

lemma log_ok_change:
  assumes "log_ok H tr x" and "ex_jobs y = (\<lambda>k. if k = i then map_option f (ex_jobs x k) else ex_jobs x k)"
    and "set (in_hand y) \<subseteq> set (in_hand x)" and "submitted tr' = submitted tr"
    and "\<And>j task. ex_jobs x i = Some j \<Longrightarrow> (i, task) \<in> set (submitted tr) \<Longrightarrow> job_tells H task j \<Longrightarrow> hj_id (f j) = hj_id j \<and> job_tells H task (f j)"
  shows "log_ok H tr' y"
proof -
  have "\<exists>j. ex_jobs y k = Some j \<and> hj_id j = k \<and> job_tells H task j" if "(k, task) \<in> set (submitted tr)" for k task
  proof -
    have "\<exists>j. ex_jobs x k = Some j \<and> hj_id j = k \<and> job_tells H task j" using assms(1) that by (auto simp: log_ok_def)
    then obtain j where "ex_jobs x k = Some j" "hj_id j = k" "job_tells H task j" by blast
    then show ?thesis using assms(2,5) that by (cases "k = i") auto
  qed
  moreover have "ex_jobs y k \<noteq> None \<longleftrightarrow> ex_jobs x k \<noteq> None" for k using assms(2) by simp
  ultimately show ?thesis using assms(1,3,4) by (auto simp: log_ok_def)
qed

lemma task_unique: "log_ok H tr x \<Longrightarrow> (i, s) \<in> set (submitted tr) \<Longrightarrow> (i, t) \<in> set (submitted tr) \<Longrightarrow> s = t"
  by (auto simp: log_ok_def dest: eq_key_imp_eq_value)

lemma finish_job_as_change:
  "\<exists>f. (\<forall>x. ex_jobs (finish_job i r x) = (\<lambda>k. if k = i then map_option (f x) (ex_jobs x k) else ex_jobs x k)) \<and>
     (\<forall>x j. ex_jobs x i = Some j \<longrightarrow> hj_id (f x j) = hj_id j \<and>
        (case r of
           Returned v \<Rightarrow> if hj_cancel j then hj_state (f x j) = Cancelled \<and> hj_cancel (f x j) else hj_state (f x j) = Complete \<and> hj_result (f x j) = v
         | _ \<Rightarrow> hj_state (f x j) = Failed \<and> end_error r = Some (hj_error (f x j))))"
proof (cases r)
  case (Returned v)
  then show ?thesis
    by (intro exI [of _ "\<lambda>x j. if hj_cancel j then j\<lparr>hj_state := Cancelled\<rparr> else j\<lparr>hj_result := v, hj_state := Complete\<rparr>"])
      (auto simp: finish_job_def set_job_def job_cancelled_def fun_eq_iff split: option.splits)
next
  case (Threw e)
  then show ?thesis by (intro exI [of _ "\<lambda>x j. j\<lparr>hj_error := e, hj_state := Failed\<rparr>"]) (auto simp: finish_job_def set_job_def end_error_def)
next
  case Threw_Other
  then show ?thesis
    by (intro exI [of _ "\<lambda>x j. j\<lparr>hj_error := ''unknown exception in hardware task'', hj_state := Failed\<rparr>"])
      (auto simp: finish_job_def set_job_def end_error_def)
qed


lemma job_tells_same:
  "hj_state j' = hj_state j \<Longrightarrow> hj_result j' = hj_result j \<Longrightarrow> hj_error j' = hj_error j \<Longrightarrow> (hj_cancel j \<longrightarrow> hj_cancel j') \<Longrightarrow>
     job_tells H t j \<Longrightarrow> job_tells H t j'"
  by (auto simp: job_tells_def split: job_state.splits)

lemma log_ok_step:
  fixes H :: "'w hw_ops"
  assumes "log_ok H tr x" and "executor_ok x" and "exec_step H l x = Some y"
  shows "log_ok H (tr @ [l]) y"
proof (cases l)
  case (Submit i lbl task)
  then have n: "ex_jobs x i = None" and y: "y = x\<lparr>ex_jobs := (ex_jobs x)(i \<mapsto> new_job i lbl), ex_flight := ex_flight x @ [(i, task)]\<rparr>"
    using assms(3) by (auto simp: exec_step_def submit_begin_def split: if_splits)
  have i: "i \<notin> fst ` set (submitted tr)" using assms(1) n by (auto simp: log_ok_def)
  have "submitted (tr @ [l]) = submitted tr @ [(i, task)]" using Submit by (simp add: submitted_snoc)
  moreover have "set (in_hand y) = insert (i, task) (set (in_hand x))" by (auto simp: y in_hand_def)
  ultimately show ?thesis using assms(1) i unfolding log_ok_def
    by (auto simp: y new_job_def job_tells_def image_iff split: if_splits)
next
  case (Cancel i)
  then have y: "y = set_job i (\<lambda>j. j\<lparr>hj_cancel := True\<rparr>) x" using assms(3) by (simp add: exec_step_def try_cancel_def)
  show ?thesis
    by (rule log_ok_change [OF assms(1), of y i "\<lambda>j. j\<lparr>hj_cancel := True\<rparr>"])
      (auto simp: y set_job_def in_hand_def submitted_snoc Cancel intro: job_tells_same)
next
  case (Progress p)
  then obtain i task where "ex_worker x = Working i task" and y: "y = set_job i (\<lambda>j. j\<lparr>hj_progress := p\<rparr>) x"
    using assms(3) by (auto simp: exec_step_def worker_progress_def split: worker.splits)
  show ?thesis
    by (rule log_ok_change [OF assms(1), of y i "\<lambda>j. j\<lparr>hj_progress := p\<rparr>"])
      (auto simp: y set_job_def in_hand_def submitted_snoc Progress intro: job_tells_same)
next
  case Check
  then obtain i task where i: "ex_worker x = Holding i task"
    "y = (if job_cancelled i x then (set_job i (\<lambda>j. j\<lparr>hj_state := Cancelled\<rparr>) x)\<lparr>ex_worker := Waiting\<rparr>
          else (set_job i (\<lambda>j. j\<lparr>hj_state := Running\<rparr>) x)\<lparr>ex_worker := Working i task\<rparr>)"
    using assms(3) by (auto simp: exec_step_def worker_check_def split: worker.splits)
  let ?f = "\<lambda>j. j\<lparr>hj_state := if job_cancelled i x then Cancelled else Running\<rparr>"
  show ?thesis
  proof (rule log_ok_change [OF assms(1), of y i ?f])
    show "ex_jobs y = (\<lambda>k. if k = i then map_option ?f (ex_jobs x k) else ex_jobs x k)" by (simp add: i(2) set_job_def)
    show "set (in_hand y) \<subseteq> set (in_hand x)" by (auto simp: i in_hand_def set_job_def)
    show "submitted (tr @ [l]) = submitted tr" by (simp add: submitted_snoc Check)
    show "hj_id (?f j) = hj_id j \<and> job_tells H t (?f j)" if "ex_jobs x i = Some j" for j t
      using that by (simp add: job_tells_def job_cancelled_def)
  qed
next
  case (Work seen)
  then obtain i task r w where i: "ex_worker x = Working i task" "run_task H task seen (ex_world x) = (r, w)"
    "y = (finish_job i r (x\<lparr>ex_world := w\<rparr>))\<lparr>ex_worker := Waiting\<rparr>"
    using assms(3) by (auto simp: exec_step_def worker_work_def split: worker.splits if_splits prod.splits)
  obtain f where f: "\<And>x :: 'w executor. ex_jobs (finish_job i r x) = (\<lambda>k. if k = i then map_option (f x) (ex_jobs x k) else ex_jobs x k)"
    "\<And>(x :: 'w executor) j. ex_jobs x i = Some j \<Longrightarrow> hj_id (f x j) = hj_id j \<and>
        (case r of
           Returned v \<Rightarrow> if hj_cancel j then hj_state (f x j) = Cancelled \<and> hj_cancel (f x j) else hj_state (f x j) = Complete \<and> hj_result (f x j) = v
         | _ \<Rightarrow> hj_state (f x j) = Failed \<and> end_error r = Some (hj_error (f x j)))"
    using finish_job_as_change [of i r] by blast
  let ?x = "x\<lparr>ex_world := w\<rparr>"
  show ?thesis
  proof (rule log_ok_change [OF assms(1), of y i "f ?x"])
    show "ex_jobs y = (\<lambda>k. if k = i then map_option (f ?x) (ex_jobs x k) else ex_jobs x k)" using f(1) [of ?x] by (simp add: i(3) fun_eq_iff)
    show "set (in_hand y) \<subseteq> set (in_hand x)" by (auto simp: i in_hand_def)
    show "submitted (tr @ [l]) = submitted tr" by (simp add: submitted_snoc Work)
    fix j t assume j: "ex_jobs x i = Some j" and t: "(i, t) \<in> set (submitted tr)"
    have "(i, task) \<in> set (submitted tr)" using assms(1) i(1) by (auto simp: log_ok_def in_hand_def)
    then have "t = task" using task_unique [OF assms(1) t] by blast
    then show "hj_id (f ?x j) = hj_id j \<and> job_tells H t (f ?x j)"
      using f(2) [of ?x j] j i(2) by (cases r) (auto simp: job_tells_def split: if_splits)
  qed
next
  case (Enqueue i)
  then obtain e es where e: "filter (\<lambda>e. fst e = i) (ex_flight x) = e # es"
    "y = x\<lparr>ex_flight := filter (\<lambda>e. fst e \<noteq> i) (ex_flight x), ex_queue := ex_queue x @ [e]\<rparr>"
    using assms(3) by (auto simp: exec_step_def submit_end_def split: list.splits)
  have "e \<in> set (filter (\<lambda>e. fst e = i) (ex_flight x))" unfolding e(1) by simp
  then have "set (in_hand y) \<subseteq> set (in_hand x)" by (auto simp: e(2) in_hand_def)
  then show ?thesis by (rule log_ok_same [OF assms(1), rotated]) (simp_all add: e(2) submitted_snoc Enqueue)
next
  case Start_Worker
  then have "ex_jobs y = ex_jobs x" "set (in_hand y) \<subseteq> set (in_hand x)"
    using assms(3) by (auto simp: exec_step_def start_worker_def in_hand_def split: if_splits)
  then show ?thesis by (rule log_ok_same [OF assms(1)]) (simp add: submitted_snoc Start_Worker)
next
  case Wake
  then have "ex_jobs y = ex_jobs x" "set (in_hand y) \<subseteq> set (in_hand x)"
    using assms(3) by (auto simp: exec_step_def worker_wake_def in_hand_def split: if_splits list.splits)
  then show ?thesis by (rule log_ok_same [OF assms(1)]) (simp add: submitted_snoc Wake)
next
  case Timeout
  then have "ex_jobs y = ex_jobs x" "set (in_hand y) \<subseteq> set (in_hand x)"
    using assms(3) by (auto simp: exec_step_def worker_timeout_def in_hand_def split: if_splits)
  then show ?thesis by (rule log_ok_same [OF assms(1)]) (simp add: submitted_snoc Timeout)
next
  case Shutdown
  then have "ex_jobs y = ex_jobs x" "set (in_hand y) \<subseteq> set (in_hand x)"
    using assms(3) by (auto simp: exec_step_def shutdown_begin_def in_hand_def split: if_splits)
  then show ?thesis by (rule log_ok_same [OF assms(1)]) (simp add: submitted_snoc Shutdown)
next
  case Join
  then have "ex_jobs y = ex_jobs x" "set (in_hand y) \<subseteq> set (in_hand x)"
    using assms(3) by (auto simp: exec_step_def shutdown_join_def in_hand_def split: if_splits)
  then show ?thesis by (rule log_ok_same [OF assms(1)]) (simp add: submitted_snoc Join)
qed

lemma log_ok_reaches:
  assumes "reaches H x ls y" and "executor_ok x" and "log_ok H tr x"
  shows "log_ok H (tr @ ls) y"
  using assms
proof (induction rule: reaches.induct)
  case (reaches_step ls y l z)
  then have "executor_ok y" by (auto intro: reaches_ok)
  with reaches_step show ?case using log_ok_step [of H "tr @ ls" y l z] by simp
qed simp

lemma submitted_append: "submitted (tr @ ls) = submitted tr @ submitted ls"
  by (induction tr rule: submitted.induct) auto

section \<open>What a client is told\<close>

text \<open>The answer to a synchronous call tells the truth about its task.\<close>

definition answer_tells :: "'w hw_ops \<Rightarrow> string \<Rightarrow> 'w hw_task \<Rightarrow> string + json \<Rightarrow> bool" where
  "answer_tells H i task r \<longleftrightarrow>
     (case r of
        Inr v \<Rightarrow> v = job_id_answer i \<or>
          (\<exists>seen w w' u. run_task H task seen w = (Returned u, w') \<and> v = value_answer u)
      | Inl e \<Rightarrow> e = ''job was cancelled'' \<or>
          (\<exists>seen w w' t e1. run_task H task seen w = (t, w') \<and> end_error t = Some e1 \<and> e = exception_text e1))"

lemma sync_round_tells:
  assumes "job_tells H task j" and "hj_id j = i" and "sync_round deadline now j = Some r"
  shows "answer_tells H i task r"
proof (cases "hj_state j")
  case Complete
  then have "r = Inr (value_answer (hj_result j))" using assms(3) by (simp add: sync_round_def)
  then show ?thesis using assms(1) Complete by (auto simp: job_tells_def answer_tells_def)
next
  case Failed
  then have "r = Inl (exception_text (hj_error j))" using assms(3) by (simp add: sync_round_def)
  moreover obtain seen w w' t where "run_task H task seen w = (t, w')" "end_error t = Some (hj_error j)"
    using assms(1) Failed by (auto simp: job_tells_def)
  ultimately show ?thesis unfolding answer_tells_def by (simp only: sum.case) blast
qed (use assms in \<open>auto simp: sync_round_def answer_tells_def split: if_splits\<close>)

lemma sync_wait_tells:
  assumes "sync_wait H i deadline x r y" and "executor_ok x" and "log_ok H tr x" and "(i, task) \<in> set (submitted tr)"
  shows "answer_tells H i task r"
  using assms
proof (induction arbitrary: tr rule: sync_wait.induct)
  case (sync_done x j now r)
  then have "hj_id j = i \<and> job_tells H task j" by (fastforce simp: log_ok_def)
  then show ?case using sync_done sync_round_tells by blast
next
  case (sync_next x j now ls y r z)
  have "executor_ok y" using sync_next.hyps(3) sync_next.prems(1) by (rule reaches_ok)
  moreover have "log_ok H (tr @ ls) y" by (rule log_ok_reaches [OF sync_next.hyps(3) sync_next.prems(1,2)])
  moreover have "(i, task) \<in> set (submitted (tr @ ls))" using sync_next.prems(3) by (simp add: submitted_append)
  ultimately show ?case by (rule sync_next.IH)
qed


definition ready :: "unit executor" where
  "ready = start_worker (new_executor ())"


text \<open>A call that waits ends as soon as its job does, or when the time is over.\<close>

lemma sync_round_ends: "terminal (hj_state j) \<or> deadline \<le> now \<Longrightarrow> \<exists>r. sync_round deadline now j = Some r"
  by (cases "hj_state j") (auto simp: sync_round_def terminal_def)

text \<open>The table: jobs stay in it until they are removed, and a cleanup removes those that are terminal.\<close>

lemma job_table_facts:
  "jt_get i (jt_add i t) = Some i" "k \<noteq> i \<Longrightarrow> jt_get k (jt_add i t) = jt_get k t" "jt_get i (jt_remove i t) = None"
  "k \<noteq> i \<Longrightarrow> jt_get k (jt_remove i t) = jt_get k t"
  "st i = Some s \<Longrightarrow> jt_get i (jt_cleanup st t) = (if terminal s then None else jt_get i t)"
  by (auto simp: jt_get_def jt_add_def jt_remove_def jt_cleanup_def)

section \<open>What goes wrong\<close>

text \<open>A cancellation is reported as done for a job that is over, and leaves it as it was but for the flag.\<close>

theorem finished_job_reported_cancelled:
  assumes "i \<in> set (eb_table b)" and "ex_jobs (eb_exec b) i = Some j" and "hj_state j = Complete"
  shows "fst (cancel_job i b) = JObject [(''cancelled'', JBool True), (''job_id'', JString i)]"
    and "poll_job i (snd (cancel_job i b)) = snapshot_json j"
  using assms by (auto simp: cancel_job_def poll_job_def jt_get_def try_cancel_def set_job_def snapshot_json_def)

end
