(* ===== verification/Hardware_Context.thy ===== *)
theory Hardware_Context
  imports App_Config Ftdi Scanner Pin_Driver Pl_Config
begin

text \<open>
  \<open>HardwareContext\<close> (src/src/hardware/hardware_context.{h,cpp}): the probe, the chain on it, and the objects that are made for
  a device when they are first asked for.  The probe is the bottom of the chain (\<open>tap_dev\<close>).  A step of a hardware task
  has no result where the code runs into undefined behaviour, and otherwise a value or the text of an exception.
\<close>

section \<open>Steps\<close>

record 'd hw_context =
  cx_chain :: "'d chain"
  cx_scanners :: "int \<Rightarrow> scanner option"
  cx_drivers :: "int \<Rightarrow> pin_driver option"
  cx_pls :: "int \<Rightarrow> pl_config option"

type_synonym ('a, 'd) hw_step = "'d hw_context \<Rightarrow> ((string + 'a) \<times> 'd hw_context) option"

definition step_return :: "'a \<Rightarrow> ('a, 'd) hw_step" where
  "step_return v cx = Some (Inr v, cx)"

definition step_throw :: "string \<Rightarrow> ('a, 'd) hw_step" where
  "step_throw e cx = Some (Inl e, cx)"

definition step_bind :: "('a, 'd) hw_step \<Rightarrow> ('a \<Rightarrow> ('b, 'd) hw_step) \<Rightarrow> ('b, 'd) hw_step" where
  "step_bind m f cx =
     (case m cx of
        None \<Rightarrow> None
      | Some (Inl e, cx1) \<Rightarrow> Some (Inl e, cx1)
      | Some (Inr v, cx1) \<Rightarrow> f v cx1)"

text \<open>Operations on the chain and on an object of a device, whose new state is stored.\<close>

definition on_chain :: "('d chain \<Rightarrow> ('a \<times> 'd chain) option) \<Rightarrow> ('a, 'd) hw_step" where
  "on_chain f cx = map_option (\<lambda>(v, c). (Inr v, cx\<lparr>cx_chain := c\<rparr>)) (f (cx_chain cx))"

definition on_scanner :: "int \<Rightarrow> (scanner \<Rightarrow> 'd chain \<Rightarrow> ('a \<times> scanner \<times> 'd chain) option) \<Rightarrow> scanner \<Rightarrow> ('a, 'd) hw_step" where
  "on_scanner i f s cx =
     map_option (\<lambda>(v, s1, c). (Inr v, cx\<lparr>cx_chain := c, cx_scanners := (cx_scanners cx)(i \<mapsto> s1)\<rparr>)) (f s (cx_chain cx))"

definition on_driver :: "int \<Rightarrow> (pin_driver \<Rightarrow> 'd chain \<Rightarrow> ('a \<times> pin_driver \<times> 'd chain) option) \<Rightarrow> pin_driver \<Rightarrow> ('a, 'd) hw_step" where
  "on_driver i f p cx =
     map_option (\<lambda>(v, p1, c). (Inr v, cx\<lparr>cx_chain := c, cx_drivers := (cx_drivers cx)(i \<mapsto> p1)\<rparr>)) (f p (cx_chain cx))"

section \<open>The context\<close>

definition new_context :: "'d chain \<Rightarrow> 'd hw_context" where
  "new_context c = \<lparr>cx_chain = c, cx_scanners = Map.empty, cx_drivers = Map.empty, cx_pls = Map.empty\<rparr>"

definition reset_device_objects :: "'d hw_context \<Rightarrow> 'd hw_context" where
  "reset_device_objects cx = cx\<lparr>cx_scanners := Map.empty, cx_drivers := Map.empty, cx_pls := Map.empty\<rparr>"

definition cx_probe :: "'d hw_context \<Rightarrow> 'd" where
  "cx_probe cx = tap_dev (jc_tap (cx_chain cx))"

definition set_probe :: "'d \<Rightarrow> 'd hw_context \<Rightarrow> 'd hw_context" where
  "set_probe d cx = cx\<lparr>cx_chain := (cx_chain cx)\<lparr>jc_tap := (jc_tap (cx_chain cx))\<lparr>tap_dev := d\<rparr>\<rparr>\<rparr>"

text \<open>The error text, empty on success.\<close>

definition context_open :: "'h ftdi_lib \<Rightarrow> app_config \<Rightarrow> 'h ftdi hw_context \<Rightarrow> (string \<times> 'h ftdi hw_context) option" where
  "context_open P cfg cx =
     (if fd_open (cx_probe cx) then Some ([], cx)
      else case ftdi_open P (ac_vendor_id cfg) (ac_product_id cfg) (ac_serial cfg) (nat (ac_interface_channel cfg)) (cx_probe cx) of
             (ok, d) \<Rightarrow>
               if \<not> ok then Some (fd_error d, set_probe d cx)
               else (case init_mpsse P (ac_clock_freq_hz cfg) d of
                       None \<Rightarrow> None
                     | Some (ok2, d2) \<Rightarrow>
                         if \<not> ok2 then Some (fd_error d2, set_probe (ftdi_close P d2) cx)
                         else Some ([], set_probe d2 cx)))"

definition context_close :: "'h ftdi_lib \<Rightarrow> 'h ftdi hw_context \<Rightarrow> 'h ftdi hw_context" where
  "context_close P cx = (let cx1 = reset_device_objects cx in set_probe (ftdi_close P (cx_probe cx1)) cx1)"

definition context_is_open :: "'h ftdi hw_context \<Rightarrow> bool" where
  "context_is_open cx = fd_open (cx_probe cx)"

definition get_scanner :: "int \<Rightarrow> (scanner, 'd) hw_step" where
  "get_scanner i cx =
     (case cx_scanners cx i of
        Some s \<Rightarrow> Some (Inr s, cx)
      | None \<Rightarrow>
          if \<not> valid_index (cx_chain cx) i then Some (Inl ''scanner: device_index out of range'', cx)
          else let s = \<lparr>sc_index = i, sc_filter = [], sc_error = []\<rparr>
               in Some (Inr s, cx\<lparr>cx_scanners := (cx_scanners cx)(i \<mapsto> s)\<rparr>))"

definition get_pin_driver :: "'d link \<Rightarrow> int \<Rightarrow> (pin_driver, 'd) hw_step" where
  "get_pin_driver L i cx =
     (case cx_drivers cx i of
        Some p \<Rightarrow> Some (Inr p, cx)
      | None \<Rightarrow>
          if \<not> valid_index (cx_chain cx) i then Some (Inl ''pinDriver: device_index out of range'', cx)
          else map_option (\<lambda>(p, c). (Inr p, cx\<lparr>cx_chain := c, cx_drivers := (cx_drivers cx)(i \<mapsto> p)\<rparr>))
                 (pin_driver_new L i (cx_chain cx)))"

definition get_pl_config :: "int \<Rightarrow> (pl_config, 'd) hw_step" where
  "get_pl_config i cx =
     (case cx_pls cx i of
        Some p \<Rightarrow> Some (Inr p, cx)
      | None \<Rightarrow>
          if \<not> valid_index (cx_chain cx) i then Some (Inl ''plConfig: device_index out of range'', cx)
          else let p = \<lparr>pg_index = i, pg_error = []\<rparr>
               in Some (Inr p, cx\<lparr>cx_pls := (cx_pls cx)(i \<mapsto> p)\<rparr>))"

section \<open>Lemmas\<close>

lemma set_probe_probe [simp]: "cx_probe (set_probe d cx) = d"
  by (simp add: cx_probe_def set_probe_def)

lemma ftdi_close_closed [simp]: "\<not> fd_open (ftdi_close P d)"
  by (simp add: ftdi_close_def)

text \<open>Closing forgets the objects of the devices and leaves the probe closed; opening an open probe changes nothing.\<close>

lemma context_close_forgets:
  "\<not> context_is_open (context_close P cx) \<and> cx_scanners (context_close P cx) = Map.empty \<and>
   cx_drivers (context_close P cx) = Map.empty \<and> cx_pls (context_close P cx) = Map.empty"
  by (simp add: context_is_open_def context_close_def Let_def) (simp add: set_probe_def reset_device_objects_def)

lemma context_open_again: "context_is_open cx \<Longrightarrow> context_open P cfg cx = Some ([], cx)"
  by (simp add: context_is_open_def context_open_def)

end
