(* ===== verification/Mcp_Tools.thy ===== *)
theory Mcp_Tools
  imports Hardware_Context Capture_Session Script_Engine Ila_Driver Executor_Bridge Tool_Registry
    "HOL-Library.Char_ord" "HOL-Library.List_Lexorder"
begin

text \<open>
  The tools of src/src/mcp/tools/register_tools.cpp: what each does with its arguments, and the task that it gives to the
  executor.  A task is a step of the hardware context; it has no result where the code is undefined, and where the readings
  of the clock that it is given end before it does.  The progress reports of a task are not modelled.  Members of a JSON
  object are in the order of their names, as the library keeps them.
\<close>

section \<open>Results as JSON\<close>

definition idcode_str :: "u32 \<Rightarrow> string" where
  "idcode_str i = ''0x'' @ hex_fmt 8 (unat i)"

definition pin_state_str :: "pin_state \<Rightarrow> json" where
  "pin_state_str s = JString (case s of Ps_LOW \<Rightarrow> ''low'' | Ps_HIGH \<Rightarrow> ''high'' | Ps_UNKNOWN \<Rightarrow> ''unknown'')"

definition scan_result_json :: "scan_result \<Rightarrow> json" where
  "scan_result_json r = JObject (map (\<lambda>n. (n, pin_state_str (sr_get_pin r n))) (sorted_list_of_set (dom (sr_pin_states r))))"

definition raw_bsr_json :: "byte list \<Rightarrow> json" where
  "raw_bsr_json raw = JArray (map (\<lambda>b. JInt (uint b)) raw)"

definition samples_json :: "sample_frame list \<Rightarrow> json" where
  "samples_json fs = JArray (map (\<lambda>f. JObject [(''pins'', scan_result_json (sf_data f)), (''raw_bsr'', raw_bsr_json (sr_raw_bsr (sf_data f))),
     (''timestamp_us'', JInt (sf_timestamp f)), (''trigger_point'', JBool (sf_trigger_point f))]) fs)"

section \<open>Devices and pins\<close>

type_synonym 'd task = "(json, 'd) hw_step"

definition device_json :: "chain_device \<Rightarrow> (string \<times> json) list" where
  "device_json dev =
     [(''idcode'', JString (idcode_str (cd_idcode dev))), (''ir_length'', JInt (int (cd_ir_length dev))), (''position'', JInt (cd_position dev))]"

definition loaded_json :: "chain_device \<Rightarrow> (string \<times> json) list" where
  "loaded_json dev = (''bsdl_loaded'', JBool (cd_bsdl dev \<noteq> None)) # device_json dev"

definition device_answer :: "nat \<Rightarrow> (chain_device \<Rightarrow> (string \<times> json) list) \<Rightarrow> 'd chain \<Rightarrow> json" where
  "device_answer n f c =
     JObject [(''device_count'', JInt (int n)), (''devices'', JArray (map (\<lambda>d. JObject (f d)) (jc_devices c)))]"

definition detect_task :: "'d link \<Rightarrow> (chain_device \<Rightarrow> (string \<times> json) list) \<Rightarrow> 'd task" where
  "detect_task L f =
     step_bind (on_chain (detect_devices L)) (\<lambda>n cx.
       let cx1 = reset_device_objects cx in step_return (device_answer n f (cx_chain cx1)) cx1)"

definition read_idcode_task :: "'d link \<Rightarrow> 'd task" where
  "read_idcode_task L = detect_task L device_json"

definition detect_devices_task :: "'d link \<Rightarrow> 'd task" where
  "detect_devices_task L = detect_task L loaded_json"

definition load_bsdl_task :: "(string \<Rightarrow> string + bsdl_device) \<Rightarrow> int \<Rightarrow> string \<Rightarrow> 'd task" where
  "load_bsdl_task parse_file i path cx =
     (case load_bsdl parse_file i path (cx_chain cx) of
        (ok, c) \<Rightarrow>
          let cx1 = cx\<lparr>cx_chain := c\<rparr>
          in if \<not> ok then step_throw (jc_error c) cx1
             else step_return (JObject [(''bsdl_path'', JString path), (''device_index'', JInt i),
                    (''entity'', JString (case cd_bsdl (jc_devices c ! nat i) of None \<Rightarrow> [] | Some d \<Rightarrow> bd_entity_name d)), (''ok'', JBool True)]) cx1)"

definition listed_json :: "chain_device \<Rightarrow> (string \<times> json) list" where
  "listed_json dev =
     (''bsdl_loaded'', JBool (cd_bsdl dev \<noteq> None)) #
     (case cd_bsdl dev of None \<Rightarrow> [] | Some d \<Rightarrow> [(''entity'', JString (bd_entity_name d))]) @ device_json dev"

definition list_devices_task :: "'d task" where
  "list_devices_task cx = step_return (device_answer (length (jc_devices (cx_chain cx))) listed_json (cx_chain cx)) cx"

definition list_pins_task :: "int \<Rightarrow> 'd task" where
  "list_pins_task i =
     step_bind (get_scanner i) (\<lambda>s cx.
       step_return (JObject [(''device_index'', JInt i), (''drivable'', JArray (map JString (get_drivable_pins s (cx_chain cx)))),
         (''observable'', JArray (map JString (get_observable_pins s (cx_chain cx))))]) cx)"

text \<open>A sample, or the last error of the scanner.\<close>

definition sample_step :: "'d link \<Rightarrow> int \<Rightarrow> scanner \<Rightarrow> (scan_result, 'd) hw_step" where
  "sample_step L i s =
     step_bind (on_scanner i (\<lambda>s c. map_option (\<lambda>(r, s1, c1). ((r, sc_error s1), s1, c1)) (scanner_sample L s c)) s)
       (\<lambda>(r, e). if e \<noteq> [] then step_throw e else step_return r)"

definition read_pin_task :: "'d link \<Rightarrow> int \<Rightarrow> string \<Rightarrow> 'd task" where
  "read_pin_task L i pin_name =
     step_bind (get_scanner i) (\<lambda>s. step_bind (sample_step L i s) (\<lambda>r.
       step_return (JObject [(''device_index'', JInt i), (''pin_name'', JString pin_name), (''state'', pin_state_str (sr_get_pin r pin_name))])))"

text \<open>An operation of the pin driver, or its last error.\<close>

definition driver_step ::
  "int \<Rightarrow> (pin_driver \<Rightarrow> 'd chain \<Rightarrow> (bool \<times> pin_driver \<times> 'd chain) option) \<Rightarrow> pin_driver \<Rightarrow> (pin_driver, 'd) hw_step" where
  "driver_step i f p =
     step_bind (on_driver i (\<lambda>p c. map_option (\<lambda>(ok, p1, c1). ((ok, p1), p1, c1)) (f p c)) p)
       (\<lambda>(ok, p1). if ok then step_return p1 else step_throw (pd_error p1))"

definition set_pin_task :: "'d link \<Rightarrow> int \<Rightarrow> string \<Rightarrow> int \<Rightarrow> 'd task" where
  "set_pin_task L i pin_name v =
     step_bind (get_pin_driver L i) (\<lambda>p.
     step_bind (driver_step i (if v < 0 then set_pin_high_z L pin_name else set_pin L pin_name v) p) (\<lambda>p1.
     step_bind (driver_step i (apply_outputs L) p1) (\<lambda>_.
       step_return (JObject [(''device_index'', JInt i), (''ok'', JBool True), (''pin_name'', JString pin_name), (''value'', JInt v)]))))"

section \<open>Capture, scripts and bitstreams\<close>

text \<open>The loop over the ticks; a pass has the cancel flag and two readings of the clock.\<close>

fun capture_loop :: "'d link \<Rightarrow> (bool \<times> int \<times> int) list \<Rightarrow> 'd session \<Rightarrow> 'd session option" where
  "capture_loop L obs s =
     (if ss_state s = Cs_COMPLETE \<or> ss_state s = Cs_STOPPED then Some s
      else case obs of
             [] \<Rightarrow> None
           | (cancel, now, stamp) # rest \<Rightarrow>
               if cancel then Some (session_stop s)
               else (case session_tick L now stamp s of None \<Rightarrow> None | Some (_, s1) \<Rightarrow> capture_loop L rest s1))"

declare capture_loop.simps [simp del]

definition capture_task ::
  "'d link \<Rightarrow> int \<Rightarrow> (bool \<times> int \<times> int) list \<Rightarrow> int \<Rightarrow> nat \<Rightarrow> u32 \<Rightarrow> trigger_mode \<Rightarrow> string list \<Rightarrow> 'd task" where
  "capture_task L t0 obs i depth interval mode pin_filter =
     step_bind (get_scanner i) (\<lambda>s cx.
       let s0 = new_session (set_decode_filter pin_filter s) (cx_chain cx);
           s1 = session_set_interval interval (session_set_depth depth s0);
           s2 = session_start t0 (s1\<lparr>ss_trigger := set_mode mode (ss_trigger s1)\<rparr>)
       in case capture_loop L obs s2 of
            None \<Rightarrow> None
          | Some s3 \<Rightarrow>
              let cx1 = cx\<lparr>cx_chain := ss_chain s3, cx_scanners := (cx_scanners cx)(i \<mapsto> ss_scanner s3)\<rparr>
              in if ss_error s3 \<noteq> [] then step_throw (ss_error s3) cx1
                 else (case session_samples s3 of
                         None \<Rightarrow> None
                       | Some fs \<Rightarrow> step_return (JObject [(''device_index'', JInt i), (''sample_count'', JInt (int (ss_count s3))),
                                      (''samples'', samples_json fs)]) cx1))"

text \<open>The host of scripts: the scanner and the pin driver of one device.  Its state is the context, or nothing after
  undefined behaviour.\<close>

definition host_step :: "('a, 'd) hw_step \<Rightarrow> 'd hw_context option \<Rightarrow> (string + 'a) \<times> 'd hw_context option" where
  "host_step m h = (case Option.bind h m of None \<Rightarrow> (Inl [], None) | Some (r, cx) \<Rightarrow> (r, Some cx))"

definition on_device_driver ::
  "'d link \<Rightarrow> int \<Rightarrow> (pin_driver \<Rightarrow> 'd chain \<Rightarrow> (bool \<times> pin_driver \<times> 'd chain) option) \<Rightarrow> (unit, 'd) hw_step" where
  "on_device_driver L i f =
     step_bind (get_pin_driver L i) (\<lambda>p. step_bind (driver_step i f p) (\<lambda>_. step_return ()))"

definition mcp_script_host :: "'d link \<Rightarrow> int \<Rightarrow> 'd hw_context option script_host" where
  "mcp_script_host L i =
     \<lparr>sh_sample = host_step (step_bind (get_scanner i) (sample_step L i)),
      sh_set_pin = (\<lambda>pin v. host_step (on_device_driver L i (set_pin L pin v))),
      sh_set_high_z = (\<lambda>pin. host_step (on_device_driver L i (set_pin_high_z L pin))),
      sh_apply = host_step (on_device_driver L i (apply_outputs L)),
      sh_reset_safe = (\<lambda>h. snd (host_step (on_device_driver L i (\<lambda>p c. Some (True, reset_to_safe c p, c))) h)),
      sh_sleep = (\<lambda>ms h. (Inr (), h))\<rparr>"

definition run_script_task :: "'d link \<Rightarrow> int \<Rightarrow> string \<Rightarrow> 'd task" where
  "run_script_task L i script =
     step_bind (get_scanner i) (\<lambda>_. step_bind (get_pin_driver L i) (\<lambda>_ cx.
       case script_run (mcp_script_host L i) script (Some cx) of
         (r, None) \<Rightarrow> None
       | (r, Some cx1) \<Rightarrow>
           step_return (JObject [(''failed_expects'', JInt (sr_failed_expects r)), (''failed_line'', JInt (sr_failed_line r)),
             (''output'', JString (sr_output r)), (''success'', JBool (sr_success r)), (''total_expects'', JInt (sr_total_expects r))]) cx1))"

definition program_task :: "'d link \<Rightarrow> (string \<Rightarrow> byte list option) \<Rightarrow> int \<Rightarrow> string \<Rightarrow> 'd task" where
  "program_task L file i path =
     step_bind (get_pl_config i) (\<lambda>p cx.
       case pl_program L path (file path) p (cx_chain cx) of
         None \<Rightarrow> None
       | Some (ok, p1, c1, ev) \<Rightarrow>
           let cx1 = cx\<lparr>cx_chain := c1, cx_pls := (cx_pls cx)(i \<mapsto> p1)\<rparr>
           in if \<not> ok then step_throw ''program_bitstream failed'' cx1
              else step_return (JObject [(''bitstream_path'', JString path), (''ok'', JBool True)]) cx1)"

section \<open>The logic analyser\<close>

text \<open>The body of \<open>read_ila_status\<close> over a backend, which it leaves behind.\<close>

definition ila_status_body :: "'b ila_tap_ops \<Rightarrow> 'b \<Rightarrow> ((string + json) \<times> 'b) option" where
  "ila_status_body T b = do {
     (c, d1) \<leftarrow> probe T (new_ila_driver b);
     case c of
       None \<Rightarrow> Some (Inl (it_error T (dr_backend d1)), dr_backend d1)
     | Some caps \<Rightarrow> do {
         (s, d2) \<leftarrow> read_ila_status T d1;
         Some (case s of
                 None \<Rightarrow> Inl (it_error T (dr_backend d2))
               | Some st \<Rightarrow> Inr (JObject [(''addr_width'', JInt (uint (ca_addr_w caps))), (''armed'', JBool (st_armed st)),
                   (''data_width'', JInt (uint (ca_data_w caps))), (''depth'', JInt (uint (ca_depth caps))), (''full'', JBool (st_full st)),
                   (''sig_count'', JInt (uint (ca_sig_count caps))), (''triggered'', JBool (st_triggered st)),
                   (''version'', JInt (uint (ca_version caps)))]), dr_backend d2)
       }
   }"

text \<open>An operation of the driver that must succeed, and what follows it.\<close>

definition must ::
  "('b ila_driver \<Rightarrow> (bool \<times> 'b ila_driver) option) \<Rightarrow> ('b ila_driver \<Rightarrow> ((string + 'a) \<times> 'b ila_driver) option) \<Rightarrow> 'b ila_driver
     \<Rightarrow> ((string + 'a) \<times> 'b ila_driver) option" where
  "must f k d = do { (ok, d1) \<leftarrow> f d; if \<not> ok then Some (Inl (dr_error d1), d1) else k d1 }"

text \<open>The wait for \<open>full\<close>; a look that does not find it asks the clock whether the deadline has passed.\<close>

fun ila_wait :: "'b ila_tap_ops \<Rightarrow> bool list \<Rightarrow> 'b ila_driver \<Rightarrow> (bool \<times> 'b ila_driver) option" where
  "ila_wait T late d = do {
     (s, d1) \<leftarrow> read_ila_status T d;
     case s of
       None \<Rightarrow> Some (False, d1)
     | Some st \<Rightarrow>
         if st_full st then Some (True, d1)
         else (case late of
                 [] \<Rightarrow> None
               | True # _ \<Rightarrow> Some (False, d1\<lparr>dr_error := ''ila_run_capture: timeout waiting for full''\<rparr>)
               | False # rest \<Rightarrow> ila_wait T rest d1)
   }"

declare ila_wait.simps [simp del]

text \<open>The names of the lanes in the configuration file, as far as they go before something is not as expected.\<close>

fun names_before :: "json list \<Rightarrow> json list" where
  "names_before [] = []"
| "names_before (lane # lanes) =
     (case lane of
        JObject _ \<Rightarrow>
          (case member_of lane ''name'' of
             None \<Rightarrow> JString [] # names_before lanes
           | Some (JString n) \<Rightarrow> JString n # names_before lanes
           | Some _ \<Rightarrow> [])
      | _ \<Rightarrow> [])"

definition signal_names :: "json option \<Rightarrow> json" where
  "signal_names sidecar =
     JArray (case Option.bind sidecar (\<lambda>j. member_of j ''lanes'') of Some (JArray lanes) \<Rightarrow> names_before lanes | _ \<Rightarrow> [])"

definition capture_json :: "ila_caps \<Rightarrow> json option \<Rightarrow> u32 list \<Rightarrow> json" where
  "capture_json caps sidecar raw =
     JObject [(''data_width'', JInt (uint (ca_data_w caps))), (''depth'', JInt (uint (ca_depth caps))),
       (''sample_count'', JInt (int (length raw))), (''samples'', JArray (map (\<lambda>v. JString (idcode_str v)) raw)),
       (''signal_names'', signal_names sidecar), (''version'', JInt (uint (ca_version caps)))]"

definition read_out ::
  "'b ila_tap_ops \<Rightarrow> json option \<Rightarrow> ila_caps \<Rightarrow> 'b ila_driver \<Rightarrow> ((string + json) \<times> 'b ila_driver) option" where
  "read_out T sidecar caps d = do {
     (r, d1) \<leftarrow> read_samples T d;
     Some (case r of None \<Rightarrow> Inl (dr_error d1) | Some raw \<Rightarrow> Inr (capture_json caps sidecar raw), d1)
   }"

definition ila_capture_body ::
  "'b ila_tap_ops \<Rightarrow> json option \<Rightarrow> bool list \<Rightarrow> bool \<Rightarrow> int \<Rightarrow> 'b \<Rightarrow> ((string + json) \<times> 'b) option" where
  "ila_capture_body T sidecar late forced pre b =
     map_option (\<lambda>(r, d). (r, dr_backend d)) (do {
       (c, d1) \<leftarrow> probe T (new_ila_driver b);
       case c of
         None \<Rightarrow> Some (Inl (dr_error d1), d1)
       | Some caps \<Rightarrow>
           must (reset_capture T) (must (configure_trigger_level T 0 0 (word_of_int pre)) (must (ila_arm T)
             (must (if forced then force_trigger T else (\<lambda>d. Some (True, d))) (must (ila_wait T late)
                (must (set_read_addr T 0) (read_out T sidecar caps)))))) d1
     })"

text \<open>The backend that the arguments select.\<close>

definition with_backend ::
  "'d link \<Rightarrow> int \<Rightarrow> bool \<Rightarrow> int \<Rightarrow> ('d bscane ila_tap_ops \<Rightarrow> 'd bscane \<Rightarrow> ((string + json) \<times> 'd bscane) option) \<Rightarrow>
     ('d chain_backend ila_tap_ops \<Rightarrow> 'd chain_backend \<Rightarrow> ((string + json) \<times> 'd chain_backend) option) \<Rightarrow> 'd task" where
  "with_backend L i use_bscane user_chain f g cx =
     (if use_bscane
      then map_option (\<lambda>(r, b). (r, cx\<lparr>cx_chain := be_chain b\<rparr>)) (f (bscane_ops L) (new_bscane (cx_chain cx) i user_chain))
      else map_option (\<lambda>(r, b). (r, cx\<lparr>cx_chain := ci_chain b\<rparr>)) (g (chain_backend_ops L) (new_chain_backend (cx_chain cx) i)))"

definition ila_status_task :: "'d link \<Rightarrow> int \<Rightarrow> bool \<Rightarrow> int \<Rightarrow> 'd task" where
  "ila_status_task L i use_bscane user_chain = with_backend L i use_bscane user_chain ila_status_body ila_status_body"

definition ila_capture_task :: "'d link \<Rightarrow> json option \<Rightarrow> bool list \<Rightarrow> int \<Rightarrow> bool \<Rightarrow> int \<Rightarrow> bool \<Rightarrow> int \<Rightarrow> 'd task" where
  "ila_capture_task L sidecar late i use_bscane user_chain forced pre =
     with_backend L i use_bscane user_chain (\<lambda>T. ila_capture_body T sidecar late forced pre)
       (\<lambda>T. ila_capture_body T sidecar late forced pre)"

end
