(* ===== verification/Mcp_Calls.thy ===== *)
theory Mcp_Calls
  imports Mcp_Tools
begin

text \<open>
  The registration of the tools (src/src/mcp/tools/register_tools.cpp): their schemas, how a handler reads its parameters,
  and what it asks of the executor.  The files, the parsers and the readings of the clock that the tasks use are given as
  an environment.
\<close>

section \<open>The table of tools\<close>

definition int_schema :: json where
  "int_schema = JObject [(''type'', JString ''integer'')]"

definition string_schema :: json where
  "string_schema = JObject [(''type'', JString ''string'')]"

definition described :: "string \<Rightarrow> string \<Rightarrow> json" where
  "described t d = JObject [(''description'', JString d), (''type'', JString t)]"

definition object_schema :: "(string \<times> json) list \<Rightarrow> string list \<Rightarrow> json" where
  "object_schema props required =
     JObject ((''properties'', JObject props) #
       (if required = [] then [] else [(''required'', JArray (map JString required))]) @ [(''type'', JString ''object'')])"

definition job_schema :: json where
  "job_schema = object_schema [(''job_id'', string_schema)] [''job_id'']"

definition backend_schemas :: "(string \<times> json) list" where
  "backend_schemas =
     [(''use_bscane'', described ''boolean'' ''true = access ILA via BSCANE2 TAP (default false)''),
      (''user_chain'', described ''integer'' ''BSCANE2 chain index 1..4 (USER1..USER4, default 1)'')]"

type_synonym tool_row = "string \<times> string \<times> json"

definition read_idcode_row :: tool_row where
  "read_idcode_row =
     (''read_idcode'', ''Read JTAG IDCODEs from all devices in the chain.'',
      object_schema [] [])"

definition detect_devices_row :: tool_row where
  "detect_devices_row =
     (''detect_devices'', ''Re-detect and enumerate all JTAG devices in the chain.'',
      object_schema [] [])"

definition load_bsdl_row :: tool_row where
  "load_bsdl_row =
     (''load_bsdl'', ''Load a BSDL file for a specific device in the JTAG chain.'',
      object_schema [(''bsdl_path'', string_schema), (''device_index'', int_schema)] [''device_index'', ''bsdl_path''])"

definition list_devices_row :: tool_row where
  "list_devices_row =
     (''list_devices'', ''List currently detected JTAG devices (cached; call detect_devices to refresh).'',
      object_schema [] [])"

definition list_pins_row :: tool_row where
  "list_pins_row =
     (''list_pins'', ''List observable and drivable pins for a device (BSDL must be loaded).'',
      object_schema [(''device_index'', int_schema)] [''device_index''])"

definition read_pin_row :: tool_row where
  "read_pin_row =
     (''read_pin'', ''Read the current state of a pin via JTAG boundary scan SAMPLE.'',
      object_schema [(''device_index'', int_schema), (''pin_name'', string_schema)] [''device_index'', ''pin_name''])"

definition set_pin_row :: tool_row where
  "set_pin_row =
     (''set_pin'', ''Drive a pin to HIGH (1), LOW (0), or HIGH-Z (-1) via EXTEST.'',
      object_schema [(''device_index'', int_schema), (''pin_name'', string_schema), (''value'', described ''integer'' ''0=LOW, 1=HIGH, -1=HIGH-Z'')]
        [''device_index'', ''pin_name'', ''value''])"

definition capture_start_row :: tool_row where
  "capture_start_row =
     (''capture_start'', ''Start a boundary-scan capture session. Returns job_id for async polling.'',
      object_schema
        [(''buffer_depth'', described ''integer'' ''Number of samples (default 1000)''), (''device_index'', int_schema),
         (''interval_us'', described ''integer'' ''Sample interval in microseconds (default 1000)''),
         (''pin_filter'', JObject [(''description'', JString ''Only decode these pin names (empty = all pins)''), (''items'', string_schema),
            (''type'', JString ''array'')]),
         (''trigger_mode'', described ''string'' ''free_run | single | normal (default free_run)'')] [''device_index''])"

definition capture_stop_row :: tool_row where
  "capture_stop_row =
     (''capture_stop'', ''Cancel a running capture_start job.'',
      job_schema)"

definition get_samples_row :: tool_row where
  "get_samples_row =
     (''get_samples'', ''Poll a capture_start job and return current state and samples.'',
      job_schema)"

definition run_script_row :: tool_row where
  "run_script_row =
     (''run_script'', ''Execute a waveform test script against a JTAG device.'',
      object_schema [(''device_index'', int_schema), (''script'', described ''string'' ''Script text to execute'')] [''device_index'', ''script''])"

definition program_bitstream_row :: tool_row where
  "program_bitstream_row =
     (''program_bitstream'', ''Program the FPGA PL from a .bit or .bin file (async). Returns job_id.'',
      object_schema [(''bitstream_path'', string_schema), (''device_index'', int_schema)] [''device_index'', ''bitstream_path''])"

definition read_ila_status_row :: tool_row where
  "read_ila_status_row =
     (''read_ila_status'', ''Read status and capabilities from the OwlTAP ILA IP TAP.'',
      object_schema ((''device_index'', int_schema) # backend_schemas) [''device_index''])"

definition job_poll_row :: tool_row where
  "job_poll_row =
     (''job_poll'', ''Poll the status of an async hardware job.'',
      job_schema)"

definition job_cancel_row :: tool_row where
  "job_cancel_row =
     (''job_cancel'', ''Request cancellation of a running or queued async hardware job.'',
      job_schema)"

definition ila_run_capture_row :: tool_row where
  "ila_run_capture_row =
     (''ila_run_capture'', ''Arm the OwlTAP ILA, optionally force-trigger, then return waveform samples.'',
      object_schema
        ([(''device_index'', int_schema), (''force'', described ''boolean'' ''true = force-trigger immediately after arm (default true)''),
          (''pre_samples'', described ''integer'' ''Pre-trigger sample count (default 0)''),
          (''timeout_ms'', described ''integer'' ''Poll timeout in milliseconds (default 5000)'')] @ backend_schemas) [''device_index''])"

definition tool_table :: "tool_row list" where
  "tool_table =
     [read_idcode_row, detect_devices_row, load_bsdl_row, list_devices_row, list_pins_row, read_pin_row,
      set_pin_row, capture_start_row, capture_stop_row, get_samples_row, run_script_row,
      program_bitstream_row, read_ila_status_row, job_poll_row, job_cancel_row, ila_run_capture_row]"

lemmas tool_rows = tool_table_def read_idcode_row_def detect_devices_row_def load_bsdl_row_def list_devices_row_def list_pins_row_def read_pin_row_def set_pin_row_def capture_start_row_def
  capture_stop_row_def get_samples_row_def run_script_row_def program_bitstream_row_def read_ila_status_row_def job_poll_row_def job_cancel_row_def ila_run_capture_row_def

section \<open>Parameters\<close>

text \<open>\<open>params[k].get<T>()\<close>, and \<open>params.value(k, v)\<close>; nothing where the library throws.  After the check of the schema no
  other type of value arrives.\<close>

definition the_int :: "json \<Rightarrow> int option" where
  "the_int v = (case v of JInt n \<Rightarrow> Some (sint (word_of_int n :: u32)) | _ \<Rightarrow> None)"

definition the_string :: "json \<Rightarrow> string option" where
  "the_string v = (case v of JString s \<Rightarrow> Some s | _ \<Rightarrow> None)"

definition the_bool :: "json \<Rightarrow> bool option" where
  "the_bool v = (case v of JBool b \<Rightarrow> Some b | _ \<Rightarrow> None)"

definition param :: "(json \<Rightarrow> 'a option) \<Rightarrow> string \<Rightarrow> json \<Rightarrow> 'a option" where
  "param get k ps = Option.bind (member_of ps k) get"

definition param_or :: "(json \<Rightarrow> 'a option) \<Rightarrow> 'a \<Rightarrow> string \<Rightarrow> json \<Rightarrow> 'a option" where
  "param_or get v k ps = (case member_of ps k of None \<Rightarrow> Some v | Some j \<Rightarrow> get j)"

definition filter_param :: "json \<Rightarrow> string list option" where
  "filter_param ps = (case member_of ps ''pin_filter'' of Some (JArray xs) \<Rightarrow> those (map the_string xs) | _ \<Rightarrow> Some [])"

definition mode_of :: "string \<Rightarrow> trigger_mode" where
  "mode_of s = (if s = ''single'' then Tm_SINGLE else if s = ''normal'' then Tm_NORMAL else Tm_FREE_RUN)"

section \<open>The handlers\<close>

record 'd tool_env =
  en_link :: "'d link"
  en_parse :: "string \<Rightarrow> string + bsdl_device"
  en_file :: "string \<Rightarrow> byte list option"
  en_sidecar :: "json option"
  en_start :: int
  en_ticks :: "(bool \<times> int \<times> int) list"
  en_late :: "bool list"

datatype 'd tool_action =
    Sync_Call string int "'d task"
  | Async_Call string "'d task"
  | Poll_Call string
  | Cancel_Call string

definition capture_action :: "'d tool_env \<Rightarrow> json \<Rightarrow> 'd tool_action option" where
  "capture_action E ps = do {
     i \<leftarrow> param the_int ''device_index'' ps;
     depth \<leftarrow> param_or the_int 1000 ''buffer_depth'' ps;
     interval \<leftarrow> param_or the_int 1000 ''interval_us'' ps;
     mode \<leftarrow> param_or the_string ''free_run'' ''trigger_mode'' ps;
     pins \<leftarrow> filter_param ps;
     Some (Async_Call ''capture_start''
       (capture_task (en_link E) (en_start E) (en_ticks E) i (unat (word_of_int depth :: u64)) (word_of_int interval) (mode_of mode) pins))
   }"

definition ila_capture_action :: "'d tool_env \<Rightarrow> json \<Rightarrow> 'd tool_action option" where
  "ila_capture_action E ps = do {
     i \<leftarrow> param the_int ''device_index'' ps;
     use_bscane \<leftarrow> param_or the_bool False ''use_bscane'' ps;
     user_chain \<leftarrow> param_or the_int 1 ''user_chain'' ps;
     forced \<leftarrow> param_or the_bool True ''force'' ps;
     pre \<leftarrow> param_or the_int 0 ''pre_samples'' ps;
     timeout \<leftarrow> param_or the_int 5000 ''timeout_ms'' ps;
     Some (Sync_Call ''ila_run_capture'' (timeout + 3000)
       (ila_capture_task (en_link E) (en_sidecar E) (en_late E) i use_bscane user_chain forced pre))
   }"

definition read_idcode_action :: "'d tool_env \<Rightarrow> json \<Rightarrow> 'd tool_action option" where
  "read_idcode_action E ps = Some (Sync_Call ''read_idcode'' 2000 (read_idcode_task (en_link E)))"

definition detect_devices_action :: "'d tool_env \<Rightarrow> json \<Rightarrow> 'd tool_action option" where
  "detect_devices_action E ps = Some (Sync_Call ''detect_devices'' 3000 (detect_devices_task (en_link E)))"

definition load_bsdl_action :: "'d tool_env \<Rightarrow> json \<Rightarrow> 'd tool_action option" where
  "load_bsdl_action E ps = do {
     i \<leftarrow> param the_int ''device_index'' ps;
     path \<leftarrow> param the_string ''bsdl_path'' ps;
     Some (Sync_Call ''load_bsdl'' 5000 (load_bsdl_task (en_parse E) i path))
   }"

definition list_devices_action :: "'d tool_env \<Rightarrow> json \<Rightarrow> 'd tool_action option" where
  "list_devices_action E ps = Some (Sync_Call ''list_devices'' 500 list_devices_task)"

definition list_pins_action :: "'d tool_env \<Rightarrow> json \<Rightarrow> 'd tool_action option" where
  "list_pins_action E ps = do {
     i \<leftarrow> param the_int ''device_index'' ps;
     Some (Sync_Call ''list_pins'' 1000 (list_pins_task i))
   }"

definition read_pin_action :: "'d tool_env \<Rightarrow> json \<Rightarrow> 'd tool_action option" where
  "read_pin_action E ps = do {
     i \<leftarrow> param the_int ''device_index'' ps;
     pin \<leftarrow> param the_string ''pin_name'' ps;
     Some (Sync_Call ''read_pin'' 2000 (read_pin_task (en_link E) i pin))
   }"

definition set_pin_action :: "'d tool_env \<Rightarrow> json \<Rightarrow> 'd tool_action option" where
  "set_pin_action E ps = do {
     i \<leftarrow> param the_int ''device_index'' ps;
     pin \<leftarrow> param the_string ''pin_name'' ps;
     v \<leftarrow> param the_int ''value'' ps;
     Some (Sync_Call ''set_pin'' 2000 (set_pin_task (en_link E) i pin v))
   }"

definition capture_stop_action :: "'d tool_env \<Rightarrow> json \<Rightarrow> 'd tool_action option" where
  "capture_stop_action E ps = map_option Cancel_Call (param the_string ''job_id'' ps)"

definition get_samples_action :: "'d tool_env \<Rightarrow> json \<Rightarrow> 'd tool_action option" where
  "get_samples_action E ps = map_option Poll_Call (param the_string ''job_id'' ps)"

definition run_script_action :: "'d tool_env \<Rightarrow> json \<Rightarrow> 'd tool_action option" where
  "run_script_action E ps = do {
     i \<leftarrow> param the_int ''device_index'' ps;
     script \<leftarrow> param the_string ''script'' ps;
     Some (Sync_Call ''run_script'' 30000 (run_script_task (en_link E) i script))
   }"

definition program_action :: "'d tool_env \<Rightarrow> json \<Rightarrow> 'd tool_action option" where
  "program_action E ps = do {
     i \<leftarrow> param the_int ''device_index'' ps;
     path \<leftarrow> param the_string ''bitstream_path'' ps;
     Some (Async_Call ''program_bitstream'' (program_task (en_link E) (en_file E) i path))
   }"

definition ila_status_action :: "'d tool_env \<Rightarrow> json \<Rightarrow> 'd tool_action option" where
  "ila_status_action E ps = do {
     i \<leftarrow> param the_int ''device_index'' ps;
     use_bscane \<leftarrow> param_or the_bool False ''use_bscane'' ps;
     user_chain \<leftarrow> param_or the_int 1 ''user_chain'' ps;
     Some (Sync_Call ''read_ila_status'' 3000 (ila_status_task (en_link E) i use_bscane user_chain))
   }"

definition job_poll_action :: "'d tool_env \<Rightarrow> json \<Rightarrow> 'd tool_action option" where
  "job_poll_action E ps = map_option Poll_Call (param the_string ''job_id'' ps)"

definition job_cancel_action :: "'d tool_env \<Rightarrow> json \<Rightarrow> 'd tool_action option" where
  "job_cancel_action E ps = map_option Cancel_Call (param the_string ''job_id'' ps)"

text \<open>The handler of a tool by its name.\<close>

definition tool_handlers :: "(string \<times> ('d tool_env \<Rightarrow> json \<Rightarrow> 'd tool_action option)) list" where
  "tool_handlers =
     [(''read_idcode'', read_idcode_action), (''detect_devices'', detect_devices_action), (''load_bsdl'', load_bsdl_action), (''list_devices'', list_devices_action),
      (''list_pins'', list_pins_action), (''read_pin'', read_pin_action), (''set_pin'', set_pin_action), (''capture_start'', capture_action),
      (''capture_stop'', capture_stop_action), (''get_samples'', get_samples_action), (''run_script'', run_script_action), (''program_bitstream'', program_action),
      (''read_ila_status'', ila_status_action), (''job_poll'', job_poll_action), (''job_cancel'', job_cancel_action), (''ila_run_capture'', ila_capture_action)]"

definition tool_action :: "'d tool_env \<Rightarrow> string \<Rightarrow> json \<Rightarrow> 'd tool_action option" where
  "tool_action E name ps = Option.bind (map_of tool_handlers name) (\<lambda>h. h E ps)"

section \<open>Calls\<close>

text \<open>A task on the worker; its world has no context left after undefined behaviour.\<close>

definition run_step :: "'d task \<Rightarrow> 'd hw_context option hw_task" where
  "run_step m seen w =
     (case Option.bind w m of
        None \<Rightarrow> (Threw_Other, None)
      | Some (Inl e, cx) \<Rightarrow> (Threw e, Some cx)
      | Some (Inr v, cx) \<Rightarrow> (Returned v, Some cx))"

inductive perform ::
  "'d hw_context option hw_ops \<Rightarrow> string \<Rightarrow> int \<Rightarrow> 'd tool_action \<Rightarrow> 'd hw_context option bridge \<Rightarrow> string + json \<Rightarrow>
     'd hw_context option bridge \<Rightarrow> bool" for H i now where
  perform_sync: "submit_sync H i l (run_step m) (now + ms) b r b1 \<Longrightarrow> perform H i now (Sync_Call l ms m) b r b1"
| perform_async: "submit_async i l (run_step m) b = Some (v, b1) \<Longrightarrow> perform H i now (Async_Call l m) b (Inr v) b1"
| perform_poll: "perform H i now (Poll_Call k) b (Inr (poll_job k b)) b"
| perform_cancel: "cancel_job k b = (v, b1) \<Longrightarrow> perform H i now (Cancel_Call k) b (Inr v) b1"

text \<open>The executor over the probe.\<close>

definition context_ops :: "'h ftdi_lib \<Rightarrow> app_config \<Rightarrow> 'h ftdi hw_context option hw_ops" where
  "context_ops P cfg =
     \<lparr>ho_open = (\<lambda>w. case Option.bind w (context_open P cfg) of None \<Rightarrow> ([], None) | Some (e, cx) \<Rightarrow> (e, Some cx)),
      ho_is_open = (\<lambda>w. case w of None \<Rightarrow> False | Some cx \<Rightarrow> context_is_open cx),
      ho_close = map_option (context_close P)\<rparr>"

inductive_cases perform_SyncE: "perform H i now (Sync_Call l ms m) b r b1"

text \<open>The registration, with the handlers that carry the actions out as a parameter.\<close>

definition tool_specs :: "(string \<Rightarrow> json \<Rightarrow> 's \<Rightarrow> (exn + json) \<times> 's) \<Rightarrow> 's tool_spec list" where
  "tool_specs h = map (\<lambda>(n, d, s). \<lparr>ts_name = n, ts_description = d, ts_schema = s, ts_handler = h n\<rparr>) tool_table"

definition register_hardware_tools :: "(string \<Rightarrow> json \<Rightarrow> 's \<Rightarrow> (exn + json) \<times> 's) \<Rightarrow> 's registry \<Rightarrow> 's registry" where
  "register_hardware_tools h r = fold register_tool (tool_specs h) r"

end
