(* ===== verification/Mcp_Params.thy ===== *)
theory Mcp_Params
  imports Mcp_Calls
begin

text \<open>What the handlers of the tools find when the check of the schema has let the parameters pass.\<close>

lemma member_object_schema:
  "is_object (object_schema props required)"
  "member_of (object_schema props required) ''type'' = Some (JString ''object'')"
  "schema_members (object_schema props required) = props"
  "member_of (object_schema props required) ''required'' = (if required = [] then None else Some (JArray (map JString required)))"
  by (auto simp: object_schema_def is_object_def member_of_def schema_members_def)

lemma accepted_required:
  assumes "validate_params (object_schema props required) ps = None" and "k \<in> set required"
  shows "member_of ps k \<noteq> None"
proof -
  have "required \<noteq> []" using assms(2) by auto
  then have "member_of (object_schema props required) ''required'' = Some (JArray (map JString required))"
    by (simp add: member_object_schema)
  moreover have "JString k \<in> set (map JString required)" using assms(2) by simp
  ultimately show ?thesis
    using assms(1) unfolding validate_conforms conforms_object [OF member_object_schema(1)] missing_field_None by blast
qed

lemma accepted_type:
  assumes "validate_params (object_schema props required) ps = None" and "(k, s) \<in> set props"
    and "member_of ps k = Some v" and "is_object s"
  shows "type_error s v = None"
  using assms unfolding validate_conforms conforms_object [OF member_object_schema(1)] member_object_schema by blast

text \<open>The types, and the functions that read values of them.\<close>

definition reads :: "(json \<Rightarrow> 'a option) \<Rightarrow> json \<Rightarrow> bool" where
  "reads get s \<longleftrightarrow> is_object s \<and> (\<forall>v. type_error s v = None \<longrightarrow> get v \<noteq> None)"

lemma reads_types [simp, intro]:
  "reads the_int int_schema" "reads the_int (described ''integer'' d)"
  "reads the_string string_schema" "reads the_string (described ''string'' d)"
  "reads the_bool (described ''boolean'' d)"
  by (auto simp: reads_def int_schema_def string_schema_def described_def is_object_def type_error_def member_of_def check_type_def
      the_int_def the_string_def the_bool_def is_string_def split: json.splits)

definition readable :: "(json \<Rightarrow> 'a option) \<Rightarrow> string \<Rightarrow> (string \<times> json) list \<Rightarrow> bool" where
  "readable get k props \<longleftrightarrow> list_ex (\<lambda>(k', s). k' = k \<and> reads get s) props"

lemma accepted_param:
  assumes "validate_params (object_schema props required) ps = None" and "k \<in> set required" and "readable get k props"
  shows "param get k ps \<noteq> None"
proof -
  obtain s where s: "(k, s) \<in> set props" "reads get s" using assms(3) by (auto simp: readable_def list_ex_iff)
  obtain v where v: "member_of ps k = Some v" using accepted_required [OF assms(1,2)] by blast
  with accepted_type [OF assms(1) s(1) v] s(2) show ?thesis by (auto simp: param_def reads_def)
qed

lemma accepted_param_or:
  assumes "validate_params (object_schema props required) ps = None" and "readable get k props"
  shows "param_or get d k ps \<noteq> None"
proof -
  obtain s where s: "(k, s) \<in> set props" "reads get s" using assms(2) by (auto simp: readable_def list_ex_iff)
  with accepted_type [OF assms(1) s(1)] s(2) show ?thesis by (cases "member_of ps k") (auto simp: param_or_def reads_def)
qed

lemma those_None: "those xs = None \<longleftrightarrow> None \<in> set xs"
  by (induction xs) (auto split: option.splits)

text \<open>A filter for \<open>capture_start\<close> with something in it that is not a string.\<close>

definition bad_filter :: "json \<Rightarrow> bool" where
  "bad_filter ps = (case member_of ps ''pin_filter'' of Some (JArray xs) \<Rightarrow> list_ex (\<lambda>x. \<not> is_string x) xs | _ \<Rightarrow> False)"

lemma filter_param_None: "filter_param ps = None \<longleftrightarrow> bad_filter ps"
proof -
  have "None = the_string x \<longleftrightarrow> \<not> is_string x" for x by (cases x) (simp_all add: the_string_def is_string_def)
  then have "those (map the_string xs) = None \<longleftrightarrow> (\<exists>x \<in> set xs. \<not> is_string x)" for xs
    by (simp add: those_None image_iff)
  then show ?thesis by (auto simp: filter_param_def bad_filter_def list_ex_iff split: option.splits json.splits)
qed

section \<open>The actions of accepted calls\<close>

definition tool_schema :: "string \<Rightarrow> json option" where
  "tool_schema name = map_option snd (map_of tool_table name)"

definition accepted :: "string \<Rightarrow> json \<Rightarrow> bool" where
  "accepted name ps \<longleftrightarrow> (\<exists>s. tool_schema name = Some s \<and> validate_params s ps = None)"

lemmas tool_params = tool_schema_def tool_rows job_schema_def backend_schemas_def accepted_param accepted_param_or readable_def

lemma load_bsdl_accepted: "accepted ''load_bsdl'' ps \<Longrightarrow> load_bsdl_action E ps \<noteq> None"
  by (simp add: accepted_def tool_params load_bsdl_action_def bind_eq_None_conv)

lemma list_pins_accepted: "accepted ''list_pins'' ps \<Longrightarrow> list_pins_action E ps \<noteq> None"
  by (simp add: accepted_def tool_params list_pins_action_def bind_eq_None_conv)

lemma read_pin_accepted: "accepted ''read_pin'' ps \<Longrightarrow> read_pin_action E ps \<noteq> None"
  by (simp add: accepted_def tool_params read_pin_action_def bind_eq_None_conv)

lemma set_pin_accepted: "accepted ''set_pin'' ps \<Longrightarrow> set_pin_action E ps \<noteq> None"
  by (simp add: accepted_def tool_params set_pin_action_def bind_eq_None_conv)

lemma capture_stop_accepted: "accepted ''capture_stop'' ps \<Longrightarrow> capture_stop_action E ps \<noteq> None"
  by (simp add: accepted_def tool_params capture_stop_action_def bind_eq_None_conv)

lemma get_samples_accepted: "accepted ''get_samples'' ps \<Longrightarrow> get_samples_action E ps \<noteq> None"
  by (simp add: accepted_def tool_params get_samples_action_def bind_eq_None_conv)

lemma run_script_accepted: "accepted ''run_script'' ps \<Longrightarrow> run_script_action E ps \<noteq> None"
  by (simp add: accepted_def tool_params run_script_action_def bind_eq_None_conv)

lemma program_accepted: "accepted ''program_bitstream'' ps \<Longrightarrow> program_action E ps \<noteq> None"
  by (simp add: accepted_def tool_params program_action_def bind_eq_None_conv)

lemma ila_status_accepted: "accepted ''read_ila_status'' ps \<Longrightarrow> ila_status_action E ps \<noteq> None"
  by (simp add: accepted_def tool_params ila_status_action_def bind_eq_None_conv)

lemma job_poll_accepted: "accepted ''job_poll'' ps \<Longrightarrow> job_poll_action E ps \<noteq> None"
  by (simp add: accepted_def tool_params job_poll_action_def bind_eq_None_conv)

lemma job_cancel_accepted: "accepted ''job_cancel'' ps \<Longrightarrow> job_cancel_action E ps \<noteq> None"
  by (simp add: accepted_def tool_params job_cancel_action_def bind_eq_None_conv)

lemma ila_capture_accepted: "accepted ''ila_run_capture'' ps \<Longrightarrow> ila_capture_action E ps \<noteq> None"
  by (simp add: accepted_def tool_params ila_capture_action_def bind_eq_None_conv)

lemma capture_accepted: "accepted ''capture_start'' ps \<Longrightarrow> capture_action E ps = None \<longleftrightarrow> bad_filter ps"
  by (simp add: accepted_def tool_params capture_action_def bind_eq_None_conv filter_param_None)

lemma tool_names: "accepted name ps \<Longrightarrow> name \<in> fst ` set tool_table"
  by (cases "map_of tool_table name") (force simp: accepted_def tool_schema_def image_iff dest: map_of_SomeD)+

text \<open>The handlers that need no parameters, and all but the one of \<open>capture_start\<close>.\<close>

lemmas handlers_accepted = load_bsdl_accepted list_pins_accepted read_pin_accepted set_pin_accepted capture_stop_accepted get_samples_accepted
  run_script_accepted program_accepted ila_status_accepted job_poll_accepted job_cancel_accepted ila_capture_accepted

lemma other_accepted:
  assumes "accepted name ps" and "name \<noteq> ''capture_start''"
  shows "tool_action E name ps \<noteq> None"
proof -
  have "name \<in> fst ` set tool_table" by (rule tool_names [OF assms(1)])
  then have n: "name \<in> {''read_idcode'', ''detect_devices'', ''load_bsdl'', ''list_devices'', ''list_pins'', ''read_pin'', ''set_pin'',
      ''capture_start'', ''capture_stop'', ''get_samples'', ''run_script'', ''program_bitstream'', ''read_ila_status'', ''job_poll'',
      ''job_cancel'', ''ila_run_capture''}"
    by (simp only: tool_rows list.set image_insert image_empty fst_conv)
  have a: "accepted k ps \<Longrightarrow> k \<noteq> ''capture_start'' \<Longrightarrow> tool_action E k ps \<noteq> None" if "k = name" for k
    using n that assms
    by (elim insertE emptyE; hypsubst)
      (simp_all add: tool_action_def tool_handlers_def handlers_accepted read_idcode_action_def detect_devices_action_def list_devices_action_def)
  show ?thesis by (rule a [OF refl assms])
qed

text \<open>C23: The handler of every tool can read the parameters that the check of its schema accepts, so a call of one of the 16 tools
  with accepted parameters reaches the executor or the job table; except that \<open>capture_start\<close> throws when its
  \<open>pin_filter\<close> holds anything but strings, since the check does not look at the \<open>items\<close> of an array.\<close>

theorem accepted_params_readable:
  assumes "tool_schema name = Some s" and "validate_params s ps = None"
  shows "tool_action E name ps = None \<longleftrightarrow> name = ''capture_start'' \<and> bad_filter ps"
proof (cases "name = ''capture_start''")
  case True
  have "accepted ''capture_start'' ps" using assms True by (auto simp: accepted_def)
  moreover have "tool_action E ''capture_start'' ps = capture_action E ps" by (simp add: tool_action_def tool_handlers_def)
  ultimately show ?thesis using capture_accepted [of ps E] by (simp only: True simp_thms)
next
  case False
  have "accepted name ps" using assms by (auto simp: accepted_def)
  from other_accepted [OF this False, of E] False show ?thesis by blast
qed

definition read_pin_call :: json where
  "read_pin_call = JObject [(''device_index'', JInt 0), (''pin_name'', JString ''IO_A1'')]"

definition number_filter_call :: json where
  "number_filter_call = JObject [(''device_index'', JInt 0), (''pin_filter'', JArray [JInt 7])]"

lemma call_accepted:
  "validate_params (the (tool_schema ''read_pin'')) read_pin_call = None"
  "validate_params (the (tool_schema ''capture_start'')) number_filter_call = None"
  by (simp_all add: tool_schema_def tool_rows object_schema_def read_pin_call_def number_filter_call_def validate_params.simps
      is_object_def member_of_def type_error_def check_type_def missing_field_def schema_members_def int_schema_def string_schema_def described_def is_string_def)

theorem accepted_params_readable_witness:
  "\<forall>E. tool_action E ''read_pin'' read_pin_call \<noteq> None \<and> tool_action E ''capture_start'' number_filter_call = None"
proof
  fix E :: "'a tool_env"
  obtain s1 s2 where s: "tool_schema ''read_pin'' = Some s1" "tool_schema ''capture_start'' = Some s2"
    by (simp add: tool_schema_def tool_rows)
  have v: "validate_params s1 read_pin_call = None" "validate_params s2 number_filter_call = None"
    using call_accepted s by simp_all
  have "bad_filter number_filter_call" by (simp add: bad_filter_def number_filter_call_def member_of_def is_string_def)
  with accepted_params_readable [OF s(1) v(1), of E] accepted_params_readable [OF s(2) v(2), of E]
  show "tool_action E ''read_pin'' read_pin_call \<noteq> None \<and> tool_action E ''capture_start'' number_filter_call = None" by simp
qed

end
