(* ===== verification/Mcp_Task_Props.thy ===== *)
theory Mcp_Task_Props
  imports Mcp_Tools
begin

text \<open>
  What the pin tools answer: the level that the boundary register holds, and what a capture with a filter leaves behind for
  them in the scanner of its device.
\<close>

section \<open>The scanner of a device\<close>

definition scanner_at :: "int \<Rightarrow> 'd hw_context \<Rightarrow> scanner" where
  "scanner_at i cx = (case cx_scanners cx i of Some s \<Rightarrow> s | None \<Rightarrow> \<lparr>sc_index = i, sc_filter = [], sc_error = []\<rparr>)"

lemma get_scanner_at:
  assumes "valid_index (cx_chain cx) i"
  shows "get_scanner i cx = Some (Inr (scanner_at i cx), cx\<lparr>cx_scanners := (cx_scanners cx)(i \<mapsto> scanner_at i cx)\<rparr>)"
  using assms by (auto simp: get_scanner_def scanner_at_def fun_upd_idem Let_def split: option.splits)

definition read_pin_json :: "int \<Rightarrow> string \<Rightarrow> pin_state \<Rightarrow> json" where
  "read_pin_json i pin_name st =
     JObject [(''device_index'', JInt i), (''pin_name'', JString pin_name), (''state'', pin_state_str st)]"

lemma read_pin_sampled:
  assumes "valid_index (cx_chain cx) i" and "scanner_sample L (scanner_at i cx) (cx_chain cx) = Some (r, s, c)"
  shows "read_pin_task L i pin cx =
    Some (if sc_error s \<noteq> [] then Inl (sc_error s) else Inr (read_pin_json i pin (sr_get_pin r pin)),
      cx\<lparr>cx_chain := c, cx_scanners := (cx_scanners cx)(i \<mapsto> s)\<rparr>)"
  using assms(2)
  by (simp add: read_pin_task_def step_bind_def get_scanner_at [OF assms(1)] sample_step_def on_scanner_def step_throw_def
      step_return_def read_pin_json_def)

text \<open>A sample keeps the filter, and reports nothing about the pins that are not in it.\<close>

lemma sample_filter:
  assumes "scanner_sample L s c = Some (r, s1, c1)"
  shows "sc_filter s1 = sc_filter s"
    and "sc_filter s \<noteq> [] \<Longrightarrow> pin \<notin> set (sc_filter s) \<Longrightarrow> sr_pin_states r pin = None"
  using assms
  by (auto simp: scanner_sample_def empty_scan_def Let_def filter_states_def split: option.splits if_splits prod.splits
      dest!: bind_eq_Some_conv [THEN iffD1])

lemma append_sample_scanner: "append_sample r t n s = Some s1 \<Longrightarrow> ss_scanner s1 = ss_scanner s"
  by (auto simp: append_sample_def Let_def split: if_splits)

lemma session_take_scanner: "session_take r n s = Some s1 \<Longrightarrow> ss_scanner s1 = ss_scanner s"
  by (auto simp: session_take_def Let_def split: capture_state.splits prod.splits if_splits
      dest!: bind_eq_Some_conv [THEN iffD1] append_sample_scanner)

lemma session_tick_filter:
  assumes "session_tick L now stamp s = Some (b, s1)"
  shows "sc_filter (ss_scanner s1) = sc_filter (ss_scanner s)"
proof (cases "ss_state s = Cs_STOPPED \<or> ss_state s = Cs_COMPLETE \<or> now < ss_next s")
  case True
  then show ?thesis using assms by (auto simp: session_tick_def split: if_splits)
next
  case False
  with assms obtain r sc c where sc: "scanner_sample L (ss_scanner s) (ss_chain s) = Some (r, sc, c)"
    by (auto simp: session_tick_def Let_def dest!: bind_eq_Some_conv [THEN iffD1])
  with False assms have "ss_scanner s1 = sc"
    by (auto simp: session_tick_def Let_def split: if_splits dest!: bind_eq_Some_conv [THEN iffD1] session_take_scanner)
  with sample_filter(1) [OF sc] show ?thesis by simp
qed

lemma capture_loop_filter: "capture_loop L obs s = Some s1 \<Longrightarrow> sc_filter (ss_scanner s1) = sc_filter (ss_scanner s)"
proof (induction L obs s rule: capture_loop.induct)
  case (1 L obs s)
  show ?case
  proof (cases "ss_state s = Cs_COMPLETE \<or> ss_state s = Cs_STOPPED \<or> obs = []")
    case True
    then show ?thesis using "1.prems" by (auto simp: capture_loop.simps [of L obs s] split: if_splits)
  next
    case False
    then obtain cancel now stamp rest where o: "obs = (cancel, now, stamp) # rest" by (cases obs) auto
    show ?thesis
    proof (cases cancel)
      case True
      then show ?thesis using "1.prems" False by (auto simp: capture_loop.simps [of L "(True, now, stamp) # rest" s] o session_stop_def)
    next
      case c: False
      with False "1.prems" obtain b s2 where t: "session_tick L now stamp s = Some (b, s2)" "capture_loop L rest s2 = Some s1"
        by (auto simp: capture_loop.simps [of L "(False, now, stamp) # rest" s] o split: option.splits)
      have "sc_filter (ss_scanner s1) = sc_filter (ss_scanner s2)"
        by (rule "1.IH" [of "(cancel, now, stamp)" rest cancel "(now, stamp)" now stamp "(b, s2)" b s2])
          (use False o c t in auto)
      with session_tick_filter [OF t(1)] show ?thesis by simp
    qed
  qed
qed

text \<open>What a capture that ran leaves in the scanner.\<close>

lemma capture_leaves_filter:
  assumes "capture_task L t0 obs i depth interval mode pins cx = Some (res, cx1)" and "valid_index (cx_chain cx) i"
  shows "sc_filter (scanner_at i cx1) = remdups pins"
  using assms(1)
  by (auto simp: capture_task_def step_bind_def get_scanner_at [OF assms(2)] Let_def scanner_at_def step_throw_def step_return_def
      new_session_def session_set_interval_def session_set_depth_def session_start_def set_decode_filter_def
      split: option.splits if_splits dest!: capture_loop_filter)

section \<open>Properties\<close>

text \<open>C19: \<open>read_pin\<close> answers with the level that the boundary register of the device holds in the cell that decides the pin: from
  the JSON of the tool down to the bits on the wires.  This needs a scanner without an old error and without a filter
  that leaves the pin out.\<close>

theorem read_pin_answers:
  assumes "always_ok L" and "drives_tap L phys" and "replies_tdo L lvl" and "in_sync phys (jc_tap (cx_chain cx))"
    and "scanner_bsdl (scanner_at i cx) (cx_chain cx) = Some dev" and "sc_index (scanner_at i cx) = i" and "sample_opcode dev = Some op"
    and "\<forall>d \<in> set (jc_devices (cx_chain cx)). cd_ir_length d \<le> 32" and "0 < total_ir_length (cx_chain cx)"
    and "cells_ok dev" and "0 < bd_boundary_length dev"
    and "shows_chain phys lvl (concat regs)" and "chain_regs (length (jc_devices (cx_chain cx))) (nat i) regs"
    and "length (regs ! nat i) = bd_boundary_length dev" and "sc_error (scanner_at i cx) = []"
    and "sc_filter (scanner_at i cx) = [] \<or> pin \<in> set (sc_filter (scanner_at i cx))"
  shows "\<exists>cx'. read_pin_task L i pin cx =
           Some (Inr (JObject [(''device_index'', JInt i), (''pin_name'', JString pin),
             (''state'', JString (case pin_level (register_level (regs ! nat i)) (bd_cells dev) pin of
                Some Ps_HIGH \<Rightarrow> ''high'' | Some Ps_LOW \<Rightarrow> ''low'' | _ \<Rightarrow> ''unknown''))]), cx') \<and>
         in_sync phys (jc_tap (cx_chain cx'))"
proof -
  let ?s = "scanner_at i cx" and ?c = "cx_chain cx"
  have v: "valid_index ?c i" using assms(5,6) by (auto simp: scanner_bsdl_def scanner_ready_def split: if_splits)
  from sample_reports [OF assms(1-5,7-12), unfolded assms(6), OF assms(13,14)] obtain r c' where
    1: "scanner_sample L ?s ?c = Some (r, ?s, c')" "in_sync phys (jc_tap c')"
    "sr_pin_states r pin = pin_level (register_level (regs ! nat i)) (bd_cells dev) pin"
    using assms(16) by auto
  then have "sr_get_pin r pin = (case pin_level (register_level (regs ! nat i)) (bd_cells dev) pin of None \<Rightarrow> Ps_UNKNOWN | Some l \<Rightarrow> l)"
    by (simp add: sr_get_pin_def)
  with read_pin_sampled [OF v 1(1)] assms(15) 1(2) show ?thesis
    by (auto simp: read_pin_json_def pin_state_str_def split: option.splits pin_state.splits)
qed

definition demo_context :: "(tap_state \<times> bool) hw_context" where
  "demo_context = new_context demo_chain"

lemma demo_context_ok:
  "scanner_at 0 demo_context = \<lparr>sc_index = 0, sc_filter = [], sc_error = []\<rparr>" "cx_chain demo_context = demo_chain"
  "valid_index demo_chain 0"
  by (simp_all add: demo_context_def new_context_def scanner_at_def valid_index_def demo_chain_def)

theorem read_pin_answers_witness:
  "\<exists>cx'. read_pin_task (chain_link [True, False, False, True, False, False]) 0 ''A'' demo_context =
     Some (Inr (JObject [(''device_index'', JInt 0), (''pin_name'', JString ''A''), (''state'', JString ''high'')]), cx')"
proof -
  let ?regs = "[[True, False, False, True, False], [False]]"
  note c = demo_context_ok
  have sync: "in_sync id (jc_tap (cx_chain demo_context))" by (simp add: c in_sync_def demo_chain_def)
  have dev: "scanner_bsdl (scanner_at 0 demo_context) (cx_chain demo_context) = Some demo_device" "sc_index (scanner_at 0 demo_context) = 0"
    by (simp_all add: c scanner_bsdl_def scanner_ready_def, simp add: demo_chain_def)
  have op: "sample_opcode demo_device = Some 1" by (simp add: sample_opcode_def get_instruction_def demo_device_def)
  have ir: "\<forall>d \<in> set (jc_devices (cx_chain demo_context)). cd_ir_length d \<le> 32" "0 < total_ir_length (cx_chain demo_context)"
    by (simp_all add: c demo_chain_def new_device_def total_ir_length_def)
  have len: "0 < bd_boundary_length demo_device" "length (?regs ! nat 0) = bd_boundary_length demo_device"
    by (simp_all add: demo_device_def)
  have regs: "chain_regs (length (jc_devices (cx_chain demo_context))) (nat 0) ?regs"
    by (auto simp: c chain_regs_def demo_chain_def less_Suc_eq)
  have clean: "sc_error (scanner_at 0 demo_context) = []" "sc_filter (scanner_at 0 demo_context) = [] \<or> ''A'' \<in> set (sc_filter (scanner_at 0 demo_context))"
    by (simp_all add: c)
  have lv: "pin_level (register_level [True, False, False, True, False]) (bd_cells demo_device) ''A'' = Some Ps_HIGH"
    by (simp add: pin_level_def deciding_cell_def demo_device_def demo_cell_def default_cell_def has_pin_def is_input_def
        register_level_def pin_state_of_def)
  have sc: "shows_chain id (chain_level (concat ?regs)) (concat ?regs)" by (rule chain_link_ok(3))
  from read_pin_answers [OF chain_link_always_ok [of "concat ?regs"] chain_link_ok(1,2) sync dev op ir demo_cells_ok len(1) sc regs len(2) clean]
  show ?thesis using lv by auto
qed

text \<open>C20: A capture with a pin filter leaves the filter in the scanner that the tools share: whatever the capture ends with and
  whatever level a pin has, \<open>read_pin\<close> on the same device afterwards says "unknown" for every pin that is not in the
  filter.\<close>

theorem capture_filter_hides_pins:
  assumes "capture_task L t0 obs i depth interval mode pins cx = Some (res, cx1)" and "valid_index (cx_chain cx) i"
    and "pins \<noteq> []" and "pin \<notin> set pins" and "read_pin_task L i pin cx1 = Some (Inr v, cx2)"
  shows "v = JObject [(''device_index'', JInt i), (''pin_name'', JString pin), (''state'', JString ''unknown'')]"
proof -
  have f: "sc_filter (scanner_at i cx1) = remdups pins" by (rule capture_leaves_filter [OF assms(1,2)])
  have g: "get_scanner i cx1 = Some (Inr (scanner_at i cx1), cx1)"
    using assms(1) f assms(3)
    by (cases "cx_scanners cx1 i") (auto simp: get_scanner_def scanner_at_def)
  obtain r s c where s: "scanner_sample L (scanner_at i cx1) (cx_chain cx1) = Some (r, s, c)" "sc_error s = []"
    "v = read_pin_json i pin (sr_get_pin r pin)"
    using assms(5)
    by (auto simp: read_pin_task_def step_bind_def g sample_step_def on_scanner_def step_throw_def step_return_def read_pin_json_def
        split: option.splits sum.splits if_splits)
  have "sr_pin_states r pin = None" using sample_filter(2) [OF s(1)] f assms(3,4) by simp
  then show ?thesis by (simp add: s(3) read_pin_json_def sr_get_pin_def pin_state_str_def)
qed

theorem capture_filter_hides_pins_witness:
  "\<exists>res cx1 cx2. capture_task (chain_link [True, False, False, True, False, False]) 0 [(True, 0, 0)] 0 10 1000 Tm_SINGLE [''C''] demo_context =
       Some (res, cx1) \<and>
     read_pin_task (chain_link [True, False, False, True, False, False]) 0 ''A'' cx1 =
       Some (Inr (JObject [(''device_index'', JInt 0), (''pin_name'', JString ''A''), (''state'', JString ''unknown'')]), cx2)"
proof -
  let ?L = "chain_link [True, False, False, True, False, False]" and ?regs = "[[True, False, False, True, False], [False]]"
  let ?s = "\<lparr>sc_index = 0, sc_filter = [''C''], sc_error = []\<rparr>"
  note c = demo_context_ok
  have v: "valid_index (cx_chain demo_context) 0" by (simp add: c)
  let ?cx1 = "demo_context\<lparr>cx_scanners := [0 \<mapsto> ?s]\<rparr>"
  have m: "cx_scanners demo_context = Map.empty" by (simp add: demo_context_def new_context_def)
  obtain res where cap: "capture_task ?L 0 [(True, 0, 0)] 0 10 1000 Tm_SINGLE [''C''] demo_context = Some (res, ?cx1)"
    by (simp add: capture_task_def step_bind_def get_scanner_at [OF v] c m new_session_def set_decode_filter_def session_set_interval_def
        session_set_depth_def session_start_def set_mode_def trigger_arm_def trigger_new_def capture_loop.simps session_stop_def
        session_samples_def step_return_def Let_def)
  obtain r c' where "scanner_sample ?L ?s demo_chain = Some (r, ?s, c')" using demo_sample [OF demo_sync refl, of ?s] by auto
  then obtain x cx2 where rd: "read_pin_task ?L 0 ''A'' ?cx1 = Some (Inr x, cx2)"
    using read_pin_sampled [of ?cx1 0 ?L r ?s c' "''A''"] by (simp add: c scanner_at_def)
  have "x = JObject [(''device_index'', JInt 0), (''pin_name'', JString ''A''), (''state'', JString ''unknown'')]"
    by (rule capture_filter_hides_pins [OF cap v _ _ rd]) simp_all
  with cap rd show ?thesis by blast
qed

end
