(* ===== verification/Ila_Tool_Props.thy ===== *)
theory Ila_Tool_Props
  imports Mcp_Tools Ila_Props Ila_Trigger
begin

text \<open>
  The tools of the logic analyser on a board that has one: what \<open>ila_run_capture\<close> writes into the core and what it
  answers, and what the two tools say about an FPGA without a core.
\<close>

unbundle bit_operations_syntax

section \<open>In a session\<close>

definition pulses :: "u32 list \<Rightarrow> u32 list" where
  "pulses ws = filter (\<lambda>w. w \<noteq> 0) ws"

lemma pulses_append [simp]: "pulses (xs @ ys) = pulses xs @ pulses ys"
  by (simp add: pulses_def)

text \<open>The registers, but for the pulses.\<close>

definition pulsed :: "u32 list \<Rightarrow> ila_regs \<Rightarrow> ila_regs \<Rightarrow> bool" where
  "pulsed ws r r' \<longleftrightarrow> (\<exists>c. untouched (r\<lparr>ir_ctrl := c\<rparr>) r' \<and> pulses c = pulses (ir_ctrl r) @ ws)"

lemma pulsed_trans: "pulsed us r s \<Longrightarrow> pulsed ws s u \<Longrightarrow> pulsed (us @ ws) r u"
  by (auto simp: pulsed_def untouched_iff)

lemma pulsed_untouched: "untouched r s \<Longrightarrow> pulsed [] r s"
  by (auto simp: pulsed_def untouched_iff)

text \<open>The core configured without any condition, then armed.\<close>

definition prepared :: "nat \<Rightarrow> bool \<Rightarrow> ila_regs \<Rightarrow> ila_regs \<Rightarrow> bool" where
  "prepared pre forced r r' \<longleftrightarrow>
     pulsed ([kCtrlReset, kCtrlArm] @ (if forced then [kCtrlForce] else [])) (trigger_set 0 0 0 0 0 0 False pre r) r'"

lemma must_succeeds: "f d = Some (True, d1) \<Longrightarrow> must f k d = k d1"
  by (simp add: must_def)

lemma must_fails: "f d = Some (False, d1) \<Longrightarrow> must f k d = Some (Inl (dr_error d1), d1)"
  by (simp add: must_def)

context ila_session
begin

lemma ctrl_pulses:
  assumes "holds r (dr_backend d)" and "v < 16" and "v \<noteq> 0"
  shows "\<exists>d' r'. ctrl_pulse T v d = Some (True, d') \<and> dr_caps d' = dr_caps d \<and> holds r' (dr_backend d') \<and> pulsed [v] r r'"
proof -
  have "unat v < 2 ^ 4" using assms(2) by (simp add: word_less_nat_alt)
  then have m: "take_bit 4 v = v" by (simp add: word_unat_eq_iff unsigned_take_bit_eq take_bit_nat_eq_self)
  have "v AND 0xF = take_bit 4 v" by (simp add: take_bit_eq_mask mask_eq_exp_minus_1)
  then have a: "v AND 0xF = v" by (simp add: m)
  have "kIrCtrl < 32" by (simp add: kIrCtrl_def)
  from access_serves [OF assms(1) this, of 4 v] m obtain d' r1 x where
    1: "access_reg T kIrCtrl 4 v d = Some (Some x, d')" "dr_caps d' = dr_caps d"
    "r1 = ila_update P kIrCtrl 0 r \<or> r1 = r \<and> ir_stored r = kIrCtrl" "holds (ila_update P kIrCtrl v r1) (dr_backend d')" by auto
  have "pulsed [v] r (ila_update P kIrCtrl v r1)"
    using 1(3) assms(3) by (auto simp: pulsed_def untouched_iff ila_update_def write_reg_def kIrCtrl_def a pulses_def)
  with 1 show ?thesis by (auto simp: ctrl_pulse_def)
qed

lemma status_serves:
  assumes "holds r (dr_backend d)"
  shows "\<exists>d' r' st. read_ila_status T d = Some (Some st, d') \<and> dr_caps d' = dr_caps d \<and> holds r' (dr_backend d') \<and>
           untouched r r' \<and> ir_stored r' = kIrStatus \<and> (st_full st \<longleftrightarrow> bit (ir_status r) 2)"
proof -
  have "kIrStatus < 32" by (simp add: kIrStatus_def)
  from access_serves [OF assms this, of 8 0] obtain d' r1 where
    1: "access_reg T kIrStatus 8 0 d = Some (Some (take_bit 8 (capture_data P r1)), d')" "dr_caps d' = dr_caps d"
    "r1 = ila_update P kIrStatus 0 r \<or> r1 = r \<and> ir_stored r = kIrStatus" "holds (ila_update P kIrStatus 0 r1) (dr_backend d')" by auto
  have up: "ila_update P kIrStatus 0 s = s\<lparr>ir_sig_idx := next_sig P kIrStatus s, ir_stored := kIrStatus\<rparr>" for s
    by (simp add: ila_update_def write_reg_def kIrStatus_def)
  have st: "ir_stored r1 = kIrStatus" "ir_status r1 = ir_status r" using 1(3) by (auto simp: up)
  then have "capture_data P r1 = ir_status r AND 7" by (simp add: capture_data_def kIrStatus_def)
  moreover have "take_bit 8 (ir_status r AND 7) AND 4 \<noteq> 0 \<longleftrightarrow> bit (ir_status r) 2"
  proof -
    have m: "(7 :: u32) = mask 3" by (simp add: mask_eq_exp_minus_1)
    have "take_bit 8 (ir_status r AND 7) AND 4 \<noteq> 0 \<longleftrightarrow> bit (take_bit 8 (ir_status r AND 7)) 2"
      using and_exp_eq_0_iff_not_bit [of "take_bit 8 (ir_status r AND 7)" 2] by simp
    also have "\<dots> \<longleftrightarrow> bit (ir_status r) 2" by (simp only: m bit_take_bit_iff bit_and_iff bit_mask_iff) simp
    finally show ?thesis .
  qed
  moreover have "untouched r (ila_update P kIrStatus 0 r1)" using 1(3) by (auto simp: up untouched_iff)
  ultimately show ?thesis using 1(1,2,4) by (auto simp: read_ila_status_def up)
qed

lemma wait_full:
  assumes "holds r (dr_backend d)" and "bit (ir_status r) 2"
  shows "\<exists>d' r'. ila_wait T late d = Some (True, d') \<and> dr_caps d' = dr_caps d \<and> holds r' (dr_backend d') \<and> untouched r r' \<and>
           ir_stored r' = kIrStatus"
  using status_serves [OF assms(1)] assms(2) by (subst ila_wait.simps) fastforce

lemma wait_in_vain:
  "holds r (dr_backend d) \<Longrightarrow> \<not> bit (ir_status r) 2 \<Longrightarrow>
     \<exists>d' r'. ila_wait T (replicate n False @ True # late) d = Some (False, d') \<and> holds r' (dr_backend d') \<and> untouched r r' \<and>
       dr_error d' = ''ila_run_capture: timeout waiting for full''"
proof (induction n arbitrary: d r)
  case 0
  obtain d1 r1 st where s: "read_ila_status T d = Some (Some st, d1)" "holds r1 (dr_backend d1)" "untouched r r1" "\<not> st_full st"
    using status_serves [OF 0(1)] 0(2) by auto
  then show ?case by (subst ila_wait.simps) auto
next
  case (Suc n)
  obtain d1 r1 st where s: "read_ila_status T d = Some (Some st, d1)" "holds r1 (dr_backend d1)" "untouched r r1" "\<not> st_full st"
    using status_serves [OF Suc.prems(1)] Suc.prems(2) by auto
  then have "\<not> bit (ir_status r1) 2" using Suc.prems(2) by (auto simp: untouched_iff)
  from Suc.IH [OF s(2) this] obtain d' r' where
    1: "ila_wait T (replicate n False @ True # late) d1 = Some (False, d')" "holds r' (dr_backend d')" "untouched r1 r'"
    "dr_error d' = ''ila_run_capture: timeout waiting for full''" by blast
  then have "ila_wait T (replicate (Suc n) False @ True # late) d = Some (False, d')"
    using s(1,4) by (subst ila_wait.simps) simp
  with 1 untouched_trans [OF s(3)] show ?case by blast
qed

text \<open>Up to the wait.\<close>

lemma capture_prepares:
  assumes "holds r b" and "0 < ip_addr_w P" and "ip_addr_w P \<le> 20" and "unat (word_of_int pre :: u16) < ila_depth P"
  shows "\<exists>d r'. holds r' (dr_backend d) \<and> caps_match P (dr_caps d) \<and> prepared (unat (word_of_int pre :: u16)) forced r r' \<and>
           ila_capture_body T sidecar late forced pre b =
             map_option (\<lambda>(r, d). (r, dr_backend d)) (must (ila_wait T late) (must (set_read_addr T 0) (read_out T sidecar (dr_caps d))) d)"
proof -
  let ?p = "word_of_int pre :: u16"
  have "holds r (dr_backend (new_ila_driver b))" using assms(1) by (simp add: new_ila_driver_def)
  from probe_serves [OF this assms(2,3)] obtain d1 r1 where
    1: "probe T (new_ila_driver b) = Some (Some (dr_caps d1), d1)" "dr_caps d1 = (decode_caps (config_val P))\<lparr>ca_idcode := ip_idcode P\<rparr>"
    "holds r1 (dr_backend d1)" "untouched r r1" by blast
  have caps: "caps_match P (dr_caps d1)" using decode_config(1) [OF assms(2,3)] by (simp add: 1(2) caps_match_def)
  obtain d2 r2 where 2: "ctrl_pulse T kCtrlReset d1 = Some (True, d2)" "dr_caps d2 = dr_caps d1" "holds r2 (dr_backend d2)" "pulsed [kCtrlReset] r1 r2"
    using ctrl_pulses [OF 1(3), of kCtrlReset] by (auto simp: kCtrlReset_def)
  have "ucast ?p < ca_depth (dr_caps d2)"
    using assms(4) caps by (simp add: 2(2) word_less_nat_alt caps_match_def unsigned_ucast_eq take_bit_nat_eq_self less_trans [OF unsigned_less])
  from configure_serves [OF 2(3) _ this, of 0 0 0 0 0 0 False] caps obtain d3 r3 where
    3: "configure_trigger T 0 0 0 0 0 0 False ?p d2 = Some (True, d3)" "dr_caps d3 = dr_caps d2" "holds r3 (dr_backend d3)"
    "untouched (trigger_set 0 0 0 0 0 0 False (unat ?p) r2) r3" by (auto simp: 2(2))
  obtain d4 r4 where 4: "ctrl_pulse T kCtrlArm d3 = Some (True, d4)" "dr_caps d4 = dr_caps d3" "holds r4 (dr_backend d4)" "pulsed [kCtrlArm] r3 r4"
    using ctrl_pulses [OF 3(3), of kCtrlArm] by (auto simp: kCtrlArm_def)
  obtain d5 r5 where 5: "(if forced then force_trigger T else (\<lambda>d. Some (True, d))) d4 = Some (True, d5)" "dr_caps d5 = dr_caps d4"
    "holds r5 (dr_backend d5)" "pulsed (if forced then [kCtrlForce] else []) r4 r5"
  proof (cases forced)
    case True
    then show ?thesis using that ctrl_pulses [OF 4(3), of kCtrlForce] by (auto simp: kCtrlForce_def force_trigger_def)
  next
    case False
    then show ?thesis using that [of d4 r4] 4(3) pulsed_untouched [of r4 r4] by (simp add: untouched_iff)
  qed
  have "prepared (unat ?p) forced r r5"
    using 1(4) 2(4) 3(4) 4(4) 5(4) by (auto simp: prepared_def pulsed_def untouched_iff trigger_set_def)
  moreover have "ila_capture_body T sidecar late forced pre b =
      map_option (\<lambda>(r, d). (r, dr_backend d)) (must (ila_wait T late) (must (set_read_addr T 0) (read_out T sidecar (dr_caps d5))) d5)"
    using 1(1) 2(1) 3(1) 4(1) 5(1)
    by (simp add: ila_capture_body_def must_succeeds reset_capture_def configure_trigger_level_def ila_arm_def 2(2) 3(2) 4(2) 5(2))
  ultimately show ?thesis using caps 5(3) by (intro exI [of _ d5] exI [of _ r5]) (simp add: 2(2) 3(2) 4(2) 5(2))
qed

lemma capture_reads:
  assumes "holds r (dr_backend d)" and "caps_match P (dr_caps d)" and "bit (ir_status r) 2"
  shows "\<exists>d'. must (ila_wait T late) (must (set_read_addr T 0) (read_out T sidecar (dr_caps d))) d =
           Some (Inr (capture_json (dr_caps d) sidecar (rotate 1 (map (ir_mem r) [0..<ila_depth P]))), d')"
proof -
  let ?D = "ila_depth P"
  obtain d1 r1 where 1: "ila_wait T late d = Some (True, d1)" "dr_caps d1 = dr_caps d" "holds r1 (dr_backend d1)" "untouched r r1"
    using wait_full [OF assms(1,3)] by blast
  have depth: "unat (ca_depth (dr_caps d)) = ?D" "0 < ?D" using assms(2) by (simp_all add: caps_match_def ila_depth_def)
  then have pos: "0 < ca_depth (dr_caps d1)" by (simp add: 1(2) word_less_nat_alt)
  have "caps_match P (dr_caps d1)" using assms(2) by (simp add: 1(2))
  from set_read_addr_serves [OF 1(3) this pos, of 0] obtain d2 where
    2: "set_read_addr T 0 d1 = Some (True, d2)" "dr_caps d2 = dr_caps d1" "holds (ila_update P kIrReadAddr 0 r1) (dr_backend d2)" by auto
  let ?r = "ila_update P kIrReadAddr 0 r1"
  have regs: "ir_mem ?r = ir_mem r" "ir_rd_addr ?r = 0" using 1(4) by (simp_all add: ila_update_def write_reg_def kIrReadAddr_def untouched_iff)
  have st: "ir_stored ?r \<noteq> kIrReadData" by (simp add: ila_opcodes)
  have w: "data_width d2 = 32" using caps_widths [OF assms(2)] by (simp add: 1(2) 2(2))
  have c: "unat (ca_depth (dr_caps d2)) < 2 ^ 24"
  proof -
    have "(2 :: nat) ^ ip_addr_w P \<le> 2 ^ 20" using assms(2) by (intro power_increasing) (simp_all add: caps_match_def)
    then show ?thesis by (simp add: 1(2) 2(2) depth ila_depth_def)
  qed
  from read_samples_serves [OF 2(3) st w _ c] pos obtain d3 where
    3: "read_samples T d2 = Some (Some (map (\<lambda>j. ir_mem r ((1 + j) mod ?D)) [0..<?D]), d3)"
    unfolding regs by (auto simp: read_samples_def 1(2) 2(2) depth)
  have "map (\<lambda>j. ir_mem r ((1 + j) mod ?D)) [0..<?D] = rotate 1 (map (ir_mem r) [0..<?D])"
    by (intro nth_equalityI) (simp_all add: nth_rotate del: rotate_Suc)
  with 1(1) 2(1) 3 show ?thesis by (simp add: must_succeeds read_out_def)
qed

lemma capture_gives_up:
  assumes "holds r (dr_backend d)" and "\<not> bit (ir_status r) 2"
  shows "\<exists>d' r'. must (ila_wait T (replicate n False @ True # late)) k d = Some (Inl ''ila_run_capture: timeout waiting for full'', d') \<and>
           holds r' (dr_backend d') \<and> untouched r r'"
  using wait_in_vain [OF assms, of n late] must_fails by metis

end

section \<open>Properties\<close>



text \<open>The same board, with the core not full.\<close>

definition waiting_backend :: "ila_regs chip list board bscane" where
  "waiting_backend =
     new_bscane
       \<lparr>jc_tap = \<lparr>tap_st = RUN_TEST_IDLE, tap_error = [],
          tap_dev = \<lparr>bo_state = RUN_TEST_IDLE, bo_level = False, bo_reg = [],
                     bo_hw = [(replicate 4 True, demo_regs), (replicate 6 True, demo_regs\<lparr>ir_status := 1\<rparr>)]\<rparr>\<rparr>,
        jc_devices = [new_device 0 0 4, new_device 1 0 6], jc_error = []\<rparr> 1 1"

lemma waiting_ready: "ila_ready demo_params (\<lambda>_. []) demo_devices waiting_backend" "ila_of waiting_backend = demo_regs\<lparr>ir_status := 1\<rparr>"
proof -
  have "has_bypass plain_device" by (simp add: has_bypass_def plain_device_def)
  moreover have "j = 0" if "j < 2" "j \<noteq> 1" for j :: nat using that by simp
  ultimately show "ila_ready demo_params (\<lambda>_. []) demo_devices waiting_backend"
    by (auto simp: ila_ready_def on_board_def mirror_ok_def bscane_ok_def valid_index_def short_chain_def board_idle_def matches_def
        waiting_backend_def demo_devices_def new_bscane_def new_device_def kUserOpcodes_def plain_device_def ila_device_def less_Suc_eq)
  show "ila_of waiting_backend = demo_regs\<lparr>ir_status := 1\<rparr>" by (simp add: ila_of_def waiting_backend_def new_bscane_def)
qed

definition comparator_regs :: "ila_regs \<Rightarrow> trigger_regs" where
  "comparator_regs r =
     \<lparr>tr_mask = ir_mask r, tr_value = ir_value r, tr_rise = ir_rise r, tr_fall = ir_fall r, tr_mask2 = ir_mask2 r, tr_val2 = ir_val2 r\<rparr>"

text \<open>C22: \<open>ila_run_capture\<close> means to configure a trigger that matches everything; but the comparator of the core never fires
  with the registers that it writes, whatever the samples are.  Without \<open>force\<close> the core is only reset and
  armed, and when it is not full the tool can but time out.\<close>

theorem match_all_never_fires:
  assumes "ila_ready P other Ds b" and "0 < ip_addr_w P" and "ip_addr_w P \<le> 20" and "unat (word_of_int pre :: u16) < ila_depth P"
    and "\<not> bit (ir_status (ila_of b)) 2"
  shows "\<exists>b'. ila_capture_body (board_ila Ds) sidecar (replicate n False @ True # late) False pre b =
           Some (Inl ''ila_run_capture: timeout waiting for full'', b') \<and>
         pulses (ir_ctrl (ila_of b')) = pulses (ir_ctrl (ila_of b)) @ [kCtrlReset, kCtrlArm] \<and>
         \<not> fire (comparator_regs (ila_of b')) (ir_or_mode (ila_of b')) prev data"
proof -
  have h: "board_holds P other Ds (ila_of b) b" using assms(1) by (simp add: board_holds_def)
  from ila_board.capture_prepares [OF h assms(2-4), of False] obtain d r' where
    1: "board_holds P other Ds r' (dr_backend d)" "prepared (unat (word_of_int pre :: u16)) False (ila_of b) r'"
    "ila_capture_body (board_ila Ds) sidecar (replicate n False @ True # late) False pre b =
       map_option (\<lambda>(r, d). (r, dr_backend d)) (must (ila_wait (board_ila Ds) (replicate n False @ True # late))
         (must (set_read_addr (board_ila Ds) 0) (read_out (board_ila Ds) sidecar (dr_caps d))) d)"
    by blast
  have r: "ir_status r' = ir_status (ila_of b)" "pulses (ir_ctrl r') = pulses (ir_ctrl (ila_of b)) @ [kCtrlReset, kCtrlArm]"
    "comparator_regs r' = no_regs" "\<not> ir_or_mode r'"
    using 1(2) by (auto simp: prepared_def pulsed_def untouched_iff trigger_set_def comparator_regs_def no_regs_def)
  have "\<not> bit (ir_status r') 2" using assms(5) r(1) by simp
  from ila_board.capture_gives_up [OF 1(1) this] obtain d' r1 where
    2: "must (ila_wait (board_ila Ds) (replicate n False @ True # late))
         (must (set_read_addr (board_ila Ds) 0) (read_out (board_ila Ds) sidecar (dr_caps d))) d =
       Some (Inl ''ila_run_capture: timeout waiting for full'', d')" "board_holds P other Ds r1 (dr_backend d')" "untouched r' r1"
    by blast
  then have "ila_of (dr_backend d') = r1" "ir_ctrl r1 = ir_ctrl r'" "comparator_regs r1 = no_regs" "\<not> ir_or_mode r1"
    using r(3,4) by (auto simp: board_holds_def untouched_iff comparator_regs_def)
  with 2(1) r(2) show ?thesis by (auto simp: 1(3) fire_def no_regs_def active_a_def active_b_def)
qed

theorem match_all_never_fires_witness:
  "\<exists>b'. ila_capture_body (board_ila demo_devices) None [False, True] False 1 waiting_backend =
      Some (Inl ''ila_run_capture: timeout waiting for full'', b') \<and>
    pulses (ir_ctrl (ila_of b')) = [kCtrlReset, kCtrlArm] \<and>
    \<not> fire (comparator_regs (ila_of b')) (ir_or_mode (ila_of b')) 0x55 0xFFFFFFFF"
proof -
  have p: "0 < ip_addr_w demo_params" "ip_addr_w demo_params \<le> 20" "unat (word_of_int 1 :: u16) < ila_depth demo_params"
    by (simp_all add: demo_params_def ila_depth_def)
  have idle: "\<not> bit (ir_status (ila_of waiting_backend)) 2" by (simp add: waiting_ready)
  have c: "pulses (ir_ctrl (ila_of waiting_backend)) = []" by (simp add: waiting_ready demo_regs_def pulses_def)
  show ?thesis
    using match_all_never_fires [OF waiting_ready(1) p idle, of None 1 "[]" "0x55" "0xFFFFFFFF"] by (simp add: c)
qed

text \<open>When the FPGA has no core, or one of version 0, so that CONFIG reads as a word without a version, both tools fail in the
  same probe; \<open>ila_run_capture\<close> says what is wrong, but \<open>read_ila_status\<close> throws the error of the backend, in which nothing
  has failed: its text is empty, and the client is told only that the task failed.\<close>

theorem missing_core_unexplained:
  assumes "read_idcode T (new_ila_driver b) = Some (x, d)" and "access_reg T kIrConfig 32 0 d = Some (Some w, d1)"
    and "ca_version (decode_caps w) = 0" and "it_error T (dr_backend d1) = []"
  shows "ila_capture_body T sidecar late forced pre b =
           Some (Inl (''ILA CONFIG not supported (raw=0x'' @ hex_fmt 8 (unat w) @ '')''), dr_backend d1) \<and>
         (\<exists>e. ila_status_body T b = Some (Inl e, dr_backend d1) \<and> exception_text e = ''hardware task failed'')"
proof -
  have "probe T (new_ila_driver b) =
      Some (None, d1\<lparr>dr_error := ''ILA CONFIG not supported (raw=0x'' @ hex_fmt 8 (unat w) @ '')''\<rparr>)"
    using assms(1-3) by (simp add: probe_def Let_def) (simp add: decode_caps_def Let_def)
  with assms(4) show ?thesis by (simp add: ila_capture_body_def ila_status_body_def exception_text_def)
qed

text \<open>A backend that shifts out nothing but zeros.\<close>

definition zero_ops :: "unit ila_tap_ops" where
  "zero_ops =
     \<lparr>it_select = (\<lambda>_ b. Some (True, b)), it_shift = (\<lambda>n _ b. Some (True, replicate (bytes_for n) 0, b)),
      it_batch = (\<lambda>count n _ b. Some (True, replicate (nat count * bytes_for n) 0, b)), it_error = (\<lambda>_. [])\<rparr>"

lemma zero_access: "access_reg zero_ops op 32 0 d = Some (Some 0, d)"
proof -
  have "word_of_bits (\<lambda>i. False) 32 = (0 :: u32)" by (rule bit_word_eqI) (simp add: bit_word_of_bits)
  then show ?thesis
    by (simp add: access_reg_def drv_select_def shift_dr_int_def zero_ops_def pack_bits_def unpack_bits_def list_ex_iff
        length_replicate)
qed

theorem missing_core_unexplained_witness:
  "ila_capture_body zero_ops None [] True 0 () = Some (Inl ''ILA CONFIG not supported (raw=0x00000000)'', ()) \<and>
   (\<exists>e. ila_status_body zero_ops () = Some (Inl e, ()) \<and> exception_text e = ''hardware task failed'')"
proof -
  let ?d = "new_ila_driver () :: unit ila_driver"
  have 1: "read_idcode zero_ops ?d = Some (Some 0, ?d)" by (simp add: read_idcode_def zero_access)
  have 2: "ca_version (decode_caps 0) = 0" "it_error zero_ops (dr_backend ?d) = []"
    by (simp_all add: decode_caps_def Let_def zero_ops_def)
  have 3: "''ILA CONFIG not supported (raw=0x'' @ hex_fmt 8 (unat (0 :: u32)) @ '')'' = ''ILA CONFIG not supported (raw=0x00000000)''"
    by code_simp
  show ?thesis
    using missing_core_unexplained [OF 1 zero_access 2, of None "[]" True 0] unfolding 3 by simp
qed

end
