(* ===== verification/Spec2Isabelle.thy ===== *)
theory Spec2Isabelle
  imports Interconnect I2c Spi Uart Flash_Programmer Bsdl_Roundtrip Ila_Props Rpc_Framing Mcp_Server Executor_Props Job_Id Ila_Trigger_Props Capture_Session Script_Props App_Config_Props Gui_Export Xdc Executor_Bridge Mcp_Params Mcp_Task_Props Ila_Tool_Props
begin

text \<open>
  Verification library for OWLTAP, a JTAG boundary-scan and waveform capture tool (C++, src/src).

  \<^bold>\<open>The program.\<close>  A probe (FTDI MPSSE) clocks the TAPs of the devices of a board.  \<open>MpsseCommandBuffer\<close> encodes pulses as a
  command stream, \<open>FtdiDevice\<close> sends it and reads the reply, \<open>TapController\<close> walks the TAP state machine and scans
  registers, \<open>JtagChain\<close> finds the devices and addresses one of them while the others are in BYPASS.  On the chain
  rest \<open>Scanner\<close> and \<open>PinDriver\<close> (reading and driving pins through the boundary register, which a BSDL file describes),
  \<open>PlConfig\<close> (loading an FPGA), \<open>FlashJtagBridge\<close> with \<open>SpiFlash\<close> and \<open>FlashProgrammer\<close> (writing an Intel HEX image
  into an SPI flash), and \<open>IlaDriver\<close> with its backends (an analyser inside the FPGA).  \<open>CaptureEngine\<close> and
  \<open>CaptureSession\<close> sample with a trigger, the protocol decoders and the VCD export read the samples, scripts drive the
  pins.  \<open>HardwareExecutor\<close> serialises all hardware jobs on one thread for the JSON-RPC servers of \<open>mcp/\<close>.

  \<^bold>\<open>Conventions.\<close>  Bytes and registers are words of their width; \<open>int\<close> and \<open>size_t\<close> are \<open>int\<close> and \<open>nat\<close> where the code
  bounds them, words where they can wrap.  A function that may run into undefined behaviour of C++ (an index outside a
  buffer, a shift by the width or more) returns an option, and \<open>None\<close> is that behaviour; \<open>False\<close> with \<open>lastError\<close> is the
  error path of the code.  Libraries that are not under src/ (libftdi, nlohmann::json, the file system, the SPI flash
  and the FPGA behind the chain) are parameters: records of functions, or functions of the text; \<open>double\<close> and \<open>float\<close>
  are rationals.

  \<^bold>\<open>Strings and words.\<close>  \<open>Prelude\<close>: bit buffers (\<open>or_bits\<close>, \<open>word_of_bits\<close>, \<open>bit_at\<close>), little helpers on lists and
  words.  \<open>Cxx_Strings\<close>, \<open>Cxx_Search\<close>: the functions of \<open>std::string\<close> that the parsers use.

  \<^bold>\<open>The wire.\<close>  \<open>Mpsse\<close> (src/src/ftdi/mpsse.*) and \<open>Mpsse_Stream\<close> (the stream as commands, and the pulses the engine makes
  of them); \<open>Ftdi\<close> (ftdi_device.*): open, init, transfer, with the locale \<open>probe_link\<close>, the contract of a transfer,
  interpreted on the device.  \<open>Tap_Fsm\<close>: the states, the table and the path search of tap_controller.cpp, with the states
  of IEEE 1149.1; the search gives a shortest path or, in three cases, the fallback.  \<open>Tap_Controller\<close>: every method.
  \<open>Tap_Wire\<close>, \<open>Tap_Ops\<close>, \<open>Tap_Total\<close>: what the methods do to the physical TAP, that software and TAP stay in step, and
  that a repeated scan is that many scans.

  \<^bold>\<open>The chain.\<close>  \<open>Jtag_Chain\<close>, \<open>Jtag_Chain_Props\<close> (jtag_chain.*): detection, instruction and boundary registers, bit
  positions.  \<open>Jtag_Board\<close>, \<open>Jtag_Devices\<close>: a board behind the probe, clocked pulse by pulse, as devices with registers;
  the scans of the controller carried to the single device.

  \<^bold>\<open>Boundary scan.\<close>  \<open>Bsdl_Model\<close>, \<open>Bsdl_Lexer\<close>, \<open>Bsdl_Parser\<close>, \<open>Bsdl_Roundtrip\<close> (src/src/bsdl): the text of a description
  parses back to it.  \<open>Scanner\<close>, \<open>Pin_Driver\<close> (locale \<open>bit_store\<close>), \<open>Interconnect\<close> (src/src/boundary_scan).

  \<^bold>\<open>Capture and decoding.\<close>  \<open>Trigger\<close>, \<open>Capture\<close> (src/src/capture; locale \<open>bounded_log\<close>: pushing keeps the newest entries),
  \<open>Capture_Session\<close> (src/src/hardware/capture_session.*), \<open>Protocol\<close>, \<open>I2c\<close>, \<open>Spi\<close>, \<open>Uart\<close> (src/src/protocol): a line
  that carries a transfer decodes to it.
  \<open>Script_Engine\<close> (src/src/script): commands, scripts, suites and their report; \<open>Script_Props\<close>: a script does what its
  commands mean one by one.  \<open>Gui_Export\<close> (src/src/gui/vcd_export.cpp, bus_definition.cpp): a reader of the exported dump
  gets the samples back.  \<open>Xdc\<close> (src/src/xdc): the pin table of a constraint file.  \<open>App_Config\<close>, \<open>App_Config_Props\<close>
  (src/src/gui/app_config.*): what is saved is loaded; a quoted key is found at its line because no text between two
  quotes before it equals the key.

  \<^bold>\<open>Configuration and flash.\<close>  \<open>Pl_Config\<close>; \<open>Mcs_Parser\<close>, \<open>Spi_Flash\<close> (locale \<open>spi_bridge\<close>, interpreted on the bridge in
  \<open>Flash_Bridge\<close>), \<open>Flash_Programmer\<close>: success means that the flash holds the image.

  \<^bold>\<open>The analyser.\<close>  \<open>Ila_Backend\<close>, \<open>Ila_Driver\<close> (src/src/ila; locale \<open>ila_tap\<close>, the contract of a backend, interpreted on
  both in \<open>Ila_Access\<close>), \<open>Ila_Hw\<close> (the registers of hdl/ila/rtl/ila_bscane2_top.sv), \<open>Ila_Readout\<close>, \<open>Ila_Session\<close>
  (locale \<open>ila_session\<close>: the next access reads and writes the register that was selected), \<open>Ila_Props\<close>: its
  interpretation on a board, from the driver down to the pulses.  \<open>Gui_Config\<close>, \<open>Ila_Trigger\<close>, \<open>Ila_Trigger_Props\<close>: the
  trigger conditions of src/src/gui/ila_panel.*, the registers computed from them, the comparator that reads them.

  \<^bold>\<open>Jobs and servers.\<close>  \<open>Hardware_Executor\<close> (src/src/hardware/hardware_executor.*, hardware_job.*) as labelled atomic steps,
  \<open>Executor_Props\<close> (invariants over all interleavings), \<open>Job_Id\<close>.  \<open>Json_Rpc\<close>, \<open>Rpc_Framing\<close>, \<open>Tool_Registry\<close>,
  \<open>Mcp_Server\<close> (src/src/mcp).
  \<open>Executor_Bridge\<close> (src/src/mcp/job_table.*, executor_bridge.*): the calls of the tools, whose answers are those of their
  own tasks in every interleaving.  \<open>Hardware_Context\<close> (src/src/hardware/hardware_context.*): the state that the tasks share.
  \<open>Mcp_Tools\<close>, \<open>Mcp_Calls\<close> (src/src/mcp/tools/register_tools.cpp): the task of each of the 16 tools, the schemas and the
  handlers; \<open>Mcp_Params\<close>: the handlers can read what the schemas accept; \<open>Mcp_Task_Props\<close>, \<open>Ila_Tool_Props\<close>: what the pin
  tools and the tools of the analyser answer, from the JSON down to the registers of the devices.

  \<^bold>\<open>Lemma groups.\<close>  Each operation has a lemma that it is defined (no undefined behaviour) under its preconditions, one that
  says what it returns and what it leaves, and one for its error path; well-formedness of the state (\<open>chain_ok\<close>,
  \<open>cap_ok\<close>, \<open>executor_ok\<close>, \<open>session_holds\<close>) is kept by every operation.  The properties, marked C1 onwards, are few steps
  over them; a \<open>_witness\<close> after a property applies it to a concrete input.  Theorems that show a defect of the code stand
  beside the definitions they are about.

  \<^bold>\<open>Bounds and fuel.\<close>  The loops that the code bounds keep its bound: 10 attempts of a USB read, the polls of the flash status
  (the timeout is the number of polls that end before it), 512 scans in a chunk, 7 steps of the path search.  The other
  loops recurse on the text or the list they consume, with a measure where the code moves an index; no property rests on
  fuel that could run out.

  \<^bold>\<open>Not modelled.\<close>  The D2XX branches of \<open>FtdiDevice\<close> and the enumeration of probes (Windows only, or pure calls into the
  library); time, except as clock readings that are arguments; threads and mutexes, except as the atomic steps they make;
  sockets and processes (src/src/mcp/mcp_transport.cpp beyond the reader loop, src/src/gui/gui_daemon_client.cpp,
  daemon_process_controller.cpp, src/src/tools); the drawing code of src/src/gui (Dear ImGui calls).
  Also left out: the ILA generator (templates of SystemVerilog and Tcl), the progress reports of the tools; of the analyser's core the capture state machine, the memory writes and the clock-domain crossings.
\<close>

end
